(* ===== verification/PS_Prelude.thy ===== *)
theory PS_Prelude
  imports Main "HOL-Library.Word"
begin

text \<open>
  Shared vocabulary of the development: the exception values the C++ code throws, the
  result type every fallible operation returns, the machine integers of the code
  (64-bit unsigned words, and 64-bit signed arithmetic on \<open>int\<close> with the wrap-around
  written out), C++ integer division, and the list, map and word lemmas the components
  share.
\<close>

section \<open>Automation collections\<close>

named_theorems res_simps \<open>unfolding rules for result sequencing\<close>
named_theorems wide_simps \<open>64-bit operations that cannot overflow on 32-bit operands\<close>

section \<open>Errors and results\<close>

text \<open>
  \<open>GraphErrc\<close> of \<open>include/photospider/core/graph_error.hpp\<close>, with its stable
  numbering.
\<close>

datatype GraphErrc =
    Unknown | NotFound | Cycle | Io | InvalidYaml | MissingDependency | NoOperation
  | InvalidParameter | ComputeError

fun graph_errc_value :: "GraphErrc \<Rightarrow> nat" where
  "graph_errc_value Unknown = 1"
| "graph_errc_value NotFound = 2"
| "graph_errc_value Cycle = 3"
| "graph_errc_value Io = 4"
| "graph_errc_value InvalidYaml = 5"
| "graph_errc_value MissingDependency = 6"
| "graph_errc_value NoOperation = 7"
| "graph_errc_value InvalidParameter = 8"
| "graph_errc_value ComputeError = 9"

text \<open>
  The exception classes of the modelled code. Diagnostic texts are not modelled;
  \<open>Terminate\<close> is a call of \<open>std::terminate\<close>. \<open>Fuel_Exhausted\<close> is not a C++ outcome: a
  recursion of the model that runs out of its depth bound returns it, and each such
  definition comes with a lemma that the bound it is called with is enough.
\<close>

datatype ps_exn =
    Graph_Error GraphErrc | Invalid_Argument | Overflow_Error | Logic_Error
  | Runtime_Error | Out_Of_Range | Bad_Alloc | Terminate | Fuel_Exhausted

type_synonym 'a res = "ps_exn + 'a"

definition res_bind :: "'a res \<Rightarrow> ('a \<Rightarrow> 'b res) \<Rightarrow> 'b res" where
  "res_bind m f = (case m of Inl e \<Rightarrow> Inl e | Inr x \<Rightarrow> f x)"

lemma res_bind_simps [simp, res_simps]:
  "res_bind (Inl e) f = Inl e"
  "res_bind (Inr x) f = f x"
  by (simp_all add: res_bind_def)

lemma res_bind_eq_Inr_iff [res_simps]:
  "res_bind m f = Inr y \<longleftrightarrow> (\<exists>x. m = Inr x \<and> f x = Inr y)"
  by (cases m) auto

lemma res_bind_eq_Inl_iff:
  "res_bind m f = Inl e \<longleftrightarrow> m = Inl e \<or> (\<exists>x. m = Inr x \<and> f x = Inl e)"
  by (cases m) auto

lemma res_bind_assoc: "res_bind (res_bind m f) g = res_bind m (\<lambda>x. res_bind (f x) g)"
  by (cases m) auto

lemma res_bind_cong [fundef_cong]:
  "m = m' \<Longrightarrow> (\<And>x. m' = Inr x \<Longrightarrow> f x = f' x) \<Longrightarrow> res_bind m f = res_bind m' f'"
  by (cases m') auto

text \<open>A loop whose body may throw, threading a state.\<close>

fun res_fold :: "('x \<Rightarrow> 's \<Rightarrow> 's res) \<Rightarrow> 'x list \<Rightarrow> 's \<Rightarrow> 's res" where
  "res_fold f [] s = Inr s"
| "res_fold f (x # xs) s = res_bind (f x s) (res_fold f xs)"

lemma res_fold_append [simp]:
  "res_fold f (xs @ ys) s = res_bind (res_fold f xs s) (res_fold f ys)"
  by (induction xs arbitrary: s) (auto simp: res_bind_def split: sum.splits)

lemma res_fold_fst: "res_fold (\<lambda>(i, _) s. f i s) xs s = res_fold f (map fst xs) s"
proof (induction xs arbitrary: s)
  case (Cons x xs)
  then show ?case by (cases "f (fst x) s") (auto simp: case_prod_beta)
qed simp

lemma res_fold_map: "res_fold f (map g xs) s = res_fold (\<lambda>x. f (g x)) xs s"
proof (induction xs arbitrary: s)
  case (Cons x xs)
  then show ?case by (cases "f (g x) s") simp_all
qed simp

text \<open>
  A loop that never throws: each iteration keeps \<open>P\<close> and establishes \<open>Q\<close> for its element,
  and \<open>Q\<close> is stable under the order \<open>le\<close> along which iterations move the state.
\<close>

lemma res_fold_progress:
  assumes step: "\<And>x s. x \<in> set xs \<Longrightarrow> P s \<Longrightarrow> \<exists>s'. f x s = Inr s' \<and> P s' \<and> Q x s' \<and> le s s'"
    and mono: "\<And>x s s'. Q x s \<Longrightarrow> le s s' \<Longrightarrow> Q x s'"
    and refl: "\<And>s. le s s" and trans: "\<And>a b c. le a b \<Longrightarrow> le b c \<Longrightarrow> le a c"
    and P: "P s"
  shows "\<exists>s'. res_fold f xs s = Inr s' \<and> P s' \<and> (\<forall>x \<in> set xs. Q x s') \<and> le s s'"
  using step P
proof (induction xs arbitrary: s)
  case Nil
  then show ?case using refl by auto
next
  case (Cons x xs)
  obtain s1 where s1: "f x s = Inr s1" "P s1" "Q x s1" "le s s1"
    using Cons.prems(1) [of x s] Cons.prems(2) by auto
  obtain s2 where "res_fold f xs s1 = Inr s2" "P s2" "\<forall>x \<in> set xs. Q x s2" "le s1 s2"
    using Cons.IH [OF _ s1(2)] Cons.prems(1) by auto
  with s1 show ?case using mono trans by auto
qed

section \<open>64-bit unsigned counters\<close>

type_synonym u64 = "64 word"

definition u64_max :: u64 where
  "u64_max = - 1"

lemma u64_max_le [simp]: "x \<le> u64_max"
  by (simp add: u64_max_def)

lemma unat_u64_max: "unat u64_max = 2 ^ 64 - 1"
  by (simp add: u64_max_def unsigned_minus_1_eq_mask mask_eq_exp_minus_1)

lemma unat_u64_bound: "unat (x :: u64) < 2 ^ 64"
  using unsigned_less [of x] by simp

lemma unat_succ_no_wrap:
  assumes "(x :: u64) \<noteq> u64_max"
  shows "unat (x + 1) = Suc (unat x)"
proof -
  have "unat x \<noteq> 2 ^ 64 - 1"
    using assms unat_u64_max by (metis word_unat_eq_iff)
  then have "unat x + 1 < 2 ^ 64"
    using unat_u64_bound [of x] by linarith
  then show ?thesis
    by (simp add: unat_word_ariths)
qed

lemma succ_no_wrap_less:
  assumes "(x :: u64) \<noteq> u64_max"
  shows "x < x + 1"
  using unat_succ_no_wrap [OF assms] by (simp add: word_less_nat_alt)

lemma unat_sub_of_le:
  assumes "(y :: u64) \<le> x"
  shows "unat (x - y) = unat x - unat y"
  using assms by (rule unat_sub)

section \<open>C++ signed arithmetic on \<open>int\<close>\<close>

text \<open>
  The C++ \<open>int\<close> of the build is 32 bits wide and \<open>std::int64_t\<close> 64 bits wide. Both
  are modelled as \<open>int\<close>; every 64-bit operation of the code is one of the operations
  below, which wrap at 64 bits, so that a statement about exact results is also a
  statement that no intermediate value leaves the 64-bit range.
\<close>

definition int_min :: int where
  "int_min = - (2 ^ 31)"

definition int_max :: int where
  "int_max = 2 ^ 31 - 1"

definition in_i32 :: "int \<Rightarrow> bool" where
  "in_i32 n \<longleftrightarrow> int_min \<le> n \<and> n \<le> int_max"

definition in_i64 :: "int \<Rightarrow> bool" where
  "in_i64 n \<longleftrightarrow> - (2 ^ 63) \<le> n \<and> n < 2 ^ 63"

definition wrap64 :: "int \<Rightarrow> int" where
  "wrap64 n = (n + 2 ^ 63) mod 2 ^ 64 - 2 ^ 63"

lemma wrap64_id: "in_i64 n \<Longrightarrow> wrap64 n = n"
  by (simp add: wrap64_def in_i64_def)

lemma in_i64_wrap64: "in_i64 (wrap64 n)"
  by (simp add: wrap64_def in_i64_def pos_mod_bound [of "2 ^ 64" "n + 2 ^ 63", simplified])

definition add64 :: "int \<Rightarrow> int \<Rightarrow> int" where
  "add64 a b = wrap64 (a + b)"

definition sub64 :: "int \<Rightarrow> int \<Rightarrow> int" where
  "sub64 a b = wrap64 (a - b)"

definition mul64 :: "int \<Rightarrow> int \<Rightarrow> int" where
  "mul64 a b = wrap64 (a * b)"

text \<open>C++ integer division truncates towards zero.\<close>

definition cdiv :: "int \<Rightarrow> int \<Rightarrow> int" where
  "cdiv a b = (if 0 \<le> a then a div b else - ((- a) div b))"

definition clamp64 :: "int \<Rightarrow> int \<Rightarrow> int \<Rightarrow> int" where
  "clamp64 v lo hi = (if v < lo then lo else if hi < v then hi else v)"

text \<open>
  The three magnitudes that occur: 32-bit values, sums of a few of them (below \<open>2\<^sup>3\<^sup>4\<close>)
  and products of such a sum with a 32-bit value.
\<close>

definition in_mid :: "int \<Rightarrow> bool" where
  "in_mid n \<longleftrightarrow> - (2 ^ 35) \<le> n \<and> n \<le> 2 ^ 35"

lemma in_mid_i64: "in_mid n \<Longrightarrow> in_i64 n"
  by (simp add: in_mid_def in_i64_def)

lemma in_i32_mid: "in_i32 n \<Longrightarrow> in_mid n"
  by (simp add: in_mid_def in_i32_def int_min_def int_max_def)

lemma add64_mid [wide_simps]: "in_mid (a + b) \<Longrightarrow> add64 a b = a + b"
  by (simp add: add64_def wrap64_id in_mid_i64)

lemma sub64_mid [wide_simps]: "in_mid (a - b) \<Longrightarrow> sub64 a b = a - b"
  by (simp add: sub64_def wrap64_id in_mid_i64)

lemma cdiv_nonneg [simp]: "0 \<le> a \<Longrightarrow> cdiv a b = a div b"
  by (simp add: cdiv_def)

lemma abs_cdiv_le: "0 < b \<Longrightarrow> \<bar>cdiv a b\<bar> \<le> \<bar>a\<bar>"
proof -
  assume b: "0 < b"
  have "0 \<le> n div b \<and> n div b \<le> n" if "0 \<le> n" for n :: int
    using b that zdiv_mono2 [of n 1 b] by (simp add: pos_imp_zdiv_nonneg_iff)
  from this [of a] this [of "- a"] show ?thesis
    by (cases "0 \<le> a") (auto simp: cdiv_def)
qed

section \<open>Lists and maps\<close>

lemma distinct_filter_upt [simp]: "distinct (filter P [0..<n])"
  by simp

lemma map_of_eq_Some_distinct:
  "distinct (map fst xs) \<Longrightarrow> map_of xs k = Some v \<longleftrightarrow> (k, v) \<in> set xs"
  by (rule map_of_eq_Some_iff)

text \<open>Sorting and dropping adjacent duplicates: the sorted list of the elements.\<close>

lemma length_filter_neq:
  "distinct xs \<Longrightarrow> x \<in> set xs \<Longrightarrow> Suc (length (filter (\<lambda>y. y \<noteq> x) xs)) = length xs"
  by (induction xs) (auto intro: arg_cong [where f = length] filter_True)

lemma unique_sort:
  fixes xs :: "'a :: linorder list"
  shows "sorted (remdups_adj (sort xs))" "distinct (remdups_adj (sort xs))"
    "set (remdups_adj (sort xs)) = set xs"
proof -
  have "distinct (remdups_adj ys)" if "sorted ys" for ys :: "'a list"
    using that
  proof (induction ys rule: remdups_adj.induct)
    case (3 x y ys)
    then show ?case by (auto simp: less_le_not_le)
  qed simp_all
  then show "distinct (remdups_adj (sort xs))" by simp
qed (simp_all add: sorted_remdups_adj)

section \<open>Transition systems\<close>

text \<open>
  A component whose operations are called by several threads under one lock is a state
  with a step relation, one step per critical section. Its reachable states are generated
  by the steps; a property of every reachable state is proved through the contract below,
  which each component discharges for its own invariant.
\<close>

inductive reachable :: "('s \<Rightarrow> bool) \<Rightarrow> ('s \<Rightarrow> 's \<Rightarrow> bool) \<Rightarrow> 's \<Rightarrow> bool"
  for init :: "'s \<Rightarrow> bool" and step :: "'s \<Rightarrow> 's \<Rightarrow> bool" where
  reachable_init: "init s \<Longrightarrow> reachable init step s"
| reachable_step: "reachable init step s \<Longrightarrow> step s t \<Longrightarrow> reachable init step t"

locale inv_system =
  fixes init :: "'s \<Rightarrow> bool"
    and step :: "'s \<Rightarrow> 's \<Rightarrow> bool"
    and inv :: "'s \<Rightarrow> bool"
  assumes inv_init: "init s \<Longrightarrow> inv s"
    and inv_step: "inv s \<Longrightarrow> step s t \<Longrightarrow> inv t"
begin

lemma reachable_inv: "reachable init step s \<Longrightarrow> inv s"
  by (induction rule: reachable.induct) (auto intro: inv_init inv_step)

text \<open>A relation between the states of a run that every step keeps, kept by whole runs.\<close>

lemma run_inv: "step\<^sup>*\<^sup>* s t \<Longrightarrow> inv s \<Longrightarrow> inv t"
  by (induction rule: rtranclp_induct) (auto intro: inv_step)

lemma reachable_run: "step\<^sup>*\<^sup>* s t \<Longrightarrow> reachable init step s \<Longrightarrow> reachable init step t"
  by (induction rule: rtranclp_induct) (auto intro: reachable_step)

end

end
