(* ===== verification/Geometry.thy ===== *)
theory Geometry
  imports PS_Prelude
begin

text \<open>
  Pixel geometry: \<open>include/photospider/core/geometry.hpp\<close> and
  \<open>src/lib/compute/compute_geometry.cpp\<close>. Rectangles are records of 32-bit
  coordinates; the endpoint arithmetic of the code is 64-bit (\<open>add64\<close>, \<open>sub64\<close>,
  \<open>mul64\<close>). The meaning of a rectangle is its set of pixels, and the lemmas relate each
  operation to a set operation.
\<close>

section \<open>Data\<close>

record PixelRect =
  rect_x :: int
  rect_y :: int
  rect_width :: int
  rect_height :: int

record PixelSize =
  size_width :: int
  size_height :: int

definition kRtDownscaleFactor :: int where
  "kRtDownscaleFactor = 4"

definition kRtTileSize :: int where
  "kRtTileSize = 16"

definition kHpAlignment :: int where
  "kHpAlignment = kRtDownscaleFactor * kRtTileSize"

definition kHpMicroTileSize :: int where
  "kHpMicroTileSize = 64"

definition empty_rect :: PixelRect where
  "empty_rect = \<lparr>rect_x = 0, rect_y = 0, rect_width = 0, rect_height = 0\<rparr>"

definition empty_size :: PixelSize where
  "empty_size = \<lparr>size_width = 0, size_height = 0\<rparr>"

section \<open>Operations\<close>

definition rect_from_edges :: "int \<Rightarrow> int \<Rightarrow> int \<Rightarrow> int \<Rightarrow> PixelRect" where
  "rect_from_edges x0 y0 x1 y1 =
     (if x1 \<le> x0 \<or> y1 \<le> y0 \<or> x0 < int_min \<or> y0 < int_min \<or> x1 > int_max \<or> y1 > int_max
         \<or> sub64 x1 x0 > int_max \<or> sub64 y1 y0 > int_max
      then empty_rect
      else \<lparr>rect_x = x0, rect_y = y0, rect_width = sub64 x1 x0, rect_height = sub64 y1 y0\<rparr>)"

definition is_rect_empty :: "PixelRect \<Rightarrow> bool" where
  "is_rect_empty r \<longleftrightarrow> rect_width r \<le> 0 \<or> rect_height r \<le> 0"

definition clip_rect :: "PixelRect \<Rightarrow> PixelSize \<Rightarrow> PixelRect" where
  "clip_rect r b =
     (if size_width b \<le> 0 \<or> size_height b \<le> 0 \<or> is_rect_empty r then empty_rect
      else let right = add64 (rect_x r) (rect_width r);
               bottom = add64 (rect_y r) (rect_height r)
           in rect_from_edges (clamp64 (rect_x r) 0 (size_width b))
                (clamp64 (rect_y r) 0 (size_height b))
                (clamp64 right 0 (size_width b)) (clamp64 bottom 0 (size_height b)))"

definition intersect_rect :: "PixelRect \<Rightarrow> PixelRect \<Rightarrow> PixelRect" where
  "intersect_rect l r =
     (if is_rect_empty l \<or> is_rect_empty r then empty_rect
      else rect_from_edges (max (rect_x l) (rect_x r)) (max (rect_y l) (rect_y r))
             (min (add64 (rect_x l) (rect_width l)) (add64 (rect_x r) (rect_width r)))
             (min (add64 (rect_y l) (rect_height l)) (add64 (rect_y r) (rect_height r))))"

definition translate_rect :: "PixelRect \<Rightarrow> int \<Rightarrow> int \<Rightarrow> PixelRect" where
  "translate_rect r dx dy =
     (if is_rect_empty r then empty_rect
      else if dx < sub64 int_min (rect_x r) \<or> dx > sub64 int_max (rect_x r)
            \<or> dy < sub64 int_min (rect_y r) \<or> dy > sub64 int_max (rect_y r) then empty_rect
      else let x0 = add64 (rect_x r) dx; y0 = add64 (rect_y r) dy
           in rect_from_edges x0 y0 (add64 x0 (rect_width r)) (add64 y0 (rect_height r)))"

definition expand_rect :: "PixelRect \<Rightarrow> int \<Rightarrow> PixelRect" where
  "expand_rect r padding =
     (if padding \<le> 0 \<or> is_rect_empty r then r
      else rect_from_edges (sub64 (rect_x r) padding) (sub64 (rect_y r) padding)
             (add64 (add64 (rect_x r) (rect_width r)) padding)
             (add64 (add64 (rect_y r) (rect_height r)) padding))"

definition align_rect :: "PixelRect \<Rightarrow> int \<Rightarrow> PixelRect" where
  "align_rect r alignment =
     (if is_rect_empty r \<or> alignment \<le> 1 then r
      else let right = add64 (rect_x r) (rect_width r);
               bottom = add64 (rect_y r) (rect_height r);
               x0 = mul64 (cdiv (rect_x r) alignment) alignment;
               y0 = mul64 (cdiv (rect_y r) alignment) alignment;
               x1 = mul64 (cdiv (sub64 (add64 right alignment) 1) alignment) alignment;
               y1 = mul64 (cdiv (sub64 (add64 bottom alignment) 1) alignment) alignment
           in rect_from_edges x0 y0 x1 y1)"

definition merge_rect :: "PixelRect \<Rightarrow> PixelRect \<Rightarrow> PixelRect" where
  "merge_rect a b =
     (if is_rect_empty a then b
      else if is_rect_empty b then a
      else rect_from_edges (min (rect_x a) (rect_x b)) (min (rect_y a) (rect_y b))
             (max (add64 (rect_x a) (rect_width a)) (add64 (rect_x b) (rect_width b)))
             (max (add64 (rect_y a) (rect_height a)) (add64 (rect_y b) (rect_height b))))"

definition scale_down_size :: "PixelSize \<Rightarrow> int \<Rightarrow> PixelSize" where
  "scale_down_size s factor =
     (if size_width s \<le> 0 \<or> size_height s \<le> 0 \<or> factor \<le> 0 then empty_size
      else \<lparr>size_width = cdiv (sub64 (add64 (size_width s) factor) 1) factor,
            size_height = cdiv (sub64 (add64 (size_height s) factor) 1) factor\<rparr>)"

definition scale_down_rect :: "PixelRect \<Rightarrow> int \<Rightarrow> PixelRect" where
  "scale_down_rect r factor =
     (if is_rect_empty r \<or> factor \<le> 0 then empty_rect
      else let right = add64 (rect_x r) (rect_width r);
               bottom = add64 (rect_y r) (rect_height r)
           in rect_from_edges (cdiv (rect_x r) factor) (cdiv (rect_y r) factor)
                (cdiv (sub64 (add64 right factor) 1) factor)
                (cdiv (sub64 (add64 bottom factor) 1) factor))"

definition scale_up_rect :: "PixelRect \<Rightarrow> int \<Rightarrow> PixelRect" where
  "scale_up_rect r factor =
     (if is_rect_empty r \<or> factor \<le> 0 then empty_rect
      else rect_from_edges (mul64 (rect_x r) factor) (mul64 (rect_y r) factor)
             (mul64 (add64 (rect_x r) (rect_width r)) factor)
             (mul64 (add64 (rect_y r) (rect_height r)) factor))"

definition calculate_halo :: "PixelRect \<Rightarrow> int \<Rightarrow> PixelSize \<Rightarrow> PixelRect" where
  "calculate_halo roi halo_size bounds =
     (if halo_size \<le> 0 then clip_rect roi bounds
      else clip_rect (expand_rect roi halo_size) bounds)"

section \<open>Pixels\<close>

text \<open>
  \<open>wf_rect\<close>: the fields are 32-bit values, which every C++ \<open>PixelRect\<close> satisfies.
  \<open>edge_rect\<close>: the exclusive right and bottom edges are 32-bit values too.
\<close>

definition wf_rect :: "PixelRect \<Rightarrow> bool" where
  "wf_rect r \<longleftrightarrow> in_i32 (rect_x r) \<and> in_i32 (rect_y r) \<and> in_i32 (rect_width r)
     \<and> in_i32 (rect_height r)"

definition wf_size :: "PixelSize \<Rightarrow> bool" where
  "wf_size s \<longleftrightarrow> in_i32 (size_width s) \<and> in_i32 (size_height s)"

definition edge_rect :: "PixelRect \<Rightarrow> bool" where
  "edge_rect r \<longleftrightarrow> wf_rect r \<and> rect_x r + rect_width r \<le> int_max
     \<and> rect_y r + rect_height r \<le> int_max"

definition nonneg_rect :: "PixelRect \<Rightarrow> bool" where
  "nonneg_rect r \<longleftrightarrow> 0 \<le> rect_x r \<and> 0 \<le> rect_y r"

definition pixels :: "PixelRect \<Rightarrow> (int \<times> int) set" where
  "pixels r = {rect_x r ..< rect_x r + rect_width r} \<times> {rect_y r ..< rect_y r + rect_height r}"

definition size_pixels :: "PixelSize \<Rightarrow> (int \<times> int) set" where
  "size_pixels s = {0 ..< size_width s} \<times> {0 ..< size_height s}"

lemmas geom_defs = pixels_def size_pixels_def wf_rect_def wf_size_def edge_rect_def
  nonneg_rect_def is_rect_empty_def empty_rect_def empty_size_def

lemmas i32_defs = in_i32_def int_min_def int_max_def in_mid_def

lemma pixels_empty_iff: "pixels r = {} \<longleftrightarrow> is_rect_empty r"
  by (auto simp: pixels_def is_rect_empty_def)

lemma pixels_empty_rect [simp]: "pixels empty_rect = {}"
  by (simp add: pixels_def empty_rect_def)

lemma empty_rect_empty [simp]: "is_rect_empty empty_rect"
  by (simp add: is_rect_empty_def empty_rect_def)

lemma edge_empty_rect [simp]: "edge_rect empty_rect"
  by (simp add: geom_defs i32_defs)

lemma edge_rect_wf: "edge_rect r \<Longrightarrow> wf_rect r"
  by (simp add: edge_rect_def)

text \<open>The narrowing boundary: what \<open>rect_from_edges\<close> returns for edges of moderate size.\<close>

lemma rect_from_edges_pixels:
  assumes "in_mid x0" "in_mid y0" "in_mid x1" "in_mid y1"
  shows "pixels (rect_from_edges x0 y0 x1 y1) =
    (if int_min \<le> x0 \<and> int_min \<le> y0 \<and> x1 \<le> int_max \<and> y1 \<le> int_max
        \<and> x1 - x0 \<le> int_max \<and> y1 - y0 \<le> int_max
     then {x0 ..< x1} \<times> {y0 ..< y1} else {})"
proof -
  have "sub64 x1 x0 = x1 - x0" "sub64 y1 y0 = y1 - y0"
    using assms by (auto simp: sub64_def in_mid_def in_i64_def intro!: wrap64_id)
  then show ?thesis
    by (auto simp: rect_from_edges_def pixels_def empty_rect_def)
qed

lemma edge_rect_from_edges: "edge_rect (rect_from_edges x0 y0 x1 y1)"
proof (cases "x1 \<le> x0 \<or> y1 \<le> y0 \<or> x0 < int_min \<or> y0 < int_min \<or> x1 > int_max \<or> y1 > int_max")
  case True
  then show ?thesis by (auto simp: rect_from_edges_def)
next
  case False
  then have "sub64 x1 x0 = x1 - x0" "sub64 y1 y0 = y1 - y0"
    by (auto simp: sub64_def in_i64_def i32_defs intro!: wrap64_id)
  with False show ?thesis
    by (auto simp: rect_from_edges_def geom_defs in_i32_def int_min_def int_max_def)
qed

text \<open>Every operation that narrows returns a rectangle with representable edges.\<close>

lemma edge_rect_ops:
  "edge_rect (clip_rect r b)"
  "edge_rect (intersect_rect r r')"
  "edge_rect (translate_rect r dx dy)"
  "edge_rect (scale_down_rect r f)"
  "edge_rect (scale_up_rect r f)"
  "edge_rect (calculate_halo r h b)"
  by (simp_all add: clip_rect_def intersect_rect_def translate_rect_def scale_down_rect_def
      scale_up_rect_def calculate_halo_def edge_rect_from_edges Let_def)

lemma edge_rect_ops_keep:
  "edge_rect r \<Longrightarrow> edge_rect (expand_rect r p)"
  "edge_rect r \<Longrightarrow> edge_rect (align_rect r a)"
  "edge_rect r \<Longrightarrow> edge_rect r' \<Longrightarrow> edge_rect (merge_rect r r')"
  by (simp_all add: expand_rect_def align_rect_def merge_rect_def edge_rect_from_edges Let_def)

section \<open>Endpoint arithmetic never leaves the 64-bit range\<close>

lemma add64_i32 [wide_simps]:
  "in_i32 a \<Longrightarrow> in_i32 b \<Longrightarrow> add64 a b = a + b"
  by (rule add64_mid) (simp add: i32_defs)

lemma sub64_i32 [wide_simps]:
  "in_i32 a \<Longrightarrow> in_i32 b \<Longrightarrow> sub64 a b = a - b"
  by (rule sub64_mid) (simp add: i32_defs)

lemma add64_sum_i32 [wide_simps]:
  "in_i32 a \<Longrightarrow> in_i32 b \<Longrightarrow> in_i32 c \<Longrightarrow> add64 (a + b) c = a + b + c"
  by (rule add64_mid) (simp add: i32_defs)

lemma ceil_arg_i32 [wide_simps]:
  "in_i32 a \<Longrightarrow> in_i32 b \<Longrightarrow> in_i32 c \<Longrightarrow> sub64 (a + b + c) 1 = a + b + c - 1"
  by (rule sub64_mid) (simp add: i32_defs)

lemma ceil_arg2_i32 [wide_simps]:
  "in_i32 a \<Longrightarrow> in_i32 b \<Longrightarrow> sub64 (a + b) 1 = a + b - 1"
  by (rule sub64_mid) (simp add: i32_defs)

text \<open>
  The product of a sum of two 32-bit values and a non-negative 32-bit value fits into
  64 bits.
\<close>

lemma mul64_bounded:
  assumes "\<bar>a\<bar> \<le> 2 ^ 32" "0 \<le> f" "in_i32 f"
  shows "mul64 a f = a * f"
proof -
  have "\<bar>a * f\<bar> \<le> 2 ^ 32 * f"
    using assms by (simp add: abs_mult mult_right_mono)
  also have "\<dots> \<le> 2 ^ 32 * (2 ^ 31 - 1)"
    using assms by (intro mult_left_mono) (auto simp: i32_defs)
  finally show ?thesis
    by (auto simp: mul64_def in_i64_def intro!: wrap64_id)
qed

lemma mul64_i32 [wide_simps]:
  "in_i32 a \<Longrightarrow> 0 \<le> f \<Longrightarrow> in_i32 f \<Longrightarrow> mul64 a f = a * f"
  by (rule mul64_bounded) (auto simp: i32_defs)

lemma mul64_sum_i32 [wide_simps]:
  "in_i32 a \<Longrightarrow> in_i32 b \<Longrightarrow> 0 \<le> f \<Longrightarrow> in_i32 f \<Longrightarrow> mul64 (a + b) f = (a + b) * f"
  by (rule mul64_bounded) (auto simp: i32_defs)

lemma mul64_floor [wide_simps]:
  "in_i32 a \<Longrightarrow> 0 < f \<Longrightarrow> in_i32 f \<Longrightarrow> mul64 (cdiv a f) f = cdiv a f * f"
  using abs_cdiv_le [of f a] by (intro mul64_bounded) (auto simp: i32_defs)

text \<open>Rounding up to a multiple: the quotient of the ceiling division is small.\<close>

lemma ceil_div_le:
  assumes "0 < (f :: int)" "0 \<le> a"
  shows "a \<le> (a + f - 1) div f * f" "(a + f - 1) div f * f \<le> a + f - 1"
    "(a + f - 1) div f \<le> a" "0 \<le> (a + f - 1) div f"
proof -
  define q where "q = (a + f - 1) div f"
  define m where "m = (a + f - 1) mod f"
  have eq: "a + f - 1 = q * f + m"
    unfolding q_def m_def by simp
  have m: "0 \<le> m" "m < f"
    unfolding m_def using assms(1) by simp_all
  show "a \<le> (a + f - 1) div f * f" "(a + f - 1) div f * f \<le> a + f - 1"
    using eq m unfolding q_def [symmetric] by simp_all
  show q0: "0 \<le> (a + f - 1) div f"
    using assms by (simp add: pos_imp_zdiv_nonneg_iff)
  show "(a + f - 1) div f \<le> a"
  proof (rule ccontr)
    assume "\<not> ?thesis"
    then have "(a + 1) * f \<le> q * f"
      using assms(1) unfolding q_def by (intro mult_right_mono) auto
    moreover have "a \<le> a * f"
      using assms mult_left_mono [of 1 f a] by simp
    ultimately show False
      using eq m by (simp add: algebra_simps)
  qed
qed

lemma wf_rect_fields:
  assumes "wf_rect r"
  shows "in_i32 (rect_x r)" "in_i32 (rect_y r)" "in_i32 (rect_width r)" "in_i32 (rect_height r)"
  using assms by (simp_all add: wf_rect_def)

lemma wide_edges:
  assumes "wf_rect r"
  shows "add64 (rect_x r) (rect_width r) = rect_x r + rect_width r"
    "add64 (rect_y r) (rect_height r) = rect_y r + rect_height r"
  using wf_rect_fields [OF assms] by (simp_all add: wide_simps)

lemma in_i32_1 [simp]: "in_i32 1" and in_i32_0 [simp]: "in_i32 0"
  by (simp_all add: i32_defs)

section \<open>Clipping, intersection and bounding union\<close>

lemma clip_rect_pixels:
  assumes "wf_rect r" "wf_size b"
  shows "pixels (clip_rect r b) = pixels r \<inter> size_pixels b"
proof (cases "size_width b \<le> 0 \<or> size_height b \<le> 0 \<or> is_rect_empty r")
  case True
  then show ?thesis
    by (auto simp: clip_rect_def size_pixels_def pixels_def is_rect_empty_def empty_rect_def)
next
  case False
  let ?x0 = "clamp64 (rect_x r) 0 (size_width b)" and ?y0 = "clamp64 (rect_y r) 0 (size_height b)"
  let ?x1 = "clamp64 (rect_x r + rect_width r) 0 (size_width b)"
  let ?y1 = "clamp64 (rect_y r + rect_height r) 0 (size_height b)"
  have eq: "clip_rect r b = rect_from_edges ?x0 ?y0 ?x1 ?y1"
    using False by (simp add: clip_rect_def wide_edges [OF assms(1)])
  have le: "0 \<le> clamp64 v 0 h" "clamp64 v 0 h \<le> h" if "0 < h" for v h
    using that by (auto simp: clamp64_def)
  have pos: "0 < size_width b" "0 < size_height b" "size_width b \<le> int_max" "size_height b \<le> int_max"
    using False assms(2) by (auto simp: wf_size_def in_i32_def)
  have "in_mid (clamp64 v 0 h)" if "0 < h" "h \<le> int_max" for v h
    using le [OF that(1), of v] that(2) by (simp add: in_mid_def int_max_def)
  then have mid: "in_mid ?x0" "in_mid ?y0" "in_mid ?x1" "in_mid ?y1"
    using pos by blast+
  have bounds: "int_min \<le> ?x0" "int_min \<le> ?y0" "?x1 \<le> int_max" "?y1 \<le> int_max"
    "?x1 - ?x0 \<le> int_max" "?y1 - ?y0 \<le> int_max"
    using le(1) [OF pos(1), of "rect_x r"] le(1) [OF pos(2), of "rect_y r"]
      le(2) [OF pos(1), of "rect_x r + rect_width r"] le(2) [OF pos(2), of "rect_y r + rect_height r"]
      pos(3,4) by (auto simp: int_min_def)
  have iv: "{clamp64 u 0 h ..< clamp64 v 0 h} = {u ..< v} \<inter> {0 ..< h}" if "0 < h" for u v h :: int
    using that by (auto simp: clamp64_def)
  have "pixels (clip_rect r b) = {?x0 ..< ?x1} \<times> {?y0 ..< ?y1}"
    unfolding eq rect_from_edges_pixels [OF mid] using bounds by simp
  then show ?thesis
    unfolding iv [OF pos(1)] iv [OF pos(2)] by (auto simp: pixels_def size_pixels_def)
qed

lemma intersect_rect_pixels:
  assumes "edge_rect l" "edge_rect r"
  shows "pixels (intersect_rect l r) = pixels l \<inter> pixels r"
proof (cases "is_rect_empty l \<or> is_rect_empty r")
  case True
  then show ?thesis
    by (auto simp: intersect_rect_def pixels_def is_rect_empty_def empty_rect_def)
next
  case False
  let ?x0 = "max (rect_x l) (rect_x r)" and ?y0 = "max (rect_y l) (rect_y r)"
  let ?x1 = "min (rect_x l + rect_width l) (rect_x r + rect_width r)"
  let ?y1 = "min (rect_y l + rect_height l) (rect_y r + rect_height r)"
  have eq: "intersect_rect l r = rect_from_edges ?x0 ?y0 ?x1 ?y1"
    using False assms by (simp add: intersect_rect_def wide_edges edge_rect_wf)
  have bounds: "int_min \<le> ?x0" "int_min \<le> ?y0" "?x1 \<le> int_max" "?y1 \<le> int_max"
    "?x1 - ?x0 \<le> int_max" "?y1 - ?y0 \<le> int_max"
    using assms by (auto simp: edge_rect_def wf_rect_def in_i32_def int_min_def int_max_def)
  have mid: "in_mid ?x0" "in_mid ?y0" "in_mid ?x1" "in_mid ?y1"
    using assms False by (auto simp: edge_rect_def wf_rect_def is_rect_empty_def i32_defs)
  show ?thesis
    unfolding eq rect_from_edges_pixels [OF mid] using bounds by (auto simp: pixels_def)
qed

text \<open>
  The bounding union contains both rectangles and lies inside every rectangle that does,
  unless its extent is not a 32-bit value.
\<close>

lemma merge_rect_bounding:
  assumes "edge_rect a" "edge_rect b" "\<not> is_rect_empty a" "\<not> is_rect_empty b"
    and fit: "max (rect_x a + rect_width a) (rect_x b + rect_width b) - min (rect_x a) (rect_x b) \<le> int_max"
      "max (rect_y a + rect_height a) (rect_y b + rect_height b) - min (rect_y a) (rect_y b) \<le> int_max"
  shows "pixels (merge_rect a b) =
    {min (rect_x a) (rect_x b) ..< max (rect_x a + rect_width a) (rect_x b + rect_width b)} \<times>
    {min (rect_y a) (rect_y b) ..< max (rect_y a + rect_height a) (rect_y b + rect_height b)}"
proof -
  let ?x0 = "min (rect_x a) (rect_x b)" and ?y0 = "min (rect_y a) (rect_y b)"
  let ?x1 = "max (rect_x a + rect_width a) (rect_x b + rect_width b)"
  let ?y1 = "max (rect_y a + rect_height a) (rect_y b + rect_height b)"
  have eq: "merge_rect a b = rect_from_edges ?x0 ?y0 ?x1 ?y1"
    using assms by (simp add: merge_rect_def wide_edges edge_rect_wf)
  have mid: "in_mid ?x0" "in_mid ?y0" "in_mid ?x1" "in_mid ?y1"
    using assms(1-4) by (auto simp: edge_rect_def wf_rect_def is_rect_empty_def i32_defs)
  show ?thesis
    unfolding eq rect_from_edges_pixels [OF mid] using assms
    by (auto simp: edge_rect_def wf_rect_def in_i32_def)
qed

section \<open>Alignment and scaling\<close>

lemma aligned_edges:
  assumes "edge_rect r" "nonneg_rect r" "\<not> is_rect_empty r" "1 < a" "in_i32 a"
  shows "align_rect r a =
    rect_from_edges (rect_x r div a * a) (rect_y r div a * a)
      ((rect_x r + rect_width r + a - 1) div a * a)
      ((rect_y r + rect_height r + a - 1) div a * a)"
proof -
  let ?R = "rect_x r + rect_width r" and ?B = "rect_y r + rect_height r"
  have wf: "wf_rect r" using assms(1) by (rule edge_rect_wf)
  have nn: "0 \<le> ?R" "0 \<le> ?B" "?R \<le> int_max" "?B \<le> int_max"
    using assms by (auto simp: edge_rect_def nonneg_rect_def is_rect_empty_def)
  have q: "mul64 ((?R + a - 1) div a) a = (?R + a - 1) div a * a"
    "mul64 ((?B + a - 1) div a) a = (?B + a - 1) div a * a"
    using nn assms(4,5) ceil_div_le [of a ?R] ceil_div_le [of a ?B]
    by (auto simp: int_max_def intro!: mul64_bounded)
  show ?thesis
    using assms wf_rect_fields [OF wf] nn q mul64_floor [of "rect_x r" a] mul64_floor [of "rect_y r" a]
    by (simp add: align_rect_def wide_edges [OF wf] wide_simps Let_def nonneg_rect_def)
qed

lemma floor_mult_bounds:
  assumes "0 < (a :: int)"
  shows "v div a * a \<le> v" "v < v div a * a + a"
  using assms div_mult_mod_eq [of v a] pos_mod_bound [of a v] pos_mod_sign [of a v]
  by linarith+

lemma align_rect_pixels:
  assumes "edge_rect r" "nonneg_rect r" "\<not> is_rect_empty r" "1 < a" "in_i32 a"
    and fit: "rect_x r + rect_width r + a - 1 \<le> int_max"
      "rect_y r + rect_height r + a - 1 \<le> int_max"
  shows "pixels (align_rect r a) =
    {rect_x r div a * a ..< (rect_x r + rect_width r + a - 1) div a * a} \<times>
    {rect_y r div a * a ..< (rect_y r + rect_height r + a - 1) div a * a}"
proof -
  let ?R = "rect_x r + rect_width r" and ?B = "rect_y r + rect_height r"
  have nn: "0 \<le> rect_x r" "0 \<le> rect_y r" "0 \<le> ?R" "0 \<le> ?B"
    using assms by (auto simp: nonneg_rect_def is_rect_empty_def)
  have lo: "0 \<le> rect_x r div a * a" "0 \<le> rect_y r div a * a"
    "rect_x r div a * a \<le> rect_x r" "rect_y r div a * a \<le> rect_y r"
    using nn assms(4) floor_mult_bounds [of a] by (auto simp: pos_imp_zdiv_nonneg_iff)
  have hi: "(?R + a - 1) div a * a \<le> int_max" "(?B + a - 1) div a * a \<le> int_max"
    "0 \<le> (?R + a - 1) div a * a" "0 \<le> (?B + a - 1) div a * a"
    using ceil_div_le [of a ?R] ceil_div_le [of a ?B] assms nn by auto
  have mid: "in_mid (rect_x r div a * a)" "in_mid (rect_y r div a * a)"
    "in_mid ((?R + a - 1) div a * a)" "in_mid ((?B + a - 1) div a * a)"
    using lo hi assms(1) nn by (auto simp: edge_rect_def wf_rect_def i32_defs)
  show ?thesis
    unfolding aligned_edges [OF assms(1-5)] rect_from_edges_pixels [OF mid]
    using lo hi by (auto simp: int_min_def)
qed

lemma ceil_div_eq:
  assumes "0 < (f :: int)"
  shows "(v + f - 1) div f = (v - 1) div f + 1"
proof -
  have "(v + f - 1) div f = (v - 1 + 1 * f) div f" by (simp add: algebra_simps)
  also have "\<dots> = (v - 1) div f + 1" using assms by (subst div_mult_self1) auto
  finally show ?thesis .
qed

text \<open>Half-open intervals under floor division: image and preimage.\<close>

lemma floor_image_interval:
  assumes "0 < (f :: int)" "u < v"
  shows "(\<lambda>p. p div f) ` {u ..< v} = {u div f ..< (v + f - 1) div f}"
proof
  show "(\<lambda>p. p div f) ` {u ..< v} \<subseteq> {u div f ..< (v + f - 1) div f}"
    using assms zdiv_mono1 by (force simp: ceil_div_eq)
next
  show "{u div f ..< (v + f - 1) div f} \<subseteq> (\<lambda>p. p div f) ` {u ..< v}"
  proof
    fix q assume "q \<in> {u div f ..< (v + f - 1) div f}"
    then have lo: "u div f \<le> q" and hi: "q \<le> (v - 1) div f"
      using assms by (auto simp: ceil_div_eq)
    let ?p = "max u (q * f)"
    have "q * f \<le> (v - 1) div f * f" using hi assms by (intro mult_right_mono) auto
    then have "q * f \<le> v - 1" using floor_mult_bounds(1) [OF assms(1), of "v - 1"] by linarith
    then have mem: "?p \<in> {u ..< v}" using assms by auto
    have "?p div f = q"
    proof (cases "u \<le> q * f")
      case True
      then show ?thesis using assms by (simp add: max_def)
    next
      case False
      then have "q \<le> u div f"
        using assms zdiv_mono1 [of "q * f" u f] by simp
      then have "q = u div f" using lo by simp
      then show ?thesis using False by (simp add: max_def)
    qed
    with mem show "q \<in> (\<lambda>p. p div f) ` {u ..< v}" by (metis image_eqI)
  qed
qed

lemma floor_preimage_interval:
  assumes "0 < (f :: int)"
  shows "p div f \<in> {u ..< v} \<longleftrightarrow> p \<in> {u * f ..< v * f}"
proof -
  have "u \<le> p div f \<longleftrightarrow> u * f \<le> p"
    using assms floor_mult_bounds [OF assms, of p]
    by (smt (verit, best) mult_right_mono nonzero_mult_div_cancel_right zdiv_mono1)
  moreover have "p div f < v \<longleftrightarrow> p < v * f"
    using assms by (smt (verit, best) floor_mult_bounds mult_right_mono
        nonzero_mult_div_cancel_right zdiv_mono1)
  ultimately show ?thesis by simp
qed

lemma floor_image_rect:
  assumes "0 < (f :: int)" "u < v" "s < t"
  shows "(\<lambda>(px, py). (px div f, py div f)) ` ({u ..< v} \<times> {s ..< t}) =
    {u div f ..< (v + f - 1) div f} \<times> {s div f ..< (t + f - 1) div f}"
proof -
  have "(\<lambda>(px, py). (px div f, py div f)) ` ({u ..< v} \<times> {s ..< t}) =
    ((\<lambda>p. p div f) ` {u ..< v}) \<times> ((\<lambda>p. p div f) ` {s ..< t})"
    by (rule set_eqI) (auto simp: image_iff)
  then show ?thesis
    using assms by (simp add: floor_image_interval)
qed

lemma scale_down_rect_pixels:
  assumes "edge_rect r" "nonneg_rect r" "0 < f" "in_i32 f"
  shows "pixels (scale_down_rect r f) = (\<lambda>(px, py). (px div f, py div f)) ` pixels r"
proof (cases "is_rect_empty r")
  case True
  then show ?thesis
    using pixels_empty_iff [of r] by (simp add: scale_down_rect_def)
next
  case False
  let ?R = "rect_x r + rect_width r" and ?B = "rect_y r + rect_height r"
  have wf: "wf_rect r" using assms(1) by (rule edge_rect_wf)
  have nn: "0 \<le> rect_x r" "0 \<le> rect_y r" "rect_x r < ?R" "rect_y r < ?B" "?R \<le> int_max" "?B \<le> int_max"
    using assms False by (auto simp: nonneg_rect_def is_rect_empty_def edge_rect_def)
  have eq: "scale_down_rect r f = rect_from_edges (rect_x r div f) (rect_y r div f)
      ((?R + f - 1) div f) ((?B + f - 1) div f)"
    using assms False nn wf_rect_fields [OF wf]
    by (simp add: scale_down_rect_def wide_edges [OF wf] wide_simps Let_def)
  have lo: "0 \<le> rect_x r div f" "0 \<le> rect_y r div f" "rect_x r div f \<le> int_max" "rect_y r div f \<le> int_max"
    using nn assms(3) abs_cdiv_le [of f "rect_x r"] abs_cdiv_le [of f "rect_y r"]
    by (auto simp: pos_imp_zdiv_nonneg_iff)
  have hi: "0 \<le> (?R + f - 1) div f" "0 \<le> (?B + f - 1) div f"
    "(?R + f - 1) div f \<le> int_max" "(?B + f - 1) div f \<le> int_max"
    using ceil_div_le [of f ?R] ceil_div_le [of f ?B] nn assms(3) by auto
  have mid: "in_mid (rect_x r div f)" "in_mid (rect_y r div f)"
    "in_mid ((?R + f - 1) div f)" "in_mid ((?B + f - 1) div f)"
    using lo hi by (auto simp: i32_defs)
  have "pixels (scale_down_rect r f) =
    {rect_x r div f ..< (?R + f - 1) div f} \<times> {rect_y r div f ..< (?B + f - 1) div f}"
    unfolding eq rect_from_edges_pixels [OF mid] using lo hi by (auto simp: int_min_def)
  then show ?thesis
    using floor_image_rect [OF assms(3) nn(3,4)] by (simp add: pixels_def)
qed

lemma scale_up_rect_pixels:
  assumes "edge_rect r" "nonneg_rect r" "0 < f" "in_i32 f"
    and fit: "(rect_x r + rect_width r) * f \<le> int_max" "(rect_y r + rect_height r) * f \<le> int_max"
  shows "pixels (scale_up_rect r f) = {(px, py). (px div f, py div f) \<in> pixels r}"
proof (cases "is_rect_empty r")
  case True
  then show ?thesis
    using pixels_empty_iff [of r] by (simp add: scale_up_rect_def)
next
  case False
  let ?R = "rect_x r + rect_width r" and ?B = "rect_y r + rect_height r"
  have wf: "wf_rect r" using assms(1) by (rule edge_rect_wf)
  have nn: "0 \<le> rect_x r" "0 \<le> rect_y r" "rect_x r < ?R" "rect_y r < ?B"
    using assms False by (auto simp: nonneg_rect_def is_rect_empty_def)
  have eq: "scale_up_rect r f = rect_from_edges (rect_x r * f) (rect_y r * f) (?R * f) (?B * f)"
    using assms(3,4) False wf_rect_fields [OF wf]
    by (simp add: scale_up_rect_def wide_edges [OF wf] wide_simps)
  have lo: "0 \<le> rect_x r * f" "0 \<le> rect_y r * f" "rect_x r * f \<le> ?R * f" "rect_y r * f \<le> ?B * f"
    using nn assms(3) by (auto intro!: mult_right_mono)
  have mid: "in_mid (rect_x r * f)" "in_mid (rect_y r * f)" "in_mid (?R * f)" "in_mid (?B * f)"
    using lo fit by (auto simp: i32_defs)
  have "pixels (scale_up_rect r f) = {rect_x r * f ..< ?R * f} \<times> {rect_y r * f ..< ?B * f}"
    unfolding eq rect_from_edges_pixels [OF mid] using lo fit by (auto simp: int_min_def)
  then show ?thesis
    using floor_preimage_interval [OF assms(3)]
    by (auto simp: pixels_def set_eq_iff simp del: atLeastLessThan_iff)
qed

lemma rect_from_edges_fields:
  assumes "x0 < x1" "y0 < y1" "int_min \<le> x0" "int_min \<le> y0" "x1 \<le> int_max" "y1 \<le> int_max"
    "x1 - x0 \<le> int_max" "y1 - y0 \<le> int_max"
  shows "rect_from_edges x0 y0 x1 y1 =
    \<lparr>rect_x = x0, rect_y = y0, rect_width = x1 - x0, rect_height = y1 - y0\<rparr>"
proof -
  have "sub64 x1 x0 = x1 - x0" "sub64 y1 y0 = y1 - y0"
    using assms by (auto simp: sub64_def in_i64_def int_min_def int_max_def intro!: wrap64_id)
  then show ?thesis
    using assms by (auto simp: rect_from_edges_def)
qed

lemma scale_down_rect_fields:
  assumes "edge_rect r" "nonneg_rect r" "0 < f" "in_i32 f" "\<not> is_rect_empty r"
  shows "scale_down_rect r f =
    \<lparr>rect_x = rect_x r div f, rect_y = rect_y r div f,
     rect_width = (rect_x r + rect_width r + f - 1) div f - rect_x r div f,
     rect_height = (rect_y r + rect_height r + f - 1) div f - rect_y r div f\<rparr>"
proof -
  let ?R = "rect_x r + rect_width r" and ?B = "rect_y r + rect_height r"
  have wf: "wf_rect r" using assms(1) by (rule edge_rect_wf)
  have nn: "0 \<le> rect_x r" "0 \<le> rect_y r" "rect_x r < ?R" "rect_y r < ?B" "?R \<le> int_max" "?B \<le> int_max"
    using assms by (auto simp: nonneg_rect_def is_rect_empty_def edge_rect_def)
  have lo: "0 \<le> rect_x r div f" "0 \<le> rect_y r div f"
    using nn assms(3) by (auto simp: pos_imp_zdiv_nonneg_iff)
  have hi: "(?R + f - 1) div f \<le> int_max" "(?B + f - 1) div f \<le> int_max"
    using ceil_div_le [of f ?R] ceil_div_le [of f ?B] nn assms(3) by auto
  have "rect_x r div f \<le> (?R - 1) div f" "rect_y r div f \<le> (?B - 1) div f"
    using nn assms(3) by (auto intro!: zdiv_mono1)
  then have lt: "rect_x r div f < (?R + f - 1) div f" "rect_y r div f < (?B + f - 1) div f"
    using assms(3) by (simp_all add: ceil_div_eq)
  have "scale_down_rect r f = rect_from_edges (rect_x r div f) (rect_y r div f)
      ((?R + f - 1) div f) ((?B + f - 1) div f)"
    using assms nn wf_rect_fields [OF wf]
    by (simp add: scale_down_rect_def wide_edges [OF wf] wide_simps Let_def)
  also have "\<dots> = \<lparr>rect_x = rect_x r div f, rect_y = rect_y r div f,
     rect_width = (?R + f - 1) div f - rect_x r div f,
     rect_height = (?B + f - 1) div f - rect_y r div f\<rparr>"
    using lo hi lt by (intro rect_from_edges_fields) (auto simp: int_min_def)
  finally show ?thesis .
qed

section \<open>Properties\<close>

text \<open>
  Clipping is exact: for every rectangle and extent of 32-bit fields, the clipped
  rectangle holds precisely the pixels of the rectangle that lie inside the extent, no
  64-bit endpoint overflows on the way, and the result's edges are 32-bit values again.
\<close>

theorem clip_rect_exact:
  assumes "wf_rect r" "wf_size b"
  shows "pixels (clip_rect r b) = pixels r \<inter> size_pixels b \<and> edge_rect (clip_rect r b)"
  using clip_rect_pixels [OF assms] edge_rect_ops(1) by blast

theorem clip_rect_exact_witness:
  "let r = \<lparr>rect_x = 2147483000, rect_y = - 5, rect_width = 2147483647, rect_height = 9\<rparr>;
       b = \<lparr>size_width = 2147483640, size_height = 3\<rparr>
   in pixels (clip_rect r b) = pixels r \<inter> size_pixels b \<and> edge_rect (clip_rect r b)"
  unfolding Let_def by (rule clip_rect_exact) (simp_all add: wf_rect_def wf_size_def i32_defs)

text \<open>
  Alignment rounds outward: for a rectangle with non-negative origin whose rounded
  edges are representable, the aligned rectangle contains it, its four edges are
  multiples of the grid step, and no edge moves by a full step.
\<close>

theorem align_rect_outward:
  assumes "edge_rect r" "nonneg_rect r" "\<not> is_rect_empty r" "1 < a" "in_i32 a"
    and "rect_x r + rect_width r + a - 1 \<le> int_max" "rect_y r + rect_height r + a - 1 \<le> int_max"
  shows "pixels r \<subseteq> pixels (align_rect r a)
    \<and> (\<exists>x0 y0 x1 y1. pixels (align_rect r a) = {x0 ..< x1} \<times> {y0 ..< y1}
         \<and> a dvd x0 \<and> a dvd y0 \<and> a dvd x1 \<and> a dvd y1
         \<and> rect_x r < x0 + a \<and> rect_y r < y0 + a
         \<and> x1 < rect_x r + rect_width r + a \<and> y1 < rect_y r + rect_height r + a)"
proof -
  let ?R = "rect_x r + rect_width r" and ?B = "rect_y r + rect_height r"
  have nn: "0 \<le> ?R" "0 \<le> ?B" "0 < a"
    using assms by (auto simp: nonneg_rect_def is_rect_empty_def)
  note px = align_rect_pixels [OF assms]
  note up = ceil_div_le [OF nn(3,1)] ceil_div_le [OF nn(3,2)]
  note down = floor_mult_bounds [OF nn(3), of "rect_x r"] floor_mult_bounds [OF nn(3), of "rect_y r"]
  show ?thesis
  proof
    show "pixels r \<subseteq> pixels (align_rect r a)"
      unfolding px using up(1,5) down(1,3) by (auto simp: pixels_def)
  next
    show "\<exists>x0 y0 x1 y1. pixels (align_rect r a) = {x0 ..< x1} \<times> {y0 ..< y1}
         \<and> a dvd x0 \<and> a dvd y0 \<and> a dvd x1 \<and> a dvd y1
         \<and> rect_x r < x0 + a \<and> rect_y r < y0 + a
         \<and> x1 < rect_x r + rect_width r + a \<and> y1 < rect_y r + rect_height r + a"
      by (intro exI conjI, rule px) (use up(2,6) down(2,4) in simp_all)
  qed
qed

theorem align_rect_outward_witness:
  "let r = \<lparr>rect_x = 5, rect_y = 6, rect_width = 10, rect_height = 11\<rparr>
   in pixels r \<subseteq> pixels (align_rect r 8)"
  unfolding Let_def
  by (rule align_rect_outward [THEN conjunct1]) (simp_all add: geom_defs i32_defs)

text \<open>
  For a negative origin the same operation rounds inward: truncating division moves the
  left edge of a rectangle at x = -5 to -4, so the aligned rectangle loses a pixel column.
\<close>

theorem align_rect_negative_inward:
  "\<exists>r. edge_rect r \<and> \<not> is_rect_empty r \<and> align_rect r 4 \<noteq> empty_rect
     \<and> \<not> pixels r \<subseteq> pixels (align_rect r 4)"
proof -
  let ?r = "\<lparr>rect_x = - 5, rect_y = 0, rect_width = 8, rect_height = 4\<rparr>"
  have al: "align_rect ?r 4 = \<lparr>rect_x = - 4, rect_y = 0, rect_width = 8, rect_height = 4\<rparr>"
    by code_simp
  have "edge_rect ?r" "\<not> is_rect_empty ?r" by (simp_all add: geom_defs i32_defs)
  moreover have "align_rect ?r 4 \<noteq> empty_rect" by (simp add: al empty_rect_def)
  moreover have "(- 5, 0) \<in> pixels ?r" "(- 5, 0) \<notin> pixels (align_rect ?r 4)"
    by (simp_all add: al pixels_def)
  ultimately show ?thesis by blast
qed

text \<open>
  Scaling between the HP and RT grids loses no pixel: scaling down yields exactly the
  image of the rectangle under integer division, and scaling that back up yields exactly
  the pixels whose quotient is in that image, so it contains the original rectangle.
\<close>

theorem scale_down_up_covers:
  assumes "edge_rect r" "nonneg_rect r" "0 < f" "in_i32 f"
    and "rect_x r + rect_width r + f - 1 \<le> int_max" "rect_y r + rect_height r + f - 1 \<le> int_max"
  shows "pixels (scale_down_rect r f) = (\<lambda>(px, py). (px div f, py div f)) ` pixels r
    \<and> pixels (scale_up_rect (scale_down_rect r f) f) =
        {(px, py). (px div f, py div f) \<in> (\<lambda>(px, py). (px div f, py div f)) ` pixels r}
    \<and> pixels r \<subseteq> pixels (scale_up_rect (scale_down_rect r f) f)"
proof -
  note down = scale_down_rect_pixels [OF assms(1-4)]
  have up: "pixels (scale_up_rect (scale_down_rect r f) f) =
      {(px, py). (px div f, py div f) \<in> pixels (scale_down_rect r f)}"
  proof (cases "is_rect_empty r")
    case True
    then show ?thesis by (simp add: scale_down_rect_def scale_up_rect_def)
  next
    case False
    note fields = scale_down_rect_fields [OF assms(1-4) False]
    have nn: "0 \<le> rect_x r + rect_width r" "0 \<le> rect_y r + rect_height r"
      using assms(2) False by (auto simp: nonneg_rect_def is_rect_empty_def)
    show ?thesis
    proof (rule scale_up_rect_pixels [OF edge_rect_ops(4) _ assms(3,4)])
      show "nonneg_rect (scale_down_rect r f)"
        using assms(2,3) by (simp add: fields nonneg_rect_def pos_imp_zdiv_nonneg_iff)
    qed (use ceil_div_le(2) [OF assms(3) nn(1)] ceil_div_le(2) [OF assms(3) nn(2)] assms(5,6)
          in \<open>simp_all add: fields\<close>)
  qed
  show ?thesis
    unfolding up down by (auto intro!: image_eqI)
qed

theorem scale_down_up_covers_witness:
  "let r = \<lparr>rect_x = 3, rect_y = 5, rect_width = 10, rect_height = 11\<rparr>
   in pixels r \<subseteq> pixels (scale_up_rect (scale_down_rect r 4) 4)"
  unfolding Let_def
  by (rule scale_down_up_covers [THEN conjunct2, THEN conjunct2]) (simp_all add: geom_defs i32_defs)

end
