(* ===== verification/ResourceLedger.thy ===== *)
theory ResourceLedger
  imports PS_Prelude
begin

text \<open>
  The Host-authoritative resource ledger, \<open>src/lib/runtime/resource_ledger.hpp\<close> and
  \<open>resource_ledger.cpp\<close>. A \<open>ResourceVector\<close> has five unsigned 64-bit dimensions, kept
  as words. The shared \<open>ResourceLedgerRootState\<close> and the \<open>ResourceReservationState\<close>
  objects are one record: the reservation states live in a heap indexed by allocation
  number. \<open>Reservation\<close> and \<open>Grant\<close> values are handles into that heap; the callbacks of
  the two observer kinds are modelled by the sequence of calls they receive. A call of
  \<open>std::terminate\<close> is the error \<open>Terminate\<close>.
\<close>

section \<open>Resource vectors\<close>

record ResourceVector =
  cpu_slots :: u64
  retained_memory_bytes :: u64
  scratch_bytes :: u64
  ready_entries :: u64
  ready_bytes :: u64

definition zero_resources :: ResourceVector where
  "zero_resources = \<lparr>cpu_slots = 0, retained_memory_bytes = 0, scratch_bytes = 0,
     ready_entries = 0, ready_bytes = 0\<rparr>"

definition checked_add_dimension :: "u64 \<Rightarrow> u64 \<Rightarrow> u64 option" where
  "checked_add_dimension lhs rhs = (if rhs > u64_max - lhs then None else Some (lhs + rhs))"

definition checked_multiply_dimension :: "u64 \<Rightarrow> u64 \<Rightarrow> u64 option" where
  "checked_multiply_dimension value count =
     (if value \<noteq> 0 \<and> count > u64_max div value then None else Some (value * count))"

definition subtract_resources :: "ResourceVector \<Rightarrow> ResourceVector \<Rightarrow> ResourceVector" where
  "subtract_resources l r =
     \<lparr>cpu_slots = cpu_slots l - cpu_slots r,
      retained_memory_bytes = retained_memory_bytes l - retained_memory_bytes r,
      scratch_bytes = scratch_bytes l - scratch_bytes r,
      ready_entries = ready_entries l - ready_entries r,
      ready_bytes = ready_bytes l - ready_bytes r\<rparr>"

definition zip_resources ::
  "(u64 \<Rightarrow> u64 \<Rightarrow> u64 option) \<Rightarrow> ResourceVector \<Rightarrow> ResourceVector \<Rightarrow> ResourceVector option" where
  "zip_resources f l r =
     (case f (cpu_slots l) (cpu_slots r) of None \<Rightarrow> None | Some c \<Rightarrow>
      case f (retained_memory_bytes l) (retained_memory_bytes r) of None \<Rightarrow> None | Some m \<Rightarrow>
      case f (scratch_bytes l) (scratch_bytes r) of None \<Rightarrow> None | Some s \<Rightarrow>
      case f (ready_entries l) (ready_entries r) of None \<Rightarrow> None | Some e \<Rightarrow>
      case f (ready_bytes l) (ready_bytes r) of None \<Rightarrow> None | Some b \<Rightarrow>
        Some \<lparr>cpu_slots = c, retained_memory_bytes = m, scratch_bytes = s,
              ready_entries = e, ready_bytes = b\<rparr>)"

definition checked_add_resources ::
  "ResourceVector \<Rightarrow> ResourceVector \<Rightarrow> ResourceVector option" where
  "checked_add_resources = zip_resources checked_add_dimension"

definition checked_multiply_resources :: "ResourceVector \<Rightarrow> u64 \<Rightarrow> ResourceVector option" where
  "checked_multiply_resources r count =
     zip_resources (\<lambda>v _. checked_multiply_dimension v count) r r"

definition resources_fit :: "ResourceVector \<Rightarrow> ResourceVector \<Rightarrow> bool" where
  "resources_fit requested available \<longleftrightarrow>
     cpu_slots requested \<le> cpu_slots available
     \<and> retained_memory_bytes requested \<le> retained_memory_bytes available
     \<and> scratch_bytes requested \<le> scratch_bytes available
     \<and> ready_entries requested \<le> ready_entries available
     \<and> ready_bytes requested \<le> ready_bytes available"

section \<open>Ledger state\<close>

record ReservationSettlementObserver =
  obs_context :: bool
  obs_on_settled :: bool
  obs_on_child_granted :: bool
  obs_on_child_released :: bool

definition observer_valid :: "ReservationSettlementObserver \<Rightarrow> bool" where
  "observer_valid ob \<longleftrightarrow> obs_context ob \<and> obs_on_settled ob"

definition observes_children :: "ReservationSettlementObserver \<Rightarrow> bool" where
  "observes_children ob \<longleftrightarrow>
     obs_context ob \<and> obs_on_child_granted ob \<and> obs_on_child_released ob"

definition no_observer :: ReservationSettlementObserver where
  "no_observer = \<lparr>obs_context = False, obs_on_settled = False,
     obs_on_child_granted = False, obs_on_child_released = False\<rparr>"

record ResourceReservationState =
  committed :: ResourceVector
  granted :: ResourceVector
  release_observer :: bool
  settlement_observer :: ReservationSettlementObserver
  child_count :: u64
  parent_active :: bool
  root_released :: bool

datatype ledger_event =
    Reservation_Released nat ResourceVector | Settled nat | Child_Granted nat
  | Child_Released nat

record Ledger =
  limits :: ResourceVector
  reserved :: ResourceVector
  res_states :: "nat \<Rightarrow> ResourceReservationState"
  next_state :: nat
  events :: "ledger_event list"

type_synonym Reservation = "nat option"

record Grant =
  grant_state :: "nat option"
  grant_resources :: ResourceVector

definition make_state ::
  "ResourceVector \<Rightarrow> bool \<Rightarrow> ReservationSettlementObserver \<Rightarrow> ResourceReservationState" where
  "make_state v ro so =
     \<lparr>committed = v, granted = zero_resources, release_observer = ro, settlement_observer = so,
      child_count = 0, parent_active = True, root_released = False\<rparr>"

definition make_ledger :: "ResourceVector \<Rightarrow> Ledger" where
  "make_ledger lim = \<lparr>limits = lim, reserved = zero_resources,
     res_states = (\<lambda>_. make_state zero_resources False no_observer), next_state = 0, events = []\<rparr>"

section \<open>Operations\<close>

definition release_root_resources :: "Ledger \<Rightarrow> nat \<Rightarrow> Ledger res" where
  "release_root_resources L i =
     (let st = res_states L i; v = committed st in
      if \<not> resources_fit v (reserved L) then Inl Terminate
      else Inr (L\<lparr>reserved := subtract_resources (reserved L) v,
                  events := events L
                    @ (if release_observer st then [Reservation_Released i v] else [])
                    @ (if observer_valid (settlement_observer st) then [Settled i] else [])\<rparr>))"

definition reservation_active :: "Ledger \<Rightarrow> Reservation \<Rightarrow> bool" where
  "reservation_active L h = (case h of None \<Rightarrow> False | Some i \<Rightarrow> parent_active (res_states L i))"

definition reservation_resources :: "Ledger \<Rightarrow> Reservation \<Rightarrow> ResourceVector" where
  "reservation_resources L h =
     (case h of None \<Rightarrow> zero_resources | Some i \<Rightarrow> committed (res_states L i))"

definition reservation_available :: "Ledger \<Rightarrow> Reservation \<Rightarrow> ResourceVector" where
  "reservation_available L h =
     (case h of None \<Rightarrow> zero_resources
      | Some i \<Rightarrow> subtract_resources (committed (res_states L i)) (granted (res_states L i)))"

definition try_grant ::
  "Ledger \<Rightarrow> Reservation \<Rightarrow> ResourceVector \<Rightarrow> Grant option \<times> Ledger" where
  "try_grant L h requested =
     (case h of None \<Rightarrow> (None, L)
      | Some i \<Rightarrow>
        let st = res_states L i in
        if \<not> parent_active st then (None, L)
        else if \<not> resources_fit requested (subtract_resources (committed st) (granted st))
              \<or> child_count st = u64_max then (None, L)
        else case checked_add_resources (granted st) requested of
          None \<Rightarrow> (None, L)
        | Some next_granted \<Rightarrow>
          (Some \<lparr>grant_state = Some i, grant_resources = requested\<rparr>,
           L\<lparr>res_states := (res_states L)
               (i := st\<lparr>granted := next_granted, child_count := child_count st + 1\<rparr>),
             events := events L
               @ (if observes_children (settlement_observer st) then [Child_Granted i] else [])\<rparr>))"

definition reservation_reset :: "Ledger \<Rightarrow> Reservation \<Rightarrow> Ledger res" where
  "reservation_reset L h =
     (case h of None \<Rightarrow> Inr L
      | Some i \<Rightarrow>
        let st = res_states L i in
        if \<not> parent_active st then Inl Terminate
        else let st1 = st\<lparr>parent_active := False\<rparr> in
        if child_count st = 0 then
          if root_released st \<or> granted st \<noteq> zero_resources then Inl Terminate
          else release_root_resources
                 (L\<lparr>res_states := (res_states L)(i := st1\<lparr>root_released := True\<rparr>)\<rparr>) i
        else Inr (L\<lparr>res_states := (res_states L)(i := st1)\<rparr>))"

definition grant_reset :: "Ledger \<Rightarrow> Grant \<Rightarrow> Ledger res" where
  "grant_reset L g =
     (case grant_state g of None \<Rightarrow> Inr L
      | Some i \<Rightarrow>
        let st = res_states L i in
        if child_count st = 0 \<or> \<not> resources_fit (grant_resources g) (granted st)
        then Inl Terminate
        else let st1 = st\<lparr>granted := subtract_resources (granted st) (grant_resources g),
                          child_count := child_count st - 1\<rparr>;
                 ev = (if observes_children (settlement_observer st)
                       then [Child_Released i] else [])
        in if \<not> parent_active st1 \<and> child_count st1 = 0 then
             if root_released st1 \<or> granted st1 \<noteq> zero_resources then Inl Terminate
             else release_root_resources
                    (L\<lparr>res_states := (res_states L)(i := st1\<lparr>root_released := True\<rparr>),
                       events := events L @ ev\<rparr>) i
           else Inr (L\<lparr>res_states := (res_states L)(i := st1), events := events L @ ev\<rparr>))"

definition try_reserve ::
  "Ledger \<Rightarrow> ResourceVector \<Rightarrow> bool \<Rightarrow> ReservationSettlementObserver \<Rightarrow> nat option \<times> Ledger" where
  "try_reserve L requested ro so =
     (case checked_add_resources (reserved L) requested of
        None \<Rightarrow> (None, L)
      | Some next_reserved \<Rightarrow>
        if \<not> resources_fit next_reserved (limits L) then (None, L)
        else (Some (next_state L),
              L\<lparr>reserved := next_reserved,
                res_states := (res_states L)(next_state L := make_state requested ro so),
                next_state := next_state L + 1\<rparr>))"

definition try_reserve_pair ::
  "Ledger \<Rightarrow> ResourceVector \<Rightarrow> ResourceVector \<Rightarrow> (nat \<times> nat) option \<times> Ledger" where
  "try_reserve_pair L first second =
     (case checked_add_resources first second of
        None \<Rightarrow> (None, L)
      | Some combined \<Rightarrow>
        case checked_add_resources (reserved L) combined of
          None \<Rightarrow> (None, L)
        | Some next_reserved \<Rightarrow>
          if \<not> resources_fit next_reserved (limits L) then (None, L)
          else (Some (next_state L, next_state L + 1),
                L\<lparr>reserved := next_reserved,
                  res_states := (res_states L)
                    (next_state L := make_state first False no_observer,
                     next_state L + 1 := make_state second False no_observer),
                  next_state := next_state L + 2\<rparr>))"

definition ledger_snapshot :: "Ledger \<Rightarrow> ResourceVector \<times> ResourceVector" where
  "ledger_snapshot L = (limits L, reserved L)"

text \<open>
  Move assignment: nothing when both operands are the same object; otherwise the target's
  old authority is reset before it takes the other handle, which is left empty.
\<close>

definition reservation_move_assign ::
  "Ledger \<Rightarrow> bool \<Rightarrow> Reservation \<Rightarrow> Reservation \<Rightarrow> (Ledger \<times> Reservation \<times> Reservation) res" where
  "reservation_move_assign L same_object self other =
     (if same_object then Inr (L, self, other)
      else res_bind (reservation_reset L self) (\<lambda>L'. Inr (L', other, None)))"

definition grant_move_assign ::
  "Ledger \<Rightarrow> bool \<Rightarrow> Grant \<Rightarrow> Grant \<Rightarrow> (Ledger \<times> Grant \<times> Grant) res" where
  "grant_move_assign L same_object self other =
     (if same_object then Inr (L, self, other)
      else res_bind (grant_reset L self)
        (\<lambda>L'. Inr (L', other, \<lparr>grant_state = None, grant_resources = zero_resources\<rparr>)))"

section \<open>Vectors as families of naturals\<close>

datatype dim = CpuSlots | RetainedMemory | Scratch | ReadyEntries | ReadyBytes

fun rv :: "dim \<Rightarrow> ResourceVector \<Rightarrow> nat" where
  "rv CpuSlots v = unat (cpu_slots v)"
| "rv RetainedMemory v = unat (retained_memory_bytes v)"
| "rv Scratch v = unat (scratch_bytes v)"
| "rv ReadyEntries v = unat (ready_entries v)"
| "rv ReadyBytes v = unat (ready_bytes v)"

lemma all_dim: "(\<forall>d. P d) \<longleftrightarrow> P CpuSlots \<and> P RetainedMemory \<and> P Scratch \<and> P ReadyEntries \<and> P ReadyBytes"
  by (metis dim.exhaust)

lemma rv_ext: "(\<And>d. rv d v = rv d w) \<Longrightarrow> v = (w :: ResourceVector)"
proof -
  assume "\<And>d. rv d v = rv d w"
  then have "\<forall>d. rv d v = rv d w" by blast
  then show ?thesis
    unfolding all_dim by (cases v; cases w) (simp add: word_unat_eq_iff)
qed

lemma rv_zero [simp]: "rv d zero_resources = 0"
  by (cases d) (simp_all add: zero_resources_def)

lemma rv_bound: "rv d v < 2 ^ 64"
  by (cases d) (simp_all add: unat_u64_bound [simplified])

lemma checked_add_dimension_Some:
  "checked_add_dimension a b = Some c \<longleftrightarrow> unat a + unat b < 2 ^ 64 \<and> unat c = unat a + unat b"
proof -
  have "unat (u64_max - a) = 2 ^ 64 - 1 - unat a"
    by (simp add: unat_sub unat_u64_max)
  then have fits: "b > u64_max - a \<longleftrightarrow> \<not> unat a + unat b < 2 ^ 64"
    using unat_u64_bound [of a] by (auto simp: word_less_nat_alt)
  show ?thesis
  proof (cases "unat a + unat b < 2 ^ 64")
    case True
    then have "unat (a + b) = unat a + unat b" by (simp add: unat_word_ariths)
    with True fits show ?thesis
      by (auto simp: checked_add_dimension_def word_unat_eq_iff)
  next
    case False
    with fits show ?thesis by (simp add: checked_add_dimension_def)
  qed
qed

lemma checked_multiply_dimension_Some:
  "checked_multiply_dimension a b = Some c \<longleftrightarrow> unat a * unat b < 2 ^ 64 \<and> unat c = unat a * unat b"
proof -
  have fits: "a \<noteq> 0 \<and> b > u64_max div a \<longleftrightarrow> \<not> unat a * unat b < 2 ^ 64"
  proof (cases "a = 0")
    case False
    then have a: "0 < unat a" by (simp add: unat_gt_0)
    have "u64_max div a < b \<longleftrightarrow> (2 ^ 64 - 1) div unat a < unat b"
      by (simp add: word_less_nat_alt unat_div unat_u64_max)
    also have "\<dots> \<longleftrightarrow> 2 ^ 64 - 1 < unat b * unat a"
      using a by (simp add: div_less_iff_less_mult)
    finally show ?thesis using False by (auto simp: mult.commute)
  qed simp
  show ?thesis
  proof (cases "unat a * unat b < 2 ^ 64")
    case True
    then have "unat (a * b) = unat a * unat b" by (simp add: unat_word_ariths)
    with True fits show ?thesis
      by (auto simp: checked_multiply_dimension_def word_unat_eq_iff)
  next
    case False
    with fits show ?thesis by (simp add: checked_multiply_dimension_def)
  qed
qed

lemma zip_resources_Some:
  "zip_resources f a b = Some c \<longleftrightarrow>
     f (cpu_slots a) (cpu_slots b) = Some (cpu_slots c)
     \<and> f (retained_memory_bytes a) (retained_memory_bytes b) = Some (retained_memory_bytes c)
     \<and> f (scratch_bytes a) (scratch_bytes b) = Some (scratch_bytes c)
     \<and> f (ready_entries a) (ready_entries b) = Some (ready_entries c)
     \<and> f (ready_bytes a) (ready_bytes b) = Some (ready_bytes c)"
  by (cases c) (auto simp: zip_resources_def split: option.splits)

lemma checked_add_resources_Some:
  "checked_add_resources a b = Some c \<longleftrightarrow>
     (\<forall>d. rv d a + rv d b < 2 ^ 64 \<and> rv d c = rv d a + rv d b)"
  unfolding checked_add_resources_def zip_resources_Some checked_add_dimension_Some all_dim by auto

lemma checked_multiply_resources_Some:
  "checked_multiply_resources a n = Some c \<longleftrightarrow>
     (\<forall>d. rv d a * unat n < 2 ^ 64 \<and> rv d c = rv d a * unat n)"
  unfolding checked_multiply_resources_def zip_resources_Some checked_multiply_dimension_Some all_dim
  by auto

lemma resources_fit_iff: "resources_fit a b \<longleftrightarrow> (\<forall>d. rv d a \<le> rv d b)"
  unfolding resources_fit_def all_dim by (simp add: word_le_nat_alt)

lemma rv_subtract:
  "resources_fit b a \<Longrightarrow> rv d (subtract_resources a b) = rv d a - rv d b"
  by (cases d) (auto simp: subtract_resources_def resources_fit_def unat_sub)

lemma checked_add_resources_exists:
  assumes "\<And>d. rv d a + rv d b < 2 ^ 64"
  shows "\<exists>c. checked_add_resources a b = Some c"
proof -
  have "\<exists>c. checked_add_dimension x y = Some c" if "unat x + unat y < 2 ^ 64" for x y
    using that checked_add_dimension_Some [of x y "x + y"] by (auto simp: unat_word_ariths)
  then have "\<exists>c. checked_add_dimension (cpu_slots a) (cpu_slots b) = Some c"
    "\<exists>c. checked_add_dimension (retained_memory_bytes a) (retained_memory_bytes b) = Some c"
    "\<exists>c. checked_add_dimension (scratch_bytes a) (scratch_bytes b) = Some c"
    "\<exists>c. checked_add_dimension (ready_entries a) (ready_entries b) = Some c"
    "\<exists>c. checked_add_dimension (ready_bytes a) (ready_bytes b) = Some c"
    using assms [of CpuSlots] assms [of RetainedMemory] assms [of Scratch]
      assms [of ReadyEntries] assms [of ReadyBytes] by simp_all
  then show ?thesis
    by (auto simp: checked_add_resources_def zip_resources_def)
qed

section \<open>Capacity vectors as an interface\<close>

text \<open>
  What the admission code relies on: a checked sum that is exact in every dimension, a
  difference that is exact where it fits, and a component-wise order. The laws below are
  all that the ledger proofs use of the five-field representation.
\<close>

locale capacity_vector =
  fixes amount :: "'d \<Rightarrow> 'v \<Rightarrow> nat"
    and zero :: 'v
    and add :: "'v \<Rightarrow> 'v \<Rightarrow> 'v option"
    and sub :: "'v \<Rightarrow> 'v \<Rightarrow> 'v"
    and fit :: "'v \<Rightarrow> 'v \<Rightarrow> bool"
    and bound :: nat
  assumes amount_ext: "(\<And>d. amount d v = amount d w) \<Longrightarrow> v = w"
    and amount_zero: "amount d zero = 0"
    and amount_bound: "amount d v < bound"
    and add_Some: "add v w = Some u \<longleftrightarrow>
      (\<forall>d. amount d v + amount d w < bound \<and> amount d u = amount d v + amount d w)"
    and add_exists: "(\<And>d. amount d v + amount d w < bound) \<Longrightarrow> \<exists>u. add v w = Some u"
    and fit_iff: "fit v w \<longleftrightarrow> (\<forall>d. amount d v \<le> amount d w)"
    and amount_sub: "fit w v \<Longrightarrow> amount d (sub v w) = amount d v - amount d w"
begin

lemma eq_zero_iff: "v = zero \<longleftrightarrow> (\<forall>d. amount d v = 0)"
  by (auto simp: amount_zero intro: amount_ext)

lemma add_amount: "add v w = Some u \<Longrightarrow> amount d u = amount d v + amount d w"
  by (simp add: add_Some)

lemma add_sub: "add v w = Some u \<Longrightarrow> sub u w = v"
  by (rule amount_ext) (simp add: amount_sub fit_iff add_amount)

lemma add_None_iff: "add v w = None \<longleftrightarrow> (\<exists>d. bound \<le> amount d v + amount d w)"
proof
  show "add v w = None \<Longrightarrow> \<exists>d. bound \<le> amount d v + amount d w"
    using add_exists [of v w] by (metis not_le option.distinct(1))
next
  assume "\<exists>d. bound \<le> amount d v + amount d w"
  then show "add v w = None"
    by (metis add_Some not_le not_Some_eq)
qed

text \<open>Admission against a limit succeeds exactly when every dimension has room.\<close>

lemma admit_iff:
  "(\<exists>u. add v w = Some u \<and> fit u lim) \<longleftrightarrow> (\<forall>d. amount d v + amount d w \<le> amount d lim)"
proof
  assume "\<exists>u. add v w = Some u \<and> fit u lim"
  then show "\<forall>d. amount d v + amount d w \<le> amount d lim"
    using fit_iff add_amount by fastforce
next
  assume room: "\<forall>d. amount d v + amount d w \<le> amount d lim"
  then have "amount d v + amount d w < bound" for d
    using amount_bound [of d lim] by (meson le_less_trans)
  then obtain u where "add v w = Some u" using add_exists by blast
  with room show "\<exists>u. add v w = Some u \<and> fit u lim"
    by (auto simp: fit_iff add_amount)
qed

text \<open>A request that fits the unused part of a commitment can be added to the used part.\<close>

lemma suballocate:
  assumes "fit g c" "fit r (sub c g)"
  shows "\<exists>u. add g r = Some u \<and> fit u c"
  using assms unfolding admit_iff by (auto simp: fit_iff amount_sub) (metis le_diff_conv2 add.commute)

end

interpretation rvec: capacity_vector rv zero_resources checked_add_resources subtract_resources
    resources_fit "2 ^ 64"
proof unfold_locales
  show "(\<And>d. rv d v = rv d w) \<Longrightarrow> v = w" for v w by (rule rv_ext)
  show "rv d zero_resources = 0" for d by simp
  show "rv d v < 2 ^ 64" for d v by (rule rv_bound)
  show "checked_add_resources v w = Some u \<longleftrightarrow>
    (\<forall>d. rv d v + rv d w < 2 ^ 64 \<and> rv d u = rv d v + rv d w)" for v w u
    by (rule checked_add_resources_Some)
  show "(\<And>d. rv d v + rv d w < 2 ^ 64) \<Longrightarrow> \<exists>u. checked_add_resources v w = Some u" for v w
    by (rule checked_add_resources_exists)
  show "resources_fit v w \<longleftrightarrow> (\<forall>d. rv d v \<le> rv d w)" for v w by (rule resources_fit_iff)
  show "resources_fit w v \<Longrightarrow> rv d (subtract_resources v w) = rv d v - rv d w" for w v d
    by (rule rv_subtract)
qed

section \<open>The ledger with its live handles\<close>

text \<open>
  \<open>owners\<close> lists the reservation states that a live \<open>Reservation\<close> value refers to and
  \<open>held\<close> the live \<open>Grant\<close> values. Handles are move-only, so a state has one owner at most
  and a grant is held once; destroying a handle is the only way to lose it.
\<close>

record Ledger_World =
  ledger :: Ledger
  owners :: "nat list"
  held :: "(nat \<times> ResourceVector) list"

definition ledger_init :: "Ledger_World \<Rightarrow> bool" where
  "ledger_init W \<longleftrightarrow> (\<exists>lim. W = \<lparr>ledger = make_ledger lim, owners = [], held = []\<rparr>)"

inductive ledger_step :: "Ledger_World \<Rightarrow> Ledger_World \<Rightarrow> bool" where
  step_reserve: "try_reserve (ledger W) v ro so = (Some i, L) \<Longrightarrow>
    ledger_step W (W\<lparr>ledger := L, owners := i # owners W\<rparr>)"
| step_reserve_pair: "try_reserve_pair (ledger W) v w = (Some (i, j), L) \<Longrightarrow>
    ledger_step W (W\<lparr>ledger := L, owners := i # j # owners W\<rparr>)"
| step_grant: "i \<in> set (owners W) \<Longrightarrow> try_grant (ledger W) (Some i) v = (Some g, L) \<Longrightarrow>
    ledger_step W (W\<lparr>ledger := L, held := (i, grant_resources g) # held W\<rparr>)"
| step_drop_owner: "i \<in> set (owners W) \<Longrightarrow> reservation_reset (ledger W) (Some i) = Inr L \<Longrightarrow>
    ledger_step W (W\<lparr>ledger := L, owners := remove1 i (owners W)\<rparr>)"
| step_drop_grant: "(i, v) \<in> set (held W) \<Longrightarrow>
    grant_reset (ledger W) \<lparr>grant_state = Some i, grant_resources = v\<rparr> = Inr L \<Longrightarrow>
    ledger_step W (W\<lparr>ledger := L, held := remove1 (i, v) (held W)\<rparr>)"

definition held_amount :: "dim \<Rightarrow> nat \<Rightarrow> (nat \<times> ResourceVector) list \<Rightarrow> nat" where
  "held_amount d i hs = sum_list (map (\<lambda>(j, v). if j = i then rv d v else 0) hs)"

definition held_count :: "nat \<Rightarrow> (nat \<times> ResourceVector) list \<Rightarrow> nat" where
  "held_count i hs = length (filter (\<lambda>(j, v). j = i) hs)"

definition open_commitment :: "dim \<Rightarrow> ResourceReservationState \<Rightarrow> nat" where
  "open_commitment d st = (if root_released st then 0 else rv d (committed st))"

definition state_inv :: "nat list \<Rightarrow> (nat \<times> ResourceVector) list \<Rightarrow> ledger_event list \<Rightarrow>
    nat \<Rightarrow> ResourceReservationState \<Rightarrow> bool" where
  "state_inv os hs evs i st \<longleftrightarrow>
     (parent_active st \<longleftrightarrow> i \<in> set os)
     \<and> unat (child_count st) = held_count i hs
     \<and> (\<forall>d. rv d (granted st) = held_amount d i hs)
     \<and> resources_fit (granted st) (committed st)
     \<and> (root_released st \<longleftrightarrow> \<not> parent_active st \<and> child_count st = 0)
     \<and> count_list evs (Settled i) =
         (if root_released st \<and> observer_valid (settlement_observer st) then 1 else 0)"

definition ledger_inv :: "Ledger_World \<Rightarrow> bool" where
  "ledger_inv W \<longleftrightarrow>
     (let L = ledger W in
      resources_fit (reserved L) (limits L)
      \<and> distinct (owners W)
      \<and> (\<forall>i \<in> set (owners W). i < next_state L)
      \<and> (\<forall>(i, v) \<in> set (held W). i < next_state L)
      \<and> (\<forall>i < next_state L. state_inv (owners W) (held W) (events L) i (res_states L i))
      \<and> (\<forall>i \<ge> next_state L. count_list (events L) (Settled i) = 0)
      \<and> (\<forall>d. rv d (reserved L) = (\<Sum>i < next_state L. open_commitment d (res_states L i))))"

lemma held_amount_simps [simp]:
  "held_amount d i [] = 0"
  "held_amount d i ((j, v) # hs) = (if j = i then rv d v else 0) + held_amount d i hs"
  by (simp_all add: held_amount_def)

lemma held_count_simps [simp]:
  "held_count i [] = 0"
  "held_count i ((j, v) # hs) = (if j = i then 1 else 0) + held_count i hs"
  by (simp_all add: held_count_def)

lemma held_remove1:
  assumes "(j, v) \<in> set hs"
  shows "held_amount d i hs = (if j = i then rv d v else 0) + held_amount d i (remove1 (j, v) hs)"
    and "held_count i hs = (if j = i then 1 else 0) + held_count i (remove1 (j, v) hs)"
  using assms by (induction hs) auto

lemma held_count_fresh: "\<forall>(i, v) \<in> set hs. i < n \<Longrightarrow> n \<le> j \<Longrightarrow> held_count j hs = 0"
  by (induction hs) auto

lemma held_amount_fresh: "\<forall>(i, v) \<in> set hs. i < n \<Longrightarrow> n \<le> j \<Longrightarrow> held_amount d j hs = 0"
  by (induction hs) auto

lemma held_amount_le: "held_count i hs = 0 \<Longrightarrow> held_amount d i hs = 0"
  by (induction hs) (auto split: if_splits)

lemma count_list_append_singleton:
  "count_list (xs @ [x]) y = count_list xs y + (if x = y then 1 else 0)"
  by simp

lemma sum_upd:
  fixes f :: "nat \<Rightarrow> nat"
  assumes "i < n"
  shows "(\<Sum>j<n. if j = i then a else f j) + f i = (\<Sum>j<n. f j) + a"
proof -
  have "(\<Sum>j<n. if j = i then a else f j) = a + (\<Sum>j \<in> {..<n} - {i}. f j)"
    using assms by (subst sum.remove [of _ i]) (auto intro!: sum.cong)
  moreover have "(\<Sum>j<n. f j) = f i + (\<Sum>j \<in> {..<n} - {i}. f j)"
    using assms by (intro sum.remove) auto
  ultimately show ?thesis by simp
qed

lemma ledger_inv_init: "ledger_init W \<Longrightarrow> ledger_inv W"
  by (auto simp: ledger_init_def ledger_inv_def make_ledger_def resources_fit_iff)

subsection \<open>Reservations\<close>

lemma try_reserve_Some:
  "try_reserve L v ro so = (Some i, L') \<longleftrightarrow>
     i = next_state L \<and> (\<exists>nr. checked_add_resources (reserved L) v = Some nr
       \<and> resources_fit nr (limits L)
       \<and> L' = L\<lparr>reserved := nr, res_states := (res_states L)(next_state L := make_state v ro so),
              next_state := next_state L + 1\<rparr>)"
  by (auto simp: try_reserve_def split: option.splits)

lemma try_reserve_None: "try_reserve L v ro so = (None, L') \<Longrightarrow> L' = L"
  by (auto simp: try_reserve_def split: option.splits if_splits)

lemma state_inv_make_state:
  "i \<in> set os \<Longrightarrow> held_count i hs = 0 \<Longrightarrow> count_list evs (Settled i) = 0 \<Longrightarrow>
   state_inv os hs evs i (make_state v ro so)"
  by (simp add: state_inv_def make_state_def resources_fit_iff held_amount_le)

lemma state_inv_other_owner:
  "i \<noteq> j \<Longrightarrow> state_inv (j # os) hs evs i st \<longleftrightarrow> state_inv os hs evs i st"
  by (simp add: state_inv_def)

lemma ledger_inv_reserve:
  assumes inv: "ledger_inv W" and res: "try_reserve (ledger W) v ro so = (Some i, L)"
  shows "ledger_inv (W\<lparr>ledger := L, owners := i # owners W\<rparr>)"
proof -
  let ?L = "ledger W"
  from res obtain nr where i: "i = next_state ?L"
    and add: "checked_add_resources (reserved ?L) v = Some nr"
    and fit: "resources_fit nr (limits ?L)"
    and L: "L = ?L\<lparr>reserved := nr, res_states := (res_states ?L)(i := make_state v ro so),
                   next_state := i + 1\<rparr>"
    by (auto simp: try_reserve_Some)
  have states: "state_inv (i # owners W) (held W) (events ?L) j (res_states L j)"
    if "j < Suc i" for j
  proof (cases "j = i")
    case True
    then show ?thesis
      using inv i held_count_fresh [of "held W" i i]
      by (auto simp: L ledger_inv_def Let_def intro!: state_inv_make_state)
  next
    case False
    then show ?thesis
      using inv that i by (simp add: L ledger_inv_def Let_def state_inv_other_owner)
  qed
  have "(\<Sum>j < i. open_commitment d (res_states L j))
      = (\<Sum>j < i. open_commitment d (res_states ?L j))" for d
    by (intro sum.cong) (auto simp: L)
  moreover have "open_commitment d (res_states L i) = rv d v" for d
    by (simp add: L open_commitment_def make_state_def)
  ultimately have "rv d nr = (\<Sum>j < Suc i. open_commitment d (res_states L j))" for d
    using inv i by (simp add: rvec.add_amount [OF add] ledger_inv_def Let_def)
  with inv i fit states show ?thesis
    by (auto simp: ledger_inv_def Let_def L)
qed

lemma try_reserve_pair_seq:
  assumes "try_reserve_pair L v w = (Some (i, j), L')"
  shows "\<exists>L1. try_reserve L v False no_observer = (Some i, L1)
     \<and> try_reserve L1 w False no_observer = (Some j, L')"
proof -
  from assms obtain vw nr where add: "checked_add_resources v w = Some vw"
      "checked_add_resources (reserved L) vw = Some nr"
    and fit: "resources_fit nr (limits L)"
    and ij: "i = next_state L" "j = next_state L + 1"
    and L': "L' = L\<lparr>reserved := nr, res_states := (res_states L)
               (i := make_state v False no_observer, j := make_state w False no_observer),
               next_state := next_state L + 2\<rparr>"
    by (auto simp: try_reserve_pair_def split: option.splits if_splits)
  have nr: "rv d nr = rv d (reserved L) + rv d v + rv d w" for d
    using rvec.add_amount [OF add(1)] rvec.add_amount [OF add(2)] by simp
  have "\<exists>u. checked_add_resources (reserved L) v = Some u \<and> resources_fit u nr"
    unfolding rvec.admit_iff by (simp add: nr)
  then obtain u where u: "checked_add_resources (reserved L) v = Some u" by blast
  have "checked_add_resources u w = Some nr"
    using rv_bound by (simp add: checked_add_resources_Some rvec.add_amount [OF u] nr [symmetric])
  moreover have "resources_fit u (limits L)"
    using fit nr by (auto simp: resources_fit_iff rvec.add_amount [OF u]) (metis add_leD1)
  ultimately show ?thesis
    using u fit by (simp add: try_reserve_Some ij L')
qed

lemma ledger_inv_reserve_pair:
  assumes inv: "ledger_inv W" and res: "try_reserve_pair (ledger W) v w = (Some (i, j), L)"
  shows "ledger_inv (W\<lparr>ledger := L, owners := i # j # owners W\<rparr>)"
proof -
  from try_reserve_pair_seq [OF res] obtain L1 where
    1: "try_reserve (ledger W) v False no_observer = (Some i, L1)"
    and 2: "try_reserve L1 w False no_observer = (Some j, L)" by blast
  from ledger_inv_reserve [OF inv 1] have "ledger_inv (W\<lparr>ledger := L1, owners := i # owners W\<rparr>)" .
  from ledger_inv_reserve [OF this, of w] 2
  have "ledger_inv (W\<lparr>ledger := L, owners := j # i # owners W\<rparr>)" by simp
  then show ?thesis
    by (auto simp: ledger_inv_def Let_def state_inv_def)
qed

lemma try_reserve_pair_admits:
  "(\<exists>p L'. try_reserve_pair L v w = (Some p, L')) \<longleftrightarrow>
     (\<forall>d. rv d (reserved L) + rv d v + rv d w \<le> rv d (limits L))"
proof -
  have "(\<exists>p L'. try_reserve_pair L v w = (Some p, L')) \<longleftrightarrow>
      (\<exists>vw. checked_add_resources v w = Some vw
        \<and> (\<exists>nr. checked_add_resources (reserved L) vw = Some nr \<and> resources_fit nr (limits L)))"
    by (auto simp: try_reserve_pair_def split: option.splits)
  also have "\<dots> \<longleftrightarrow> (\<exists>vw. checked_add_resources v w = Some vw
        \<and> (\<forall>d. rv d (reserved L) + rv d v + rv d w \<le> rv d (limits L)))"
    unfolding rvec.admit_iff by (auto simp: rvec.add_amount add.assoc)
  also have "\<dots> \<longleftrightarrow> (\<forall>d. rv d (reserved L) + rv d v + rv d w \<le> rv d (limits L))"
  proof -
    have "\<exists>vw. checked_add_resources v w = Some vw"
      if "\<forall>d. rv d (reserved L) + rv d v + rv d w \<le> rv d (limits L)"
    proof (rule checked_add_resources_exists)
      show "rv d v + rv d w < 2 ^ 64" for d
        using that [rule_format, of d] rv_bound [of d "limits L"] by linarith
    qed
    then show ?thesis by blast
  qed
  finally show ?thesis .
qed

subsection \<open>Grants\<close>

lemma try_grant_Some:
  "try_grant L (Some i) v = (Some g, L') \<longleftrightarrow>
     (let st = res_states L i in
      parent_active st
      \<and> resources_fit v (subtract_resources (committed st) (granted st))
      \<and> child_count st \<noteq> u64_max
      \<and> g = \<lparr>grant_state = Some i, grant_resources = v\<rparr>
      \<and> (\<exists>ng. checked_add_resources (granted st) v = Some ng
         \<and> L' = L\<lparr>res_states := (res_states L)
                     (i := st\<lparr>granted := ng, child_count := child_count st + 1\<rparr>),
                  events := events L
                    @ (if observes_children (settlement_observer st) then [Child_Granted i] else [])\<rparr>))"
  by (auto simp: try_grant_def Let_def split: option.splits if_splits)

lemma state_inv_other_grant:
  "i \<noteq> j \<Longrightarrow> state_inv os ((j, v) # hs) evs i st \<longleftrightarrow> state_inv os hs evs i st"
  by (simp add: state_inv_def)

lemma open_commitment_upd:
  assumes "i < n" "open_commitment d (S i) = open_commitment d st"
  shows "(\<Sum>j < n. open_commitment d ((S(i := st)) j)) = (\<Sum>j < n. open_commitment d (S j))"
  using assms by (intro sum.cong) auto

lemma ledger_inv_grant:
  assumes inv: "ledger_inv W" and i: "i \<in> set (owners W)"
    and gr: "try_grant (ledger W) (Some i) v = (Some g, L)"
  shows "ledger_inv (W\<lparr>ledger := L, held := (i, grant_resources g) # held W\<rparr>)"
proof -
  let ?L = "ledger W" let ?st = "res_states ?L i"
  from gr obtain ng where g: "grant_resources g = v"
    and fit: "resources_fit v (subtract_resources (committed ?st) (granted ?st))"
    and room: "child_count ?st \<noteq> u64_max"
    and add: "checked_add_resources (granted ?st) v = Some ng"
    and L: "L = ?L\<lparr>res_states := (res_states ?L)
                 (i := ?st\<lparr>granted := ng, child_count := child_count ?st + 1\<rparr>),
              events := events ?L
                @ (if observes_children (settlement_observer ?st) then [Child_Granted i] else [])\<rparr>"
    by (auto simp: try_grant_Some Let_def)
  let ?n = "next_state ?L" let ?evs = "events L"
  have il: "i < ?n" and st: "state_inv (owners W) (held W) (events ?L) i ?st"
    using inv i by (auto simp: ledger_inv_def Let_def)
  have evs: "count_list ?evs (Settled j) = count_list (events ?L) (Settled j)" for j
    by (simp add: L)
  have fits: "resources_fit ng (committed ?st)"
    using rvec.suballocate [OF _ fit] st add by (auto simp: state_inv_def)
  have cc: "unat (child_count ?st + 1) = Suc (unat (child_count ?st))"
    by (rule unat_succ_no_wrap [OF room])
  have "child_count ?st + 1 \<noteq> 0"
    using cc by (metis nat.distinct(1) unat_0)
  then have new: "state_inv (owners W) ((i, v) # held W) ?evs i (res_states L i)"
    using st cc fits i by (auto simp: state_inv_def L rvec.add_amount [OF add])
  have states: "state_inv (owners W) ((i, v) # held W) ?evs j (res_states L j)" if "j < ?n" for j
  proof (cases "j = i")
    case False
    then have "state_inv (owners W) (held W) (events ?L) j (res_states L j)"
      using inv that by (simp add: L ledger_inv_def Let_def)
    with False show ?thesis by (simp add: state_inv_other_grant state_inv_def evs)
  qed (use new in simp)
  have "rv d (reserved ?L) = (\<Sum>j < ?n. open_commitment d (res_states L j))" for d
    using inv open_commitment_upd [OF il] by (simp add: L ledger_inv_def Let_def open_commitment_def)
  moreover have "next_state L = ?n" "limits L = limits ?L" "reserved L = reserved ?L"
    by (simp_all add: L)
  ultimately show ?thesis
    using inv il states unfolding ledger_inv_def Let_def by (auto simp: g evs)
qed

subsection \<open>Destruction of handles\<close>

lemma release_root_ok:
  assumes "i < next_state L" "\<not> root_released (res_states L i)"
    and total: "\<And>d. rv d (reserved L) = (\<Sum>j < next_state L. open_commitment d (res_states L j))"
  shows "resources_fit (committed (res_states L i)) (reserved L)"
proof -
  have "rv d (committed (res_states L i)) \<le> (\<Sum>j < next_state L. open_commitment d (res_states L j))" for d
    using assms(1,2) member_le_sum [of i "{..< next_state L}" "\<lambda>j. open_commitment d (res_states L j)"]
    by (simp add: open_commitment_def)
  then show ?thesis by (simp add: resources_fit_iff total)
qed

lemma total_after_release:
  fixes n :: nat
  assumes "i < n" "\<not> root_released (S i)" "root_released st"
    and total: "r = (\<Sum>j < n. open_commitment d (S j))"
  shows "r - rv d (committed (S i)) = (\<Sum>j < n. open_commitment d ((S(i := st)) j))"
proof -
  have "(\<Sum>j < n. open_commitment d ((S(i := st)) j))
      = (\<Sum>j < n. if j = i then 0 else open_commitment d (S j))"
    using assms(3) by (intro sum.cong) (auto simp: open_commitment_def)
  with sum_upd [OF assms(1), of 0 "\<lambda>j. open_commitment d (S j)"] total assms(2) show ?thesis
    by (simp add: open_commitment_def)
qed

text \<open>
  Both destructors end the same way: state \<open>i\<close> becomes \<open>st\<close>, and its root capacity is
  returned exactly when \<open>st\<close> is released.
\<close>

lemma ledger_inv_upd_state:
  assumes inv: "ledger_inv W" and i: "i < next_state (ledger W)"
    and unreleased: "\<not> root_released (res_states (ledger W) i)" "\<not> root_released st"
    and same: "committed st = committed (res_states (ledger W) i)"
    and new: "state_inv os hs evs i st"
    and others: "\<And>j. j < next_state (ledger W) \<Longrightarrow> j \<noteq> i \<Longrightarrow>
      state_inv os hs evs j (res_states (ledger W) j)"
    and fresh: "\<And>j. next_state (ledger W) \<le> j \<Longrightarrow> count_list evs (Settled j) = 0"
    and sub: "distinct os" "set os \<subseteq> set (owners W)" "set hs \<subseteq> set (held W)"
  shows "ledger_inv \<lparr>ledger = (ledger W)\<lparr>res_states := (res_states (ledger W))(i := st), events := evs\<rparr>,
    owners = os, held = hs\<rparr>"
proof -
  have "rv d (reserved (ledger W)) = (\<Sum>j < next_state (ledger W).
      open_commitment d (((res_states (ledger W))(i := st)) j))" for d
    using inv i unreleased same open_commitment_upd [of i "next_state (ledger W)" d "res_states (ledger W)" st]
    by (simp add: ledger_inv_def Let_def open_commitment_def)
  with inv new others fresh sub show ?thesis
    by (auto simp: ledger_inv_def Let_def)
qed

lemma ledger_inv_release_state:
  assumes inv: "ledger_inv W" and i: "i < next_state (ledger W)"
    and unreleased: "\<not> root_released (res_states (ledger W) i)" and released: "root_released st"
    and same: "committed st = committed (res_states (ledger W) i)"
    and new: "state_inv os hs evs' i st"
    and others: "\<And>j. j < next_state (ledger W) \<Longrightarrow> j \<noteq> i \<Longrightarrow>
      state_inv os hs evs' j (res_states (ledger W) j)"
    and fresh: "\<And>j. next_state (ledger W) \<le> j \<Longrightarrow> count_list evs' (Settled j) = 0"
    and sub: "distinct os" "set os \<subseteq> set (owners W)" "set hs \<subseteq> set (held W)"
    and evs': "evs' = evs @ (if release_observer st then [Reservation_Released i (committed st)] else [])
      @ (if observer_valid (settlement_observer st) then [Settled i] else [])"
  shows "\<exists>L. release_root_resources
      ((ledger W)\<lparr>res_states := (res_states (ledger W))(i := st), events := evs\<rparr>) i = Inr L
    \<and> ledger_inv \<lparr>ledger = L, owners = os, held = hs\<rparr>"
proof -
  let ?L = "ledger W"
  have total: "rv d (reserved ?L) = (\<Sum>j < next_state ?L. open_commitment d (res_states ?L j))" for d
    using inv by (simp add: ledger_inv_def Let_def)
  have fit: "resources_fit (committed st) (reserved ?L)"
    using release_root_ok [OF i unreleased total] same by simp
  have "rv d (subtract_resources (reserved ?L) (committed st)) =
      (\<Sum>j < next_state ?L. open_commitment d (((res_states ?L)(i := st)) j))" for d
    unfolding rv_subtract [OF fit]
    using total_after_release [OF i unreleased released total] same by simp
  moreover have "resources_fit (subtract_resources (reserved ?L) (committed st)) (limits ?L)"
    using inv fit by (auto simp: resources_fit_iff rv_subtract [OF fit] ledger_inv_def Let_def
        intro: order_trans [OF diff_le_self])
  ultimately have "ledger_inv \<lparr>ledger = ?L\<lparr>res_states := (res_states ?L)(i := st),
      reserved := subtract_resources (reserved ?L) (committed st), events := evs'\<rparr>,
      owners = os, held = hs\<rparr>"
    using inv new others fresh sub by (auto simp: ledger_inv_def Let_def)
  with fit show ?thesis
    by (simp add: release_root_resources_def Let_def evs' split del: if_split)
qed

lemma world_upd:
  "W\<lparr>ledger := L, owners := os\<rparr> = \<lparr>ledger = L, owners = os, held = held W\<rparr>"
  "W\<lparr>ledger := L, held := hs\<rparr> = \<lparr>ledger = L, owners = owners W, held = hs\<rparr>"
  for W :: Ledger_World
  by (cases W, simp)+

lemma state_inv_events:
  "(\<And>j. count_list evs' (Settled j) = count_list evs (Settled j)) \<Longrightarrow>
   state_inv os hs evs' i st = state_inv os hs evs i st"
  by (simp add: state_inv_def)

lemma state_inv_drop_other_owner:
  "i \<noteq> j \<Longrightarrow> distinct os \<Longrightarrow> state_inv (remove1 j os) hs evs i st \<longleftrightarrow> state_inv os hs evs i st"
  by (simp add: state_inv_def)

lemma state_inv_drop_other_grant:
  "i \<noteq> j \<Longrightarrow> (j, v) \<in> set hs \<Longrightarrow>
   state_inv os (remove1 (j, v) hs) evs i st \<longleftrightarrow> state_inv os hs evs i st"
  using held_remove1(1) [of j v hs _ i] held_remove1(2) [of j v hs i] by (simp add: state_inv_def)

lemma state_inv_settled_other:
  "i \<noteq> j \<Longrightarrow> state_inv os hs (evs @ (if b then [Reservation_Released j v] else [])
      @ (if c then [Settled j] else [])) i st \<longleftrightarrow> state_inv os hs evs i st"
  by (simp add: state_inv_def)

text \<open>
  Destroying a live reservation never terminates the process and keeps the invariant: its
  capacity returns at once when it has no children, and stays committed otherwise.
\<close>

lemma reservation_reset_ok:
  assumes inv: "ledger_inv W" and i: "i \<in> set (owners W)"
  shows "\<exists>L. reservation_reset (ledger W) (Some i) = Inr L
    \<and> ledger_inv (W\<lparr>ledger := L, owners := remove1 i (owners W)\<rparr>)"
proof -
  let ?L = "ledger W" let ?st = "res_states ?L i" let ?os = "remove1 i (owners W)"
  have il: "i < next_state ?L" and dist: "distinct (owners W)"
    and st: "state_inv (owners W) (held W) (events ?L) i ?st"
    and others: "\<And>j. j < next_state ?L \<Longrightarrow> j \<noteq> i \<Longrightarrow>
      state_inv ?os (held W) (events ?L) j (res_states ?L j)"
    and fresh: "\<And>j. next_state ?L \<le> j \<Longrightarrow> count_list (events ?L) (Settled j) = 0"
    using inv i by (auto simp: ledger_inv_def Let_def state_inv_drop_other_owner)
  have live: "parent_active ?st" "\<not> root_released ?st"
    using st i by (auto simp: state_inv_def)
  have os: "distinct ?os" "set ?os \<subseteq> set (owners W)" "i \<notin> set ?os"
    using dist by (auto simp: set_remove1_subset)
  show ?thesis
  proof (cases "child_count ?st = 0")
    case False
    let ?st1 = "?st\<lparr>parent_active := False\<rparr>"
    have "state_inv ?os (held W) (events ?L) i ?st1"
      using st os False by (auto simp: state_inv_def)
    from ledger_inv_upd_state [OF inv il live(2) _ _ this others fresh os(1,2) subset_refl]
    show ?thesis
      using live False by (simp add: reservation_reset_def Let_def world_upd)
  next
    case True
    let ?st1 = "?st\<lparr>parent_active := False, root_released := True\<rparr>"
    let ?evs = "events ?L @ (if release_observer ?st1 then [Reservation_Released i (committed ?st1)] else [])
      @ (if observer_valid (settlement_observer ?st1) then [Settled i] else [])"
    have zero: "granted ?st = zero_resources"
      using st True by (auto simp: state_inv_def rvec.eq_zero_iff held_amount_le)
    have new: "state_inv ?os (held W) ?evs i ?st1"
      using st os True live by (auto simp: state_inv_def)
    have others': "state_inv ?os (held W) ?evs j (res_states ?L j)"
      if "j < next_state ?L" "j \<noteq> i" for j
      using others [OF that] that(2) by (simp add: state_inv_settled_other)
    have fresh': "count_list ?evs (Settled j) = 0" if "next_state ?L \<le> j" for j
      using fresh [OF that] that il by simp
    from ledger_inv_release_state [OF inv il live(2) _ _ new others' fresh' os(1,2) subset_refl refl]
    show ?thesis
      using live True zero by (simp add: reservation_reset_def Let_def world_upd)
  qed
qed

text \<open>Destroying a live grant: the same, for the last child of a closed reservation.\<close>

lemma grant_reset_ok:
  assumes inv: "ledger_inv W" and i: "(i, v) \<in> set (held W)"
  shows "\<exists>L. grant_reset (ledger W) \<lparr>grant_state = Some i, grant_resources = v\<rparr> = Inr L
    \<and> ledger_inv (W\<lparr>ledger := L, held := remove1 (i, v) (held W)\<rparr>)"
proof -
  let ?L = "ledger W" let ?st = "res_states ?L i" let ?hs = "remove1 (i, v) (held W)"
  let ?ev = "if observes_children (settlement_observer ?st) then [Child_Released i] else []"
  let ?evs0 = "events ?L @ ?ev"
  let ?st1 = "?st\<lparr>granted := subtract_resources (granted ?st) v, child_count := child_count ?st - 1\<rparr>"
  note rm = held_remove1(1) [OF i, of _ i] held_remove1(2) [OF i, of i]
  have evs0: "count_list ?evs0 (Settled j) = count_list (events ?L) (Settled j)" for j
    by simp
  have il: "i < next_state ?L"
    and st: "state_inv (owners W) (held W) (events ?L) i ?st"
    and others: "\<And>j. j < next_state ?L \<Longrightarrow> j \<noteq> i \<Longrightarrow>
      state_inv (owners W) ?hs ?evs0 j (res_states ?L j)"
    and dist: "distinct (owners W)"
    using inv i by (auto simp: ledger_inv_def Let_def state_inv_drop_other_grant
        state_inv_events [OF evs0] simp del: count_list_append)
  have fresh: "count_list ?evs0 (Settled j) = 0" if "next_state ?L \<le> j" for j
    using inv that unfolding evs0 by (simp add: ledger_inv_def Let_def)
  have cnt: "unat (child_count ?st) = Suc (held_count i ?hs)"
    using st rm(2) by (simp add: state_inv_def)
  then have nz: "child_count ?st \<noteq> 0" by (metis nat.distinct(1) unat_0)
  have cnt1: "unat (child_count ?st1) = held_count i ?hs"
    using cnt nz by (simp add: unat_minus_one)
  have fit: "resources_fit v (granted ?st)"
    using st rm(1) by (auto simp: state_inv_def resources_fit_iff)
  have gr1: "rv d (granted ?st1) = held_amount d i ?hs" for d
    using st rm(1) by (simp add: rv_subtract [OF fit] state_inv_def)
  have "rv d (granted ?st1) \<le> rv d (committed ?st)" for d
  proof -
    have "rv d (granted ?st) \<le> rv d (committed ?st)"
      using st unfolding state_inv_def resources_fit_iff by blast
    moreover have "rv d (granted ?st1) \<le> rv d (granted ?st)"
      using st rm(1) unfolding gr1 by (simp add: state_inv_def)
    ultimately show ?thesis by simp
  qed
  then have fit1: "resources_fit (granted ?st1) (committed ?st1)"
    by (simp add: resources_fit_iff)
  have unrel: "\<not> root_released ?st"
    using st nz by (simp add: state_inv_def)
  have hs: "set ?hs \<subseteq> set (held W)" by (rule set_remove1_subset)
  have reset: "grant_reset ?L \<lparr>grant_state = Some i, grant_resources = v\<rparr> =
    (if \<not> parent_active ?st \<and> child_count ?st1 = 0 then
       if granted ?st1 \<noteq> zero_resources then Inl Terminate
       else release_root_resources (?L\<lparr>res_states := (res_states ?L)(i := ?st1\<lparr>root_released := True\<rparr>),
              events := ?evs0\<rparr>) i
     else Inr (?L\<lparr>res_states := (res_states ?L)(i := ?st1), events := ?evs0\<rparr>))"
    using nz fit unrel by (auto simp: grant_reset_def Let_def)
  show ?thesis
  proof (cases "\<not> parent_active ?st \<and> child_count ?st1 = 0")
    case False
    have "state_inv (owners W) ?hs ?evs0 i ?st1"
      using st cnt1 gr1 fit1 unrel False by (auto simp: state_inv_def)
    moreover have "\<not> root_released ?st1" "committed ?st1 = committed ?st"
      using unrel by simp_all
    ultimately show ?thesis
      unfolding reset world_upd if_not_P [OF False]
      using ledger_inv_upd_state [OF inv il unrel _ _ _ others fresh dist subset_refl hs] by blast
  next
    case True
    let ?st2 = "?st1\<lparr>root_released := True\<rparr>"
    let ?evs = "?evs0 @ (if release_observer ?st2 then [Reservation_Released i (committed ?st2)] else [])
      @ (if observer_valid (settlement_observer ?st2) then [Settled i] else [])"
    have hc: "held_count i ?hs = 0" using True cnt1 by (metis unat_0)
    have zero: "granted ?st1 = zero_resources"
      unfolding rvec.eq_zero_iff gr1 using held_amount_le [OF hc] by simp
    have new: "state_inv (owners W) ?hs ?evs i ?st2"
      using st cnt1 gr1 fit1 unrel True by (auto simp: state_inv_def)
    have others': "state_inv (owners W) ?hs ?evs j (res_states ?L j)"
      if "j < next_state ?L" "j \<noteq> i" for j
      using others [OF that] by (rule state_inv_settled_other [OF that(2), THEN iffD2])
    have fresh': "count_list ?evs (Settled j) = 0" if "next_state ?L \<le> j" for j
      using fresh [OF that] that il by simp
    have "root_released ?st2" "committed ?st2 = committed ?st" by simp_all
    then show ?thesis
      unfolding reset world_upd if_P [OF True]
      using ledger_inv_release_state [OF inv il unrel _ _ new others' fresh' dist subset_refl hs refl] zero
      by simp
  qed
qed

lemma ledger_inv_step:
  assumes "ledger_inv W" "ledger_step W W'"
  shows "ledger_inv W'"
  using assms(2,1)
proof cases
  case step_reserve
  with assms(1) show ?thesis by (simp add: ledger_inv_reserve)
next
  case step_reserve_pair
  with assms(1) show ?thesis by (simp add: ledger_inv_reserve_pair)
next
  case step_grant
  with assms(1) show ?thesis by (simp add: ledger_inv_grant)
next
  case (step_drop_owner i L)
  with reservation_reset_ok [OF assms(1), of i] show ?thesis by auto
next
  case (step_drop_grant i v L)
  with grant_reset_ok [OF assms(1), of i v] show ?thesis by auto
qed

interpretation ledger_sys: inv_system ledger_init ledger_step ledger_inv
  by unfold_locales (auto intro: ledger_inv_init ledger_inv_step)

section \<open>A concrete run\<close>

text \<open>
  A ledger of two units per dimension: one unit reserved with observers and granted once.
\<close>

definition demo_units :: "u64 \<Rightarrow> ResourceVector" where
  "demo_units n = \<lparr>cpu_slots = n, retained_memory_bytes = n, scratch_bytes = n,
     ready_entries = n, ready_bytes = n\<rparr>"

definition demo_observer :: ReservationSettlementObserver where
  "demo_observer = \<lparr>obs_context = True, obs_on_settled = True,
     obs_on_child_granted = True, obs_on_child_released = True\<rparr>"

lemmas demo_defs = demo_units_def demo_observer_def make_ledger_def make_state_def
  zero_resources_def no_observer_def checked_add_resources_def zip_resources_def
  checked_add_dimension_def u64_max_def resources_fit_def subtract_resources_def
  observes_children_def observer_valid_def

lemma ledger_demo:
  "\<exists>W. reachable ledger_init ledger_step W \<and> owners W = [0] \<and> held W = [(0, demo_units 1)]
     \<and> next_state (ledger W) = 1"
proof -
  let ?W0 = "\<lparr>ledger = make_ledger (demo_units 2), owners = [], held = []\<rparr>"
  have r0: "reachable ledger_init ledger_step ?W0"
    by (rule reachable_init) (auto simp: ledger_init_def)
  obtain L1 where L1: "try_reserve (ledger ?W0) (demo_units 1) True demo_observer = (Some 0, L1)"
    and st1: "res_states L1 0 = make_state (demo_units 1) True demo_observer" "next_state L1 = 1"
    by (simp add: try_reserve_def demo_defs)
  let ?W1 = "?W0\<lparr>ledger := L1, owners := 0 # owners ?W0\<rparr>"
  have r1: "reachable ledger_init ledger_step ?W1"
    by (rule reachable_step [OF r0]) (rule step_reserve [OF L1])
  obtain g L2 where L2: "try_grant L1 (Some 0) (demo_units 1) = (Some g, L2)"
    and g: "grant_resources g = demo_units 1" "next_state L2 = 1"
    using st1 by (simp add: try_grant_def demo_defs)
  have "ledger_step ?W1 (?W1\<lparr>ledger := L2, held := (0, grant_resources g) # held ?W1\<rparr>)"
    by (rule step_grant) (use L2 in simp_all)
  from reachable_step [OF r1 this] g show ?thesis
    by (intro exI) (erule conjI, simp)
qed

section \<open>Properties\<close>

text \<open>
  C9. Conservation: in every reachable ledger, in each of the five dimensions, the root's
  reserved amount is exactly the sum of the commitments whose root has not been released
  and never exceeds the configured limit, and what a reservation has granted is exactly
  the sum of its live grants and never exceeds its commitment.
\<close>

theorem ledger_conservation:
  assumes "reachable ledger_init ledger_step W"
  shows "(\<forall>d. rv d (reserved (ledger W)) = (\<Sum>i < next_state (ledger W). open_commitment d (res_states (ledger W) i))
            \<and> rv d (reserved (ledger W)) \<le> rv d (limits (ledger W)))
       \<and> (\<forall>i < next_state (ledger W). \<forall>d.
            rv d (granted (res_states (ledger W) i)) = held_amount d i (held W)
            \<and> rv d (granted (res_states (ledger W) i)) \<le> rv d (committed (res_states (ledger W) i)))"
proof -
  have "ledger_inv W" using assms by (rule ledger_sys.reachable_inv)
  then show ?thesis
    unfolding ledger_inv_def Let_def state_inv_def resources_fit_iff by blast
qed

theorem ledger_conservation_witness:
  "\<exists>W. reachable ledger_init ledger_step W \<and> held W \<noteq> []
     \<and> (\<forall>d. rv d (granted (res_states (ledger W) 0)) = rv d (demo_units 1))"
proof -
  obtain W where W: "reachable ledger_init ledger_step W" "held W = [(0, demo_units 1)]"
      "next_state (ledger W) = 1"
    using ledger_demo by blast
  from ledger_conservation [OF W(1)] W(2,3) show ?thesis
    by (intro exI [of _ W]) (simp add: W(1))
qed

text \<open>
  No handle destruction ever reaches \<open>std::terminate\<close>: in a reachable ledger the
  destructor of every live reservation and of every live grant completes, and a root is
  released precisely when its owner is gone and it has no live grant left.
\<close>

theorem ledger_destructors_complete:
  assumes "reachable ledger_init ledger_step W"
  shows "(\<forall>i \<in> set (owners W). \<exists>L. reservation_reset (ledger W) (Some i) = Inr L)
       \<and> (\<forall>(i, v) \<in> set (held W).
            \<exists>L. grant_reset (ledger W) \<lparr>grant_state = Some i, grant_resources = v\<rparr> = Inr L)
       \<and> (\<forall>i < next_state (ledger W). root_released (res_states (ledger W) i) \<longleftrightarrow>
            i \<notin> set (owners W) \<and> held_count i (held W) = 0)"
proof -
  have inv: "ledger_inv W" using assms by (rule ledger_sys.reachable_inv)
  have "root_released (res_states (ledger W) i) \<longleftrightarrow> i \<notin> set (owners W) \<and> held_count i (held W) = 0"
    if "i < next_state (ledger W)" for i
  proof -
    have "state_inv (owners W) (held W) (events (ledger W)) i (res_states (ledger W) i)"
      using inv that by (simp add: ledger_inv_def Let_def)
    then show ?thesis
      unfolding state_inv_def by (metis unat_eq_0)
  qed
  with reservation_reset_ok [OF inv] grant_reset_ok [OF inv] show ?thesis by blast
qed

theorem ledger_destructors_complete_witness:
  "\<exists>W. reachable ledger_init ledger_step W
     \<and> (\<exists>L. reservation_reset (ledger W) (Some 0) = Inr L)
     \<and> (\<exists>L. grant_reset (ledger W) \<lparr>grant_state = Some 0, grant_resources = demo_units 1\<rparr> = Inr L)"
proof -
  obtain W where W: "reachable ledger_init ledger_step W" "owners W = [0]" "held W = [(0, demo_units 1)]"
    using ledger_demo by blast
  from ledger_destructors_complete [OF W(1)] W show ?thesis
    by (intro exI [of _ W]) simp
qed



text \<open>
  Admission is all-or-none: a reservation (or a pair of reservations) is admitted
  exactly when, in every dimension, the reserved amount plus the demand stays within the
  limit; then precisely the demand is added, and otherwise the ledger does not change. An
  admitted pair is the two single reservations in sequence.
\<close>

theorem ledger_admission_exact:
  "((\<exists>i L'. try_reserve L v ro so = (Some i, L')) \<longleftrightarrow>
      (\<forall>d. rv d (reserved L) + rv d v \<le> rv d (limits L)))
   \<and> ((\<exists>p L'. try_reserve_pair L v w = (Some p, L')) \<longleftrightarrow>
      (\<forall>d. rv d (reserved L) + rv d v + rv d w \<le> rv d (limits L)))
   \<and> (\<forall>L'. try_reserve L v ro so = (None, L') \<longrightarrow> L' = L)
   \<and> (\<forall>L'. try_reserve_pair L v w = (None, L') \<longrightarrow> L' = L)
   \<and> (\<forall>i L' d. try_reserve L v ro so = (Some i, L') \<longrightarrow>
        rv d (reserved L') = rv d (reserved L) + rv d v)
   \<and> (\<forall>i j L'. try_reserve_pair L v w = (Some (i, j), L') \<longrightarrow>
        (\<exists>L1. try_reserve L v False no_observer = (Some i, L1)
           \<and> try_reserve L1 w False no_observer = (Some j, L')))"
proof (intro conjI)
  show "(\<exists>i L'. try_reserve L v ro so = (Some i, L')) \<longleftrightarrow>
      (\<forall>d. rv d (reserved L) + rv d v \<le> rv d (limits L))"
    unfolding rvec.admit_iff [symmetric] by (auto simp: try_reserve_Some)
  show "(\<exists>p L'. try_reserve_pair L v w = (Some p, L')) \<longleftrightarrow>
      (\<forall>d. rv d (reserved L) + rv d v + rv d w \<le> rv d (limits L))"
    by (rule try_reserve_pair_admits)
  show "\<forall>L'. try_reserve L v ro so = (None, L') \<longrightarrow> L' = L"
    using try_reserve_None by blast
  show "\<forall>L'. try_reserve_pair L v w = (None, L') \<longrightarrow> L' = L"
    by (auto simp: try_reserve_pair_def split: option.splits if_splits)
  show "\<forall>i L' d. try_reserve L v ro so = (Some i, L') \<longrightarrow>
      rv d (reserved L') = rv d (reserved L) + rv d v"
    by (auto simp: try_reserve_Some rvec.add_amount)
  show "\<forall>i j L'. try_reserve_pair L v w = (Some (i, j), L') \<longrightarrow>
      (\<exists>L1. try_reserve L v False no_observer = (Some i, L1)
         \<and> try_reserve L1 w False no_observer = (Some j, L'))"
    using try_reserve_pair_seq by blast
qed

theorem ledger_admission_exact_witness:
  "let L = make_ledger (demo_units 2) in
     try_reserve L (demo_units 3) True demo_observer = (None, L)
     \<and> (\<exists>L'. try_reserve_pair L (demo_units 1) (demo_units 1) = (Some (0, 1), L'))
     \<and> (\<exists>i L'. try_reserve L (demo_units 1) True demo_observer = (Some i, L')
          \<and> (\<forall>d. rv d (reserved L') = rv d (reserved L) + rv d (demo_units 1)))"
proof -
  let ?L = "make_ledger (demo_units 2)"
  note ex = ledger_admission_exact [of ?L _ True demo_observer "demo_units 1"]
  have "fst (try_reserve ?L (demo_units 3) True demo_observer) = None"
    by (simp add: try_reserve_def demo_defs)
  then have "try_reserve ?L (demo_units 3) True demo_observer = (None, ?L)"
    using ex [of "demo_units 3"] by (metis prod.collapse)
  moreover have "\<exists>L'. try_reserve_pair ?L (demo_units 1) (demo_units 1) = (Some (0, 1), L')"
    by (simp add: try_reserve_pair_def demo_defs)
  moreover have "\<exists>i L'. try_reserve ?L (demo_units 1) True demo_observer = (Some i, L')"
    by (simp add: try_reserve_def demo_defs)
  ultimately show ?thesis
    using ex [of "demo_units 1"] unfolding Let_def by blast
qed

end
