(* ===== verification/Search.thy ===== *)
theory Search
  imports PS_Prelude
begin

text \<open>
  The two depth-first searches the graph code repeats: the ancestor search with a shared
  set of visited nodes, and the post-order traversal with a recursion stack. Both are
  stated here for an arbitrary successor function; \<open>GraphModel\<close> and \<open>GraphTraversal\<close> show
  that the functions of the code are instances, and take their correctness from the
  contract \<open>finite_graph\<close>.
\<close>

section \<open>The searches\<close>

text \<open>
  The loop over the successors stops at the first one from which the search succeeds;
  the set of visited nodes is shared by all of them.
\<close>

fun search_any :: "(int \<Rightarrow> int set \<Rightarrow> (bool \<times> int set) res) \<Rightarrow> int list \<Rightarrow> int set
    \<Rightarrow> (bool \<times> int set) res" where
  "search_any f [] vis = Inr (False, vis)"
| "search_any f (d # ds) vis =
     res_bind (f d vis) (\<lambda>(found, vis'). if found then Inr (True, vis') else search_any f ds vis')"

primrec reach_search :: "nat \<Rightarrow> (int \<Rightarrow> int list) \<Rightarrow> int \<Rightarrow> int \<Rightarrow> int set \<Rightarrow> (bool \<times> int set) res" where
  "reach_search 0 succs a i vis = Inl Fuel_Exhausted"
| "reach_search (Suc fuel) succs a i vis =
     (if a = i then Inr (True, vis)
      else if i \<in> vis then Inr (False, vis)
      else search_any (reach_search fuel succs a) (succs i) (insert i vis))"

record post_state =
  post_order :: "int list"
  post_visited :: "int set"
  post_stack :: "int set"

definition post_start :: post_state where
  "post_start = \<lparr>post_order = [], post_visited = {}, post_stack = {}\<rparr>"

primrec post_visit :: "nat \<Rightarrow> (int \<Rightarrow> int list) \<Rightarrow> int \<Rightarrow> post_state \<Rightarrow> post_state res" where
  "post_visit 0 succs i st = Inl Fuel_Exhausted"
| "post_visit (Suc fuel) succs i st =
     res_bind
       (res_fold
         (\<lambda>d st'. if d \<notin> post_visited st' then post_visit fuel succs d st'
                  else if d \<in> post_stack st' then Inl (Graph_Error Cycle) else Inr st')
         (succs i)
         (st\<lparr>post_visited := insert i (post_visited st), post_stack := insert i (post_stack st)\<rparr>))
       (\<lambda>st'. Inr (st'\<lparr>post_order := post_order st' @ [i], post_stack := post_stack st' - {i}\<rparr>))"

lemma search_any_skip:
  "search_any (\<lambda>d vis. if P d then f d vis else Inr (False, vis)) ds vis
     = search_any f (filter P ds) vis"
proof (induction ds arbitrary: vis)
  case (Cons d ds)
  then show ?case by (cases "f d vis") auto
qed simp

lemma res_fold_skip:
  "res_fold (\<lambda>d st. if P d then f d st else Inr st) ds st = res_fold f (filter P ds) st"
proof (induction ds arbitrary: st)
  case (Cons d ds)
  then show ?case by (cases "f d st") auto
qed simp

section \<open>What the searches compute\<close>

definition succ_rel :: "(int \<Rightarrow> int list) \<Rightarrow> (int \<times> int) set" where
  "succ_rel succs = {(d, i). d \<in> set (succs i)}"

definition deps_before :: "(int \<Rightarrow> int list) \<Rightarrow> int list \<Rightarrow> bool" where
  "deps_before succs xs \<longleftrightarrow> (\<forall>ys y zs. xs = ys @ y # zs \<longrightarrow> set (succs y) \<subseteq> set ys)"

lemma deps_before_Nil [simp]: "deps_before succs []"
  by (simp add: deps_before_def)

lemma deps_before_snoc [simp]:
  "deps_before succs (xs @ [x]) \<longleftrightarrow> deps_before succs xs \<and> set (succs x) \<subseteq> set xs"
proof
  assume L: "deps_before succs (xs @ [x])"
  then show "deps_before succs xs \<and> set (succs x) \<subseteq> set xs"
    unfolding deps_before_def by (metis append.assoc append_Cons)
next
  assume R: "deps_before succs xs \<and> set (succs x) \<subseteq> set xs"
  show "deps_before succs (xs @ [x])"
    unfolding deps_before_def
  proof (intro allI impI)
    fix ys y zs assume eq: "xs @ [x] = ys @ y # zs"
    show "set (succs y) \<subseteq> set ys"
    proof (cases zs rule: rev_cases)
      case Nil
      with eq R show ?thesis by simp
    next
      case (snoc zs' z)
      with eq have "xs = ys @ y # zs'" by simp
      with R show ?thesis unfolding deps_before_def by blast
    qed
  qed
qed

lemma deps_before_closed:
  "deps_before succs xs \<Longrightarrow> i \<in> set xs \<Longrightarrow> set (succs i) \<subseteq> set xs"
  unfolding deps_before_def by (metis in_set_conv_decomp set_append subset_trans sup_ge1)

lemma closed_ancestors:
  assumes "\<forall>v \<in> V. set (succs v) \<subseteq> V" "i \<in> V" "(a, i) \<in> (succ_rel succs)\<^sup>*"
  shows "a \<in> V"
  using assms(3,2)
proof (induction rule: converse_rtrancl_induct)
  case (step y z)
  then show ?case using assms(1) by (auto simp: succ_rel_def)
qed

definition search_post :: "(int \<Rightarrow> int list) \<Rightarrow> int \<Rightarrow> int list \<Rightarrow> int set \<Rightarrow> (bool \<times> int set) res \<Rightarrow> bool" where
  "search_post succs a ds vis r \<longleftrightarrow>
     (\<exists>found vis'. r = Inr (found, vis') \<and> vis \<subseteq> vis'
       \<and> (found \<longrightarrow> (\<exists>d \<in> set ds. (a, d) \<in> (succ_rel succs)\<^sup>*))
       \<and> (\<not> found \<longrightarrow> set ds \<subseteq> vis' \<and> a \<notin> vis' - vis \<and> (\<forall>v \<in> vis' - vis. set (succs v) \<subseteq> vis')))"

lemma search_any_post:
  assumes "\<And>d vis'. d \<in> set ds \<Longrightarrow> vis \<subseteq> vis' \<Longrightarrow> search_post succs a [d] vis' (f d vis')"
  shows "search_post succs a ds vis (search_any f ds vis)"
  using assms
proof (induction ds arbitrary: vis)
  case Nil
  then show ?case unfolding search_post_def by (intro exI [of _ False] exI [of _ vis]) simp
next
  case (Cons d ds)
  from Cons.prems [of d vis] obtain found vis1 where
    f: "f d vis = Inr (found, vis1)" "vis \<subseteq> vis1"
    and yes: "found \<longrightarrow> (a, d) \<in> (succ_rel succs)\<^sup>*"
    and no: "\<not> found \<longrightarrow> d \<in> vis1 \<and> a \<notin> vis1 - vis \<and> (\<forall>v \<in> vis1 - vis. set (succs v) \<subseteq> vis1)"
    by (auto simp: search_post_def)
  show ?case
  proof (cases found)
    case True
    with f yes show ?thesis by (auto simp: search_post_def)
  next
    case False
    have "search_post succs a ds vis1 (search_any f ds vis1)"
      using Cons.prems f(2) by (intro Cons.IH) auto
    then obtain found2 vis2 where
      r: "search_any f ds vis1 = Inr (found2, vis2)" "vis1 \<subseteq> vis2"
      and yes2: "found2 \<longrightarrow> (\<exists>d \<in> set ds. (a, d) \<in> (succ_rel succs)\<^sup>*)"
      and no2: "\<not> found2 \<longrightarrow> set ds \<subseteq> vis2 \<and> a \<notin> vis2 - vis1 \<and> (\<forall>v \<in> vis2 - vis1. set (succs v) \<subseteq> vis2)"
      by (auto simp: search_post_def)
    have closed: "\<forall>v \<in> vis2 - vis. set (succs v) \<subseteq> vis2" if "\<not> found2"
      using no no2 that False r(2) by blast
    have "search_any f (d # ds) vis = Inr (found2, vis2)" using f r False by simp
    then show ?thesis
      using False f(2) r(2) no yes2 no2 closed unfolding search_post_def by auto
  qed
qed

definition post_inv :: "(int \<Rightarrow> int list) \<Rightarrow> post_state \<Rightarrow> bool" where
  "post_inv succs st \<longleftrightarrow>
     distinct (post_order st) \<and> deps_before succs (post_order st)
     \<and> post_visited st = set (post_order st) \<union> post_stack st
     \<and> set (post_order st) \<inter> post_stack st = {}"

definition post_goal :: "(int \<Rightarrow> int list) \<Rightarrow> int list \<Rightarrow> post_state \<Rightarrow> post_state res \<Rightarrow> bool" where
  "post_goal succs ds st r \<longleftrightarrow>
     (\<exists>st' new. r = Inr st' \<and> post_inv succs st' \<and> post_stack st' = post_stack st
       \<and> post_order st' = post_order st @ new
       \<and> set new \<subseteq> {x. \<exists>d \<in> set ds. (x, d) \<in> (succ_rel succs)\<^sup>*}
       \<and> set ds \<subseteq> set (post_order st'))"

lemma post_goal_fold:
  assumes "\<And>d st'. d \<in> set ds \<Longrightarrow> post_inv succs st' \<Longrightarrow> post_stack st' = post_stack st \<Longrightarrow>
      post_visited st \<subseteq> post_visited st' \<Longrightarrow> post_goal succs [d] st' (f d st')"
    and "post_inv succs st"
  shows "post_goal succs ds st (res_fold f ds st)"
  using assms
proof (induction ds arbitrary: st)
  case Nil
  then show ?case by (simp add: post_goal_def)
next
  case (Cons d ds)
  have "post_goal succs [d] st (f d st)" using Cons.prems by simp
  then obtain st1 new1 where f: "f d st = Inr st1" and st1: "post_inv succs st1"
      "post_stack st1 = post_stack st" "post_order st1 = post_order st @ new1"
    and new1: "set new1 \<subseteq> {x. (x, d) \<in> (succ_rel succs)\<^sup>*}" "d \<in> set (post_order st1)"
    by (auto simp: post_goal_def)
  have sub: "post_visited st \<subseteq> post_visited st1"
    using Cons.prems(2) st1 by (auto simp: post_inv_def)
  have "post_goal succs ds st1 (res_fold f ds st1)"
    using Cons.prems(1) st1 sub by (intro Cons.IH) auto
  then obtain st2 new2 where "res_fold f ds st1 = Inr st2" "post_inv succs st2"
      "post_stack st2 = post_stack st1" "post_order st2 = post_order st1 @ new2"
    and "set new2 \<subseteq> {x. \<exists>d \<in> set ds. (x, d) \<in> (succ_rel succs)\<^sup>*}" "set ds \<subseteq> set (post_order st2)"
    by (auto simp: post_goal_def)
  with f st1 new1 show ?case
    unfolding post_goal_def by (intro exI [of _ st2] exI [of _ "new1 @ new2"]) auto
qed

section \<open>The contract\<close>

text \<open>
  A finite graph: only finitely many nodes have successors. The searches need no more than
  one level of recursion per such node.
\<close>

locale finite_graph =
  fixes succs :: "int \<Rightarrow> int list"
    and keys :: "int set"
  assumes finite_keys: "finite keys"
    and no_succs: "i \<notin> keys \<Longrightarrow> succs i = []"
begin

lemma card_insert_less:
  assumes "i \<notin> V" "succs i \<noteq> []" "card (keys - V) < Suc fuel"
  shows "card (keys - insert i V) < fuel"
proof -
  have "keys - insert i V \<subset> keys - V" using assms(1,2) no_succs by blast
  then have "card (keys - insert i V) < card (keys - V)"
    using finite_keys by (intro psubset_card_mono) auto
  with assms(3) show ?thesis by simp
qed

lemma card_mono_less:
  "V \<subseteq> V' \<Longrightarrow> card (keys - V) < fuel \<Longrightarrow> card (keys - V') < fuel"
  using card_mono [of "keys - V" "keys - V'"] finite_keys by fastforce

lemma reach_search_post:
  "card (keys - vis) < fuel \<Longrightarrow> search_post succs a [i] vis (reach_search fuel succs a i vis)"
proof (induction fuel arbitrary: i vis)
  case 0
  then show ?case by simp
next
  case (Suc fuel)
  show ?case
  proof (cases "a = i \<or> i \<in> vis")
    case True
    then show ?thesis by (auto simp: search_post_def)
  next
    case False
    have "search_post succs a (succs i) (insert i vis)
        (search_any (reach_search fuel succs a) (succs i) (insert i vis))"
    proof (rule search_any_post)
      fix d vis' assume d: "d \<in> set (succs i)" and vis': "insert i vis \<subseteq> vis'"
      have "card (keys - insert i vis) < fuel"
        using False d Suc.prems by (intro card_insert_less) auto
      then show "search_post succs a [d] vis' (reach_search fuel succs a d vis')"
        using vis' by (intro Suc.IH) (rule card_mono_less)
    qed
    then obtain found vis' where r: "search_any (reach_search fuel succs a) (succs i) (insert i vis)
        = Inr (found, vis')" "insert i vis \<subseteq> vis'"
      and yes: "found \<longrightarrow> (\<exists>d \<in> set (succs i). (a, d) \<in> (succ_rel succs)\<^sup>*)"
      and no: "\<not> found \<longrightarrow> set (succs i) \<subseteq> vis' \<and> a \<notin> vis' - insert i vis
        \<and> (\<forall>v \<in> vis' - insert i vis. set (succs v) \<subseteq> vis')"
      by (auto simp: search_post_def)
    have "(a, i) \<in> (succ_rel succs)\<^sup>*" if found
      using yes that by (auto simp: succ_rel_def intro: rtrancl_into_rtrancl)
    moreover have "\<forall>v \<in> vis' - vis. set (succs v) \<subseteq> vis'" if "\<not> found"
      using no that by blast
    ultimately show ?thesis
      using False r no by (auto simp: search_post_def)
  qed
qed

text \<open>Started with nothing visited, the search decides reachability.\<close>

lemma reach_search_decides:
  assumes "card keys < fuel"
  obtains vis where "reach_search fuel succs a i {} = Inr ((a, i) \<in> (succ_rel succs)\<^sup>*, vis)"
proof -
  have "search_post succs a [i] {} (reach_search fuel succs a i {})"
    using assms by (intro reach_search_post) simp
  then obtain found vis where r: "reach_search fuel succs a i {} = Inr (found, vis)"
    and yes: "found \<longrightarrow> (a, i) \<in> (succ_rel succs)\<^sup>*"
    and no: "\<not> found \<longrightarrow> i \<in> vis \<and> a \<notin> vis \<and> (\<forall>v \<in> vis. set (succs v) \<subseteq> vis)"
    by (auto simp: search_post_def)
  have "found \<longleftrightarrow> (a, i) \<in> (succ_rel succs)\<^sup>*"
    using yes no closed_ancestors [of vis succs i a] by blast
  with r show ?thesis by (intro that [of vis]) simp
qed

lemma post_visit_goal:
  assumes "acyclic (succ_rel succs)"
  shows "card (keys - post_visited st) < fuel \<Longrightarrow> post_inv succs st \<Longrightarrow> i \<notin> post_visited st \<Longrightarrow>
    (\<forall>v \<in> post_stack st. (i, v) \<in> (succ_rel succs)\<^sup>+) \<Longrightarrow>
    post_goal succs [i] st (post_visit fuel succs i st)"
proof (induction fuel arbitrary: i st)
  case 0
  then show ?case by simp
next
  case (Suc fuel)
  let ?R = "succ_rel succs"
  let ?st = "st\<lparr>post_visited := insert i (post_visited st), post_stack := insert i (post_stack st)\<rparr>"
  let ?f = "\<lambda>d st'. if d \<notin> post_visited st' then post_visit fuel succs d st'
    else if d \<in> post_stack st' then Inl (Graph_Error Cycle) else Inr st'"
  have inv: "post_inv succs ?st" using Suc.prems by (auto simp: post_inv_def)
  have goal: "post_goal succs (succs i) ?st (res_fold ?f (succs i) ?st)"
  proof (rule post_goal_fold [OF _ inv])
    fix d st' assume d: "d \<in> set (succs i)" and st': "post_inv succs st'"
      "post_stack st' = post_stack ?st" "post_visited ?st \<subseteq> post_visited st'"
    have above: "\<forall>v \<in> post_stack st'. (d, v) \<in> ?R\<^sup>+"
      using d st'(2) Suc.prems(4) by (auto simp: succ_rel_def intro: trancl_into_trancl2)
    show "post_goal succs [d] st' (?f d st')"
    proof (cases "d \<in> post_visited st'")
      case True
      moreover have "d \<notin> post_stack st'" using above assms by (auto simp: acyclic_def)
      ultimately show ?thesis using st'(1) by (auto simp: post_goal_def post_inv_def)
    next
      case False
      have "card (keys - insert i (post_visited st)) < fuel"
        using Suc.prems(1,3) d by (intro card_insert_less) auto
      then have "card (keys - post_visited st') < fuel"
        using st'(3) card_mono_less [of "insert i (post_visited st)" "post_visited st'"] by simp
      then have "post_goal succs [d] st' (post_visit fuel succs d st')"
        using st'(1) False above by (rule Suc.IH)
      with False show ?thesis by simp
    qed
  qed
  then obtain st' new where r: "res_fold ?f (succs i) ?st = Inr st'" and st': "post_inv succs st'"
      "post_stack st' = insert i (post_stack st)" "post_order st' = post_order st @ new"
    and new: "set new \<subseteq> {x. \<exists>d \<in> set (succs i). (x, d) \<in> ?R\<^sup>*}" "set (succs i) \<subseteq> set (post_order st')"
    by (auto simp: post_goal_def)
  let ?fin = "st'\<lparr>post_order := post_order st' @ [i], post_stack := post_stack st' - {i}\<rparr>"
  have stack: "insert i (post_stack st) - {i} = post_stack st"
    using Suc.prems(2,3) by (auto simp: post_inv_def)
  have "post_inv succs ?fin" using st'(1,2) new(2) by (auto simp: post_inv_def)
  moreover have "set (new @ [i]) \<subseteq> {x. (x, i) \<in> ?R\<^sup>*}"
    using new(1) by (auto simp: succ_rel_def intro: rtrancl_into_rtrancl)
  moreover have "post_visit (Suc fuel) succs i st = Inr ?fin" using r by simp
  moreover have "post_stack ?fin = post_stack st" "post_order ?fin = post_order st @ (new @ [i])"
    using st' stack by simp_all
  moreover have "i \<in> set (post_order ?fin)" by simp
  ultimately show ?case
    unfolding post_goal_def by (intro exI [of _ ?fin] exI [of _ "new @ [i]"] conjI) auto
qed

text \<open>A whole traversal: every ancestor once, each after its own dependencies.\<close>

lemma post_visit_order:
  assumes "acyclic (succ_rel succs)" "card keys < fuel"
  obtains st where "post_visit fuel succs i post_start = Inr st" "distinct (post_order st)"
    "set (post_order st) = {a. (a, i) \<in> (succ_rel succs)\<^sup>*}" "deps_before succs (post_order st)"
proof -
  have "post_goal succs [i] post_start (post_visit fuel succs i post_start)"
    using assms by (intro post_visit_goal) (simp_all add: post_start_def post_inv_def)
  then obtain st where st: "post_visit fuel succs i post_start = Inr st" "post_inv succs st"
    "set (post_order st) \<subseteq> {a. (a, i) \<in> (succ_rel succs)\<^sup>*}" "i \<in> set (post_order st)"
    by (auto simp: post_goal_def post_start_def)
  have "a \<in> set (post_order st)" if "(a, i) \<in> (succ_rel succs)\<^sup>*" for a
    using closed_ancestors [OF _ st(4) that] st(2) deps_before_closed by (simp add: post_inv_def)
  with st(3) have "set (post_order st) = {a. (a, i) \<in> (succ_rel succs)\<^sup>*}" by blast
  with st show ?thesis by (intro that [of st]) (auto simp: post_inv_def)
qed

end

end
