(* ===== verification/GraphModel.thy ===== *)
theory GraphModel
  imports Complex_Main Geometry Search
begin

text \<open>
  The graph state: \<open>src/lib/graph/node.hpp\<close>, \<open>graph_revision.hpp\<close>, \<open>graph_model.hpp\<close>
  and the topology part of \<open>graph_model.cpp\<close>. A node map is the list of its entries in
  the iteration order of the unordered C++ container (no statement depends on that
  order). The recursive searches thread the C++ sets they mutate and carry a depth bound;
  \<open>validate_node_map_correct\<close> shows that validation decides exactly the well-formed
  acyclic graphs.
\<close>

section \<open>Parameter values\<close>

text \<open>
  \<open>plugin::ParameterValue\<close>. A finite double is a rational number.
\<close>

datatype f64 = Finite rat | Infinite bool | NotANumber

datatype ParameterValue =
    PV_Null | PV_Bool bool | PV_Int int | PV_Double f64 | PV_String string
  | PV_Array "ParameterValue list" | PV_Object "(string \<times> ParameterValue) list"

type_synonym ParameterMap = "string \<rightharpoonup> ParameterValue"

definition parameter_value_as_int :: "ParameterValue \<Rightarrow> int option" where
  "parameter_value_as_int v =
     (case v of
        PV_Int i \<Rightarrow> (if int_min \<le> i \<and> i \<le> int_max then Some i else None)
      | PV_Double (Finite q) \<Rightarrow>
          (if of_int \<lfloor>q\<rfloor> = q \<and> of_int int_min \<le> q \<and> q \<le> of_int int_max
           then Some \<lfloor>q\<rfloor> else None)
      | _ \<Rightarrow> None)"

definition as_int_flexible :: "ParameterMap \<Rightarrow> string \<Rightarrow> int \<Rightarrow> int" where
  "as_int_flexible parameters key defv =
     (case parameters key of
        None \<Rightarrow> defv
      | Some v \<Rightarrow> (case parameter_value_as_int v of None \<Rightarrow> defv | Some i \<Rightarrow> i))"

section \<open>Nodes\<close>

record ImageInput =
  img_from_node_id :: int
  img_from_output_name :: string

record ParameterInput =
  par_from_node_id :: int
  par_from_output_name :: string
  par_to_parameter_name :: string

record OutputPort =
  output_id :: int
  output_type :: string
  output_parameters :: "ParameterValue option"

record CacheEntry =
  cache_type :: string
  location :: string

text \<open>
  Of a computed output the graph code reads the image extent and the named data; pixel
  storage, spatial context and debug values are opaque to it and not represented.
\<close>

record NodeOutput =
  out_width :: int
  out_height :: int
  out_data :: ParameterMap

record SpatialDependencyMap =
  grid_size_x :: int
  grid_size_y :: int
  cols :: int
  rows :: int
  output_extent :: PixelSize
  upstream_input_index :: nat
  cell_to_upstream_roi :: "PixelRect list"

record DependencyImageInputIdentity =
  source_node_id :: int
  source_output :: string

record DependencyLutCacheIdentity =
  effective_parameters :: ParameterMap
  static_parameter_revision :: u64
  parameter_input_content_revisions :: "u64 list"
  image_input_sources :: "DependencyImageInputIdentity list"
  input_extents :: "PixelSize list"
  upstream_content_revisions :: "u64 list"
  data_dependent :: bool
  dependency_builder_revision :: u64
  data_dependent_revision :: u64

record DependencyLutCache =
  lut :: SpatialDependencyMap
  lut_identity :: DependencyLutCacheIdentity

record Node =
  node_id :: int
  node_name :: string
  node_type :: string
  node_subtype :: string
  image_inputs :: "ImageInput list"
  parameter_inputs :: "ParameterInput list"
  parameters :: ParameterMap
  runtime_parameters :: ParameterMap
  outputs :: "OutputPort list"
  caches :: "CacheEntry list"
  preserved :: bool
  cached_output_high_precision :: "NodeOutput option"
  hp_version :: int
  hp_roi :: "PixelRect option"
  last_input_size_hp :: "PixelSize option"
  dependency_lut_cache :: "DependencyLutCache option"
  dependency_lut_version :: u64
  parameters_version :: u64

text \<open>A default-constructed \<open>Node\<close>: the member initialisers of the class.\<close>

definition default_node :: Node where
  "default_node =
     \<lparr>node_id = - 1, node_name = [], node_type = [], node_subtype = [], image_inputs = [],
      parameter_inputs = [], parameters = Map.empty, runtime_parameters = Map.empty,
      outputs = [], caches = [], preserved = False, cached_output_high_precision = None,
      hp_version = 0, hp_roi = None, last_input_size_hp = None, dependency_lut_cache = None,
      dependency_lut_version = 0, parameters_version = 0\<rparr>"

type_synonym NodeMap = "(int \<times> Node) list"

definition node_deps :: "Node \<Rightarrow> int list" where
  "node_deps nd = map img_from_node_id (image_inputs nd) @ map par_from_node_id (parameter_inputs nd)"

section \<open>Checked counters\<close>

definition revision_initial :: u64 where
  "revision_initial = 1"

definition revision_next :: "u64 \<Rightarrow> u64 res" where
  "revision_next v = (if v = u64_max then Inl Overflow_Error else Inr (v + 1))"

definition next_topology_generation :: "u64 \<Rightarrow> u64 res" where
  "next_topology_generation g = (if g = u64_max then Inl Overflow_Error else Inr (g + 1))"

text \<open>
  \<open>GraphInstanceId::mint_from_counter\<close>: the compare-exchange loop ends with the counter
  advanced by one, whatever other threads stored before.
\<close>

definition mint_from_counter :: "u64 \<Rightarrow> (u64 \<times> u64) res" where
  "mint_from_counter last_issued =
     (if last_issued = u64_max then Inl Overflow_Error
      else Inr (last_issued + 1, last_issued + 1))"

section \<open>Topology index\<close>

datatype GraphTopologyEdgeKind = ImageInputEdge | ParameterInputEdge

record GraphTopologyEdge =
  from_node_id :: int
  to_node_id :: int
  edge_kind :: GraphTopologyEdgeKind
  from_output_name :: string
  to_input_name :: string
  input_index :: nat

record GraphTopologyIndex =
  incoming_by_node :: "int \<rightharpoonup> GraphTopologyEdge list"
  outgoing_by_node :: "int \<rightharpoonup> GraphTopologyEdge list"

definition require_node :: "NodeMap \<Rightarrow> int \<Rightarrow> Node res" where
  "require_node ns i =
     (case map_of ns i of None \<Rightarrow> Inl (Graph_Error NotFound) | Some nd \<Rightarrow> Inr nd)"

definition push_edge ::
  "GraphTopologyEdge \<Rightarrow> int \<Rightarrow> (int \<rightharpoonup> GraphTopologyEdge list) \<Rightarrow> (int \<rightharpoonup> GraphTopologyEdge list)" where
  "push_edge e k m = m(k \<mapsto> (case m k of None \<Rightarrow> [e] | Some es \<Rightarrow> es @ [e]))"

definition add_edge :: "GraphTopologyEdge \<Rightarrow> GraphTopologyIndex \<Rightarrow> GraphTopologyIndex" where
  "add_edge e ix =
     ix\<lparr>incoming_by_node := push_edge e (to_node_id e) (incoming_by_node ix),
        outgoing_by_node := push_edge e (from_node_id e) (outgoing_by_node ix)\<rparr>"

fun image_edges :: "int \<Rightarrow> nat \<Rightarrow> ImageInput list \<Rightarrow> GraphTopologyEdge list" where
  "image_edges to_id i [] = []"
| "image_edges to_id i (input # rest) =
     (if img_from_node_id input < 0 then image_edges to_id (Suc i) rest
      else \<lparr>from_node_id = img_from_node_id input, to_node_id = to_id, edge_kind = ImageInputEdge,
            from_output_name = img_from_output_name input, to_input_name = ''image'',
            input_index = i\<rparr> # image_edges to_id (Suc i) rest)"

fun parameter_edges :: "int \<Rightarrow> nat \<Rightarrow> ParameterInput list \<Rightarrow> GraphTopologyEdge list" where
  "parameter_edges to_id i [] = []"
| "parameter_edges to_id i (input # rest) =
     (if par_from_node_id input < 0 then parameter_edges to_id (Suc i) rest
      else \<lparr>from_node_id = par_from_node_id input, to_node_id = to_id, edge_kind = ParameterInputEdge,
            from_output_name = par_from_output_name input,
            to_input_name = par_to_parameter_name input,
            input_index = i\<rparr> # parameter_edges to_id (Suc i) rest)"

definition node_edges :: "int \<Rightarrow> Node \<Rightarrow> GraphTopologyEdge list" where
  "node_edges to_id nd =
     image_edges to_id 0 (image_inputs nd) @ parameter_edges to_id 0 (parameter_inputs nd)"

definition empty_index :: "NodeMap \<Rightarrow> GraphTopologyIndex" where
  "empty_index ns =
     \<lparr>incoming_by_node = map_of (map (\<lambda>(i, _). (i, [])) ns),
      outgoing_by_node = map_of (map (\<lambda>(i, _). (i, [])) ns)\<rparr>"

definition build_topology_index :: "NodeMap \<Rightarrow> GraphTopologyIndex" where
  "build_topology_index ns =
     fold (\<lambda>(to_id, nd) ix. fold add_edge (node_edges to_id nd) ix) ns (empty_index ns)"

section \<open>Validation\<close>

record dfs_state =
  visiting :: "int set"
  visited :: "int set"

primrec validate_node_dfs :: "nat \<Rightarrow> NodeMap \<Rightarrow> int \<Rightarrow> dfs_state \<Rightarrow> dfs_state res" where
  "validate_node_dfs 0 ns i st = Inl Fuel_Exhausted"
| "validate_node_dfs (Suc fuel) ns i st =
     (if i \<in> visited st then Inr st
      else if i \<in> visiting st then Inl (Graph_Error Cycle)
      else case map_of ns i of
        None \<Rightarrow> Inl (Graph_Error MissingDependency)
      | Some nd \<Rightarrow>
          res_bind
            (res_fold
              (\<lambda>d st'. if d = - 1 then Inr st'
                       else if map_of ns d = None then Inl (Graph_Error MissingDependency)
                       else validate_node_dfs fuel ns d st')
              (node_deps nd) (st\<lparr>visiting := insert i (visiting st)\<rparr>))
            (\<lambda>st'. Inr (st'\<lparr>visiting := visiting st' - {i}, visited := insert i (visited st')\<rparr>)))"

definition validate_node_map :: "NodeMap \<Rightarrow> unit res" where
  "validate_node_map ns =
     res_bind
       (res_fold (\<lambda>(i, _) st. validate_node_dfs (Suc (length ns)) ns i st) ns
          \<lparr>visiting = {}, visited = {}\<rparr>)
       (\<lambda>_. Inr ())"

section \<open>Ancestor search\<close>

text \<open>A dependency of \<open>- 1\<close> is skipped; every other one is searched, present or not.\<close>

primrec is_ancestor :: "nat \<Rightarrow> NodeMap \<Rightarrow> int \<Rightarrow> int \<Rightarrow> int set \<Rightarrow> (bool \<times> int set) res" where
  "is_ancestor 0 ns a i vis = Inl Fuel_Exhausted"
| "is_ancestor (Suc fuel) ns a i vis =
     (if a = i then Inr (True, vis)
      else if i \<in> vis then Inr (False, vis)
      else case map_of ns i of
        None \<Rightarrow> Inr (False, insert i vis)
      | Some nd \<Rightarrow>
          search_any
            (\<lambda>d vis'. if d \<noteq> - 1 then is_ancestor fuel ns a d vis' else Inr (False, vis'))
            (node_deps nd) (insert i vis))"

section \<open>Well-formed graphs\<close>

text \<open>
  \<open>dep_rel ns\<close> relates a dependency to its dependent; \<open>- 1\<close> marks a disconnected input. A
  node map is valid when every connected input names a node of the map and no node depends
  on itself through any chain of inputs.
\<close>

definition node_keys :: "NodeMap \<Rightarrow> int set" where
  "node_keys ns = fst ` set ns"

definition dep_rel :: "NodeMap \<Rightarrow> (int \<times> int) set" where
  "dep_rel ns = {(d, i). \<exists>nd. map_of ns i = Some nd \<and> d \<in> set (node_deps nd) \<and> d \<noteq> - 1}"

definition closed_nodes :: "NodeMap \<Rightarrow> bool" where
  "closed_nodes ns \<longleftrightarrow> (\<forall>(d, i) \<in> dep_rel ns. d \<in> node_keys ns)"

definition valid_nodes :: "NodeMap \<Rightarrow> bool" where
  "valid_nodes ns \<longleftrightarrow> closed_nodes ns \<and> acyclic (dep_rel ns)"

lemma map_of_None_keys: "map_of ns i = None \<longleftrightarrow> i \<notin> node_keys ns"
  by (simp add: node_keys_def map_of_eq_None_iff)

lemma map_of_Some_keys: "map_of ns i = Some nd \<Longrightarrow> i \<in> node_keys ns"
  using map_of_None_keys [of ns i] by auto

lemma dep_rel_keys: "(d, i) \<in> dep_rel ns \<Longrightarrow> i \<in> node_keys ns"
  by (auto simp: dep_rel_def dest: map_of_Some_keys)

lemma dep_relI: "map_of ns i = Some nd \<Longrightarrow> d \<in> set (node_deps nd) \<Longrightarrow> d \<noteq> - 1 \<Longrightarrow> (d, i) \<in> dep_rel ns"
  by (auto simp: dep_rel_def)

lemma finite_node_keys [simp]: "finite (node_keys ns)"
  by (simp add: node_keys_def)

lemma card_node_keys: "card (node_keys ns) \<le> length ns"
  unfolding node_keys_def by (metis card_image_le card_length finite_set le_trans)

text \<open>An acyclic relation stays acyclic when a point without outgoing edges gets incoming ones.\<close>

lemma acyclic_extend:
  assumes "acyclic r" "s \<subseteq> UNIV \<times> {x}" "x \<notin> Domain r" "x \<notin> Domain s"
  shows "acyclic (r \<union> s)"
proof -
  have step: "(a, b) \<in> r\<^sup>+ \<or> (b = x \<and> a \<noteq> x)" if "(a, b) \<in> (r \<union> s)\<^sup>+" for a b
    using that
  proof (induction rule: trancl_induct)
    case (base b)
    then show ?case using assms(2,4) by auto
  next
    case (step b c)
    from step.IH show ?case
    proof
      assume ab: "(a, b) \<in> r\<^sup>+"
      then have "a \<noteq> x" using assms(3) by (metis DomainI tranclD)
      with ab step.hyps(2) assms(2) show ?thesis by (auto intro: trancl_into_trancl)
    next
      assume "b = x \<and> a \<noteq> x"
      with step.hyps(2) assms(3,4) show ?thesis by auto
    qed
  qed
  show ?thesis
  proof (rule acyclicI, rule allI, rule notI)
    fix a assume "(a, a) \<in> (r \<union> s)\<^sup>+"
    from step [OF this] assms(1) show False by (auto simp: acyclic_def)
  qed
qed

subsection \<open>Validation is exact\<close>

definition visited_rel :: "NodeMap \<Rightarrow> int set \<Rightarrow> (int \<times> int) set" where
  "visited_rel ns V = {(d, i) \<in> dep_rel ns. i \<in> V}"

definition dfs_inv :: "NodeMap \<Rightarrow> dfs_state \<Rightarrow> bool" where
  "dfs_inv ns st \<longleftrightarrow>
     visited st \<subseteq> node_keys ns \<and> visiting st \<inter> visited st = {}
     \<and> (\<forall>(d, i) \<in> visited_rel ns (visited st). d \<in> visited st)
     \<and> acyclic (visited_rel ns (visited st))"

definition dfs_error :: "NodeMap \<Rightarrow> ps_exn \<Rightarrow> bool" where
  "dfs_error ns e \<longleftrightarrow>
     (e = Graph_Error Cycle \<and> \<not> acyclic (dep_rel ns))
     \<or> (e = Graph_Error MissingDependency \<and> \<not> closed_nodes ns)"

definition dfs_goal :: "NodeMap \<Rightarrow> dfs_state \<Rightarrow> int set \<Rightarrow> dfs_state res \<Rightarrow> bool" where
  "dfs_goal ns st S r =
     (case r of
        Inl e \<Rightarrow> dfs_error ns e
      | Inr st' \<Rightarrow> dfs_inv ns st' \<and> visiting st' = visiting st \<and> visited st \<subseteq> visited st'
          \<and> S \<subseteq> visited st')"

lemma dfs_goal_fold:
  assumes "\<And>d st'. d \<in> set ds \<Longrightarrow> dfs_inv ns st' \<Longrightarrow> visiting st' = visiting st \<Longrightarrow>
      dfs_goal ns st' (g d) (f d st')"
    and "dfs_inv ns st"
  shows "dfs_goal ns st (\<Union>d \<in> set ds. g d) (res_fold f ds st)"
  using assms
proof (induction ds arbitrary: st)
  case Nil
  then show ?case by (simp add: dfs_goal_def)
next
  case (Cons d ds)
  have one: "dfs_goal ns st (g d) (f d st)" using Cons.prems by simp
  show ?case
  proof (cases "f d st")
    case (Inl e)
    with one show ?thesis by (simp add: dfs_goal_def)
  next
    case (Inr st')
    with one have st': "dfs_inv ns st'" "visiting st' = visiting st" "visited st \<subseteq> visited st'"
      "g d \<subseteq> visited st'" by (simp_all add: dfs_goal_def)
    have "dfs_goal ns st' (\<Union>d \<in> set ds. g d) (res_fold f ds st')"
      using Cons.prems(1) st' by (intro Cons.IH) auto
    with Inr st' show ?thesis
      by (auto simp: dfs_goal_def split: sum.splits)
  qed
qed

lemma dfs_inv_finish:
  assumes inv: "dfs_inv ns st" and i: "map_of ns i = Some nd" "i \<in> visiting st"
    and deps: "\<forall>d \<in> set (node_deps nd). d = - 1 \<or> d \<in> visited st"
  shows "dfs_inv ns \<lparr>visiting = visiting st - {i}, visited = insert i (visited st)\<rparr>"
proof -
  have fresh: "i \<notin> visited st" using inv i(2) by (auto simp: dfs_inv_def)
  let ?s = "{(d, j) \<in> dep_rel ns. j = i}"
  have split_rel: "visited_rel ns (insert i (visited st)) = visited_rel ns (visited st) \<union> ?s"
    by (auto simp: visited_rel_def)
  have s: "d \<in> visited st" if "(d, j) \<in> ?s" for d j
    using that deps i(1) by (auto simp: dep_rel_def)
  have "acyclic (visited_rel ns (visited st) \<union> ?s)"
  proof (rule acyclic_extend)
    show "acyclic (visited_rel ns (visited st))" using inv by (simp add: dfs_inv_def)
    show "?s \<subseteq> UNIV \<times> {i}" by auto
    show "i \<notin> Domain (visited_rel ns (visited st))"
      using inv fresh by (auto simp: dfs_inv_def)
    show "i \<notin> Domain ?s" using s fresh by blast
  qed
  moreover have "\<forall>(d, j) \<in> visited_rel ns (visited st) \<union> ?s. d \<in> insert i (visited st)"
    using inv s by (auto simp: dfs_inv_def)
  ultimately show ?thesis
    using inv map_of_Some_keys [OF i(1)] fresh by (auto simp: dfs_inv_def split_rel)
qed

lemma validate_node_dfs_spec:
  assumes "dfs_inv ns st" "card (node_keys ns - visiting st) < fuel"
    and "\<forall>v \<in> visiting st. (i, v) \<in> (dep_rel ns)\<^sup>+" and "i \<in> node_keys ns"
  shows "dfs_goal ns st {i} (validate_node_dfs fuel ns i st)"
  using assms
proof (induction fuel arbitrary: i st)
  case 0
  then show ?case by simp
next
  case (Suc fuel)
  consider (seen) "i \<in> visited st" | (cycle) "i \<notin> visited st" "i \<in> visiting st"
    | (fresh) "i \<notin> visited st" "i \<notin> visiting st" by blast
  then show ?case
  proof cases
    case seen
    with Suc.prems show ?thesis by (simp add: dfs_goal_def)
  next
    case cycle
    with Suc.prems(3) have "(i, i) \<in> (dep_rel ns)\<^sup>+" by blast
    with cycle show ?thesis by (auto simp: dfs_goal_def dfs_error_def acyclic_def)
  next
    case fresh
    obtain nd where nd: "map_of ns i = Some nd"
      using Suc.prems(4) map_of_None_keys [of ns i] by auto
    let ?st = "st\<lparr>visiting := insert i (visiting st)\<rparr>"
    let ?f = "\<lambda>d st'. if d = - 1 then Inr st'
      else if map_of ns d = None then Inl (Graph_Error MissingDependency)
      else validate_node_dfs fuel ns d st'"
    have inv: "dfs_inv ns ?st" using Suc.prems(1) fresh by (auto simp: dfs_inv_def)
    have "node_keys ns - insert i (visiting st) \<subset> node_keys ns - visiting st"
      using Suc.prems(4) fresh(2) by auto
    then have "card (node_keys ns - insert i (visiting st)) < card (node_keys ns - visiting st)"
      by (rule psubset_card_mono [rotated]) simp
    then have card: "card (node_keys ns - visiting ?st) < fuel"
      using Suc.prems(2) by simp
    have goal: "dfs_goal ns ?st (\<Union>d \<in> set (node_deps nd). {d} - {- 1}) (res_fold ?f (node_deps nd) ?st)"
    proof (rule dfs_goal_fold [OF _ inv])
      fix d st' assume d: "d \<in> set (node_deps nd)" and st': "dfs_inv ns st'" "visiting st' = visiting ?st"
      show "dfs_goal ns st' ({d} - {- 1}) (?f d st')"
      proof (cases "d = - 1")
        case True
        with st' show ?thesis by (simp add: dfs_goal_def)
      next
        case False
        with nd d have R: "(d, i) \<in> dep_rel ns" by (intro dep_relI)
        show ?thesis
        proof (cases "map_of ns d = None")
          case True
          with R have "\<not> closed_nodes ns"
            by (auto simp: closed_nodes_def map_of_None_keys)
          with True False show ?thesis by (simp add: dfs_goal_def dfs_error_def)
        next
          case in_map: False
          have "dfs_goal ns st' {d} (validate_node_dfs fuel ns d st')"
          proof (rule Suc.IH [OF st'(1)])
            show "card (node_keys ns - visiting st') < fuel" using card st'(2) by simp
            show "\<forall>v \<in> visiting st'. (d, v) \<in> (dep_rel ns)\<^sup>+"
              using Suc.prems(3) R st'(2) by (auto intro: trancl_into_trancl2)
            show "d \<in> node_keys ns" using in_map by (simp add: map_of_None_keys)
          qed
          with False in_map show ?thesis by auto
        qed
      qed
    qed
    show ?thesis
    proof (cases "res_fold ?f (node_deps nd) ?st")
      case (Inl e)
      with goal fresh nd show ?thesis by (simp add: dfs_goal_def)
    next
      case (Inr st')
      with goal have st': "dfs_inv ns st'" "visiting st' = insert i (visiting st)"
        "visited st \<subseteq> visited st'" "\<forall>d \<in> set (node_deps nd). d = - 1 \<or> d \<in> visited st'"
        by (auto simp: dfs_goal_def)
      let ?fin = "\<lparr>visiting = visiting st, visited = insert i (visited st')\<rparr>"
      have "visiting st' - {i} = visiting st" using st'(2) fresh(2) by simp
      then have fin: "st'\<lparr>visiting := visiting st' - {i}, visited := insert i (visited st')\<rparr> = ?fin"
        and inv': "dfs_inv ns ?fin"
        using dfs_inv_finish [OF st'(1) nd _ st'(4)] st'(2) by (cases st', simp_all)
      have "validate_node_dfs (Suc fuel) ns i st = Inr ?fin"
        using fresh nd Inr fin by (simp add: Inr)
      with inv' st' show ?thesis by (auto simp: dfs_goal_def)
    qed
  qed
qed

lemma validate_node_map_fold:
  "dfs_goal ns \<lparr>visiting = {}, visited = {}\<rparr> (node_keys ns)
     (res_fold (\<lambda>(i, _) st. validate_node_dfs (Suc (length ns)) ns i st) ns \<lparr>visiting = {}, visited = {}\<rparr>)"
proof -
  let ?f = "\<lambda>i st. validate_node_dfs (Suc (length ns)) ns i st"
  have keys: "node_keys ns = (\<Union>d \<in> set (map fst ns). {d})" by (auto simp: node_keys_def)
  show ?thesis
    unfolding res_fold_fst keys
  proof (rule dfs_goal_fold)
    show "dfs_inv ns \<lparr>visiting = {}, visited = {}\<rparr>"
      by (simp add: dfs_inv_def visited_rel_def acyclic_def)
  next
    fix d :: int and st' :: dfs_state
    assume d: "d \<in> set (map fst ns)" and st': "dfs_inv ns st'"
      "visiting st' = visiting \<lparr>visiting = {}, visited = {}\<rparr>"
    show "dfs_goal ns st' {d} (?f d st')"
    proof (rule validate_node_dfs_spec [OF st'(1)])
      show "card (node_keys ns - visiting st') < Suc (length ns)"
        using card_node_keys [of ns] st'(2) by simp
      show "d \<in> node_keys ns" using d by (simp add: node_keys_def)
    qed (simp add: st'(2))
  qed
qed

lemma dfs_inv_complete:
  assumes "dfs_inv ns st" "node_keys ns \<subseteq> visited st"
  shows "valid_nodes ns"
proof -
  have eq: "visited_rel ns (visited st) = dep_rel ns"
    using assms(2) dep_rel_keys by (auto simp: visited_rel_def)
  from assms show ?thesis
    unfolding valid_nodes_def closed_nodes_def dfs_inv_def eq by blast
qed

text \<open>
  Validation succeeds on valid maps, and its error says which part fails: no map is
  rejected for a cycle that has none, or for a missing dependency that is present.
\<close>

lemma validate_node_map_cases:
  obtains (ok) "validate_node_map ns = Inr ()" "valid_nodes ns"
  | (cycle) "validate_node_map ns = Inl (Graph_Error Cycle)" "\<not> acyclic (dep_rel ns)"
  | (missing) "validate_node_map ns = Inl (Graph_Error MissingDependency)" "\<not> closed_nodes ns"
proof -
  let ?r = "res_fold (\<lambda>(i, _) st. validate_node_dfs (Suc (length ns)) ns i st) ns
    \<lparr>visiting = {}, visited = {}\<rparr>"
  show thesis
  proof (cases ?r)
    case (Inl e)
    with validate_node_map_fold [of ns] show thesis
      using cycle missing by (auto simp: dfs_goal_def dfs_error_def validate_node_map_def)
  next
    case (Inr st)
    with validate_node_map_fold [of ns] have "dfs_inv ns st" "node_keys ns \<subseteq> visited st"
      by (simp_all add: dfs_goal_def)
    then have "valid_nodes ns" by (rule dfs_inv_complete)
    with Inr show thesis using ok by (simp add: validate_node_map_def)
  qed
qed

lemma validate_node_map_Inr: "validate_node_map ns = Inr () \<longleftrightarrow> valid_nodes ns"
  by (rule validate_node_map_cases [of ns]) (auto simp: valid_nodes_def)

subsection \<open>The ancestor search\<close>

definition node_succs :: "NodeMap \<Rightarrow> int \<Rightarrow> int list" where
  "node_succs ns i =
     (case map_of ns i of None \<Rightarrow> [] | Some nd \<Rightarrow> filter (\<lambda>d. d \<noteq> - 1) (node_deps nd))"

lemma succ_rel_node_succs: "succ_rel (node_succs ns) = dep_rel ns"
proof -
  have "d \<in> set (node_succs ns i) \<longleftrightarrow> (d, i) \<in> dep_rel ns" for d i
    by (cases "map_of ns i") (auto simp: dep_rel_def node_succs_def)
  then show ?thesis by (auto simp: succ_rel_def)
qed

interpretation node_graph: finite_graph "node_succs ns" "node_keys ns" for ns
  by unfold_locales (auto simp: node_succs_def node_keys_def map_of_eq_None_iff [symmetric] split: option.splits)

lemma is_ancestor_reach_search: "is_ancestor fuel ns a i vis = reach_search fuel (node_succs ns) a i vis"
proof (induction fuel arbitrary: i vis)
  case (Suc fuel)
  then have "is_ancestor fuel ns a = reach_search fuel (node_succs ns) a" by (intro ext)
  moreover have "node_succs ns i
      = (case map_of ns i of None \<Rightarrow> [] | Some nd \<Rightarrow> filter (\<lambda>d. d \<noteq> - 1) (node_deps nd))"
    by (simp add: node_succs_def)
  ultimately show ?case by (simp add: search_any_skip split: option.split)
qed simp

lemma is_ancestor_decides:
  obtains vis where "is_ancestor (Suc (length ns)) ns a i {} = Inr ((a, i) \<in> (dep_rel ns)\<^sup>*, vis)"
  using node_graph.reach_search_decides [of ns "Suc (length ns)" a i] card_node_keys [of ns]
  by (auto simp: is_ancestor_reach_search succ_rel_node_succs)

subsection \<open>The index holds exactly the connected inputs\<close>

definition index_edges :: "NodeMap \<Rightarrow> GraphTopologyEdge list" where
  "index_edges ns = concat (map (\<lambda>(i, nd). node_edges i nd) ns)"

definition edges_at :: "(int \<rightharpoonup> GraphTopologyEdge list) \<Rightarrow> int \<Rightarrow> GraphTopologyEdge list" where
  "edges_at m k = (case m k of None \<Rightarrow> [] | Some es \<Rightarrow> es)"

lemma build_topology_index_edges:
  "build_topology_index ns = fold add_edge (index_edges ns) (empty_index ns)"
proof -
  have "fold (\<lambda>(i, nd) ix. fold add_edge (node_edges i nd) ix) ns ix = fold add_edge (index_edges ns) ix"
    for ix
    by (induction ns arbitrary: ix) (auto simp: index_edges_def)
  then show ?thesis by (simp add: build_topology_index_def)
qed

lemma edges_at_push_edge:
  "edges_at (push_edge e j m) k = (if k = j then edges_at m k @ [e] else edges_at m k)"
  by (simp add: edges_at_def push_edge_def split: option.split)

lemma edges_at_fold:
  "edges_at (incoming_by_node (fold add_edge es ix)) k
     = edges_at (incoming_by_node ix) k @ filter (\<lambda>e. to_node_id e = k) es"
  "edges_at (outgoing_by_node (fold add_edge es ix)) k
     = edges_at (outgoing_by_node ix) k @ filter (\<lambda>e. from_node_id e = k) es"
  by (induction es arbitrary: ix) (auto simp: add_edge_def edges_at_push_edge)

lemma edges_at_empty_index [simp]:
  "edges_at (incoming_by_node (empty_index ns)) k = []"
  "edges_at (outgoing_by_node (empty_index ns)) k = []"
proof -
  have "map_of (map (\<lambda>(i, _). (i, [] :: GraphTopologyEdge list)) ns) k \<in> {None, Some []}"
    by (induction ns) auto
  then show "edges_at (incoming_by_node (empty_index ns)) k = []"
    "edges_at (outgoing_by_node (empty_index ns)) k = []"
    by (auto simp: edges_at_def empty_index_def)
qed

lemma image_edges_fields:
  "e \<in> set (image_edges i n ins) \<Longrightarrow> to_node_id e = i \<and> 0 \<le> from_node_id e"
  "map from_node_id (image_edges i n ins) = filter (\<lambda>d. 0 \<le> d) (map img_from_node_id ins)"
  by (induction ins arbitrary: n) (auto split: if_splits)

lemma parameter_edges_fields:
  "e \<in> set (parameter_edges i n ins) \<Longrightarrow> to_node_id e = i \<and> 0 \<le> from_node_id e"
  "map from_node_id (parameter_edges i n ins) = filter (\<lambda>d. 0 \<le> d) (map par_from_node_id ins)"
  by (induction ins arbitrary: n) (auto split: if_splits)

lemma node_edges_to: "e \<in> set (node_edges i nd) \<Longrightarrow> to_node_id e = i"
  by (auto simp: node_edges_def dest: image_edges_fields(1) parameter_edges_fields(1))

lemma node_edges_from:
  "map from_node_id (node_edges i nd) = filter (\<lambda>d. 0 \<le> d) (node_deps nd)"
  by (simp add: node_edges_def node_deps_def image_edges_fields(2) parameter_edges_fields(2))

lemma filter_node_edges:
  "filter (\<lambda>e. to_node_id e = k) (node_edges i nd) = (if i = k then node_edges i nd else [])"
  by (auto simp: filter_empty_conv filter_id_conv dest: node_edges_to)

lemma index_edges_to:
  "distinct (map fst ns) \<Longrightarrow>
     filter (\<lambda>e. to_node_id e = k) (index_edges ns)
       = (case map_of ns k of None \<Rightarrow> [] | Some nd \<Rightarrow> node_edges k nd)"
proof (induction ns)
  case (Cons x ns)
  obtain i nd where x: "x = (i, nd)" by (cases x)
  from Cons.prems x have "i = k \<Longrightarrow> map_of ns k = None" by (auto simp: map_of_eq_None_iff)
  with Cons x show ?case by (auto simp: index_edges_def filter_node_edges)
qed (simp add: index_edges_def)

lemma upstream_index:
  "distinct (map fst ns) \<Longrightarrow> edges_at (incoming_by_node (build_topology_index ns)) k
     = (case map_of ns k of None \<Rightarrow> [] | Some nd \<Rightarrow> node_edges k nd)"
  by (simp add: build_topology_index_edges edges_at_fold index_edges_to)

lemma downstream_index:
  "edges_at (outgoing_by_node (build_topology_index ns)) k
     = filter (\<lambda>e. from_node_id e = k) (index_edges ns)"
  by (simp add: build_topology_index_edges edges_at_fold)

section \<open>Properties\<close>

definition demo_source :: Node where
  "demo_source = default_node\<lparr>node_id := 1\<rparr>"

definition demo_sink :: Node where
  "demo_sink = default_node\<lparr>node_id := 2,
     image_inputs := [\<lparr>img_from_node_id = 1, img_from_output_name = ''image''\<rparr>]\<rparr>"

lemmas demo_defs = demo_source_def demo_sink_def default_node_def

text \<open>
  C12. Validation is exact: it returns (with the recursion bound it is started with) for every
  node map, accepts exactly the maps whose connected inputs all name present nodes and whose
  dependency relation has no cycle, and on rejection the error kind is truthful: a cycle
  error only when there is a cycle, a missing-dependency error only when an input names an
  absent node.
\<close>

theorem validation_exact:
  "case validate_node_map ns of
     Inr _ \<Rightarrow> valid_nodes ns
   | Inl e \<Rightarrow> (e = Graph_Error Cycle \<and> \<not> acyclic (dep_rel ns))
            \<or> (e = Graph_Error MissingDependency \<and> \<not> closed_nodes ns)"
  by (cases rule: validate_node_map_cases [of ns]) simp_all

theorem validation_exact_witness:
  "valid_nodes [(1, demo_source), (2, demo_sink)]
   \<and> validate_node_map [(2, demo_sink)] = Inl (Graph_Error MissingDependency)
   \<and> \<not> closed_nodes [(2, demo_sink)]"
  using validation_exact [of "[(1, demo_source), (2, demo_sink)]"] validation_exact [of "[(2, demo_sink)]"]
  by (simp add: validate_node_map_def demo_defs node_deps_def)

text \<open>
  The ancestor search of the graph owner decides ancestry: with a recursion bound of one
  more than the number of nodes and nothing visited it returns, and answers whether the
  first node is reachable from the second along connected inputs.
\<close>

theorem ancestor_search_decides:
  "\<exists>visited. is_ancestor (Suc (length ns)) ns a i {} = Inr ((a, i) \<in> (dep_rel ns)\<^sup>*, visited)"
  using is_ancestor_decides [of ns a i] by blast

end
