(* ===== verification/GraphMutation.thy ===== *)
theory GraphMutation
  imports GraphModel "HOL-Library.AList"
begin

text \<open>
  \<open>class GraphModel\<close> of \<open>src/lib/graph/graph_model.hpp\<close> and \<open>.cpp\<close>: the graph owner's
  state, its structural operations (each validates a candidate node map, builds its
  index and only then publishes both with the next revision), its runtime state, compute
  snapshots and queries. An operation that throws returns no state: every throw of the
  code precedes the first write.
\<close>

section \<open>State\<close>

record NodeTiming =
  timing_id :: int
  timing_name :: string
  elapsed_ms :: f64
  timing_source :: string

record TimingCollector =
  node_timings :: "NodeTiming list"
  total_ms :: f64

datatype DiskCacheLoadStatus = Skipped | Miss | Hit | LoadError

record DiskCacheLoadResult =
  load_node_id :: int
  load_cache_type :: string
  load_location :: string
  cache_file :: string
  metadata_file :: string
  load_status :: DiskCacheLoadStatus
  load_code :: GraphErrc
  load_message :: string

text \<open>
  The type parameters are the dirty-region snapshots, compute plans, plan summaries and
  task graphs the graph keeps as diagnostics and caches; it copies, swaps and drops them
  without looking inside. \<open>full_task_graph_cache\<close> maps keys to shared non-null graphs.
\<close>

record ('snapshot, 'plan, 'summary, 'task_graph) GraphModel =
  timing_results :: TimingCollector
  cache_root :: string
  last_dirty_region_snapshot_debug :: "string option"
  last_dirty_region_snapshot :: "'snapshot option"
  recent_dirty_region_snapshots :: "'snapshot list"
  dirty_generation_counter :: u64
  dirty_source_hp_commit_generation :: "int \<rightharpoonup> u64"
  last_compute_plan :: "'plan option"
  recent_compute_plans :: "'plan list"
  last_compute_plan_summary :: "'summary option"
  recent_compute_plan_summaries :: "'summary list"
  total_io_time_ms :: f64
  nodes :: NodeMap
  topology :: GraphTopologyIndex
  disk_cache_diagnostics :: "DiskCacheLoadResult option"
  topology_generation :: u64
  full_task_graph_cache :: "string \<rightharpoonup> 'task_graph"
  quiet :: bool
  skip_save_cache :: bool
  instance_id :: u64
  revision :: u64
  compute_snapshot :: bool

definition no_timing :: TimingCollector where
  "no_timing = \<lparr>node_timings = [], total_ms = Finite 0\<rparr>"

definition new_graph :: "string \<Rightarrow> u64 \<Rightarrow> ('d, 'p, 's, 'f) GraphModel" where
  "new_graph cache_root_dir minted =
     \<lparr>timing_results = no_timing, cache_root = cache_root_dir, last_dirty_region_snapshot_debug = None,
      last_dirty_region_snapshot = None, recent_dirty_region_snapshots = [],
      dirty_generation_counter = 0, dirty_source_hp_commit_generation = Map.empty,
      last_compute_plan = None, recent_compute_plans = [], last_compute_plan_summary = None,
      recent_compute_plan_summaries = [], total_io_time_ms = Finite 0, nodes = [],
      topology = \<lparr>incoming_by_node = Map.empty, outgoing_by_node = Map.empty\<rparr>,
      disk_cache_diagnostics = None, topology_generation = 0, full_task_graph_cache = Map.empty,
      quiet = True, skip_save_cache = False, instance_id = minted, revision = revision_initial,
      compute_snapshot = False\<rparr>"

section \<open>Compute snapshots\<close>

definition clone_for_compute :: "('d, 'p, 's, 'f) GraphModel \<Rightarrow> ('d, 'p, 's, 'f) GraphModel" where
  "clone_for_compute g =
     \<lparr>timing_results = timing_results g, cache_root = cache_root g,
      last_dirty_region_snapshot_debug = last_dirty_region_snapshot_debug g,
      last_dirty_region_snapshot = last_dirty_region_snapshot g,
      recent_dirty_region_snapshots = recent_dirty_region_snapshots g,
      dirty_generation_counter = dirty_generation_counter g,
      dirty_source_hp_commit_generation = dirty_source_hp_commit_generation g,
      last_compute_plan = last_compute_plan g, recent_compute_plans = recent_compute_plans g,
      last_compute_plan_summary = last_compute_plan_summary g,
      recent_compute_plan_summaries = recent_compute_plan_summaries g,
      total_io_time_ms = total_io_time_ms g, nodes = nodes g, topology = topology g,
      disk_cache_diagnostics = disk_cache_diagnostics g,
      topology_generation = topology_generation g,
      full_task_graph_cache = full_task_graph_cache g, quiet = quiet g,
      skip_save_cache = skip_save_cache g, instance_id = instance_id g, revision = revision g,
      compute_snapshot = True\<rparr>"

text \<open>
  One direction of the swaps of \<open>publish_compute_snapshot\<close>: \<open>receive_payload g p\<close> is \<open>g\<close>
  with the swapped members of \<open>p\<close>. Identity, revision, topology generation, flags and cache
  root are not swapped.
\<close>

definition receive_payload ::
  "('d, 'p, 's, 'f) GraphModel \<Rightarrow> ('d, 'p, 's, 'f) GraphModel \<Rightarrow> ('d, 'p, 's, 'f) GraphModel" where
  "receive_payload g p =
     g\<lparr>timing_results := timing_results p,
       last_dirty_region_snapshot_debug := last_dirty_region_snapshot_debug p,
       last_dirty_region_snapshot := last_dirty_region_snapshot p,
       recent_dirty_region_snapshots := recent_dirty_region_snapshots p,
       dirty_generation_counter := dirty_generation_counter p,
       dirty_source_hp_commit_generation := dirty_source_hp_commit_generation p,
       last_compute_plan := last_compute_plan p, recent_compute_plans := recent_compute_plans p,
       last_compute_plan_summary := last_compute_plan_summary p,
       recent_compute_plan_summaries := recent_compute_plan_summaries p,
       total_io_time_ms := total_io_time_ms p, nodes := nodes p, topology := topology p,
       disk_cache_diagnostics := disk_cache_diagnostics p,
       full_task_graph_cache := full_task_graph_cache p\<rparr>"

definition publish_compute_snapshot ::
  "('d, 'p, 's, 'f) GraphModel \<Rightarrow> ('d, 'p, 's, 'f) GraphModel
   \<Rightarrow> ('d, 'p, 's, 'f) GraphModel \<times> ('d, 'p, 's, 'f) GraphModel" where
  "publish_compute_snapshot live prepared = (receive_payload live prepared, receive_payload prepared live)"

definition publish_prepared_revision :: "u64 \<Rightarrow> ('d, 'p, 's, 'f) GraphModel \<Rightarrow> ('d, 'p, 's, 'f) GraphModel" where
  "publish_prepared_revision prepared g = g\<lparr>revision := prepared\<rparr>"

section \<open>Runtime state\<close>

definition reset_runtime_state :: "('d, 'p, 's, 'f) GraphModel \<Rightarrow> ('d, 'p, 's, 'f) GraphModel" where
  "reset_runtime_state g =
     g\<lparr>timing_results := no_timing, last_dirty_region_snapshot_debug := None,
       last_dirty_region_snapshot := None, recent_dirty_region_snapshots := [],
       dirty_generation_counter := 0, dirty_source_hp_commit_generation := Map.empty,
       last_compute_plan := None, recent_compute_plans := [], last_compute_plan_summary := None,
       recent_compute_plan_summaries := [], full_task_graph_cache := Map.empty,
       disk_cache_diagnostics := None, total_io_time_ms := Finite 0, skip_save_cache := False\<rparr>"

definition record_disk_cache_load_result ::
  "DiskCacheLoadResult \<Rightarrow> ('d, 'p, 's, 'f) GraphModel \<Rightarrow> ('d, 'p, 's, 'f) GraphModel" where
  "record_disk_cache_load_result r g = g\<lparr>disk_cache_diagnostics := Some r\<rparr>"

definition clear_disk_cache_load_result :: "('d, 'p, 's, 'f) GraphModel \<Rightarrow> ('d, 'p, 's, 'f) GraphModel" where
  "clear_disk_cache_load_result g = g\<lparr>disk_cache_diagnostics := None\<rparr>"

definition set_quiet :: "bool \<Rightarrow> ('d, 'p, 's, 'f) GraphModel \<Rightarrow> ('d, 'p, 's, 'f) GraphModel" where
  "set_quiet q g = g\<lparr>quiet := q\<rparr>"

definition set_skip_save_cache :: "bool \<Rightarrow> ('d, 'p, 's, 'f) GraphModel \<Rightarrow> ('d, 'p, 's, 'f) GraphModel" where
  "set_skip_save_cache v g = g\<lparr>skip_save_cache := v\<rparr>"

definition cached_full_task_graph :: "string \<Rightarrow> ('d, 'p, 's, 'f) GraphModel \<Rightarrow> 'f option" where
  "cached_full_task_graph key g = full_task_graph_cache g key"

definition remember_full_task_graph ::
  "string \<Rightarrow> 'f option \<Rightarrow> ('d, 'p, 's, 'f) GraphModel \<Rightarrow> ('d, 'p, 's, 'f) GraphModel" where
  "remember_full_task_graph key graph g =
     (case graph of
        None \<Rightarrow> g
      | Some t \<Rightarrow> g\<lparr>full_task_graph_cache := (full_task_graph_cache g)(key \<mapsto> t)\<rparr>)"

definition clear_full_task_graph_cache :: "('d, 'p, 's, 'f) GraphModel \<Rightarrow> ('d, 'p, 's, 'f) GraphModel" where
  "clear_full_task_graph_cache g = g\<lparr>full_task_graph_cache := Map.empty\<rparr>"

text \<open>
  \<open>NodeRuntimeState\<close> is the view a runtime mutator gets: references to the listed members
  and to nothing else of the node. A mutator that throws keeps the writes it has made.
\<close>

record NodeRuntimeState =
  rs_runtime_parameters :: ParameterMap
  rs_outputs :: "OutputPort list"
  rs_caches :: "CacheEntry list"
  rs_preserved :: bool
  rs_cached_output_high_precision :: "NodeOutput option"
  rs_hp_version :: int
  rs_hp_roi :: "PixelRect option"
  rs_last_input_size_hp :: "PixelSize option"
  rs_dependency_lut_cache :: "DependencyLutCache option"
  rs_dependency_lut_version :: u64
  rs_parameters_version :: u64

definition runtime_view :: "Node \<Rightarrow> NodeRuntimeState" where
  "runtime_view nd =
     \<lparr>rs_runtime_parameters = runtime_parameters nd, rs_outputs = outputs nd, rs_caches = caches nd,
      rs_preserved = preserved nd, rs_cached_output_high_precision = cached_output_high_precision nd,
      rs_hp_version = hp_version nd, rs_hp_roi = hp_roi nd,
      rs_last_input_size_hp = last_input_size_hp nd,
      rs_dependency_lut_cache = dependency_lut_cache nd,
      rs_dependency_lut_version = dependency_lut_version nd,
      rs_parameters_version = parameters_version nd\<rparr>"

definition write_runtime :: "NodeRuntimeState \<Rightarrow> Node \<Rightarrow> Node" where
  "write_runtime rs nd =
     nd\<lparr>runtime_parameters := rs_runtime_parameters rs, outputs := rs_outputs rs,
        caches := rs_caches rs, preserved := rs_preserved rs,
        cached_output_high_precision := rs_cached_output_high_precision rs,
        hp_version := rs_hp_version rs, hp_roi := rs_hp_roi rs,
        last_input_size_hp := rs_last_input_size_hp rs,
        dependency_lut_cache := rs_dependency_lut_cache rs,
        dependency_lut_version := rs_dependency_lut_version rs,
        parameters_version := rs_parameters_version rs\<rparr>"

definition mutate_node_runtime_state ::
  "int \<Rightarrow> (NodeRuntimeState \<Rightarrow> NodeRuntimeState \<times> unit res) \<Rightarrow> ('d, 'p, 's, 'f) GraphModel
   \<Rightarrow> ('d, 'p, 's, 'f) GraphModel \<times> unit res" where
  "mutate_node_runtime_state i mutator g =
     (case require_node (nodes g) i of
        Inl e \<Rightarrow> (g, Inl e)
      | Inr nd \<Rightarrow>
          (case mutator (runtime_view nd) of
             (rs, r) \<Rightarrow> (g\<lparr>nodes := AList.update i (write_runtime rs nd) (nodes g)\<rparr>, r)))"

section \<open>Structural operations\<close>

definition publish_structural_replacement ::
  "NodeMap \<Rightarrow> GraphTopologyIndex \<Rightarrow> bool \<Rightarrow> ('d, 'p, 's, 'f) GraphModel \<Rightarrow> ('d, 'p, 's, 'f) GraphModel res" where
  "publish_structural_replacement ns ix reset_runtime g =
     res_bind (revision_next (revision g)) (\<lambda>next_revision.
     res_bind (next_topology_generation (topology_generation g)) (\<lambda>next_generation.
       (let g' = g\<lparr>nodes := ns, topology := ix\<rparr>;
            g'' = (if reset_runtime then reset_runtime_state g' else clear_full_task_graph_cache g')
        in Inr (g''\<lparr>topology_generation := next_generation, revision := next_revision\<rparr>))))"

definition clear :: "('d, 'p, 's, 'f) GraphModel \<Rightarrow> ('d, 'p, 's, 'f) GraphModel res" where
  "clear g =
     res_bind (revision_next (revision g)) (\<lambda>next_revision.
     res_bind (next_topology_generation (topology_generation g)) (\<lambda>next_generation.
       Inr ((reset_runtime_state
              (g\<lparr>nodes := [], topology := \<lparr>incoming_by_node = Map.empty, outgoing_by_node = Map.empty\<rparr>\<rparr>))
            \<lparr>topology_generation := next_generation, revision := next_revision, quiet := True\<rparr>)))"

definition has_node :: "int \<Rightarrow> ('d, 'p, 's, 'f) GraphModel \<Rightarrow> bool" where
  "has_node i g \<longleftrightarrow> map_of (nodes g) i \<noteq> None"

text \<open>Validation, index and publication of a candidate: the tail every structural operation shares.\<close>

definition publish_candidate ::
  "NodeMap \<Rightarrow> bool \<Rightarrow> ('d, 'p, 's, 'f) GraphModel \<Rightarrow> ('d, 'p, 's, 'f) GraphModel res" where
  "publish_candidate candidate reset_runtime g =
     res_bind (validate_node_map candidate) (\<lambda>_.
       publish_structural_replacement candidate (build_topology_index candidate) reset_runtime g)"

definition add_node :: "Node \<Rightarrow> ('d, 'p, 's, 'f) GraphModel \<Rightarrow> ('d, 'p, 's, 'f) GraphModel res" where
  "add_node nd g =
     (if has_node (node_id nd) g then Inl (Graph_Error InvalidParameter)
      else res_bind
        (res_fold
          (\<lambda>input_id _.
             if input_id \<noteq> - 1
             then res_bind (is_ancestor (Suc (length (nodes g))) (nodes g) (node_id nd) input_id {})
                    (\<lambda>(found, _). if found then Inl (Graph_Error Cycle) else Inr ())
             else Inr ())
          (remdups (node_deps nd)) ())
        (\<lambda>_. publish_candidate (AList.update (node_id nd) nd (nodes g)) False g))"

definition replace_node :: "Node \<Rightarrow> ('d, 'p, 's, 'f) GraphModel \<Rightarrow> ('d, 'p, 's, 'f) GraphModel res" where
  "replace_node nd g =
     (if \<not> has_node (node_id nd) g then Inl (Graph_Error NotFound)
      else publish_candidate (AList.update (node_id nd) nd (nodes g)) False g)"

definition disconnect :: "int \<Rightarrow> Node \<Rightarrow> Node" where
  "disconnect i nd =
     nd\<lparr>image_inputs := map (\<lambda>input. if img_from_node_id input = i
                               then input\<lparr>img_from_node_id := - 1\<rparr> else input) (image_inputs nd),
        parameter_inputs := map (\<lambda>input. if par_from_node_id input = i
                               then input\<lparr>par_from_node_id := - 1\<rparr> else input) (parameter_inputs nd)\<rparr>"

definition erase_node :: "int \<Rightarrow> NodeMap \<Rightarrow> NodeMap" where
  "erase_node i ns = filter (\<lambda>(k, _). k \<noteq> i) ns"

definition remove_node :: "int \<Rightarrow> ('d, 'p, 's, 'f) GraphModel \<Rightarrow> ('d, 'p, 's, 'f) GraphModel res" where
  "remove_node i g =
     (if \<not> has_node i g then Inl (Graph_Error NotFound)
      else publish_candidate (map (\<lambda>(k, nd). (k, disconnect i nd)) (erase_node i (nodes g))) False g)"

definition rewire_image_input ::
  "int \<Rightarrow> nat \<Rightarrow> int \<Rightarrow> string \<Rightarrow> ('d, 'p, 's, 'f) GraphModel \<Rightarrow> ('d, 'p, 's, 'f) GraphModel res" where
  "rewire_image_input i index from output_name g =
     res_bind (require_node (nodes g) i) (\<lambda>target.
       if index \<ge> length (image_inputs target) then Inl (Graph_Error InvalidParameter)
       else let input = (image_inputs target ! index)\<lparr>img_from_node_id := from,
                                                       img_from_output_name := output_name\<rparr>;
                target' = target\<lparr>image_inputs := (image_inputs target)[index := input]\<rparr>
            in publish_candidate (AList.update i target' (nodes g)) False g)"

definition rewire_parameter_input ::
  "int \<Rightarrow> nat \<Rightarrow> int \<Rightarrow> string \<Rightarrow> string \<Rightarrow> ('d, 'p, 's, 'f) GraphModel \<Rightarrow> ('d, 'p, 's, 'f) GraphModel res" where
  "rewire_parameter_input i index from output_name parameter_name g =
     res_bind (require_node (nodes g) i) (\<lambda>target.
       if index \<ge> length (parameter_inputs target) then Inl (Graph_Error InvalidParameter)
       else let input = (parameter_inputs target ! index)\<lparr>par_from_node_id := from,
                          par_from_output_name := output_name, par_to_parameter_name := parameter_name\<rparr>;
                target' = target\<lparr>parameter_inputs := (parameter_inputs target)[index := input]\<rparr>
            in publish_candidate (AList.update i target' (nodes g)) False g)"

definition replace_nodes :: "NodeMap \<Rightarrow> ('d, 'p, 's, 'f) GraphModel \<Rightarrow> ('d, 'p, 's, 'f) GraphModel res" where
  "replace_nodes ns g = publish_candidate ns True g"

definition rebuild_topology_index :: "('d, 'p, 's, 'f) GraphModel \<Rightarrow> ('d, 'p, 's, 'f) GraphModel res" where
  "rebuild_topology_index g =
     res_bind (validate_node_map (nodes g)) (\<lambda>_.
     res_bind (revision_next (revision g)) (\<lambda>next_revision.
     res_bind (next_topology_generation (topology_generation g)) (\<lambda>next_generation.
       Inr (clear_full_task_graph_cache
             (g\<lparr>topology := build_topology_index (nodes g), topology_generation := next_generation,
                revision := next_revision\<rparr>)))))"

section \<open>Queries\<close>

definition node_ids :: "('d, 'p, 's, 'f) GraphModel \<Rightarrow> int list" where
  "node_ids g = sort (map fst (nodes g))"

definition graph_node :: "int \<Rightarrow> ('d, 'p, 's, 'f) GraphModel \<Rightarrow> Node res" where
  "graph_node i g = require_node (nodes g) i"

definition upstream_edges :: "('d, 'p, 's, 'f) GraphModel \<Rightarrow> int \<Rightarrow> GraphTopologyEdge list" where
  "upstream_edges g i = (case incoming_by_node (topology g) i of None \<Rightarrow> [] | Some es \<Rightarrow> es)"

definition downstream_edges :: "('d, 'p, 's, 'f) GraphModel \<Rightarrow> int \<Rightarrow> GraphTopologyEdge list" where
  "downstream_edges g i = (case outgoing_by_node (topology g) i of None \<Rightarrow> [] | Some es \<Rightarrow> es)"

text \<open>
  A connected parameter input overrides the static parameter of its name with the
  upstream node's named output; later inputs override earlier ones.
\<close>

definition effective_step :: "('d, 'p, 's, 'f) GraphModel \<Rightarrow> ParameterInput \<Rightarrow> ParameterMap \<Rightarrow> ParameterMap res" where
  "effective_step g input effective =
     (if par_from_node_id input < 0 then Inr effective
      else case map_of (nodes g) (par_from_node_id input) of
        None \<Rightarrow> Inl (Graph_Error MissingDependency)
      | Some upstream_node \<Rightarrow>
          (case cached_output_high_precision upstream_node of
             None \<Rightarrow> Inl (Graph_Error MissingDependency)
           | Some upstream \<Rightarrow>
               (case out_data upstream (par_from_output_name input) of
                  None \<Rightarrow> Inl (Graph_Error MissingDependency)
                | Some v \<Rightarrow> Inr (effective(par_to_parameter_name input \<mapsto> v)))))"

definition resolve_effective_parameter_snapshot :: "Node \<Rightarrow> ('d, 'p, 's, 'f) GraphModel \<Rightarrow> ParameterMap res" where
  "resolve_effective_parameter_snapshot nd g = res_fold (effective_step g) (parameter_inputs nd) (parameters nd)"

definition cached_image_input_extents :: "Node \<Rightarrow> ('d, 'p, 's, 'f) GraphModel \<Rightarrow> PixelSize list" where
  "cached_image_input_extents nd g =
     map (\<lambda>input.
            if img_from_node_id input < 0 then \<lparr>size_width = 0, size_height = 0\<rparr>
            else case map_of (nodes g) (img_from_node_id input) of
              None \<Rightarrow> \<lparr>size_width = 0, size_height = 0\<rparr>
            | Some upstream \<Rightarrow>
                (case cached_output_high_precision upstream of
                   None \<Rightarrow> \<lparr>size_width = 0, size_height = 0\<rparr>
                 | Some upstream_output \<Rightarrow> \<lparr>size_width = out_width upstream_output, size_height = out_height upstream_output\<rparr>))
       (image_inputs nd)"

section \<open>Staged commits\<close>

text \<open>
  \<open>KernelGraphRevisionCommitPolicy\<close> of \<open>src/lib/runtime/kernel_compute.cpp\<close>, the part that
  touches graphs: a staged graph is published only into the live graph it was cloned from,
  at the revision it was cloned at. \<open>commit_staged_graph\<close> is the graph-state callback of
  \<open>commit_high_precision\<close> after the commit claim; \<open>persist_nodes\<close> collects the nodes whose
  cache is written, and fails like \<open>live_graph.node\<close> when the live graph lacks one.
\<close>

definition validate_live_graph :: "('d, 'p, 's, 'f) GraphModel \<Rightarrow> u64 \<Rightarrow> u64 \<Rightarrow> unit res" where
  "validate_live_graph live instance_id' revision' =
     (if compute_snapshot live \<or> instance_id live \<noteq> instance_id' \<or> revision live \<noteq> revision'
      then Inl (Graph_Error ComputeError) else Inr ())"

definition persist_changed_hp_nodes ::
  "('d, 'p, 's, 'f) GraphModel \<Rightarrow> ('d, 'p, 's, 'f) GraphModel \<Rightarrow> int list res" where
  "persist_changed_hp_nodes live publication =
     res_fold
       (\<lambda>i saved. res_bind (graph_node i publication) (\<lambda>staged_node.
          res_bind (graph_node i live) (\<lambda>live_node.
            if hp_version staged_node = hp_version live_node
               \<or> cached_output_high_precision staged_node = None
            then Inr saved else Inr (saved @ [i]))))
       (node_ids publication) []"

definition commit_staged_graph ::
  "bool \<Rightarrow> ('d, 'p, 's, 'f) GraphModel \<Rightarrow> ('d, 'p, 's, 'f) GraphModel
   \<Rightarrow> (('d, 'p, 's, 'f) GraphModel \<times> int list) res" where
  "commit_staged_graph save_cache live staged =
     (let publication = clone_for_compute staged in
      res_bind (validate_live_graph live (instance_id staged) (revision staged)) (\<lambda>_.
      res_bind (if save_cache
                then res_bind (persist_changed_hp_nodes live (set_skip_save_cache False publication))
                       (\<lambda>saved. Inr (set_skip_save_cache False publication, saved))
                else Inr (publication, []))
        (\<lambda>(publication', saved). Inr (fst (publish_compute_snapshot live publication'), saved))))"

section \<open>Well-formed graphs stay well-formed\<close>

definition graph_wf :: "('d, 'p, 's, 'f) GraphModel \<Rightarrow> bool" where
  "graph_wf g \<longleftrightarrow>
     distinct (map fst (nodes g)) \<and> valid_nodes (nodes g)
     \<and> topology g = build_topology_index (nodes g)"

datatype structural_op =
    Op_clear | Op_add Node | Op_replace Node | Op_remove int
  | Op_rewire_image int nat int string | Op_rewire_parameter int nat int string string
  | Op_replace_nodes NodeMap | Op_rebuild

primrec structural_apply ::
  "structural_op \<Rightarrow> ('d, 'p, 's, 'f) GraphModel \<Rightarrow> ('d, 'p, 's, 'f) GraphModel res" where
  "structural_apply Op_clear g = clear g"
| "structural_apply (Op_add nd) g = add_node nd g"
| "structural_apply (Op_replace nd) g = replace_node nd g"
| "structural_apply (Op_remove i) g = remove_node i g"
| "structural_apply (Op_rewire_image i k from out) g = rewire_image_input i k from out g"
| "structural_apply (Op_rewire_parameter i k from out par) g = rewire_parameter_input i k from out par g"
| "structural_apply (Op_replace_nodes ns) g = replace_nodes ns g"
| "structural_apply Op_rebuild g = rebuild_topology_index g"

text \<open>A C++ map has one entry per key; \<open>replace_nodes\<close> gets its argument as such a map.\<close>

definition op_map_ok :: "structural_op \<Rightarrow> bool" where
  "op_map_ok op = (case op of Op_replace_nodes ns \<Rightarrow> distinct (map fst ns) | _ \<Rightarrow> True)"

definition advanced :: "('d, 'p, 's, 'f) GraphModel \<Rightarrow> ('d, 'p, 's, 'f) GraphModel \<Rightarrow> bool" where
  "advanced g g' \<longleftrightarrow>
     unat (revision g') = Suc (unat (revision g))
     \<and> unat (topology_generation g') = Suc (unat (topology_generation g))
     \<and> full_task_graph_cache g' = Map.empty
     \<and> instance_id g' = instance_id g \<and> compute_snapshot g' = compute_snapshot g"

lemma counter_next_simps [res_simps]:
  "revision_next v = Inr w \<longleftrightarrow> v \<noteq> u64_max \<and> w = v + 1"
  "next_topology_generation v = Inr w \<longleftrightarrow> v \<noteq> u64_max \<and> w = v + 1"
  by (auto simp: revision_next_def next_topology_generation_def)

lemma publish_structural_replacement_Inr:
  assumes "publish_structural_replacement ns ix rt g = Inr g'"
  shows "nodes g' = ns" "topology g' = ix" "advanced g g'"
  using assms
  by (auto simp: publish_structural_replacement_def res_simps advanced_def Let_def
      reset_runtime_state_def clear_full_task_graph_cache_def unat_succ_no_wrap split: if_splits)

lemma publish_candidate_Inr:
  assumes "publish_candidate ns rt g = Inr g'" "distinct (map fst ns)"
  shows "graph_wf g'" "nodes g' = ns" "advanced g g'"
proof -
  from assms(1) have "validate_node_map ns = Inr ()"
    and pub: "publish_structural_replacement ns (build_topology_index ns) rt g = Inr g'"
    by (auto simp: publish_candidate_def res_simps)
  with assms(2) publish_structural_replacement_Inr [OF pub]
  show "graph_wf g'" "nodes g' = ns" "advanced g g'"
    by (simp_all add: graph_wf_def validate_node_map_Inr)
qed

lemma distinct_update_keys [simp]:
  "distinct (map fst ns) \<Longrightarrow> distinct (map fst (AList.update k v ns))"
  by (rule distinct_update)

lemma map_fst_disconnect [simp]: "map fst (map (\<lambda>(k, nd). (k, disconnect i nd)) ns) = map fst ns"
  by (induction ns) auto

lemma distinct_erase_node [simp]:
  "distinct (map fst ns) \<Longrightarrow> distinct (map fst (erase_node i ns))"
  by (induction ns) (auto simp: erase_node_def)

lemma valid_nodes_Nil [simp]: "valid_nodes []"
  by (simp add: valid_nodes_def closed_nodes_def dep_rel_def acyclic_def)

lemma build_topology_index_Nil [simp]:
  "build_topology_index [] = \<lparr>incoming_by_node = Map.empty, outgoing_by_node = Map.empty\<rparr>"
  by (simp add: build_topology_index_def empty_index_def)

lemma structural_apply_Inr:
  assumes "distinct (map fst (nodes g))" "op_map_ok op" "structural_apply op g = Inr g'"
  shows "graph_wf g' \<and> advanced g g'"
proof (cases op)
  case Op_clear
  with assms(3) show ?thesis
    by (auto simp: clear_def res_simps graph_wf_def advanced_def reset_runtime_state_def unat_succ_no_wrap)
next
  case Op_rebuild
  with assms show ?thesis
    by (auto simp: rebuild_topology_index_def res_simps graph_wf_def advanced_def
        clear_full_task_graph_cache_def unat_succ_no_wrap validate_node_map_Inr)
next
  case (Op_add nd)
  with assms show ?thesis
    by (auto simp: add_node_def res_simps split: if_splits intro!: publish_candidate_Inr)
next
  case (Op_remove i)
  with assms show ?thesis
    by (auto simp: remove_node_def simp del: map_map split: if_splits intro!: publish_candidate_Inr)
next
  case (Op_replace_nodes ns)
  with assms show ?thesis
    by (auto simp: replace_nodes_def op_map_ok_def intro!: publish_candidate_Inr)
qed (use assms in \<open>auto simp: replace_node_def rewire_image_input_def rewire_parameter_input_def
  res_simps Let_def split: if_splits intro!: publish_candidate_Inr\<close>)

lemma publish_structural_replacement_plain:
  "publish_structural_replacement ns ix False g =
     (if revision g = u64_max \<or> topology_generation g = u64_max then Inl Overflow_Error
      else Inr (g\<lparr>nodes := ns, topology := ix, full_task_graph_cache := Map.empty,
                  topology_generation := topology_generation g + 1, revision := revision g + 1\<rparr>))"
  by (simp add: publish_structural_replacement_def revision_next_def next_topology_generation_def
      clear_full_task_graph_cache_def Let_def)

subsection \<open>Adding a node\<close>

lemma dep_rel_update:
  assumes "i \<notin> node_keys ns"
  shows "dep_rel (AList.update i nd ns) = dep_rel ns \<union> {(d, i) | d. d \<in> set (node_deps nd) \<and> d \<noteq> - 1}"
  using assms by (auto simp: dep_rel_def update_conv map_of_None_keys [symmetric] split: if_splits)

lemma node_keys_update [simp]: "node_keys (AList.update i nd ns) = insert i (node_keys ns)"
  by (simp add: node_keys_def dom_update)

lemma closed_source_in_keys:
  "closed_nodes ns \<Longrightarrow> (d, i) \<in> dep_rel ns \<Longrightarrow> d \<in> node_keys ns"
  by (auto simp: closed_nodes_def)

text \<open>In a closed graph a node that is not in it reaches only itself.\<close>

lemma absent_reaches_itself:
  assumes "closed_nodes ns" "a \<notin> node_keys ns"
  shows "(a, i) \<in> (dep_rel ns)\<^sup>* \<longleftrightarrow> a = i"
proof
  assume "(a, i) \<in> (dep_rel ns)\<^sup>*"
  then show "a = i"
    by (cases rule: converse_rtranclE) (use assms closed_source_in_keys in blast)+
qed simp

lemma valid_update:
  assumes "valid_nodes ns" "i \<notin> node_keys ns" "i \<notin> set (node_deps nd) \<or> i = - 1"
  shows "acyclic (dep_rel (AList.update i nd ns))"
    and "closed_nodes (AList.update i nd ns) \<longleftrightarrow> (\<forall>d \<in> set (node_deps nd). d = - 1 \<or> d \<in> node_keys ns)"
proof -
  have closed: "closed_nodes ns" and acyc: "acyclic (dep_rel ns)"
    using assms(1) by (simp_all add: valid_nodes_def)
  show "acyclic (dep_rel (AList.update i nd ns))"
    unfolding dep_rel_update [OF assms(2)]
  proof (rule acyclic_extend [OF acyc])
    show "i \<notin> Domain (dep_rel ns)" using closed assms(2) closed_source_in_keys by blast
  qed (use assms(3) in auto)
  show "closed_nodes (AList.update i nd ns) \<longleftrightarrow> (\<forall>d \<in> set (node_deps nd). d = - 1 \<or> d \<in> node_keys ns)"
    using closed assms(3) unfolding closed_nodes_def dep_rel_update [OF assms(2)] by auto
qed

text \<open>The ancestor loop of \<open>add_node\<close>: it throws exactly on a self-dependency.\<close>

lemma add_node_ancestor_loop:
  assumes "closed_nodes (nodes g)" "a \<notin> node_keys (nodes g)"
  shows "res_fold
      (\<lambda>input_id _. if input_id \<noteq> - 1
         then res_bind (is_ancestor (Suc (length (nodes g))) (nodes g) a input_id {})
                (\<lambda>(found, _). if found then Inl (Graph_Error Cycle) else Inr ())
         else Inr ()) ds ()
    = (if a \<in> set ds \<and> a \<noteq> - 1 then Inl (Graph_Error Cycle) else Inr ())"
proof (induction ds)
  case (Cons d ds)
  obtain vis where "is_ancestor (Suc (length (nodes g))) (nodes g) a d {}
      = Inr ((a, d) \<in> (dep_rel (nodes g))\<^sup>*, vis)"
    by (rule is_ancestor_decides)
  then have "is_ancestor (Suc (length (nodes g))) (nodes g) a d {} = Inr (a = d, vis)"
    unfolding absent_reaches_itself [OF assms] .
  with Cons show ?case by auto
qed simp

lemma add_node_cases:
  assumes "graph_wf g"
  shows "add_node nd g =
    (if has_node (node_id nd) g then Inl (Graph_Error InvalidParameter)
     else if node_id nd \<in> set (node_deps nd) \<and> node_id nd \<noteq> - 1 then Inl (Graph_Error Cycle)
     else if \<exists>d \<in> set (node_deps nd). d \<noteq> - 1 \<and> \<not> has_node d g then Inl (Graph_Error MissingDependency)
     else let candidate = AList.update (node_id nd) nd (nodes g)
          in publish_structural_replacement candidate (build_topology_index candidate) False g)"
proof (cases "has_node (node_id nd) g")
  case True
  then show ?thesis by (simp add: add_node_def)
next
  case False
  let ?i = "node_id nd"
  let ?c = "AList.update ?i nd (nodes g)"
  have keys: "has_node d g \<longleftrightarrow> d \<in> node_keys (nodes g)" for d
    by (simp add: has_node_def map_of_None_keys)
  from False have absent: "?i \<notin> node_keys (nodes g)" by (simp add: keys)
  from assms have valid: "valid_nodes (nodes g)" "closed_nodes (nodes g)"
    by (simp_all add: graph_wf_def valid_nodes_def)
  note step = add_node_def add_node_ancestor_loop [OF valid(2) absent] publish_candidate_def
  show ?thesis
  proof (cases "?i \<in> set (node_deps nd) \<and> ?i \<noteq> - 1")
    case True
    with False show ?thesis by (simp add: step)
  next
    case ok: False
    have acyc: "acyclic (dep_rel ?c)"
      and closed: "closed_nodes ?c \<longleftrightarrow> (\<forall>d \<in> set (node_deps nd). d = - 1 \<or> has_node d g)"
      using valid_update [OF valid(1) absent, of nd] ok by (auto simp: keys)
    have "validate_node_map ?c = (if closed_nodes ?c then Inr () else Inl (Graph_Error MissingDependency))"
      by (cases rule: validate_node_map_cases [of ?c]) (use acyc in \<open>auto simp: valid_nodes_def\<close>)
    with False ok closed show ?thesis by (auto simp: step Let_def)
  qed
qed

subsection \<open>Removing a node\<close>

lemma map_of_disconnected:
  "map_of (map (\<lambda>(k, nd). (k, disconnect i nd)) (erase_node i ns)) k
     = (if k = i then None else map_option (disconnect i) (map_of ns k))"
  by (induction ns) (auto simp: erase_node_def)

lemma node_deps_disconnect: "node_deps (disconnect i nd) = map (\<lambda>d. if d = i then - 1 else d) (node_deps nd)"
  by (simp add: node_deps_def disconnect_def)

lemma dep_rel_disconnected:
  "dep_rel (map (\<lambda>(k, nd). (k, disconnect i nd)) (erase_node i ns)) = {(d, k) \<in> dep_rel ns. d \<noteq> i \<and> k \<noteq> i}"
  by (auto simp: dep_rel_def map_of_disconnected node_deps_disconnect split: if_splits)

lemma node_keys_disconnected:
  "node_keys (map (\<lambda>(k, nd). (k, disconnect i nd)) (erase_node i ns)) = node_keys ns - {i}"
  by (force simp: node_keys_def erase_node_def)

lemma valid_disconnected:
  assumes "valid_nodes ns"
  shows "valid_nodes (map (\<lambda>(k, nd). (k, disconnect i nd)) (erase_node i ns))"
proof -
  have "acyclic {(d, k) \<in> dep_rel ns. d \<noteq> i \<and> k \<noteq> i}"
    using assms by (auto simp: valid_nodes_def intro: acyclic_subset)
  with assms show ?thesis
    by (auto simp: valid_nodes_def closed_nodes_def dep_rel_disconnected node_keys_disconnected)
qed

lemma publish_structural_replacement_total:
  assumes "revision g \<noteq> u64_max" "topology_generation g \<noteq> u64_max"
  obtains g' where "publish_structural_replacement ns ix rt g = Inr g'"
  using assms by (auto simp: publish_structural_replacement_def revision_next_def next_topology_generation_def Let_def)

lemma remove_node_succeeds:
  assumes "graph_wf g" "has_node i g" "revision g \<noteq> u64_max" "topology_generation g \<noteq> u64_max"
  obtains g' where "remove_node i g = Inr g'" "graph_wf g'" "advanced g g'"
    "nodes g' = map (\<lambda>(k, nd). (k, disconnect i nd)) (erase_node i (nodes g))"
proof -
  let ?c = "map (\<lambda>(k, nd). (k, disconnect i nd)) (erase_node i (nodes g))"
  have "validate_node_map ?c = Inr ()"
    using assms(1) by (simp add: validate_node_map_Inr valid_disconnected graph_wf_def)
  moreover obtain g' where "publish_structural_replacement ?c (build_topology_index ?c) False g = Inr g'"
    using publish_structural_replacement_total assms(3,4) by blast
  ultimately have g': "publish_candidate ?c False g = Inr g'"
    by (simp add: publish_candidate_def)
  moreover have "distinct (map fst ?c)"
    using assms(1) by (simp add: graph_wf_def del: map_map)
  ultimately show ?thesis
    using publish_candidate_Inr [OF g'] assms(2) by (intro that [of g']) (auto simp: remove_node_def)
qed

subsection \<open>Runtime changes keep the structure\<close>

text \<open>The structural part of a node: what no runtime mutator can reach.\<close>

definition node_shape :: "Node \<Rightarrow> Node" where
  "node_shape nd = write_runtime (runtime_view default_node) nd"

definition shape :: "NodeMap \<Rightarrow> NodeMap" where
  "shape ns = map (\<lambda>(k, nd). (k, node_shape nd)) ns"

lemma node_shape_write_runtime [simp]: "node_shape (write_runtime rs nd) = node_shape nd"
  by (simp add: node_shape_def write_runtime_def)

lemma node_shape_fields [simp]:
  "node_deps (node_shape nd) = node_deps nd" "node_edges k (node_shape nd) = node_edges k nd"
  by (simp_all add: node_shape_def write_runtime_def node_deps_def node_edges_def)

lemma map_of_shape: "map_of (shape ns) k = map_option node_shape (map_of ns k)"
  by (induction ns) (auto simp: shape_def)

lemma map_fst_shape [simp]: "map fst (shape ns) = map fst ns"
  by (induction ns) (auto simp: shape_def)

lemma dep_rel_shape [simp]: "dep_rel (shape ns) = dep_rel ns"
  by (auto simp: dep_rel_def map_of_shape)

lemma node_keys_shape [simp]: "node_keys (shape ns) = node_keys ns"
  by (metis map_fst_shape node_keys_def set_map)

lemma valid_nodes_shape [simp]: "valid_nodes (shape ns) = valid_nodes ns"
  by (simp add: valid_nodes_def closed_nodes_def)

lemma build_topology_index_shape [simp]: "build_topology_index (shape ns) = build_topology_index ns"
proof -
  have "index_edges (shape ns) = index_edges ns"
    by (induction ns) (auto simp: index_edges_def shape_def)
  moreover have "empty_index (shape ns) = empty_index ns"
  proof -
    have "map (\<lambda>(i, _). (i, [] :: GraphTopologyEdge list)) (shape ns) = map (\<lambda>(i, _). (i, [])) ns"
      by (induction ns) (auto simp: shape_def)
    then show ?thesis by (simp add: empty_index_def)
  qed
  ultimately show ?thesis by (simp add: build_topology_index_edges)
qed

lemma shape_update:
  "map_of ns i = Some nd \<Longrightarrow> node_shape nd' = node_shape nd \<Longrightarrow> shape (AList.update i nd' ns) = shape ns"
  by (induction ns) (auto simp: shape_def split: if_splits)

text \<open>A graph is well-formed by its shape and index alone.\<close>

lemma graph_wf_shape:
  assumes "shape (nodes g') = shape (nodes g)" "topology g' = topology g"
  shows "graph_wf g' \<longleftrightarrow> graph_wf g"
  using assms unfolding graph_wf_def
  by (metis build_topology_index_shape map_fst_shape valid_nodes_shape)

inductive runtime_change :: "('d, 'p, 's, 'f) GraphModel \<Rightarrow> ('d, 'p, 's, 'f) GraphModel \<Rightarrow> bool" where
  "mutate_node_runtime_state i mutator g = (g', r) \<Longrightarrow> runtime_change g g'"
| "runtime_change g (record_disk_cache_load_result result g)"
| "runtime_change g (clear_disk_cache_load_result g)"
| "runtime_change g (set_quiet q g)"
| "runtime_change g (set_skip_save_cache v g)"
| "runtime_change g (remember_full_task_graph key graph g)"
| "runtime_change g (clear_full_task_graph_cache g)"

definition same_structure :: "('d, 'p, 's, 'f) GraphModel \<Rightarrow> ('d, 'p, 's, 'f) GraphModel \<Rightarrow> bool" where
  "same_structure g g' \<longleftrightarrow>
     shape (nodes g') = shape (nodes g) \<and> topology g' = topology g
     \<and> topology_generation g' = topology_generation g"

definition same_identity :: "('d, 'p, 's, 'f) GraphModel \<Rightarrow> ('d, 'p, 's, 'f) GraphModel \<Rightarrow> bool" where
  "same_identity g g' \<longleftrightarrow>
     revision g' = revision g \<and> instance_id g' = instance_id g \<and> compute_snapshot g' = compute_snapshot g"

lemma runtime_change_same:
  "runtime_change g g' \<Longrightarrow> same_structure g g' \<and> same_identity g g'"
proof (induction rule: runtime_change.induct)
  case (1 i mutator g g' r)
  then show ?case
    by (auto simp: mutate_node_runtime_state_def require_node_def same_structure_def same_identity_def
        shape_update split: sum.splits option.splits prod.splits)
qed (auto simp: same_structure_def same_identity_def record_disk_cache_load_result_def
    clear_disk_cache_load_result_def set_quiet_def set_skip_save_cache_def remember_full_task_graph_def
    clear_full_task_graph_cache_def split: option.splits)

subsection \<open>The live graph and its staged snapshots\<close>

text \<open>
  The live graph with the snapshots requests have captured from it. The graph-state lane
  serialises the steps on the live graph; a request changes only its own snapshot.
\<close>

record ('d, 'p, 's, 'f) graph_world =
  live_graph :: "('d, 'p, 's, 'f) GraphModel"
  staged_graphs :: "('d, 'p, 's, 'f) GraphModel list"

definition world_init :: "('d, 'p, 's, 'f) graph_world \<Rightarrow> bool" where
  "world_init w \<longleftrightarrow> (\<exists>path minted. w = \<lparr>live_graph = new_graph path minted, staged_graphs = []\<rparr>)"

inductive world_step :: "('d, 'p, 's, 'f) graph_world \<Rightarrow> ('d, 'p, 's, 'f) graph_world \<Rightarrow> bool" where
  structural: "op_map_ok op \<Longrightarrow> structural_apply op (live_graph w) = Inr g \<Longrightarrow> world_step w (w\<lparr>live_graph := g\<rparr>)"
| runtime_live: "runtime_change (live_graph w) g \<Longrightarrow> world_step w (w\<lparr>live_graph := g\<rparr>)"
| revise: "revision_next (revision (live_graph w)) = Inr r \<Longrightarrow>
    world_step w (w\<lparr>live_graph := publish_prepared_revision r (live_graph w)\<rparr>)"
| capture: "world_step w (w\<lparr>staged_graphs := clone_for_compute (live_graph w) # staged_graphs w\<rparr>)"
| compute: "k < length (staged_graphs w) \<Longrightarrow> runtime_change (staged_graphs w ! k) g \<Longrightarrow>
    world_step w (w\<lparr>staged_graphs := (staged_graphs w)[k := g]\<rparr>)"
| commit: "k < length (staged_graphs w) \<Longrightarrow> commit_staged_graph save (live_graph w) (staged_graphs w ! k) = Inr (g, saved) \<Longrightarrow>
    world_step w (w\<lparr>live_graph := g\<rparr>)"

definition staged_ok :: "('d, 'p, 's, 'f) GraphModel \<Rightarrow> ('d, 'p, 's, 'f) GraphModel \<Rightarrow> bool" where
  "staged_ok g s \<longleftrightarrow>
     compute_snapshot s \<and> instance_id s = instance_id g \<and> revision s \<le> revision g
     \<and> (revision s = revision g \<longrightarrow> same_structure s g)"

definition world_inv :: "('d, 'p, 's, 'f) graph_world \<Rightarrow> bool" where
  "world_inv w \<longleftrightarrow>
     graph_wf (live_graph w) \<and> \<not> compute_snapshot (live_graph w) \<and> (\<forall>s \<in> set (staged_graphs w). staged_ok (live_graph w) s)"

lemma same_structure_refl [simp]: "same_structure g g"
  by (simp add: same_structure_def)

lemma same_structure_trans: "same_structure a b \<Longrightarrow> same_structure b c \<Longrightarrow> same_structure a c"
  by (simp add: same_structure_def)

lemma same_structure_sym: "same_structure a b \<Longrightarrow> same_structure b a"
  by (simp add: same_structure_def)

lemma staged_ok_unchanged:
  "staged_ok g s \<Longrightarrow> same_structure g g' \<Longrightarrow> same_identity g g' \<Longrightarrow> staged_ok g' s"
  by (auto simp: staged_ok_def same_identity_def intro: same_structure_trans)

lemma staged_ok_outdated:
  assumes "staged_ok g s" "unat (revision g') = Suc (unat (revision g))" "instance_id g' = instance_id g"
  shows "staged_ok g' s"
  using assms by (auto simp: staged_ok_def word_le_nat_alt)

lemma graph_node_same_structure:
  assumes "same_structure a b" "i \<in> set (node_ids a)"
  shows "\<exists>nd. graph_node i b = Inr nd"
proof -
  from assms have "i \<in> node_keys (nodes b)"
    by (metis map_fst_shape node_ids_def node_keys_def same_structure_def set_map set_sort)
  then show ?thesis
    using map_of_None_keys [of "nodes b" i] by (auto simp: graph_node_def require_node_def)
qed

lemma persist_changed_hp_nodes_total:
  assumes "same_structure p g"
  shows "\<exists>saved. persist_changed_hp_nodes g p = Inr saved"
proof -
  let ?f = "\<lambda>i saved. res_bind (graph_node i p) (\<lambda>staged_node.
      res_bind (graph_node i g) (\<lambda>live_node.
        if hp_version staged_node = hp_version live_node
           \<or> cached_output_high_precision staged_node = None
        then Inr saved else Inr (saved @ [i])))"
  have "\<exists>saved. res_fold ?f is acc = Inr saved" if "set is \<subseteq> set (node_ids p)" for "is" acc
    using that
  proof (induction "is" arbitrary: acc)
    case (Cons i "is")
    obtain nd nd' where "graph_node i p = Inr nd" "graph_node i g = Inr nd'"
      using graph_node_same_structure [OF same_structure_refl [of p], of i]
        graph_node_same_structure [OF assms, of i] Cons.prems by auto
    with Cons show ?case by simp
  qed simp
  then show ?thesis by (simp add: persist_changed_hp_nodes_def)
qed

text \<open>
  A commit of a current snapshot always succeeds and installs its nodes; one of an
  outdated snapshot is always rejected.
\<close>

lemma commit_staged_graph_cases:
  assumes "\<not> compute_snapshot g" "staged_ok g s"
  shows "if revision s = revision g
         then \<exists>g' saved. commit_staged_graph save g s = Inr (g', saved) \<and> nodes g' = nodes s
                \<and> same_structure g g' \<and> same_identity g g'
         else commit_staged_graph save g s = Inl (Graph_Error ComputeError)"
proof (cases "revision s = revision g")
  case False
  then show ?thesis by (simp add: commit_staged_graph_def validate_live_graph_def Let_def)
next
  case True
  with assms(2) have same: "same_structure s g" "instance_id s = instance_id g"
    by (simp_all add: staged_ok_def)
  let ?p = "set_skip_save_cache False (clone_for_compute s)"
  have "same_structure ?p g"
    using same(1) by (simp add: same_structure_def set_skip_save_cache_def clone_for_compute_def)
  then obtain saved where saved: "persist_changed_hp_nodes g ?p = Inr saved"
    using persist_changed_hp_nodes_total by blast
  have pub: "nodes (fst (publish_compute_snapshot g p)) = nodes s
      \<and> same_structure g (fst (publish_compute_snapshot g p))
      \<and> same_identity g (fst (publish_compute_snapshot g p))"
    if "nodes p = nodes s" "topology p = topology s" for p
    using that same(1)
    by (simp add: publish_compute_snapshot_def receive_payload_def same_structure_def same_identity_def)
  have fields: "nodes ?p = nodes s" "topology ?p = topology s"
    "nodes (clone_for_compute s) = nodes s" "topology (clone_for_compute s) = topology s"
    by (simp_all add: set_skip_save_cache_def clone_for_compute_def)
  have "validate_live_graph g (instance_id s) (revision s) = Inr ()"
    using True same(2) assms(1) by (simp add: validate_live_graph_def)
  then show ?thesis
    using True saved pub fields by (simp add: commit_staged_graph_def Let_def)
qed

lemma world_inv_step: "world_inv w \<Longrightarrow> world_step w w' \<Longrightarrow> world_inv w'"
proof -
  assume inv: "world_inv w"
  assume "world_step w w'"
  then show "world_inv w'"
  proof cases
    case (structural op g)
    then have "graph_wf g" "advanced (live_graph w) g"
      using structural_apply_Inr inv by (auto simp: world_inv_def graph_wf_def)
    with inv structural show ?thesis
      by (auto simp: world_inv_def advanced_def intro: staged_ok_outdated)
  next
    case (runtime_live g)
    then have same: "same_structure (live_graph w) g" "same_identity (live_graph w) g"
      using runtime_change_same by blast+
    then have "graph_wf g" using inv graph_wf_shape [of g "live_graph w"]
      by (simp add: world_inv_def same_structure_def)
    with inv same runtime_live show ?thesis
      by (auto simp: world_inv_def same_identity_def intro: staged_ok_unchanged)
  next
    case (revise r)
    then have "unat r = Suc (unat (revision (live_graph w)))"
      by (auto simp: res_simps unat_succ_no_wrap)
    with inv revise show ?thesis
      by (auto simp: world_inv_def publish_prepared_revision_def graph_wf_def intro: staged_ok_outdated)
  next
    case capture
    with inv show ?thesis
      by (auto simp: world_inv_def staged_ok_def clone_for_compute_def same_structure_def)
  next
    case (compute k g)
    then have same: "same_structure (staged_graphs w ! k) g" "same_identity (staged_graphs w ! k) g"
      using runtime_change_same by blast+
    have "staged_ok (live_graph w) (staged_graphs w ! k)"
      using inv compute by (simp add: world_inv_def)
    with same have "staged_ok (live_graph w) g"
      by (auto simp: staged_ok_def same_identity_def intro: same_structure_trans same_structure_sym)
    with inv compute show ?thesis
      by (auto simp: world_inv_def dest: set_update_subset_insert [THEN subsetD])
  next
    case (commit k save g saved)
    have "staged_ok (live_graph w) (staged_graphs w ! k)" "\<not> compute_snapshot (live_graph w)"
      using inv commit by (simp_all add: world_inv_def)
    with commit commit_staged_graph_cases [of "live_graph w" "staged_graphs w ! k" save]
    have same: "same_structure (live_graph w) g" "same_identity (live_graph w) g"
      by (auto split: if_splits)
    then have "graph_wf g" using inv graph_wf_shape [of g "live_graph w"]
      by (simp add: world_inv_def same_structure_def)
    with inv same commit show ?thesis
      by (auto simp: world_inv_def same_identity_def intro: staged_ok_unchanged)
  qed
qed

interpretation world: inv_system world_init world_step world_inv
proof
  show "world_init w \<Longrightarrow> world_inv w" for w :: "('a, 'b, 'c, 'd) graph_world"
    by (auto simp: world_init_def world_inv_def new_graph_def graph_wf_def)
qed (rule world_inv_step)

section \<open>Effective parameters\<close>

text \<open>The value a parameter input reads, and the value a parameter gets from a list of inputs.\<close>

definition connected_parameter :: "ParameterInput \<Rightarrow> bool" where
  "connected_parameter input \<longleftrightarrow> 0 \<le> par_from_node_id input"

definition parameter_feed :: "('d, 'p, 's, 'f) GraphModel \<Rightarrow> ParameterInput \<Rightarrow> ParameterValue option" where
  "parameter_feed g input =
     Option.bind (map_of (nodes g) (par_from_node_id input)) (\<lambda>up.
       Option.bind (cached_output_high_precision up) (\<lambda>result. out_data result (par_from_output_name input)))"

definition effective_value ::
  "('d, 'p, 's, 'f) GraphModel \<Rightarrow> string \<Rightarrow> ParameterMap \<Rightarrow> ParameterInput list \<Rightarrow> ParameterValue option" where
  "effective_value g name static inputs =
     (let fs = filter (\<lambda>input. connected_parameter input \<and> par_to_parameter_name input = name) inputs
      in if fs = [] then static name else parameter_feed g (last fs))"

lemma effective_step_feed:
  "effective_step g input effective =
     (if connected_parameter input
      then case parameter_feed g input of
             None \<Rightarrow> Inl (Graph_Error MissingDependency)
           | Some v \<Rightarrow> Inr (effective(par_to_parameter_name input \<mapsto> v))
      else Inr effective)"
  by (auto simp: effective_step_def connected_parameter_def parameter_feed_def split: option.splits)

lemma effective_fold:
  "if \<forall>input \<in> set inputs. connected_parameter input \<longrightarrow> parameter_feed g input \<noteq> None
   then \<exists>m. res_fold (effective_step g) inputs static = Inr m
          \<and> (\<forall>name. m name = effective_value g name static inputs)
   else res_fold (effective_step g) inputs static = Inl (Graph_Error MissingDependency)"
proof (induction inputs arbitrary: static)
  case Nil
  then show ?case by (simp add: effective_value_def)
next
  case (Cons input inputs)
  show ?case
  proof (cases "connected_parameter input")
    case False
    then have "effective_step g input static = Inr static"
      "effective_value g name static (input # inputs) = effective_value g name static inputs" for name
      by (simp_all add: effective_step_feed effective_value_def)
    with Cons [of static] False show ?thesis by simp
  next
    case conn: True
    show ?thesis
    proof (cases "parameter_feed g input")
      case None
      with conn have "effective_step g input static = Inl (Graph_Error MissingDependency)"
        by (simp add: effective_step_feed)
      with conn None show ?thesis by simp
    next
      case (Some v)
      define s where "s = static(par_to_parameter_name input \<mapsto> v)"
      have eff: "effective_value g name s inputs = effective_value g name static (input # inputs)" for name
        using conn Some by (auto simp: effective_value_def Let_def s_def)
      have "effective_step g input static = Inr s"
        using conn Some by (simp add: effective_step_feed s_def)
      with Cons [of s] conn Some show ?thesis unfolding eff by (auto split: if_splits)
    qed
  qed
qed

section \<open>Properties\<close>

type_synonym demo_graph = "(unit, unit, unit, unit) GraphModel"

definition demo_graph :: demo_graph where
  "demo_graph = new_graph ''cache'' 1"

lemmas demo_graph_defs = demo_graph_def new_graph_def revision_initial_def no_timing_def

lemma demo_graph_wf: "graph_wf demo_graph"
  by (simp add: demo_graph_defs graph_wf_def)

text \<open>
  C1. Every structural operation (clear, add, replace, remove, rewire, bulk replace, index
  rebuild) that returns leaves a well-formed graph: one entry per id, every connected input
  present, no cycle, and an index that is the index of its nodes. It advances the revision
  and the topology generation by exactly one each, without wrapping, and drops every cached
  task graph of the old topology.
\<close>

theorem structural_ops_keep_wf:
  assumes "graph_wf g" "op_map_ok op" "structural_apply op g = Inr g'"
  shows "graph_wf g' \<and> unat (revision g') = Suc (unat (revision g))
    \<and> unat (topology_generation g') = Suc (unat (topology_generation g))
    \<and> full_task_graph_cache g' = Map.empty"
  using structural_apply_Inr [of g op g'] assms by (auto simp: graph_wf_def advanced_def)

theorem structural_ops_keep_wf_witness:
  "\<exists>g'. structural_apply (Op_add demo_source) demo_graph = Inr g' \<and> graph_wf g' \<and> unat (revision g') = 2"
proof -
  obtain g' where g': "structural_apply (Op_add demo_source) demo_graph = Inr g'"
    using add_node_cases [OF demo_graph_wf, of demo_source]
    by (simp add: demo_graph_defs demo_defs has_node_def node_deps_def
        publish_structural_replacement_def revision_next_def next_topology_generation_def u64_max_def Let_def)
  with structural_ops_keep_wf [OF demo_graph_wf _ g'] show ?thesis
    by (simp add: op_map_ok_def demo_graph_defs)
qed

text \<open>
  Adding a node to a well-formed graph, on every branch: an existing id is an invalid
  parameter; a node that names itself as an input is a cycle; a node with an input that is
  not in the graph is a missing dependency; every other node is published (or the counters
  are exhausted). In particular the ancestor search rejects nothing but self-dependencies.
\<close>

theorem add_node_exact:
  assumes "graph_wf g"
  shows "add_node nd g =
    (if has_node (node_id nd) g then Inl (Graph_Error InvalidParameter)
     else if node_id nd \<in> set (node_deps nd) \<and> node_id nd \<noteq> - 1 then Inl (Graph_Error Cycle)
     else if \<exists>d \<in> set (node_deps nd). d \<noteq> - 1 \<and> \<not> has_node d g then Inl (Graph_Error MissingDependency)
     else if revision g = u64_max \<or> topology_generation g = u64_max then Inl Overflow_Error
     else let candidate = AList.update (node_id nd) nd (nodes g)
          in Inr (g\<lparr>nodes := candidate, topology := build_topology_index candidate,
                    full_task_graph_cache := Map.empty,
                    topology_generation := topology_generation g + 1, revision := revision g + 1\<rparr>))"
  unfolding add_node_cases [OF assms] publish_structural_replacement_plain Let_def by (rule refl)

theorem add_node_exact_witness:
  "graph_wf demo_graph \<and> add_node demo_sink demo_graph = Inl (Graph_Error MissingDependency)"
  using add_node_exact [OF demo_graph_wf, of demo_sink] demo_graph_wf
  by (simp add: demo_graph_defs demo_defs has_node_def node_deps_def)

text \<open>
  Removing a present node from a well-formed graph whose counters are not exhausted
  always succeeds: the node is gone, every other node stays with exactly the inputs that
  named it disconnected, and the graph is well-formed again.
\<close>

theorem remove_node_exact:
  assumes "graph_wf g" "has_node i g" "revision g \<noteq> u64_max" "topology_generation g \<noteq> u64_max"
  shows "\<exists>g'. remove_node i g = Inr g' \<and> graph_wf g'
    \<and> (\<forall>k. map_of (nodes g') k = (if k = i then None else map_option (disconnect i) (map_of (nodes g) k)))"
  using remove_node_succeeds [OF assms] map_of_disconnected [of i "nodes g"] by metis

theorem remove_node_exact_witness:
  "\<exists>g g' :: demo_graph. add_node demo_source demo_graph = Inr g \<and> remove_node 1 g = Inr g'
     \<and> map_of (nodes g') 1 = None"
proof -
  obtain g where g: "add_node demo_source demo_graph = Inr g" "nodes g = [(1, demo_source)]"
    "revision g = 2" "topology_generation g = 1"
    using add_node_cases [OF demo_graph_wf, of demo_source]
    by (simp add: demo_graph_defs demo_defs has_node_def node_deps_def clear_full_task_graph_cache_def
        publish_structural_replacement_def revision_next_def next_topology_generation_def u64_max_def Let_def)
  then have "graph_wf g"
    using structural_apply_Inr [of demo_graph "Op_add demo_source" g] by (simp add: op_map_ok_def demo_graph_defs)
  with g remove_node_exact [of g 1] show ?thesis
    by (auto simp: has_node_def u64_max_def)
qed

text \<open>
  The index of a well-formed graph is exact: the upstream edges of a node are its
  connected inputs in order (image inputs, then parameter inputs), and an edge is a
  downstream edge of its source exactly when it is an upstream edge of its target.
\<close>

theorem topology_index_exact:
  assumes "graph_wf g"
  shows "upstream_edges g k = (case map_of (nodes g) k of None \<Rightarrow> [] | Some nd \<Rightarrow> node_edges k nd)
    \<and> (e \<in> set (downstream_edges g (from_node_id e)) \<longleftrightarrow> e \<in> set (upstream_edges g (to_node_id e)))"
proof -
  let ?ix = "build_topology_index (nodes g)"
  from assms have d: "distinct (map fst (nodes g))" and ix: "topology g = ?ix"
    by (simp_all add: graph_wf_def)
  have up: "upstream_edges g j = edges_at (incoming_by_node ?ix) j" for j
    by (simp add: upstream_edges_def edges_at_def ix)
  have down: "downstream_edges g j = edges_at (outgoing_by_node ?ix) j" for j
    by (simp add: downstream_edges_def edges_at_def ix)
  show ?thesis
    using upstream_index [OF d, of k] index_edges_to [OF d, of "to_node_id e"]
    by (simp add: up down downstream_index upstream_index [OF d, of "to_node_id e"] flip: index_edges_to [OF d])
qed

theorem topology_index_exact_witness: "graph_wf demo_graph \<and> upstream_edges demo_graph 1 = []"
  using topology_index_exact [OF demo_graph_wf, of 1] demo_graph_wf by (simp add: demo_graph_defs)



text \<open>
  Effective parameters: resolution succeeds exactly when every connected parameter input
  finds its upstream node, that node's cached output and the named value in it, and fails as
  a missing dependency otherwise. On success a parameter fed by connected inputs has the
  value of the last of them, and every other parameter its static value.
\<close>

theorem effective_parameters_exact:
  "if \<forall>input \<in> set (parameter_inputs nd). connected_parameter input \<longrightarrow> parameter_feed g input \<noteq> None
   then \<exists>m. resolve_effective_parameter_snapshot nd g = Inr m
          \<and> (\<forall>name. m name = effective_value g name (parameters nd) (parameter_inputs nd))
   else resolve_effective_parameter_snapshot nd g = Inl (Graph_Error MissingDependency)"
  using effective_fold [of "parameter_inputs nd" g "parameters nd"]
  by (simp add: resolve_effective_parameter_snapshot_def)

theorem effective_parameters_exact_witness:
  "resolve_effective_parameter_snapshot
     (default_node\<lparr>parameter_inputs := [\<lparr>par_from_node_id = 1, par_from_output_name = ''x'', par_to_parameter_name = ''y''\<rparr>]\<rparr>)
     demo_graph = Inl (Graph_Error MissingDependency)"
  using effective_parameters_exact [of "default_node\<lparr>parameter_inputs := [\<lparr>par_from_node_id = 1,
     par_from_output_name = ''x'', par_to_parameter_name = ''y''\<rparr>]\<rparr>" demo_graph]
  by (simp add: default_node_def demo_graph_defs connected_parameter_def parameter_feed_def)

end
