(* ===== verification/GraphTraversal.thy ===== *)
theory GraphTraversal
  imports GraphMutation
begin

text \<open>
  Read-only graph services: \<open>GraphTraversalService\<close>
  (\<open>src/lib/graph/graph_traversal_service.cpp\<close>) and \<open>GraphExtentResolver\<close>
  (\<open>graph_extent_resolver.cpp\<close>). They walk the topology index; the recursions carry a depth
  bound of one more than the number of nodes, which is shown to be enough on every
  well-formed graph.
\<close>

section \<open>Traversal service\<close>

primrec topo_postorder_util ::
  "nat \<Rightarrow> ('d, 'p, 's, 'f) GraphModel \<Rightarrow> int \<Rightarrow> post_state \<Rightarrow> post_state res" where
  "topo_postorder_util 0 g i st = Inl Fuel_Exhausted"
| "topo_postorder_util (Suc fuel) g i st =
     res_bind
       (res_fold
         (\<lambda>edge st'.
            if from_node_id edge < 0 \<or> \<not> has_node (from_node_id edge) g then Inr st'
            else if from_node_id edge \<notin> post_visited st'
              then topo_postorder_util fuel g (from_node_id edge) st'
            else if from_node_id edge \<in> post_stack st' then Inl (Graph_Error Cycle)
            else Inr st')
         (upstream_edges g i)
         (st\<lparr>post_visited := insert i (post_visited st), post_stack := insert i (post_stack st)\<rparr>))
       (\<lambda>st'. Inr (st'\<lparr>post_order := post_order st' @ [i], post_stack := post_stack st' - {i}\<rparr>))"

definition topo_postorder_from :: "('d, 'p, 's, 'f) GraphModel \<Rightarrow> int \<Rightarrow> int list res" where
  "topo_postorder_from g end_node_id =
     (if \<not> has_node end_node_id g then Inl (Graph_Error NotFound)
      else res_bind (topo_postorder_util (Suc (length (nodes g))) g end_node_id post_start)
             (\<lambda>st. Inr (post_order st)))"

definition ending_nodes :: "('d, 'p, 's, 'f) GraphModel \<Rightarrow> int list" where
  "ending_nodes g = filter (\<lambda>i. downstream_edges g i = []) (node_ids g)"

primrec traversal_is_ancestor ::
  "nat \<Rightarrow> ('d, 'p, 's, 'f) GraphModel \<Rightarrow> int \<Rightarrow> int \<Rightarrow> int set \<Rightarrow> (bool \<times> int set) res" where
  "traversal_is_ancestor 0 g a i vis = Inl Fuel_Exhausted"
| "traversal_is_ancestor (Suc fuel) g a i vis =
     (if a = i then Inr (True, vis)
      else if i \<in> vis then Inr (False, vis)
      else if \<not> has_node i g then Inr (False, insert i vis)
      else search_any
             (\<lambda>d vis'. if 0 \<le> d then traversal_is_ancestor fuel g a d vis' else Inr (False, vis'))
             (map from_node_id (upstream_edges g i)) (insert i vis))"

definition unique_sorted_node_ids :: "int list \<Rightarrow> int list" where
  "unique_sorted_node_ids ids = remdups_adj (sort ids)"

definition dependencies_of :: "('d, 'p, 's, 'f) GraphModel \<Rightarrow> int \<Rightarrow> int list res" where
  "dependencies_of g i =
     (if \<not> has_node i g then Inl (Graph_Error NotFound)
      else Inr (unique_sorted_node_ids
        (filter (\<lambda>d. 0 \<le> d \<and> has_node d g) (map from_node_id (upstream_edges g i)))))"

definition dependents_of :: "('d, 'p, 's, 'f) GraphModel \<Rightarrow> int \<Rightarrow> int list res" where
  "dependents_of g i =
     (if \<not> has_node i g then Inl (Graph_Error NotFound)
      else Inr (unique_sorted_node_ids
        (filter (\<lambda>k. 0 \<le> k \<and> has_node k g) (map to_node_id (downstream_edges g i)))))"

text \<open>A graph error of one traversal skips that end node; nothing else is caught.\<close>

definition get_trees_containing_node :: "('d, 'p, 's, 'f) GraphModel \<Rightarrow> int \<Rightarrow> int list res" where
  "get_trees_containing_node g i =
     res_fold
       (\<lambda>end_node trees.
          case topo_postorder_from g end_node of
            Inr order \<Rightarrow> Inr (if i \<in> set order then trees @ [end_node] else trees)
          | Inl (Graph_Error _) \<Rightarrow> Inr trees
          | Inl e \<Rightarrow> Inl e)
       (ending_nodes g) []"

section \<open>Extent resolution\<close>

definition own_extent :: "Node \<Rightarrow> PixelSize option" where
  "own_extent nd =
     (let width = as_int_flexible (runtime_parameters nd) ''width''
                    (as_int_flexible (parameters nd) ''width'' 0);
          height = as_int_flexible (runtime_parameters nd) ''height''
                    (as_int_flexible (parameters nd) ''height'' 0);
          by_parameters = (if 0 < width \<and> 0 < height
                           then Some \<lparr>size_width = width, size_height = height\<rparr> else None)
      in case cached_output_high_precision nd of
           None \<Rightarrow> by_parameters
         | Some buf \<Rightarrow>
             (if 0 < out_width buf \<and> 0 < out_height buf
              then Some \<lparr>size_width = out_width buf, size_height = out_height buf\<rparr>
              else by_parameters))"

fun first_positive ::
  "(int \<Rightarrow> (int \<rightharpoonup> PixelSize) \<Rightarrow> (PixelSize \<times> (int \<rightharpoonup> PixelSize)) res) \<Rightarrow> GraphTopologyEdge list
   \<Rightarrow> (int \<rightharpoonup> PixelSize) \<Rightarrow> (PixelSize \<times> (int \<rightharpoonup> PixelSize)) res" where
  "first_positive f [] cache = Inr (empty_size, cache)"
| "first_positive f (edge # edges) cache =
     (if edge_kind edge \<noteq> ImageInputEdge \<or> from_node_id edge < 0 then first_positive f edges cache
      else res_bind (f (from_node_id edge) cache) (\<lambda>(parent_size, cache').
        if 0 < size_width parent_size \<and> 0 < size_height parent_size then Inr (parent_size, cache')
        else first_positive f edges cache'))"

primrec resolve_output_extent ::
  "nat \<Rightarrow> ('d, 'p, 's, 'f) GraphModel \<Rightarrow> int \<Rightarrow> (int \<rightharpoonup> PixelSize)
   \<Rightarrow> (PixelSize \<times> (int \<rightharpoonup> PixelSize)) res" where
  "resolve_output_extent 0 g i cache = Inl Fuel_Exhausted"
| "resolve_output_extent (Suc fuel) g i cache =
     (case cache i of
        Some extent \<Rightarrow> Inr (extent, cache)
      | None \<Rightarrow>
          res_bind (graph_node i g) (\<lambda>nd.
            case own_extent nd of
              Some extent \<Rightarrow> Inr (extent, cache(i \<mapsto> extent))
            | None \<Rightarrow>
                res_bind (first_positive (resolve_output_extent fuel g) (upstream_edges g i) cache)
                  (\<lambda>(extent, cache'). Inr (extent, cache'(i \<mapsto> extent)))))"

section \<open>Edges of a well-formed graph\<close>

text \<open>
  The relation the services walk: connected inputs with a non-negative source. The index
  leaves out the others.
\<close>

definition edge_rel :: "('d, 'p, 's, 'f) GraphModel \<Rightarrow> (int \<times> int) set" where
  "edge_rel g = {(d, i) \<in> dep_rel (nodes g). 0 \<le> d}"

definition topo_succs :: "('d, 'p, 's, 'f) GraphModel \<Rightarrow> int \<Rightarrow> int list" where
  "topo_succs g i = filter (\<lambda>d. 0 \<le> d \<and> has_node d g) (map from_node_id (upstream_edges g i))"

lemma has_node_keys: "has_node i g \<longleftrightarrow> i \<in> node_keys (nodes g)"
  by (simp add: has_node_def map_of_None_keys)

lemma upstream_edges_wf:
  assumes "graph_wf g"
  shows "upstream_edges g i = (case map_of (nodes g) i of None \<Rightarrow> [] | Some nd \<Rightarrow> node_edges i nd)"
  using upstream_index [of "nodes g" i] assms
  by (simp add: graph_wf_def upstream_edges_def edges_at_def)

lemma edge_rel_upstream:
  assumes "graph_wf g"
  shows "(d, i) \<in> edge_rel g \<longleftrightarrow> d \<in> set (map from_node_id (upstream_edges g i))"
  by (cases "map_of (nodes g) i")
    (auto simp: edge_rel_def dep_rel_def upstream_edges_wf [OF assms] node_edges_from simp del: set_map)

lemma downstream_edges_wf:
  assumes "graph_wf g"
  shows "downstream_edges g i = filter (\<lambda>e. from_node_id e = i) (index_edges (nodes g))"
  using assms downstream_index [of "nodes g" i] by (simp add: graph_wf_def downstream_edges_def edges_at_def)

lemma index_edges_upstream:
  assumes "graph_wf g"
  shows "e \<in> set (index_edges (nodes g)) \<longleftrightarrow> e \<in> set (upstream_edges g (to_node_id e))"
  using index_edges_to [of "nodes g" "to_node_id e"] assms
  by (auto simp: upstream_edges_wf graph_wf_def simp flip: index_edges_to)

lemma upstream_edges_target: "graph_wf g \<Longrightarrow> e \<in> set (upstream_edges g i) \<Longrightarrow> to_node_id e = i"
  by (auto simp: upstream_edges_wf dest: node_edges_to split: option.splits)

lemma edge_rel_downstream:
  assumes "graph_wf g"
  shows "(i, k) \<in> edge_rel g \<longleftrightarrow> k \<in> set (map to_node_id (downstream_edges g i))"
proof -
  have "(i, k) \<in> edge_rel g \<longleftrightarrow> (\<exists>e \<in> set (upstream_edges g k). from_node_id e = i)"
    unfolding edge_rel_upstream [OF assms] by auto
  also have "\<dots> \<longleftrightarrow> (\<exists>e \<in> set (downstream_edges g i). to_node_id e = k)"
    using index_edges_upstream [OF assms] upstream_edges_target [OF assms]
    by (auto simp: downstream_edges_wf [OF assms])
  finally show ?thesis by auto
qed

lemma edge_rel_has_node:
  assumes "graph_wf g" "(d, i) \<in> edge_rel g"
  shows "has_node d g" "has_node i g" "0 \<le> d"
  using assms closed_source_in_keys [of "nodes g" d i] dep_rel_keys [of d i "nodes g"]
  by (auto simp: has_node_keys edge_rel_def graph_wf_def valid_nodes_def)

lemma succ_rel_topo_succs: "graph_wf g \<Longrightarrow> succ_rel (topo_succs g) = edge_rel g"
  using edge_rel_upstream [of g] edge_rel_has_node [of g] by (fastforce simp: succ_rel_def topo_succs_def)

lemma acyclic_edge_rel: "graph_wf g \<Longrightarrow> acyclic (edge_rel g)"
  by (rule acyclic_subset [of "dep_rel (nodes g)"]) (auto simp: graph_wf_def valid_nodes_def edge_rel_def)

text \<open>The services search a finite graph.\<close>

definition present_succs :: "('d, 'p, 's, 'f) GraphModel \<Rightarrow> int \<Rightarrow> int list" where
  "present_succs g i = (if has_node i g then topo_succs g i else [])"

interpretation service_graph: finite_graph "present_succs g" "node_keys (nodes g)" for g
  by unfold_locales (auto simp: present_succs_def has_node_keys)

lemma present_succs_wf: "graph_wf g \<Longrightarrow> present_succs g = topo_succs g"
  by (rule ext) (auto simp: present_succs_def topo_succs_def upstream_edges_wf has_node_def)

lemma card_keys_bound: "card (node_keys (nodes g)) < Suc (length (nodes g))"
  using card_node_keys [of "nodes g"] by simp

section \<open>The traversals are the generic searches\<close>

lemma topo_postorder_util_post_visit:
  "topo_postorder_util fuel g i st = post_visit fuel (topo_succs g) i st"
proof (induction fuel arbitrary: i st)
  case (Suc fuel)
  let ?f = "\<lambda>d st'. if d \<notin> post_visited st' then post_visit fuel (topo_succs g) d st'
    else if d \<in> post_stack st' then Inl (Graph_Error Cycle) else Inr st'"
  have body: "(\<lambda>edge st'. if from_node_id edge < 0 \<or> \<not> has_node (from_node_id edge) g then Inr st'
      else if from_node_id edge \<notin> post_visited st' then topo_postorder_util fuel g (from_node_id edge) st'
      else if from_node_id edge \<in> post_stack st' then Inl (Graph_Error Cycle) else Inr st')
    = (\<lambda>edge. (\<lambda>d st'. if 0 \<le> d \<and> has_node d g then ?f d st' else Inr st') (from_node_id edge))"
    using Suc by (intro ext) auto
  have succs: "topo_succs g i = filter (\<lambda>d. 0 \<le> d \<and> has_node d g) (map from_node_id (upstream_edges g i))"
    by (simp add: topo_succs_def)
  show ?case
    unfolding topo_postorder_util.simps post_visit.simps body succs
    by (simp only: filter_map res_fold_map res_fold_skip o_def)
qed simp

lemma traversal_is_ancestor_reach_search:
  assumes "graph_wf g"
  shows "traversal_is_ancestor fuel g a i vis = reach_search fuel (topo_succs g) a i vis"
proof (induction fuel arbitrary: i vis)
  case (Suc fuel)
  then have IH: "traversal_is_ancestor fuel g a = reach_search fuel (topo_succs g) a" by (intro ext)
  have "topo_succs g i = filter (\<lambda>d. 0 \<le> d) (map from_node_id (upstream_edges g i))"
    unfolding topo_succs_def
    using edge_rel_has_node(1) [OF assms] edge_rel_upstream [OF assms] by (intro filter_cong) auto
  moreover have "\<not> has_node i g \<Longrightarrow> topo_succs g i = []"
    using present_succs_wf [OF assms] by (metis present_succs_def)
  ultimately show ?case by (simp add: IH search_any_skip)
qed simp

lemma topo_postorder_from_wf:
  assumes "graph_wf g" "has_node i g"
  obtains order where "topo_postorder_from g i = Inr order" "distinct order"
    "set order = {a. (a, i) \<in> (edge_rel g)\<^sup>*}" "deps_before (topo_succs g) order"
proof -
  note same = present_succs_wf [OF assms(1)] succ_rel_topo_succs [OF assms(1)]
  obtain st where "post_visit (Suc (length (nodes g))) (topo_succs g) i post_start = Inr st"
    "distinct (post_order st)" "set (post_order st) = {a. (a, i) \<in> (edge_rel g)\<^sup>*}"
    "deps_before (topo_succs g) (post_order st)"
    using service_graph.post_visit_order [of g "Suc (length (nodes g))" i]
      acyclic_edge_rel [OF assms(1)] card_keys_bound [of g] unfolding same by metis
  then show ?thesis
    using assms(2) by (intro that [of "post_order st"])
      (simp_all add: topo_postorder_from_def topo_postorder_util_post_visit)
qed

text \<open>Every node of a finite acyclic relation reaches an end point.\<close>

lemma reaches_end:
  assumes "finite r" "acyclic r"
  obtains e where "(a, e) \<in> r\<^sup>*" "e \<notin> Domain r"
proof -
  have "wf (r\<inverse>)" using assms by (rule finite_acyclic_wf_converse)
  then have "\<exists>e. (a, e) \<in> r\<^sup>* \<and> e \<notin> Domain r"
  proof (induction a rule: wf_induct_rule)
    case (less a)
    show ?case
    proof (cases "a \<in> Domain r")
      case True
      then obtain b where "(a, b) \<in> r" by blast
      with less [of b] show ?thesis by (auto intro: converse_rtrancl_into_rtrancl)
    qed auto
  qed
  with that show ?thesis by blast
qed

lemma finite_dep_rel [simp]: "finite (dep_rel ns)"
proof (rule finite_subset)
  show "dep_rel ns \<subseteq> (\<Union>(i, nd) \<in> set ns. set (node_deps nd)) \<times> node_keys ns"
  proof (rule subrelI, intro SigmaI)
    fix d i assume R: "(d, i) \<in> dep_rel ns"
    then show "i \<in> node_keys ns" by (rule dep_rel_keys)
    from R obtain nd where "(i, nd) \<in> set ns" "d \<in> set (node_deps nd)"
      by (auto simp: dep_rel_def dest: map_of_SomeD)
    then show "d \<in> (\<Union>(i, nd) \<in> set ns. set (node_deps nd))" by blast
  qed
qed auto

lemma finite_edge_rel [simp]: "finite (edge_rel g)"
  by (rule finite_subset [of _ "dep_rel (nodes g)"]) (auto simp: edge_rel_def)

lemma set_ending_nodes:
  assumes "graph_wf g"
  shows "set (ending_nodes g) = {i. has_node i g \<and> i \<notin> Domain (edge_rel g)}"
proof -
  have "downstream_edges g i = [] \<longleftrightarrow> i \<notin> Domain (edge_rel g)" for i
    using edge_rel_downstream [OF assms, of i] by (cases "downstream_edges g i") auto
  then show ?thesis by (auto simp: ending_nodes_def node_ids_def has_node_keys node_keys_def)
qed

lemma get_trees_containing_node_wf:
  assumes "graph_wf g"
  shows "get_trees_containing_node g i = Inr (filter (\<lambda>e. (i, e) \<in> (edge_rel g)\<^sup>*) (ending_nodes g))"
proof -
  let ?f = "\<lambda>end_node trees. case topo_postorder_from g end_node of
      Inr order \<Rightarrow> Inr (if i \<in> set order then trees @ [end_node] else trees)
    | Inl (Graph_Error _) \<Rightarrow> Inr trees
    | Inl e \<Rightarrow> Inl e"
  have "res_fold ?f es trees = Inr (trees @ filter (\<lambda>e. (i, e) \<in> (edge_rel g)\<^sup>*) es)"
    if "\<forall>e \<in> set es. has_node e g" for es trees
    using that
  proof (induction es arbitrary: trees)
    case (Cons e es)
    then obtain order where "topo_postorder_from g e = Inr order" "set order = {a. (a, e) \<in> (edge_rel g)\<^sup>*}"
      by (metis topo_postorder_from_wf [OF assms] list.set_intros(1))
    with Cons show ?case by simp
  qed simp
  then show ?thesis
    using set_ending_nodes [OF assms] by (simp add: get_trees_containing_node_def)
qed

section \<open>What an output extent is\<close>

text \<open>
  The extent of a node without a cache: its own (a non-empty cached image, else positive
  width and height parameters), else that of its first image input with a positive one,
  else empty.
\<close>

definition positive_size :: "PixelSize \<Rightarrow> bool" where
  "positive_size s \<longleftrightarrow> 0 < size_width s \<and> 0 < size_height s"

definition image_sources :: "GraphTopologyEdge list \<Rightarrow> int list" where
  "image_sources es = map from_node_id (filter (\<lambda>e. edge_kind e = ImageInputEdge \<and> 0 \<le> from_node_id e) es)"

inductive extent :: "('d, 'p, 's, 'f) GraphModel \<Rightarrow> int \<Rightarrow> PixelSize \<Rightarrow> bool" for g where
  extent_own: "map_of (nodes g) i = Some nd \<Longrightarrow> own_extent nd = Some s \<Longrightarrow> extent g i s"
| extent_inherited: "map_of (nodes g) i = Some nd \<Longrightarrow> own_extent nd = None \<Longrightarrow>
    image_sources (upstream_edges g i) = before @ d # after \<Longrightarrow>
    \<forall>x \<in> set before. extent g x empty_size \<Longrightarrow> extent g d s \<Longrightarrow> positive_size s \<Longrightarrow> extent g i s"
| extent_unknown: "map_of (nodes g) i = Some nd \<Longrightarrow> own_extent nd = None \<Longrightarrow>
    \<forall>x \<in> set (image_sources (upstream_edges g i)). extent g x empty_size \<Longrightarrow> extent g i empty_size"

inductive_cases extentE: "extent g i s"

lemma own_extent_positive: "own_extent nd = Some s \<Longrightarrow> positive_size s"
  by (auto simp: own_extent_def positive_size_def Let_def split: option.splits if_splits)

lemma not_positive_empty [simp]: "\<not> positive_size empty_size"
  by (simp add: positive_size_def empty_size_def)

lemma split_trichotomy:
  assumes "xs @ d # ys = xs' @ d' # ys'"
  shows "d \<in> set xs' \<or> d' \<in> set xs \<or> (xs = xs' \<and> d = d')"
  using assms by (auto simp: append_eq_append_conv2 Cons_eq_append_conv append_eq_Cons_conv)

lemma extent_unique: "extent g i s \<Longrightarrow> extent g i t \<Longrightarrow> s = t"
proof (induction arbitrary: t rule: extent.induct)
  case (extent_own i nd s)
  from extent_own.prems extent_own.hyps show ?case by (cases rule: extent.cases) auto
next
  case (extent_inherited i nd before d after s)
  note IH = extent_inherited.IH and pos = extent_inherited.hyps(5)
  from extent_inherited.prems show ?case
  proof (cases rule: extent.cases)
    case (extent_inherited nd' before' d' after')
    then have "d \<in> set before' \<or> d' \<in> set before \<or> d = d'"
      using split_trichotomy \<open>image_sources (upstream_edges g i) = before @ d # after\<close> by metis
    with extent_inherited IH pos show ?thesis by fastforce
  next
    case (extent_unknown nd')
    then have "extent g d empty_size"
      using \<open>image_sources (upstream_edges g i) = before @ d # after\<close> by simp
    with IH pos show ?thesis by fastforce
  qed (use \<open>map_of (nodes g) i = Some nd\<close> \<open>own_extent nd = None\<close> in auto)
next
  case (extent_unknown i nd)
  note IH = extent_unknown.IH
  from extent_unknown.prems show ?case
  proof (cases rule: extent.cases)
    case (extent_inherited nd' before' d' after')
    then have "d' \<in> set (image_sources (upstream_edges g i))" by simp
    with IH extent_inherited show ?thesis by fastforce
  qed (use \<open>map_of (nodes g) i = Some nd\<close> \<open>own_extent nd = None\<close> in auto)
qed

section \<open>Resolution computes the extent\<close>

definition extent_cache_ok :: "('d, 'p, 's, 'f) GraphModel \<Rightarrow> (int \<rightharpoonup> PixelSize) \<Rightarrow> bool" where
  "extent_cache_ok g cache \<longleftrightarrow> (\<forall>k s. cache k = Some s \<longrightarrow> extent g k s)"

lemma extent_cache_ok_upd: "extent_cache_ok g cache \<Longrightarrow> extent g i s \<Longrightarrow> extent_cache_ok g (cache(i \<mapsto> s))"
  by (auto simp: extent_cache_ok_def)

definition inherited_from :: "('d, 'p, 's, 'f) GraphModel \<Rightarrow> int list \<Rightarrow> PixelSize \<Rightarrow> bool" where
  "inherited_from g ds s \<longleftrightarrow>
     (positive_size s \<and> (\<exists>before d after. ds = before @ d # after
         \<and> (\<forall>x \<in> set before. extent g x empty_size) \<and> extent g d s))
     \<or> (s = empty_size \<and> (\<forall>x \<in> set ds. extent g x empty_size))"

lemma extent_sizes: "extent g i s \<Longrightarrow> positive_size s \<or> s = empty_size"
  by (cases rule: extent.cases) (auto dest: own_extent_positive)

lemma inherited_from_Cons:
  "extent g d empty_size \<Longrightarrow> inherited_from g ds s \<Longrightarrow> inherited_from g (d # ds) s"
  unfolding inherited_from_def by (metis append_Cons set_ConsD)

lemma first_positive_spec:
  assumes "\<And>d cache. d \<in> set (image_sources es) \<Longrightarrow> extent_cache_ok g cache \<Longrightarrow>
      \<exists>s cache'. f d cache = Inr (s, cache') \<and> extent g d s \<and> extent_cache_ok g cache'"
    and "extent_cache_ok g cache"
  shows "\<exists>s cache'. first_positive f es cache = Inr (s, cache') \<and> inherited_from g (image_sources es) s
    \<and> extent_cache_ok g cache'"
  using assms
proof (induction es arbitrary: cache)
  case Nil
  then show ?case by (simp add: inherited_from_def image_sources_def)
next
  case (Cons e es)
  show ?case
  proof (cases "edge_kind e \<noteq> ImageInputEdge \<or> from_node_id e < 0")
    case True
    then have "image_sources (e # es) = image_sources es" by (auto simp: image_sources_def)
    with Cons True show ?thesis by simp
  next
    case False
    then have src: "image_sources (e # es) = from_node_id e # image_sources es"
      by (auto simp: image_sources_def)
    with Cons.prems obtain s cache' where s: "f (from_node_id e) cache = Inr (s, cache')"
      "extent g (from_node_id e) s" "extent_cache_ok g cache'" by (metis list.set_intros(1))
    show ?thesis
    proof (cases "positive_size s")
      case True
      then have "inherited_from g (image_sources (e # es)) s"
        using s(2) unfolding src inherited_from_def by (metis append_Nil empty_iff list.set(1))
      with s False True show ?thesis by (simp add: positive_size_def)
    next
      case np: False
      then have "extent g (from_node_id e) empty_size" using s(2) extent_sizes by blast
      moreover obtain t cache'' where "first_positive f es cache' = Inr (t, cache'')"
        "inherited_from g (image_sources es) t" "extent_cache_ok g cache''"
        using Cons.IH [of cache'] Cons.prems(1) s(3) unfolding src by auto
      ultimately show ?thesis
        using s np False inherited_from_Cons unfolding src by (auto simp: positive_size_def)
    qed
  qed
qed

lemma card_ancestors_less:
  assumes "graph_wf g" "(d, i) \<in> edge_rel g"
  shows "card {a. (a, d) \<in> (edge_rel g)\<^sup>+} < card {a. (a, i) \<in> (edge_rel g)\<^sup>+}"
proof (rule psubset_card_mono)
  have "{a. (a, i) \<in> (edge_rel g)\<^sup>+} \<subseteq> Domain (edge_rel g)" by (auto dest: tranclD)
  then show "finite {a. (a, i) \<in> (edge_rel g)\<^sup>+}"
    by (rule finite_subset) (simp add: finite_Domain)
  have "d \<notin> {a. (a, d) \<in> (edge_rel g)\<^sup>+}"
    using acyclic_edge_rel [OF assms(1)] by (auto simp: acyclic_def)
  with assms(2) show "{a. (a, d) \<in> (edge_rel g)\<^sup>+} \<subset> {a. (a, i) \<in> (edge_rel g)\<^sup>+}"
    by (auto intro: trancl_into_trancl)
qed

lemma resolve_output_extent_spec:
  assumes "graph_wf g"
  shows "has_node i g \<Longrightarrow> extent_cache_ok g cache \<Longrightarrow> card {a. (a, i) \<in> (edge_rel g)\<^sup>+} < fuel \<Longrightarrow>
    \<exists>s cache'. resolve_output_extent fuel g i cache = Inr (s, cache') \<and> extent g i s \<and> extent_cache_ok g cache'"
proof (induction fuel arbitrary: i cache)
  case 0
  then show ?case by simp
next
  case (Suc fuel)
  from Suc.prems(1) obtain nd where nd: "map_of (nodes g) i = Some nd" by (auto simp: has_node_def)
  then have node: "graph_node i g = Inr nd" by (simp add: graph_node_def require_node_def)
  show ?case
  proof (cases "cache i")
    case (Some s)
    with Suc.prems(2) show ?thesis by (auto simp: extent_cache_ok_def)
  next
    case miss: None
    show ?thesis
    proof (cases "own_extent nd")
      case (Some s)
      with nd have "extent g i s" by (rule extent.extent_own)
      with miss Some node Suc.prems(2) show ?thesis by (simp add: extent_cache_ok_upd)
    next
      case None
      have "\<exists>s cache'. first_positive (resolve_output_extent fuel g) (upstream_edges g i) cache = Inr (s, cache')
          \<and> inherited_from g (image_sources (upstream_edges g i)) s \<and> extent_cache_ok g cache'"
      proof (rule first_positive_spec [OF _ Suc.prems(2)])
        fix d cache assume d: "d \<in> set (image_sources (upstream_edges g i))" and ok: "extent_cache_ok g cache"
        then have R: "(d, i) \<in> edge_rel g"
          by (auto simp: edge_rel_upstream [OF assms] image_sources_def)
        show "\<exists>s cache'. resolve_output_extent fuel g d cache = Inr (s, cache') \<and> extent g d s
            \<and> extent_cache_ok g cache'"
          using Suc.prems(3) card_ancestors_less [OF assms R] edge_rel_has_node(1) [OF assms R]
          by (intro Suc.IH ok) auto
      qed
      then obtain s cache' where r: "first_positive (resolve_output_extent fuel g) (upstream_edges g i) cache
          = Inr (s, cache')" and inh: "inherited_from g (image_sources (upstream_edges g i)) s"
        and ok: "extent_cache_ok g cache'" by blast
      from inh have "extent g i s"
        unfolding inherited_from_def using extent.extent_inherited [OF nd None] extent.extent_unknown [OF nd None] by blast
      with miss None node r ok show ?thesis by (simp add: extent_cache_ok_upd)
    qed
  qed
qed

section \<open>Properties of the traversals\<close>

lemma demo_pair_valid:
  obtains g :: demo_graph where "replace_nodes [(1, demo_source), (2, demo_sink)] demo_graph = Inr g"
    "nodes g = [(1, demo_source), (2, demo_sink)]" "graph_wf g"
proof -
  have "validate_node_map [(1, demo_source), (2, demo_sink)] = Inr ()"
    by (simp add: validate_node_map_def demo_defs node_deps_def)
  moreover obtain g where "publish_structural_replacement [(1, demo_source), (2, demo_sink)]
      (build_topology_index [(1, demo_source), (2, demo_sink)]) True demo_graph = Inr g"
    by (rule publish_structural_replacement_total [of demo_graph]) (auto simp: demo_graph_defs u64_max_def)
  ultimately have g: "publish_candidate [(1, demo_source), (2, demo_sink)] True demo_graph = Inr g"
    by (simp add: publish_candidate_def)
  from publish_candidate_Inr [OF g] g show ?thesis
    by (intro that [of g]) (simp_all add: replace_nodes_def)
qed

text \<open>
  The post-order traversal of a well-formed graph never throws and never runs out of its
  recursion bound: from a present node it lists every node that can reach it exactly once,
  nothing else, and each node after all the nodes it depends on.
\<close>

theorem topo_postorder_correct:
  assumes "graph_wf g" "has_node i g"
  shows "\<exists>order. topo_postorder_from g i = Inr order \<and> distinct order
    \<and> set order = {a. (a, i) \<in> (edge_rel g)\<^sup>*}
    \<and> (\<forall>before k after d. order = before @ k # after \<and> (d, k) \<in> edge_rel g \<longrightarrow> d \<in> set before)"
proof -
  obtain order where "topo_postorder_from g i = Inr order" "distinct order"
    "set order = {a. (a, i) \<in> (edge_rel g)\<^sup>*}" "deps_before (topo_succs g) order"
    using topo_postorder_from_wf [OF assms] by blast
  then show ?thesis
    unfolding deps_before_def succ_rel_topo_succs [OF assms(1), symmetric] succ_rel_def by blast
qed

theorem topo_postorder_correct_witness:
  "\<exists>g order. replace_nodes [(1, demo_source), (2, demo_sink)] demo_graph = Inr g
     \<and> topo_postorder_from g 2 = Inr order \<and> distinct order \<and> 2 \<in> set order"
proof -
  obtain g :: demo_graph where g: "replace_nodes [(1, demo_source), (2, demo_sink)] demo_graph = Inr g"
    "nodes g = [(1, demo_source), (2, demo_sink)]" "graph_wf g"
    by (rule demo_pair_valid)
  then have "has_node 2 g" by (simp add: has_node_def)
  from topo_postorder_correct [OF g(3) this] g(1) show ?thesis by auto
qed

text \<open>
  The query services agree with the graph. On a well-formed graph the direct
  dependencies and dependents of a present node are the sorted, duplicate-free lists of its
  neighbours along index edges, and the trees containing a node are exactly the end nodes it
  reaches; a present node always lies in at least one tree.
\<close>

theorem traversal_queries_exact:
  assumes "graph_wf g" "has_node i g"
  shows "(\<exists>ds. dependencies_of g i = Inr ds \<and> sorted ds \<and> distinct ds \<and> set ds = {d. (d, i) \<in> edge_rel g})
    \<and> (\<exists>ks. dependents_of g i = Inr ks \<and> sorted ks \<and> distinct ks \<and> set ks = {k. (i, k) \<in> edge_rel g \<and> 0 \<le> k})
    \<and> (\<exists>ts. get_trees_containing_node g i = Inr ts \<and> ts \<noteq> []
         \<and> set ts = {e. has_node e g \<and> e \<notin> Domain (edge_rel g) \<and> (i, e) \<in> (edge_rel g)\<^sup>*})"
proof (intro conjI)
  have "set (filter (\<lambda>d. 0 \<le> d \<and> has_node d g) (map from_node_id (upstream_edges g i))) = {d. (d, i) \<in> edge_rel g}"
    using edge_rel_upstream [OF assms(1), of _ i] edge_rel_has_node [OF assms(1), of _ i] by auto
  then show "\<exists>ds. dependencies_of g i = Inr ds \<and> sorted ds \<and> distinct ds \<and> set ds = {d. (d, i) \<in> edge_rel g}"
    using assms(2) by (simp add: dependencies_of_def unique_sorted_node_ids_def unique_sort)
  have "set (filter (\<lambda>k. 0 \<le> k \<and> has_node k g) (map to_node_id (downstream_edges g i)))
      = {k. (i, k) \<in> edge_rel g \<and> 0 \<le> k}"
    using edge_rel_downstream [OF assms(1), of i] edge_rel_has_node(2) [OF assms(1), of i] by auto
  then show "\<exists>ks. dependents_of g i = Inr ks \<and> sorted ks \<and> distinct ks \<and> set ks = {k. (i, k) \<in> edge_rel g \<and> 0 \<le> k}"
    using assms(2) by (simp add: dependents_of_def unique_sorted_node_ids_def unique_sort)
  obtain e where e: "(i, e) \<in> (edge_rel g)\<^sup>*" "e \<notin> Domain (edge_rel g)"
    using reaches_end [OF finite_edge_rel acyclic_edge_rel [OF assms(1)]] by blast
  moreover have "has_node e g"
    using e(1) assms(2) edge_rel_has_node(2) [OF assms(1)] by (cases rule: rtranclE) auto
  ultimately have "e \<in> set (filter (\<lambda>e. (i, e) \<in> (edge_rel g)\<^sup>*) (ending_nodes g))"
    by (simp add: set_ending_nodes [OF assms(1)])
  then show "\<exists>ts. get_trees_containing_node g i = Inr ts \<and> ts \<noteq> []
      \<and> set ts = {e. has_node e g \<and> e \<notin> Domain (edge_rel g) \<and> (i, e) \<in> (edge_rel g)\<^sup>*}"
    by (auto simp: get_trees_containing_node_wf [OF assms(1)] set_ending_nodes [OF assms(1)] filter_empty_conv)
qed

theorem traversal_queries_exact_witness:
  "\<exists>g ts. replace_nodes [(1, demo_source), (2, demo_sink)] demo_graph = Inr g
     \<and> get_trees_containing_node g 1 = Inr ts \<and> ts \<noteq> []"
proof -
  obtain g :: demo_graph where g: "replace_nodes [(1, demo_source), (2, demo_sink)] demo_graph = Inr g"
    "nodes g = [(1, demo_source), (2, demo_sink)]" "graph_wf g"
    by (rule demo_pair_valid)
  then have "has_node 1 g" by (simp add: has_node_def)
  from traversal_queries_exact [OF g(3) this] g(1) show ?thesis by blast
qed

text \<open>
  Extent resolution on a well-formed graph never throws and never runs out of its
  recursion bound, whatever correct cache it is given; it returns the extent of the node,
  which is unique, so memoisation is invisible, and leaves a correct cache.
\<close>

theorem resolve_output_extent_correct:
  assumes "graph_wf g" "has_node i g" "extent_cache_ok g cache"
  shows "\<exists>s cache'. resolve_output_extent (Suc (length (nodes g))) g i cache = Inr (s, cache')
    \<and> extent_cache_ok g cache' \<and> (\<forall>t. extent g i t \<longleftrightarrow> t = s)"
proof -
  have "{a. (a, i) \<in> (edge_rel g)\<^sup>+} \<subseteq> node_keys (nodes g)"
    using edge_rel_has_node(1) [OF assms(1)] by (auto simp: has_node_keys dest: tranclD)
  then have "card {a. (a, i) \<in> (edge_rel g)\<^sup>+} < Suc (length (nodes g))"
    using card_mono [OF finite_node_keys] card_keys_bound [of g] by (meson le_less_trans)
  from resolve_output_extent_spec [OF assms this] show ?thesis
    using extent_unique by blast
qed

theorem resolve_output_extent_correct_witness:
  "\<exists>g s cache'. replace_nodes [(1, demo_source), (2, demo_sink)] demo_graph = Inr g
     \<and> resolve_output_extent 3 g 2 Map.empty = Inr (s, cache') \<and> extent g 2 s"
proof -
  obtain g :: demo_graph where g: "replace_nodes [(1, demo_source), (2, demo_sink)] demo_graph = Inr g"
    "nodes g = [(1, demo_source), (2, demo_sink)]" "graph_wf g"
    by (rule demo_pair_valid)
  then have "has_node 2 g" by (simp add: has_node_def)
  from resolve_output_extent_correct [OF g(3) this, of Map.empty] g(1,2) show ?thesis
    by (auto simp: extent_cache_ok_def eval_nat_numeral)
qed

end
