(* ===== verification/DependencyLut.thy ===== *)
theory DependencyLut
  imports GraphModel
begin

text \<open>
  The dependency table of \<^verbatim>\<open>src/lib/core/ps_types.hpp\<close> (\<^verbatim>\<open>SpatialDependencyMap\<close>): a grid over the output of a node that gives, for each
  cell, the region of an input it needs. All fields are 32-bit integers and the code adds and multiplies two of them in 64 bits,
  where nothing wraps, so the operations are on \<open>int\<close> with the code's range checks. The theory shows that a lookup is the smallest rectangle
  around the regions of the cells a request meets.
\<close>

section \<open>Model\<close>

definition cell_roi_ok :: "PixelRect \<Rightarrow> bool" where
  "cell_roi_ok roi \<longleftrightarrow> \<not> (rect_x roi < 0 \<or> rect_y roi < 0 \<or> rect_width roi < 0 \<or> rect_height roi < 0)
     \<and> \<not> (rect_x roi + rect_width roi > int_max \<or> rect_y roi + rect_height roi > int_max)"

definition lut_is_valid :: "SpatialDependencyMap \<Rightarrow> bool" where
  "lut_is_valid m =
    (if cols m \<le> 0 \<or> rows m \<le> 0 \<or> grid_size_x m \<le> 0 \<or> grid_size_y m \<le> 0
        \<or> size_width (output_extent m) \<le> 0 \<or> size_height (output_extent m) \<le> 0 then False
     else
       let expected_columns = 1 + (size_width (output_extent m) - 1) div grid_size_x m;
           expected_rows = 1 + (size_height (output_extent m) - 1) div grid_size_y m
       in if cols m \<noteq> expected_columns \<or> rows m \<noteq> expected_rows then False
          else if cols m > (2 ^ 64 - 1) div rows m then False
          else let expected = cols m * rows m
               in if expected > int_max \<or> int (length (cell_to_upstream_roi m)) \<noteq> expected then False
                  else list_all cell_roi_ok (cell_to_upstream_roi m))"

definition is_valid_for :: "SpatialDependencyMap \<Rightarrow> PixelSize \<Rightarrow> bool" where
  "is_valid_for m extent \<longleftrightarrow> lut_is_valid m \<and> output_extent m = extent"

definition cell_bounds :: "SpatialDependencyMap \<Rightarrow> int \<Rightarrow> int \<Rightarrow> PixelRect" where
  "cell_bounds m cx cy =
    (if cx < 0 \<or> cy < 0 \<or> cx \<ge> cols m \<or> cy \<ge> rows m \<or> grid_size_x m \<le> 0 \<or> grid_size_y m \<le> 0 then empty_rect
     else
       let x0 = cx * grid_size_x m; y0 = cy * grid_size_y m
       in if x0 < 0 \<or> y0 < 0 \<or> x0 \<ge> size_width (output_extent m) \<or> y0 \<ge> size_height (output_extent m)
             \<or> x0 > int_max \<or> y0 > int_max then empty_rect
          else
            let right = min (x0 + grid_size_x m) (size_width (output_extent m));
                bottom = min (y0 + grid_size_y m) (size_height (output_extent m))
            in if right \<le> x0 \<or> bottom \<le> y0 then empty_rect
               else \<lparr>rect_x = x0, rect_y = y0, rect_width = right - x0, rect_height = bottom - y0\<rparr>)"

definition lut_merge_rect :: "PixelRect \<Rightarrow> PixelRect \<Rightarrow> PixelRect" where
  "lut_merge_rect a b =
    (if rect_width a \<le> 0 \<or> rect_height a \<le> 0 then b
     else if rect_width b \<le> 0 \<or> rect_height b \<le> 0 then a
     else
       let x0 = min (rect_x a) (rect_x b); y0 = min (rect_y a) (rect_y b);
           x1 = max (rect_x a + rect_width a) (rect_x b + rect_width b);
           y1 = max (rect_y a + rect_height a) (rect_y b + rect_height b)
       in if x0 < 0 \<or> y0 < 0 \<or> x1 \<le> x0 \<or> y1 \<le> y0 \<or> x1 > int_max \<or> y1 > int_max then empty_rect
          else \<lparr>rect_x = x0, rect_y = y0, rect_width = x1 - x0, rect_height = y1 - y0\<rparr>)"

definition merge_cell :: "SpatialDependencyMap \<Rightarrow> int \<Rightarrow> int \<Rightarrow> PixelRect \<Rightarrow> PixelRect" where
  "merge_cell m r c merged =
    (let index = r * cols m + c
     in if index \<ge> int (length (cell_to_upstream_roi m)) then merged
        else lut_merge_rect merged (cell_to_upstream_roi m ! nat index))"

definition lut_lookup :: "SpatialDependencyMap \<Rightarrow> PixelRect \<Rightarrow> PixelRect" where
  "lut_lookup m roi =
    (if \<not> lut_is_valid m \<or> rect_width roi \<le> 0 \<or> rect_height roi \<le> 0 then empty_rect
     else
       let roi_right = rect_x roi + rect_width roi; roi_bottom = rect_y roi + rect_height roi
       in if roi_right \<le> rect_x roi \<or> roi_bottom \<le> rect_y roi then empty_rect
          else
            let left = max (rect_x roi) 0; top = max (rect_y roi) 0;
                right = min roi_right (size_width (output_extent m));
                bottom = min roi_bottom (size_height (output_extent m))
            in if right \<le> left \<or> bottom \<le> top then empty_rect
               else
                 let start_column = cdiv left (grid_size_x m); start_row = cdiv top (grid_size_y m);
                     end_column = cdiv (right - 1) (grid_size_x m); end_row = cdiv (bottom - 1) (grid_size_y m)
                 in fold (\<lambda>r. fold (merge_cell m r) [start_column..end_column]) [start_row..end_row] empty_rect)"

section \<open>Cells\<close>

lemma lut_validD:
  assumes "lut_is_valid m"
  shows "0 < cols m" "0 < rows m" "0 < grid_size_x m" "0 < grid_size_y m"
    "0 < size_width (output_extent m)" "0 < size_height (output_extent m)"
    "cols m = 1 + (size_width (output_extent m) - 1) div grid_size_x m" "rows m = 1 + (size_height (output_extent m) - 1) div grid_size_y m"
    "int (length (cell_to_upstream_roi m)) = cols m * rows m" "\<forall>roi\<in>set (cell_to_upstream_roi m). cell_roi_ok roi"
  using assms by (auto simp: lut_is_valid_def Let_def list_all_iff split: if_splits)

lemma cell_index:
  fixes x g w :: int
  assumes "0 \<le> x" "x < w" "0 < g"
  shows "0 \<le> x div g" "x div g < 1 + (w - 1) div g"
  using assms zdiv_mono1 [of x "w - 1" g] by (auto simp: pos_imp_zdiv_nonneg_iff)

lemma cell_interval:
  fixes x g c :: int
  assumes "0 < g"
  shows "x div g = c \<longleftrightarrow> c * g \<le> x \<and> x < c * g + g"
proof
  assume c: "x div g = c"
  have "c * g + x mod g = x" "0 \<le> x mod g" "x mod g < g" using assms c div_mult_mod_eq [of x g] by simp_all
  then show "c * g \<le> x \<and> x < c * g + g" by linarith
next
  assume "c * g \<le> x \<and> x < c * g + g"
  then show "x div g = c" using assms by (intro int_div_pos_eq [of x g c "x - c * g"]) (auto simp: algebra_simps)
qed

lemma cell_floor:
  fixes x g :: int
  assumes "0 < g"
  shows "x div g * g \<le> x" "x < x div g * g + g"
  using cell_interval [OF assms, of x "x div g"] by simp_all

text \<open>The cells partition the output: a pixel is in the cell its coordinates give, and in no other.\<close>

lemma cell_bounds_pixels:
  assumes "lut_is_valid m" "0 \<le> cx" "cx < cols m" "0 \<le> cy" "cy < rows m" "wf_size (output_extent m)"
  shows "pixels (cell_bounds m cx cy) = {(x, y) \<in> size_pixels (output_extent m). x div grid_size_x m = cx \<and> y div grid_size_y m = cy}"
proof -
  note v = lut_validD [OF assms(1)]
  define x0 y0 where x0: "x0 = cx * grid_size_x m" and y0: "y0 = cy * grid_size_y m"
  have le: "cx \<le> (size_width (output_extent m) - 1) div grid_size_x m" "cy \<le> (size_height (output_extent m) - 1) div grid_size_y m"
    using assms v(7,8) by simp_all
  have in_x: "0 \<le> x0" "x0 < size_width (output_extent m)"
    using assms(2) v(3) mult_right_mono [OF le(1), of "grid_size_x m"] cell_floor(1) [OF v(3), of "size_width (output_extent m) - 1"]
    unfolding x0 by (simp, linarith)
  have in_y: "0 \<le> y0" "y0 < size_height (output_extent m)"
    using assms(4) v(4) mult_right_mono [OF le(2), of "grid_size_y m"] cell_floor(1) [OF v(4), of "size_height (output_extent m) - 1"]
    unfolding y0 by (simp, linarith)
  have "cell_bounds m cx cy = \<lparr>rect_x = x0, rect_y = y0, rect_width = min (x0 + grid_size_x m) (size_width (output_extent m)) - x0,
      rect_height = min (y0 + grid_size_y m) (size_height (output_extent m)) - y0\<rparr>"
    using assms in_x in_y v(3,4) unfolding cell_bounds_def Let_def x0 [symmetric] y0 [symmetric]
    by (auto simp: wf_size_def in_i32_def)
  then show ?thesis
    using in_x in_y unfolding cell_interval [OF v(3)] cell_interval [OF v(4)] x0 [symmetric] y0 [symmetric] by (auto simp: geom_defs)
qed

section \<open>Lookups\<close>

text \<open>A rectangle is the hull of a set of pixels when it is the least rectangle around it.\<close>

definition hull_of :: "(int \<times> int) set \<Rightarrow> PixelRect \<Rightarrow> bool" where
  "hull_of S r \<longleftrightarrow> S \<subseteq> pixels r \<and> (\<forall>R. S \<subseteq> pixels R \<longrightarrow> pixels r \<subseteq> pixels R)"

lemma pixels_subset_iff:
  assumes "\<not> is_rect_empty a"
  shows "pixels a \<subseteq> pixels R \<longleftrightarrow> rect_x R \<le> rect_x a \<and> rect_y R \<le> rect_y a
    \<and> rect_x a + rect_width a \<le> rect_x R + rect_width R \<and> rect_y a + rect_height a \<le> rect_y R + rect_height R"
  using assms by (auto simp: pixels_def is_rect_empty_def times_subset_iff)

lemma hull_of_rect: "hull_of (pixels r) r"
  by (simp add: hull_of_def)

lemma lut_merge_rect_hull:
  assumes "cell_roi_ok a" "cell_roi_ok b"
  shows "cell_roi_ok (lut_merge_rect a b)" "hull_of (pixels a \<union> pixels b) (lut_merge_rect a b)"
proof -
  consider (empty_a) "is_rect_empty a" | (empty_b) "\<not> is_rect_empty a" "is_rect_empty b" | (both) "\<not> is_rect_empty a" "\<not> is_rect_empty b" by blast
  then have "cell_roi_ok (lut_merge_rect a b) \<and> hull_of (pixels a \<union> pixels b) (lut_merge_rect a b)"
  proof cases
    case empty_a
    then have "pixels a = {}" by (simp add: pixels_empty_iff)
    with empty_a assms show ?thesis by (simp add: lut_merge_rect_def is_rect_empty_def hull_of_rect)
  next
    case empty_b
    then have "pixels b = {}" by (simp add: pixels_empty_iff)
    with empty_b assms show ?thesis by (simp add: lut_merge_rect_def is_rect_empty_def hull_of_rect)
  next
    case both
    let ?r = "lut_merge_rect a b"
    have r: "?r = \<lparr>rect_x = min (rect_x a) (rect_x b), rect_y = min (rect_y a) (rect_y b),
        rect_width = max (rect_x a + rect_width a) (rect_x b + rect_width b) - min (rect_x a) (rect_x b),
        rect_height = max (rect_y a + rect_height a) (rect_y b + rect_height b) - min (rect_y a) (rect_y b)\<rparr>"
      using both assms by (auto simp: lut_merge_rect_def is_rect_empty_def cell_roi_ok_def Let_def)
    have "\<not> is_rect_empty ?r" using both unfolding r by (auto simp: is_rect_empty_def)
    then show ?thesis
      using both assms pixels_subset_iff [of a] pixels_subset_iff [of b] pixels_subset_iff [of ?r] unfolding hull_of_def
      by (auto simp: r cell_roi_ok_def is_rect_empty_def)
  qed
  then show "cell_roi_ok (lut_merge_rect a b)" "hull_of (pixels a \<union> pixels b) (lut_merge_rect a b)" by simp_all
qed

lemma hull_of_trans: "hull_of S r \<Longrightarrow> hull_of (pixels r \<union> T) q \<Longrightarrow> hull_of (S \<union> T) q"
  unfolding hull_of_def by blast

lemma fold_merge_hull:
  "cell_roi_ok acc \<Longrightarrow> \<forall>roi\<in>set rois. cell_roi_ok roi \<Longrightarrow>
     hull_of (pixels acc \<union> (\<Union>roi\<in>set rois. pixels roi)) (fold (\<lambda>roi merged. lut_merge_rect merged roi) rois acc)"
proof (induction rois arbitrary: acc)
  case Nil
  then show ?case by (simp add: hull_of_rect)
next
  case (Cons roi rois)
  then have "hull_of (pixels acc \<union> pixels roi) (lut_merge_rect acc roi)" "cell_roi_ok (lut_merge_rect acc roi)"
    by (simp_all add: lut_merge_rect_hull)
  with Cons.IH [of "lut_merge_rect acc roi"] Cons.prems(2) show ?case
    using hull_of_trans [of "pixels acc \<union> pixels roi" "lut_merge_rect acc roi"] by (simp add: Un_assoc)
qed

text \<open>The double loop merges the regions of the cells it visits, each of which exists.\<close>

definition cell_roi :: "SpatialDependencyMap \<Rightarrow> int \<times> int \<Rightarrow> PixelRect" where
  "cell_roi m cell = cell_to_upstream_roi m ! nat (snd cell * cols m + fst cell)"

lemma cell_in_table:
  assumes "lut_is_valid m" "0 \<le> c" "c < cols m" "0 \<le> r" "r < rows m"
  shows "r * cols m + c < int (length (cell_to_upstream_roi m))" "cell_roi_ok (cell_roi m (c, r))"
proof -
  note v = lut_validD [OF assms(1)]
  have "(r + 1) * cols m \<le> rows m * cols m" using assms v(1) by (intro mult_right_mono) simp_all
  then show lt: "r * cols m + c < int (length (cell_to_upstream_roi m))" using assms v(9) by (simp add: algebra_simps)
  have "0 \<le> r * cols m + c" using assms by simp
  with lt have "nat (r * cols m + c) < length (cell_to_upstream_roi m)" by linarith
  then show "cell_roi_ok (cell_roi m (c, r))" using v(10) by (simp add: cell_roi_def)
qed

lemma lookup_loop:
  assumes "lut_is_valid m" "0 \<le> c0" "c1 < cols m" "0 \<le> r0" "r1 < rows m"
  shows "fold (\<lambda>r. fold (merge_cell m r) [c0..c1]) [r0..r1] acc
    = fold (\<lambda>roi merged. lut_merge_rect merged roi) (concat (map (\<lambda>r. map (\<lambda>c. cell_roi m (c, r)) [c0..c1]) [r0..r1])) acc"
proof -
  have row: "fold (merge_cell m r) cs acc = fold (\<lambda>roi merged. lut_merge_rect merged roi) (map (\<lambda>c. cell_roi m (c, r)) cs) acc"
    if "set cs \<subseteq> {c0..c1}" "r0 \<le> r" "r \<le> r1" for cs r acc
    using that(1)
  proof (induction cs arbitrary: acc)
    case (Cons c cs)
    then have "merge_cell m r c acc = lut_merge_rect acc (cell_roi m (c, r))"
      using cell_in_table(1) [OF assms(1), of c r] assms that(2,3) by (auto simp: merge_cell_def cell_roi_def)
    with Cons show ?case by simp
  qed simp
  have "fold (\<lambda>r. fold (merge_cell m r) [c0..c1]) rs acc
    = fold (\<lambda>roi merged. lut_merge_rect merged roi) (concat (map (\<lambda>r. map (\<lambda>c. cell_roi m (c, r)) [c0..c1]) rs)) acc"
    if "set rs \<subseteq> {r0..r1}" for rs acc
    using that by (induction rs arbitrary: acc) (auto simp: row)
  then show ?thesis by simp
qed

text \<open>The cells between the first and the last one are those the clipped request meets.\<close>

lemma interval_meets:
  fixes l u g c :: int
  assumes "0 < g" "l < u"
  shows "(\<exists>x. l \<le> x \<and> x < u \<and> x div g = c) \<longleftrightarrow> l div g \<le> c \<and> c \<le> (u - 1) div g"
proof
  assume "\<exists>x. l \<le> x \<and> x < u \<and> x div g = c"
  then obtain x where "l \<le> x" "x \<le> u - 1" "x div g = c" by auto
  then show "l div g \<le> c \<and> c \<le> (u - 1) div g" using zdiv_mono1 [of l x g] zdiv_mono1 [of x "u - 1" g] assms by auto
next
  assume c: "l div g \<le> c \<and> c \<le> (u - 1) div g"
  show "\<exists>x. l \<le> x \<and> x < u \<and> x div g = c"
  proof (cases "c = l div g")
    case True
    then show ?thesis using assms by (intro exI [of _ l]) simp
  next
    case False
    then have "l div g * g + g \<le> c * g" "c * g \<le> (u - 1) div g * g"
      using c assms mult_right_mono [of "l div g + 1" c g] mult_right_mono [of c "(u - 1) div g" g] by (simp_all add: algebra_simps)
    then have "l \<le> c * g" "c * g < u" using cell_floor [OF assms(1), of l] cell_floor [OF assms(1), of "u - 1"] by linarith+
    then show ?thesis using assms by (intro exI [of _ "c * g"]) simp
  qed
qed

lemma cell_bounds_at:
  assumes "lut_is_valid m" "wf_size (output_extent m)"
  shows "p \<in> pixels (cell_bounds m cx cy) \<longleftrightarrow> p \<in> size_pixels (output_extent m) \<and> fst p div grid_size_x m = cx \<and> snd p div grid_size_y m = cy"
proof (cases "0 \<le> cx \<and> cx < cols m \<and> 0 \<le> cy \<and> cy < rows m")
  case True
  then show ?thesis using cell_bounds_pixels [OF assms(1) _ _ _ _ assms(2)] by (cases p) auto
next
  case False
  note v = lut_validD [OF assms(1)]
  have "cell_bounds m cx cy = empty_rect" using False by (auto simp: cell_bounds_def)
  then show ?thesis
    using False cell_index [OF _ _ v(3), of "fst p" "size_width (output_extent m)"] cell_index [OF _ _ v(4), of "snd p" "size_height (output_extent m)"] v(7,8)
    by (auto simp: size_pixels_def)
qed

definition met_cells :: "SpatialDependencyMap \<Rightarrow> PixelRect \<Rightarrow> (int \<times> int) set" where
  "met_cells m roi = {(cx, cy). pixels (cell_bounds m cx cy) \<inter> pixels roi \<noteq> {}}"

text \<open>The clipped request, on the two axes.\<close>

lemma met_cells_clipped:
  fixes roi :: PixelRect
  assumes "lut_is_valid m" "wf_size (output_extent m)"
  defines "l \<equiv> max (rect_x roi) 0" and "t \<equiv> max (rect_y roi) 0"
    and "r \<equiv> min (rect_x roi + rect_width roi) (size_width (output_extent m))" and "b \<equiv> min (rect_y roi + rect_height roi) (size_height (output_extent m))"
  shows "met_cells m roi = {(cx, cy). (\<exists>x. l \<le> x \<and> x < r \<and> x div grid_size_x m = cx) \<and> (\<exists>y. t \<le> y \<and> y < b \<and> y div grid_size_y m = cy)}"
proof -
  have "pixels roi \<inter> size_pixels (output_extent m) = {l..<r} \<times> {t..<b}"
    by (auto simp: pixels_def size_pixels_def l_def t_def r_def b_def)
  then have "pixels (cell_bounds m cx cy) \<inter> pixels roi = {p \<in> {l..<r} \<times> {t..<b}. fst p div grid_size_x m = cx \<and> snd p div grid_size_y m = cy}" for cx cy
    using cell_bounds_at [OF assms(1,2)] by blast
  then show ?thesis unfolding met_cells_def by fastforce
qed

lemma lut_lookup_hull:
  assumes "lut_is_valid m" "wf_size (output_extent m)"
  shows "hull_of (\<Union>cell\<in>met_cells m roi. pixels (cell_roi m cell)) (lut_lookup m roi)"
proof -
  note v = lut_validD [OF assms(1)]
  define l t r b where defs: "l = max (rect_x roi) 0" "t = max (rect_y roi) 0"
    "r = min (rect_x roi + rect_width roi) (size_width (output_extent m))" "b = min (rect_y roi + rect_height roi) (size_height (output_extent m))"
  note met = met_cells_clipped [OF assms, of roi, folded defs]
  show ?thesis
  proof (cases "r \<le> l \<or> b \<le> t")
    case True
    then have "met_cells m roi = {}" unfolding met by auto
    moreover have "lut_lookup m roi = empty_rect" using True unfolding lut_lookup_def Let_def defs [symmetric] by auto
    ultimately show ?thesis by (simp add: hull_of_def)
  next
    case False
    then have pos: "l < r" "t < b" "0 \<le> l" "0 \<le> t" by (auto simp: defs)
    let ?c0 = "l div grid_size_x m" and ?c1 = "(r - 1) div grid_size_x m" and ?r0 = "t div grid_size_y m" and ?r1 = "(b - 1) div grid_size_y m"
    have range: "0 \<le> ?c0" "?c1 < cols m" "0 \<le> ?r0" "?r1 < rows m"
      using pos v cell_index [OF _ _ v(3), of "r - 1" "size_width (output_extent m)"] cell_index [OF _ _ v(4), of "b - 1" "size_height (output_extent m)"]
      by (auto simp: defs pos_imp_zdiv_nonneg_iff)
    have cells: "met_cells m roi = {?c0..?c1} \<times> {?r0..?r1}"
      unfolding met interval_meets [OF v(3) pos(1)] interval_meets [OF v(4) pos(2)] by auto
    let ?rois = "concat (map (\<lambda>cy. map (\<lambda>cx. cell_roi m (cx, cy)) [?c0..?c1]) [?r0..?r1])"
    have "lut_lookup m roi = fold (\<lambda>roi merged. lut_merge_rect merged roi) ?rois empty_rect"
      using False pos assms(1) lookup_loop [OF assms(1) range, of empty_rect] unfolding lut_lookup_def Let_def defs [symmetric]
      by (auto simp: defs)
    moreover have "\<forall>roi\<in>set ?rois. cell_roi_ok roi" using cell_in_table(2) [OF assms(1)] range by auto
    moreover have "(\<Union>cell\<in>met_cells m roi. pixels (cell_roi m cell)) = pixels empty_rect \<union> (\<Union>roi\<in>set ?rois. pixels roi)"
      unfolding cells by auto
    moreover have "cell_roi_ok empty_rect" by (simp add: cell_roi_ok_def empty_rect_def int_max_def)
    ultimately show ?thesis using fold_merge_hull [of empty_rect ?rois] by simp
  qed
qed

section \<open>Property\<close>

definition demo_lut :: SpatialDependencyMap where
  "demo_lut = \<lparr>grid_size_x = 2, grid_size_y = 2, cols = 2, rows = 1, output_extent = \<lparr>size_width = 4, size_height = 2\<rparr>, upstream_input_index = 0,
     cell_to_upstream_roi = [\<lparr>rect_x = 0, rect_y = 0, rect_width = 3, rect_height = 1\<rparr>, \<lparr>rect_x = 5, rect_y = 1, rect_width = 2, rect_height = 2\<rparr>]\<rparr>"

text \<open>
  C27. A dependency lookup is exact. The cells of a valid table partition the output, and a lookup returns the least rectangle that
  covers the recorded input region of every cell the request meets; it never reads outside the table and ignores the part
  of a request outside the output.
\<close>

theorem lut_lookup_exact:
  assumes "lut_is_valid m" "wf_size (output_extent m)"
  shows "(\<forall>p\<in>size_pixels (output_extent m). \<exists>!cell. p \<in> pixels (cell_bounds m (fst cell) (snd cell)))
    \<and> hull_of (\<Union>(cx, cy)\<in>met_cells m roi. pixels (cell_to_upstream_roi m ! nat (cy * cols m + cx))) (lut_lookup m roi)
    \<and> (\<forall>(cx, cy)\<in>met_cells m roi. 0 \<le> cy * cols m + cx \<and> nat (cy * cols m + cx) < length (cell_to_upstream_roi m))"
proof (intro conjI ballI)
  note at = cell_bounds_at [OF assms]
  note v = lut_validD [OF assms(1)]
  show "\<exists>!cell. p \<in> pixels (cell_bounds m (fst cell) (snd cell))" if "p \<in> size_pixels (output_extent m)" for p
    using that by (intro ex1I [of _ "(fst p div grid_size_x m, snd p div grid_size_y m)"]) (auto simp: at)
  show "hull_of (\<Union>(cx, cy)\<in>met_cells m roi. pixels (cell_to_upstream_roi m ! nat (cy * cols m + cx))) (lut_lookup m roi)"
    using lut_lookup_hull [OF assms, of roi] by (simp add: cell_roi_def case_prod_beta)
  fix cell assume "cell \<in> met_cells m roi"
  then obtain p where "p \<in> pixels (cell_bounds m (fst cell) (snd cell))" by (auto simp: met_cells_def)
  then have "0 \<le> fst cell" "fst cell < cols m" "0 \<le> snd cell" "snd cell < rows m"
    by (auto simp: cell_bounds_def split: if_splits)
  then show "case cell of (cx, cy) \<Rightarrow> 0 \<le> cy * cols m + cx \<and> nat (cy * cols m + cx) < length (cell_to_upstream_roi m)"
    using cell_in_table(1) [OF assms(1), of "fst cell" "snd cell"] v(1) by (cases cell) (auto simp: nat_less_iff)
qed

theorem lut_lookup_exact_witness:
  "lut_is_valid demo_lut \<and> wf_size (output_extent demo_lut)
   \<and> hull_of (\<Union>(cx, cy)\<in>met_cells demo_lut \<lparr>rect_x = 1, rect_y = 0, rect_width = 9, rect_height = 1\<rparr>. pixels (cell_to_upstream_roi demo_lut ! nat (cy * cols demo_lut + cx)))
       \<lparr>rect_x = 0, rect_y = 0, rect_width = 7, rect_height = 3\<rparr>"
proof -
  have d: "lut_is_valid demo_lut" "wf_size (output_extent demo_lut)"
    by (simp_all add: demo_lut_def lut_is_valid_def cell_roi_ok_def wf_size_def i32_defs)
  have "lut_lookup demo_lut \<lparr>rect_x = 1, rect_y = 0, rect_width = 9, rect_height = 1\<rparr> = \<lparr>rect_x = 0, rect_y = 0, rect_width = 7, rect_height = 3\<rparr>"
    using d(1) by (simp add: lut_lookup_def) (simp add: demo_lut_def merge_cell_def lut_merge_rect_def empty_rect_def int_max_def upto.simps)
  with d lut_lookup_exact [OF d, of "\<lparr>rect_x = 1, rect_y = 0, rect_width = 9, rect_height = 1\<rparr>"] show ?thesis by simp
qed

end
