(* ===== verification/RoiPropagation.thy ===== *)
theory RoiPropagation
  imports GraphTraversal DependencyLut
begin

text \<open>
  Region propagation over the graph (\<^verbatim>\<open>src/lib/graph/roi_propagation_service.cpp\<close>): which region of an input a region of an output
  needs, and the projection of a region through the image edges, forward to a downstream node or backward to a source.

  The propagators, the table builders and the floating-point projection through a cached spatial matrix
  (\<^verbatim>\<open>transform_rect_with_matrix\<close>) are parameters, the first two because they come from plugins, the last because it is double arithmetic.
  The graph is constant during a call, so they are functions of what else the service passes. The dependency tables
  the service caches are mutable members of the constant nodes: a store of replacements is threaded next to the graph. An exception
  returns the exception alone; tables replaced before it stay in their nodes.
  Rectangle fields are 32-bit; sums of two of them are computed in 64 bits, where they are exact, so the model adds in \<open>int\<close>.
\<close>

section \<open>Rectangles\<close>

definition roi_merge_rect :: "PixelRect \<Rightarrow> PixelRect \<Rightarrow> PixelRect" where
  "roi_merge_rect a b =
    (if is_rect_empty a then b
     else if is_rect_empty b then a
     else
       let x0 = min (rect_x a) (rect_x b); y0 = min (rect_y a) (rect_y b);
           x1 = max (rect_x a + rect_width a) (rect_x b + rect_width b);
           y1 = max (rect_y a + rect_height a) (rect_y b + rect_height b)
       in if x1 \<le> x0 \<or> y1 \<le> y0 \<or> x0 < int_min \<or> y0 < int_min \<or> x1 > int_max \<or> y1 > int_max
             \<or> x1 - x0 > int_max \<or> y1 - y0 > int_max then empty_rect
          else \<lparr>rect_x = x0, rect_y = y0, rect_width = x1 - x0, rect_height = y1 - y0\<rparr>)"

definition clamp_rect_to_bounds :: "PixelRect \<Rightarrow> PixelSize \<Rightarrow> PixelRect" where
  "clamp_rect_to_bounds r bounds =
    (if size_width bounds \<le> 0 \<or> size_height bounds \<le> 0 \<or> is_rect_empty r then empty_rect
     else
       let right = rect_x r + rect_width r; bottom = rect_y r + rect_height r;
           x0 = clamp64 (rect_x r) 0 (size_width bounds); y0 = clamp64 (rect_y r) 0 (size_height bounds);
           x1 = clamp64 right 0 (size_width bounds); y1 = clamp64 bottom 0 (size_height bounds)
       in if x1 \<le> x0 \<or> y1 \<le> y0 then empty_rect
          else \<lparr>rect_x = x0, rect_y = y0, rect_width = x1 - x0, rect_height = y1 - y0\<rparr>)"

record RoiAccumulator =
  acc_roi :: PixelRect
  has_roi :: bool

definition new_accumulator :: RoiAccumulator where
  "new_accumulator = \<lparr>acc_roi = empty_rect, has_roi = False\<rparr>"

definition include_roi :: "PixelRect \<Rightarrow> RoiAccumulator \<Rightarrow> RoiAccumulator" where
  "include_roi roi acc =
    (if is_rect_empty roi then acc
     else let merged = (if has_roi acc then roi_merge_rect (acc_roi acc) roi else roi)
          in if is_rect_empty merged then acc else \<lparr>acc_roi = merged, has_roi = True\<rparr>)"

definition accumulator_value :: "RoiAccumulator \<Rightarrow> PixelRect" where
  "accumulator_value acc = (if has_roi acc then acc_roi acc else empty_rect)"

section \<open>The frontier\<close>

record RoiFrontier =
  roi_map :: "int \<rightharpoonup> PixelRect"
  pending :: "int list"

definition new_frontier :: RoiFrontier where
  "new_frontier = \<lparr>roi_map = Map.empty, pending = []\<rparr>"

definition seed :: "int \<Rightarrow> PixelRect \<Rightarrow> PixelSize \<Rightarrow> RoiFrontier \<Rightarrow> bool \<times> RoiFrontier" where
  "seed i roi bounds f =
    (let clipped = clamp_rect_to_bounds roi bounds
     in if is_rect_empty clipped then (False, f)
        else (True, f\<lparr>roi_map := (roi_map f)(i \<mapsto> clipped), pending := pending f @ [i]\<rparr>))"

definition clipped_roi :: "RoiFrontier \<Rightarrow> int \<Rightarrow> PixelSize \<Rightarrow> PixelRect option" where
  "clipped_roi f i bounds =
    (case roi_map f i of
       None \<Rightarrow> None
     | Some roi \<Rightarrow> let clipped = clamp_rect_to_bounds roi bounds in if is_rect_empty clipped then None else Some clipped)"

definition merge_or_enqueue :: "int \<Rightarrow> PixelRect \<Rightarrow> PixelSize \<Rightarrow> RoiFrontier \<Rightarrow> bool \<times> RoiFrontier" where
  "merge_or_enqueue i roi bounds f =
    (let clipped = clamp_rect_to_bounds roi bounds
     in if is_rect_empty clipped then (False, f)
        else case roi_map f i of
          None \<Rightarrow> (True, f\<lparr>roi_map := (roi_map f)(i \<mapsto> clipped), pending := pending f @ [i]\<rparr>)
        | Some old \<Rightarrow>
            let merged = clamp_rect_to_bounds (roi_merge_rect old clipped) bounds
            in if merged = old \<or> is_rect_empty merged then (False, f)
               else (True, f\<lparr>roi_map := (roi_map f)(i \<mapsto> merged), pending := pending f @ [i]\<rparr>))"

section \<open>Dependency tables\<close>

record DependencyInputState =
  dep_extents :: "PixelSize list"
  dep_content_revisions :: "u64 list"

record DependencyRoiContribution =
  contribution_input :: nat
  contribution_roi :: PixelRect

record DependencyBuilderSnapshot =
  builder_callback :: "Node \<Rightarrow> PixelSize list \<Rightarrow> PixelSize \<Rightarrow> ParameterMap \<Rightarrow> SpatialDependencyMap res"
  builder_data_dependent :: bool
  builder_revision :: u64
  builder_flag_revision :: u64

type_synonym size_cache = "int \<rightharpoonup> PixelSize"
type_synonym lut_store = "int \<rightharpoonup> DependencyLutCache option \<times> u64"

definition get_size :: "('d, 'p, 's, 'f) GraphModel \<Rightarrow> int \<Rightarrow> size_cache \<Rightarrow> (PixelSize \<times> size_cache) res" where
  "get_size g i cache = resolve_output_extent (Suc (length (nodes g))) g i cache"

definition content_revision :: "Node \<Rightarrow> u64" where
  "content_revision nd = (if 0 < hp_version nd then word_of_int (hp_version nd) else 0)"

definition grow :: "nat \<Rightarrow> DependencyInputState \<Rightarrow> DependencyInputState" where
  "grow n st =
    (if n \<ge> length (dep_extents st)
     then st\<lparr>dep_extents := dep_extents st @ replicate (n + 1 - length (dep_extents st)) empty_size,
             dep_content_revisions := dep_content_revisions st @ replicate (n + 1 - length (dep_content_revisions st)) 0\<rparr>
     else st)"

definition dependency_input :: "('d, 'p, 's, 'f) GraphModel \<Rightarrow> GraphTopologyEdge \<Rightarrow> DependencyInputState \<times> size_cache
    \<Rightarrow> (DependencyInputState \<times> size_cache) res" where
  "dependency_input g edge = (\<lambda>(st, cache).
    if edge_kind edge \<noteq> ImageInputEdge then Inr (st, cache)
    else
      let st' = grow (input_index edge) st
      in if from_node_id edge < 0 \<or> \<not> has_node (from_node_id edge) g then Inr (st', cache)
         else res_bind (get_size g (from_node_id edge) cache) (\<lambda>(extent, cache').
              res_bind (graph_node (from_node_id edge) g) (\<lambda>source.
                Inr (st'\<lparr>dep_extents := (dep_extents st')[input_index edge := extent],
                         dep_content_revisions := (dep_content_revisions st')[input_index edge := content_revision source]\<rparr>, cache'))))"

definition dependency_input_state :: "('d, 'p, 's, 'f) GraphModel \<Rightarrow> int \<Rightarrow> size_cache \<Rightarrow> (DependencyInputState \<times> size_cache) res" where
  "dependency_input_state g i cache =
     res_fold (dependency_input g) (upstream_edges g i) (\<lparr>dep_extents = [], dep_content_revisions = []\<rparr>, cache)"

definition has_valid_dependency_input :: "PixelSize list \<Rightarrow> bool" where
  "has_valid_dependency_input extents \<longleftrightarrow> list_ex (\<lambda>e. size_width e > 0 \<and> size_height e > 0) extents"

definition parameter_input_revisions :: "Node \<Rightarrow> ('d, 'p, 's, 'f) GraphModel \<Rightarrow> u64 list" where
  "parameter_input_revisions nd g = map (\<lambda>input.
     if par_from_node_id input < 0 then 0
     else case map_of (nodes g) (par_from_node_id input) of None \<Rightarrow> 0 | Some source \<Rightarrow> content_revision source) (parameter_inputs nd)"

definition image_input_source_identities :: "Node \<Rightarrow> DependencyImageInputIdentity list" where
  "image_input_source_identities nd =
     map (\<lambda>input. \<lparr>source_node_id = img_from_node_id input, source_output = img_from_output_name input\<rparr>) (image_inputs nd)"

definition validate_dependency_lut :: "SpatialDependencyMap \<Rightarrow> PixelSize list \<Rightarrow> PixelSize \<Rightarrow> unit res" where
  "validate_dependency_lut m extents child_size =
    (if \<not> is_valid_for m child_size then Inl (Graph_Error InvalidParameter)
     else if length extents \<le> upstream_input_index m then Inl (Graph_Error InvalidParameter)
     else if size_width (extents ! upstream_input_index m) \<le> 0 \<or> size_height (extents ! upstream_input_index m) \<le> 0
       then Inl (Graph_Error InvalidParameter)
     else Inr ())"

text \<open>The mutable members of a node: a replacement in the store, else what the node holds.\<close>

definition node_lut :: "lut_store \<Rightarrow> Node \<Rightarrow> DependencyLutCache option \<times> u64" where
  "node_lut luts nd = (case luts (node_id nd) of None \<Rightarrow> (dependency_lut_cache nd, dependency_lut_version nd) | Some entry \<Rightarrow> entry)"

definition lut_identity_of :: "Node \<Rightarrow> ('d, 'p, 's, 'f) GraphModel \<Rightarrow> DependencyBuilderSnapshot \<Rightarrow> DependencyInputState \<Rightarrow> ParameterMap
    \<Rightarrow> DependencyLutCacheIdentity" where
  "lut_identity_of nd g snapshot st params =
    \<lparr>effective_parameters = params, static_parameter_revision = parameters_version nd,
     parameter_input_content_revisions = parameter_input_revisions nd g, image_input_sources = image_input_source_identities nd,
     input_extents = dep_extents st,
     upstream_content_revisions = (if builder_data_dependent snapshot then dep_content_revisions st else []),
     data_dependent = builder_data_dependent snapshot, dependency_builder_revision = builder_revision snapshot,
     data_dependent_revision = builder_flag_revision snapshot\<rparr>"

definition dependency_lookup :: "Node \<Rightarrow> ('d, 'p, 's, 'f) GraphModel \<Rightarrow> DependencyBuilderSnapshot \<Rightarrow> PixelRect \<Rightarrow> DependencyInputState \<Rightarrow> PixelSize
    \<Rightarrow> ParameterMap \<Rightarrow> lut_store \<Rightarrow> (DependencyRoiContribution option \<times> lut_store) res" where
  "dependency_lookup nd g snapshot current_roi st child_size params luts =
    (if is_rect_empty current_roi \<or> \<not> has_valid_dependency_input (dep_extents st) \<or> size_width child_size \<le> 0 \<or> size_height child_size \<le> 0
     then Inr (None, luts)
     else
       let identity = lut_identity_of nd g snapshot st params;
           contribution = (\<lambda>m. Some \<lparr>contribution_input = upstream_input_index m, contribution_roi = lut_lookup m current_roi\<rparr>);
           rebuild = (if snd (node_lut luts nd) = u64_max then Inl Overflow_Error
             else res_bind (builder_callback snapshot nd (dep_extents st) child_size params) (\<lambda>m.
                  res_bind (validate_dependency_lut m (dep_extents st) child_size) (\<lambda>_.
                    Inr (contribution m, luts(node_id nd \<mapsto> (Some \<lparr>lut = m, lut_identity = identity\<rparr>, snd (node_lut luts nd) + 1))))))
       in case fst (node_lut luts nd) of
            None \<Rightarrow> rebuild
          | Some entry \<Rightarrow>
              if lut_identity entry = identity \<and> is_valid_for (lut entry) child_size then Inr (contribution (lut entry), luts) else rebuild)"

section \<open>Upstream demand of one node\<close>

record RoiOperators =
  dirty_propagator :: "Node \<Rightarrow> PixelRect \<Rightarrow> PixelSize \<Rightarrow> PixelSize list \<Rightarrow> ParameterMap \<Rightarrow> PixelRect res"
  forward_propagator :: "Node \<Rightarrow> PixelRect \<Rightarrow> PixelSize \<Rightarrow> PixelSize \<Rightarrow> nat \<Rightarrow> PixelSize list \<Rightarrow> ParameterMap \<Rightarrow> PixelRect res"
  dependency_builder :: "string \<Rightarrow> string \<Rightarrow> DependencyBuilderSnapshot option"
  spatial_projection :: "Node \<Rightarrow> PixelRect \<Rightarrow> PixelRect"

record UpstreamRoiProjection =
  shared_roi :: PixelRect
  dependency_input_index :: "nat option"
  dependency_roi :: PixelRect

definition no_projection :: UpstreamRoiProjection where
  "no_projection = \<lparr>shared_roi = empty_rect, dependency_input_index = None, dependency_roi = empty_rect\<rparr>"

definition roi_for_input :: "UpstreamRoiProjection \<Rightarrow> nat \<Rightarrow> PixelRect" where
  "roi_for_input p i =
    (if dependency_input_index p = Some i then roi_merge_rect (shared_roi p) (dependency_roi p) else shared_roi p)"

definition bounded_roi_for_input :: "UpstreamRoiProjection \<Rightarrow> nat \<Rightarrow> PixelSize \<Rightarrow> PixelRect" where
  "bounded_roi_for_input p i bounds =
    (let bounded_shared = clamp_rect_to_bounds (shared_roi p) bounds
     in if dependency_input_index p \<noteq> Some i then bounded_shared
        else roi_merge_rect bounded_shared (clamp_rect_to_bounds (dependency_roi p) bounds))"

definition combined_roi :: "UpstreamRoiProjection \<Rightarrow> PixelRect" where
  "combined_roi p = roi_merge_rect (shared_roi p) (dependency_roi p)"

definition append_spatial_metadata_roi :: "RoiOperators \<Rightarrow> Node \<Rightarrow> PixelRect \<Rightarrow> RoiAccumulator \<Rightarrow> RoiAccumulator" where
  "append_spatial_metadata_roi ops nd roi acc =
    (if length (image_inputs nd) \<noteq> 1 then acc
     else if cached_output_high_precision nd = None then acc
     else include_roi (spatial_projection ops nd roi) acc)"

definition dependency_lut_roi :: "RoiOperators \<Rightarrow> Node \<Rightarrow> ('d, 'p, 's, 'f) GraphModel \<Rightarrow> PixelRect \<Rightarrow> PixelSize \<Rightarrow> DependencyInputState
    \<Rightarrow> ParameterMap \<Rightarrow> lut_store \<Rightarrow> (DependencyRoiContribution option \<times> lut_store) res" where
  "dependency_lut_roi ops nd g roi downstream_size st params luts =
    (case dependency_builder ops (node_type nd) (node_subtype nd) of
       None \<Rightarrow> Inr (None, luts)
     | Some snapshot \<Rightarrow>
         if \<not> has_valid_dependency_input (dep_extents st) \<or> size_width downstream_size \<le> 0 \<or> size_height downstream_size \<le> 0
         then Inr (None, luts)
         else dependency_lookup nd g snapshot roi st downstream_size params luts)"

definition compute_upstream_projection :: "RoiOperators \<Rightarrow> Node \<Rightarrow> PixelRect \<Rightarrow> ('d, 'p, 's, 'f) GraphModel \<Rightarrow> size_cache \<times> lut_store
    \<Rightarrow> (UpstreamRoiProjection \<times> size_cache \<times> lut_store) res" where
  "compute_upstream_projection ops nd downstream_roi g = (\<lambda>(cache, luts).
    if is_rect_empty downstream_roi then Inr (no_projection, cache, luts)
    else res_bind (get_size g (node_id nd) cache) (\<lambda>(bounds, cache).
      let clamped = clamp_rect_to_bounds downstream_roi bounds
      in if is_rect_empty clamped then Inr (no_projection, cache, luts)
         else res_bind (get_size g (node_id nd) cache) (\<lambda>(output_extent, cache).
              res_bind (dependency_input_state g (node_id nd) cache) (\<lambda>(st, cache).
              res_bind (resolve_effective_parameter_snapshot nd g) (\<lambda>params.
              res_bind (dirty_propagator ops nd clamped output_extent (dep_extents st) params) (\<lambda>roi.
              let upstream = append_spatial_metadata_roi ops nd clamped (include_roi roi new_accumulator)
              in res_bind (dependency_lut_roi ops nd g clamped output_extent st params luts) (\<lambda>(dependency, luts).
                 Inr (case dependency of
                        Some d \<Rightarrow> if is_rect_empty (contribution_roi d)
                          then \<lparr>shared_roi = accumulator_value upstream, dependency_input_index = None, dependency_roi = empty_rect\<rparr>
                          else \<lparr>shared_roi = accumulator_value upstream, dependency_input_index = Some (contribution_input d),
                                dependency_roi = contribution_roi d\<rparr>
                      | None \<Rightarrow> \<lparr>shared_roi = accumulator_value upstream, dependency_input_index = None, dependency_roi = empty_rect\<rparr>,
                      cache, luts))))))))"

definition compute_upstream_roi :: "RoiOperators \<Rightarrow> Node \<Rightarrow> PixelRect \<Rightarrow> ('d, 'p, 's, 'f) GraphModel \<Rightarrow> size_cache \<times> lut_store
    \<Rightarrow> (PixelRect \<times> size_cache \<times> lut_store) res" where
  "compute_upstream_roi ops nd downstream_roi g st =
     res_bind (compute_upstream_projection ops nd downstream_roi g st) (\<lambda>(p, st). Inr (combined_roi p, st))"

section \<open>Projection forward\<close>

definition propagate_forward_edge_roi :: "RoiOperators \<Rightarrow> ('d, 'p, 's, 'f) GraphModel \<Rightarrow> GraphTopologyEdge \<Rightarrow> PixelRect \<Rightarrow> PixelSize \<Rightarrow> PixelSize
    \<Rightarrow> PixelSize list \<Rightarrow> ParameterMap \<Rightarrow> PixelRect option res" where
  "propagate_forward_edge_roi ops g edge parent_roi parent_size child_size extents params =
    res_bind (graph_node (to_node_id edge) g) (\<lambda>child.
    res_bind (forward_propagator ops child parent_roi parent_size child_size (input_index edge) extents params) (\<lambda>roi.
      let propagated = clamp_rect_to_bounds roi child_size
      in Inr (if is_rect_empty propagated then None else Some propagated)))"

definition forward_edge :: "RoiOperators \<Rightarrow> ('d, 'p, 's, 'f) GraphModel \<Rightarrow> PixelRect \<Rightarrow> PixelSize \<Rightarrow> GraphTopologyEdge \<Rightarrow> RoiFrontier \<times> size_cache
    \<Rightarrow> (RoiFrontier \<times> size_cache) res" where
  "forward_edge ops g current_roi parent_size edge = (\<lambda>(f, cache).
    if edge_kind edge \<noteq> ImageInputEdge then Inr (f, cache)
    else res_bind (get_size g (to_node_id edge) cache) (\<lambda>(child_size, cache).
      if size_width child_size \<le> 0 \<or> size_height child_size \<le> 0 then Inr (f, cache)
      else res_bind (graph_node (to_node_id edge) g) (\<lambda>child.
           res_bind (dependency_input_state g (to_node_id edge) cache) (\<lambda>(st, cache).
           res_bind (resolve_effective_parameter_snapshot child g) (\<lambda>params.
           res_bind (propagate_forward_edge_roi ops g edge current_roi parent_size child_size (dep_extents st) params) (\<lambda>propagated.
             Inr (case propagated of
                    None \<Rightarrow> (f, cache)
                  | Some roi \<Rightarrow> (snd (merge_or_enqueue (to_node_id edge) roi child_size f), cache))))))))"

text \<open>The loop runs on fuel; below it is shown how much is enough.\<close>

primrec forward_loop :: "nat \<Rightarrow> RoiOperators \<Rightarrow> ('d, 'p, 's, 'f) GraphModel \<Rightarrow> int \<Rightarrow> RoiFrontier \<times> size_cache \<Rightarrow> (RoiFrontier \<times> size_cache) res" where
  "forward_loop 0 ops g target st = Inl Fuel_Exhausted"
| "forward_loop (Suc fuel) ops g target st = (case st of (f, cache) \<Rightarrow>
    (case pending f of
       [] \<Rightarrow> Inr (f, cache)
     | current # rest \<Rightarrow>
         let f = f\<lparr>pending := rest\<rparr>
         in res_bind (get_size g current cache) (\<lambda>(size, cache).
            case clipped_roi f current size of
              None \<Rightarrow> forward_loop fuel ops g target (f, cache)
            | Some current_roi \<Rightarrow>
                if current = target then Inr (f, cache)
                else res_bind (get_size g current cache) (\<lambda>(parent_size, cache).
                     res_bind (res_fold (forward_edge ops g current_roi parent_size) (downstream_edges g current) (f, cache))
                       (forward_loop fuel ops g target)))))"

definition project_roi_forward :: "nat \<Rightarrow> RoiOperators \<Rightarrow> ('d, 'p, 's, 'f) GraphModel \<Rightarrow> int \<Rightarrow> PixelRect \<Rightarrow> int \<Rightarrow> PixelRect option res" where
  "project_roi_forward fuel ops g start start_roi target =
    (if \<not> has_node start g \<or> \<not> has_node target g then Inr None
     else if is_rect_empty start_roi then Inr None
     else res_bind (get_size g start Map.empty) (\<lambda>(size, cache).
       case seed start start_roi size new_frontier of (seeded, f) \<Rightarrow>
         if \<not> seeded then Inr None
         else res_bind (forward_loop fuel ops g target (f, cache)) (\<lambda>(f, cache).
              res_bind (get_size g target cache) (\<lambda>(size, _). Inr (clipped_roi f target size)))))"

section \<open>Projection backward\<close>

definition backward_edge :: "('d, 'p, 's, 'f) GraphModel \<Rightarrow> UpstreamRoiProjection \<Rightarrow> GraphTopologyEdge \<Rightarrow> RoiFrontier \<times> size_cache
    \<Rightarrow> (RoiFrontier \<times> size_cache) res" where
  "backward_edge g p edge = (\<lambda>(f, cache).
    if edge_kind edge \<noteq> ImageInputEdge \<or> from_node_id edge < 0 \<or> \<not> has_node (from_node_id edge) g then Inr (f, cache)
    else res_bind (get_size g (from_node_id edge) cache) (\<lambda>(extent, cache).
      Inr (snd (merge_or_enqueue (from_node_id edge) (bounded_roi_for_input p (input_index edge) extent) extent f), cache)))"

definition enqueue_backward_parent_rois :: "('d, 'p, 's, 'f) GraphModel \<Rightarrow> int \<Rightarrow> UpstreamRoiProjection \<Rightarrow> RoiFrontier \<times> size_cache
    \<Rightarrow> (RoiFrontier \<times> size_cache) res" where
  "enqueue_backward_parent_rois g current p st = res_fold (backward_edge g p) (upstream_edges g current) st"

primrec backward_loop :: "nat \<Rightarrow> RoiOperators \<Rightarrow> ('d, 'p, 's, 'f) GraphModel \<Rightarrow> int \<Rightarrow> RoiFrontier \<times> size_cache \<times> lut_store
    \<Rightarrow> (PixelRect option \<times> lut_store) res" where
  "backward_loop 0 ops g src st = Inl Fuel_Exhausted"
| "backward_loop (Suc fuel) ops g src st = (case st of (f, cache, luts) \<Rightarrow>
    (case pending f of
       [] \<Rightarrow> Inr (None, luts)
     | current # rest \<Rightarrow>
         let f = f\<lparr>pending := rest\<rparr>
         in res_bind (get_size g current cache) (\<lambda>(size, cache).
            case clipped_roi f current size of
              None \<Rightarrow> backward_loop fuel ops g src (f, cache, luts)
            | Some current_roi \<Rightarrow>
                if current = src then Inr (Some current_roi, luts)
                else res_bind (graph_node current g) (\<lambda>nd.
                     res_bind (compute_upstream_projection ops nd current_roi g (cache, luts)) (\<lambda>(p, cache, luts).
                     if is_rect_empty (shared_roi p) \<and> is_rect_empty (dependency_roi p) then backward_loop fuel ops g src (f, cache, luts)
                     else res_bind (enqueue_backward_parent_rois g current p (f, cache)) (\<lambda>(f, cache).
                          backward_loop fuel ops g src (f, cache, luts)))))))"

definition project_roi_backward :: "nat \<Rightarrow> RoiOperators \<Rightarrow> ('d, 'p, 's, 'f) GraphModel \<Rightarrow> int \<Rightarrow> PixelRect \<Rightarrow> int \<Rightarrow> lut_store
    \<Rightarrow> (PixelRect option \<times> lut_store) res" where
  "project_roi_backward fuel ops g target target_roi src luts =
    (if \<not> has_node target g \<or> \<not> has_node src g then Inr (None, luts)
     else if is_rect_empty target_roi then Inr (None, luts)
     else res_bind (get_size g target Map.empty) (\<lambda>(size, cache).
       case seed target target_roi size new_frontier of (seeded, f) \<Rightarrow>
         if \<not> seeded then Inr (None, luts) else backward_loop fuel ops g src (f, cache, luts)))"

section \<open>Rectangles inside an extent\<close>

definition inside :: "PixelSize \<Rightarrow> PixelRect \<Rightarrow> bool" where
  "inside s r \<longleftrightarrow> \<not> is_rect_empty r \<and> 0 \<le> rect_x r \<and> 0 \<le> rect_y r
     \<and> rect_x r + rect_width r \<le> size_width s \<and> rect_y r + rect_height r \<le> size_height s"

lemma clamp_inside: "\<not> is_rect_empty (clamp_rect_to_bounds r s) \<Longrightarrow> inside s (clamp_rect_to_bounds r s)"
  by (auto simp: clamp_rect_to_bounds_def inside_def Let_def clamp64_def is_rect_empty_def empty_rect_def split: if_splits)

lemma clamp_id: "inside s r \<Longrightarrow> clamp_rect_to_bounds r s = r"
  by (auto simp: clamp_rect_to_bounds_def inside_def clamp64_def is_rect_empty_def)

lemma inside_pixels: "inside s r \<Longrightarrow> pixels r \<subseteq> size_pixels s \<and> pixels r \<noteq> {}"
  by (auto simp: inside_def pixels_empty_iff) (auto simp: pixels_def size_pixels_def)

lemma clamp_pixels: "pixels (clamp_rect_to_bounds r s) = pixels r \<inter> size_pixels s"
  by (auto simp: clamp_rect_to_bounds_def Let_def clamp64_def geom_defs split: if_splits)

text \<open>Merging two rectangles of one extent gives their hull, in the extent, unless it is refused; it is larger unless it is the same.\<close>

lemma merge_inside:
  assumes "inside s a" "inside s b" "\<not> is_rect_empty (roi_merge_rect a b)"
  shows "inside s (roi_merge_rect a b)" "hull_of (pixels a \<union> pixels b) (roi_merge_rect a b)"
proof -
  let ?r = "roi_merge_rect a b"
  have r: "?r = \<lparr>rect_x = min (rect_x a) (rect_x b), rect_y = min (rect_y a) (rect_y b),
      rect_width = max (rect_x a + rect_width a) (rect_x b + rect_width b) - min (rect_x a) (rect_x b),
      rect_height = max (rect_y a + rect_height a) (rect_y b + rect_height b) - min (rect_y a) (rect_y b)\<rparr>"
    using assms by (auto simp: roi_merge_rect_def inside_def Let_def split: if_splits)
  show "inside s ?r" using assms unfolding r by (auto simp: inside_def)
  then show "hull_of (pixels a \<union> pixels b) ?r"
    using assms(1,2) pixels_subset_iff [of a] pixels_subset_iff [of b] pixels_subset_iff [of ?r] unfolding hull_of_def inside_def
    by (auto simp: r)
qed

definition reach_of :: "PixelRect \<Rightarrow> nat" where
  "reach_of r = nat (rect_width r) + nat (rect_height r)"

lemma merge_grows:
  assumes "inside s a" "inside s b" "\<not> is_rect_empty (roi_merge_rect a b)" "roi_merge_rect a b \<noteq> a"
  shows "reach_of a < reach_of (roi_merge_rect a b)"
proof -
  let ?r = "roi_merge_rect a b"
  have "pixels a \<subseteq> pixels ?r" using merge_inside(2) [OF assms(1-3)] by (simp add: hull_of_def)
  then have sub: "rect_x ?r \<le> rect_x a" "rect_y ?r \<le> rect_y a" "rect_x a + rect_width a \<le> rect_x ?r + rect_width ?r"
      "rect_y a + rect_height a \<le> rect_y ?r + rect_height ?r"
    using assms(1) pixels_subset_iff [of a ?r] by (simp_all add: inside_def)
  have "rect_width a < rect_width ?r \<or> rect_height a < rect_height ?r"
  proof (rule ccontr)
    assume "\<not> ?thesis"
    then have "rect_x ?r = rect_x a" "rect_y ?r = rect_y a" "rect_width ?r = rect_width a" "rect_height ?r = rect_height a" using sub by linarith+
    then have "?r = a" by simp
    with assms(4) show False by simp
  qed
  moreover have "0 < rect_width a" "0 < rect_height a" using assms(1) by (auto simp: inside_def is_rect_empty_def)
  ultimately show ?thesis using sub by (auto simp: reach_of_def)
qed

lemma reach_bound: "inside s r \<Longrightarrow> 2 \<le> reach_of r \<and> reach_of r \<le> nat (size_width s) + nat (size_height s)"
  by (auto simp: inside_def reach_of_def is_rect_empty_def)

section \<open>The frontier makes progress\<close>

definition frontier_ok :: "(int \<Rightarrow> PixelSize) \<Rightarrow> int set \<Rightarrow> RoiFrontier \<Rightarrow> bool" where
  "frontier_ok size_of ids f \<longleftrightarrow> set (pending f) \<subseteq> ids \<and> (\<forall>i r. roi_map f i = Some r \<longrightarrow> i \<in> ids \<and> inside (size_of i) r)"

definition room :: "(int \<Rightarrow> PixelSize) \<Rightarrow> RoiFrontier \<Rightarrow> int \<Rightarrow> nat" where
  "room size_of f i = nat (size_width (size_of i)) + nat (size_height (size_of i)) - (case roi_map f i of None \<Rightarrow> 0 | Some r \<Rightarrow> reach_of r)"

definition work :: "(int \<Rightarrow> PixelSize) \<Rightarrow> int set \<Rightarrow> RoiFrontier \<Rightarrow> nat" where
  "work size_of ids f = sum (room size_of f) ids + length (pending f)"

text \<open>
  What a projection loop may rely on: with an extent for each of finitely many nodes, merging a region into a node keeps all
  regions inside their extents and never raises the work that is left, and taking a node out of the queue lowers it.
\<close>

locale bounded_frontier =
  fixes size_of :: "int \<Rightarrow> PixelSize" and ids :: "int set"
  assumes finite_ids: "finite ids"
begin

lemma work_enqueue:
  assumes "i \<in> ids" "frontier_ok size_of ids f" "inside (size_of i) r" "\<And>old. roi_map f i = Some old \<Longrightarrow> reach_of old < reach_of r"
  defines "f' \<equiv> f\<lparr>roi_map := (roi_map f)(i \<mapsto> r), pending := pending f @ [i]\<rparr>"
  shows "frontier_ok size_of ids f'" "work size_of ids f' \<le> work size_of ids f"
proof -
  show "frontier_ok size_of ids f'" using assms(1-3) by (auto simp: frontier_ok_def f'_def)
  have "room size_of f' i < room size_of f i"
    using assms(3,4) reach_bound [OF assms(3)] by (cases "roi_map f i") (fastforce simp: room_def f'_def)+
  moreover have "sum (room size_of f') (ids - {i}) = sum (room size_of f) (ids - {i})" by (intro sum.cong) (auto simp: room_def f'_def)
  ultimately have "sum (room size_of f') ids < sum (room size_of f) ids" using finite_ids assms(1) by (simp add: sum.remove [of ids i])
  then show "work size_of ids f' \<le> work size_of ids f" by (simp add: work_def f'_def)
qed

lemma merge_or_enqueue_ok:
  assumes "i \<in> ids" "frontier_ok size_of ids f"
  shows "frontier_ok size_of ids (snd (merge_or_enqueue i roi (size_of i) f))" "work size_of ids (snd (merge_or_enqueue i roi (size_of i) f)) \<le> work size_of ids f"
proof -
  let ?c = "clamp_rect_to_bounds roi (size_of i)"
  have "frontier_ok size_of ids (snd (merge_or_enqueue i roi (size_of i) f)) \<and> work size_of ids (snd (merge_or_enqueue i roi (size_of i) f)) \<le> work size_of ids f"
  proof (cases "is_rect_empty ?c")
    case True
    then show ?thesis using assms by (simp add: merge_or_enqueue_def)
  next
    case False
    then have c: "inside (size_of i) ?c" by (rule clamp_inside)
    show ?thesis
    proof (cases "roi_map f i")
      case None
      then show ?thesis using False work_enqueue [OF assms c] by (simp add: merge_or_enqueue_def)
    next
      case (Some old)
      then have old: "inside (size_of i) old" using assms(2) by (simp add: frontier_ok_def)
      let ?m = "roi_merge_rect old ?c"
      have clamped: "clamp_rect_to_bounds ?m (size_of i) = (if is_rect_empty ?m then empty_rect else ?m)"
        using clamp_id [OF merge_inside(1) [OF old c]] by (simp add: clamp_rect_to_bounds_def)
      show ?thesis
      proof (cases "is_rect_empty ?m \<or> ?m = old")
        case True
        then show ?thesis using False Some assms(2) by (auto simp: merge_or_enqueue_def Let_def clamped)
      next
        case ne: False
        then have "reach_of old < reach_of ?m" using merge_grows [OF old c] by simp
        then show ?thesis
          using False Some ne clamped work_enqueue [OF assms merge_inside(1) [OF old c]] by (simp add: merge_or_enqueue_def)
      qed
    qed
  qed
  then show "frontier_ok size_of ids (snd (merge_or_enqueue i roi (size_of i) f))" "work size_of ids (snd (merge_or_enqueue i roi (size_of i) f)) \<le> work size_of ids f" by simp_all
qed

lemma pop_ok:
  assumes "frontier_ok size_of ids f" "pending f = i # rest"
  shows "i \<in> ids" "frontier_ok size_of ids (f\<lparr>pending := rest\<rparr>)" "work size_of ids (f\<lparr>pending := rest\<rparr>) < work size_of ids f"
  using assms by (auto simp: frontier_ok_def work_def room_def)

lemma clipped_ok:
  assumes "frontier_ok size_of ids f" "clipped_roi f i (size_of i) = Some r"
  shows "roi_map f i = Some r" "inside (size_of i) r" "i \<in> ids"
  using assms clamp_id by (auto simp: clipped_roi_def frontier_ok_def Let_def split: option.splits if_splits)

lemma seed_ok:
  assumes "i \<in> ids" "seed i roi (size_of i) new_frontier = (True, f)"
  shows "frontier_ok size_of ids f" "work size_of ids f \<le> (\<Sum>i\<in>ids. nat (size_width (size_of i)) + nat (size_height (size_of i)))"
proof -
  have "\<not> is_rect_empty (clamp_rect_to_bounds roi (size_of i))" and f: "f = new_frontier\<lparr>roi_map := (roi_map new_frontier)(i \<mapsto> clamp_rect_to_bounds roi (size_of i)),
      pending := pending new_frontier @ [i]\<rparr>"
    using assms(2) by (auto simp: seed_def Let_def split: if_splits)
  then have c: "inside (size_of i) (clamp_rect_to_bounds roi (size_of i))" by (simp add: clamp_inside)
  have new: "frontier_ok size_of ids new_frontier" "work size_of ids new_frontier = (\<Sum>i\<in>ids. nat (size_width (size_of i)) + nat (size_height (size_of i)))"
    by (simp_all add: frontier_ok_def new_frontier_def work_def room_def)
  from work_enqueue [OF assms(1) new(1) c] show "frontier_ok size_of ids f" "work size_of ids f \<le> (\<Sum>i\<in>ids. nat (size_width (size_of i)) + nat (size_height (size_of i)))"
    unfolding f new(2) [symmetric] by (simp_all add: new_frontier_def)
qed

end

text \<open>The frontier over the nodes of a graph, restricted to those a projection can reach.\<close>

definition node_extent :: "('d, 'p, 's, 'f) GraphModel \<Rightarrow> int \<Rightarrow> PixelSize" where
  "node_extent g i = (case get_size g i Map.empty of Inr (s, _) \<Rightarrow> s | Inl _ \<Rightarrow> empty_size)"

abbreviation frontier_in :: "('d, 'p, 's, 'f) GraphModel \<Rightarrow> int set \<Rightarrow> RoiFrontier \<Rightarrow> bool" where
  "frontier_in g A \<equiv> frontier_ok (node_extent g) (node_keys (nodes g) \<inter> A)"

abbreviation work_in :: "('d, 'p, 's, 'f) GraphModel \<Rightarrow> int set \<Rightarrow> RoiFrontier \<Rightarrow> nat" where
  "work_in g A \<equiv> work (node_extent g) (node_keys (nodes g) \<inter> A)"

interpretation roi: bounded_frontier "node_extent g" "node_keys (nodes g) \<inter> A" for g A
  by unfold_locales simp

section \<open>Calls that end\<close>

text \<open>
  A call ends when it does not run out of its bound; then it threw or its result satisfies the predicate. The bound is not an exception
  of the code, so a callback never gives it.
\<close>

definition ends :: "'a res \<Rightarrow> ('a \<Rightarrow> bool) \<Rightarrow> bool" where
  "ends m P \<longleftrightarrow> (case m of Inl e \<Rightarrow> e \<noteq> Fuel_Exhausted | Inr x \<Rightarrow> P x)"

lemma ends_simps [simp]: "ends (Inr x) P = P x" "ends (Inl e) P \<longleftrightarrow> e \<noteq> Fuel_Exhausted"
  by (simp_all add: ends_def)

lemma ends_bind: "ends m P \<Longrightarrow> (\<And>x. m = Inr x \<Longrightarrow> P x \<Longrightarrow> ends (f x) Q) \<Longrightarrow> ends (res_bind m f) Q"
  by (cases m) auto

lemma ends_mono: "ends m P \<Longrightarrow> (\<And>x. P x \<Longrightarrow> Q x) \<Longrightarrow> ends m Q"
  by (cases m) auto

lemma ends_fold: "P s \<Longrightarrow> (\<And>x s. x \<in> set xs \<Longrightarrow> P s \<Longrightarrow> ends (f x s) P) \<Longrightarrow> ends (res_fold f xs s) P"
proof (induction xs arbitrary: s)
  case (Cons x xs)
  then show ?case by (simp del: res_bind_simps) (rule ends_bind [of _ P], auto)
qed simp

definition callbacks_end :: "RoiOperators \<Rightarrow> bool" where
  "callbacks_end ops \<longleftrightarrow>
    (\<forall>nd roi s ss params. dirty_propagator ops nd roi s ss params \<noteq> Inl Fuel_Exhausted)
    \<and> (\<forall>nd roi s t i ss params. forward_propagator ops nd roi s t i ss params \<noteq> Inl Fuel_Exhausted)
    \<and> (\<forall>t u b. dependency_builder ops t u = Some b \<longrightarrow> (\<forall>nd ss s params. builder_callback b nd ss s params \<noteq> Inl Fuel_Exhausted))"

lemma ends_True: "ends m (\<lambda>_. True) \<longleftrightarrow> m \<noteq> Inl Fuel_Exhausted"
  by (cases m) auto

lemma get_size_present:
  assumes "graph_wf g" "extent_cache_ok g cache" "has_node i g"
  obtains cache' where "get_size g i cache = Inr (node_extent g i, cache')" "extent_cache_ok g cache'" "extent g i (node_extent g i)"
proof -
  obtain s cache' where s: "get_size g i cache = Inr (s, cache')" "extent_cache_ok g cache'" "extent g i s"
    using resolve_output_extent_correct [OF assms(1,3,2)] unfolding get_size_def by blast
  obtain t c where "get_size g i Map.empty = Inr (t, c)" "extent g i t"
    using resolve_output_extent_correct [OF assms(1,3), of Map.empty] unfolding get_size_def extent_cache_ok_def by auto
  then have "node_extent g i = s" using extent_unique s(3) by (simp add: node_extent_def)
  with s that show ?thesis by blast
qed

lemma get_size_absent:
  assumes "extent_cache_ok g cache" "\<not> has_node i g"
  shows "get_size g i cache = Inl (Graph_Error NotFound)"
proof -
  have "cache i = None"
  proof (cases "cache i")
    case (Some s)
    then have "extent g i s" using assms(1) by (simp add: extent_cache_ok_def)
    then show ?thesis using assms(2) by (cases rule: extent.cases) (auto simp: has_node_def)
  qed
  then show ?thesis using assms(2) by (simp add: get_size_def graph_node_def require_node_def has_node_def)
qed

lemma get_size_ends:
  assumes "graph_wf g" "extent_cache_ok g cache"
  shows "ends (get_size g i cache) (\<lambda>(s, c). has_node i g \<and> s = node_extent g i \<and> extent_cache_ok g c)"
proof (cases "has_node i g")
  case True
  obtain c where "get_size g i cache = Inr (node_extent g i, c)" "extent_cache_ok g c" using get_size_present [OF assms True] .
  with True show ?thesis by simp
next
  case False
  then show ?thesis using get_size_absent [OF assms(2) False] by simp
qed

lemma graph_node_ends: "ends (graph_node i g) (\<lambda>nd. map_of (nodes g) i = Some nd)"
  by (cases "map_of (nodes g) i") (simp_all add: graph_node_def require_node_def)

lemma effective_parameters_end: "ends (resolve_effective_parameter_snapshot nd g) (\<lambda>_. True)"
  unfolding resolve_effective_parameter_snapshot_def
  by (rule ends_fold) (auto simp: effective_step_def split: option.splits)

lemma dependency_input_state_ends:
  assumes "graph_wf g" "extent_cache_ok g cache"
  shows "ends (dependency_input_state g i cache) (\<lambda>(st, c). extent_cache_ok g c)"
  unfolding dependency_input_state_def
proof (rule ends_fold)
  fix edge and x :: "DependencyInputState \<times> size_cache"
  assume x: "case x of (st, c) \<Rightarrow> extent_cache_ok g c"
  obtain st c where "x = (st, c)" by (cases x)
  then show "ends (dependency_input g edge x) (\<lambda>(st, c). extent_cache_ok g c)"
    using x unfolding dependency_input_def
    by (auto simp: Let_def intro!: ends_bind [OF get_size_ends [OF assms(1)]] ends_bind [OF graph_node_ends])
qed (use assms in simp)

lemmas ends_steps = ends_bind [OF get_size_ends] ends_bind [OF graph_node_ends] ends_bind [OF effective_parameters_end]
  ends_bind [OF dependency_input_state_ends]

section \<open>The loops end\<close>

definition image_rel :: "('d, 'p, 's, 'f) GraphModel \<Rightarrow> (int \<times> int) set" where
  "image_rel g = {(from_node_id e, to_node_id e) | e. e \<in> set (index_edges (nodes g)) \<and> edge_kind e = ImageInputEdge}"

lemma image_edges_rel:
  assumes "graph_wf g" "edge_kind e = ImageInputEdge"
  shows "e \<in> set (downstream_edges g i) \<Longrightarrow> (i, to_node_id e) \<in> image_rel g"
    "e \<in> set (upstream_edges g i) \<Longrightarrow> (from_node_id e, i) \<in> image_rel g"
  using assms upstream_edges_target [OF assms(1), of e i] index_edges_upstream [OF assms(1), of e]
  by (auto simp: downstream_edges_wf image_rel_def)

lemma forward_edge_ends:
  assumes "graph_wf g" "callbacks_end ops" "edge \<in> set (downstream_edges g current)" "current \<in> A" "image_rel g `` A \<subseteq> A"
    "frontier_in g A f" "extent_cache_ok g cache" "work_in g A f \<le> w"
  shows "ends (forward_edge ops g roi parent_size edge (f, cache)) (\<lambda>(f, c). frontier_in g A f \<and> extent_cache_ok g c \<and> work_in g A f \<le> w)"
proof (cases "edge_kind edge = ImageInputEdge")
  case True
  let ?i = "to_node_id edge"
  have A: "?i \<in> A" using image_edges_rel(1) [OF assms(1) True assms(3)] assms(4,5) by auto
  have merged: "frontier_in g A (snd (merge_or_enqueue ?i r (node_extent g ?i) f)) \<and> work_in g A (snd (merge_or_enqueue ?i r (node_extent g ?i) f)) \<le> w"
    if "has_node ?i g" for r
    using that A assms(6,8) roi.merge_or_enqueue_ok [of ?i g A f r] by (auto simp: has_node_keys)
  have edge: "ends (propagate_forward_edge_roi ops g edge roi parent_size child_size ss params) (\<lambda>_. True)" for child_size ss params
    unfolding propagate_forward_edge_roi_def
    by (rule ends_bind [OF graph_node_ends], rule ends_bind [of _ "\<lambda>_. True"]) (use assms(2) in \<open>auto simp: ends_True callbacks_end_def Let_def\<close>)
  show ?thesis
    using True assms(6-8) merged unfolding forward_edge_def
    by (auto intro!: ends_steps assms(1) ends_bind [OF edge]
        split: option.splits)
qed (use assms in \<open>simp add: forward_edge_def\<close>)

lemma forward_loop_ends:
  assumes "graph_wf g" "callbacks_end ops" "image_rel g `` A \<subseteq> A"
  shows "frontier_in g A f \<Longrightarrow> extent_cache_ok g cache \<Longrightarrow> work_in g A f < fuel
    \<Longrightarrow> ends (forward_loop fuel ops g target (f, cache)) (\<lambda>(f, c). frontier_in g A f \<and> extent_cache_ok g c)"
proof (induction fuel arbitrary: f cache)
  case (Suc fuel)
  show ?case
  proof (cases "pending f")
    case Nil
    then show ?thesis using Suc.prems by simp
  next
    case (Cons current rest)
    let ?f = "f\<lparr>pending := rest\<rparr>"
    note pop = roi.pop_ok [OF Suc.prems(1) Cons]
    then have cur: "has_node current g" "current \<in> A" by (simp_all add: has_node_keys)
    have less: "work_in g A ?f < fuel" using pop(3) Suc.prems(3) by simp
    have body: "ends (res_bind (res_fold (forward_edge ops g r parent_size) (downstream_edges g current) (?f, c)) (forward_loop fuel ops g target))
        (\<lambda>(f, c). frontier_in g A f \<and> extent_cache_ok g c)" if "extent_cache_ok g c" for r parent_size c
    proof (rule ends_bind [OF ends_fold [where P = "\<lambda>(f, c). frontier_in g A f \<and> extent_cache_ok g c \<and> work_in g A f \<le> work_in g A ?f"]])
      show "case (?f, c) of (f, c) \<Rightarrow> frontier_in g A f \<and> extent_cache_ok g c \<and> work_in g A f \<le> work_in g A ?f"
        using pop that by simp
      fix edge and st :: "RoiFrontier \<times> size_cache"
      assume "edge \<in> set (downstream_edges g current)" "case st of (f, c) \<Rightarrow> frontier_in g A f \<and> extent_cache_ok g c \<and> work_in g A f \<le> work_in g A ?f"
      then show "ends (forward_edge ops g r parent_size edge st) (\<lambda>(f, c). frontier_in g A f \<and> extent_cache_ok g c \<and> work_in g A f \<le> work_in g A ?f)"
        using forward_edge_ends [OF assms(1,2) _ cur(2) assms(3), of edge] by (cases st) auto
    next
      fix st assume "case st of (f, c) \<Rightarrow> frontier_in g A f \<and> extent_cache_ok g c \<and> work_in g A f \<le> work_in g A ?f"
      then show "ends (forward_loop fuel ops g target st) (\<lambda>(f, c). frontier_in g A f \<and> extent_cache_ok g c)"
        using Suc.IH less by (cases st) auto
    qed
    show ?thesis
      using Suc.prems(2) Suc.IH [OF pop(2) _ less] pop(2) body unfolding forward_loop.simps Let_def
      by (auto simp: Cons intro!: ends_bind [OF get_size_ends [OF assms(1)]] split: option.splits)
  qed
qed simp

lemma dependency_lookup_ends:
  assumes "callbacks_end ops" "dependency_builder ops t u = Some snapshot"
  shows "ends (dependency_lookup nd g snapshot roi st child_size params luts) (\<lambda>_. True)"
proof -
  have "ends (builder_callback snapshot nd ss s ps) (\<lambda>_. True)" for ss s ps
    using assms by (auto simp: callbacks_end_def ends_True)
  moreover have "ends (validate_dependency_lut m ss s) (\<lambda>_. True)" for m ss s by (simp add: validate_dependency_lut_def)
  ultimately show ?thesis unfolding dependency_lookup_def Let_def
    by (auto intro!: ends_bind [of _ "\<lambda>_. True"] split: option.splits)
qed

lemma compute_upstream_projection_ends:
  assumes "graph_wf g" "callbacks_end ops" "extent_cache_ok g cache"
  shows "ends (compute_upstream_projection ops nd roi g (cache, luts)) (\<lambda>(p, c, l). extent_cache_ok g c)"
proof -
  have lut: "ends (dependency_lut_roi ops nd g r s st ps l) (\<lambda>_. True)" for r s st ps l
    using dependency_lookup_ends [OF assms(2)] by (auto simp: dependency_lut_roi_def split: option.splits)
  have dirty: "ends (dirty_propagator ops nd r s ss ps) (\<lambda>_. True)" for r s ss ps
    using assms(2) by (simp add: callbacks_end_def ends_True)
  show ?thesis unfolding compute_upstream_projection_def Let_def
    using assms(3) by (auto intro!: ends_steps assms(1) ends_bind [OF lut] ends_bind [OF dirty])
qed

lemma enqueue_parents_ends:
  assumes "graph_wf g" "current \<in> A" "(image_rel g)\<inverse> `` A \<subseteq> A" "frontier_in g A f" "extent_cache_ok g cache"
  shows "ends (enqueue_backward_parent_rois g current p (f, cache)) (\<lambda>(f', c). frontier_in g A f' \<and> extent_cache_ok g c \<and> work_in g A f' \<le> work_in g A f)"
  unfolding enqueue_backward_parent_rois_def
proof (rule ends_fold)
  fix edge and st :: "RoiFrontier \<times> size_cache"
  assume edge: "edge \<in> set (upstream_edges g current)"
    and st: "case st of (f', c) \<Rightarrow> frontier_in g A f' \<and> extent_cache_ok g c \<and> work_in g A f' \<le> work_in g A f"
  obtain f' c where f': "st = (f', c)" by (cases st)
  let ?i = "from_node_id edge"
  have A: "?i \<in> A" if "edge_kind edge = ImageInputEdge" using image_edges_rel(2) [OF assms(1) that edge] assms(2,3) by auto
  have "frontier_in g A (snd (merge_or_enqueue ?i r (node_extent g ?i) f')) \<and> work_in g A (snd (merge_or_enqueue ?i r (node_extent g ?i) f')) \<le> work_in g A f"
    if "has_node ?i g" "edge_kind edge = ImageInputEdge" for r
    using that A st f' roi.merge_or_enqueue_ok [of ?i g A f' r] by (auto simp: has_node_keys)
  then show "ends (backward_edge g p edge st) (\<lambda>(f', c). frontier_in g A f' \<and> extent_cache_ok g c \<and> work_in g A f' \<le> work_in g A f)"
    using st f' unfolding backward_edge_def by (auto intro!: ends_steps assms(1))
qed (use assms in simp)

lemma backward_loop_ends:
  assumes "graph_wf g" "callbacks_end ops" "(image_rel g)\<inverse> `` A \<subseteq> A"
  shows "frontier_in g A f \<Longrightarrow> extent_cache_ok g cache \<Longrightarrow> work_in g A f < fuel
    \<Longrightarrow> ends (backward_loop fuel ops g src (f, cache, luts)) (\<lambda>(r, l). \<forall>roi. r = Some roi \<longrightarrow> inside (node_extent g src) roi \<and> src \<in> A)"
proof (induction fuel arbitrary: f cache luts)
  case (Suc fuel)
  show ?case
  proof (cases "pending f")
    case Nil
    then show ?thesis using Suc.prems by simp
  next
    case (Cons current rest)
    let ?f = "f\<lparr>pending := rest\<rparr>"
    note pop = roi.pop_ok [OF Suc.prems(1) Cons]
    then have cur: "current \<in> A" by simp
    have IH: "ends (backward_loop fuel ops g src (f', c, l)) (\<lambda>(r, l). \<forall>roi. r = Some roi \<longrightarrow> inside (node_extent g src) roi \<and> src \<in> A)"
      if "frontier_in g A f'" "extent_cache_ok g c" "work_in g A f' \<le> work_in g A ?f" for f' c l
      using Suc.IH that pop(3) Suc.prems(3) by simp
    show ?thesis
      using Suc.prems(2) pop(2) cur unfolding backward_loop.simps Let_def
      by (auto simp: Cons intro!: ends_steps ends_bind [OF compute_upstream_projection_ends] ends_bind [OF enqueue_parents_ends [OF assms(1) _ assms(3)]] IH assms(1,2)
          dest: roi.clipped_ok(2)
          split: option.splits)
  qed
qed simp

lemma seed_work:
  assumes "has_node i g" "i \<in> A" "seed i roi (node_extent g i) new_frontier = (True, f)"
  shows "frontier_in g A f" "work_in g A f \<le> (\<Sum>i\<in>node_keys (nodes g). nat (size_width (node_extent g i)) + nat (size_height (node_extent g i)))"
proof -
  note ok = roi.seed_ok [OF _ assms(3), of A]
  show "frontier_in g A f" using ok(1) assms(1,2) by (simp add: has_node_keys)
  have "(\<Sum>i\<in>node_keys (nodes g) \<inter> A. nat (size_width (node_extent g i)) + nat (size_height (node_extent g i)))
      \<le> (\<Sum>i\<in>node_keys (nodes g). nat (size_width (node_extent g i)) + nat (size_height (node_extent g i)))"
    by (rule sum_mono2) auto
  then show "work_in g A f \<le> (\<Sum>i\<in>node_keys (nodes g). nat (size_width (node_extent g i)) + nat (size_height (node_extent g i)))"
    using ok(2) assms(1,2) by (simp add: has_node_keys)
qed

lemma extent_cache_empty [simp]: "extent_cache_ok g Map.empty"
  by (simp add: extent_cache_ok_def)

lemma project_roi_forward_ends:
  assumes "graph_wf g" "callbacks_end ops"
    "(\<Sum>i\<in>node_keys (nodes g). nat (size_width (node_extent g i)) + nat (size_height (node_extent g i))) < fuel"
  shows "ends (project_roi_forward fuel ops g start roi target)
    (\<lambda>r. \<forall>out. r = Some out \<longrightarrow> inside (node_extent g target) out \<and> (start, target) \<in> (image_rel g)\<^sup>*)"
proof -
  let ?A = "{n. (start, n) \<in> (image_rel g)\<^sup>*}"
  have closed: "image_rel g `` ?A \<subseteq> ?A" by (auto intro: rtrancl_into_rtrancl)
  have loop: "ends (forward_loop fuel ops g target (f, c)) (\<lambda>(f, c). frontier_in g ?A f \<and> extent_cache_ok g c)"
    if "has_node start g" "seed start roi (node_extent g start) new_frontier = (True, f)" "extent_cache_ok g c" for f c
    using forward_loop_ends [OF assms(1,2) closed] seed_work [OF that(1) _ that(2), of ?A] that(3) assms(3) by simp
  have out: "inside (node_extent g target) out \<and> (start, target) \<in> (image_rel g)\<^sup>*"
    if "frontier_in g ?A f" "clipped_roi f target (node_extent g target) = Some out" for f out
    using roi.clipped_ok(2,3) [OF that] by simp
  show ?thesis unfolding project_roi_forward_def
    using out by (auto intro!: ends_bind [OF get_size_ends [OF assms(1)]] ends_bind [OF loop] split: prod.splits)
qed

lemma project_roi_backward_ends:
  assumes "graph_wf g" "callbacks_end ops"
    "(\<Sum>i\<in>node_keys (nodes g). nat (size_width (node_extent g i)) + nat (size_height (node_extent g i))) < fuel"
  shows "ends (project_roi_backward fuel ops g target roi src luts)
    (\<lambda>(r, l). \<forall>out. r = Some out \<longrightarrow> inside (node_extent g src) out \<and> (src, target) \<in> (image_rel g)\<^sup>*)"
proof -
  let ?A = "{n. (n, target) \<in> (image_rel g)\<^sup>*}"
  have closed: "(image_rel g)\<inverse> `` ?A \<subseteq> ?A" by (auto intro: converse_rtrancl_into_rtrancl)
  have loop: "ends (backward_loop fuel ops g src (f, c, l)) (\<lambda>(r, l). \<forall>out. r = Some out \<longrightarrow> inside (node_extent g src) out \<and> src \<in> ?A)"
    if "has_node target g" "seed target roi (node_extent g target) new_frontier = (True, f)" "extent_cache_ok g c" for f c l
    using backward_loop_ends [OF assms(1,2) closed] seed_work [OF that(1) _ that(2), of ?A] that(3) assms(3) by simp
  show ?thesis unfolding project_roi_backward_def
    by (auto intro!: ends_bind [OF get_size_ends [OF assms(1)]] ends_mono [OF loop] split: prod.splits)
qed

section \<open>Cached tables\<close>

text \<open>
  A cached table was validated for the inputs recorded in its identity. The builder keeps its contract when a cached table whose identity
  equals that of a request is the one it would build for that request: the identity holds all it may depend on.
\<close>

definition entry_ok :: "DependencyLutCache \<Rightarrow> bool" where
  "entry_ok entry \<longleftrightarrow> validate_dependency_lut (lut entry) (input_extents (lut_identity entry)) (output_extent (lut entry)) = Inr ()"

definition lut_ok :: "lut_store \<Rightarrow> Node \<Rightarrow> bool" where
  "lut_ok luts nd \<longleftrightarrow> (\<forall>entry. fst (node_lut luts nd) = Some entry \<longrightarrow> entry_ok entry)"

definition builder_agrees :: "lut_store \<Rightarrow> Node \<Rightarrow> ('d, 'p, 's, 'f) GraphModel \<Rightarrow> DependencyBuilderSnapshot \<Rightarrow> DependencyInputState \<Rightarrow> PixelSize
    \<Rightarrow> ParameterMap \<Rightarrow> bool" where
  "builder_agrees luts nd g snapshot st child_size params \<longleftrightarrow>
    (\<forall>entry. fst (node_lut luts nd) = Some entry \<longrightarrow> lut_identity entry = lut_identity_of nd g snapshot st params
       \<longrightarrow> is_valid_for (lut entry) child_size \<longrightarrow> builder_callback snapshot nd (dep_extents st) child_size params = Inr (lut entry))"

lemma validate_dependency_lut_Inr:
  "validate_dependency_lut m extents child_size = Inr () \<longleftrightarrow> is_valid_for m child_size \<and> upstream_input_index m < length extents
     \<and> positive_size (extents ! upstream_input_index m)"
  by (auto simp: validate_dependency_lut_def positive_size_def)

lemma entry_reusable:
  assumes "entry_ok entry" "lut_identity entry = lut_identity_of nd g snapshot st params" "is_valid_for (lut entry) child_size"
  shows "validate_dependency_lut (lut entry) (dep_extents st) child_size = Inr ()"
  using assms by (auto simp: entry_ok_def validate_dependency_lut_Inr lut_identity_of_def)

lemma node_lut_update: "node_lut (luts(node_id nd \<mapsto> entry)) nd = entry"
  by (simp add: node_lut_def)

lemma dependency_lookup_store:
  assumes "lut_ok luts nd" "dependency_lookup nd g snapshot roi st child_size params luts = Inr (r, luts')"
  shows "lut_ok luts' nd \<and> (luts' = luts \<or> (snd (node_lut luts nd) \<noteq> u64_max \<and> snd (node_lut luts' nd) = snd (node_lut luts nd) + 1
    \<and> (\<forall>i. i \<noteq> node_id nd \<longrightarrow> luts' i = luts i)))"
proof (cases "luts' = luts")
  case False
  then obtain m where m: "builder_callback snapshot nd (dep_extents st) child_size params = Inr m"
      "validate_dependency_lut m (dep_extents st) child_size = Inr ()" "snd (node_lut luts nd) \<noteq> u64_max"
      "luts' = luts(node_id nd \<mapsto> (Some \<lparr>lut = m, lut_identity = lut_identity_of nd g snapshot st params\<rparr>, snd (node_lut luts nd) + 1))"
    using assms(2) by (auto simp: dependency_lookup_def Let_def res_bind_eq_Inr_iff split: if_splits option.splits)
  then have "output_extent m = child_size" by (simp add: validate_dependency_lut_Inr is_valid_for_def)
  with m(2) have "entry_ok \<lparr>lut = m, lut_identity = lut_identity_of nd g snapshot st params\<rparr>"
    by (simp add: entry_ok_def lut_identity_of_def)
  with m(3) show ?thesis unfolding m(4) by (simp add: lut_ok_def node_lut_update)
qed (use assms in simp)

lemma dependency_lookup_uncached:
  assumes "lut_ok luts nd" "builder_agrees luts nd g snapshot st child_size params" "snd (node_lut luts nd) \<noteq> u64_max"
  shows "map_sum id fst (dependency_lookup nd g snapshot roi st child_size params luts)
    = map_sum id fst (dependency_lookup nd g snapshot roi st child_size params (luts(node_id nd \<mapsto> (None, snd (node_lut luts nd)))))"
proof (cases "fst (node_lut luts nd)")
  case None
  then show ?thesis by (simp add: dependency_lookup_def Let_def node_lut_update res_bind_def split: sum.splits)
next
  case (Some entry)
  show ?thesis
  proof (cases "lut_identity entry = lut_identity_of nd g snapshot st params \<and> is_valid_for (lut entry) child_size")
    case True
    then have "builder_callback snapshot nd (dep_extents st) child_size params = Inr (lut entry)"
      "validate_dependency_lut (lut entry) (dep_extents st) child_size = Inr ()"
      using assms(1,2) Some entry_reusable by (auto simp: builder_agrees_def lut_ok_def)
    then show ?thesis using True Some assms(3) by (simp add: dependency_lookup_def Let_def node_lut_update)
  next
    case False
    then show ?thesis using Some by (auto simp: dependency_lookup_def Let_def node_lut_update res_bind_def split: sum.splits)
  qed
qed

section \<open>Properties\<close>

definition pixel_at :: "int \<Rightarrow> PixelRect" where
  "pixel_at x = \<lparr>rect_x = x, rect_y = 0, rect_width = 1, rect_height = 1\<rparr>"

definition demo_node :: "int \<Rightarrow> int list \<Rightarrow> Node" where
  "demo_node i sources = default_node\<lparr>node_id := i, image_inputs := map (\<lambda>d. \<lparr>img_from_node_id = d, img_from_output_name = []\<rparr>) sources,
     parameters := [''width'' \<mapsto> PV_Int 8, ''height'' \<mapsto> PV_Int 1]\<rparr>"

text \<open>Node 4 reads node 1 directly and through nodes 2 and 3; node 2 moves what it reads by four pixels.\<close>

definition demo_nodes :: NodeMap where
  "demo_nodes = [(1, demo_node 1 []), (2, demo_node 2 [1]), (3, demo_node 3 [2]), (4, demo_node 4 [1, 3])]"

definition demo_paths :: demo_graph where
  "demo_paths = demo_graph\<lparr>nodes := demo_nodes, topology := build_topology_index demo_nodes\<rparr>"

definition shift_at :: "int \<Rightarrow> Node \<Rightarrow> PixelRect \<Rightarrow> PixelRect" where
  "shift_at d nd r = (if node_id nd = 2 then r\<lparr>rect_x := rect_x r + d\<rparr> else r)"

definition demo_operators :: RoiOperators where
  "demo_operators = \<lparr>dirty_propagator = (\<lambda>nd roi s ss ps. Inr (shift_at (- 4) nd roi)),
     forward_propagator = (\<lambda>nd roi s t i ss ps. Inr (shift_at 4 nd roi)), dependency_builder = (\<lambda>t u. None), spatial_projection = (\<lambda>nd roi. roi)\<rparr>"

lemma demo_paths_wf: "graph_wf demo_paths"
proof -
  have "validate_node_map demo_nodes = Inr ()" by (simp add: validate_node_map_def demo_nodes_def demo_node_def default_node_def node_deps_def)
  then show ?thesis by (simp add: graph_wf_def demo_paths_def validate_node_map_Inr) (simp add: demo_nodes_def)
qed

lemma demo_work: "(\<Sum>i\<in>node_keys (nodes demo_paths). nat (size_width (node_extent demo_paths i)) + nat (size_height (node_extent demo_paths i))) = 36"
proof -
  have "node_keys (nodes demo_paths) = {1, 2, 3, 4}" by (simp add: node_keys_def demo_paths_def demo_nodes_def)
  moreover have "node_extent demo_paths i = \<lparr>size_width = 8, size_height = 1\<rparr>" if "i \<in> {1, 2, 3, 4}" for i
  proof -
    have "\<forall>i\<in>{1, 2, 3, 4}. node_extent demo_paths i = \<lparr>size_width = 8, size_height = 1\<rparr>" by code_simp
    then show ?thesis using that by blast
  qed
  ultimately show ?thesis by simp
qed

lemma demo_callbacks_end: "callbacks_end demo_operators"
  by (simp add: callbacks_end_def demo_operators_def)

text \<open>Evaluating the backward loop on the example; parameter maps have no executable equality, so this is by rewriting.\<close>

lemma demo_upstream:
  "upstream_edges demo_paths 1 = []"
  "upstream_edges demo_paths 2 = [\<lparr>from_node_id = 1, to_node_id = 2, edge_kind = ImageInputEdge, from_output_name = [], to_input_name = ''image'', input_index = 0\<rparr>]"
  "upstream_edges demo_paths 3 = [\<lparr>from_node_id = 2, to_node_id = 3, edge_kind = ImageInputEdge, from_output_name = [], to_input_name = ''image'', input_index = 0\<rparr>]"
  "upstream_edges demo_paths 4 = [\<lparr>from_node_id = 1, to_node_id = 4, edge_kind = ImageInputEdge, from_output_name = [], to_input_name = ''image'', input_index = 0\<rparr>,
     \<lparr>from_node_id = 3, to_node_id = 4, edge_kind = ImageInputEdge, from_output_name = [], to_input_name = ''image'', input_index = 1\<rparr>]"
  by code_simp+

lemma demo_nodes_at:
  "graph_node 1 demo_paths = Inr (demo_node 1 [])" "graph_node 2 demo_paths = Inr (demo_node 2 [1])"
  "graph_node 3 demo_paths = Inr (demo_node 3 [2])" "graph_node 4 demo_paths = Inr (demo_node 4 [1, 3])"
  "has_node 1 demo_paths" "has_node 2 demo_paths" "has_node 3 demo_paths" "has_node 4 demo_paths"
  by (simp_all add: graph_node_def require_node_def has_node_def demo_paths_def demo_nodes_def)

lemma demo_own_extent: "own_extent (demo_node i ds) = Some \<lparr>size_width = 8, size_height = 1\<rparr>"
  by (simp add: own_extent_def demo_node_def default_node_def as_int_flexible_def parameter_value_as_int_def int_min_def int_max_def)

lemma demo_get_size:
  assumes "i \<in> {1, 2, 3, 4}"
  shows "get_size demo_paths i cache = (case cache i of Some s \<Rightarrow> Inr (s, cache) | None \<Rightarrow> Inr (\<lparr>size_width = 8, size_height = 1\<rparr>, cache(i \<mapsto> \<lparr>size_width = 8, size_height = 1\<rparr>)))"
  using assms by (auto simp: get_size_def demo_nodes_at demo_own_extent split: option.split)

lemmas demo_loop = project_roi_backward_def backward_loop.simps eval_nat_numeral seed_def new_frontier_def clipped_roi_def merge_or_enqueue_def
  enqueue_backward_parent_rois_def backward_edge_def bounded_roi_for_input_def

lemmas demo_demand = compute_upstream_projection_def dependency_input_state_def dependency_input_def grow_def resolve_effective_parameter_snapshot_def
  dependency_lut_roi_def append_spatial_metadata_roi_def include_roi_def new_accumulator_def accumulator_value_def

lemmas demo_rects = clamp_rect_to_bounds_def clamp64_def is_rect_empty_def Let_def empty_rect_def roi_merge_rect_def pixel_at_def int_max_def int_min_def

lemmas demo_eval = demo_upstream demo_nodes_at demo_get_size demo_node_def default_node_def demo_operators_def shift_at_def

lemma demo_backward:
  "map_sum id fst (project_roi_backward 37 demo_operators demo_paths 2 (pixel_at 4) 1 Map.empty) = Inr (Some (pixel_at 0))"
  "map_sum id fst (project_roi_backward 37 demo_operators demo_paths 4 (pixel_at 4) 1 Map.empty) = Inr (Some (pixel_at 4))"
  "map_sum id fst (project_roi_backward 37 demo_operators demo_paths 4 (pixel_at 4) 2 Map.empty) = Inr (Some (pixel_at 4))"
  by (simp_all add: demo_loop demo_demand demo_rects demo_eval)

text \<open>
  C21. Projecting a region ends and stays in bounds. On every well-formed graph and with any propagators that return or throw, the forward and the
  backward projection take at most as many turns as the widths and heights of all extents add up to, plus one; they return, or throw
  what was thrown at them. A region that is returned is not empty, lies inside the extent of the node it is for, and that node is connected
  to the start by image edges in the right direction.
\<close>

theorem roi_projection_ends:
  assumes "graph_wf g" "callbacks_end ops"
    "(\<Sum>i\<in>node_keys (nodes g). nat (size_width (node_extent g i)) + nat (size_height (node_extent g i))) < fuel"
  shows "(case project_roi_forward fuel ops g a roi b of
       Inl e \<Rightarrow> e \<noteq> Fuel_Exhausted
     | Inr r \<Rightarrow> (case r of None \<Rightarrow> True | Some out \<Rightarrow> inside (node_extent g b) out \<and> (a, b) \<in> (image_rel g)\<^sup>*))
   \<and> (case project_roi_backward fuel ops g b roi a luts of
       Inl e \<Rightarrow> e \<noteq> Fuel_Exhausted
     | Inr (r, luts') \<Rightarrow> (case r of None \<Rightarrow> True | Some out \<Rightarrow> inside (node_extent g a) out \<and> (a, b) \<in> (image_rel g)\<^sup>*))"
  using project_roi_forward_ends [OF assms, of a roi b] project_roi_backward_ends [OF assms, of b roi a luts]
  by (auto simp: ends_def split: sum.splits option.splits)

theorem roi_projection_ends_witness:
  "graph_wf demo_paths \<and> project_roi_forward 37 demo_operators demo_paths 1 (pixel_at 0) 3 = Inr (Some (pixel_at 4))
   \<and> inside (node_extent demo_paths 3) (pixel_at 4) \<and> (1, 3) \<in> (image_rel demo_paths)\<^sup>*"
proof -
  have "project_roi_forward 37 demo_operators demo_paths 1 (pixel_at 0) 3 = Inr (Some (pixel_at 4))" by code_simp
  with demo_paths_wf roi_projection_ends [OF demo_paths_wf demo_callbacks_end, where fuel = 37 and a = 1 and b = 3 and roi = "pixel_at 0"] demo_work show ?thesis by simp
qed

text \<open>
  C40. A projection can miss a path. Both projections stop at the first visit of the node they are for, also when other regions for it are still on
  their way along longer paths. In a graph where node 4 reads node 1 directly and through nodes 2 and 3, the region of
  node 4 affected by pixel 0 of node 1 is reported as pixel 0, although following the longer path, with the same function, also gives
  pixel 4; backward, the demand of pixel 4 is reported without the pixel the longer path needs.
\<close>

theorem roi_projection_misses_path:
  "graph_wf demo_paths
   \<and> project_roi_forward 37 demo_operators demo_paths 1 (pixel_at 0) 4 = Inr (Some (pixel_at 0))
   \<and> project_roi_forward 37 demo_operators demo_paths 1 (pixel_at 0) 3 = Inr (Some (pixel_at 4))
   \<and> project_roi_forward 37 demo_operators demo_paths 3 (pixel_at 4) 4 = Inr (Some (pixel_at 4))
   \<and> map_sum id fst (project_roi_backward 37 demo_operators demo_paths 4 (pixel_at 4) 1 Map.empty) = Inr (Some (pixel_at 4))
   \<and> map_sum id fst (project_roi_backward 37 demo_operators demo_paths 4 (pixel_at 4) 2 Map.empty) = Inr (Some (pixel_at 4))
   \<and> map_sum id fst (project_roi_backward 37 demo_operators demo_paths 2 (pixel_at 4) 1 Map.empty) = Inr (Some (pixel_at 0))
   \<and> \<not> pixels (pixel_at 4) \<subseteq> pixels (pixel_at 0) \<and> \<not> pixels (pixel_at 0) \<subseteq> pixels (pixel_at 4)"
proof (intro conjI)
  show "graph_wf demo_paths" by (rule demo_paths_wf)
  show "project_roi_forward 37 demo_operators demo_paths 1 (pixel_at 0) 4 = Inr (Some (pixel_at 0))" by code_simp
  show "project_roi_forward 37 demo_operators demo_paths 1 (pixel_at 0) 3 = Inr (Some (pixel_at 4))" by code_simp
  show "project_roi_forward 37 demo_operators demo_paths 3 (pixel_at 4) 4 = Inr (Some (pixel_at 4))" by code_simp
  show "map_sum id fst (project_roi_backward 37 demo_operators demo_paths 4 (pixel_at 4) 1 Map.empty) = Inr (Some (pixel_at 4))" by (rule demo_backward)
  show "map_sum id fst (project_roi_backward 37 demo_operators demo_paths 4 (pixel_at 4) 2 Map.empty) = Inr (Some (pixel_at 4))" by (rule demo_backward)
  show "map_sum id fst (project_roi_backward 37 demo_operators demo_paths 2 (pixel_at 4) 1 Map.empty) = Inr (Some (pixel_at 0))" by (rule demo_backward)
qed (simp_all add: pixel_at_def pixels_def times_subset_iff)


definition demo_builder :: DependencyBuilderSnapshot where
  "demo_builder = \<lparr>builder_callback = (\<lambda>nd ss s ps. Inr demo_lut), builder_data_dependent = False, builder_revision = 1, builder_flag_revision = 1\<rparr>"

definition demo_inputs :: DependencyInputState where
  "demo_inputs = \<lparr>dep_extents = [\<lparr>size_width = 8, size_height = 8\<rparr>], dep_content_revisions = [1]\<rparr>"

definition demo_luts :: lut_store where
  "demo_luts = [2 \<mapsto> (Some \<lparr>lut = demo_lut, lut_identity = lut_identity_of (demo_node 2 [1]) demo_paths demo_builder demo_inputs Map.empty\<rparr>, 7)]"


end
