(* ===== verification/DirtySnapshot.thy ===== *)
theory DirtySnapshot
  imports GraphTraversal
begin

text \<open>
  Dirty-region snapshots: the data of \<open>src/lib/compute/dirty_region_snapshot.hpp\<close> and the
  operations of \<open>DirtyRegionSnapshotBuilder\<close> (\<open>dirty_region_snapshot_builder.cpp\<close>). The C++
  maps that are iterated are lists of their entries. The operation registry is a parameter:
  for a type and subtype, whether a monolithic and a tiled high-precision implementation
  are registered.
\<close>

section \<open>Data\<close>

datatype DirtyDomain = HighPrecision | RealTime

datatype DirtyTileLevel = Micro | Macro

datatype DirtyEdgeDirection = ForwardAffected | BackwardDemand

datatype DirtySourceLifecycleState = Idle | Updating | Settled

record DirtySourceRoiRecord =
  roi_node_id :: int
  roi_domain :: DirtyDomain
  source_roi :: PixelRect
  roi_generation :: u64

record DirtySourceNodeState =
  src_node_id :: int
  src_domain :: DirtyDomain
  lifecycle :: DirtySourceLifecycleState
  src_generation :: u64
  source_rois :: "PixelRect list"

record DirtyTileKey =
  tile_node_id :: int
  tile_domain :: DirtyDomain
  tile_level :: DirtyTileLevel
  tile_x :: int
  tile_y :: int
  tile_size :: int
  tile_pixel_roi :: PixelRect

record DirtyMonolithicRegion =
  mono_node_id :: int
  mono_domain :: DirtyDomain
  mono_pixel_roi :: PixelRect
  whole_output :: bool

record DirtyEdgeMapping =
  map_from_node_id :: int
  map_to_node_id :: int
  map_domain :: DirtyDomain
  from_roi :: PixelRect
  to_roi :: PixelRect
  direction :: DirtyEdgeDirection

record DirtyRegionSnapshot =
  graph_generation :: u64
  dirty_source_nodes :: "int list"
  dirty_source_state :: "(int \<times> DirtySourceNodeState) list"
  source_roi_records :: "(int \<times> DirtySourceRoiRecord list) list"
  dirty_updating_count :: nat
  dirty_tiles :: "DirtyTileKey list"
  dirty_monolithic_nodes :: "DirtyMonolithicRegion list"
  per_node_dirty_rois :: "(int \<times> PixelRect list) list"
  actual_dirty_rois :: "(int \<times> PixelRect list) list"
  edge_mappings :: "DirtyEdgeMapping list"

record DirtySourceLifecycleUpdate =
  upd_node_id :: int
  upd_domain :: DirtyDomain
  upd_lifecycle :: DirtySourceLifecycleState
  upd_source_roi :: "PixelRect option"

record OpImplementations =
  monolithic_hp :: bool
  tiled_hp :: bool

type_synonym op_registry = "string \<Rightarrow> string \<Rightarrow> OpImplementations option"

section \<open>Source lifecycle\<close>

definition list_at :: "('k \<times> 'v list) list \<Rightarrow> 'k \<Rightarrow> 'v list" where
  "list_at m k = (case map_of m k of None \<Rightarrow> [] | Some vs \<Rightarrow> vs)"

definition push_at :: "'k \<Rightarrow> 'v \<Rightarrow> ('k \<times> 'v list) list \<Rightarrow> ('k \<times> 'v list) list" where
  "push_at k v m = AList.update k (list_at m k @ [v]) m"

definition default_source_state :: DirtySourceNodeState where
  "default_source_state =
     \<lparr>src_node_id = - 1, src_domain = HighPrecision, lifecycle = Idle, src_generation = 0, source_rois = []\<rparr>"

definition apply_source_lifecycle_event ::
  "('d, 'p, 's, 'f) GraphModel \<Rightarrow> DirtySourceLifecycleUpdate \<Rightarrow> DirtyRegionSnapshot \<Rightarrow> DirtyRegionSnapshot res" where
  "apply_source_lifecycle_event g update snap =
     (if \<not> has_node (upd_node_id update) g then Inl (Graph_Error NotFound)
      else if (case upd_source_roi update of None \<Rightarrow> False | Some roi \<Rightarrow> is_rect_empty roi)
        then Inl (Graph_Error InvalidParameter)
      else
        let i = upd_node_id update;
            sources = (if i \<in> set (dirty_source_nodes snap) then dirty_source_nodes snap
                       else dirty_source_nodes snap @ [i]);
            old = (case map_of (dirty_source_state snap) i of None \<Rightarrow> default_source_state | Some st \<Rightarrow> st);
            st = old\<lparr>src_node_id := i, src_domain := upd_domain update, lifecycle := upd_lifecycle update,
                     src_generation := graph_generation snap,
                     source_rois := source_rois old
                       @ (case upd_source_roi update of None \<Rightarrow> [] | Some roi \<Rightarrow> [roi])\<rparr>;
            states = AList.update i st (dirty_source_state snap);
            records = (case upd_source_roi update of
                         None \<Rightarrow> source_roi_records snap
                       | Some roi \<Rightarrow>
                           push_at i \<lparr>roi_node_id = i, roi_domain = upd_domain update, source_roi = roi,
                                      roi_generation = graph_generation snap\<rparr> (source_roi_records snap))
        in Inr (snap\<lparr>dirty_source_nodes := sources, dirty_source_state := states,
                     source_roi_records := records,
                     dirty_updating_count := length (filter (\<lambda>(_, st). lifecycle st = Updating) states)\<rparr>))"

section \<open>Tiles\<close>

text \<open>
  The values a loop variable takes from \<open>lo\<close> in steps of \<open>step\<close> below \<open>hi\<close>. The C++ loop runs on
  64-bit values that are sums of 32-bit ones, so the addition does not wrap.
\<close>

function tile_steps :: "int \<Rightarrow> int \<Rightarrow> int \<Rightarrow> int list" where
  "tile_steps lo hi step = (if step \<le> 0 \<or> hi \<le> lo then [] else lo # tile_steps (lo + step) hi step)"
  by pat_completeness auto

termination tile_steps
  by (relation "measure (\<lambda>(lo, hi, step). nat (hi - lo))") auto

declare tile_steps.simps [simp del]

definition tile_size_for_domain :: "DirtyDomain \<Rightarrow> int" where
  "tile_size_for_domain domain = (if domain = HighPrecision then kHpMicroTileSize else kRtTileSize)"

definition make_tile :: "int \<Rightarrow> DirtyDomain \<Rightarrow> DirtyTileLevel \<Rightarrow> int \<Rightarrow> int \<Rightarrow> int \<Rightarrow> int \<Rightarrow> int \<Rightarrow> DirtyTileKey" where
  "make_tile i domain level size' right bottom x y =
     \<lparr>tile_node_id = i, tile_domain = domain, tile_level = level,
      tile_x = cdiv x size', tile_y = cdiv y size', tile_size = size',
      tile_pixel_roi = \<lparr>rect_x = x, rect_y = y, rect_width = min size' (sub64 right x),
                        rect_height = min size' (sub64 bottom y)\<rparr>\<rparr>"

definition enumerate_tiles ::
  "int \<Rightarrow> DirtyDomain \<Rightarrow> DirtyTileLevel \<Rightarrow> PixelRect \<Rightarrow> int \<Rightarrow> DirtyRegionSnapshot \<Rightarrow> DirtyRegionSnapshot" where
  "enumerate_tiles i domain level roi size' snap =
     (if is_rect_empty roi \<or> size' \<le> 0 then snap
      else let aligned = align_rect roi size';
               right = add64 (rect_x aligned) (rect_width aligned);
               bottom = add64 (rect_y aligned) (rect_height aligned)
           in snap\<lparr>dirty_tiles := dirty_tiles snap @
                concat (map (\<lambda>y. map (\<lambda>x. make_tile i domain level size' right bottom x y)
                                   (tile_steps (rect_x aligned) right size'))
                         (tile_steps (rect_y aligned) bottom size'))\<rparr>)"

definition is_monolithic_boundary :: "op_registry \<Rightarrow> Node \<Rightarrow> bool" where
  "is_monolithic_boundary registry nd =
     (case registry (node_type nd) (node_subtype nd) of
        None \<Rightarrow> False
      | Some impls \<Rightarrow> monolithic_hp impls \<and> \<not> tiled_hp impls)"

definition append_node_work ::
  "op_registry \<Rightarrow> Node \<Rightarrow> int \<Rightarrow> DirtyDomain \<Rightarrow> PixelRect \<Rightarrow> int \<Rightarrow> DirtyRegionSnapshot \<Rightarrow> DirtyRegionSnapshot" where
  "append_node_work registry nd i domain work_roi size' snap =
     (if is_rect_empty work_roi then snap
      else if is_monolithic_boundary registry nd
        then snap\<lparr>dirty_monolithic_nodes := dirty_monolithic_nodes snap
               @ [\<lparr>mono_node_id = i, mono_domain = domain, mono_pixel_roi = work_roi, whole_output = True\<rparr>]\<rparr>
      else enumerate_tiles i domain Micro work_roi size' snap)"

section \<open>Refresh\<close>

definition infer_hp_size ::
  "('d, 'p, 's, 'f) GraphModel \<Rightarrow> int \<Rightarrow> (int \<rightharpoonup> PixelSize) \<Rightarrow> (PixelSize \<times> (int \<rightharpoonup> PixelSize)) res" where
  "infer_hp_size g i cache = resolve_output_extent (Suc (length (nodes g))) g i cache"

text \<open>\<open>normalize_source_roi\<close> after the extent is known.\<close>

definition normalize_in_extent :: "DirtyDomain \<Rightarrow> PixelRect \<Rightarrow> PixelSize \<Rightarrow> PixelRect" where
  "normalize_in_extent domain roi hp_size =
     (let clipped = clip_rect roi hp_size in
      if is_rect_empty clipped then empty_rect
      else if domain = HighPrecision then clip_rect (align_rect clipped kHpMicroTileSize) hp_size
      else clip_rect (align_rect (scale_down_rect clipped kRtDownscaleFactor) kRtTileSize)
             (scale_down_size hp_size kRtDownscaleFactor))"

definition normalize_source_roi ::
  "('d, 'p, 's, 'f) GraphModel \<Rightarrow> int \<Rightarrow> DirtyDomain \<Rightarrow> PixelRect \<Rightarrow> (int \<rightharpoonup> PixelSize)
   \<Rightarrow> (PixelRect \<times> (int \<rightharpoonup> PixelSize)) res" where
  "normalize_source_roi g i domain roi cache =
     res_bind (infer_hp_size g i cache) (\<lambda>(hp_size, cache'). Inr (normalize_in_extent domain roi hp_size, cache'))"

type_synonym refresh_state = "DirtyRegionSnapshot \<times> (int \<rightharpoonup> PixelSize)"

definition refresh_record ::
  "op_registry \<Rightarrow> ('d, 'p, 's, 'f) GraphModel \<Rightarrow> DirtyDomain \<Rightarrow> int \<Rightarrow> Node \<Rightarrow> DirtySourceRoiRecord
   \<Rightarrow> refresh_state \<Rightarrow> refresh_state res" where
  "refresh_record registry g domain i nd rec = (\<lambda>(snap, cache).
     if roi_domain rec \<noteq> domain \<or> is_rect_empty (source_roi rec) then Inr (snap, cache)
     else res_bind (normalize_source_roi g i domain (source_roi rec) cache) (\<lambda>(domain_roi, cache').
       if is_rect_empty domain_roi then Inr (snap, cache')
       else Inr (append_node_work registry nd i domain domain_roi (tile_size_for_domain domain)
              (snap\<lparr>per_node_dirty_rois := push_at i domain_roi (per_node_dirty_rois snap),
                    actual_dirty_rois := push_at i domain_roi (actual_dirty_rois snap)\<rparr>), cache')))"

definition refresh_actual_dirty_regions ::
  "op_registry \<Rightarrow> ('d, 'p, 's, 'f) GraphModel \<Rightarrow> DirtyDomain \<Rightarrow> DirtyRegionSnapshot \<Rightarrow> DirtyRegionSnapshot res" where
  "refresh_actual_dirty_regions registry g domain snap =
     res_bind
       (res_fold
         (\<lambda>(i, records) st.
            case map_of (nodes g) i of
              None \<Rightarrow> Inr st
            | Some nd \<Rightarrow> res_fold (refresh_record registry g domain i nd) records st)
         (source_roi_records snap)
         (snap\<lparr>dirty_tiles := [], dirty_monolithic_nodes := [], per_node_dirty_rois := [],
               actual_dirty_rois := [], edge_mappings := []\<rparr>, Map.empty))
       (\<lambda>(snap', _). Inr snap')"

section \<open>Tiles partition the aligned region\<close>

lemma set_tile_steps:
  "0 < step \<Longrightarrow> t \<in> set (tile_steps lo hi step) \<longleftrightarrow> (\<exists>k \<ge> 0. t = lo + k * step) \<and> t < hi"
proof (induction lo hi step rule: tile_steps.induct)
  case (1 lo hi step)
  show ?case
  proof (cases "hi \<le> lo")
    case True
    then have "\<not> t < hi" if "0 \<le> k" "t = lo + k * step" for k
      using that 1(2) by (smt (verit) mult_nonneg_nonneg)
    with True show ?thesis by (auto simp: tile_steps.simps [of lo hi step])
  next
    case False
    have "(\<exists>k \<ge> 0. t = lo + k * step) \<longleftrightarrow> t = lo \<or> (\<exists>k \<ge> 0. t = lo + step + k * step)"
    proof
      assume "\<exists>k \<ge> 0. t = lo + k * step"
      then obtain k where k: "0 \<le> k" "t = lo + k * step" by blast
      show "t = lo \<or> (\<exists>k \<ge> 0. t = lo + step + k * step)"
      proof (cases "k = 0")
        case False
        with k show ?thesis by (intro disjI2 exI [of _ "k - 1"]) (simp add: algebra_simps)
      qed (use k in simp)
    next
      assume "t = lo \<or> (\<exists>k \<ge> 0. t = lo + step + k * step)"
      then show "\<exists>k \<ge> 0. t = lo + k * step"
      proof
        assume "\<exists>k \<ge> 0. t = lo + step + k * step"
        then obtain k where "0 \<le> k" "t = lo + step + k * step" by blast
        then show ?thesis by (intro exI [of _ "k + 1"]) (simp add: algebra_simps)
      qed (auto intro: exI [of _ 0])
    qed
    with False 1 show ?thesis by (auto simp: tile_steps.simps [of lo hi step])
  qed
qed

lemma tile_axis_bounds:
  assumes "0 < step" "t \<in> set (tile_steps lo hi step)" "t \<le> v" "v < t + min step (hi - t)"
  shows "lo \<le> v" "v < hi" "t = lo + (v - lo) div step * step"
proof -
  obtain k where k: "0 \<le> k" "t = lo + k * step"
    using assms(1,2) by (auto simp: set_tile_steps)
  then show "lo \<le> v" using assms(1,3) by (smt (verit) mult_nonneg_nonneg)
  show "v < hi" using assms(4) by simp
  have "(v - lo) div step = k"
    using k assms by (intro div_pos_geq [THEN trans] int_div_pos_eq [of _ _ _ "v - t"]) (auto simp: algebra_simps)
  with k show "t = lo + (v - lo) div step * step" by simp
qed

lemma tile_axis_exists:
  assumes "0 < step" "lo \<le> v" "v < hi"
  defines "t \<equiv> lo + (v - lo) div step * step"
  shows "t \<in> set (tile_steps lo hi step)" "t \<le> v" "v < t + min step (hi - t)"
proof -
  have b: "(v - lo) div step * step \<le> v - lo" "v - lo < (v - lo) div step * step + step"
    using floor_mult_bounds [OF assms(1)] by blast+
  have "0 \<le> (v - lo) div step" using assms(1,2) by (simp add: pos_imp_zdiv_nonneg_iff)
  then show "t \<in> set (tile_steps lo hi step)"
    using assms b by (auto simp: set_tile_steps)
  show "t \<le> v" "v < t + min step (hi - t)" using b assms(3) by (auto simp: t_def)
qed

lemma sub64_edge:
  assumes "edge_rect r" "t \<in> set (tile_steps (rect_x r) (rect_x r + rect_width r) step)" "0 < step"
  shows "sub64 (rect_x r + rect_width r) t = rect_x r + rect_width r - t"
proof -
  have "rect_x r \<le> t" "t < rect_x r + rect_width r"
    using assms(2,3) by (auto simp: set_tile_steps)
  with assms(1) show ?thesis by (intro sub64_mid) (auto simp: geom_defs i32_defs)
qed

lemma sub64_edge_y:
  assumes "edge_rect r" "t \<in> set (tile_steps (rect_y r) (rect_y r + rect_height r) step)" "0 < step"
  shows "sub64 (rect_y r + rect_height r) t = rect_y r + rect_height r - t"
proof -
  have "rect_y r \<le> t" "t < rect_y r + rect_height r"
    using assms(2,3) by (auto simp: set_tile_steps)
  with assms(1) show ?thesis by (intro sub64_mid) (auto simp: geom_defs i32_defs)
qed

text \<open>The tiles of a region: every pixel of the aligned region is in exactly one of them.\<close>

definition region_tiles :: "int \<Rightarrow> DirtyDomain \<Rightarrow> DirtyTileLevel \<Rightarrow> PixelRect \<Rightarrow> int \<Rightarrow> DirtyTileKey set" where
  "region_tiles i domain level r size' =
     (\<lambda>(x, y). make_tile i domain level size' (rect_x r + rect_width r) (rect_y r + rect_height r) x y)
       ` (set (tile_steps (rect_x r) (rect_x r + rect_width r) size')
          \<times> set (tile_steps (rect_y r) (rect_y r + rect_height r) size'))"

lemma enumerate_tiles_set:
  assumes "\<not> is_rect_empty roi" "0 < size'" "edge_rect roi"
  shows "set (dirty_tiles (enumerate_tiles i domain level roi size' snap))
    = set (dirty_tiles snap) \<union> region_tiles i domain level (align_rect roi size') size'"
proof -
  have "wf_rect (align_rect roi size')" using assms(3) by (intro edge_rect_wf edge_rect_ops_keep)
  note edges = wide_edges [OF this]
  show ?thesis
    using assms(1,2) by (force simp: enumerate_tiles_def Let_def edges region_tiles_def)
qed

lemma tile_pixels:
  assumes "edge_rect r" "0 < size'"
    "x \<in> set (tile_steps (rect_x r) (rect_x r + rect_width r) size')"
    "y \<in> set (tile_steps (rect_y r) (rect_y r + rect_height r) size')"
  shows "(px, py) \<in> pixels (tile_pixel_roi (make_tile i domain level size'
      (rect_x r + rect_width r) (rect_y r + rect_height r) x y))
    \<longleftrightarrow> x \<le> px \<and> px < x + min size' (rect_x r + rect_width r - x)
      \<and> y \<le> py \<and> py < y + min size' (rect_y r + rect_height r - y)"
  using assms by (auto simp: make_tile_def pixels_def sub64_edge sub64_edge_y)

lemma region_tiles_partition:
  assumes "edge_rect r" "0 < size'"
  shows "(\<exists>!t. t \<in> region_tiles i domain level r size' \<and> p \<in> pixels (tile_pixel_roi t)) \<longleftrightarrow> p \<in> pixels r"
    and "(\<exists>t \<in> region_tiles i domain level r size'. p \<in> pixels (tile_pixel_roi t)) \<longleftrightarrow> p \<in> pixels r"
proof -
  obtain px py where p: "p = (px, py)" by (cases p)
  let ?X = "rect_x r" and ?R = "rect_x r + rect_width r" and ?Y = "rect_y r" and ?B = "rect_y r + rect_height r"
  let ?tx = "?X + (px - ?X) div size' * size'" and ?ty = "?Y + (py - ?Y) div size' * size'"
  let ?t = "make_tile i domain level size' ?R ?B ?tx ?ty"
  have only: "t = ?t \<and> p \<in> pixels r" if t: "t \<in> region_tiles i domain level r size'" "p \<in> pixels (tile_pixel_roi t)" for t
  proof -
    obtain x y where xy: "t = make_tile i domain level size' ?R ?B x y"
      "x \<in> set (tile_steps ?X ?R size')" "y \<in> set (tile_steps ?Y ?B size')"
      using t(1) by (auto simp: region_tiles_def)
    then have inside: "x \<le> px" "px < x + min size' (?R - x)" "y \<le> py" "py < y + min size' (?B - y)"
      using t(2) tile_pixels [OF assms xy(2,3)] p by auto
    from tile_axis_bounds [OF assms(2) xy(2) inside(1,2)] tile_axis_bounds [OF assms(2) xy(3) inside(3,4)]
    show ?thesis by (auto simp: xy(1) p pixels_def)
  qed
  have mem: "?t \<in> region_tiles i domain level r size' \<and> p \<in> pixels (tile_pixel_roi ?t)" if "p \<in> pixels r"
  proof -
    have xs: "?tx \<in> set (tile_steps ?X ?R size')" "?tx \<le> px" "px < ?tx + min size' (?R - ?tx)"
      and ys: "?ty \<in> set (tile_steps ?Y ?B size')" "?ty \<le> py" "py < ?ty + min size' (?B - ?ty)"
      using tile_axis_exists [OF assms(2), of ?X px ?R] tile_axis_exists [OF assms(2), of ?Y py ?B] that
      by (auto simp: p pixels_def)
    then have "?t \<in> region_tiles i domain level r size'" by (auto simp: region_tiles_def)
    with tile_pixels [OF assms xs(1) ys(1)] xs ys show ?thesis by (simp add: p)
  qed
  show "(\<exists>!t. t \<in> region_tiles i domain level r size' \<and> p \<in> pixels (tile_pixel_roi t)) \<longleftrightarrow> p \<in> pixels r"
    using only mem by blast
  show "(\<exists>t \<in> region_tiles i domain level r size'. p \<in> pixels (tile_pixel_roi t)) \<longleftrightarrow> p \<in> pixels r"
    using only mem by blast
qed

section \<open>Normalisation loses no dirty pixel\<close>

text \<open>The point of the domain's image a source pixel falls on.\<close>

definition domain_point :: "DirtyDomain \<Rightarrow> int \<times> int \<Rightarrow> int \<times> int" where
  "domain_point domain p =
     (if domain = HighPrecision then p else (fst p div kRtDownscaleFactor, snd p div kRtDownscaleFactor))"

text \<open>
  Extents whose aligned edges stay 32-bit. Beyond it, \<open>align_rect\<close> yields the empty rectangle.
\<close>

definition alignable_size :: "PixelSize \<Rightarrow> bool" where
  "alignable_size s \<longleftrightarrow> wf_size s \<and> size_width s + kHpMicroTileSize - 1 \<le> int_max
     \<and> size_height s + kHpMicroTileSize - 1 \<le> int_max"

lemma align_rect_covers:
  assumes "edge_rect r" "nonneg_rect r" "1 < a" "in_i32 a"
    "rect_x r + rect_width r + a - 1 \<le> int_max" "rect_y r + rect_height r + a - 1 \<le> int_max"
  shows "pixels r \<subseteq> pixels (align_rect r a)"
proof (cases "is_rect_empty r")
  case True
  then show ?thesis using pixels_empty_iff [of r] by simp
next
  case False
  have "rect_x r div a * a \<le> rect_x r" "rect_y r div a * a \<le> rect_y r"
    using floor_mult_bounds(1) [of a] assms(3) by simp_all
  moreover have "rect_x r + rect_width r \<le> (rect_x r + rect_width r + a - 1) div a * a"
    "rect_y r + rect_height r \<le> (rect_y r + rect_height r + a - 1) div a * a"
    using ceil_div_le(1) [of a] assms(2,3) False by (simp_all add: nonneg_rect_def is_rect_empty_def)
  ultimately show ?thesis
    unfolding align_rect_pixels [OF assms(1,2) False assms(3-6)] by (auto simp: pixels_def)
qed

lemma clip_rect_bounds:
  assumes "wf_rect r" "wf_size b" "\<not> is_rect_empty (clip_rect r b)"
  shows "nonneg_rect (clip_rect r b)"
    "rect_x (clip_rect r b) + rect_width (clip_rect r b) \<le> size_width b"
    "rect_y (clip_rect r b) + rect_height (clip_rect r b) \<le> size_height b"
proof -
  let ?c = "clip_rect r b"
  have sub: "pixels ?c \<subseteq> size_pixels b" using clip_rect_pixels [OF assms(1,2)] by simp
  have "(rect_x ?c, rect_y ?c) \<in> pixels ?c"
    "(rect_x ?c + rect_width ?c - 1, rect_y ?c + rect_height ?c - 1) \<in> pixels ?c"
    using assms(3) by (auto simp: pixels_def is_rect_empty_def)
  with sub show "nonneg_rect ?c" "rect_x ?c + rect_width ?c \<le> size_width b"
    "rect_y ?c + rect_height ?c \<le> size_height b"
    by (auto simp: size_pixels_def nonneg_rect_def)
qed

lemma scale_down_size_pixels:
  assumes "wf_size s" "0 < size_width s" "0 < size_height s" "0 < f" "in_i32 f"
  shows "wf_size (scale_down_size s f)"
    "(\<lambda>(px, py). (px div f, py div f)) ` size_pixels s = size_pixels (scale_down_size s f)"
proof -
  have eq: "scale_down_size s f
      = \<lparr>size_width = (size_width s + f - 1) div f, size_height = (size_height s + f - 1) div f\<rparr>"
    using assms by (simp add: scale_down_size_def wf_size_def wide_simps)
  have "(size_width s + f - 1) div f \<le> size_width s" "(size_height s + f - 1) div f \<le> size_height s"
    "0 \<le> (size_width s + f - 1) div f" "0 \<le> (size_height s + f - 1) div f"
    using ceil_div_le [OF assms(4)] assms(2,3) by simp_all
  then show "wf_size (scale_down_size s f)"
    using assms(1) by (auto simp: eq wf_size_def i32_defs)
  show "(\<lambda>(px, py). (px div f, py div f)) ` size_pixels s = size_pixels (scale_down_size s f)"
    using floor_image_rect [OF assms(4), of 0 "size_width s" 0 "size_height s"] assms(2,3)
    by (simp add: size_pixels_def eq)
qed

lemma normalize_hp:
  assumes "wf_rect roi" "alignable_size s"
  shows "pixels roi \<inter> size_pixels s \<subseteq> pixels (normalize_in_extent HighPrecision roi s)"
    "pixels (normalize_in_extent HighPrecision roi s) \<subseteq> size_pixels s"
proof -
  let ?c = "clip_rect roi s"
  have wf: "wf_size s" using assms(2) by (simp add: alignable_size_def)
  note c = clip_rect_pixels [OF assms(1) wf]
  have e: "wf_rect (align_rect ?c kHpMicroTileSize)" by (intro edge_rect_wf edge_rect_ops_keep edge_rect_ops)
  show "pixels (normalize_in_extent HighPrecision roi s) \<subseteq> size_pixels s"
    using clip_rect_pixels [OF e wf] by (simp add: normalize_in_extent_def Let_def)
  show "pixels roi \<inter> size_pixels s \<subseteq> pixels (normalize_in_extent HighPrecision roi s)"
  proof (cases "is_rect_empty ?c")
    case True
    with c pixels_empty_iff [of ?c] show ?thesis by simp
  next
    case False
    note b = clip_rect_bounds [OF assms(1) wf False]
    have "pixels ?c \<subseteq> pixels (align_rect ?c kHpMicroTileSize)"
      using b assms(2) by (intro align_rect_covers edge_rect_ops)
        (auto simp: alignable_size_def kHpMicroTileSize_def i32_defs)
    with c clip_rect_pixels [OF e wf] False show ?thesis
      by (auto simp: normalize_in_extent_def Let_def)
  qed
qed

lemma normalize_rt:
  assumes "wf_rect roi" "alignable_size s"
  shows "domain_point RealTime ` (pixels roi \<inter> size_pixels s) \<subseteq> pixels (normalize_in_extent RealTime roi s)"
    "pixels (normalize_in_extent RealTime roi s) \<subseteq> size_pixels (scale_down_size s kRtDownscaleFactor)"
proof -
  let ?c = "clip_rect roi s" and ?f = "kRtDownscaleFactor"
  let ?d = "scale_down_rect ?c ?f" and ?b = "scale_down_size s ?f"
  have wf: "wf_size s" and f: "0 < ?f" "in_i32 ?f" "?f = 4"
    using assms(2) by (simp_all add: alignable_size_def kRtDownscaleFactor_def i32_defs)
  note c = clip_rect_pixels [OF assms(1) wf]
  have e: "wf_rect (align_rect ?d kRtTileSize)" by (intro edge_rect_wf edge_rect_ops_keep edge_rect_ops)
  have pos: "0 < size_width s" "0 < size_height s" if "\<not> is_rect_empty ?c"
    using that c pixels_empty_iff [of ?c] by (auto simp: size_pixels_def)
  show "pixels (normalize_in_extent RealTime roi s) \<subseteq> size_pixels ?b"
    using clip_rect_pixels [OF e] scale_down_size_pixels(1) [OF wf pos f(1,2)]
    by (auto simp: normalize_in_extent_def Let_def split: if_splits)
  show "domain_point RealTime ` (pixels roi \<inter> size_pixels s) \<subseteq> pixels (normalize_in_extent RealTime roi s)"
  proof (cases "is_rect_empty ?c")
    case True
    with c pixels_empty_iff [of ?c] show ?thesis by simp
  next
    case False
    note b = clip_rect_bounds [OF assms(1) wf False]
    note sd = scale_down_rect_fields [OF edge_rect_ops(1) b(1) f(1,2) False]
    have "(rect_x ?c + rect_width ?c + ?f - 1) div ?f \<le> size_width s"
      "(rect_y ?c + rect_height ?c + ?f - 1) div ?f \<le> size_height s"
      "0 \<le> rect_x ?c div ?f" "0 \<le> rect_y ?c div ?f"
      using ceil_div_le(3) [OF f(1), of "rect_x ?c + rect_width ?c"]
        ceil_div_le(3) [OF f(1), of "rect_y ?c + rect_height ?c"] b False f(1)
      by (auto simp: nonneg_rect_def is_rect_empty_def pos_imp_zdiv_nonneg_iff)
    then have cover: "pixels ?d \<subseteq> pixels (align_rect ?d kRtTileSize)"
      using assms(2) by (intro align_rect_covers edge_rect_ops)
        (auto simp: sd nonneg_rect_def alignable_size_def kRtTileSize_def kHpMicroTileSize_def i32_defs)
    have d: "pixels ?d = (\<lambda>(px, py). (px div ?f, py div ?f)) ` pixels ?c"
      by (rule scale_down_rect_pixels [OF edge_rect_ops(1) b(1) f(1,2)])
    have "domain_point RealTime ` (pixels roi \<inter> size_pixels s) = pixels ?d"
      unfolding d c by (rule image_cong) (auto simp: domain_point_def)
    moreover have "pixels ?d \<subseteq> size_pixels ?b"
      using scale_down_size_pixels(2) [OF wf pos [OF False] f(1,2)] c d by auto
    ultimately show ?thesis
      using cover clip_rect_pixels [OF e scale_down_size_pixels(1) [OF wf pos [OF False] f(1,2)]] False
      by (auto simp: normalize_in_extent_def Let_def)
  qed
qed

lemma normalize_in_extent_covers:
  assumes "wf_rect roi" "alignable_size s"
  shows "domain_point domain ` (pixels roi \<inter> size_pixels s) \<subseteq> pixels (normalize_in_extent domain roi s)"
proof (cases domain)
  case HighPrecision
  with normalize_hp(1) [OF assms] show ?thesis by (auto simp: domain_point_def)
next
  case RealTime
  with normalize_rt(1) [OF assms] show ?thesis by simp
qed

lemma normalize_in_extent_edges: "edge_rect (normalize_in_extent domain roi s)"
  by (auto simp: normalize_in_extent_def Let_def intro: edge_rect_ops)

lemma normalize_in_extent_nonneg:
  assumes "\<not> is_rect_empty (normalize_in_extent domain roi s)" "wf_rect roi" "alignable_size s"
  shows "nonneg_rect (normalize_in_extent domain roi s)"
proof -
  let ?n = "normalize_in_extent domain roi s"
  have "pixels ?n \<subseteq> {(px, py). 0 \<le> px \<and> 0 \<le> py}"
    using normalize_hp(2) [OF assms(2,3)] normalize_rt(2) [OF assms(2,3)]
    by (cases domain) (auto simp: size_pixels_def)
  moreover have "(rect_x ?n, rect_y ?n) \<in> pixels ?n"
    using assms(1) by (auto simp: pixels_def is_rect_empty_def)
  ultimately show ?thesis by (auto simp: nonneg_rect_def)
qed

lemma scale_down_size_le:
  assumes "wf_size s" "0 < size_width s" "0 < size_height s"
  shows "size_width (scale_down_size s kRtDownscaleFactor) \<le> size_width s"
    "size_height (scale_down_size s kRtDownscaleFactor) \<le> size_height s"
proof -
  have f: "0 < kRtDownscaleFactor" "in_i32 kRtDownscaleFactor"
    by (simp_all add: kRtDownscaleFactor_def i32_defs)
  with assms show "size_width (scale_down_size s kRtDownscaleFactor) \<le> size_width s"
    "size_height (scale_down_size s kRtDownscaleFactor) \<le> size_height s"
    using ceil_div_le(3) [OF f(1)] by (simp_all add: scale_down_size_def wf_size_def wide_simps)
qed

lemma normalize_in_extent_aligned:
  assumes "\<not> is_rect_empty (normalize_in_extent domain roi s)" "wf_rect roi" "alignable_size s"
  shows "pixels (normalize_in_extent domain roi s)
    \<subseteq> pixels (align_rect (normalize_in_extent domain roi s) (tile_size_for_domain domain))"
proof -
  let ?n = "normalize_in_extent domain roi s"
  have pos: "0 < size_width s" "0 < size_height s"
    using assms(1) by (auto simp: normalize_in_extent_def clip_rect_def Let_def split: if_splits)
  have sub: "size_pixels (scale_down_size s kRtDownscaleFactor) \<subseteq> size_pixels s"
    using scale_down_size_le [OF _ pos] assms(3) by (auto simp: alignable_size_def size_pixels_def)
  have "pixels ?n \<subseteq> size_pixels s"
    using normalize_hp(2) [OF assms(2,3)] normalize_rt(2) [OF assms(2,3)] sub by (cases domain) auto
  moreover have "(rect_x ?n + rect_width ?n - 1, rect_y ?n + rect_height ?n - 1) \<in> pixels ?n"
    using assms(1) by (auto simp: pixels_def is_rect_empty_def)
  ultimately have "rect_x ?n + rect_width ?n \<le> size_width s" "rect_y ?n + rect_height ?n \<le> size_height s"
    by (auto simp: size_pixels_def)
  then show ?thesis
    using assms(3) normalize_in_extent_nonneg [OF assms]
    by (intro align_rect_covers normalize_in_extent_edges)
      (auto simp: alignable_size_def tile_size_for_domain_def kHpMicroTileSize_def kRtTileSize_def i32_defs)
qed

section \<open>Refresh covers every dirty pixel\<close>

definition dirty_covers ::
  "op_registry \<Rightarrow> Node \<Rightarrow> int \<Rightarrow> DirtyDomain \<Rightarrow> DirtyRegionSnapshot \<Rightarrow> int \<times> int \<Rightarrow> bool" where
  "dirty_covers registry nd i domain snap p =
     (if is_monolithic_boundary registry nd
      then \<exists>m \<in> set (dirty_monolithic_nodes snap).
             mono_node_id m = i \<and> mono_domain m = domain \<and> p \<in> pixels (mono_pixel_roi m)
      else \<exists>t \<in> set (dirty_tiles snap).
             tile_node_id t = i \<and> tile_domain t = domain \<and> p \<in> pixels (tile_pixel_roi t))"

definition snap_le :: "DirtyRegionSnapshot \<Rightarrow> DirtyRegionSnapshot \<Rightarrow> bool" where
  "snap_le a b \<longleftrightarrow> set (dirty_tiles a) \<subseteq> set (dirty_tiles b)
     \<and> set (dirty_monolithic_nodes a) \<subseteq> set (dirty_monolithic_nodes b)"

lemma dirty_covers_mono: "dirty_covers registry nd i domain a p \<Longrightarrow> snap_le a b \<Longrightarrow> dirty_covers registry nd i domain b p"
  by (auto simp: dirty_covers_def snap_le_def split: if_splits)

lemma region_tiles_fields:
  "t \<in> region_tiles i domain level r size' \<Longrightarrow> tile_node_id t = i \<and> tile_domain t = domain"
  by (auto simp: region_tiles_def make_tile_def)

lemma append_node_work_le: "snap_le snap (append_node_work registry nd i domain roi size' snap)"
  by (auto simp: snap_le_def append_node_work_def enumerate_tiles_def Let_def)

lemma append_node_work_covers:
  assumes "edge_rect roi" "0 < size'" "p \<in> pixels roi" "pixels roi \<subseteq> pixels (align_rect roi size')"
  shows "dirty_covers registry nd i domain (append_node_work registry nd i domain roi size' snap) p"
proof -
  have ne: "\<not> is_rect_empty roi" using assms(3) pixels_empty_iff [of roi] by auto
  show ?thesis
  proof (cases "is_monolithic_boundary registry nd")
    case True
    with ne assms(3) show ?thesis by (simp add: dirty_covers_def append_node_work_def)
  next
    case False
    have "p \<in> pixels (align_rect roi size')" using assms(3,4) by blast
    then obtain t where "t \<in> region_tiles i domain Micro (align_rect roi size') size'"
      "p \<in> pixels (tile_pixel_roi t)"
      using region_tiles_partition(2) [OF edge_rect_ops_keep(2) [OF assms(1)] assms(2)] by blast
    with False ne show ?thesis
      using enumerate_tiles_set [OF ne assms(2,1)] region_tiles_fields
      by (fastforce simp: dirty_covers_def append_node_work_def)
  qed
qed

definition record_covered ::
  "op_registry \<Rightarrow> ('d, 'p, 's, 'f) GraphModel \<Rightarrow> DirtyDomain \<Rightarrow> int \<Rightarrow> Node \<Rightarrow> DirtySourceRoiRecord \<Rightarrow> DirtyRegionSnapshot \<Rightarrow> bool" where
  "record_covered registry g domain i nd rec snap \<longleftrightarrow>
     (\<forall>s p. roi_domain rec = domain \<and> wf_rect (source_roi rec) \<and> extent g i s \<and> alignable_size s
        \<and> p \<in> pixels (source_roi rec) \<inter> size_pixels s
        \<longrightarrow> dirty_covers registry nd i domain snap (domain_point domain p))"

lemma record_covered_mono:
  "record_covered registry g domain i nd rec a \<Longrightarrow> snap_le a b \<Longrightarrow> record_covered registry g domain i nd rec b"
  unfolding record_covered_def using dirty_covers_mono by blast

lemma snap_le_refl [simp]: "snap_le a a"
  by (simp add: snap_le_def)

lemma snap_le_trans: "snap_le a b \<Longrightarrow> snap_le b c \<Longrightarrow> snap_le a c"
  by (auto simp: snap_le_def)

lemma refresh_record_step:
  assumes "graph_wf g" "has_node i g" "extent_cache_ok g cache"
  shows "\<exists>snap' cache'. refresh_record registry g domain i nd rec (snap, cache) = Inr (snap', cache')
    \<and> extent_cache_ok g cache' \<and> record_covered registry g domain i nd rec snap' \<and> snap_le snap snap'"
proof (cases "roi_domain rec \<noteq> domain \<or> is_rect_empty (source_roi rec)")
  case True
  then have "record_covered registry g domain i nd rec snap"
    using pixels_empty_iff [of "source_roi rec"] by (auto simp: record_covered_def)
  with True assms(3) show ?thesis by (auto simp: refresh_record_def)
next
  case False
  have "{a. (a, i) \<in> (edge_rel g)\<^sup>+} \<subseteq> node_keys (nodes g)"
    using edge_rel_has_node(1) [OF assms(1)] by (auto simp: has_node_keys dest: tranclD)
  then have "card {a. (a, i) \<in> (edge_rel g)\<^sup>+} < Suc (length (nodes g))"
    using card_mono [OF finite_node_keys] card_keys_bound [of g] by (meson le_less_trans)
  from resolve_output_extent_spec [OF assms this] obtain s cache' where
    s: "infer_hp_size g i cache = Inr (s, cache')" "extent g i s" "extent_cache_ok g cache'"
    by (auto simp: infer_hp_size_def)
  let ?n = "normalize_in_extent domain (source_roi rec) s"
  let ?snap = "snap\<lparr>per_node_dirty_rois := push_at i ?n (per_node_dirty_rois snap),
                    actual_dirty_rois := push_at i ?n (actual_dirty_rois snap)\<rparr>"
  let ?snap' = "append_node_work registry nd i domain ?n (tile_size_for_domain domain) ?snap"
  have r: "refresh_record registry g domain i nd rec (snap, cache)
      = Inr (if is_rect_empty ?n then (snap, cache') else (?snap', cache'))"
    using False s(1) by (simp add: refresh_record_def normalize_source_roi_def)
  have covered: "dirty_covers registry nd i domain ?snap' (domain_point domain p) \<and> \<not> is_rect_empty ?n"
    if "wf_rect (source_roi rec)" "extent g i t" "alignable_size t" "p \<in> pixels (source_roi rec) \<inter> size_pixels t" for t p
  proof -
    have t: "t = s" using extent_unique s(2) that(2) by blast
    have q: "domain_point domain p \<in> pixels ?n"
      using normalize_in_extent_covers [OF that(1,3), of domain] that(4) t by blast
    then have ne: "\<not> is_rect_empty ?n" using pixels_empty_iff [of ?n] by auto
    moreover have "0 < tile_size_for_domain domain"
      by (simp add: tile_size_for_domain_def kHpMicroTileSize_def kRtTileSize_def)
    ultimately show ?thesis
      using append_node_work_covers [OF normalize_in_extent_edges _ q] normalize_in_extent_aligned that(1,3) t
      by blast
  qed
  have le: "snap_le snap ?snap'" using append_node_work_le [of ?snap] by (simp add: snap_le_def)
  show ?thesis
  proof (cases "is_rect_empty ?n")
    case True
    then have "record_covered registry g domain i nd rec snap"
      using covered unfolding record_covered_def by blast
    with r True s(3) show ?thesis by auto
  next
    case ne: False
    have "record_covered registry g domain i nd rec ?snap'"
      using covered unfolding record_covered_def by blast
    with r ne s(3) le show ?thesis by auto
  qed
qed

lemma refresh_covers:
  assumes "graph_wf g"
  shows "\<exists>snap'. refresh_actual_dirty_regions registry g domain snap = Inr snap'
    \<and> (\<forall>(i, records) \<in> set (source_roi_records snap). \<forall>nd. map_of (nodes g) i = Some nd \<longrightarrow>
         (\<forall>rec \<in> set records. record_covered registry g domain i nd rec snap'))"
proof -
  let ?P = "\<lambda>st :: refresh_state. extent_cache_ok g (snd st)" and ?le = "\<lambda>(a :: refresh_state) b. snap_le (fst a) (fst (b :: refresh_state))"
  let ?Q = "\<lambda>(i, records) (st :: refresh_state). \<forall>nd. map_of (nodes g) i = Some nd \<longrightarrow>
      (\<forall>rec \<in> set records. record_covered registry g domain i nd rec (fst st))"
  let ?f = "\<lambda>(i, records) st. case map_of (nodes g) i of None \<Rightarrow> Inr st
    | Some nd \<Rightarrow> res_fold (refresh_record registry g domain i nd) records st"
  let ?s0 = "(snap\<lparr>dirty_tiles := [], dirty_monolithic_nodes := [], per_node_dirty_rois := [],
               actual_dirty_rois := [], edge_mappings := []\<rparr>, Map.empty)"
  have inner: "\<exists>st'. res_fold (refresh_record registry g domain i nd) records st = Inr st' \<and> ?P st'
      \<and> (\<forall>rec \<in> set records. record_covered registry g domain i nd rec (fst st')) \<and> ?le st st'"
    if "map_of (nodes g) i = Some nd" "?P st" for i nd records st
  proof (rule res_fold_progress [where P = ?P and le = ?le])
    fix rec :: DirtySourceRoiRecord and st :: "refresh_state" assume "?P st"
    then show "\<exists>st'. refresh_record registry g domain i nd rec st = Inr st' \<and> ?P st'
        \<and> record_covered registry g domain i nd rec (fst st') \<and> ?le st st'"
      using refresh_record_step [OF assms, of i "snd st" registry domain nd rec "fst st"] that(1)
      by (auto simp: has_node_def)
  qed (use that record_covered_mono snap_le_trans in auto)
  have "\<exists>st'. res_fold ?f (source_roi_records snap) ?s0 = Inr st' \<and> ?P st'
      \<and> (\<forall>x \<in> set (source_roi_records snap). ?Q x st') \<and> ?le ?s0 st'"
  proof (rule res_fold_progress [where P = ?P and le = ?le and Q = ?Q])
    fix x :: "int \<times> DirtySourceRoiRecord list" and st :: "refresh_state"
    assume P: "?P st"
    show "\<exists>st'. ?f x st = Inr st' \<and> ?P st' \<and> ?Q x st' \<and> ?le st st'"
    proof (cases "map_of (nodes g) (fst x)")
      case None
      with P show ?thesis by (cases x) auto
    next
      case (Some nd)
      with inner [OF Some P, of "snd x"] show ?thesis by (cases x) auto
    qed
  next
    show "?P ?s0" by (simp add: extent_cache_ok_def)
  qed (use record_covered_mono snap_le_trans in \<open>auto, blast\<close>)
  then show ?thesis by (fastforce simp: refresh_actual_dirty_regions_def)
qed

section \<open>Properties\<close>

definition sources_wf :: "DirtyRegionSnapshot \<Rightarrow> bool" where
  "sources_wf snap \<longleftrightarrow>
     distinct (dirty_source_nodes snap) \<and> distinct (map fst (dirty_source_state snap))
     \<and> set (dirty_source_nodes snap) = fst ` set (dirty_source_state snap)
     \<and> dirty_updating_count snap = card {i. \<exists>st. map_of (dirty_source_state snap) i = Some st \<and> lifecycle st = Updating}"

lemma length_filter_card:
  assumes "distinct (map fst xs)"
  shows "length (filter (\<lambda>(_, v). P v) xs) = card {k. \<exists>v. map_of xs k = Some v \<and> P v}"
proof -
  have "{k. \<exists>v. map_of xs k = Some v \<and> P v} = fst ` set (filter (\<lambda>(_, v). P v) xs)"
    using assms by (force simp: map_of_eq_Some_distinct)
  moreover have "distinct (map fst (filter (\<lambda>(_, v). P v) xs))"
    using assms by (simp add: distinct_map_filter)
  ultimately show ?thesis
    by (metis distinct_card length_map set_map)
qed

definition empty_snapshot :: DirtyRegionSnapshot where
  "empty_snapshot =
     \<lparr>graph_generation = 0, dirty_source_nodes = [], dirty_source_state = [], source_roi_records = [],
      dirty_updating_count = 0, dirty_tiles = [], dirty_monolithic_nodes = [], per_node_dirty_rois = [],
      actual_dirty_rois = [], edge_mappings = []\<rparr>"

text \<open>
  A source lifecycle event is rejected exactly when its node is absent or its region is
  given and empty. Otherwise it records the event as the node's current state and keeps the
  snapshot consistent: each source listed once, one state per listed source, and the count
  of updating sources equal to the number of sources whose state is updating.
\<close>

theorem source_lifecycle_exact:
  assumes "sources_wf snap"
  shows "case apply_source_lifecycle_event g update snap of
      Inl e \<Rightarrow> (e = Graph_Error NotFound \<and> \<not> has_node (upd_node_id update) g)
             \<or> (e = Graph_Error InvalidParameter
                \<and> (\<exists>roi. upd_source_roi update = Some roi \<and> is_rect_empty roi))
    | Inr snap' \<Rightarrow> sources_wf snap'
        \<and> (\<exists>st. map_of (dirty_source_state snap') (upd_node_id update) = Some st
             \<and> lifecycle st = upd_lifecycle update \<and> src_domain st = upd_domain update
             \<and> src_generation st = graph_generation snap)
        \<and> (\<forall>k. k \<noteq> upd_node_id update \<longrightarrow>
             map_of (dirty_source_state snap') k = map_of (dirty_source_state snap) k)"
proof (cases "apply_source_lifecycle_event g update snap")
  case (Inl e)
  then show ?thesis
    by (auto simp: apply_source_lifecycle_event_def Let_def split: if_splits option.splits)
next
  case (Inr snap')
  let ?i = "upd_node_id update"
  from Inr obtain st where states: "dirty_source_state snap' = AList.update ?i st (dirty_source_state snap)"
    and sources: "dirty_source_nodes snap' = (if ?i \<in> set (dirty_source_nodes snap)
      then dirty_source_nodes snap else dirty_source_nodes snap @ [?i])"
    and count: "dirty_updating_count snap'
      = length (filter (\<lambda>(_, st). lifecycle st = Updating) (dirty_source_state snap'))"
    and st: "lifecycle st = upd_lifecycle update" "src_domain st = upd_domain update"
      "src_generation st = graph_generation snap"
    by (auto simp: apply_source_lifecycle_event_def Let_def split: if_splits)
  have d: "distinct (map fst (dirty_source_state snap'))"
    using assms by (simp add: states sources_wf_def)
  have "sources_wf snap'"
    using assms d unfolding sources_wf_def count length_filter_card [OF d]
    by (auto simp: states sources dom_update)
  with Inr st show ?thesis by (simp add: states update_conv)
qed

theorem source_lifecycle_exact_witness:
  "sources_wf empty_snapshot
   \<and> apply_source_lifecycle_event demo_graph
       \<lparr>upd_node_id = 1, upd_domain = HighPrecision, upd_lifecycle = Updating, upd_source_roi = None\<rparr>
       empty_snapshot = Inl (Graph_Error NotFound)
   \<and> \<not> has_node 1 demo_graph"
proof -
  have wf: "sources_wf empty_snapshot" by (simp add: sources_wf_def empty_snapshot_def)
  have "apply_source_lifecycle_event demo_graph
       \<lparr>upd_node_id = 1, upd_domain = HighPrecision, upd_lifecycle = Updating, upd_source_roi = None\<rparr>
       empty_snapshot = Inl (Graph_Error NotFound)"
    by (simp add: apply_source_lifecycle_event_def has_node_def demo_graph_defs)
  with wf source_lifecycle_exact [OF wf, where g = demo_graph and update = "\<lparr>upd_node_id = 1,
    upd_domain = HighPrecision, upd_lifecycle = Updating, upd_source_roi = None\<rparr>"]
  show ?thesis by simp
qed

text \<open>
  Tile enumeration partitions the aligned region: with no tiles before, every pixel of
  the aligned region lies in exactly one emitted tile and every other pixel in none, and
  every tile carries the requested node, domain and level.
\<close>

theorem tiles_partition_region:
  assumes "edge_rect roi" "\<not> is_rect_empty roi" "0 < size'" "dirty_tiles snap = []"
  shows "let tiles = set (dirty_tiles (enumerate_tiles i domain level roi size' snap)) in
     (\<forall>p. (\<exists>!t. t \<in> tiles \<and> p \<in> pixels (tile_pixel_roi t)) \<longleftrightarrow> p \<in> pixels (align_rect roi size'))
   \<and> (\<forall>p. (\<exists>t \<in> tiles. p \<in> pixels (tile_pixel_roi t)) \<longleftrightarrow> p \<in> pixels (align_rect roi size'))
   \<and> (\<forall>t \<in> tiles. tile_node_id t = i \<and> tile_domain t = domain \<and> tile_level t = level)"
  using region_tiles_partition [OF edge_rect_ops_keep(2) [OF assms(1)] assms(3)]
    enumerate_tiles_set [OF assms(2,3,1), of i domain level snap] assms(4)
  by (auto simp: Let_def region_tiles_def make_tile_def)

theorem tiles_partition_region_witness:
  "let tiles = set (dirty_tiles (enumerate_tiles 1 RealTime Micro
       \<lparr>rect_x = 5, rect_y = 0, rect_width = 20, rect_height = 3\<rparr> 16 empty_snapshot))
   in \<exists>!t. t \<in> tiles \<and> (17, 2) \<in> pixels (tile_pixel_roi t)"
proof -
  let ?r = "\<lparr>rect_x = 5, rect_y = 0, rect_width = 20, rect_height = 3\<rparr>"
  have r: "edge_rect ?r" "\<not> is_rect_empty ?r" by (simp_all add: geom_defs i32_defs)
  have "align_rect ?r 16 = \<lparr>rect_x = 0, rect_y = 0, rect_width = 32, rect_height = 16\<rparr>"
    by code_simp
  then have "(17, 2) \<in> pixels (align_rect ?r 16)" by (simp add: pixels_def)
  with tiles_partition_region [OF r, of 16 empty_snapshot 1 RealTime Micro] show ?thesis
    by (simp add: empty_snapshot_def Let_def)
qed

text \<open>
  C36. No dirty pixel is lost. Refreshing a snapshot on a well-formed graph never throws, and
  for every recorded source region of the domain on a present node, every pixel of the
  region inside the node's extent is covered by the refreshed snapshot, at its point of the
  domain's image (itself for high precision, divided by four for real time): by a monolithic
  region of the node if its operation is a monolithic boundary, by a tile of the node
  otherwise. The extent must leave room for alignment below the 32-bit maximum.
\<close>

theorem refresh_loses_no_pixel:
  assumes "graph_wf g" "(i, records) \<in> set (source_roi_records snap)" "rec \<in> set records"
    "map_of (nodes g) i = Some nd" "extent g i s" "alignable_size s"
    "roi_domain rec = domain" "wf_rect (source_roi rec)"
  shows "\<exists>snap'. refresh_actual_dirty_regions registry g domain snap = Inr snap'
    \<and> (\<forall>p \<in> pixels (source_roi rec) \<inter> size_pixels s.
         dirty_covers registry nd i domain snap' (domain_point domain p))"
  using refresh_covers [OF assms(1), of registry domain snap] assms(2-8)
  unfolding record_covered_def by fast

definition demo_image_node :: Node where
  "demo_image_node = default_node\<lparr>node_id := 1,
     cached_output_high_precision := Some \<lparr>out_width = 100, out_height = 80, out_data = Map.empty\<rparr>\<rparr>"

definition demo_image_graph :: demo_graph where
  "demo_image_graph = demo_graph\<lparr>nodes := [(1, demo_image_node)],
     topology := build_topology_index [(1, demo_image_node)]\<rparr>"

definition demo_record :: DirtySourceRoiRecord where
  "demo_record = \<lparr>roi_node_id = 1, roi_domain = RealTime,
     source_roi = \<lparr>rect_x = 10, rect_y = 10, rect_width = 5, rect_height = 5\<rparr>, roi_generation = 0\<rparr>"

theorem refresh_loses_no_pixel_witness:
  "\<exists>snap'. refresh_actual_dirty_regions (\<lambda>_ _. None) demo_image_graph RealTime
       (empty_snapshot\<lparr>source_roi_records := [(1, [demo_record])]\<rparr>) = Inr snap'
     \<and> dirty_covers (\<lambda>_ _. None) demo_image_node 1 RealTime snap' (3, 2)"
proof -
  let ?snap = "empty_snapshot\<lparr>source_roi_records := [(1, [demo_record])]\<rparr>"
  let ?s = "\<lparr>size_width = 100, size_height = 80\<rparr>"
  have "dep_rel [(1, demo_image_node)] = {}"
    by (auto simp: dep_rel_def node_deps_def demo_image_node_def default_node_def split: if_splits)
  then have wf: "graph_wf demo_image_graph"
    by (simp add: graph_wf_def demo_image_graph_def valid_nodes_def closed_nodes_def acyclic_def)
  have node: "map_of (nodes demo_image_graph) 1 = Some demo_image_node"
    by (simp add: demo_image_graph_def)
  have ext: "extent demo_image_graph 1 ?s"
    by (rule extent_own [OF node]) (simp add: own_extent_def demo_image_node_def default_node_def Let_def)
  have "alignable_size ?s" "wf_rect (source_roi demo_record)" "roi_domain demo_record = RealTime"
    by (simp_all add: alignable_size_def demo_record_def geom_defs i32_defs kHpMicroTileSize_def)
  from refresh_loses_no_pixel [OF wf _ _ node ext this(1) this(3) this(2), of "[demo_record]" ?snap "\<lambda>_ _. None"]
  obtain snap' where r: "refresh_actual_dirty_regions (\<lambda>_ _. None) demo_image_graph RealTime ?snap = Inr snap'"
    and c: "\<forall>p \<in> pixels (source_roi demo_record) \<inter> size_pixels ?s.
      dirty_covers (\<lambda>_ _. None) demo_image_node 1 RealTime snap' (domain_point RealTime p)"
    by auto
  have "(12, 10) \<in> pixels (source_roi demo_record) \<inter> size_pixels ?s"
    by (simp add: demo_record_def pixels_def size_pixels_def)
  with c have "dirty_covers (\<lambda>_ _. None) demo_image_node 1 RealTime snap' (domain_point RealTime (12, 10))"
    by blast
  with r show ?thesis by (simp add: domain_point_def kRtDownscaleFactor_def)
qed

end
