(* ===== verification/TaskDependency.thy ===== *)
theory TaskDependency
  imports DirtySnapshot "HOL-Library.Multiset"
begin

text \<open>
  \<open>TaskDependencyState\<close> (\<open>src/lib/compute/compute_task_dependency_state.cpp\<close>): the ready
  counters of one task graph, and the initial-submission filter of
  \<open>TaskSubmissionPlan\<close> (\<open>compute_task_submission.cpp\<close>). Workers release dependents
  concurrently; the transition system below has one step per atomic counter decrement, so
  it contains every interleaving of them.
\<close>

section \<open>Data\<close>

datatype PlannedTaskKind = NodeTask | TileTask | MonolithicTask

record PlannedTask =
  task_id :: int
  task_node_id :: int
  task_kind :: PlannedTaskKind
  task_domain :: DirtyDomain
  output_roi :: PixelRect
  task_tile_x :: int
  task_tile_y :: int
  task_tile_size :: int
  task_whole_output :: bool
  source_boundary_eligible :: bool
  dirty_selected :: bool
  dirty_generation :: u64
  dependency_task_ids :: "int list"

record TaskDependencyState =
  id_to_idx :: "int \<rightharpoonup> int"
  dependency_counters :: "int list"
  dependents_map :: "int list list"
  active_tasks :: "bool list"

text \<open>\<open>std::vector::at\<close> with an index converted from \<open>int\<close>.\<close>

definition vec_at :: "'a list \<Rightarrow> int \<Rightarrow> 'a res" where
  "vec_at xs i = (if 0 \<le> i \<and> i < int (length xs) then Inr (xs ! nat i) else Inl Out_Of_Range)"

section \<open>Construction\<close>

definition build_dense_index :: "int list \<Rightarrow> int \<rightharpoonup> int" where
  "build_dense_index execution_order =
     fold (\<lambda>(i, k) m. m(k \<mapsto> int i)) (zip [0..<length execution_order] execution_order) Map.empty"

definition task_is_active :: "nat \<Rightarrow> int set option \<Rightarrow> int \<Rightarrow> bool" where
  "task_is_active task_count active_ids i \<longleftrightarrow>
     0 \<le> i \<and> i < int task_count \<and> (case active_ids of None \<Rightarrow> True | Some ids \<Rightarrow> i \<in> ids)"

definition add_dependency :: "int \<Rightarrow> int \<Rightarrow> TaskDependencyState \<Rightarrow> TaskDependencyState res" where
  "add_dependency d t st =
     res_bind (vec_at (dependents_map st) d) (\<lambda>dependents.
     res_bind (vec_at (dependency_counters st) t) (\<lambda>counter.
       Inr (st\<lparr>dependents_map := (dependents_map st)[nat d := dependents @ [t]],
               dependency_counters := (dependency_counters st)[nat t := counter + 1]\<rparr>)))"

definition build_dependency_state ::
  "(int \<rightharpoonup> int) \<Rightarrow> PlannedTask list \<Rightarrow> int set option \<Rightarrow> int list list option \<Rightarrow> TaskDependencyState res" where
  "build_dependency_state index tasks active_ids dependency_ids =
     (let n = length tasks;
          active = task_is_active n active_ids;
          st0 = \<lparr>id_to_idx = index, dependency_counters = replicate n 0, dependents_map = replicate n [],
                 active_tasks =
                   fold (\<lambda>task bits. if 0 \<le> task_id task \<and> task_id task < int n
                                       then bits[nat (task_id task) := active (task_id task)] else bits)
                     tasks (replicate n False)\<rparr>
      in res_fold
           (\<lambda>task st.
              if \<not> active (task_id task) then Inr st
              else res_bind (case dependency_ids of
                               None \<Rightarrow> Inr (dependency_task_ids task)
                             | Some dep_lists \<Rightarrow> vec_at dep_lists (task_id task))
                (\<lambda>dependencies.
                   res_fold (\<lambda>d st'. if active d then add_dependency d (task_id task) st' else Inr st')
                     dependencies st))
           tasks st0)"

definition make_dependency_state ::
  "int list \<Rightarrow> PlannedTask list \<Rightarrow> int list option \<Rightarrow> int list list option \<Rightarrow> TaskDependencyState res" where
  "make_dependency_state execution_order tasks active_task_ids dependency_ids =
     build_dependency_state (build_dense_index execution_order) tasks (map_option set active_task_ids) dependency_ids"

section \<open>Readiness\<close>

definition ready_for_initial_submit :: "TaskDependencyState \<Rightarrow> int \<Rightarrow> bool res" where
  "ready_for_initial_submit st i =
     res_bind (vec_at (active_tasks st) i) (\<lambda>active.
       if \<not> active then Inr False
       else res_bind (vec_at (dependency_counters st) i) (\<lambda>counter. Inr (counter = 0)))"

text \<open>One atomic decrement; the result tells whether it made the task ready.\<close>

definition fetch_sub_counter :: "int \<Rightarrow> TaskDependencyState \<Rightarrow> (bool \<times> TaskDependencyState) res" where
  "fetch_sub_counter t st =
     res_bind (vec_at (dependency_counters st) t) (\<lambda>previous.
       Inr (previous = 1, st\<lparr>dependency_counters := (dependency_counters st)[nat t := previous - 1]\<rparr>))"

definition release_dependents :: "int \<Rightarrow> TaskDependencyState \<Rightarrow> (int list \<times> TaskDependencyState) res" where
  "release_dependents current st =
     res_bind (vec_at (dependents_map st) current) (\<lambda>dependents.
       res_fold
         (\<lambda>t (ready, st'). res_bind (fetch_sub_counter t st') (\<lambda>(became_ready, st'').
            Inr (if became_ready then ready @ [t] else ready, st'')))
         dependents ([], st))"

text \<open>\<open>append_initial_task_identity\<close> for every candidate: the ready ones, each once.\<close>

definition append_initial_task_identity ::
  "TaskDependencyState \<Rightarrow> int \<Rightarrow> int list \<Rightarrow> int list res" where
  "append_initial_task_identity st i submitted =
     res_bind (ready_for_initial_submit st i) (\<lambda>ready.
       Inr (if ready \<and> i \<notin> set submitted then submitted @ [i] else submitted))"

section \<open>What construction yields\<close>

text \<open>The dependency edges between active tasks, with multiplicity.\<close>

definition task_deps :: "int list list option \<Rightarrow> PlannedTask \<Rightarrow> int list" where
  "task_deps dependency_ids task =
     (case dependency_ids of None \<Rightarrow> dependency_task_ids task | Some dep_lists \<Rightarrow> dep_lists ! nat (task_id task))"

definition task_edges ::
  "PlannedTask list \<Rightarrow> int set option \<Rightarrow> int list list option \<Rightarrow> (int \<times> int) list" where
  "task_edges tasks active_ids dependency_ids =
     concat (map (\<lambda>task. if task_is_active (length tasks) active_ids (task_id task)
        then map (\<lambda>d. (d, task_id task))
               (filter (task_is_active (length tasks) active_ids) (task_deps dependency_ids task))
        else []) tasks)"

text \<open>A state that represents a list of edges among \<open>n\<close> task ids.\<close>

definition represents :: "nat \<Rightarrow> (int \<times> int) list \<Rightarrow> TaskDependencyState \<Rightarrow> bool" where
  "represents n E st \<longleftrightarrow>
     length (dependency_counters st) = n \<and> length (dependents_map st) = n
     \<and> (\<forall>i. 0 \<le> i \<and> i < int n \<longrightarrow>
          dependents_map st ! nat i = map snd (filter (\<lambda>e. fst e = i) E)
          \<and> dependency_counters st ! nat i = int (length (filter (\<lambda>e. snd e = i) E)))"

lemma represents_add_dependency:
  assumes "represents n E st" "0 \<le> d" "d < int n" "0 \<le> t" "t < int n"
  obtains st' where "add_dependency d t st = Inr st'" "represents n (E @ [(d, t)]) st'"
    "active_tasks st' = active_tasks st"
proof -
  let ?st = "st\<lparr>dependents_map := (dependents_map st)[nat d := dependents_map st ! nat d @ [t]],
    dependency_counters := (dependency_counters st)[nat t := dependency_counters st ! nat t + 1]\<rparr>"
  have "add_dependency d t st = Inr ?st"
    using assms by (simp add: add_dependency_def vec_at_def represents_def)
  moreover have "represents n (E @ [(d, t)]) ?st"
    using assms by (auto simp: represents_def nth_list_update nat_eq_iff2)
  ultimately show ?thesis using that by simp
qed

lemma represents_dependencies:
  assumes "represents n E st" "0 \<le> t" "t < int n" "\<And>d. P d \<Longrightarrow> 0 \<le> d \<and> d < int n"
  shows "\<exists>st'. res_fold (\<lambda>d st'. if P d then add_dependency d t st' else Inr st') ds st = Inr st'
    \<and> represents n (E @ map (\<lambda>d. (d, t)) (filter P ds)) st' \<and> active_tasks st' = active_tasks st"
  using assms(1)
proof (induction ds arbitrary: E st)
  case (Cons d ds)
  show ?case
  proof (cases "P d")
    case True
    then obtain st1 where "add_dependency d t st = Inr st1" "represents n (E @ [(d, t)]) st1"
      "active_tasks st1 = active_tasks st"
      using represents_add_dependency [OF Cons.prems] assms(2-4) by blast
    with Cons.IH [of "E @ [(d, t)]" st1] True show ?thesis by auto
  qed (use Cons in simp)
qed simp

lemma build_dependency_state_represents:
  assumes "\<And>dep_lists. dependency_ids = Some dep_lists \<Longrightarrow> length dep_lists = length tasks"
  shows "\<exists>st. build_dependency_state index tasks active_ids dependency_ids = Inr st
    \<and> represents (length tasks) (task_edges tasks active_ids dependency_ids) st
    \<and> active_tasks st = fold (\<lambda>task bits. if 0 \<le> task_id task \<and> task_id task < int (length tasks)
        then bits[nat (task_id task) := task_is_active (length tasks) active_ids (task_id task)] else bits)
        tasks (replicate (length tasks) False)"
proof -
  let ?n = "length tasks"
  let ?active = "task_is_active ?n active_ids"
  let ?f = "\<lambda>task st. if \<not> ?active (task_id task) then Inr st
    else res_bind (case dependency_ids of None \<Rightarrow> Inr (dependency_task_ids task)
                   | Some dep_lists \<Rightarrow> vec_at dep_lists (task_id task))
      (\<lambda>dependencies. res_fold (\<lambda>d st'. if ?active d then add_dependency d (task_id task) st' else Inr st')
         dependencies st)"
  let ?edges = "\<lambda>ts. concat (map (\<lambda>task. if ?active (task_id task)
     then map (\<lambda>d. (d, task_id task)) (filter ?active (task_deps dependency_ids task)) else []) ts)"
  have range: "0 \<le> d \<and> d < int ?n" if "?active d" for d
    using that by (simp add: task_is_active_def)
  have loop: "\<exists>st'. res_fold ?f ts st = Inr st' \<and> represents ?n (E @ ?edges ts) st'
      \<and> active_tasks st' = active_tasks st" if "represents ?n E st" for ts E st
    using that
  proof (induction ts arbitrary: E st)
    case (Cons task ts)
    show ?case
    proof (cases "?active (task_id task)")
      case True
      have "(case dependency_ids of None \<Rightarrow> Inr (dependency_task_ids task)
          | Some dep_lists \<Rightarrow> vec_at dep_lists (task_id task)) = Inr (task_deps dependency_ids task)"
        using assms range [OF True] by (auto simp: task_deps_def vec_at_def split: option.split)
      moreover obtain st1 where "res_fold (\<lambda>d st'. if ?active d then add_dependency d (task_id task) st' else Inr st')
          (task_deps dependency_ids task) st = Inr st1"
        "represents ?n (E @ map (\<lambda>d. (d, task_id task)) (filter ?active (task_deps dependency_ids task))) st1"
        "active_tasks st1 = active_tasks st"
        using represents_dependencies [OF Cons.prems, of "task_id task" ?active] range True by blast
      moreover from this(2) Cons.IH obtain st2 where "res_fold ?f ts st1 = Inr st2"
        "represents ?n ((E @ map (\<lambda>d. (d, task_id task)) (filter ?active (task_deps dependency_ids task))) @ ?edges ts) st2"
        "active_tasks st2 = active_tasks st1" by blast
      ultimately show ?thesis using True by simp
    qed (use Cons in simp)
  qed simp
  define st0 where "st0 = \<lparr>id_to_idx = index, dependency_counters = replicate ?n 0,
    dependents_map = replicate ?n [],
    active_tasks = fold (\<lambda>task bits. if 0 \<le> task_id task \<and> task_id task < int ?n
      then bits[nat (task_id task) := ?active (task_id task)] else bits) tasks (replicate ?n False)\<rparr>"
  have "represents ?n [] st0" by (auto simp: represents_def st0_def nat_less_iff)
  from loop [OF this, of tasks] show ?thesis
    by (simp add: build_dependency_state_def Let_def task_edges_def flip: st0_def) (simp add: st0_def)
qed

section \<open>Concurrent execution\<close>

text \<open>
  A task-graph execution: the counters, the tasks handed to the runtime so far (in order),
  the tasks whose work has finished, and the decrements their releases still owe. A finished
  task's release decrements the counters of its dependents one atomic operation at a time.
\<close>

record task_world =
  dep_state :: TaskDependencyState
  submitted :: "int list"
  completed :: "int set"
  owed :: "int multiset"

inductive task_step :: "task_world \<Rightarrow> task_world \<Rightarrow> bool" where
  finish: "t \<in> set (submitted w) \<Longrightarrow> t \<notin> completed w \<Longrightarrow>
    vec_at (dependents_map (dep_state w)) t = Inr dependents \<Longrightarrow>
    task_step w (w\<lparr>completed := insert t (completed w), owed := owed w + mset dependents\<rparr>)"
| decrement: "t \<in># owed w \<Longrightarrow> fetch_sub_counter t (dep_state w) = Inr (became_ready, st) \<Longrightarrow>
    task_step w (w\<lparr>dep_state := st, owed := owed w - {#t#},
                   submitted := submitted w @ (if became_ready then [t] else [])\<rparr>)"

definition task_start :: "TaskDependencyState \<Rightarrow> task_world \<Rightarrow> bool" where
  "task_start st w \<longleftrightarrow>
     (\<exists>candidates initial. res_fold (append_initial_task_identity st) candidates [] = Inr initial
        \<and> {i. vec_at (active_tasks st) i = Inr True} \<subseteq> set candidates
        \<and> w = \<lparr>dep_state = st, submitted = initial, completed = {}, owed = {#}\<rparr>)"

text \<open>Edges into \<open>t\<close> whose source is not finished.\<close>

definition open_edges :: "(int \<times> int) list \<Rightarrow> int set \<Rightarrow> int \<Rightarrow> nat" where
  "open_edges E C t = length (filter (\<lambda>e. snd e = t \<and> fst e \<notin> C) E)"

definition task_inv :: "nat \<Rightarrow> (int \<times> int) list \<Rightarrow> int set \<Rightarrow> task_world \<Rightarrow> bool" where
  "task_inv n E A w \<longleftrightarrow>
     length (dependency_counters (dep_state w)) = n \<and> length (dependents_map (dep_state w)) = n
     \<and> (\<forall>i. 0 \<le> i \<and> i < int n \<longrightarrow>
          dependents_map (dep_state w) ! nat i = map snd (filter (\<lambda>e. fst e = i) E)
          \<and> dependency_counters (dep_state w) ! nat i = int (open_edges E (completed w) i + count (owed w) i))
     \<and> distinct (submitted w) \<and> completed w \<subseteq> set (submitted w)
     \<and> set_mset (owed w) \<subseteq> A
     \<and> (\<forall>t. t \<in> set (submitted w) \<longleftrightarrow> t \<in> A \<and> open_edges E (completed w) t + count (owed w) t = 0)"

lemma open_edges_insert:
  assumes "t \<notin> C"
  shows "open_edges E C i = open_edges E (insert t C) i + count (mset (map snd (filter (\<lambda>e. fst e = t) E))) i"
  using assms by (induction E) (auto simp: open_edges_def)

lemma task_inv_step:
  assumes inv: "task_inv n E A w" and edges: "set E \<subseteq> A \<times> A" and A: "\<forall>i \<in> A. 0 \<le> i \<and> i < int n"
    and step: "task_step w w'"
  shows "task_inv n E A w'"
  using step
proof cases
  case (finish t dependents)
  then have tA: "0 \<le> t" "t < int n" using inv A by (auto simp: task_inv_def)
  with finish(4) inv have deps: "dependents = map snd (filter (\<lambda>e. fst e = t) E)"
    by (auto simp: vec_at_def task_inv_def split: if_splits)
  have same: "open_edges E (insert t (completed w)) i + count (owed w + mset dependents) i
      = open_edges E (completed w) i + count (owed w) i" for i
    using open_edges_insert [OF finish(3), of E i] by (simp add: deps)
  have "set_mset (mset dependents) \<subseteq> A" using edges by (auto simp: deps)
  then show ?thesis
    using inv finish(2) unfolding finish(1) task_inv_def by (simp add: same del: count_union)
next
  case (decrement t became_ready st)
  let ?c = "dependency_counters (dep_state w)"
  have tA: "t \<in> A" "0 \<le> t" "t < int n" using inv A decrement(2) by (auto simp: task_inv_def)
  have cnt: "?c ! nat t = int (open_edges E (completed w) t + count (owed w) t)" "0 < count (owed w) t"
    using inv tA(2,3) decrement(2) by (auto simp: task_inv_def)
  have st: "st = (dep_state w)\<lparr>dependency_counters := ?c[nat t := ?c ! nat t - 1]\<rparr>"
    and ready: "became_ready \<longleftrightarrow> open_edges E (completed w) t + count (owed w) t = 1"
    using decrement(3) tA(2,3) inv cnt by (auto simp: fetch_sub_counter_def vec_at_def task_inv_def)
  have not_sub: "t \<notin> set (submitted w)" using inv cnt(2) by (auto simp: task_inv_def)
  have counters: "dependency_counters st ! nat i
      = int (open_edges E (completed w) i + count (owed w - {#t#}) i)" if "0 \<le> i" "i < int n" for i
    using that tA inv cnt by (auto simp: st task_inv_def nth_list_update nat_eq_iff2)
  have mem: "i \<in> set (submitted w @ (if became_ready then [t] else []))
      \<longleftrightarrow> i \<in> A \<and> open_edges E (completed w) i + count (owed w - {#t#}) i = 0" for i
    using inv ready tA(1) cnt(2) unfolding task_inv_def by (cases "i = t") auto
  have "set_mset (owed w - {#t#}) \<subseteq> A"
    using inv by (auto simp: task_inv_def dest: in_diffD)
  then show ?thesis
    using inv counters mem not_sub unfolding decrement(1) task_inv_def by (auto simp: st)
qed

subsection \<open>The initial state\<close>

definition dense_tasks :: "PlannedTask list \<Rightarrow> bool" where
  "dense_tasks tasks \<longleftrightarrow> set (map task_id tasks) = {0..<int (length tasks)}"

definition active_set :: "PlannedTask list \<Rightarrow> int set option \<Rightarrow> int set" where
  "active_set tasks active_ids = {i. task_is_active (length tasks) active_ids i}"

lemma active_bits:
  assumes "dense_tasks tasks"
  shows "fold (\<lambda>task bits. if 0 \<le> task_id task \<and> task_id task < int (length tasks)
      then bits[nat (task_id task) := f (task_id task)] else bits) tasks (replicate (length tasks) False)
    = map (\<lambda>k. f (int k)) [0..<length tasks]"
proof -
  let ?n = "length tasks"
  let ?g = "\<lambda>task bits. if 0 \<le> task_id task \<and> task_id task < int ?n
      then bits[nat (task_id task) := f (task_id task)] else bits"
  have "length (fold ?g ts bits) = length bits
      \<and> (length bits = ?n \<longrightarrow> (\<forall>k < ?n. fold ?g ts bits ! k = (if int k \<in> task_id ` set ts then f (int k) else bits ! k)))"
    for ts bits
  proof (induction ts arbitrary: bits)
    case (Cons t ts)
    from Cons [of "?g t bits"] show ?case by (auto simp: nth_list_update)
  qed simp
  from this [of tasks "replicate ?n False"] assms show ?thesis
    by (intro nth_equalityI) (auto simp: dense_tasks_def)
qed

lemma vec_at_map_upt: "vec_at (map f [0..<n]) i = (if 0 \<le> i \<and> i < int n then Inr (f (nat i)) else Inl Out_Of_Range)"
  by (auto simp: vec_at_def nat_less_iff)

text \<open>The initial submissions: exactly the active tasks without open dependencies, each once.\<close>

lemma initial_submissions:
  assumes "res_fold (append_initial_task_identity st) candidates acc = Inr initial" "distinct acc"
  shows "distinct initial
    \<and> set initial = set acc \<union> {i \<in> set candidates. ready_for_initial_submit st i = Inr True}"
  using assms
proof (induction candidates arbitrary: acc)
  case (Cons c cs)
  then obtain ready where r: "ready_for_initial_submit st c = Inr ready"
    by (auto simp: append_initial_task_identity_def res_simps)
  let ?acc = "if ready \<and> c \<notin> set acc then acc @ [c] else acc"
  have "append_initial_task_identity st c acc = Inr ?acc"
    using r by (simp add: append_initial_task_identity_def)
  with Cons.prems have "res_fold (append_initial_task_identity st) cs ?acc = Inr initial" "distinct ?acc"
    by simp_all
  from Cons.IH [OF this] r show ?case by auto
qed simp

definition task_init ::
  "PlannedTask list \<Rightarrow> int set option \<Rightarrow> int list list option \<Rightarrow> task_world \<Rightarrow> bool" where
  "task_init tasks active_ids dependency_ids w \<longleftrightarrow>
     dense_tasks tasks \<and> (\<forall>dep_lists. dependency_ids = Some dep_lists \<longrightarrow> length dep_lists = length tasks)
     \<and> (\<exists>index st. build_dependency_state index tasks active_ids dependency_ids = Inr st \<and> task_start st w)"

definition task_sys_inv ::
  "PlannedTask list \<Rightarrow> int set option \<Rightarrow> int list list option \<Rightarrow> task_world \<Rightarrow> bool" where
  "task_sys_inv tasks active_ids dependency_ids =
     task_inv (length tasks) (task_edges tasks active_ids dependency_ids) (active_set tasks active_ids)"

lemma task_edges_active:
  "set (task_edges tasks active_ids dependency_ids) \<subseteq> active_set tasks active_ids \<times> active_set tasks active_ids"
  by (auto simp: task_edges_def active_set_def split: if_splits)

lemma active_set_range: "\<forall>i \<in> active_set tasks active_ids. 0 \<le> i \<and> i < int (length tasks)"
  by (simp add: active_set_def task_is_active_def)

lemma task_sys_inv_init:
  assumes "task_init tasks active_ids dependency_ids w"
  shows "task_sys_inv tasks active_ids dependency_ids w"
proof -
  let ?n = "length tasks" and ?E = "task_edges tasks active_ids dependency_ids"
    and ?A = "active_set tasks active_ids"
  from assms obtain index st candidates initial where dense: "dense_tasks tasks"
    and lens: "\<And>dep_lists. dependency_ids = Some dep_lists \<Longrightarrow> length dep_lists = ?n"
    and st: "build_dependency_state index tasks active_ids dependency_ids = Inr st"
    and init: "res_fold (append_initial_task_identity st) candidates [] = Inr initial"
    and cand: "{i. vec_at (active_tasks st) i = Inr True} \<subseteq> set candidates"
    and w: "w = \<lparr>dep_state = st, submitted = initial, completed = {}, owed = {#}\<rparr>"
    unfolding task_init_def task_start_def by blast
  have rep: "represents ?n ?E st"
    and bits: "active_tasks st = map (\<lambda>k. task_is_active ?n active_ids (int k)) [0..<?n]"
    using build_dependency_state_represents [of dependency_ids tasks index active_ids] lens st
    by (simp_all add: active_bits [OF dense])
  have act: "vec_at (active_tasks st) i = Inr b
      \<longleftrightarrow> 0 \<le> i \<and> i < int ?n \<and> b = task_is_active ?n active_ids i" for i b
    by (auto simp: bits vec_at_map_upt)
  have ready: "ready_for_initial_submit st i = Inr True \<longleftrightarrow> i \<in> ?A \<and> open_edges ?E {} i = 0" for i
  proof (cases "i \<in> ?A")
    case True
    then have "0 \<le> i" "i < int ?n" "vec_at (active_tasks st) i = Inr True"
      using active_set_range [of tasks active_ids] by (auto simp: act active_set_def)
    with rep True show ?thesis
      by (simp add: ready_for_initial_submit_def represents_def open_edges_def vec_at_def)
  next
    case False
    then have "vec_at (active_tasks st) i \<noteq> Inr True"
      using act [of i True] by (simp add: active_set_def task_is_active_def)
    with False show ?thesis
      by (auto simp: ready_for_initial_submit_def res_simps split: if_splits)
  qed
  have "?A \<subseteq> set candidates"
    using cand act active_set_range [of tasks active_ids] by (auto simp: active_set_def)
  with initial_submissions [OF init] ready
  have "distinct initial" "\<forall>i. i \<in> set initial \<longleftrightarrow> i \<in> ?A \<and> open_edges ?E {} i = 0" by auto
  with rep show ?thesis
    by (auto simp: task_sys_inv_def task_inv_def w represents_def open_edges_def)
qed

interpretation task_sys: inv_system "task_init tasks active_ids dependency_ids" task_step
    "task_sys_inv tasks active_ids dependency_ids" for tasks active_ids dependency_ids
proof
  show "task_init tasks active_ids dependency_ids w \<Longrightarrow> task_sys_inv tasks active_ids dependency_ids w" for w
    by (rule task_sys_inv_init)
  show "task_sys_inv tasks active_ids dependency_ids w \<Longrightarrow> task_step w w' \<Longrightarrow>
      task_sys_inv tasks active_ids dependency_ids w'" for w w'
    unfolding task_sys_inv_def by (rule task_inv_step [OF _ task_edges_active active_set_range])
qed

subsection \<open>Progress\<close>

text \<open>Work left: unfinished active tasks, twice the open edges, and the decrements owed.\<close>

definition task_work :: "(int \<times> int) list \<Rightarrow> int set \<Rightarrow> task_world \<Rightarrow> nat" where
  "task_work E A w =
     card (A - completed w) + 2 * length (filter (\<lambda>e. fst e \<notin> completed w) E) + size (owed w)"

lemma task_step_work:
  assumes inv: "task_inv n E A w" and A: "\<forall>i \<in> A. 0 \<le> i \<and> i < int n" and step: "task_step w w'"
  shows "task_work E A w' < task_work E A w"
  using step
proof cases
  case (finish t dependents)
  have fin: "finite A" using A by (intro finite_subset [of A "{0..<int n}"]) auto
  have t: "t \<in> A - completed w" "0 \<le> t" "t < int n" using inv A finish(2,3) by (auto simp: task_inv_def)
  with finish(4) inv have deps: "dependents = map snd (filter (\<lambda>e. fst e = t) E)"
    by (auto simp: vec_at_def task_inv_def split: if_splits)
  have "length (filter (\<lambda>e. fst e \<notin> completed w) E)
      = length (filter (\<lambda>e. fst e \<notin> insert t (completed w)) E) + length dependents"
    using finish(3) by (simp add: deps) (induction E, auto)
  moreover have "card (A - insert t (completed w)) < card (A - completed w)"
    using t(1) fin by (intro psubset_card_mono) auto
  ultimately show ?thesis by (simp add: task_work_def finish(1))
next
  case (decrement t became_ready st)
  then show ?thesis by (simp add: task_work_def size_Diff1_less)
qed

text \<open>
  Without cycles, an execution with unfinished active tasks has a task to finish or a
  decrement to make.
\<close>

lemma task_progress:
  assumes inv: "task_inv n E A w" and A: "\<forall>i \<in> A. 0 \<le> i \<and> i < int n"
    and acyc: "acyclic (set E)" and edges: "set E \<subseteq> A \<times> A"
  shows "(\<exists>w'. task_step w w') \<or> completed w = A"
proof (rule ccontr)
  assume no: "\<not> ((\<exists>w'. task_step w w') \<or> completed w = A)"
  have owed: "owed w = {#}"
  proof (rule ccontr)
    assume "owed w \<noteq> {#}"
    then obtain t where t: "t \<in># owed w" by auto
    then have "0 \<le> t" "t < int n" using inv A by (auto simp: task_inv_def)
    then obtain r where "fetch_sub_counter t (dep_state w) = Inr r"
      using inv by (auto simp: fetch_sub_counter_def vec_at_def task_inv_def)
    with t no task_step.decrement [of t w "fst r" "snd r"] show False by auto
  qed
  have sub: "set (submitted w) = completed w"
  proof (rule ccontr)
    assume "set (submitted w) \<noteq> completed w"
    moreover have "completed w \<subseteq> set (submitted w)" using inv by (simp add: task_inv_def)
    ultimately obtain t where t: "t \<in> set (submitted w)" "t \<notin> completed w" by blast
    then have "0 \<le> t" "t < int n" using inv A by (auto simp: task_inv_def)
    then obtain ds where "vec_at (dependents_map (dep_state w)) t = Inr ds"
      using inv by (auto simp: vec_at_def task_inv_def)
    with t no task_step.finish [of t w] show False by blast
  qed
  have "completed w \<subseteq> A" using inv sub by (auto simp: task_inv_def)
  with no obtain t where t: "t \<in> A - completed w" by blast
  have "wf (set E)" using acyc by (intro finite_acyclic_wf) auto
  then obtain m where m: "m \<in> A - completed w" "\<And>y. (y, m) \<in> set E \<Longrightarrow> y \<notin> A - completed w"
    using t by (rule wfE_min) blast
  have "open_edges E (completed w) m = 0"
    using m(2) edges by (auto simp: open_edges_def filter_empty_conv)
  with m(1) owed have "m \<in> set (submitted w)" using inv by (simp add: task_inv_def)
  with m(1) sub show False by blast
qed

subsection \<open>The sequential release\<close>

lemma release_loop_steps:
  assumes "res_fold (\<lambda>t (ready, st'). res_bind (fetch_sub_counter t st') (\<lambda>(became_ready, st'').
      Inr (if became_ready then ready @ [t] else ready, st''))) ds (ready, dep_state w) = Inr (ready', st')"
    and "mset ds \<subseteq># owed w"
  shows "\<exists>new. ready' = ready @ new
    \<and> task_step\<^sup>*\<^sup>* w (w\<lparr>dep_state := st', owed := owed w - mset ds, submitted := submitted w @ new\<rparr>)"
  using assms
proof (induction ds arbitrary: ready w)
  case Nil
  then show ?case by (intro exI [of _ "[]"]) auto
next
  case (Cons t ds)
  obtain b st1 where f: "fetch_sub_counter t (dep_state w) = Inr (b, st1)"
    using Cons.prems(1) by (auto simp: res_simps)
  let ?w1 = "w\<lparr>dep_state := st1, owed := owed w - {#t#}, submitted := submitted w @ (if b then [t] else [])\<rparr>"
  have t: "t \<in># owed w" using Cons.prems(2) by (auto dest: mset_subset_eqD)
  have step: "task_step w ?w1" by (rule task_step.decrement [OF t f])
  have "mset ds \<subseteq># owed ?w1" using Cons.prems(2) by (simp add: insert_subset_eq_iff)
  moreover have "res_fold (\<lambda>t (ready, st'). res_bind (fetch_sub_counter t st') (\<lambda>(became_ready, st'').
      Inr (if became_ready then ready @ [t] else ready, st''))) ds
      (ready @ (if b then [t] else []), dep_state ?w1) = Inr (ready', st')"
    using Cons.prems(1) f by (cases b) auto
  ultimately obtain new where new: "ready' = (ready @ (if b then [t] else [])) @ new"
    "task_step\<^sup>*\<^sup>* ?w1 (?w1\<lparr>dep_state := st', owed := owed ?w1 - mset ds, submitted := submitted ?w1 @ new\<rparr>)"
    using Cons.IH by blast
  with step show ?case
    by (intro exI [of _ "(if b then [t] else []) @ new"]) (auto intro: converse_rtranclp_into_rtranclp)
qed

section \<open>Properties\<close>

text \<open>
  C32. Dependency release is safe. In every reachable state of an execution (every
  interleaving of finishing tasks and of single counter decrements by concurrent releases),
  every task has been submitted at most once, only active tasks are submitted, and a task is
  submitted only after each of its active dependencies has finished.
\<close>

theorem task_release_safe:
  assumes "reachable (task_init tasks active_ids dependency_ids) task_step w"
  shows "distinct (submitted w) \<and> set (submitted w) \<subseteq> active_set tasks active_ids
    \<and> (\<forall>t d. t \<in> set (submitted w) \<and> (d, t) \<in> set (task_edges tasks active_ids dependency_ids) \<longrightarrow> d \<in> completed w)"
proof -
  have inv: "task_sys_inv tasks active_ids dependency_ids w" by (rule task_sys.reachable_inv [OF assms])
  have "d \<in> completed w" if "t \<in> set (submitted w)" "(d, t) \<in> set (task_edges tasks active_ids dependency_ids)" for d t
  proof -
    have "open_edges (task_edges tasks active_ids dependency_ids) (completed w) t = 0"
      using inv that(1) unfolding task_sys_inv_def task_inv_def by blast
    with that(2) show ?thesis by (force simp: open_edges_def filter_empty_conv)
  qed
  with inv show ?thesis by (auto simp: task_sys_inv_def task_inv_def)
qed

text \<open>
  Dependency release makes progress. When the dependencies between active tasks have no
  cycle, every reachable state either has finished all active tasks or has a step, and every
  step reduces the work left; so every execution ends, with all active tasks finished.
\<close>

theorem task_release_complete:
  assumes "reachable (task_init tasks active_ids dependency_ids) task_step w"
    and "acyclic (set (task_edges tasks active_ids dependency_ids))"
  shows "((\<exists>w'. task_step w w') \<or> completed w = active_set tasks active_ids)
    \<and> (\<forall>w'. task_step w w' \<longrightarrow>
         task_work (task_edges tasks active_ids dependency_ids) (active_set tasks active_ids) w'
           < task_work (task_edges tasks active_ids dependency_ids) (active_set tasks active_ids) w)"
proof -
  have inv: "task_inv (length tasks) (task_edges tasks active_ids dependency_ids) (active_set tasks active_ids) w"
    using task_sys.reachable_inv [OF assms(1)] by (simp add: task_sys_inv_def)
  show ?thesis
    using task_progress [OF inv active_set_range assms(2) task_edges_active]
      task_step_work [OF inv active_set_range] by blast
qed

text \<open>
  The sequential routine the workers call is one of those interleavings: releasing the
  dependents of a submitted, unfinished task is a run of the transition system that finishes
  the task, makes all its decrements, submits exactly the tasks the routine returns, and
  leaves the counters the routine leaves.
\<close>

theorem release_dependents_refines:
  assumes "release_dependents t (dep_state w) = Inr (ready, st)" "t \<in> set (submitted w)" "t \<notin> completed w"
  shows "task_step\<^sup>*\<^sup>* w (w\<lparr>dep_state := st, completed := insert t (completed w), submitted := submitted w @ ready\<rparr>)"
proof -
  obtain ds where ds: "vec_at (dependents_map (dep_state w)) t = Inr ds"
    using assms(1) by (auto simp: release_dependents_def res_simps)
  let ?w1 = "w\<lparr>completed := insert t (completed w), owed := owed w + mset ds\<rparr>"
  have "task_step w ?w1" by (rule task_step.finish [OF assms(2,3) ds])
  moreover have "\<exists>new. ready = [] @ new
    \<and> task_step\<^sup>*\<^sup>* ?w1 (?w1\<lparr>dep_state := st, owed := owed ?w1 - mset ds, submitted := submitted ?w1 @ new\<rparr>)"
    using assms(1) ds by (intro release_loop_steps) (simp_all add: release_dependents_def)
  ultimately have "task_step\<^sup>*\<^sup>* w (?w1\<lparr>dep_state := st, owed := owed ?w1 - mset ds, submitted := submitted ?w1 @ ready\<rparr>)"
    by (auto intro: converse_rtranclp_into_rtranclp)
  moreover have "?w1\<lparr>dep_state := st, owed := owed ?w1 - mset ds, submitted := submitted ?w1 @ ready\<rparr>
      = w\<lparr>dep_state := st, completed := insert t (completed w), submitted := submitted w @ ready\<rparr>"
    by (cases w) simp
  ultimately show ?thesis by (simp only:)
qed

subsection \<open>A concrete execution\<close>

definition demo_task :: "int \<Rightarrow> int list \<Rightarrow> PlannedTask" where
  "demo_task i deps =
     \<lparr>task_id = i, task_node_id = i, task_kind = NodeTask, task_domain = HighPrecision,
      output_roi = empty_rect, task_tile_x = - 1, task_tile_y = - 1, task_tile_size = 0,
      task_whole_output = False, source_boundary_eligible = False, dirty_selected = False,
      dirty_generation = 0, dependency_task_ids = deps\<rparr>"

definition demo_tasks :: "PlannedTask list" where
  "demo_tasks = [demo_task 0 [], demo_task 1 [0, 0]]"

definition demo_state :: TaskDependencyState where
  "demo_state = \<lparr>id_to_idx = Map.empty, dependency_counters = [0, 2], dependents_map = [[1, 1], []],
     active_tasks = [True, True]\<rparr>"

lemma demo_build: "build_dependency_state Map.empty demo_tasks None None = Inr demo_state"
  by (simp add: build_dependency_state_def demo_tasks_def demo_task_def demo_state_def task_is_active_def
      add_dependency_def vec_at_def Let_def)

definition demo_world :: task_world where
  "demo_world = \<lparr>dep_state = demo_state, submitted = [0], completed = {}, owed = {#}\<rparr>"

lemma demo_reachable: "reachable (task_init demo_tasks None None) task_step demo_world"
proof (rule reachable_init)
  have "dense_tasks demo_tasks" by (auto simp: dense_tasks_def demo_tasks_def demo_task_def)
  moreover have "task_start demo_state demo_world"
    unfolding task_start_def
  proof (intro exI conjI)
    show "res_fold (append_initial_task_identity demo_state) [0, 1] [] = Inr [0]"
      by (simp add: append_initial_task_identity_def ready_for_initial_submit_def vec_at_def demo_state_def)
    show "{i. vec_at (active_tasks demo_state) i = Inr True} \<subseteq> set [0, 1]"
      by (auto simp: vec_at_def demo_state_def split: if_splits)
  qed (simp add: demo_world_def)
  ultimately show "task_init demo_tasks None None demo_world"
    using demo_build by (auto simp: task_init_def)
qed

theorem task_release_safe_witness:
  "reachable (task_init demo_tasks None None) task_step demo_world \<and> distinct (submitted demo_world)"
  using task_release_safe [OF demo_reachable] demo_reachable by blast

theorem task_release_complete_witness:
  "acyclic (set (task_edges demo_tasks None None)) \<and> (\<exists>w'. task_step demo_world w')"
proof -
  have E: "set (task_edges demo_tasks None None) = {(0, 1)}"
    by (auto simp: task_edges_def demo_tasks_def demo_task_def task_is_active_def task_deps_def)
  have acyc: "acyclic (set (task_edges demo_tasks None None))"
    unfolding E by (simp add: acyclic_insert) (simp add: acyclic_def)
  have "0 \<in> active_set demo_tasks None"
    by (simp add: active_set_def task_is_active_def demo_tasks_def)
  then have "completed demo_world \<noteq> active_set demo_tasks None" by (auto simp: demo_world_def)
  with task_release_complete [OF demo_reachable acyc] acyc show ?thesis by blast
qed

theorem release_dependents_refines_witness:
  "\<exists>st. release_dependents 0 demo_state = Inr ([1], st)
     \<and> task_step\<^sup>*\<^sup>* demo_world (demo_world\<lparr>dep_state := st, completed := {0}, submitted := [0, 1]\<rparr>)"
proof -
  obtain st where st: "release_dependents 0 demo_state = Inr ([1], st)"
    by (simp add: release_dependents_def fetch_sub_counter_def vec_at_def demo_state_def)
  with release_dependents_refines [of 0 demo_world "[1]" st] show ?thesis
    by (simp add: demo_world_def)
qed

end
