(* ===== verification/Supersession.thy ===== *)
theory Supersession
  imports PS_Prelude
begin

text \<open>
  Supersession identities: \<open>src/lib/compute/compute_supersession.hpp\<close> and \<open>.cpp\<close>. A lineage
  key is a target node and a request intent; generations are nonzero 64-bit values from an
  allocator that issues each value at most once and then reports exhaustion.
\<close>

section \<open>Keys\<close>

text \<open>
  The underlying type of the C++ enumeration is \<open>int\<close>; \<open>Other_Intent n\<close> is the value
  \<open>n + 2\<close>, which no enumerator names.
\<close>

datatype ComputeIntent = GlobalHighPrecision | RealTimeUpdate | Other_Intent nat

datatype SupersessionKey = SupersessionKey (target_node_id: int) (request_intent: ComputeIntent)

fun intent_rank :: "ComputeIntent \<Rightarrow> nat" where
  "intent_rank GlobalHighPrecision = 0"
| "intent_rank RealTimeUpdate = 1"
| "intent_rank (Other_Intent n) = n + 2"

lemma intent_rank_inject [simp]: "intent_rank a = intent_rank b \<longleftrightarrow> a = b"
  by (cases a; cases b) auto

definition make_supersession_key :: "int \<Rightarrow> ComputeIntent \<Rightarrow> SupersessionKey res" where
  "make_supersession_key node intent =
     (if node < 0 then Inl Invalid_Argument
      else if intent \<noteq> GlobalHighPrecision \<and> intent \<noteq> RealTimeUpdate then Inl Invalid_Argument
      else Inr (SupersessionKey node intent))"

definition normalize_supersession_intent :: "ComputeIntent option \<Rightarrow> ComputeIntent res" where
  "normalize_supersession_intent intent =
     (let normalized = (case intent of None \<Rightarrow> GlobalHighPrecision | Some i \<Rightarrow> i) in
      if normalized \<noteq> GlobalHighPrecision \<and> normalized \<noteq> RealTimeUpdate then Inl Invalid_Argument
      else Inr normalized)"

text \<open>The order of the row map, \<^verbatim>\<open>operator<\<close>: lexicographic in target and intent. It is a linear order.\<close>

definition supersession_key_less :: "SupersessionKey \<Rightarrow> SupersessionKey \<Rightarrow> bool" where
  "supersession_key_less a b \<longleftrightarrow> target_node_id a < target_node_id b
     \<or> (target_node_id a = target_node_id b \<and> intent_rank (request_intent a) < intent_rank (request_intent b))"

instantiation SupersessionKey :: linorder
begin

definition less_SupersessionKey :: "SupersessionKey \<Rightarrow> SupersessionKey \<Rightarrow> bool" where
  "a < b \<longleftrightarrow> supersession_key_less a b"

definition less_eq_SupersessionKey :: "SupersessionKey \<Rightarrow> SupersessionKey \<Rightarrow> bool" where
  "a \<le> b \<longleftrightarrow> a < b \<or> (a :: SupersessionKey) = b"

instance
proof
  fix a b c :: SupersessionKey
  have eq: "a = b \<longleftrightarrow> target_node_id a = target_node_id b \<and> intent_rank (request_intent a) = intent_rank (request_intent b)"
    for a b :: SupersessionKey
    by (cases a; cases b) simp
  show "(a < b) = (a \<le> b \<and> \<not> b \<le> a)" "a \<le> a" "a \<le> b \<Longrightarrow> b \<le> c \<Longrightarrow> a \<le> c"
    "a \<le> b \<Longrightarrow> b \<le> a \<Longrightarrow> a = b" "a \<le> b \<or> b \<le> a"
    unfolding less_SupersessionKey_def less_eq_SupersessionKey_def supersession_key_less_def eq by (auto simp del: intent_rank_inject)
qed

end

section \<open>Generations\<close>

definition make_supersession_generation :: "u64 \<Rightarrow> u64 res" where
  "make_supersession_generation v = (if v = 0 then Inl Invalid_Argument else Inr v)"

record GenerationAllocator =
  next_value :: u64
  exhausted :: bool

definition make_allocator :: "u64 \<Rightarrow> GenerationAllocator res" where
  "make_allocator v = (if v = 0 then Inl Invalid_Argument else Inr \<lparr>next_value = v, exhausted = False\<rparr>)"

definition allocate :: "GenerationAllocator \<Rightarrow> (u64 \<times> GenerationAllocator) res" where
  "allocate al =
     (if exhausted al then Inl Overflow_Error
      else res_bind (make_supersession_generation (next_value al)) (\<lambda>result.
        Inr (result,
             if next_value al = u64_max then al\<lparr>exhausted := True\<rparr>
             else al\<lparr>next_value := next_value al + 1\<rparr>)))"

text \<open>
  \<open>unissued al g\<close>: the allocator can still issue \<open>g\<close>. An allocator in use never holds zero.
\<close>

definition allocator_ok :: "GenerationAllocator \<Rightarrow> bool" where
  "allocator_ok al \<longleftrightarrow> next_value al \<noteq> 0"

definition unissued :: "GenerationAllocator \<Rightarrow> u64 \<Rightarrow> bool" where
  "unissued al g \<longleftrightarrow> \<not> exhausted al \<and> next_value al \<le> g"

lemma allocate_Inr:
  assumes "allocate al = Inr (g, al')" "allocator_ok al"
  shows "unissued al g" "\<not> unissued al' g" "allocator_ok al'" "g \<noteq> 0" "unissued al' h \<Longrightarrow> unissued al h"
    "unissued al' h \<Longrightarrow> g < h"
proof -
  have g: "g = next_value al" "\<not> exhausted al" "g \<noteq> 0"
    and al': "al' = (if g = u64_max then al\<lparr>exhausted := True\<rparr> else al\<lparr>next_value := g + 1\<rparr>)"
    using assms by (auto simp: allocate_def make_supersession_generation_def allocator_ok_def split: if_splits)
  have less: "g < g + 1" if "g \<noteq> u64_max" using succ_no_wrap_less [OF that] .
  show "unissued al g" "\<not> unissued al' g" "allocator_ok al'" "g \<noteq> 0"
    using g al' less by (auto simp: unissued_def allocator_ok_def split: if_splits)
  show "unissued al h" if "unissued al' h"
    using that g al' less by (auto simp: unissued_def split: if_splits)
  show "g < h" if "unissued al' h"
    using that g al' less by (auto simp: unissued_def split: if_splits)
qed

lemma allocate_cases:
  assumes "allocator_ok al"
  obtains (issued) g al' where "allocate al = Inr (g, al')" "\<not> exhausted al"
  | (exhausted) "allocate al = Inl Overflow_Error" "exhausted al"
  using assms by (auto simp: allocate_def make_supersession_generation_def allocator_ok_def)

text \<open>Repeated allocation.\<close>

primrec allocate_many :: "nat \<Rightarrow> GenerationAllocator \<Rightarrow> u64 list \<times> GenerationAllocator" where
  "allocate_many 0 al = ([], al)"
| "allocate_many (Suc n) al =
     (case allocate al of
        Inl _ \<Rightarrow> ([], al)
      | Inr (g, al') \<Rightarrow> (case allocate_many n al' of (gs, al'') \<Rightarrow> (g # gs, al'')))"

lemma allocate_many_unissued:
  assumes "allocator_ok al"
  shows "\<forall>g \<in> set (fst (allocate_many n al)). unissued al g \<and> g \<noteq> 0"
  using assms
proof (induction n arbitrary: al)
  case (Suc n)
  show ?case
  proof (cases "allocate al")
    case (Inr r)
    obtain g al' where r: "allocate al = Inr (g, al')" using Inr by (cases r) auto
    note f = allocate_Inr [OF r Suc.prems]
    from Suc.IH [OF f(3)] f r show ?thesis by (auto split: prod.splits)
  qed simp
qed simp

section \<open>Properties\<close>

text \<open>
  The allocator issues every generation from its start to the 64-bit maximum exactly once,
  in strictly increasing order, never zero, and afterwards reports overflow for ever: of any
  number of requests the issued values are the consecutive ones, and fewer values than
  requests means the maximum was the last.
\<close>

theorem allocator_consecutive:
  assumes "make_allocator v = Inr al"
  shows "let (gs, al') = allocate_many n al in
     map unat gs = [unat v ..< unat v + length gs]
     \<and> length gs = min n (2 ^ 64 - unat v)
     \<and> (exhausted al' \<longleftrightarrow> 2 ^ 64 - unat v \<le> n)"
proof -
  have "map unat (fst (allocate_many n al)) = [unat (next_value al) ..< unat (next_value al) + length (fst (allocate_many n al))]
      \<and> length (fst (allocate_many n al)) = min n (2 ^ 64 - unat (next_value al))
      \<and> (exhausted (snd (allocate_many n al)) \<longleftrightarrow> 2 ^ 64 - unat (next_value al) \<le> n)"
    if "next_value al \<noteq> 0" "\<not> exhausted al" for al
    using that
  proof (induction n arbitrary: al)
    case 0
    then show ?case using unat_u64_bound [of "next_value al"] by simp
  next
    case (Suc n)
    let ?v = "next_value al"
    show ?case
    proof (cases "?v = u64_max")
      case True
      have stop: "allocate_many n (al\<lparr>exhausted := True\<rparr>) = ([], al\<lparr>exhausted := True\<rparr>)"
        by (cases n) (simp_all add: allocate_def)
      have "unat ?v = 2 ^ 64 - 1" using True unat_u64_max by simp
      with True Suc.prems stop show ?thesis
        by (simp add: allocate_def make_supersession_generation_def)
    next
      case False
      let ?al = "al\<lparr>next_value := ?v + 1\<rparr>"
      have v: "unat (?v + 1) = Suc (unat ?v)" by (rule unat_succ_no_wrap [OF False])
      then have nz: "?v + 1 \<noteq> 0" by (metis nat.distinct(1) unat_0)
      have r: "allocate al = Inr (?v, ?al)"
        using False Suc.prems by (simp add: allocate_def make_supersession_generation_def)
      obtain gs al' where gs: "allocate_many n ?al = (gs, al')" by force
      have IH: "map unat gs = [Suc (unat ?v) ..< Suc (unat ?v) + length gs]"
        "length gs = min n (2 ^ 64 - Suc (unat ?v))" "exhausted al' \<longleftrightarrow> 2 ^ 64 - Suc (unat ?v) \<le> n"
        using Suc.IH [of ?al] nz Suc.prems gs v by simp_all
      have "unat ?v < 2 ^ 64 - 1"
        using unat_u64_bound [of "?v + 1"] v by linarith
      then show ?thesis using r gs IH by (auto simp: upt_rec [of "unat ?v"])
    qed
  qed
  from this [of al] assms show ?thesis
    by (auto simp: make_allocator_def case_prod_beta split: if_splits)
qed

theorem allocator_consecutive_witness:
  "let (gs, al') = allocate_many 3 \<lparr>next_value = u64_max - 1, exhausted = False\<rparr>
   in length gs = 2 \<and> exhausted al'"
proof -
  have "make_allocator (u64_max - 1) = Inr \<lparr>next_value = u64_max - 1, exhausted = False\<rparr>"
    by (simp add: make_allocator_def u64_max_def)
  from allocator_consecutive [OF this, of 3] show ?thesis
    by (simp add: case_prod_beta u64_max_def)
qed

end
