(* ===== verification/TaskPopulation.thy ===== *)
theory TaskPopulation
  imports TaskDependency Supersession RoiPropagation
begin

text \<open>
  From planned nodes to tasks (\<^verbatim>\<open>src/lib/compute/task_population_strategy.cpp\<close> and the plan types of \<^verbatim>\<open>task_graph_planning.hpp\<close>): a node
  with a tiled implementation and a known extent becomes one task per tile, any other node one task. The operation registry is a parameter: whether the
  implementation selected for an intent is tiled, the metadata of an operation for a domain, and its dirty propagator.
\<close>

section \<open>Plans\<close>

datatype TileSizePreference = UNDEFINED | MICRO | MACRO

datatype InputAccessPattern = SpatialAligned | RandomAccess

record OpMetadata =
  tile_preference :: TileSizePreference
  access_pattern :: InputAccessPattern

record PlanOperators =
  resolve_for_intent :: "string \<Rightarrow> string \<Rightarrow> ComputeIntent \<Rightarrow> bool option"
  metadata_for_domain :: "string \<Rightarrow> string \<Rightarrow> DirtyDomain \<Rightarrow> OpMetadata option"
  plan_propagator :: "Node \<Rightarrow> PixelRect \<Rightarrow> PixelSize \<Rightarrow> PixelSize list \<Rightarrow> ParameterMap \<Rightarrow> PixelRect res"

record PlannedDependency =
  dep_from :: int
  dep_to :: int
  dep_domain :: DirtyDomain
  dep_kind :: string
  dep_from_roi :: PixelRect
  dep_to_roi :: PixelRect
  dep_direction :: DirtyEdgeDirection

record PlannedNodeWork =
  work_node_id :: int
  work_domain :: DirtyDomain
  represented_hp_roi :: PixelRect
  execution_roi :: PixelRect
  work_whole_output :: bool
  reusable_cache_available :: bool
  work_dirty_rois :: "PixelRect list"
  dependency_node_ids :: "int list"
  dependent_node_ids :: "int list"
  work_task_ids :: "int list"

record ComputeTaskGraph =
  graph_tasks :: "PlannedTask list"
  graph_dependencies :: "PlannedDependency list"
  initial_task_ids :: "int list"

record ComputeRequest =
  req_intent :: ComputeIntent
  req_target :: int
  req_parallel :: bool

record ComputePlan =
  plan_intent :: ComputeIntent
  plan_target :: int
  plan_parallel :: bool
  execution_order :: "int list"
  planned_nodes :: "int list"
  planned_work :: "PlannedNodeWork list"
  task_graph :: ComputeTaskGraph

section \<open>Dirty metadata\<close>

definition is_dirty_source :: "DirtyRegionSnapshot option \<Rightarrow> int \<Rightarrow> bool" where
  "is_dirty_source snapshot i = (case snapshot of None \<Rightarrow> False | Some s \<Rightarrow> i \<in> set (dirty_source_nodes s))"

definition merge_all :: "PixelRect list \<Rightarrow> PixelRect \<Rightarrow> PixelRect" where
  "merge_all rois merged = fold (\<lambda>roi merged. merge_rect merged roi) rois merged"

definition dirty_roi_for_node :: "DirtyRegionSnapshot option \<Rightarrow> int \<Rightarrow> DirtyDomain \<Rightarrow> PixelRect" where
  "dirty_roi_for_node snapshot i domain = (case snapshot of
     None \<Rightarrow> empty_rect
   | Some s \<Rightarrow>
       merge_all (map mono_pixel_roi (filter (\<lambda>r. mono_domain r = domain \<and> mono_node_id r = i) (dirty_monolithic_nodes s)))
       (merge_all (map tile_pixel_roi (filter (\<lambda>t. tile_domain t = domain \<and> tile_node_id t = i) (dirty_tiles s)))
       (merge_all (list_at (per_node_dirty_rois s) i)
       (merge_all (map source_roi (filter (\<lambda>r. roi_domain r = domain) (list_at (source_roi_records s) i)))
       (merge_all (list_at (actual_dirty_rois s) i) empty_rect)))))"

definition intersects_dirty_roi :: "PlannedTask \<Rightarrow> DirtyRegionSnapshot option \<Rightarrow> bool" where
  "intersects_dirty_roi task snapshot = (case snapshot of
     None \<Rightarrow> True
   | Some s \<Rightarrow>
       let dirty_roi = dirty_roi_for_node snapshot (task_node_id task) (task_domain task)
       in if rect_width dirty_roi \<le> 0 \<or> rect_height dirty_roi \<le> 0 then False
          else if rect_width (output_roi task) \<le> 0 \<or> rect_height (output_roi task) \<le> 0 then True
          else \<not> is_rect_empty (intersect_rect (output_roi task) dirty_roi))"

definition apply_task_dirty_metadata :: "DirtyRegionSnapshot option \<Rightarrow> PlannedTask \<Rightarrow> PlannedTask" where
  "apply_task_dirty_metadata snapshot task =
     task\<lparr>source_boundary_eligible := is_dirty_source snapshot (task_node_id task),
          dirty_generation := (case snapshot of None \<Rightarrow> 0 | Some s \<Rightarrow> graph_generation s),
          dirty_selected := intersects_dirty_roi task snapshot\<rparr>"

section \<open>Population\<close>

definition selected_task_kind :: "PlanOperators \<Rightarrow> DirtyDomain \<Rightarrow> Node \<Rightarrow> PlannedTaskKind" where
  "selected_task_kind ops domain nd =
    (let intent = (if domain = RealTime then RealTimeUpdate else GlobalHighPrecision)
     in case resolve_for_intent ops (node_type nd) (node_subtype nd) intent of
          None \<Rightarrow> NodeTask
        | Some tiled \<Rightarrow> if tiled then TileTask else MonolithicTask)"

definition tile_size_for_node :: "PlanOperators \<Rightarrow> DirtyDomain \<Rightarrow> Node \<Rightarrow> int" where
  "tile_size_for_node ops domain nd =
    (case metadata_for_domain ops (node_type nd) (node_subtype nd) domain of
       None \<Rightarrow> 128
     | Some meta \<Rightarrow> if tile_preference meta = MICRO then 16 else if tile_preference meta = MACRO then 256 else 128)"

definition make_task :: "int \<Rightarrow> PlannedTaskKind \<Rightarrow> DirtyDomain \<Rightarrow> PixelRect \<Rightarrow> int \<Rightarrow> int \<Rightarrow> int \<Rightarrow> bool \<Rightarrow> PlannedTask" where
  "make_task i kind domain roi tx ty ts whole =
    \<lparr>task_id = - 1, task_node_id = i, task_kind = kind, task_domain = domain, output_roi = roi, task_tile_x = tx, task_tile_y = ty,
     task_tile_size = ts, task_whole_output = whole, source_boundary_eligible = False, dirty_selected = False, dirty_generation = 0,
     dependency_task_ids = []\<rparr>"

text \<open>\<^verbatim>\<open>std::find_if\<close> on the planned work: the first entry of the node.\<close>

fun note_task :: "int \<Rightarrow> int \<Rightarrow> PlannedNodeWork list \<Rightarrow> PlannedNodeWork list" where
  "note_task i tid [] = []"
| "note_task i tid (w # ws) = (if work_node_id w = i then w\<lparr>work_task_ids := work_task_ids w @ [tid]\<rparr> # ws else w # note_task i tid ws)"

definition add_task :: "DirtyRegionSnapshot option \<Rightarrow> PlannedTask \<Rightarrow> ComputePlan \<Rightarrow> ComputePlan" where
  "add_task snapshot task p =
    (let tid = int (length (graph_tasks (task_graph p)));
         task' = apply_task_dirty_metadata snapshot (task\<lparr>task_id := tid\<rparr>)
     in p\<lparr>planned_work := note_task (task_node_id task') tid (planned_work p),
          task_graph := (task_graph p)\<lparr>graph_tasks := graph_tasks (task_graph p) @ [task']\<rparr>\<rparr>)"

text \<open>The coordinates \<open>0, step, 2 * step, \<dots>\<close> below a bound.\<close>

definition grid_steps :: "int \<Rightarrow> int \<Rightarrow> int list" where
  "grid_steps bound step = map (\<lambda>k. k * step) [0..(bound - 1) div step]"

definition tile_task :: "int \<Rightarrow> DirtyDomain \<Rightarrow> PixelSize \<Rightarrow> int \<Rightarrow> int \<Rightarrow> int \<Rightarrow> PlannedTask" where
  "tile_task i domain full ts x y =
     make_task i TileTask domain
       \<lparr>rect_x = x, rect_y = y, rect_width = min ts (size_width full - x), rect_height = min ts (size_height full - y)\<rparr>
       (cdiv x ts) (cdiv y ts) ts False"

definition append_tiled_tasks :: "PlanOperators \<Rightarrow> DirtyRegionSnapshot option \<Rightarrow> PlannedNodeWork \<Rightarrow> DirtyDomain \<Rightarrow> PixelSize \<Rightarrow> Node \<Rightarrow> ComputePlan \<Rightarrow> ComputePlan" where
  "append_tiled_tasks ops snapshot wk domain full nd p =
    (let ts = tile_size_for_node ops domain nd
     in fold (\<lambda>y. fold (\<lambda>x. add_task snapshot (tile_task (work_node_id wk) domain full ts x y)) (grid_steps (size_width full) ts))
          (grid_steps (size_height full) ts) p)"

definition append_graph_tasks_for_work :: "PlanOperators \<Rightarrow> DirtyRegionSnapshot option \<Rightarrow> ('d, 'p, 's, 'f) GraphModel \<Rightarrow> DirtyDomain \<Rightarrow> PlannedNodeWork
    \<Rightarrow> ComputePlan \<times> (int \<rightharpoonup> PixelSize) \<Rightarrow> (ComputePlan \<times> (int \<rightharpoonup> PixelSize)) res" where
  "append_graph_tasks_for_work ops snapshot g domain wk = (\<lambda>(p, cache).
    if \<not> has_node (work_node_id wk) g then Inr (p, cache)
    else res_bind (graph_node (work_node_id wk) g) (\<lambda>nd.
         res_bind (resolve_output_extent (Suc (length (nodes g))) g (work_node_id wk) cache) (\<lambda>(size, cache).
           let full = \<lparr>size_width = max 0 (size_width size), size_height = max 0 (size_height size)\<rparr>;
               selected_kind = selected_task_kind ops domain nd
           in if selected_kind = TileTask \<and> size_width full > 0 \<and> size_height full > 0
              then Inr (append_tiled_tasks ops snapshot wk domain full nd p, cache)
              else
                let kind = (if selected_kind = TileTask then NodeTask else selected_kind);
                    roi = (if size_width full > 0
                           then \<lparr>rect_x = 0, rect_y = 0, rect_width = size_width full, rect_height = size_height full\<rparr>
                           else execution_roi wk)
                in Inr (add_task snapshot (make_task (work_node_id wk) kind domain roi (- 1) (- 1) 0 (kind = MonolithicTask)) p, cache))))"

text \<open>Population iterates over the work of the plan, which it only extends with task ids.\<close>

definition populate :: "PlanOperators \<Rightarrow> DirtyRegionSnapshot option \<Rightarrow> DirtyDomain \<Rightarrow> ('d, 'p, 's, 'f) GraphModel \<Rightarrow> ComputePlan \<Rightarrow> ComputePlan res" where
  "populate ops snapshot domain g p =
     res_bind (res_fold (append_graph_tasks_for_work ops snapshot g domain) (planned_work p) (p, Map.empty)) (\<lambda>(p, _). Inr p)"

section \<open>Tasks on the grids of their nodes\<close>

definition planned_has_roi :: "PixelRect \<Rightarrow> bool" where
  "planned_has_roi roi \<longleftrightarrow> rect_width roi > 0 \<and> rect_height roi > 0"

definition gridable :: "PlannedTask \<Rightarrow> bool" where
  "gridable t \<longleftrightarrow> task_kind t = TileTask \<and> task_tile_size t > 0 \<and> task_tile_x t \<ge> 0 \<and> task_tile_y t \<ge> 0 \<and> planned_has_roi (output_roi t)"

abbreviation tasks_of :: "int \<Rightarrow> PlannedTask list \<Rightarrow> PlannedTask list" where
  "tasks_of i tasks \<equiv> filter (\<lambda>t. task_node_id t = i) tasks"

text \<open>A tile lies on the grid of its tile size and inside its cell.\<close>

definition on_grid :: "PlannedTask \<Rightarrow> bool" where
  "on_grid t \<longleftrightarrow> gridable t \<and> in_i32 (task_tile_x t) \<and> in_i32 (task_tile_y t)
     \<and> rect_x (output_roi t) = task_tile_x t * task_tile_size t \<and> rect_y (output_roi t) = task_tile_y t * task_tile_size t
     \<and> rect_width (output_roi t) \<le> task_tile_size t \<and> rect_height (output_roi t) \<le> task_tile_size t"

text \<open>Tasks numbered by position whose tiles lie on the grid of their node, one per coordinate.\<close>

definition tile_key :: "PlannedTask \<Rightarrow> int \<times> int \<times> int" where
  "tile_key t = (task_node_id t, task_tile_x t, task_tile_y t)"

definition is_tile :: "PlannedTask \<Rightarrow> bool" where
  "is_tile t \<longleftrightarrow> task_kind t = TileTask"

definition tile_shape :: "PlannedTask list \<Rightarrow> bool" where
  "tile_shape ts \<longleftrightarrow> (\<forall>t\<in>set ts. edge_rect (output_roi t) \<and> (is_tile t \<longrightarrow> on_grid t)) \<and> distinct (map tile_key (filter is_tile ts))"

definition grid_tasks :: "PlannedTask list \<Rightarrow> bool" where
  "grid_tasks tasks \<longleftrightarrow> (\<forall>k<length tasks. task_id (tasks ! k) = int k) \<and> tile_shape tasks"

lemma grid_tasks_unfold:
  assumes "grid_tasks tasks"
  shows "k < length tasks \<Longrightarrow> task_id (tasks ! k) = int k" "t \<in> set tasks \<Longrightarrow> edge_rect (output_roi t)"
    "t \<in> set tasks \<Longrightarrow> task_kind t = TileTask \<Longrightarrow> on_grid t"
    "t \<in> set tasks \<Longrightarrow> u \<in> set tasks \<Longrightarrow> task_kind t = TileTask \<Longrightarrow> task_kind u = TileTask \<Longrightarrow> tile_key t = tile_key u \<Longrightarrow> t = u"
  using assms by (auto simp: grid_tasks_def tile_shape_def is_tile_def distinct_map dest: inj_onD)

text \<open>Numbering and dirty metadata leave the shape of a task alone.\<close>

definition same_shape :: "PlannedTask \<Rightarrow> PlannedTask \<Rightarrow> bool" where
  "same_shape t u \<longleftrightarrow> task_node_id t = task_node_id u \<and> task_kind t = task_kind u \<and> task_domain t = task_domain u \<and> output_roi t = output_roi u
     \<and> task_tile_x t = task_tile_x u \<and> task_tile_y t = task_tile_y u \<and> task_tile_size t = task_tile_size u"

lemma same_shape_facts:
  assumes "same_shape t u"
  shows "is_tile t = is_tile u" "tile_key t = tile_key u" "on_grid t = on_grid u" "output_roi t = output_roi u" "task_node_id t = task_node_id u"
  using assms by (simp_all add: same_shape_def is_tile_def tile_key_def on_grid_def gridable_def)

lemma tile_shape_cong:
  assumes "list_all2 same_shape xs ys"
  shows "tile_shape xs = tile_shape ys"
proof -
  have "(\<forall>t\<in>set xs. edge_rect (output_roi t) \<and> (is_tile t \<longrightarrow> on_grid t)) \<longleftrightarrow> (\<forall>t\<in>set ys. edge_rect (output_roi t) \<and> (is_tile t \<longrightarrow> on_grid t))"
    using assms by (induction rule: list_all2_induct) (auto simp: same_shape_facts)
  moreover have "map tile_key (filter is_tile xs) = map tile_key (filter is_tile ys)"
    using assms by (induction rule: list_all2_induct) (auto simp: same_shape_facts)
  ultimately show ?thesis by (simp add: tile_shape_def)
qed

definition numbered_from :: "DirtyRegionSnapshot option \<Rightarrow> nat \<Rightarrow> PlannedTask list \<Rightarrow> PlannedTask list" where
  "numbered_from snapshot n ts = map (\<lambda>(k, t). apply_task_dirty_metadata snapshot (t\<lparr>task_id := int k\<rparr>)) (enumerate n ts)"

lemma numbered_from_shape: "list_all2 same_shape (numbered_from snapshot n ts) ts"
  by (simp add: numbered_from_def list_all2_conv_all_nth nth_enumerate_eq apply_task_dirty_metadata_def same_shape_def)

lemma numbered_grid: "tile_shape ts \<Longrightarrow> grid_tasks (numbered_from snapshot 0 ts)"
  using tile_shape_cong [OF numbered_from_shape]
  by (auto simp: grid_tasks_def numbered_from_def nth_enumerate_eq apply_task_dirty_metadata_def)

lemma add_tasks:
  "graph_tasks (task_graph (fold (add_task snapshot) ts p)) = graph_tasks (task_graph p) @ numbered_from snapshot (length (graph_tasks (task_graph p))) ts
   \<and> graph_dependencies (task_graph (fold (add_task snapshot) ts p)) = graph_dependencies (task_graph p)
   \<and> planned_nodes (fold (add_task snapshot) ts p) = planned_nodes p
   \<and> map work_node_id (planned_work (fold (add_task snapshot) ts p)) = map work_node_id (planned_work p)"
proof (induction ts arbitrary: p)
  case (Cons t ts)
  have "map work_node_id (note_task i tid ws) = map work_node_id ws" for i tid ws by (induction ws) auto
  with Cons show ?case by (simp add: add_task_def Let_def numbered_from_def)
qed (simp add: numbered_from_def)

section \<open>The tasks of a node\<close>

definition grid_of :: "int \<Rightarrow> DirtyDomain \<Rightarrow> PixelSize \<Rightarrow> int \<Rightarrow> PlannedTask list" where
  "grid_of i domain full ts = concat (map (\<lambda>y. map (\<lambda>x. tile_task i domain full ts x y) (grid_steps (size_width full) ts)) (grid_steps (size_height full) ts))"

definition planned_tasks :: "PlanOperators \<Rightarrow> ('d, 'p, 's, 'f) GraphModel \<Rightarrow> DirtyDomain \<Rightarrow> PlannedNodeWork \<Rightarrow> PlannedTask list" where
  "planned_tasks ops g domain wk = (case map_of (nodes g) (work_node_id wk) of
     None \<Rightarrow> []
   | Some nd \<Rightarrow>
       let s = node_extent g (work_node_id wk); full = \<lparr>size_width = max 0 (size_width s), size_height = max 0 (size_height s)\<rparr>;
           kind = selected_task_kind ops domain nd
       in if kind = TileTask \<and> size_width full > 0 \<and> size_height full > 0
          then grid_of (work_node_id wk) domain full (tile_size_for_node ops domain nd)
          else [make_task (work_node_id wk) (if kind = TileTask then NodeTask else kind) domain
                  (if size_width full > 0 then \<lparr>rect_x = 0, rect_y = 0, rect_width = size_width full, rect_height = size_height full\<rparr> else execution_roi wk)
                  (- 1) (- 1) 0 (kind = MonolithicTask)])"

lemma fold_concat_map: "fold f (concat (map h ys)) s = fold (\<lambda>y. fold f (h y)) ys s"
  by (induction ys arbitrary: s) auto

lemma append_tiled_tasks_grid:
  "append_tiled_tasks ops snapshot wk domain full nd p
    = fold (add_task snapshot) (grid_of (work_node_id wk) domain full (tile_size_for_node ops domain nd)) p"
  by (simp add: append_tiled_tasks_def grid_of_def fold_concat_map fold_map comp_def Let_def)

definition returns :: "'a res \<Rightarrow> ('a \<Rightarrow> bool) \<Rightarrow> bool" where
  "returns m P \<longleftrightarrow> (\<exists>x. m = Inr x \<and> P x)"

lemma returns_Inr [simp]: "returns (Inr x) P = P x"
  by (simp add: returns_def)

lemma returns_bind: "returns m P \<Longrightarrow> (\<And>x. P x \<Longrightarrow> returns (f x) Q) \<Longrightarrow> returns (res_bind m f) Q"
  by (auto simp: returns_def)

lemma returns_fold:
  assumes "P [] s" "\<And>xs x ys s. zs = xs @ x # ys \<Longrightarrow> P xs s \<Longrightarrow> returns (f x s) (P (xs @ [x]))"
  shows "returns (res_fold f zs s) (P zs)"
  using assms
proof (induction zs rule: rev_induct)
  case (snoc z zs)
  have "returns (res_fold f zs s) (P zs)" using snoc.prems by (intro snoc.IH) auto
  moreover have "returns (res_fold f [z] s) (P (zs @ [z]))" if "P zs s" for s
    using snoc.prems(2) [of zs z "[]" s] that by (auto simp: returns_def)
  ultimately show ?case unfolding res_fold_append by (rule returns_bind)
qed simp

lemma append_graph_tasks:
  assumes "graph_wf g" "extent_cache_ok g c"
  shows "returns (append_graph_tasks_for_work ops snapshot g domain wk (p, c))
    (\<lambda>(p', c'). p' = fold (add_task snapshot) (planned_tasks ops g domain wk) p \<and> extent_cache_ok g c')"
proof (cases "map_of (nodes g) (work_node_id wk)")
  case None
  then show ?thesis using assms by (simp add: append_graph_tasks_for_work_def planned_tasks_def has_node_def)
next
  case (Some nd)
  then have has: "has_node (work_node_id wk) g" "graph_node (work_node_id wk) g = Inr nd" by (auto simp: has_node_def graph_node_def require_node_def)
  obtain c1 where "get_size g (work_node_id wk) c = Inr (node_extent g (work_node_id wk), c1)" "extent_cache_ok g c1"
    using get_size_present [OF assms has(1)] .
  then show ?thesis using has Some
    by (simp add: append_graph_tasks_for_work_def planned_tasks_def get_size_def append_tiled_tasks_grid Let_def)
qed

lemma populate_returns:
  assumes "graph_wf g"
  shows "populate ops snapshot domain g p = Inr (fold (add_task snapshot) (concat (map (planned_tasks ops g domain) (planned_work p))) p)"
proof -
  have "returns (res_fold (append_graph_tasks_for_work ops snapshot g domain) (planned_work p) (p, Map.empty))
      (\<lambda>(p', c). p' = fold (add_task snapshot) (concat (map (planned_tasks ops g domain) (planned_work p))) p \<and> extent_cache_ok g c)"
    by (rule returns_fold [where P = "\<lambda>ws (p', c). p' = fold (add_task snapshot) (concat (map (planned_tasks ops g domain) ws)) p \<and> extent_cache_ok g c"])
      (use append_graph_tasks [OF assms] in \<open>auto simp: extent_cache_ok_def\<close>)
  then show ?thesis by (auto simp: populate_def returns_def)
qed

section \<open>Populated tasks lie on their grids\<close>

text \<open>Widths and heights of images are C++ \<^verbatim>\<open>int\<close>s.\<close>

definition int_sized :: "('d, 'p, 's, 'f) GraphModel \<Rightarrow> bool" where
  "int_sized g \<longleftrightarrow> (\<forall>(i, nd)\<in>set (nodes g). case own_extent nd of None \<Rightarrow> True | Some s \<Rightarrow> wf_size s)"

lemma extent_wf_size:
  assumes "int_sized g" "extent g i s"
  shows "wf_size s"
  using assms(2)
proof (induction rule: extent.induct)
  case (extent_own i nd s)
  then show ?case using assms(1) map_of_SomeD [of "nodes g" i nd] unfolding int_sized_def by fastforce
qed (simp_all add: geom_defs i32_defs)

lemma node_extent_wf_size:
  assumes "graph_wf g" "int_sized g" "has_node i g"
  shows "wf_size (node_extent g i)"
  using get_size_present [OF assms(1) _ assms(3), of Map.empty] extent_wf_size [OF assms(2)] by (metis extent_cache_ok_def option.distinct(1))

lemma tile_size_pos: "tile_size_for_node ops domain nd > 0"
  by (simp add: tile_size_for_node_def split: option.splits)

lemma grid_steps_iff:
  assumes "0 < step" "0 < bound"
  shows "x \<in> set (grid_steps bound step) \<longleftrightarrow> (\<exists>k. x = k * step \<and> 0 \<le> k \<and> x < bound)"
proof -
  have "k \<le> (bound - 1) div step \<longleftrightarrow> k * step < bound" for k
  proof
    assume "k \<le> (bound - 1) div step"
    then have "k * step \<le> (bound - 1) div step * step" using assms(1) by (intro mult_right_mono) auto
    also have "\<dots> \<le> bound - 1" using pos_mod_sign [OF assms(1), of "bound - 1"] div_mult_mod_eq [of "bound - 1" step] by linarith
    finally show "k * step < bound" by simp
  next
    assume "k * step < bound"
    then have "k * step div step \<le> (bound - 1) div step" using assms(1) by (intro zdiv_mono1) auto
    then show "k \<le> (bound - 1) div step" using assms(1) by simp
  qed
  then show ?thesis by (auto simp: grid_steps_def)
qed

lemma cdiv_multiple: "0 < step \<Longrightarrow> 0 \<le> k \<Longrightarrow> cdiv (k * step) step = k"
  by (simp add: cdiv_def)

lemma tile_task_on_grid:
  assumes "0 < ts" "wf_size full" "0 < size_width full" "0 < size_height full"
    "x \<in> set (grid_steps (size_width full) ts)" "y \<in> set (grid_steps (size_height full) ts)"
  shows "on_grid (tile_task i domain full ts x y)" "edge_rect (output_roi (tile_task i domain full ts x y))"
proof -
  obtain a b where ab: "x = a * ts" "0 \<le> a" "x < size_width full" "y = b * ts" "0 \<le> b" "y < size_height full"
    using assms(5,6) grid_steps_iff [OF assms(1,3)] grid_steps_iff [OF assms(1,4)] by auto
  have le: "a \<le> x" "b \<le> y" "0 \<le> x" "0 \<le> y" using ab assms(1) by (simp_all add: mult_le_cancel_left1 mult_nonneg_nonneg)
  show "on_grid (tile_task i domain full ts x y)"
    using ab le assms(1,2) by (auto simp: on_grid_def gridable_def tile_task_def make_task_def planned_has_roi_def cdiv_multiple wf_size_def in_i32_def int_min_def)
  show "edge_rect (output_roi (tile_task i domain full ts x y))"
    using ab le assms(1,2) by (auto simp: tile_task_def make_task_def geom_defs in_i32_def int_min_def)
qed

lemma set_grid_of: "set (grid_of i domain full ts)
    = {tile_task i domain full ts x y | x y. x \<in> set (grid_steps (size_width full) ts) \<and> y \<in> set (grid_steps (size_height full) ts)}"
  by (auto simp: grid_of_def)

lemma tile_key_tile_task: "tile_key (tile_task i domain full ts x y) = (i, cdiv x ts, cdiv y ts)" "is_tile (tile_task i domain full ts x y)"
    "task_node_id (tile_task i domain full ts x y) = i"
  by (simp_all add: tile_key_def tile_task_def make_task_def is_tile_def)

lemma distinct_rows:
  assumes "distinct (map f xs)" "distinct (map h ys)"
  shows "distinct (concat (map (\<lambda>y. map (\<lambda>x. (i, f x, h y)) xs) ys))"
  using assms(2) by (induction ys) (use assms(1) in \<open>auto simp: distinct_map inj_on_def\<close>)

lemma grid_keys_distinct:
  assumes "0 < ts" "0 < bound"
  shows "distinct (map (\<lambda>x. cdiv x ts) (grid_steps bound ts))"
proof -
  have "map (\<lambda>x. cdiv x ts) (grid_steps bound ts) = [0..(bound - 1) div ts]"
    using assms(1) by (auto simp: grid_steps_def cdiv_multiple intro!: map_idI)
  then show ?thesis by simp
qed

lemma grid_of_shape:
  assumes "0 < ts" "wf_size full" "0 < size_width full" "0 < size_height full"
  shows "tile_shape (grid_of i domain full ts)"
proof -
  have tiles: "filter is_tile (grid_of i domain full ts) = grid_of i domain full ts"
    by (rule filter_True) (auto simp: set_grid_of tile_key_tile_task)
  have keys: "map tile_key (grid_of i domain full ts)
      = concat (map (\<lambda>y. map (\<lambda>x. (i, cdiv x ts, cdiv y ts)) (grid_steps (size_width full) ts)) (grid_steps (size_height full) ts))"
    by (simp add: grid_of_def map_concat comp_def tile_key_tile_task)
  have "distinct (map tile_key (grid_of i domain full ts))"
    unfolding keys using grid_keys_distinct assms by (intro distinct_rows) auto
  then show ?thesis unfolding tile_shape_def tiles using tile_task_on_grid [OF assms] by (auto simp: set_grid_of)
qed

lemma planned_tasks_node: "t \<in> set (planned_tasks ops g domain wk) \<Longrightarrow> task_node_id t = work_node_id wk"
  by (auto simp: planned_tasks_def Let_def set_grid_of tile_key_tile_task make_task_def split: option.splits if_splits)

lemma planned_tasks_shape:
  assumes "graph_wf g" "int_sized g" "edge_rect (execution_roi wk)"
  shows "tile_shape (planned_tasks ops g domain wk)"
proof (cases "map_of (nodes g) (work_node_id wk)")
  case None
  then show ?thesis by (simp add: planned_tasks_def tile_shape_def)
next
  case (Some nd)
  have s: "wf_size (node_extent g (work_node_id wk))" using node_extent_wf_size [OF assms(1,2)] Some by (simp add: has_node_def)
  let ?full = "\<lparr>size_width = max 0 (size_width (node_extent g (work_node_id wk))), size_height = max 0 (size_height (node_extent g (work_node_id wk)))\<rparr>"
  have full: "wf_size ?full" using s by (auto simp: wf_size_def in_i32_def int_min_def int_max_def)
  show ?thesis
  proof (cases "selected_task_kind ops domain nd = TileTask \<and> size_width ?full > 0 \<and> size_height ?full > 0")
    case True
    then show ?thesis using Some grid_of_shape [OF tile_size_pos full] by (simp add: planned_tasks_def Let_def)
  next
    case False
    have "edge_rect \<lparr>rect_x = 0, rect_y = 0, rect_width = size_width ?full, rect_height = size_height ?full\<rparr>"
      using full by (auto simp: geom_defs i32_defs)
    with False Some assms(3) show ?thesis by (auto simp: planned_tasks_def Let_def tile_shape_def is_tile_def make_task_def)
  qed
qed

lemma tile_shape_append:
  assumes "tile_shape xs" "tile_shape ys" "\<And>t u. t \<in> set xs \<Longrightarrow> u \<in> set ys \<Longrightarrow> task_node_id t \<noteq> task_node_id u"
  shows "tile_shape (xs @ ys)"
  using assms by (fastforce simp: tile_shape_def tile_key_def)

lemma tile_shape_concat:
  assumes "\<And>x. x \<in> set xs \<Longrightarrow> tile_shape (f x)" "\<And>x t. x \<in> set xs \<Longrightarrow> t \<in> set (f x) \<Longrightarrow> task_node_id t = h x" "distinct (map h xs)"
  shows "tile_shape (concat (map f xs))"
  using assms
proof (induction xs)
  case (Cons x xs)
  then show ?case by (auto intro!: tile_shape_append) (metis image_eqI)
qed (simp add: tile_shape_def)

lemma populated_grid:
  assumes "graph_wf g" "int_sized g" "distinct (map work_node_id (planned_work p))" "\<forall>wk\<in>set (planned_work p). edge_rect (execution_roi wk)"
    "graph_tasks (task_graph p) = []" "populate ops snapshot domain g p = Inr p'"
  shows "grid_tasks (graph_tasks (task_graph p'))"
proof -
  have "tile_shape (concat (map (planned_tasks ops g domain) (planned_work p)))"
    by (rule tile_shape_concat [where h = work_node_id]) (use assms planned_tasks_shape [OF assms(1,2)] planned_tasks_node in auto)
  then show ?thesis using assms(5,6) populate_returns [OF assms(1), of ops snapshot domain p] numbered_grid by (auto simp: add_tasks)
qed

section \<open>Tiles cover the extent\<close>

lemma step_cover:
  fixes q :: int
  assumes "0 < ts" "0 \<le> q" "q < bound"
  shows "\<exists>x\<in>set (grid_steps bound ts). x \<le> q \<and> q < x + min ts (bound - x)"
proof -
  have "q div ts * ts \<le> q" "q < q div ts * ts + ts"
    using pos_mod_bound [OF assms(1), of q] pos_mod_sign [OF assms(1), of q] div_mult_mod_eq [of q ts] by linarith+
  moreover have "0 \<le> q div ts" using assms by (simp add: pos_imp_zdiv_nonneg_iff)
  ultimately show ?thesis using assms grid_steps_iff [of ts bound "q div ts * ts"] by (intro bexI [of _ "q div ts * ts"]) auto
qed

lemma grid_of_cover:
  assumes "0 < ts"
  shows "(\<Union>t\<in>set (grid_of i domain full ts). pixels (output_roi t)) = size_pixels full"
proof (intro equalityI subsetI)
  fix q assume "q \<in> size_pixels full"
  then obtain a b where q: "q = (a, b)" "0 \<le> a" "a < size_width full" "0 \<le> b" "b < size_height full" by (auto simp: size_pixels_def)
  obtain x y where "x \<in> set (grid_steps (size_width full) ts)" "x \<le> a" "a < x + min ts (size_width full - x)"
    "y \<in> set (grid_steps (size_height full) ts)" "y \<le> b" "b < y + min ts (size_height full - y)"
    using step_cover [OF assms q(2,3)] step_cover [OF assms q(4,5)] by blast
  then show "q \<in> (\<Union>t\<in>set (grid_of i domain full ts). pixels (output_roi t))"
    by (auto simp: set_grid_of q(1) pixels_def tile_task_def make_task_def intro!: exI [of _ "tile_task i domain full ts x y"])
next
  fix q assume "q \<in> (\<Union>t\<in>set (grid_of i domain full ts). pixels (output_roi t))"
  then obtain x y where xy: "x \<in> set (grid_steps (size_width full) ts)" "y \<in> set (grid_steps (size_height full) ts)"
    "q \<in> pixels (output_roi (tile_task i domain full ts x y))" by (auto simp: set_grid_of)
  have "0 \<le> x" "0 \<le> y" using xy(1,2) assms by (auto simp: grid_steps_def)
  with xy(3) show "q \<in> size_pixels full" by (auto simp: pixels_def size_pixels_def tile_task_def make_task_def)
qed

text \<open>Two tiles on the grid of one node share a pixel only if they are the same tile.\<close>

lemma on_grid_disjoint:
  assumes "on_grid t" "on_grid u" "task_tile_size t = task_tile_size u" "pixels (output_roi t) \<inter> pixels (output_roi u) \<noteq> {}"
  shows "task_tile_x t = task_tile_x u \<and> task_tile_y t = task_tile_y u"
proof -
  obtain a b where p: "(a, b) \<in> pixels (output_roi t)" "(a, b) \<in> pixels (output_roi u)" using assms(4) by auto
  have "a div task_tile_size v = task_tile_x v \<and> b div task_tile_size v = task_tile_y v" if "on_grid v" "(a, b) \<in> pixels (output_roi v)" for v
    using that by (auto simp: on_grid_def gridable_def pixels_def cell_interval)
  with p assms(1-3) show ?thesis by metis
qed

lemma planned_tasks_cover:
  assumes "graph_wf g" "has_node (work_node_id wk) g" "positive_size (node_extent g (work_node_id wk))"
  shows "(\<Union>t\<in>set (planned_tasks ops g domain wk). pixels (output_roi t)) = size_pixels (node_extent g (work_node_id wk))"
proof -
  obtain nd where nd: "map_of (nodes g) (work_node_id wk) = Some nd" using assms(2) by (auto simp: has_node_def)
  let ?s = "node_extent g (work_node_id wk)"
  have full: "\<lparr>size_width = max 0 (size_width ?s), size_height = max 0 (size_height ?s)\<rparr> = ?s"
    using assms(3) by (simp add: positive_size_def)
  have "pixels \<lparr>rect_x = 0, rect_y = 0, rect_width = size_width ?s, rect_height = size_height ?s\<rparr> = size_pixels ?s"
    by (simp add: pixels_def size_pixels_def)
  then show ?thesis using nd assms(3) grid_of_cover [OF tile_size_pos]
    unfolding planned_tasks_def Let_def full by (auto simp: positive_size_def make_task_def)
qed

lemma filter_concat_node:
  assumes "\<And>x t. t \<in> set (f x) \<Longrightarrow> task_node_id t = h x" "distinct (map h xs)" "x \<in> set xs"
  shows "tasks_of (h x) (concat (map f xs)) = f x"
  using assms(2,3)
proof (induction xs)
  case (Cons y ys)
  have other: "tasks_of (h x) (f z) = []" if "h z \<noteq> h x" for z using assms(1) [of _ z] that by (auto simp: filter_empty_conv)
  have self: "tasks_of (h x) (f x) = f x" using assms(1) by (auto intro!: filter_True)
  show ?case
  proof (cases "y = x")
    case True
    then have "tasks_of (h x) (concat (map f ys)) = []" using Cons.prems(1) assms(1) by (auto simp: filter_empty_conv rev_image_eqI)
    with True self show ?thesis by simp
  next
    case False
    then have "x \<in> set ys" "h y \<noteq> h x" using Cons.prems by auto
    with Cons other show ?thesis by simp
  qed
qed simp

lemma tasks_of_shape:
  assumes "list_all2 same_shape xs ys"
  shows "list_all2 same_shape (tasks_of i xs) (tasks_of i ys)"
  using assms by (induction rule: list_all2_induct) (auto simp: same_shape_facts(5))

text \<open>The tasks of a node: the tiles of one grid, or a single task.\<close>

lemma planned_tasks_kind:
  "length (planned_tasks ops g domain wk) \<le> 1
   \<or> (\<exists>ts. \<forall>t\<in>set (planned_tasks ops g domain wk). task_kind t = TileTask \<and> task_tile_size t = ts)"
  by (cases "map_of (nodes g) (work_node_id wk)")
    (auto simp: planned_tasks_def Let_def set_grid_of tile_task_def make_task_def)

lemma list_all2_partner: "list_all2 P xs ys \<Longrightarrow> x \<in> set xs \<Longrightarrow> \<exists>y\<in>set ys. P x y"
  by (induction rule: list_all2_induct) auto

lemma shapes_disjoint:
  assumes "grid_tasks tasks" "t \<in> set (tasks_of i tasks)" "u \<in> set (tasks_of i tasks)" "t \<noteq> u"
    and shape: "list_all2 same_shape (tasks_of i tasks) ys" "length ys \<le> 1 \<or> (\<exists>ts. \<forall>v\<in>set ys. task_kind v = TileTask \<and> task_tile_size v = ts)"
  shows "pixels (output_roi t) \<inter> pixels (output_roi u) = {}"
proof -
  have "\<not> length (tasks_of i tasks) \<le> 1"
  proof
    assume "length (tasks_of i tasks) \<le> 1"
    then obtain v where "tasks_of i tasks = [] \<or> tasks_of i tasks = [v]" by (cases "tasks_of i tasks") auto
    then have "t \<in> set [v]" "u \<in> set [v]" using assms(2,3) by (metis empty_iff list.set(1))+
    then show False using assms(4) by simp
  qed
  then obtain ts where ts: "\<forall>v\<in>set ys. task_kind v = TileTask \<and> task_tile_size v = ts" using shape list_all2_lengthD by fastforce
  have v: "task_kind v = TileTask \<and> task_tile_size v = ts" if v: "v \<in> set (tasks_of i tasks)" for v
  proof -
    obtain y where "y \<in> set ys" "same_shape v y" using list_all2_partner [OF shape(1) v] by blast
    with ts show ?thesis by (simp add: same_shape_def)
  qed
  show ?thesis
  proof (rule ccontr)
    assume "pixels (output_roi t) \<inter> pixels (output_roi u) \<noteq> {}"
    then have "task_tile_x t = task_tile_x u \<and> task_tile_y t = task_tile_y u"
      using v [OF assms(2)] v [OF assms(3)] grid_tasks_unfold(3) [OF assms(1)] assms(2,3) by (intro on_grid_disjoint) auto
    then show False using v [OF assms(2)] v [OF assms(3)] grid_tasks_unfold(4) [OF assms(1), of t u] assms(2-4) by (auto simp: tile_key_def)
  qed
qed

text \<open>
  C20. Population partitions the work. On a well-formed graph, populating a plan whose nodes are distinct never throws, and the tasks it
  creates for a planned node of known extent divide that extent: every pixel of the extent belongs to the region of exactly one task of the
  node, and no task reaches outside, whether the node is tiled or not and whatever its tile size.
\<close>

theorem populated_tasks_partition:
  assumes "graph_wf g" "int_sized g" "distinct (map work_node_id (planned_work p))" "\<forall>wk\<in>set (planned_work p). edge_rect (execution_roi wk)"
    "graph_tasks (task_graph p) = []" "i \<in> work_node_id ` set (planned_work p)" "has_node i g" "positive_size (node_extent g i)"
  shows "\<exists>p'. populate ops snapshot domain g p = Inr p'
    \<and> (\<Union>t\<in>set (tasks_of i (graph_tasks (task_graph p'))). pixels (output_roi t)) = size_pixels (node_extent g i)
    \<and> (\<forall>t\<in>set (tasks_of i (graph_tasks (task_graph p'))). \<forall>u\<in>set (tasks_of i (graph_tasks (task_graph p'))).
         t \<noteq> u \<longrightarrow> pixels (output_roi t) \<inter> pixels (output_roi u) = {})"
proof -
  obtain wk where wk: "wk \<in> set (planned_work p)" "i = work_node_id wk" using assms(6) by blast
  let ?L = "concat (map (planned_tasks ops g domain) (planned_work p))" and ?p = "fold (add_task snapshot) (concat (map (planned_tasks ops g domain) (planned_work p))) p"
  have run: "populate ops snapshot domain g p = Inr ?p" by (rule populate_returns [OF assms(1)])
  have grid: "grid_tasks (graph_tasks (task_graph ?p))" by (rule populated_grid [OF assms(1-5) run])
  have "tasks_of i ?L = planned_tasks ops g domain wk"
    unfolding wk(2) by (rule filter_concat_node) (use wk(1) assms(3) planned_tasks_node in auto)
  then have shape: "list_all2 same_shape (tasks_of i (graph_tasks (task_graph ?p))) (planned_tasks ops g domain wk)"
    using tasks_of_shape [OF numbered_from_shape, of i snapshot 0 ?L] assms(5) by (simp add: add_tasks)
  then have "output_roi ` set (tasks_of i (graph_tasks (task_graph ?p))) = output_roi ` set (planned_tasks ops g domain wk)"
    by (induction rule: list_all2_induct) (auto simp: same_shape_facts(4))
  then have "(\<Union>t\<in>set (tasks_of i (graph_tasks (task_graph ?p))). pixels (output_roi t)) = size_pixels (node_extent g i)"
    using planned_tasks_cover [OF assms(1), of wk ops domain] assms(7,8) wk(2) by (metis image_image)
  with run shapes_disjoint [OF grid _ _ _ shape planned_tasks_kind] show ?thesis by blast
qed

subsection \<open>Two frames of twenty by ten pixels, the second read from the first, in tiles of sixteen\<close>

definition demo_frame :: "int \<Rightarrow> int list \<Rightarrow> Node" where
  "demo_frame i sources = default_node\<lparr>node_id := i, image_inputs := map (\<lambda>d. \<lparr>img_from_node_id = d, img_from_output_name = []\<rparr>) sources,
     parameters := [''width'' \<mapsto> PV_Int 20, ''height'' \<mapsto> PV_Int 10]\<rparr>"

definition demo_frame_nodes :: NodeMap where
  "demo_frame_nodes = [(1, demo_frame 1 []), (2, demo_frame 2 [1])]"

definition demo_frames :: demo_graph where
  "demo_frames = demo_graph\<lparr>nodes := demo_frame_nodes, topology := build_topology_index demo_frame_nodes\<rparr>"

definition demo_plan_operators :: PlanOperators where
  "demo_plan_operators = \<lparr>resolve_for_intent = (\<lambda>t u intent. Some True),
     metadata_for_domain = (\<lambda>t u domain. Some \<lparr>tile_preference = MICRO, access_pattern = SpatialAligned\<rparr>),
     plan_propagator = (\<lambda>nd roi s ss params. Inr roi)\<rparr>"

definition demo_work_entry :: "int \<Rightarrow> PlannedNodeWork" where
  "demo_work_entry i =
    \<lparr>work_node_id = i, work_domain = HighPrecision, represented_hp_roi = empty_rect, execution_roi = empty_rect, work_whole_output = False,
     reusable_cache_available = False, work_dirty_rois = [], dependency_node_ids = [], dependent_node_ids = [], work_task_ids = []\<rparr>"

definition demo_frame_plan :: ComputePlan where
  "demo_frame_plan = \<lparr>plan_intent = GlobalHighPrecision, plan_target = 2, plan_parallel = True, execution_order = [1, 2], planned_nodes = [1, 2],
     planned_work = map demo_work_entry [1, 2], task_graph = \<lparr>graph_tasks = [], graph_dependencies = [], initial_task_ids = []\<rparr>\<rparr>"

lemma demo_frames_wf: "graph_wf demo_frames" "int_sized demo_frames" "has_node 1 demo_frames" "has_node 2 demo_frames"
proof -
  have "validate_node_map demo_frame_nodes = Inr ()"
    by (simp add: validate_node_map_def demo_frame_nodes_def demo_frame_def default_node_def node_deps_def)
  then show "graph_wf demo_frames" by (simp add: graph_wf_def demo_frames_def validate_node_map_Inr) (simp add: demo_frame_nodes_def)
  have "own_extent (demo_frame i sources) = Some \<lparr>size_width = 20, size_height = 10\<rparr>" for i sources
    by (simp add: own_extent_def demo_frame_def default_node_def as_int_flexible_def parameter_value_as_int_def i32_defs Let_def)
  then show "int_sized demo_frames" by (simp add: int_sized_def demo_frames_def demo_frame_nodes_def wf_size_def i32_defs)
qed (simp_all add: has_node_def demo_frames_def demo_frame_nodes_def)

lemma demo_frame_extent: "node_extent demo_frames 2 = \<lparr>size_width = 20, size_height = 10\<rparr>"
  by code_simp

lemma demo_populate:
  "case populate demo_plan_operators None HighPrecision demo_frames demo_frame_plan of
     Inr p \<Rightarrow> map output_roi (tasks_of 2 (graph_tasks (task_graph p)))
       = [\<lparr>rect_x = 0, rect_y = 0, rect_width = 16, rect_height = 10\<rparr>, \<lparr>rect_x = 16, rect_y = 0, rect_width = 4, rect_height = 10\<rparr>]
   | Inl _ \<Rightarrow> False"
  by code_simp

theorem populated_tasks_partition_witness:
  "\<exists>p. populate demo_plan_operators None HighPrecision demo_frames demo_frame_plan = Inr p
     \<and> length (tasks_of 2 (graph_tasks (task_graph p))) = 2
     \<and> \<Union> ((\<lambda>t. pixels (output_roi t)) ` set (tasks_of 2 (graph_tasks (task_graph p)))) = {0..<20} \<times> {0..<10}"
proof -
  obtain p where p: "populate demo_plan_operators None HighPrecision demo_frames demo_frame_plan = Inr p"
    "(\<Union>t\<in>set (tasks_of 2 (graph_tasks (task_graph p))). pixels (output_roi t)) = size_pixels (node_extent demo_frames 2)"
    using populated_tasks_partition [OF demo_frames_wf(1,2), of demo_frame_plan 2 demo_plan_operators None HighPrecision] demo_frames_wf(4)
    by (auto simp: demo_frame_plan_def demo_work_entry_def demo_frame_extent positive_size_def geom_defs i32_defs)
  have "length (map output_roi (tasks_of 2 (graph_tasks (task_graph p)))) = 2" using demo_populate unfolding p(1) by simp
  with p show ?thesis by (simp add: demo_frame_extent size_pixels_def)
qed

end
