(* ===== verification/TaskPlanning.thy ===== *)
theory TaskPlanning
  imports TaskPopulation "HOL-Library.Sublist"
begin

unbundle bit_operations_syntax

text \<open>
  Task graphs (\<^verbatim>\<open>src/lib/compute/task_graph_planning.cpp\<close>): expansion of the whole graph into tasks, pruning to the nodes of a request, and the
  selection of the tasks a dirty snapshot touches; each derives the dependencies between tasks from those between nodes, for tiles through an index of
  tile coordinates. Every caller passes a graph, and the expansion no snapshot. The input region of a tile
  (\<^verbatim>\<open>NodeExecutor::input_roi_for_tile\<close>) is modelled for the arguments the planner gives it.
\<close>

section \<open>Node dependencies\<close>

definition domain_for_intent :: "ComputeIntent \<Rightarrow> DirtyDomain" where
  "domain_for_intent intent = (if intent = RealTimeUpdate then RealTime else HighPrecision)"

definition append_unique :: "'a list \<Rightarrow> 'a \<Rightarrow> 'a list" where
  "append_unique values v = (if v \<in> set values then values else values @ [v])"

definition same_dependency :: "PlannedDependency \<Rightarrow> PlannedDependency \<Rightarrow> bool" where
  "same_dependency d n \<longleftrightarrow> dep_from d = dep_from n \<and> dep_to d = dep_to n \<and> dep_kind d = dep_kind n \<and> dep_domain d = dep_domain n"

fun add_dependency_record :: "PlannedDependency list \<Rightarrow> PlannedDependency \<Rightarrow> PlannedDependency list" where
  "add_dependency_record [] n = [n]"
| "add_dependency_record (d # ds) n =
    (if same_dependency d n
     then d\<lparr>dep_from_roi := merge_rect (dep_from_roi d) (dep_from_roi n), dep_to_roi := merge_rect (dep_to_roi d) (dep_to_roi n),
            dep_direction := dep_direction n\<rparr> # ds
     else d # add_dependency_record ds n)"

definition graph_dependency :: "DirtyDomain \<Rightarrow> int \<Rightarrow> GraphTopologyEdge \<Rightarrow> PlannedDependency" where
  "graph_dependency domain i edge =
    \<lparr>dep_from = from_node_id edge, dep_to = i, dep_domain = domain,
     dep_kind = (if edge_kind edge = ImageInputEdge then ''image'' else ''parameter''), dep_from_roi = empty_rect, dep_to_roi = empty_rect,
     dep_direction = BackwardDemand\<rparr>"

definition populate_dependencies_from_graph :: "int list \<Rightarrow> DirtyDomain \<Rightarrow> ('d, 'p, 's, 'f) GraphModel \<Rightarrow> PlannedDependency list \<Rightarrow> PlannedDependency list" where
  "populate_dependencies_from_graph planned domain g deps =
     fold (\<lambda>i deps. if \<not> has_node i g then deps
        else fold (\<lambda>edge deps. if from_node_id edge < 0 \<or> from_node_id edge \<notin> set planned then deps
                  else add_dependency_record deps (graph_dependency domain i edge)) (upstream_edges g i) deps) planned deps"

definition mapped_dependency :: "DirtyDomain \<Rightarrow> DirtyEdgeMapping \<Rightarrow> PlannedDependency" where
  "mapped_dependency domain edge =
    \<lparr>dep_from = map_from_node_id edge, dep_to = map_to_node_id edge, dep_domain = domain, dep_kind = ''image'', dep_from_roi = from_roi edge,
     dep_to_roi = to_roi edge, dep_direction = direction edge\<rparr>"

definition merged_overlay_dependencies :: "ComputePlan \<Rightarrow> DirtyRegionSnapshot \<Rightarrow> DirtyDomain \<Rightarrow> PlannedDependency list" where
  "merged_overlay_dependencies p snapshot domain =
     fold (\<lambda>edge deps. if map_domain edge \<noteq> domain then deps
        else if map_from_node_id edge \<notin> set (planned_nodes p) \<or> map_to_node_id edge \<notin> set (planned_nodes p) then deps
        else add_dependency_record deps (mapped_dependency domain edge)) (edge_mappings snapshot) (graph_dependencies (task_graph p))"

text \<open>The work entry of a node: the index map keeps the last one.\<close>

definition work_index :: "PlannedNodeWork list \<Rightarrow> int \<rightharpoonup> nat" where
  "work_index ws = map_of (rev (zip (map work_node_id ws) [0..<length ws]))"

definition update_work :: "int \<Rightarrow> (PlannedNodeWork \<Rightarrow> PlannedNodeWork) \<Rightarrow> PlannedNodeWork list \<Rightarrow> PlannedNodeWork list" where
  "update_work i f ws = (case work_index ws i of None \<Rightarrow> ws | Some k \<Rightarrow> ws[k := f (ws ! k)])"

definition populate_node_dependency_lists :: "ComputePlan \<Rightarrow> ComputePlan" where
  "populate_node_dependency_lists p =
     p\<lparr>planned_work := fold (\<lambda>d ws.
          update_work (dep_from d) (\<lambda>w. w\<lparr>dependent_node_ids := append_unique (dependent_node_ids w) (dep_to d)\<rparr>)
            (update_work (dep_to d) (\<lambda>w. w\<lparr>dependency_node_ids := append_unique (dependency_node_ids w) (dep_from d)\<rparr>) ws))
        (graph_dependencies (task_graph p))
        (map (\<lambda>w. w\<lparr>dependency_node_ids := [], dependent_node_ids := []\<rparr>) (planned_work p))\<rparr>"

section \<open>The tile index\<close>

definition rois_overlap :: "PixelRect \<Rightarrow> PixelRect \<Rightarrow> bool" where
  "rois_overlap up down \<longleftrightarrow> \<not> is_rect_empty (intersect_rect up down)"

definition tile_coordinate_key :: "int \<Rightarrow> int \<Rightarrow> int" where
  "tile_coordinate_key tx ty = push_bit 32 tx XOR take_bit 32 ty"

record NodeTaskDependencyIndex =
  index_task_ids :: "int list"
  non_grid_task_ids :: "int list"
  index_tile_size :: int
  grid_addressable :: bool
  tile_by_coordinate :: "(int \<times> int) list"

definition new_index :: NodeTaskDependencyIndex where
  "new_index = \<lparr>index_task_ids = [], non_grid_task_ids = [], index_tile_size = 0, grid_addressable = True, tile_by_coordinate = []\<rparr>"

definition add_task_to_dependency_index :: "PlannedTask \<Rightarrow> NodeTaskDependencyIndex \<Rightarrow> NodeTaskDependencyIndex" where
  "add_task_to_dependency_index task ix0 =
    (let ix = ix0\<lparr>index_task_ids := index_task_ids ix0 @ [task_id task]\<rparr>
     in if task_kind task \<noteq> TileTask \<or> task_tile_size task \<le> 0 \<or> task_tile_x task < 0 \<or> task_tile_y task < 0 \<or> \<not> planned_has_roi (output_roi task)
        then ix\<lparr>non_grid_task_ids := non_grid_task_ids ix @ [task_id task]\<rparr>
        else
          let ix1 = (if index_tile_size ix = 0 then ix\<lparr>index_tile_size := task_tile_size task\<rparr>
                     else if index_tile_size ix \<noteq> task_tile_size task then ix\<lparr>grid_addressable := False\<rparr> else ix)
          in ix1\<lparr>tile_by_coordinate := AList.update (tile_coordinate_key (task_tile_x task) (task_tile_y task)) (task_id task) (tile_by_coordinate ix1)\<rparr>)"

definition close_index :: "NodeTaskDependencyIndex \<Rightarrow> NodeTaskDependencyIndex" where
  "close_index ix =
    (if non_grid_task_ids ix \<noteq> [] \<or> index_tile_size ix \<le> 0 \<or> tile_by_coordinate ix = [] then ix\<lparr>grid_addressable := False\<rparr> else ix)"

definition index_tasks :: "PlannedTask list \<Rightarrow> int \<rightharpoonup> NodeTaskDependencyIndex" where
  "index_tasks tasks = fold (\<lambda>task m. m(task_node_id task \<mapsto>
     add_task_to_dependency_index task (case m (task_node_id task) of None \<Rightarrow> new_index | Some ix \<Rightarrow> ix))) tasks Map.empty"

definition build_task_dependency_index :: "PlannedTask list \<Rightarrow> int \<rightharpoonup> NodeTaskDependencyIndex" where
  "build_task_dependency_index tasks i = map_option close_index (index_tasks tasks i)"

section \<open>The region a task reads\<close>

definition resolve_planned_extent :: "('d, 'p, 's, 'f) GraphModel \<Rightarrow> int \<Rightarrow> (int \<rightharpoonup> PixelSize) \<Rightarrow> (PixelSize \<times> (int \<rightharpoonup> PixelSize)) res" where
  "resolve_planned_extent g i cache =
    (if \<not> has_node i g then Inr (empty_size, cache) else resolve_output_extent (Suc (length (nodes g))) g i cache)"

definition resolve_planned_input_extents :: "('d, 'p, 's, 'f) GraphModel \<Rightarrow> Node \<Rightarrow> (int \<rightharpoonup> PixelSize) \<Rightarrow> (PixelSize list \<times> (int \<rightharpoonup> PixelSize)) res" where
  "resolve_planned_input_extents g nd cache =
     res_fold (\<lambda>input (extents, cache).
        if img_from_node_id input \<ge> 0 \<and> has_node (img_from_node_id input) g
        then res_bind (resolve_planned_extent g (img_from_node_id input) cache) (\<lambda>(size, cache). Inr (extents @ [size], cache))
        else Inr (extents @ [empty_size], cache)) (image_inputs nd) ([], cache)"

definition needs_gaussian_halo :: "Node \<Rightarrow> bool" where
  "needs_gaussian_halo nd \<longleftrightarrow> node_type nd = ''image_process'' \<and> sublist ''gaussian_blur'' (node_subtype nd)"

text \<open>
  The planner leaves the forced halo unset and the halo size at its default of 16; it passes effective parameters whenever the access is
  random, and no available inputs. The metadata of a domain fall back to those of the operation, so without them the access is spatially aligned.
\<close>

definition input_roi_for_tile :: "PlanOperators \<Rightarrow> Node \<Rightarrow> PixelRect \<Rightarrow> PixelSize \<Rightarrow> PixelSize option \<Rightarrow> OpMetadata option \<Rightarrow> PixelSize list \<Rightarrow> ParameterMap
    \<Rightarrow> PixelRect res" where
  "input_roi_for_tile ops nd roi input_size out_size meta known_extents params =
    (let random = (case meta of None \<Rightarrow> False | Some m \<Rightarrow> access_pattern m = RandomAccess);
         right = rect_x roi + rect_width roi; bottom = rect_y roi + rect_height roi;
         inferred = (if right > 0 \<and> bottom > 0 \<and> right \<le> int_max \<and> bottom \<le> int_max then \<lparr>size_width = right, size_height = bottom\<rparr> else empty_size);
         extents = (if length known_extents = 1 then [input_size] else known_extents);
         clipped = (\<lambda>input_roi. let r = clip_rect input_roi input_size in if is_rect_empty r then clip_rect roi input_size else r)
     in if random
        then res_bind (plan_propagator ops nd roi (case out_size of None \<Rightarrow> inferred | Some s \<Rightarrow> s) extents params) (\<lambda>r. Inr (clipped r))
        else if needs_gaussian_halo nd then Inr (clipped (expand_rect roi 16))
        else Inr (clipped roi))"

definition required_upstream_roi_for_task :: "PlanOperators \<Rightarrow> PlannedDependency \<Rightarrow> PlannedTask \<Rightarrow> ('d, 'p, 's, 'f) GraphModel \<Rightarrow> (int \<rightharpoonup> PixelSize)
    \<Rightarrow> (PixelRect \<times> (int \<rightharpoonup> PixelSize)) res" where
  "required_upstream_roi_for_task ops d to_task g cache =
    (let fallback = (if planned_has_roi (dep_from_roi d) then dep_from_roi d else output_roi to_task)
     in if has_node (dep_from d) g \<and> has_node (dep_to d) g \<and> planned_has_roi (output_roi to_task)
        then res_bind (resolve_planned_extent g (dep_from d) cache) (\<lambda>(upstream_extent, cache).
          if size_width upstream_extent > 0 \<and> size_height upstream_extent > 0
          then res_bind (resolve_planned_extent g (dep_to d) cache) (\<lambda>(downstream_extent, cache).
               res_bind (graph_node (dep_to d) g) (\<lambda>nd.
               res_bind (resolve_planned_input_extents g nd cache) (\<lambda>(extents, cache).
               let meta = metadata_for_domain ops (node_type nd) (node_subtype nd) (task_domain to_task);
                   out_size = (if size_width downstream_extent > 0 \<and> size_height downstream_extent > 0 then Some downstream_extent else None)
               in res_bind (case meta of
                    None \<Rightarrow> Inr Map.empty
                  | Some m \<Rightarrow> if access_pattern m = RandomAccess then resolve_effective_parameter_snapshot nd g else Inr Map.empty) (\<lambda>params.
                  res_bind (input_roi_for_tile ops nd (output_roi to_task) upstream_extent out_size meta extents params) (\<lambda>mapped_roi.
                    Inr (clip_rect (merge_rect mapped_roi (clip_rect (dep_from_roi d) upstream_extent)) upstream_extent, cache))))))
          else Inr (fallback, cache))
        else Inr (fallback, cache))"

section \<open>Task dependencies\<close>

definition append_tile :: "PlannedTask list \<Rightarrow> NodeTaskDependencyIndex \<Rightarrow> PixelRect \<Rightarrow> int \<Rightarrow> int \<Rightarrow> int list \<Rightarrow> int list" where
  "append_tile tasks up roi ty tx ids =
    (case map_of (tile_by_coordinate up) (tile_coordinate_key tx ty) of
       None \<Rightarrow> ids
     | Some from \<Rightarrow>
         if from < 0 \<or> from \<ge> int (length tasks) then ids
         else if \<not> rois_overlap (output_roi (tasks ! nat from)) roi then ids
         else append_unique ids from)"

definition append_covering_upstream_tiles :: "int list \<Rightarrow> NodeTaskDependencyIndex \<Rightarrow> PixelRect \<Rightarrow> PlannedTask list \<Rightarrow> int list" where
  "append_covering_upstream_tiles ids up roi tasks =
    (if \<not> grid_addressable up \<or> index_tile_size up \<le> 0 then ids
     else if \<not> planned_has_roi roi then ids
     else
       let ts = index_tile_size up;
           x_begin = cdiv (max 0 (rect_x roi)) ts; y_begin = cdiv (max 0 (rect_y roi)) ts;
           x_last = cdiv (max 0 (rect_x roi + rect_width roi - 1)) ts; y_last = cdiv (max 0 (rect_y roi + rect_height roi - 1)) ts
       in fold (\<lambda>ty. fold (append_tile tasks up roi ty) [x_begin..x_last]) [y_begin..y_last] ids)"

definition can_use_spatial_tile_dependency :: "PlannedDependency \<Rightarrow> NodeTaskDependencyIndex \<Rightarrow> PlannedTask \<Rightarrow> bool" where
  "can_use_spatial_tile_dependency d up to_task \<longleftrightarrow>
     dep_kind d = ''image'' \<and> grid_addressable up \<and> task_kind to_task = TileTask \<and> planned_has_roi (output_roi to_task)"

definition requires_conservative_parameterized_image_dependency :: "PlanOperators \<Rightarrow> PlannedDependency \<Rightarrow> PlannedTask \<Rightarrow> ('d, 'p, 's, 'f) GraphModel \<Rightarrow> bool" where
  "requires_conservative_parameterized_image_dependency ops d to_task g =
    (if dep_kind d \<noteq> ''image'' then False
     else case map_of (nodes g) (dep_to d) of
       None \<Rightarrow> False
     | Some nd \<Rightarrow>
         if \<not> list_ex (\<lambda>input. par_from_node_id input \<ge> 0) (parameter_inputs nd) then False
         else case metadata_for_domain ops (node_type nd) (node_subtype nd) (task_domain to_task) of
                None \<Rightarrow> False | Some m \<Rightarrow> access_pattern m = RandomAccess)"

definition append_node_dependency_tasks :: "int list \<Rightarrow> NodeTaskDependencyIndex \<Rightarrow> int list" where
  "append_node_dependency_tasks ids up = fold (\<lambda>from ids. append_unique ids from) (index_task_ids up) ids"

definition skips_task :: "PlannedDependency \<Rightarrow> PlannedTask \<Rightarrow> bool" where
  "skips_task d to_task \<longleftrightarrow> planned_has_roi (dep_to_roi d) \<and> (\<not> planned_has_roi (output_roi to_task) \<or> \<not> rois_overlap (output_roi to_task) (dep_to_roi d))"

definition task_dependency :: "PlanOperators \<Rightarrow> PlannedTask list \<Rightarrow> ('d, 'p, 's, 'f) GraphModel \<Rightarrow> PlannedDependency \<Rightarrow> NodeTaskDependencyIndex \<Rightarrow> int
    \<Rightarrow> int list list \<times> (int \<rightharpoonup> PixelSize) \<Rightarrow> (int list list \<times> (int \<rightharpoonup> PixelSize)) res" where
  "task_dependency ops tasks g d up to_id = (\<lambda>(ids, cache).
    if to_id < 0 \<or> to_id \<ge> int (length tasks) then Inr (ids, cache)
    else
      let to_task = tasks ! nat to_id
      in if skips_task d to_task then Inr (ids, cache)
         else if can_use_spatial_tile_dependency d up to_task \<and> \<not> requires_conservative_parameterized_image_dependency ops d to_task g
         then res_bind (required_upstream_roi_for_task ops d to_task g cache) (\<lambda>(roi, cache).
              Inr (ids[nat to_id := append_covering_upstream_tiles (ids ! nat to_id) up roi tasks], cache))
         else Inr (ids[nat to_id := append_node_dependency_tasks (ids ! nat to_id) up], cache))"

definition node_dependency :: "PlanOperators \<Rightarrow> PlannedTask list \<Rightarrow> ('d, 'p, 's, 'f) GraphModel \<Rightarrow> PlannedDependency
    \<Rightarrow> int list list \<times> (int \<rightharpoonup> PixelSize) \<Rightarrow> (int list list \<times> (int \<rightharpoonup> PixelSize)) res" where
  "node_dependency ops tasks g d st =
    (case build_task_dependency_index tasks (dep_from d) of
       None \<Rightarrow> Inr st
     | Some up \<Rightarrow> (case build_task_dependency_index tasks (dep_to d) of
         None \<Rightarrow> Inr st
       | Some down \<Rightarrow> res_fold (task_dependency ops tasks g d up) (index_task_ids down) st))"

definition build_task_dependency_ids :: "PlanOperators \<Rightarrow> PlannedTask list \<Rightarrow> PlannedDependency list \<Rightarrow> ('d, 'p, 's, 'f) GraphModel \<Rightarrow> int list list res" where
  "build_task_dependency_ids ops tasks deps g =
     res_bind (res_fold (node_dependency ops tasks g) deps (replicate (length tasks) [], Map.empty)) (\<lambda>(ids, _). Inr ids)"

definition assign_dependencies :: "int list list \<Rightarrow> PlannedTask \<Rightarrow> PlannedTask" where
  "assign_dependencies ids task =
     task\<lparr>dependency_task_ids := (if task_id task < 0 \<or> task_id task \<ge> int (length ids) then [] else ids ! nat (task_id task))\<rparr>"

definition populate_task_dependencies :: "PlanOperators \<Rightarrow> ('d, 'p, 's, 'f) GraphModel \<Rightarrow> ComputePlan \<Rightarrow> ComputePlan res" where
  "populate_task_dependencies ops g p =
     res_bind (build_task_dependency_ids ops (graph_tasks (task_graph p)) (graph_dependencies (task_graph p)) g) (\<lambda>ids.
       let tasks = map (assign_dependencies ids) (graph_tasks (task_graph p));
           dependent = set (map task_id (filter (\<lambda>t. 0 \<le> task_id t \<and> task_id t < int (length ids) \<and> dependency_task_ids t \<noteq> []) tasks))
       in Inr (p\<lparr>task_graph := (task_graph p)\<lparr>graph_tasks := tasks,
              initial_task_ids := map task_id (filter (\<lambda>t. task_id t \<notin> dependent) tasks)\<rparr>\<rparr>))"

section \<open>Expansion\<close>

definition new_work :: "DirtyDomain \<Rightarrow> int \<Rightarrow> PlannedNodeWork" where
  "new_work domain i =
    \<lparr>work_node_id = i, work_domain = domain, represented_hp_roi = empty_rect, execution_roi = empty_rect, work_whole_output = False,
     reusable_cache_available = False, work_dirty_rois = [], dependency_node_ids = [], dependent_node_ids = [], work_task_ids = []\<rparr>"

definition build_plan_from_nodes :: "PlanOperators \<Rightarrow> ComputeRequest \<Rightarrow> int list \<Rightarrow> ('d, 'p, 's, 'f) GraphModel \<Rightarrow> ComputePlan res" where
  "build_plan_from_nodes ops request planned g =
    (let domain = domain_for_intent (req_intent request);
         p0 = \<lparr>plan_intent = req_intent request, plan_target = req_target request, plan_parallel = req_parallel request, execution_order = planned,
               planned_nodes = planned, planned_work = map (new_work domain) planned,
               task_graph = \<lparr>graph_tasks = [], graph_dependencies = populate_dependencies_from_graph planned domain g [], initial_task_ids = []\<rparr>\<rparr>
     in res_bind (populate ops None domain g (populate_node_dependency_lists p0)) (populate_task_dependencies ops g))"

record FullTaskGraph =
  full_intent :: ComputeIntent
  full_domain :: DirtyDomain
  expanded_node_ids :: "int list"
  expanded_work :: "PlannedNodeWork list"
  full_task_graph :: ComputeTaskGraph
  work_index_by_node :: "int \<rightharpoonup> nat"
  task_ids_by_node :: "int \<rightharpoonup> int list"
  dependency_indices_by_to_node :: "int \<rightharpoonup> nat list"

definition push_to :: "'k \<Rightarrow> 'v \<Rightarrow> ('k \<rightharpoonup> 'v list) \<Rightarrow> ('k \<rightharpoonup> 'v list)" where
  "push_to k v m = m(k \<mapsto> (case m k of None \<Rightarrow> [] | Some vs \<Rightarrow> vs) @ [v])"

definition expand :: "PlanOperators \<Rightarrow> ('d, 'p, 's, 'f) GraphModel \<Rightarrow> ComputeIntent \<Rightarrow> FullTaskGraph res" where
  "expand ops g intent =
     res_bind (build_plan_from_nodes ops \<lparr>req_intent = intent, req_target = - 1, req_parallel = False\<rparr> (node_ids g) g) (\<lambda>full_plan.
       Inr \<lparr>full_intent = intent, full_domain = domain_for_intent intent, expanded_node_ids = planned_nodes full_plan,
            expanded_work = planned_work full_plan, full_task_graph = task_graph full_plan,
            work_index_by_node = work_index (planned_work full_plan),
            task_ids_by_node = fold (\<lambda>t. push_to (task_node_id t) (task_id t)) (graph_tasks (task_graph full_plan)) Map.empty,
            dependency_indices_by_to_node = fold (\<lambda>(d, k). push_to (dep_to d) k)
              (zip (graph_dependencies (task_graph full_plan)) [0..<length (graph_dependencies (task_graph full_plan))]) Map.empty\<rparr>)"

section \<open>Pruning to a request\<close>

definition rebuild_work_task_ids :: "ComputePlan \<Rightarrow> ComputePlan" where
  "rebuild_work_task_ids p =
     p\<lparr>planned_work := fold (\<lambda>t. update_work (task_node_id t) (\<lambda>w. w\<lparr>work_task_ids := work_task_ids w @ [task_id t]\<rparr>))
        (graph_tasks (task_graph p)) (map (\<lambda>w. w\<lparr>work_task_ids := []\<rparr>) (planned_work p))\<rparr>"

definition pruned_work :: "FullTaskGraph \<Rightarrow> ('d, 'p, 's, 'f) GraphModel \<Rightarrow> int \<Rightarrow> PlannedNodeWork list \<Rightarrow> PlannedNodeWork list res" where
  "pruned_work full g i ws =
    (case map_of (nodes g) i of
       None \<Rightarrow> Inl (Graph_Error NotFound)
     | Some nd \<Rightarrow> (case work_index_by_node full i of
         None \<Rightarrow> Inl (Graph_Error ComputeError)
       | Some k \<Rightarrow>
           if k \<ge> length (expanded_work full) then Inl (Graph_Error ComputeError)
           else Inr (ws @ [(expanded_work full ! k)\<lparr>work_task_ids := [], dependency_node_ids := [], dependent_node_ids := [], work_dirty_rois := [],
                  reusable_cache_available := cached_output_high_precision nd \<noteq> None\<rparr>])))"

definition pruned_tasks :: "FullTaskGraph \<Rightarrow> int \<Rightarrow> PlannedTask list \<Rightarrow> PlannedTask list" where
  "pruned_tasks full i tasks =
     fold (\<lambda>tid tasks. if tid < 0 \<or> tid \<ge> int (length (graph_tasks (full_task_graph full))) then tasks
        else tasks @ [(graph_tasks (full_task_graph full) ! nat tid)\<lparr>task_id := int (length tasks), dependency_task_ids := []\<rparr>])
      (case task_ids_by_node full i of None \<Rightarrow> [] | Some tids \<Rightarrow> tids) tasks"

definition pruned_dependencies :: "FullTaskGraph \<Rightarrow> int list \<Rightarrow> int \<Rightarrow> PlannedDependency list \<Rightarrow> PlannedDependency list" where
  "pruned_dependencies full order i deps =
     fold (\<lambda>k deps. if k \<ge> length (graph_dependencies (full_task_graph full)) then deps
        else let d = graph_dependencies (full_task_graph full) ! k
             in if dep_from d \<notin> set order then deps else deps @ [d])
      (case dependency_indices_by_to_node full i of None \<Rightarrow> [] | Some ks \<Rightarrow> ks) deps"

definition prune_node_cache :: "PlanOperators \<Rightarrow> FullTaskGraph \<Rightarrow> ComputeRequest \<Rightarrow> int list \<Rightarrow> ('d, 'p, 's, 'f) GraphModel \<Rightarrow> ComputePlan res" where
  "prune_node_cache ops full request order g =
     res_bind (res_fold (pruned_work full g) order []) (\<lambda>entries.
       populate_task_dependencies ops g (populate_node_dependency_lists (rebuild_work_task_ids
         \<lparr>plan_intent = req_intent request, plan_target = req_target request, plan_parallel = req_parallel request, execution_order = order,
          planned_nodes = order, planned_work = entries,
          task_graph = \<lparr>graph_tasks = fold (pruned_tasks full) order [], graph_dependencies = fold (pruned_dependencies full order) order [],
            initial_task_ids = []\<rparr>\<rparr>)))"

section \<open>Selection by a dirty snapshot\<close>

record DirtyNodeSelection =
  ns_represented_hp_roi :: PixelRect
  ns_execution_roi :: PixelRect
  ns_whole_output :: bool
  ns_dirty_rois :: "PixelRect list"

record DirtyTaskSelectionOverlay =
  sel_generation :: u64
  sel_domain :: DirtyDomain
  active_task_ids :: "int list"
  dirty_source_task_ids :: "int list"
  downstream_task_ids :: "int list"
  initial_downstream_task_ids :: "int list"
  active_task_flags :: "bool list"
  source_boundary_task_flags :: "bool list"
  sel_dependency_task_ids :: "int list list"
  node_selections :: "(int \<times> DirtyNodeSelection) list"
  sel_dependencies :: "PlannedDependency list"

record DirtyUpdateWorkSet =
  ws_generation :: u64
  ws_dirty_source_task_ids :: "int list"
  ws_downstream_task_ids :: "int list"

definition ensure_node_selection :: "int \<Rightarrow> (DirtyNodeSelection \<Rightarrow> DirtyNodeSelection) \<Rightarrow> (int \<times> DirtyNodeSelection) list \<Rightarrow> (int \<times> DirtyNodeSelection) list" where
  "ensure_node_selection i f m =
     AList.update i (f (case map_of m i of
       None \<Rightarrow> \<lparr>ns_represented_hp_roi = empty_rect, ns_execution_roi = empty_rect, ns_whole_output = False, ns_dirty_rois = []\<rparr>
     | Some s \<Rightarrow> s)) m"

definition select_dirty_roi :: "DirtyDomain \<Rightarrow> PixelRect \<Rightarrow> DirtyNodeSelection \<Rightarrow> DirtyNodeSelection" where
  "select_dirty_roi domain roi s =
     s\<lparr>ns_dirty_rois := ns_dirty_rois s @ [roi], ns_represented_hp_roi := merge_rect (ns_represented_hp_roi s) roi,
       ns_execution_roi := (if domain = HighPrecision then merge_rect (ns_execution_roi s) roi else ns_execution_roi s)\<rparr>"

definition populate_overlay_node_regions :: "int set \<Rightarrow> DirtyRegionSnapshot \<Rightarrow> DirtyDomain \<Rightarrow> (int \<times> DirtyNodeSelection) list" where
  "populate_overlay_node_regions planned snapshot domain =
     fold (\<lambda>region m. if mono_domain region \<noteq> domain \<or> mono_node_id region \<notin> planned then m
        else ensure_node_selection (mono_node_id region) (\<lambda>s. s\<lparr>ns_whole_output := ns_whole_output s \<or> whole_output region,
          ns_execution_roi := merge_rect (ns_execution_roi s) (mono_pixel_roi region),
          ns_represented_hp_roi := (if domain = HighPrecision then merge_rect (ns_represented_hp_roi s) (mono_pixel_roi region)
            else ns_represented_hp_roi s)\<rparr>) m) (dirty_monolithic_nodes snapshot)
     (fold (\<lambda>tile m. if tile_domain tile \<noteq> domain \<or> tile_node_id tile \<notin> planned then m
        else ensure_node_selection (tile_node_id tile) (\<lambda>s. s\<lparr>ns_execution_roi := merge_rect (ns_execution_roi s) (tile_pixel_roi tile)\<rparr>) m)
        (dirty_tiles snapshot)
     (fold (\<lambda>(i, rois) m. if i \<notin> planned then m else ensure_node_selection i (fold (select_dirty_roi domain) rois) m)
        (per_node_dirty_rois snapshot) []))"

definition initial_ready_task_ids_for_view :: "int list \<Rightarrow> int list list \<Rightarrow> int list" where
  "initial_ready_task_ids_for_view active_ids ids =
     filter (\<lambda>t. 0 \<le> t \<and> t < int (length ids) \<and> \<not> list_ex (\<lambda>d. d \<in> set active_ids) (ids ! nat t)) active_ids"

definition select_task :: "DirtyRegionSnapshot \<Rightarrow> int set option \<Rightarrow> PlannedTask \<Rightarrow> DirtyTaskSelectionOverlay \<Rightarrow> DirtyTaskSelectionOverlay" where
  "select_task snapshot satisfied task sel =
    (if task_id task < 0 \<or> task_id task \<ge> int (length (active_task_flags sel)) then sel
     else
       let selected = apply_task_dirty_metadata (Some snapshot) (task\<lparr>dependency_task_ids := sel_dependency_task_ids sel ! nat (task_id task)\<rparr>);
           sel1 = sel\<lparr>source_boundary_task_flags := (source_boundary_task_flags sel)[nat (task_id task) := source_boundary_eligible selected]\<rparr>
       in if \<not> dirty_selected selected then sel1
          else if (case satisfied of None \<Rightarrow> False | Some s \<Rightarrow> task_node_id task \<in> s) then sel1
          else
            let sel2 = sel1\<lparr>active_task_flags := (active_task_flags sel1)[nat (task_id task) := True], active_task_ids := active_task_ids sel1 @ [task_id task]\<rparr>
            in if task_node_id task \<in> set (dirty_source_nodes snapshot) then sel2\<lparr>dirty_source_task_ids := dirty_source_task_ids sel2 @ [task_id task]\<rparr>
               else sel2\<lparr>downstream_task_ids := downstream_task_ids sel2 @ [task_id task]\<rparr>)"

definition select_dirty :: "PlanOperators \<Rightarrow> ComputePlan \<Rightarrow> DirtyRegionSnapshot \<Rightarrow> ('d, 'p, 's, 'f) GraphModel \<Rightarrow> int set option \<Rightarrow> DirtyTaskSelectionOverlay res" where
  "select_dirty ops p snapshot g satisfied =
    (let tasks = graph_tasks (task_graph p); domain = domain_for_intent (plan_intent p);
         deps = merged_overlay_dependencies p snapshot domain
     in res_bind (build_task_dependency_ids ops tasks deps g) (\<lambda>ids.
          let sel = fold (select_task snapshot satisfied) tasks
                \<lparr>sel_generation = graph_generation snapshot, sel_domain = domain, active_task_ids = [], dirty_source_task_ids = [], downstream_task_ids = [],
                 initial_downstream_task_ids = [], active_task_flags = replicate (length tasks) False,
                 source_boundary_task_flags = replicate (length tasks) False, sel_dependency_task_ids = ids,
                 node_selections = populate_overlay_node_regions (set (map work_node_id (planned_work p))) snapshot domain, sel_dependencies = deps\<rparr>
          in Inr (sel\<lparr>initial_downstream_task_ids := initial_ready_task_ids_for_view (downstream_task_ids sel) ids\<rparr>)))"

definition clear_dirty_work_metadata :: "ComputePlan \<Rightarrow> ComputePlan" where
  "clear_dirty_work_metadata p =
     p\<lparr>planned_work := map (\<lambda>w. w\<lparr>represented_hp_roi := empty_rect, execution_roi := empty_rect, work_whole_output := False, work_dirty_rois := []\<rparr>) (planned_work p),
       task_graph := (task_graph p)\<lparr>graph_tasks := map (\<lambda>t. t\<lparr>source_boundary_eligible := False, dirty_selected := True, dirty_generation := 0\<rparr>)
         (graph_tasks (task_graph p))\<rparr>\<rparr>"

definition prune_dirty_snapshot :: "PlanOperators \<Rightarrow> ComputePlan \<Rightarrow> DirtyRegionSnapshot \<Rightarrow> ('d, 'p, 's, 'f) GraphModel \<Rightarrow> ComputePlan res" where
  "prune_dirty_snapshot ops p snapshot g =
     res_bind (select_dirty ops p snapshot g None) (\<lambda>sel.
       let p1 = clear_dirty_work_metadata p;
           p2 = p1\<lparr>planned_work := fold (\<lambda>(i, s). update_work i (\<lambda>w. w\<lparr>represented_hp_roi := ns_represented_hp_roi s, execution_roi := ns_execution_roi s,
                    work_whole_output := ns_whole_output s, work_dirty_rois := ns_dirty_rois s\<rparr>)) (node_selections sel) (planned_work p1),
                  task_graph := (task_graph p1)\<lparr>graph_dependencies := sel_dependencies sel,
                    graph_tasks := map (apply_task_dirty_metadata (Some snapshot)) (graph_tasks (task_graph p1))\<rparr>\<rparr>
       in populate_task_dependencies ops g (populate_node_dependency_lists (rebuild_work_task_ids p2)))"

definition materialize_selection :: "DirtyTaskSelectionOverlay \<Rightarrow> DirtyUpdateWorkSet" where
  "materialize_selection sel =
     \<lparr>ws_generation = sel_generation sel, ws_dirty_source_task_ids = dirty_source_task_ids sel, ws_downstream_task_ids = downstream_task_ids sel\<rparr>"

definition materialize :: "ComputePlan \<Rightarrow> DirtyRegionSnapshot \<Rightarrow> DirtyUpdateWorkSet" where
  "materialize p snapshot =
     \<lparr>ws_generation = graph_generation snapshot,
      ws_dirty_source_task_ids = map task_id (filter (\<lambda>t. task_node_id t \<in> set (dirty_source_nodes snapshot) \<and> dirty_selected t) (graph_tasks (task_graph p))),
      ws_downstream_task_ids = map task_id (filter (\<lambda>t. task_node_id t \<notin> set (dirty_source_nodes snapshot) \<and> dirty_selected t) (graph_tasks (task_graph p)))\<rparr>"

definition initial_ready_task_ids :: "PlannedTask list \<Rightarrow> int set option \<Rightarrow> int list" where
  "initial_ready_task_ids tasks allowed =
     map task_id (filter (\<lambda>t. (case allowed of None \<Rightarrow> True | Some a \<Rightarrow> task_id t \<in> a)
       \<and> \<not> list_ex (\<lambda>d. case allowed of None \<Rightarrow> True | Some a \<Rightarrow> d \<in> a) (dependency_task_ids t)) tasks)"

section \<open>The tile index is exact\<close>

text \<open>The key as arithmetic, for evaluation.\<close>

lemma tile_coordinate_key_code [code]: "tile_coordinate_key tx ty = tx * 4294967296 + ty mod 4294967296"
proof -
  have "push_bit 32 tx AND take_bit 32 ty = 0" by (rule bit_eqI) (auto simp: bit_simps)
  then have "push_bit 32 tx + take_bit 32 ty = push_bit 32 tx XOR take_bit 32 ty" by (rule disjunctive_add_eq_xor)
  then show ?thesis by (simp add: tile_coordinate_key_def push_bit_eq_mult take_bit_eq_mod)
qed

text \<open>Keys do not collide.\<close>

lemma tile_coordinate_key_eq:
  assumes "in_i32 ty" "in_i32 ty'"
  shows "tile_coordinate_key tx ty = tile_coordinate_key tx' ty' \<longleftrightarrow> tx = tx' \<and> ty = ty'"
proof
  assume eq: "tile_coordinate_key tx ty = tile_coordinate_key tx' ty'"
  have "drop_bit 32 (tile_coordinate_key tx ty) = tx" "take_bit 32 (tile_coordinate_key tx ty) = take_bit 32 ty" for tx ty :: int
    by (simp_all add: tile_coordinate_key_def drop_bit_xor drop_bit_take_bit take_bit_xor take_bit_push_bit drop_bit_push_bit)
  with eq have "tx = tx'" "take_bit 32 ty = take_bit 32 ty'" by metis+
  moreover have "ty = ty'"
  proof (rule ccontr)
    assume ne: "ty \<noteq> ty'"
    have "ty mod 4294967296 = ty' mod 4294967296" using \<open>take_bit 32 ty = take_bit 32 ty'\<close> by (simp add: take_bit_eq_mod)
    then have "4294967296 dvd ty - ty'" by (simp add: mod_eq_dvd_iff)
    then have "4294967296 \<le> \<bar>ty - ty'\<bar>" using dvd_imp_le_int [of "ty - ty'" 4294967296] ne by simp
    moreover have "- 2147483648 \<le> ty" "ty \<le> 2147483647" "- 2147483648 \<le> ty'" "ty' \<le> 2147483647"
      using assms by (simp_all add: in_i32_def int_min_def int_max_def)
    ultimately show False by linarith
  qed
  ultimately show "tx = tx' \<and> ty = ty'" by simp
qed simp

lemma index_tasks_node: "index_tasks tasks i = (if tasks_of i tasks = [] then None else Some (fold add_task_to_dependency_index (tasks_of i tasks) new_index))"
proof (induction tasks rule: rev_induct)
  case (snoc t tasks)
  have "index_tasks (tasks @ [t]) = (index_tasks tasks)(task_node_id t \<mapsto>
      add_task_to_dependency_index t (case index_tasks tasks (task_node_id t) of None \<Rightarrow> new_index | Some ix \<Rightarrow> ix))"
    by (simp add: index_tasks_def)
  with snoc show ?case by auto
qed (simp add: index_tasks_def)

lemma fold_index:
  defines "ix ts \<equiv> fold add_task_to_dependency_index ts new_index"
  shows "index_task_ids (ix ts) = map task_id ts \<and> non_grid_task_ids (ix ts) = map task_id (filter (\<lambda>t. \<not> gridable t) ts)
    \<and> (index_tile_size (ix ts) = 0 \<longleftrightarrow> filter gridable ts = []) \<and> index_tile_size (ix ts) \<ge> 0
    \<and> (grid_addressable (ix ts) \<longleftrightarrow> (\<forall>t\<in>set ts. gridable t \<longrightarrow> task_tile_size t = index_tile_size (ix ts)))
    \<and> (tile_by_coordinate (ix ts) = [] \<longleftrightarrow> filter gridable ts = [])
    \<and> map_of (tile_by_coordinate (ix ts)) = (\<lambda>key. map_option task_id
        (find (\<lambda>t. tile_coordinate_key (task_tile_x t) (task_tile_y t) = key) (rev (filter gridable ts))))"
proof (induction ts rule: rev_induct)
  case Nil
  then show ?case by (simp add: ix_def new_index_def)
next
  case (snoc t ts)
  have step: "ix (ts @ [t]) = add_task_to_dependency_index t (ix ts)" by (simp add: ix_def)
  show ?case
  proof (cases "gridable t")
    case False
    then have "add_task_to_dependency_index t (ix ts) = (ix ts)\<lparr>index_task_ids := index_task_ids (ix ts) @ [task_id t],
        non_grid_task_ids := non_grid_task_ids (ix ts) @ [task_id t]\<rparr>"
      by (auto simp: add_task_to_dependency_index_def gridable_def Let_def)
    with snoc False show ?thesis unfolding step by simp
  next
    case True
    have upd: "tile_by_coordinate (add_task_to_dependency_index t (ix ts)) = AList.update (tile_coordinate_key (task_tile_x t) (task_tile_y t)) (task_id t) (tile_by_coordinate (ix ts))"
      "index_task_ids (add_task_to_dependency_index t (ix ts)) = index_task_ids (ix ts) @ [task_id t]"
      "non_grid_task_ids (add_task_to_dependency_index t (ix ts)) = non_grid_task_ids (ix ts)"
      "index_tile_size (add_task_to_dependency_index t (ix ts)) = (if index_tile_size (ix ts) = 0 then task_tile_size t else index_tile_size (ix ts))"
      "grid_addressable (add_task_to_dependency_index t (ix ts)) \<longleftrightarrow> (if index_tile_size (ix ts) = 0 \<or> index_tile_size (ix ts) = task_tile_size t then grid_addressable (ix ts) else False)"
      using True by (auto simp: add_task_to_dependency_index_def gridable_def Let_def)
    have pos: "task_tile_size t > 0" using True by (simp add: gridable_def)
    have none: "AList.update k v m \<noteq> []" for k :: int and v :: int and m by (cases m) auto
    show ?thesis unfolding step upd
    proof (intro conjI)
      show "map_of (AList.update (tile_coordinate_key (task_tile_x t) (task_tile_y t)) (task_id t) (tile_by_coordinate (ix ts)))
        = (\<lambda>key. map_option task_id (find (\<lambda>t. tile_coordinate_key (task_tile_x t) (task_tile_y t) = key) (rev (filter gridable (ts @ [t])))))"
        using snoc True by (auto simp: update_conv')
    qed (use snoc True pos none in \<open>auto simp: filter_empty_conv\<close>)
  qed
qed

lemma index_tile_size_first:
  "index_tile_size (fold add_task_to_dependency_index ts new_index) = (case filter gridable ts of [] \<Rightarrow> 0 | t # _ \<Rightarrow> task_tile_size t)"
proof (induction ts rule: rev_induct)
  case (snoc t ts)
  have "index_tile_size (add_task_to_dependency_index t ix) = (if gridable t \<and> index_tile_size ix = 0 then task_tile_size t else index_tile_size ix)" for ix
    by (auto simp: add_task_to_dependency_index_def gridable_def Let_def)
  moreover have "task_tile_size u > 0" if "filter gridable ts = u # us" for u us
    using filter_eq_ConsD [OF that] by (auto simp: gridable_def)
  ultimately show ?case using snoc by (cases "filter gridable ts") auto
qed (simp add: new_index_def)

lemma set_append_unique [simp]: "set (append_unique xs x) = insert x (set xs)" "distinct (append_unique xs x) = distinct xs"
  by (auto simp: append_unique_def)

lemma append_node_dependency_tasks_set:
  "set (append_node_dependency_tasks ids up) = set ids \<union> set (index_task_ids up) \<and> distinct (append_node_dependency_tasks ids up) = distinct ids"
proof -
  have "set (fold (\<lambda>from ids. append_unique ids from) xs ids) = set ids \<union> set xs \<and> distinct (fold (\<lambda>from ids. append_unique ids from) xs ids) = distinct ids" for xs
    by (induction xs arbitrary: ids) auto
  then show ?thesis by (simp add: append_node_dependency_tasks_def)
qed

definition tile_hit :: "PlannedTask list \<Rightarrow> NodeTaskDependencyIndex \<Rightarrow> PixelRect \<Rightarrow> int \<Rightarrow> int \<Rightarrow> int set" where
  "tile_hit tasks up roi tx ty = {u. map_of (tile_by_coordinate up) (tile_coordinate_key tx ty) = Some u \<and> 0 \<le> u \<and> u < int (length tasks)
     \<and> rois_overlap (output_roi (tasks ! nat u)) roi}"

lemma append_tile_set:
  "set (append_tile tasks up roi ty tx ids) = set ids \<union> tile_hit tasks up roi tx ty \<and> distinct (append_tile tasks up roi ty tx ids) = distinct ids"
  by (auto simp: append_tile_def tile_hit_def split: option.splits)

lemma append_tiles_set:
  "set (fold (\<lambda>ty. fold (append_tile tasks up roi ty) xs) ys ids) = set ids \<union> (\<Union>tx\<in>set xs. \<Union>ty\<in>set ys. tile_hit tasks up roi tx ty)
   \<and> distinct (fold (\<lambda>ty. fold (append_tile tasks up roi ty) xs) ys ids) = distinct ids"
proof -
  have row: "set (fold (append_tile tasks up roi ty) xs ids) = set ids \<union> (\<Union>tx\<in>set xs. tile_hit tasks up roi tx ty)
      \<and> distinct (fold (append_tile tasks up roi ty) xs ids) = distinct ids" for ty ids
    by (induction xs arbitrary: ids) (auto simp: append_tile_set)
  show ?thesis by (induction ys arbitrary: ids) (auto simp: row)
qed

lemma numbered_task:
  assumes "grid_tasks tasks" "t \<in> set tasks"
  shows "0 \<le> task_id t" "task_id t < int (length tasks)" "tasks ! nat (task_id t) = t"
  using assms by (auto simp: grid_tasks_def in_set_conv_nth)

lemma numbered_distinct: "grid_tasks tasks \<Longrightarrow> distinct tasks"
  by (auto simp: grid_tasks_def distinct_conv_nth) (metis of_nat_eq_iff)

lemma rois_overlap_iff: "edge_rect a \<Longrightarrow> edge_rect b \<Longrightarrow> rois_overlap a b \<longleftrightarrow> pixels a \<inter> pixels b \<noteq> {}"
  using intersect_rect_pixels [of a b] by (simp add: rois_overlap_def pixels_empty_iff flip: pixels_empty_iff)

text \<open>A tile that meets a region has its coordinates in the range that is searched.\<close>

lemma tile_in_range:
  fixes p x w ts t :: int
  assumes "0 < ts" "0 \<le> t" "t * ts \<le> p" "p < t * ts + ts" "x \<le> p" "p < x + w"
  shows "max 0 x div ts \<le> t \<and> t \<le> max 0 (x + w - 1) div ts"
proof -
  have "p div ts = t" using assms by (simp add: cell_interval)
  moreover have "0 \<le> p" using assms mult_nonneg_nonneg [of t ts] by linarith
  ultimately show ?thesis
    using assms zdiv_mono1 [of "max 0 x" p ts] zdiv_mono1 [of p "max 0 (x + w - 1)" ts] by auto
qed

lemma find_SomeD: "find P xs = Some x \<Longrightarrow> x \<in> set xs \<and> P x"
  by (induction xs) (auto split: if_splits)

lemma covering_tiles_exact:
  assumes "grid_tasks tasks" "build_task_dependency_index tasks i = Some up" "grid_addressable up" "edge_rect roi"
  shows "set (append_covering_upstream_tiles ids up roi tasks) = set ids \<union> {task_id u | u. u \<in> set (tasks_of i tasks) \<and> rois_overlap (output_roi u) roi}
    \<and> distinct (append_covering_upstream_tiles ids up roi tasks) = distinct ids"
proof -
  let ?ts = "tasks_of i tasks"
  have up: "up = close_index (fold add_task_to_dependency_index ?ts new_index)" "?ts \<noteq> []"
    using assms(2) by (auto simp: build_task_dependency_index_def index_tasks_node split: if_splits)
  note ix = fold_index [of ?ts]
  from assms(3) up have g: "non_grid_task_ids up = []" "0 < index_tile_size up" "up = fold add_task_to_dependency_index ?ts new_index"
    by (auto simp: close_index_def split: if_splits)
  then have all: "\<forall>t\<in>set ?ts. gridable t \<and> task_tile_size t = index_tile_size up" using ix assms(3) by (auto simp: filter_empty_conv)
  then have filt: "filter gridable ?ts = ?ts" by (intro filter_True) blast
  have find: "map_of (tile_by_coordinate up) (tile_coordinate_key (task_tile_x u) (task_tile_y u)) = Some (task_id u)" if u: "u \<in> set ?ts" for u
  proof -
    let ?P = "\<lambda>t. tile_coordinate_key (task_tile_x t) (task_tile_y t) = tile_coordinate_key (task_tile_x u) (task_tile_y u)"
    obtain v where v: "find ?P (rev ?ts) = Some v" "v \<in> set ?ts" "?P v"
      using u by (cases "find ?P (rev ?ts)") (auto simp: find_None_iff dest: find_SomeD)
    have kinds: "task_kind u = TileTask" "task_kind v = TileTask" and mem: "u \<in> set tasks" "v \<in> set tasks" "task_node_id v = task_node_id u"
      using u v(2) all by (auto simp: gridable_def)
    then have "in_i32 (task_tile_y u)" "in_i32 (task_tile_y v)" using grid_tasks_unfold(3) [OF assms(1)] by (auto simp: on_grid_def)
    then have "v = u" using v(3) mem kinds grid_tasks_unfold(4) [OF assms(1) mem(2,1) kinds(2,1)] by (simp add: tile_key_def tile_coordinate_key_eq)
    with v ix filt g(3) show ?thesis by simp
  qed
  have found: "\<exists>u\<in>set ?ts. x = task_id u" if "map_of (tile_by_coordinate up) key = Some x" for key x
  proof -
    from that ix filt g(3) obtain u where "find (\<lambda>t. tile_coordinate_key (task_tile_x t) (task_tile_y t) = key) (rev ?ts) = Some u" "x = task_id u" by auto
    then show ?thesis using find_SomeD [of _ "rev ?ts" u] by auto
  qed
  show ?thesis
  proof (cases "planned_has_roi roi")
    case False
    then have "\<not> rois_overlap (output_roi u) roi" for u by (auto simp: rois_overlap_def intersect_rect_def planned_has_roi_def is_rect_empty_def empty_rect_def)
    with False show ?thesis by (auto simp: append_covering_upstream_tiles_def)
  next
    case True
    let ?xs = "[max 0 (rect_x roi) div index_tile_size up..max 0 (rect_x roi + rect_width roi - 1) div index_tile_size up]"
    let ?ys = "[max 0 (rect_y roi) div index_tile_size up..max 0 (rect_y roi + rect_height roi - 1) div index_tile_size up]"
    have eq: "append_covering_upstream_tiles ids up roi tasks = fold (\<lambda>ty. fold (append_tile tasks up roi ty) ?xs) ?ys ids"
      using True assms(3) g(2) by (simp add: append_covering_upstream_tiles_def Let_def)
    have "(\<Union>tx\<in>set ?xs. \<Union>ty\<in>set ?ys. tile_hit tasks up roi tx ty) = {task_id u | u. u \<in> set ?ts \<and> rois_overlap (output_roi u) roi}"
    proof (intro equalityI subsetI)
      fix x assume "x \<in> (\<Union>tx\<in>set ?xs. \<Union>ty\<in>set ?ys. tile_hit tasks up roi tx ty)"
      then obtain key where "map_of (tile_by_coordinate up) key = Some x" "rois_overlap (output_roi (tasks ! nat x)) roi" by (auto simp: tile_hit_def)
      with found [of key x] numbered_task(3) [OF assms(1)] show "x \<in> {task_id u | u. u \<in> set ?ts \<and> rois_overlap (output_roi u) roi}" by auto
    next
      fix x assume "x \<in> {task_id u | u. u \<in> set ?ts \<and> rois_overlap (output_roi u) roi}"
      then obtain u where u: "x = task_id u" "u \<in> set ?ts" "rois_overlap (output_roi u) roi" by blast
      have grid: "gridable u" "task_tile_size u = index_tile_size up" "edge_rect (output_roi u)"
        "rect_x (output_roi u) = task_tile_x u * task_tile_size u" "rect_y (output_roi u) = task_tile_y u * task_tile_size u"
        "rect_width (output_roi u) \<le> task_tile_size u" "rect_height (output_roi u) \<le> task_tile_size u"
        using all u(2) grid_tasks_unfold(2,3) [OF assms(1), of u] by (auto simp: gridable_def on_grid_def)
      obtain px py where p: "(px, py) \<in> pixels (output_roi u)" "(px, py) \<in> pixels roi"
        using u(3) rois_overlap_iff [OF grid(3) assms(4)] by auto
      have "task_tile_x u \<in> set ?xs"
        using p grid g(2) tile_in_range [of "index_tile_size up" "task_tile_x u" px "rect_x roi" "rect_width roi"] by (auto simp: pixels_def gridable_def)
      moreover have "task_tile_y u \<in> set ?ys"
        using p grid g(2) tile_in_range [of "index_tile_size up" "task_tile_y u" py "rect_y roi" "rect_height roi"] by (auto simp: pixels_def gridable_def)
      moreover have "x \<in> tile_hit tasks up roi (task_tile_x u) (task_tile_y u)"
        using u find numbered_task [OF assms(1), of u] by (auto simp: tile_hit_def)
      ultimately show "x \<in> (\<Union>tx\<in>set ?xs. \<Union>ty\<in>set ?ys. tile_hit tasks up roi tx ty)" by blast
    qed
    with append_tiles_set [of tasks up roi ?xs ?ys ids] show ?thesis unfolding eq by simp
  qed
qed

section \<open>Memoised extents do not change a plan\<close>

text \<open>Two calls agree when they throw the same or return the same value, whatever their caches.\<close>

definition agree :: "('d, 'p, 's, 'f) GraphModel \<Rightarrow> ('a \<times> size_cache) res \<Rightarrow> ('a \<times> size_cache) res \<Rightarrow> bool" where
  "agree g m n \<longleftrightarrow> map_sum id fst m = map_sum id fst n \<and> (\<forall>x c. m = Inr (x, c) \<longrightarrow> extent_cache_ok g c) \<and> (\<forall>x c. n = Inr (x, c) \<longrightarrow> extent_cache_ok g c)"

lemma agree_Inr: "extent_cache_ok g c \<Longrightarrow> extent_cache_ok g c' \<Longrightarrow> agree g (Inr (x, c)) (Inr (x, c'))"
  by (simp add: agree_def)

lemma agree_bind:
  assumes "agree g m n" "\<And>x c c'. extent_cache_ok g c \<Longrightarrow> extent_cache_ok g c' \<Longrightarrow> agree g (f (x, c)) (f (x, c'))"
  shows "agree g (res_bind m f) (res_bind n f)"
proof (cases m)
  case (Inl e)
  then have "n = Inl e" using assms(1) by (cases n) (auto simp: agree_def)
  then show ?thesis using Inl by (simp add: agree_def)
next
  case (Inr y)
  obtain x c where m: "m = Inr (x, c)" using Inr by (cases y) auto
  then obtain c' where n: "n = Inr (x, c')" using assms(1) by (cases n) (auto simp: agree_def)
  have "extent_cache_ok g c" "extent_cache_ok g c'" using assms(1) by (auto simp: agree_def m n)
  then have "agree g (f (x, c)) (f (x, c'))" by (rule assms(2))
  then show ?thesis by (simp add: m n)
qed

lemma agree_pure: "(\<And>x. agree g (f x) (f' x)) \<Longrightarrow> agree g (res_bind m f) (res_bind m f')"
  by (cases m) (auto simp: agree_def)

lemma agree_extent:
  assumes "graph_wf g" "extent_cache_ok g c" "extent_cache_ok g c'"
  shows "agree g (resolve_planned_extent g i c) (resolve_planned_extent g i c')"
proof (cases "has_node i g")
  case True
  obtain c1 c2 where "get_size g i c = Inr (node_extent g i, c1)" "extent_cache_ok g c1" "get_size g i c' = Inr (node_extent g i, c2)" "extent_cache_ok g c2"
    using get_size_present [OF assms(1,2) True] get_size_present [OF assms(1,3) True] by metis
  then show ?thesis using True by (simp add: resolve_planned_extent_def get_size_def agree_Inr)
qed (use assms in \<open>simp add: resolve_planned_extent_def agree_Inr\<close>)

lemma agree_input_extents:
  assumes "graph_wf g" "extent_cache_ok g c" "extent_cache_ok g c'"
  shows "agree g (resolve_planned_input_extents g nd c) (resolve_planned_input_extents g nd c')"
proof -
  let ?f = "\<lambda>input (extents, cache). if img_from_node_id input \<ge> 0 \<and> has_node (img_from_node_id input) g
        then res_bind (resolve_planned_extent g (img_from_node_id input) cache) (\<lambda>(size, cache). Inr (extents @ [size], cache))
        else Inr (extents @ [empty_size], cache)"
  have "agree g (res_fold ?f xs (es, c)) (res_fold ?f xs (es, c'))" if "extent_cache_ok g c" "extent_cache_ok g c'" for xs es c c'
    using that
  proof (induction xs arbitrary: es c c')
    case (Cons x xs)
    have step: "agree g (?f x (es, c)) (?f x (es, c'))"
      using Cons.prems by (auto intro!: agree_bind [OF agree_extent [OF assms(1)]] agree_Inr)
    show ?case unfolding res_fold.simps
      by (rule agree_bind [OF step]) (rule Cons.IH)
  qed (simp add: agree_Inr)
  then show ?thesis using assms by (simp add: resolve_planned_input_extents_def)
qed

lemma agree_required:
  assumes "graph_wf g" "extent_cache_ok g c" "extent_cache_ok g c'"
  shows "agree g (required_upstream_roi_for_task ops d t g c) (required_upstream_roi_for_task ops d t g c')"
  using assms(2,3) unfolding required_upstream_roi_for_task_def Let_def
  by (auto intro!: agree_bind [OF agree_extent [OF assms(1)]] agree_bind [OF agree_input_extents [OF assms(1)]] agree_pure agree_Inr)

definition required_roi :: "PlanOperators \<Rightarrow> ('d, 'p, 's, 'f) GraphModel \<Rightarrow> PlannedDependency \<Rightarrow> PlannedTask \<Rightarrow> PixelRect" where
  "required_roi ops g d t = (case required_upstream_roi_for_task ops d t g Map.empty of Inr (r, _) \<Rightarrow> r | Inl _ \<Rightarrow> empty_rect)"

lemma required_upstream:
  assumes "graph_wf g" "extent_cache_ok g c" "required_upstream_roi_for_task ops d t g c = Inr (r, c')"
  shows "r = required_roi ops g d t" "extent_cache_ok g c'"
  using agree_required [OF assms(1,2), of Map.empty ops d t] assms(3)
  by (auto simp: agree_def required_roi_def split: sum.splits)

lemma edge_required:
  assumes "edge_rect (dep_from_roi d)" "edge_rect (output_roi t)" "required_upstream_roi_for_task ops d t g c = Inr (r, c')"
  shows "edge_rect r"
  using assms unfolding required_upstream_roi_for_task_def Let_def
  by (auto simp: res_bind_eq_Inr_iff edge_rect_ops split: if_splits option.splits)

section \<open>Derived dependencies\<close>

text \<open>
  The reference: a task waits for a task of an upstream node unless the dependency does not concern its region; for a tile of an image
  input with a tiled producer, only for the tiles that meet the region it reads.
\<close>

definition by_tiles :: "PlanOperators \<Rightarrow> PlannedTask list \<Rightarrow> ('d, 'p, 's, 'f) GraphModel \<Rightarrow> PlannedDependency \<Rightarrow> PlannedTask \<Rightarrow> bool" where
  "by_tiles ops tasks g d t \<longleftrightarrow> dep_kind d = ''image'' \<and> task_kind t = TileTask
     \<and> (\<forall>u\<in>set (tasks_of (dep_from d) tasks). \<forall>v\<in>set (tasks_of (dep_from d) tasks). task_kind u = TileTask \<and> task_tile_size u = task_tile_size v)
     \<and> \<not> requires_conservative_parameterized_image_dependency ops d t g"

definition waits_for :: "PlanOperators \<Rightarrow> PlannedTask list \<Rightarrow> ('d, 'p, 's, 'f) GraphModel \<Rightarrow> PlannedDependency \<Rightarrow> PlannedTask \<Rightarrow> PlannedTask \<Rightarrow> bool" where
  "waits_for ops tasks g d t u \<longleftrightarrow> task_node_id t = dep_to d \<and> task_node_id u = dep_from d \<and> \<not> skips_task d t
     \<and> (by_tiles ops tasks g d t \<longrightarrow> rois_overlap (output_roi u) (required_roi ops g d t))"

lemma index_of_node:
  assumes "build_task_dependency_index tasks i = Some ix"
  shows "index_task_ids ix = map task_id (tasks_of i tasks)" "tasks_of i tasks \<noteq> []"
  using assms fold_index [of "tasks_of i tasks"] by (auto simp: build_task_dependency_index_def index_tasks_node close_index_def split: if_splits)

lemma index_addressable:
  assumes "grid_tasks tasks" "build_task_dependency_index tasks i = Some ix"
  shows "grid_addressable ix \<longleftrightarrow> (\<forall>u\<in>set (tasks_of i tasks). \<forall>v\<in>set (tasks_of i tasks). task_kind u = TileTask \<and> task_tile_size u = task_tile_size v)"
proof -
  let ?ts = "tasks_of i tasks"
  have ix: "ix = close_index (fold add_task_to_dependency_index ?ts new_index)" and ne: "?ts \<noteq> []"
    using assms(2) by (auto simp: build_task_dependency_index_def index_tasks_node split: if_splits)
  note f = fold_index [of ?ts]
  have tile: "gridable t \<longleftrightarrow> task_kind t = TileTask" if "t \<in> set ?ts" for t
    using grid_tasks_unfold(3) [OF assms(1), of t] that by (auto simp: gridable_def on_grid_def)
  obtain u where u: "u \<in> set ?ts" using ne by (cases ?ts) auto
  show ?thesis
  proof
    assume g: "grid_addressable ix"
    then have "\<forall>t\<in>set ?ts. gridable t \<and> task_tile_size t = index_tile_size ix" using f unfolding ix by (auto simp: close_index_def filter_empty_conv split: if_splits)
    then show "\<forall>u\<in>set ?ts. \<forall>v\<in>set ?ts. task_kind u = TileTask \<and> task_tile_size u = task_tile_size v" using tile by auto
  next
    assume all: "\<forall>u\<in>set ?ts. \<forall>v\<in>set ?ts. task_kind u = TileTask \<and> task_tile_size u = task_tile_size v"
    let ?ix = "fold add_task_to_dependency_index ?ts new_index"
    have grid: "\<forall>t\<in>set ?ts. gridable t" using all tile by blast
    have "filter gridable ?ts = ?ts" using grid by (intro filter_True) blast
    moreover have "filter (\<lambda>t. \<not> gridable t) ?ts = []" using grid by (simp add: filter_empty_conv)
    ultimately have i: "non_grid_task_ids ?ix = []" "index_tile_size ?ix > 0" "tile_by_coordinate ?ix \<noteq> []" using f ne by auto
    have "index_tile_size ?ix = task_tile_size (hd ?ts)" using index_tile_size_first [of ?ts] ne filter_True [of ?ts gridable] grid by (cases ?ts) auto
    then have size: "task_tile_size t = index_tile_size ?ix" if "t \<in> set ?ts" for t using all that ne by (metis list.set_sel(1))
    then have "grid_addressable ?ix" using f by blast
    with i show "grid_addressable ix" unfolding ix by (simp add: close_index_def)
  qed
qed

definition awaited :: "PlanOperators \<Rightarrow> PlannedTask list \<Rightarrow> ('d, 'p, 's, 'f) GraphModel \<Rightarrow> PlannedDependency list \<Rightarrow> PlannedTask \<Rightarrow> int set" where
  "awaited ops tasks g deps t = {task_id u | u. u \<in> set tasks \<and> (\<exists>d\<in>set deps. waits_for ops tasks g d t u)}"

lemma awaited_append: "awaited ops tasks g (xs @ ys) t = awaited ops tasks g xs t \<union> awaited ops tasks g ys t"
  by (auto simp: awaited_def)

text \<open>The only calls that may throw are those of a propagator: parameters are resolved for nodes without connected parameter inputs only.\<close>

definition propagators_return :: "PlanOperators \<Rightarrow> bool" where
  "propagators_return ops \<longleftrightarrow> (\<forall>nd roi out_size extents params. \<exists>r. plan_propagator ops nd roi out_size extents params = Inr r)"

lemma unconnected_parameters:
  assumes "\<not> list_ex (\<lambda>input. par_from_node_id input \<ge> 0) (parameter_inputs nd)"
  shows "resolve_effective_parameter_snapshot nd g = Inr (parameters nd)"
proof -
  have "res_fold (effective_step g) xs m = Inr m" if "\<not> list_ex (\<lambda>input. par_from_node_id input \<ge> 0) xs" for xs m
    using that by (induction xs) (auto simp: effective_step_def)
  then show ?thesis using assms by (simp add: resolve_effective_parameter_snapshot_def)
qed

lemma extent_returns:
  assumes "graph_wf g" "extent_cache_ok g c"
  shows "returns (resolve_planned_extent g i c) (\<lambda>(s, c). extent_cache_ok g c)"
proof (cases "has_node i g")
  case True
  obtain c1 where "get_size g i c = Inr (node_extent g i, c1)" "extent_cache_ok g c1" using get_size_present [OF assms True] .
  then show ?thesis using True by (simp add: resolve_planned_extent_def get_size_def)
qed (use assms in \<open>simp add: resolve_planned_extent_def\<close>)

lemma input_extents_return:
  assumes "graph_wf g" "extent_cache_ok g c"
  shows "returns (resolve_planned_input_extents g nd c) (\<lambda>(es, c). extent_cache_ok g c)"
  unfolding resolve_planned_input_extents_def
  by (rule returns_fold [where P = "\<lambda>_ (es, c). extent_cache_ok g c"])
     (use assms in \<open>auto intro!: returns_bind [OF extent_returns [OF assms(1)]]\<close>)

lemma input_roi_returns:
  assumes "propagators_return ops"
  shows "returns (input_roi_for_tile ops nd roi s out_size meta es params) (\<lambda>_. True)"
  using assms by (auto simp: input_roi_for_tile_def propagators_return_def returns_def Let_def res_bind_eq_Inr_iff)

lemma required_returns:
  assumes "graph_wf g" "extent_cache_ok g c" "propagators_return ops" "edge_rect (dep_from_roi d)" "edge_rect (output_roi t)"
    "dep_kind d = ''image''" "\<not> requires_conservative_parameterized_image_dependency ops d t g"
  shows "returns (required_upstream_roi_for_task ops d t g c) (\<lambda>(r, c). r = required_roi ops g d t \<and> edge_rect r \<and> extent_cache_ok g c)"
proof -
  have params: "returns (case metadata_for_domain ops (node_type nd) (node_subtype nd) (task_domain t) of None \<Rightarrow> Inr Map.empty
      | Some m \<Rightarrow> if access_pattern m = RandomAccess then resolve_effective_parameter_snapshot nd g else Inr Map.empty) (\<lambda>_. True)"
    if "map_of (nodes g) (dep_to d) = Some nd" for nd
    using assms(6,7) that unconnected_parameters [of nd g]
    by (auto simp: requires_conservative_parameterized_image_dependency_def split: option.splits if_splits)
  have node: "returns (graph_node (dep_to d) g) (\<lambda>nd. map_of (nodes g) (dep_to d) = Some nd)" if "has_node (dep_to d) g"
    using that by (auto simp: graph_node_def require_node_def has_node_def)
  have "returns (required_upstream_roi_for_task ops d t g c) (\<lambda>_. True)"
    using assms(2) unfolding required_upstream_roi_for_task_def Let_def
    by (auto intro!: returns_bind [OF extent_returns [OF assms(1)]] returns_bind [OF node] returns_bind [OF input_extents_return [OF assms(1)]]
        returns_bind [OF params] returns_bind [OF input_roi_returns [OF assms(3)]])
  then obtain r c' where r: "required_upstream_roi_for_task ops d t g c = Inr (r, c')" by (auto simp: returns_def)
  show ?thesis using required_upstream [OF assms(1,2) r] edge_required [OF assms(4,5) r] by (simp add: r)
qed

lemma by_tiles_iff:
  assumes "grid_tasks tasks" "build_task_dependency_index tasks (dep_from d) = Some up" "t \<in> set tasks"
  shows "by_tiles ops tasks g d t \<longleftrightarrow> can_use_spatial_tile_dependency d up t \<and> \<not> requires_conservative_parameterized_image_dependency ops d t g"
proof -
  have "task_kind t = TileTask \<longrightarrow> planned_has_roi (output_roi t)"
    using grid_tasks_unfold(3) [OF assms(1,3)] by (auto simp: gridable_def on_grid_def)
  then show ?thesis
    unfolding by_tiles_def can_use_spatial_tile_dependency_def index_addressable [OF assms(1,2)] by blast
qed

lemma task_dependency_step:
  assumes "grid_tasks tasks" "graph_wf g" "propagators_return ops" "edge_rect (dep_from_roi d)" "extent_cache_ok g c"
    "build_task_dependency_index tasks (dep_from d) = Some up" "t \<in> set tasks" "task_node_id t = dep_to d" "length ids = length tasks"
  defines "k \<equiv> nat (task_id t)"
  shows "returns (task_dependency ops tasks g d up (task_id t) (ids, c)) (\<lambda>(ids', c'). extent_cache_ok g c' \<and> (\<exists>zs. ids' = ids[k := zs]
    \<and> set zs = set (ids ! k) \<union> awaited ops tasks g [d] t \<and> distinct zs = distinct (ids ! k)))"
proof -
  note num = numbered_task [OF assms(1,7)]
  have t: "edge_rect (output_roi t)" using grid_tasks_unfold(2) [OF assms(1,7)] .
  have eq: "ids[k := ids ! k] = ids" by simp
  consider "skips_task d t" | "\<not> skips_task d t" "by_tiles ops tasks g d t" | "\<not> skips_task d t" "\<not> by_tiles ops tasks g d t" by blast
  then show ?thesis
  proof cases
    case 1
    then have "awaited ops tasks g [d] t = {}" by (auto simp: awaited_def waits_for_def)
    then show ?thesis using 1 num assms(5) eq by (auto simp: task_dependency_def k_def Let_def intro!: exI [of _ "ids ! k"])
  next
    case 2
    then have spatial: "can_use_spatial_tile_dependency d up t" "\<not> requires_conservative_parameterized_image_dependency ops d t g"
      using by_tiles_iff [OF assms(1,6,7)] by auto
    then have up: "dep_kind d = ''image''" "grid_addressable up" by (auto simp: can_use_spatial_tile_dependency_def)
    have aw: "awaited ops tasks g [d] t = {task_id u | u. u \<in> set (tasks_of (dep_from d) tasks) \<and> rois_overlap (output_roi u) (required_roi ops g d t)}"
      using 2 assms(8) by (auto simp: awaited_def waits_for_def)
    have run: "task_dependency ops tasks g d up (task_id t) (ids, c) = res_bind (required_upstream_roi_for_task ops d t g c) (\<lambda>(roi, cache).
        Inr (ids[k := append_covering_upstream_tiles (ids ! k) up roi tasks], cache))"
      using 2(1) num spatial by (simp add: task_dependency_def k_def Let_def)
    show ?thesis unfolding run aw
      by (rule returns_bind [OF required_returns [OF assms(2,5,3,4) t up(1) spatial(2)]])
        (auto simp: covering_tiles_exact [OF assms(1,6) up(2)]
          intro!: exI [of _ "append_covering_upstream_tiles (ids ! k) up (required_roi ops g d t) tasks"])
  next
    case 3
    then have "\<not> (can_use_spatial_tile_dependency d up t \<and> \<not> requires_conservative_parameterized_image_dependency ops d t g)"
      using by_tiles_iff [OF assms(1,6,7)] by blast
    then have run: "task_dependency ops tasks g d up (task_id t) (ids, c) = Inr (ids[k := append_node_dependency_tasks (ids ! k) up], c)"
      using 3(1) num by (auto simp: task_dependency_def k_def Let_def)
    have "awaited ops tasks g [d] t = set (index_task_ids up)"
      using 3 assms(8) index_of_node [OF assms(6)] by (auto simp: awaited_def waits_for_def)
    then show ?thesis unfolding run using assms(5) append_node_dependency_tasks_set [of "ids ! k" up] by auto
  qed
qed

text \<open>What the lists hold once the dependencies \<open>deps\<close> have been processed.\<close>

definition lists_hold :: "PlannedTask list \<Rightarrow> ('d, 'p, 's, 'f) GraphModel \<Rightarrow> (PlannedTask \<Rightarrow> int set) \<Rightarrow> int list list \<times> size_cache \<Rightarrow> bool" where
  "lists_hold tasks g F st \<longleftrightarrow> extent_cache_ok g (snd st) \<and> length (fst st) = length tasks
     \<and> (\<forall>t\<in>set tasks. set (fst st ! nat (task_id t)) = F t \<and> distinct (fst st ! nat (task_id t)))"

lemma lists_hold_update:
  assumes "grid_tasks tasks" "lists_hold tasks g F (ids, c)" "t \<in> set tasks" "set zs = F t \<union> A" "distinct zs" "extent_cache_ok g c'"
  shows "lists_hold tasks g (F(t := F t \<union> A)) (ids[nat (task_id t) := zs], c')"
proof -
  note num = numbered_task [OF assms(1)]
  have "ids[nat (task_id t) := zs] ! nat (task_id u) = (if u = t then zs else ids ! nat (task_id u))" if "u \<in> set tasks" for u
    using num [OF assms(3)] num [OF that] assms(2) by (auto simp: lists_hold_def nth_list_update)
  with assms show ?thesis by (simp add: lists_hold_def)
qed

lemma node_dependency_step:
  assumes "grid_tasks tasks" "graph_wf g" "propagators_return ops" "edge_rect (dep_from_roi d)" "lists_hold tasks g F st"
  shows "returns (node_dependency ops tasks g d st) (lists_hold tasks g (\<lambda>t. F t \<union> awaited ops tasks g [d] t))"
proof (cases "build_task_dependency_index tasks (dep_from d)")
  case None
  then have "tasks_of (dep_from d) tasks = []" by (auto simp: build_task_dependency_index_def index_tasks_node split: if_splits)
  then have "awaited ops tasks g [d] t = {}" for t by (auto simp: awaited_def waits_for_def filter_empty_conv)
  then show ?thesis using None assms(5) by (simp add: node_dependency_def)
next
  case up: (Some up)
  show ?thesis
  proof (cases "build_task_dependency_index tasks (dep_to d)")
    case None
    then have "tasks_of (dep_to d) tasks = []" by (auto simp: build_task_dependency_index_def index_tasks_node split: if_splits)
    then have "awaited ops tasks g [d] t = {}" if "t \<in> set tasks" for t using that by (auto simp: awaited_def waits_for_def filter_empty_conv)
    then show ?thesis using None up assms(5) by (simp add: node_dependency_def lists_hold_def)
  next
    case (Some down)
    let ?P = "\<lambda>ts. lists_hold tasks g (\<lambda>t. if t \<in> set ts then F t \<union> awaited ops tasks g [d] t else F t)"
    have run: "node_dependency ops tasks g d st = res_fold (\<lambda>t. task_dependency ops tasks g d up (task_id t)) (tasks_of (dep_to d) tasks) st"
      using up Some index_of_node(1) [OF Some] by (simp add: node_dependency_def res_fold_map)
    have "returns (node_dependency ops tasks g d st) (?P (tasks_of (dep_to d) tasks))" unfolding run
    proof (rule returns_fold [where P = ?P])
      show "?P [] st" using assms(5) by simp
      fix xs t ys s assume split: "tasks_of (dep_to d) tasks = xs @ t # ys" and P: "?P xs s"
      have t: "t \<in> set tasks" "task_node_id t = dep_to d" using split by (auto dest!: arg_cong [of _ _ set])
      obtain ids c where s: "s = (ids, c)" by (cases s)
      have st: "extent_cache_ok g c" "length ids = length tasks" using P by (auto simp: lists_hold_def s)
      have "distinct (tasks_of (dep_to d) tasks)" using numbered_distinct [OF assms(1)] by simp
      then have notin: "t \<notin> set xs" by (simp add: split)
      let ?F = "\<lambda>t. if t \<in> set xs then F t \<union> awaited ops tasks g [d] t else F t"
      have upd: "?F(t := ?F t \<union> awaited ops tasks g [d] t) = (\<lambda>u. if u \<in> set (xs @ [t]) then F u \<union> awaited ops tasks g [d] u else F u)"
        using notin by (auto simp: fun_eq_iff)
      have old: "set (ids ! nat (task_id t)) = ?F t" "distinct (ids ! nat (task_id t))" using P t(1) by (auto simp: lists_hold_def s)
      obtain zs c' where "task_dependency ops tasks g d up (task_id t) (ids, c) = Inr (ids[nat (task_id t) := zs], c')" "extent_cache_ok g c'"
        "set zs = ?F t \<union> awaited ops tasks g [d] t" "distinct zs"
        using task_dependency_step [OF assms(1-4) st(1) up t st(2)] old by (auto simp: returns_def)
      then show "returns (task_dependency ops tasks g d up (task_id t) s) (?P (xs @ [t]))"
        using lists_hold_update [OF assms(1) P [unfolded s] t(1), of zs "awaited ops tasks g [d] t" c'] by (simp add: s upd)
    qed
    then show ?thesis by (auto simp: returns_def lists_hold_def awaited_def waits_for_def)
  qed
qed

lemma lists_hold_cong: "lists_hold tasks g F st \<Longrightarrow> (\<And>t. F t = G t) \<Longrightarrow> lists_hold tasks g G st"
  by (simp add: lists_hold_def)

lemma task_dependency_lists:
  assumes "grid_tasks tasks" "graph_wf g" "propagators_return ops" "\<forall>d\<in>set deps. edge_rect (dep_from_roi d)"
  shows "\<exists>ids. build_task_dependency_ids ops tasks deps g = Inr ids \<and> length ids = length tasks
    \<and> (\<forall>k<length tasks. distinct (ids ! k) \<and> set (ids ! k) = awaited ops tasks g deps (tasks ! k))"
proof -
  have "returns (res_fold (node_dependency ops tasks g) deps (replicate (length tasks) [], Map.empty)) (lists_hold tasks g (awaited ops tasks g deps))"
  proof (rule returns_fold [where P = "\<lambda>ds. lists_hold tasks g (awaited ops tasks g ds)"])
    show "lists_hold tasks g (awaited ops tasks g []) (replicate (length tasks) [], Map.empty)"
      using numbered_task [OF assms(1)] by (auto simp: lists_hold_def extent_cache_ok_def awaited_def nat_less_iff)
    fix xs d ys st assume "deps = xs @ d # ys" "lists_hold tasks g (awaited ops tasks g xs) st"
    then show "returns (node_dependency ops tasks g d st) (lists_hold tasks g (awaited ops tasks g (xs @ [d])))"
      using node_dependency_step [OF assms(1-3), of d "awaited ops tasks g xs" st] assms(4) by (simp add: awaited_append [abs_def])
  qed
  then obtain ids c where ids: "res_fold (node_dependency ops tasks g) deps (replicate (length tasks) [], Map.empty) = Inr (ids, c)"
    "lists_hold tasks g (awaited ops tasks g deps) (ids, c)" by (auto simp: returns_def)
  moreover have "nat (task_id (tasks ! k)) = k" if "k < length tasks" for k using assms(1) that by (simp add: grid_tasks_def)
  ultimately have "\<forall>k<length tasks. distinct (ids ! k) \<and> set (ids ! k) = awaited ops tasks g deps (tasks ! k)"
    unfolding lists_hold_def fst_conv by (metis nth_mem)
  then show ?thesis using ids by (auto simp: build_task_dependency_ids_def lists_hold_def)
qed

text \<open>
  C8. Task dependencies are exact. For tasks numbered by position whose tiles lie on the grids of their nodes, a well-formed graph and
  propagators that return, the planner returns one list per task, without duplicates, holding exactly the tasks it has to wait for: the
  tasks of the upstream node of each dependency that concerns its region and, for a tile of an image input with a tiled producer whose
  region is known before parameters are computed, exactly those tiles that meet the upstream region the tile reads. The coordinate index
  and the memoised extents never lose, add or repeat a dependency.
\<close>

theorem task_dependencies_exact:
  assumes "grid_tasks tasks" "graph_wf g" "propagators_return ops" "\<forall>d\<in>set deps. edge_rect (dep_from_roi d)"
  shows "\<exists>ids. build_task_dependency_ids ops tasks deps g = Inr ids \<and> length ids = length tasks
    \<and> (\<forall>k<length tasks. distinct (ids ! k) \<and> set (ids ! k) = {task_id u | u. u \<in> set tasks \<and> (\<exists>d\<in>set deps. waits_for ops tasks g d (tasks ! k) u)})"
  using task_dependency_lists [OF assms] unfolding awaited_def .

subsection \<open>The tiles of two frames\<close>

definition demo_tiles :: "PlannedTask list" where
  "demo_tiles = (case populate demo_plan_operators None HighPrecision demo_frames demo_frame_plan of Inr p \<Rightarrow> graph_tasks (task_graph p) | Inl _ \<Rightarrow> [])"

definition demo_dependencies :: "PlannedDependency list" where
  "demo_dependencies = populate_dependencies_from_graph [1, 2] HighPrecision demo_frames []"

lemma demo_tiles_grid: "grid_tasks demo_tiles"
proof -
  obtain p where p: "populate demo_plan_operators None HighPrecision demo_frames demo_frame_plan = Inr p" using populate_returns [OF demo_frames_wf(1)] by blast
  have "grid_tasks (graph_tasks (task_graph p))"
    by (rule populated_grid [OF demo_frames_wf(1,2) _ _ _ p]) (simp_all add: demo_frame_plan_def demo_work_entry_def geom_defs i32_defs)
  then show ?thesis by (simp add: demo_tiles_def p)
qed

lemma demo_propagators_return: "propagators_return demo_plan_operators"
  by (simp add: propagators_return_def demo_plan_operators_def)

lemma demo_dependencies_eq: "map (\<lambda>d. (dep_from d, dep_to d, dep_from_roi d)) demo_dependencies = [(1, 2, empty_rect)]"
  by code_simp

lemma demo_dependency_ids: "build_task_dependency_ids demo_plan_operators demo_tiles demo_dependencies demo_frames
    = Inr [[], [], [0], [1]]"
  by code_simp

theorem task_dependencies_exact_witness:
  "build_task_dependency_ids demo_plan_operators demo_tiles demo_dependencies demo_frames = Inr [[], [], [0], [1]]
   \<and> {task_id u | u. u \<in> set demo_tiles \<and> Bex (set demo_dependencies) (\<lambda>d. waits_for demo_plan_operators demo_tiles demo_frames d (demo_tiles ! 3) u)} = {1}"
proof -
  have len: "length demo_tiles = 4" by code_simp
  have "set (map (\<lambda>d. (dep_from d, dep_to d, dep_from_roi d)) demo_dependencies) = {(1, 2, empty_rect)}" unfolding demo_dependencies_eq by simp
  then have "\<forall>d\<in>set demo_dependencies. dep_from_roi d = empty_rect" by (metis (mono_tags) imageI list.set_map prod.inject singletonD)
  then have "\<forall>d\<in>set demo_dependencies. edge_rect (dep_from_roi d)" by (simp add: geom_defs i32_defs)
  from task_dependencies_exact [OF demo_tiles_grid demo_frames_wf(1) demo_propagators_return this] obtain ids where
    "build_task_dependency_ids demo_plan_operators demo_tiles demo_dependencies demo_frames = Inr ids"
    and exact: "\<forall>k<4. set (ids ! k) = {task_id u | u. u \<in> set demo_tiles \<and> (\<exists>d\<in>set demo_dependencies. waits_for demo_plan_operators demo_tiles demo_frames d (demo_tiles ! k) u)}"
    unfolding len by blast
  from this(1) have "set (ids ! 3) = {1}" unfolding demo_dependency_ids by auto
  then have "{task_id u | u. u \<in> set demo_tiles \<and> (\<exists>d\<in>set demo_dependencies. waits_for demo_plan_operators demo_tiles demo_frames d (demo_tiles ! 3) u)} = {1}"
    using exact [rule_format, of 3] by simp
  then show ?thesis using demo_dependency_ids by blast
qed

end
