(* ===== verification/PlanExecution.thy ===== *)
theory PlanExecution
  imports TaskPlanning
begin

text \<open>
  Plans that can be executed: the plan of a request, expanded from the whole graph and pruned to the nodes of the request, is a task list that
  the dependency state of \<^verbatim>\<open>TaskDependency\<close> runs to the end; and the two ways to select the tasks of a dirty snapshot agree.
\<close>

section \<open>Work entries\<close>

lemma update_work_fields:
  assumes "\<And>w. h (f w) = h w"
  shows "map h (update_work i f ws) = map h ws"
proof -
  have "map h (ws[k := f (ws ! k)]) = map h ws" for k
    using assms by (cases "k < length ws") (simp_all add: map_update list_update_beyond list_update_same_conv)
  then show ?thesis by (simp add: update_work_def split: option.splits)
qed

lemma fold_update_fields:
  assumes "\<And>x w. h (f x w) = h w"
  shows "map h (fold (\<lambda>x. update_work (n x) (f x)) xs ws) = map h ws"
  by (induction xs arbitrary: ws) (simp_all add: update_work_fields assms)

lemma node_dependency_lists_fields:
  "map (\<lambda>w. (work_node_id w, execution_roi w)) (planned_work (populate_node_dependency_lists p))
     = map (\<lambda>w. (work_node_id w, execution_roi w)) (planned_work p)"
  "task_graph (populate_node_dependency_lists p) = task_graph p" "planned_nodes (populate_node_dependency_lists p) = planned_nodes p"
proof -
  let ?h = "\<lambda>w :: PlannedNodeWork. (work_node_id w, execution_roi w)"
  have "map ?h (fold (\<lambda>d ws. update_work (dep_from d) (\<lambda>w. w\<lparr>dependent_node_ids := append_unique (dependent_node_ids w) (dep_to d)\<rparr>)
      (update_work (dep_to d) (\<lambda>w. w\<lparr>dependency_node_ids := append_unique (dependency_node_ids w) (dep_from d)\<rparr>) ws)) ds ws) = map ?h ws" for ds :: "PlannedDependency list" and ws
    by (induction ds arbitrary: ws) (simp_all add: update_work_fields)
  then show "map ?h (planned_work (populate_node_dependency_lists p)) = map ?h (planned_work p)"
    by (simp add: populate_node_dependency_lists_def comp_def)
qed (simp_all add: populate_node_dependency_lists_def)

section \<open>Node dependencies are the edges of the graph\<close>

definition dep_edges :: "PlannedDependency list \<Rightarrow> (int \<times> int) set" where
  "dep_edges deps = (\<lambda>d. (dep_from d, dep_to d)) ` set deps"

lemma add_dependency_record_edges [simp]: "dep_edges (add_dependency_record ds n) = insert (dep_from n, dep_to n) (dep_edges ds)"
  by (induction ds) (auto simp: dep_edges_def same_dependency_def)

definition blank_roi :: "PlannedDependency \<Rightarrow> bool" where
  "blank_roi d \<longleftrightarrow> dep_from_roi d = empty_rect \<and> dep_to_roi d = empty_rect"

abbreviation blank_rois :: "PlannedDependency list \<Rightarrow> bool" where
  "blank_rois deps \<equiv> list_all blank_roi deps"

lemma merge_blank: "merge_rect empty_rect empty_rect = empty_rect"
  by (simp add: merge_rect_def is_rect_empty_def empty_rect_def)

lemma add_dependency_record_blank: "blank_rois ds \<Longrightarrow> blank_roi n \<Longrightarrow> blank_rois (add_dependency_record ds n)"
proof (induction ds)
  case (Cons d ds)
  have "blank_roi (d\<lparr>dep_from_roi := merge_rect (dep_from_roi d) (dep_from_roi n), dep_to_roi := merge_rect (dep_to_roi d) (dep_to_roi n), dep_direction := dep_direction n\<rparr>)"
    using Cons.prems by (simp add: blank_roi_def merge_blank)
  with Cons show ?case by simp
qed simp

lemma graph_dependency_blank: "blank_roi (graph_dependency domain i edge)"
  by (simp add: blank_roi_def graph_dependency_def)

lemma graph_dependencies_edges:
  assumes "graph_wf g"
  shows "dep_edges (populate_dependencies_from_graph planned domain g []) = {(d, i) \<in> edge_rel g. d \<in> set planned \<and> i \<in> set planned}"
    and "blank_rois (populate_dependencies_from_graph planned domain g [])"
proof -
  let ?E = "\<lambda>P. {(d, i) \<in> edge_rel g. d \<in> P \<and> i \<in> P}"
  let ?row = "\<lambda>i deps. fold (\<lambda>edge deps. if from_node_id edge < 0 \<or> from_node_id edge \<notin> set planned then deps
      else add_dependency_record deps (graph_dependency domain i edge)) (upstream_edges g i) deps"
  have row: "dep_edges (?row i deps) = dep_edges deps \<union> {(d, i) | d. (d, i) \<in> edge_rel g \<and> d \<in> set planned}" for i deps
  proof -
    have "dep_edges (fold (\<lambda>edge deps. if from_node_id edge < 0 \<or> from_node_id edge \<notin> set planned then deps
        else add_dependency_record deps (graph_dependency domain i edge)) es deps)
      = dep_edges deps \<union> {(from_node_id e, i) | e. e \<in> set es \<and> from_node_id e \<ge> 0 \<and> from_node_id e \<in> set planned}" for es :: "GraphTopologyEdge list"
      by (induction es arbitrary: deps) (auto simp: graph_dependency_def)
    moreover have "(d, i) \<in> edge_rel g \<Longrightarrow> 0 \<le> d" for d by (simp add: edge_rel_def)
    ultimately show ?thesis using edge_rel_upstream [OF assms, of _ i] by auto
  qed
  have blank: "blank_rois deps \<Longrightarrow> blank_rois (?row i deps)" for i deps
  proof -
    have "blank_rois deps \<Longrightarrow> blank_rois (fold (\<lambda>edge deps. if from_node_id edge < 0 \<or> from_node_id edge \<notin> set planned then deps
        else add_dependency_record deps (graph_dependency domain i edge)) es deps)" for es :: "GraphTopologyEdge list"
      by (induction es arbitrary: deps) (simp_all add: graph_dependency_blank add_dependency_record_blank)
    then show "blank_rois deps \<Longrightarrow> blank_rois (?row i deps)" .
  qed
  have node: "(if \<not> has_node i g then {} else {(d, i) | d. (d, i) \<in> edge_rel g \<and> d \<in> set planned}) = {(d, j) \<in> edge_rel g. d \<in> set planned \<and> j = i}" for i
    using edge_rel_has_node(2) [OF assms] by auto
  have "dep_edges (fold (\<lambda>i deps. if \<not> has_node i g then deps else ?row i deps) is deps)
      = dep_edges deps \<union> {(d, i) \<in> edge_rel g. d \<in> set planned \<and> i \<in> set is}" for "is" deps
  proof (induction "is" arbitrary: deps)
    case (Cons i "is")
    have "dep_edges (if \<not> has_node i g then deps else ?row i deps) = dep_edges deps \<union> {(d, j) \<in> edge_rel g. d \<in> set planned \<and> j = i}"
      unfolding node [symmetric] by (simp add: row)
    with Cons show ?case by auto
  qed simp
  then show "dep_edges (populate_dependencies_from_graph planned domain g []) = ?E (set planned)"
    unfolding populate_dependencies_from_graph_def by (simp only: dep_edges_def list.set image_empty Un_empty_left)
  have "blank_rois deps \<Longrightarrow> blank_rois (fold (\<lambda>i deps. if \<not> has_node i g then deps else ?row i deps) is deps)" for "is" deps
    by (induction "is" arbitrary: deps) (use blank in auto)
  then show "blank_rois (populate_dependencies_from_graph planned domain g [])"
    unfolding populate_dependencies_from_graph_def by simp
qed

section \<open>Assigned dependencies\<close>

lemma merge_edge_rect: "edge_rect empty_rect"
  by (simp add: geom_defs i32_defs)

lemma blank_edge_rects: "blank_rois deps \<Longrightarrow> \<forall>d\<in>set deps. edge_rect (dep_from_roi d)"
  by (simp add: list_all_iff blank_roi_def merge_edge_rect)

text \<open>What population of task dependencies yields: the tasks with their exact lists, and the tasks without dependencies first.\<close>

lemma populate_task_dependencies_returns:
  assumes "grid_tasks (graph_tasks (task_graph p))" "graph_wf g" "propagators_return ops" "\<forall>d\<in>set (graph_dependencies (task_graph p)). edge_rect (dep_from_roi d)"
  defines "tasks \<equiv> graph_tasks (task_graph p)" and "deps \<equiv> graph_dependencies (task_graph p)"
  shows "\<exists>p' ids. populate_task_dependencies ops g p = Inr p' \<and> graph_tasks (task_graph p') = map (\<lambda>t. t\<lparr>dependency_task_ids := ids (task_id t)\<rparr>) tasks
    \<and> (\<forall>t\<in>set tasks. distinct (ids (task_id t)) \<and> set (ids (task_id t)) = awaited ops tasks g deps t)
    \<and> initial_task_ids (task_graph p') = map task_id (filter (\<lambda>t. ids (task_id t) = []) tasks)
    \<and> graph_dependencies (task_graph p') = deps \<and> planned_nodes p' = planned_nodes p \<and> planned_work p' = planned_work p"
proof -
  obtain ids where ids: "build_task_dependency_ids ops tasks deps g = Inr ids" "length ids = length tasks"
    "\<forall>k<length tasks. distinct (ids ! k) \<and> set (ids ! k) = awaited ops tasks g deps (tasks ! k)"
    using task_dependency_lists [OF assms(1-4)] unfolding tasks_def deps_def by blast
  let ?ids = "\<lambda>i. ids ! nat i"
  note num = numbered_task [OF assms(1), folded tasks_def]
  have assign: "map (assign_dependencies ids) tasks = map (\<lambda>t. t\<lparr>dependency_task_ids := ?ids (task_id t)\<rparr>) tasks"
  proof (rule map_cong [OF refl])
    fix t assume "t \<in> set tasks"
    then show "assign_dependencies ids t = t\<lparr>dependency_task_ids := ?ids (task_id t)\<rparr>"
      using num [of t] ids(2) by (simp add: assign_dependencies_def)
  qed
  let ?tasks' = "map (\<lambda>t. t\<lparr>dependency_task_ids := ?ids (task_id t)\<rparr>) tasks"
  let ?dep = "set (map task_id (filter (\<lambda>t. 0 \<le> task_id t \<and> task_id t < int (length ids) \<and> dependency_task_ids t \<noteq> []) ?tasks'))"
  have dep: "task_id t \<notin> ?dep \<longleftrightarrow> ?ids (task_id t) = []" if "t \<in> set tasks" for t
    using num [OF that] ids(2) that by (auto simp: image_iff dest!: spec [of _ "t\<lparr>dependency_task_ids := ids ! nat (task_id t)\<rparr>"])
  have init: "map task_id (filter (\<lambda>t. task_id t \<notin> ?dep) ?tasks') = map task_id (filter (\<lambda>t. ?ids (task_id t) = []) tasks)"
  proof -
    have "map task_id (filter (\<lambda>t. task_id t \<notin> ?dep) ?tasks') = map task_id (filter (\<lambda>t. task_id t \<notin> ?dep) tasks)"
      by (simp only: filter_map map_map) (simp add: comp_def)
    also have "filter (\<lambda>t. task_id t \<notin> ?dep) tasks = filter (\<lambda>t. ?ids (task_id t) = []) tasks"
      by (rule filter_cong [OF refl]) (rule dep)
    finally show ?thesis .
  qed
  have "\<forall>t\<in>set tasks. distinct (?ids (task_id t)) \<and> set (?ids (task_id t)) = awaited ops tasks g deps t"
    using ids(3) num by (metis nat_less_iff)
  moreover let ?p' = "p\<lparr>task_graph := (task_graph p)\<lparr>graph_tasks := ?tasks', initial_task_ids := map task_id (filter (\<lambda>t. ?ids (task_id t) = []) tasks)\<rparr>\<rparr>"
  have "populate_task_dependencies ops g p = Inr ?p'"
    unfolding populate_task_dependencies_def tasks_def [symmetric] deps_def [symmetric] ids(1) res_bind_simps Let_def assign init ..
  ultimately show ?thesis by (intro exI [of _ ?p'] exI [of _ ?ids]) (simp add: deps_def)
qed

section \<open>Expansion of the whole graph\<close>

lemma node_ids_distinct: "graph_wf g \<Longrightarrow> distinct (node_ids g)"
  by (simp add: node_ids_def graph_wf_def)

lemma set_node_ids: "i \<in> set (node_ids g) \<longleftrightarrow> has_node i g"
  by (simp add: node_ids_def has_node_keys node_keys_def)

text \<open>The plan of the whole graph before its task dependencies.\<close>

lemma expanded_plan:
  assumes "graph_wf g" "int_sized g" "propagators_return ops"
  obtains p where "build_plan_from_nodes ops request (node_ids g) g = Inr p"
    "grid_tasks (graph_tasks (task_graph p))" "dep_edges (graph_dependencies (task_graph p)) = edge_rel g" "blank_rois (graph_dependencies (task_graph p))"
    "map work_node_id (planned_work p) = node_ids g" "planned_nodes p = node_ids g"
proof -
  let ?domain = "domain_for_intent (req_intent request)"
  let ?deps = "populate_dependencies_from_graph (node_ids g) ?domain g []"
  let ?p0 = "\<lparr>plan_intent = req_intent request, plan_target = req_target request, plan_parallel = req_parallel request, execution_order = node_ids g,
      planned_nodes = node_ids g, planned_work = map (new_work ?domain) (node_ids g),
      task_graph = \<lparr>graph_tasks = [], graph_dependencies = ?deps, initial_task_ids = []\<rparr>\<rparr>"
  let ?p1 = "populate_node_dependency_lists ?p0"
  note fields = node_dependency_lists_fields [of ?p0]
  have works: "map work_node_id (planned_work ?p1) = node_ids g" "\<forall>wk\<in>set (planned_work ?p1). edge_rect (execution_roi wk)"
  proof -
    have eq: "map (\<lambda>w. (work_node_id w, execution_roi w)) (planned_work ?p1) = map (\<lambda>i. (i, empty_rect)) (node_ids g)"
      using fields(1) by (simp add: new_work_def comp_def)
    from arg_cong [OF eq, of "map fst"] show "map work_node_id (planned_work ?p1) = node_ids g" by (simp add: comp_def)
    from arg_cong [OF eq, of "\<lambda>xs. snd ` set xs"] show "\<forall>wk\<in>set (planned_work ?p1). edge_rect (execution_roi wk)"
      using merge_edge_rect by (force simp: image_image)
  qed
  obtain p2 where p2: "populate ops None ?domain g ?p1 = Inr p2"
    "p2 = fold (add_task None) (concat (map (planned_tasks ops g ?domain) (planned_work ?p1))) ?p1"
    using populate_returns [OF assms(1)] by blast
  have grid: "grid_tasks (graph_tasks (task_graph p2))"
    using populated_grid [OF assms(1,2) _ works(2) _ p2(1)] works(1) fields(2) node_ids_distinct [OF assms(1)] by simp
  have p2f: "graph_dependencies (task_graph p2) = ?deps" "map work_node_id (planned_work p2) = node_ids g" "planned_nodes p2 = node_ids g"
    using add_tasks [of None _ ?p1] fields works(1) unfolding p2(2) by simp_all
  note deps = graph_dependencies_edges [OF assms(1), of "node_ids g" ?domain]
  have edges: "dep_edges ?deps = edge_rel g" using deps(1) edge_rel_has_node(1,2) [OF assms(1)] by (auto simp: set_node_ids)
  obtain p ids where p: "populate_task_dependencies ops g p2 = Inr p"
    "graph_tasks (task_graph p) = map (\<lambda>t. t\<lparr>dependency_task_ids := ids (task_id t)\<rparr>) (graph_tasks (task_graph p2))"
    "graph_dependencies (task_graph p) = ?deps" "planned_nodes p = node_ids g" "planned_work p = planned_work p2"
    using populate_task_dependencies_returns [OF grid assms(1,3)] blank_edge_rects [OF deps(2)] unfolding p2f by blast
  have run: "build_plan_from_nodes ops request (node_ids g) g = Inr p"
    using p2(1) p(1) by (simp add: build_plan_from_nodes_def Let_def)
  have "list_all2 same_shape (graph_tasks (task_graph p)) (graph_tasks (task_graph p2))"
    unfolding p(2) by (simp add: list_all2_conv_all_nth same_shape_def)
  then have "grid_tasks (graph_tasks (task_graph p))" using grid tile_shape_cong by (auto simp: grid_tasks_def p(2))
  then show ?thesis using run that edges deps(2) p2f p by auto
qed

section \<open>Pruning to the nodes of a request\<close>

abbreviation entries_at :: "('k \<rightharpoonup> 'v list) \<Rightarrow> 'k \<Rightarrow> 'v list" where
  "entries_at m k \<equiv> (case m k of None \<Rightarrow> [] | Some vs \<Rightarrow> vs)"

lemma entries_at_fold: "entries_at (fold (\<lambda>x. push_to (key x) (v x)) xs m) k = entries_at m k @ map v (filter (\<lambda>x. key x = k) xs)"
  by (induction xs arbitrary: m) (auto simp: push_to_def)

definition renumbered :: "nat \<Rightarrow> PlannedTask list \<Rightarrow> PlannedTask list" where
  "renumbered n ts = map (\<lambda>(k, t). t\<lparr>task_id := int k, dependency_task_ids := []\<rparr>) (enumerate n ts)"

lemma renumbered_append: "renumbered n (xs @ ys) = renumbered n xs @ renumbered (n + length xs) ys"
  by (simp add: renumbered_def enumerate_append_eq)

lemma length_renumbered [simp]: "length (renumbered n ts) = length ts"
  by (simp add: renumbered_def)

lemma renumbered_shape: "list_all2 same_shape (renumbered n ts) ts"
  by (simp add: renumbered_def list_all2_conv_all_nth nth_enumerate_eq same_shape_def)

lemma renumbered_grid: "tile_shape ts \<Longrightarrow> grid_tasks (renumbered 0 ts)"
  using tile_shape_cong [OF renumbered_shape] by (auto simp: grid_tasks_def renumbered_def nth_enumerate_eq)

lemma pruned_tasks_append:
  assumes "grid_tasks (graph_tasks (full_task_graph full))"
    "entries_at (task_ids_by_node full) i = map task_id (tasks_of i (graph_tasks (full_task_graph full)))"
  shows "pruned_tasks full i tasks = tasks @ renumbered (length tasks) (tasks_of i (graph_tasks (full_task_graph full)))"
proof -
  let ?T = "graph_tasks (full_task_graph full)"
  let ?f = "\<lambda>tid tasks. if tid < 0 \<or> tid \<ge> int (length ?T) then tasks
        else tasks @ [(?T ! nat tid)\<lparr>task_id := int (length tasks), dependency_task_ids := []\<rparr>]"
  have "fold ?f (map task_id ts) tasks = tasks @ renumbered (length tasks) ts" if "set ts \<subseteq> set ?T" for ts
    using that
  proof (induction ts arbitrary: tasks)
    case (Cons t ts)
    have "?f (task_id t) tasks = tasks @ renumbered (length tasks) [t]"
      using numbered_task [OF assms(1), of t] Cons.prems by (simp add: renumbered_def)
    with Cons show ?case using renumbered_append [of "length tasks" "[t]" ts] by simp
  qed (simp add: renumbered_def)
  then show ?thesis unfolding pruned_tasks_def assms(2) by auto
qed

lemma pruned_tasks_all:
  assumes "grid_tasks (graph_tasks (full_task_graph full))"
    "\<And>i. entries_at (task_ids_by_node full) i = map task_id (tasks_of i (graph_tasks (full_task_graph full)))"
  shows "fold (pruned_tasks full) order [] = renumbered 0 (concat (map (\<lambda>i. tasks_of i (graph_tasks (full_task_graph full))) order))"
  by (induction order rule: rev_induct) (simp_all add: pruned_tasks_append [OF assms] renumbered_append, simp add: renumbered_def)

lemma pruned_dependencies_append:
  assumes "entries_at (dependency_indices_by_to_node full) i
      = map snd (filter (\<lambda>(d, k). dep_to d = i) (zip (graph_dependencies (full_task_graph full)) [0..<length (graph_dependencies (full_task_graph full))]))"
  shows "pruned_dependencies full order i deps = deps @ filter (\<lambda>d. dep_to d = i \<and> dep_from d \<in> set order) (graph_dependencies (full_task_graph full))"
proof -
  let ?D = "graph_dependencies (full_task_graph full)"
  let ?f = "\<lambda>k deps. if k \<ge> length ?D then deps else let d = ?D ! k in if dep_from d \<notin> set order then deps else deps @ [d]"
  have run: "fold ?f (map snd (filter (\<lambda>(d, k). dep_to d = i) ps)) deps = deps @ filter (\<lambda>d. dep_to d = i \<and> dep_from d \<in> set order) (map fst ps)"
    if "\<forall>(d, k)\<in>set ps. k < length ?D \<and> ?D ! k = d" for ps
    using that by (induction ps arbitrary: deps) (auto simp: Let_def)
  have fsts: "map fst (zip ?D [0..<length ?D]) = ?D" by simp
  have "\<forall>(d, k)\<in>set (zip ?D [0..<length ?D]). k < length ?D \<and> ?D ! k = d" by (auto simp: set_zip)
  from run [OF this] show ?thesis unfolding pruned_dependencies_def assms fsts .
qed

lemma pruned_works:
  assumes "\<forall>i\<in>set order. has_node i g \<and> (\<exists>k. work_index_by_node full i = Some k \<and> k < length (expanded_work full))"
  obtains ws where "res_fold (pruned_work full g) order [] = Inr ws"
proof -
  have "returns (res_fold (pruned_work full g) order []) (\<lambda>_. True)"
    by (rule returns_fold [where P = "\<lambda>_ _. True"]) (use assms in \<open>auto simp: pruned_work_def has_node_def\<close>)
  then show ?thesis using that by (auto simp: returns_def)
qed

lemma work_index_Some:
  assumes "i \<in> set (map work_node_id ws)"
  obtains k where "work_index ws i = Some k" "k < length ws"
proof -
  have "map fst (zip (map work_node_id ws) [0..<length ws]) = map work_node_id ws" by simp
  then have "fst ` set (zip (map work_node_id ws) [0..<length ws]) = set (map work_node_id ws)" by (metis list.set_map)
  then have "map_of (rev (zip (map work_node_id ws) [0..<length ws])) i \<noteq> None"
    using assms by (simp only: map_of_eq_None_iff set_rev) simp
  then obtain k where k: "work_index ws i = Some k" by (auto simp: work_index_def)
  then have "(i, k) \<in> set (zip (map work_node_id ws) [0..<length ws])" unfolding work_index_def by (auto dest: map_of_SomeD)
  then show ?thesis using that k by (auto dest: set_zip_rightD)
qed

text \<open>The expansion with its tables.\<close>

definition expansion_of :: "('d, 'p, 's, 'f) GraphModel \<Rightarrow> FullTaskGraph \<Rightarrow> bool" where
  "expansion_of g full \<longleftrightarrow> grid_tasks (graph_tasks (full_task_graph full))
     \<and> dep_edges (graph_dependencies (full_task_graph full)) = edge_rel g \<and> blank_rois (graph_dependencies (full_task_graph full))
     \<and> (\<forall>i. has_node i g \<longrightarrow> (\<exists>k. work_index_by_node full i = Some k \<and> k < length (expanded_work full)))
     \<and> (\<forall>i. entries_at (task_ids_by_node full) i = map task_id (tasks_of i (graph_tasks (full_task_graph full))))
     \<and> (\<forall>i. entries_at (dependency_indices_by_to_node full) i = map snd (filter (\<lambda>(d, k). dep_to d = i)
          (zip (graph_dependencies (full_task_graph full)) [0..<length (graph_dependencies (full_task_graph full))])))"

lemma expand_returns:
  assumes "graph_wf g" "int_sized g" "propagators_return ops"
  obtains full where "expand ops g intent = Inr full" "expansion_of g full"
proof -
  obtain p where p: "build_plan_from_nodes ops \<lparr>req_intent = intent, req_target = - 1, req_parallel = False\<rparr> (node_ids g) g = Inr p"
    "grid_tasks (graph_tasks (task_graph p))"
    "dep_edges (graph_dependencies (task_graph p)) = edge_rel g" "blank_rois (graph_dependencies (task_graph p))"
    "map work_node_id (planned_work p) = node_ids g"
    using expanded_plan [OF assms] by metis
  obtain full where full: "expand ops g intent = Inr full" "full_task_graph full = task_graph p" "expanded_work full = planned_work p"
    "work_index_by_node full = work_index (planned_work p)"
    "task_ids_by_node full = fold (\<lambda>t. push_to (task_node_id t) (task_id t)) (graph_tasks (task_graph p)) Map.empty"
    "dependency_indices_by_to_node full = fold (\<lambda>x. push_to (dep_to (fst x)) (snd x))
        (zip (graph_dependencies (task_graph p)) [0..<length (graph_dependencies (task_graph p))]) Map.empty"
    using p(1) by (simp add: expand_def case_prod_beta')
  have "\<exists>k. work_index_by_node full i = Some k \<and> k < length (expanded_work full)" if "has_node i g" for i
  proof -
    have "i \<in> set (map work_node_id (planned_work p))" unfolding p(5) using that by (simp add: set_node_ids)
    then show ?thesis unfolding full(3,4) by (metis work_index_Some)
  qed
  with p full have "expansion_of g full" by (simp add: expansion_of_def entries_at_fold case_prod_beta')
  then show ?thesis using full(1) that by blast
qed

definition pruned_list :: "FullTaskGraph \<Rightarrow> int list \<Rightarrow> PlannedTask list" where
  "pruned_list full order = renumbered 0 (concat (map (\<lambda>i. tasks_of i (graph_tasks (full_task_graph full))) order))"

lemma tile_shape_tasks_of: "tile_shape ts \<Longrightarrow> tile_shape (tasks_of i ts)"
  using distinct_map_filter [of tile_key "filter is_tile ts" "\<lambda>t. task_node_id t = i"] by (auto simp: tile_shape_def conj_commute)

lemma prune_returns:
  assumes "graph_wf g" "propagators_return ops" "expansion_of g full"
    and order: "distinct order" "\<forall>i\<in>set order. has_node i g"
  obtains p ids where "prune_node_cache ops full request order g = Inr p" "planned_nodes p = order"
    "graph_tasks (task_graph p) = map (\<lambda>t. t\<lparr>dependency_task_ids := ids (task_id t)\<rparr>) (pruned_list full order)" "grid_tasks (pruned_list full order)"
    "\<forall>t\<in>set (pruned_list full order). distinct (ids (task_id t)) \<and> set (ids (task_id t)) = awaited ops (pruned_list full order) g (graph_dependencies (task_graph p)) t"
    "initial_task_ids (task_graph p) = map task_id (filter (\<lambda>t. ids (task_id t) = []) (pruned_list full order))"
    "dep_edges (graph_dependencies (task_graph p)) = {(d, i) \<in> edge_rel g. d \<in> set order \<and> i \<in> set order}"
proof -
  let ?T = "graph_tasks (full_task_graph full)" and ?D = "graph_dependencies (full_task_graph full)"
  have full: "grid_tasks ?T" "dep_edges ?D = edge_rel g" "blank_rois ?D" "\<And>i. has_node i g \<Longrightarrow> \<exists>k. work_index_by_node full i = Some k \<and> k < length (expanded_work full)"
    "\<And>i. entries_at (task_ids_by_node full) i = map task_id (tasks_of i ?T)"
    "\<And>i. entries_at (dependency_indices_by_to_node full) i = map snd (filter (\<lambda>(d, k). dep_to d = i) (zip ?D [0..<length ?D]))"
    using assms(3) by (simp_all add: expansion_of_def)
  obtain ws where ws: "res_fold (pruned_work full g) order [] = Inr ws" using pruned_works [of order g full] full(4) order(2) by blast
  have tasks: "fold (pruned_tasks full) order [] = pruned_list full order" unfolding pruned_list_def by (rule pruned_tasks_all [OF full(1,5)])
  have shape: "tile_shape (concat (map (\<lambda>i. tasks_of i ?T) order))"
    by (rule tile_shape_concat [where h = id]) (use full(1) order(1) tile_shape_tasks_of in \<open>auto simp: grid_tasks_def\<close>)
  then have grid: "grid_tasks (pruned_list full order)" unfolding pruned_list_def by (rule renumbered_grid)
  let ?deps = "concat (map (\<lambda>i. filter (\<lambda>d. dep_to d = i \<and> dep_from d \<in> set order) ?D) order)"
  have "fold (pruned_dependencies full ord) xs [] = concat (map (\<lambda>i. filter (\<lambda>d. dep_to d = i \<and> dep_from d \<in> set ord) ?D) xs)" for ord xs
    by (induction xs rule: rev_induct) (simp_all add: pruned_dependencies_append [OF full(6)])
  then have deps: "fold (pruned_dependencies full order) order [] = ?deps" .
  have edges: "dep_edges ?deps = {(d, i) \<in> edge_rel g. d \<in> set order \<and> i \<in> set order}"
    unfolding full(2) [symmetric] by (auto simp: dep_edges_def)
  have blank: "\<forall>d\<in>set ?deps. edge_rect (dep_from_roi d)" using blank_edge_rects [OF full(3)] by auto
  let ?p = "populate_node_dependency_lists (rebuild_work_task_ids
      \<lparr>plan_intent = req_intent request, plan_target = req_target request, plan_parallel = req_parallel request, execution_order = order,
       planned_nodes = order, planned_work = ws, task_graph = \<lparr>graph_tasks = pruned_list full order, graph_dependencies = ?deps, initial_task_ids = []\<rparr>\<rparr>)"
  have run: "prune_node_cache ops full request order g = populate_task_dependencies ops g ?p"
    using ws tasks deps by (simp add: prune_node_cache_def)
  have p: "graph_tasks (task_graph ?p) = pruned_list full order" "graph_dependencies (task_graph ?p) = ?deps" "planned_nodes ?p = order"
    by (simp_all add: node_dependency_lists_fields rebuild_work_task_ids_def)
  have "grid_tasks (graph_tasks (task_graph ?p))" "\<forall>d\<in>set (graph_dependencies (task_graph ?p)). edge_rect (dep_from_roi d)"
    unfolding p using grid blank by simp_all
  from populate_task_dependencies_returns [OF this(1) assms(1,2) this(2)] obtain p ids where
    "prune_node_cache ops full request order g = Inr p" "planned_nodes p = order" "graph_dependencies (task_graph p) = ?deps"
    "graph_tasks (task_graph p) = map (\<lambda>t. t\<lparr>dependency_task_ids := ids (task_id t)\<rparr>) (pruned_list full order)"
    "\<forall>t\<in>set (pruned_list full order). distinct (ids (task_id t)) \<and> set (ids (task_id t)) = awaited ops (pruned_list full order) g ?deps t"
    "initial_task_ids (task_graph p) = map task_id (filter (\<lambda>t. ids (task_id t) = []) (pruned_list full order))"
    unfolding p run [symmetric] by blast
  with that [of p ids] grid edges show ?thesis by simp
qed

section \<open>Execution of a plan\<close>

lemma acyclic_by_image:
  assumes "acyclic R" "\<And>a b. (a, b) \<in> E \<Longrightarrow> (f a, f b) \<in> R"
  shows "acyclic E"
proof (rule acyclicI, rule allI)
  fix a
  have "(f a, f b) \<in> R\<^sup>+" if "(a, b) \<in> E\<^sup>+" for b
    using that by (induction rule: trancl_induct) (auto dest: assms(2) intro: trancl_into_trancl)
  then show "(a, a) \<notin> E\<^sup>+" using assms(1) by (auto simp: acyclic_def)
qed

lemma task_start_exists:
  assumes "dense_tasks tasks"
  shows "\<exists>w. task_init tasks None None w"
proof -
  obtain st where st: "build_dependency_state Map.empty tasks None None = Inr st" "represents (length tasks) (task_edges tasks None None) st"
    "active_tasks st = fold (\<lambda>task bits. if 0 \<le> task_id task \<and> task_id task < int (length tasks)
        then bits[nat (task_id task) := task_is_active (length tasks) None (task_id task)] else bits) tasks (replicate (length tasks) False)"
    using build_dependency_state_represents [of None tasks Map.empty None] by auto
  have active: "active_tasks st = map (\<lambda>k. task_is_active (length tasks) None (int k)) [0..<length tasks]"
    unfolding st(3) by (rule active_bits [OF assms])
  let ?is = "map int [0..<length tasks]"
  have ready: "\<exists>r. ready_for_initial_submit st i = Inr r" if "i \<in> set ?is" for i
    using that st(2) by (auto simp: ready_for_initial_submit_def active vec_at_map_upt vec_at_def represents_def)
  have "returns (res_fold (append_initial_task_identity st) ?is []) (\<lambda>_. True)"
  proof (rule returns_fold [where P = "\<lambda>_ _. True"])
    fix xs i ys s assume "?is = xs @ i # ys"
    then have "i \<in> set ?is" by (metis in_set_conv_decomp)
    then obtain r where "ready_for_initial_submit st i = Inr r" using ready by blast
    then show "returns (append_initial_task_identity st i s) (\<lambda>_. True)" by (simp add: append_initial_task_identity_def)
  qed simp
  then obtain initial where "res_fold (append_initial_task_identity st) ?is [] = Inr initial" by (auto simp: returns_def)
  moreover have "{i. vec_at (active_tasks st) i = Inr True} \<subseteq> set ?is" by (auto simp: active vec_at_map_upt image_int_atLeastLessThan split: if_splits)
  ultimately have "task_start st \<lparr>dep_state = st, submitted = initial, completed = {}, owed = {#}\<rparr>" unfolding task_start_def by blast
  with st(1) assms show ?thesis unfolding task_init_def by blast
qed

lemma waits_for_shape:
  assumes "same_shape t t'" "same_shape u u'" "list_all2 same_shape ts ts'"
  shows "waits_for ops ts g d t u \<longleftrightarrow> waits_for ops ts' g d t' u'"
proof -
  have eq: "task_domain t = task_domain t'" "output_roi t = output_roi t'" "task_kind t = task_kind t'" "task_node_id t = task_node_id t'"
    "task_node_id u = task_node_id u'" "output_roi u = output_roi u'" using assms(1,2) by (simp_all add: same_shape_def)
  let ?f = "\<lambda>t :: PlannedTask. (task_kind t, task_tile_size t)"
  have "?f ` set (tasks_of i ts) = ?f ` set (tasks_of i ts')" for i
    using tasks_of_shape [OF assms(3), of i] by (induction rule: list_all2_induct) (auto simp: same_shape_def)
  moreover have "(\<forall>u\<in>set xs. \<forall>v\<in>set xs. task_kind u = TileTask \<and> task_tile_size u = task_tile_size v)
      \<longleftrightarrow> (\<forall>a\<in>?f ` set xs. \<forall>b\<in>?f ` set xs. fst a = TileTask \<and> snd a = snd b)" for xs :: "PlannedTask list"
    by simp
  ultimately have uniform: "(\<forall>u\<in>set (tasks_of i ts). \<forall>v\<in>set (tasks_of i ts). task_kind u = TileTask \<and> task_tile_size u = task_tile_size v)
      \<longleftrightarrow> (\<forall>u\<in>set (tasks_of i ts'). \<forall>v\<in>set (tasks_of i ts'). task_kind u = TileTask \<and> task_tile_size u = task_tile_size v)" for i
    by (simp only:)
  have "required_roi ops g d t = required_roi ops g d t'" unfolding required_roi_def required_upstream_roi_for_task_def eq ..
  moreover have "skips_task d t = skips_task d t'" unfolding skips_task_def eq ..
  moreover have "requires_conservative_parameterized_image_dependency ops d t g = requires_conservative_parameterized_image_dependency ops d t' g"
    unfolding requires_conservative_parameterized_image_dependency_def eq ..
  ultimately show ?thesis by (simp only: waits_for_def by_tiles_def uniform eq)
qed

lemma shape_with_dependencies:
  "same_shape (t\<lparr>dependency_task_ids := ds\<rparr>) t" "list_all2 same_shape (map (\<lambda>t. t\<lparr>dependency_task_ids := ids (task_id t)\<rparr>) ts) ts"
  by (simp_all add: same_shape_def list_all2_conv_all_nth)

text \<open>The edges between tasks that carry exact lists.\<close>

lemma assigned_edges:
  assumes "grid_tasks ts" "\<forall>t\<in>set ts. set (ids (task_id t)) = awaited ops ts g deps t"
  defines "tasks \<equiv> map (\<lambda>t. t\<lparr>dependency_task_ids := ids (task_id t)\<rparr>) ts"
  shows "dense_tasks tasks" "active_set tasks None = set (map task_id tasks)"
    "set (task_edges tasks None None) = {(task_id u, task_id t) | t u. t \<in> set ts \<and> u \<in> set ts \<and> (\<exists>d\<in>set deps. waits_for ops ts g d t u)}"
proof -
  have "map task_id ts = map int [0..<length ts]" using grid_tasks_unfold(1) [OF assms(1)] by (intro nth_equalityI) simp_all
  from arg_cong [OF this, of set] have ids: "task_id ` set ts = {0..<int (length ts)}" by (simp add: image_int_atLeastLessThan atLeast0LessThan [symmetric])
  then show dense: "dense_tasks tasks" by (simp add: dense_tasks_def tasks_def image_image)
  then show "active_set tasks None = set (map task_id tasks)" by (auto simp: active_set_def task_is_active_def dense_tasks_def)
  have act: "task_is_active (length tasks) None i \<longleftrightarrow> i \<in> task_id ` set ts" for i by (simp add: task_is_active_def ids tasks_def)
  show "set (task_edges tasks None None) = {(task_id u, task_id t) | t u. t \<in> set ts \<and> u \<in> set ts \<and> (\<exists>d\<in>set deps. waits_for ops ts g d t u)}"
    unfolding task_edges_def act using assms(2) by (auto simp: tasks_def task_deps_def awaited_def)
qed

lemma submitted_after:
  assumes "task_inv n E A w" "t \<in> set (submitted w)" "(d, t) \<in> set E"
  shows "d \<in> completed w"
proof -
  have "open_edges E (completed w) t = 0" using assms(1,2) unfolding task_inv_def by blast
  with assms(3) show ?thesis by (force simp: open_edges_def filter_empty_conv)
qed

lemma assigned_acyclic:
  assumes "graph_wf g" "grid_tasks ts" "dep_edges deps \<subseteq> edge_rel g"
    "set E = {(task_id u, task_id t) | t u. t \<in> set ts \<and> u \<in> set ts \<and> (\<exists>d\<in>set deps. waits_for ops ts g d t u)}"
  shows "acyclic (set E)"
proof (rule acyclic_by_image [OF acyclic_edge_rel [OF assms(1)], where f = "\<lambda>i. task_node_id (ts ! nat i)"])
  fix a b assume "(a, b) \<in> set E"
  then obtain t u d where "a = task_id u" "b = task_id t" "t \<in> set ts" "u \<in> set ts" "d \<in> set deps" "waits_for ops ts g d t u"
    unfolding assms(4) by blast
  moreover from this have "(dep_from d, dep_to d) \<in> edge_rel g" using assms(3) by (auto simp: dep_edges_def)
  ultimately show "(task_node_id (ts ! nat a), task_node_id (ts ! nat b)) \<in> edge_rel g"
    using numbered_task(3) [OF assms(2)] by (simp add: waits_for_def)
qed

text \<open>Tasks with exact lists run to the end, in an order that respects what they wait for.\<close>

lemma assigned_execution:
  assumes "graph_wf g" "grid_tasks ts" "dep_edges deps \<subseteq> edge_rel g" "\<forall>t\<in>set ts. set (ids (task_id t)) = awaited ops ts g deps t"
    "tasks = map (\<lambda>t. t\<lparr>dependency_task_ids := ids (task_id t)\<rparr>) ts" "reachable (task_init tasks None None) task_step w"
  defines "E \<equiv> task_edges tasks None None" and "A \<equiv> set (map task_id tasks)"
  shows "(\<exists>w'. task_step w w') \<or> completed w = A" "task_step w w' \<Longrightarrow> task_work E A w' < task_work E A w"
    "t \<in> set tasks \<Longrightarrow> u \<in> set tasks \<Longrightarrow> d \<in> set deps \<Longrightarrow> waits_for ops tasks g d t u \<Longrightarrow> task_id t \<in> set (submitted w) \<Longrightarrow> task_id u \<in> completed w"
proof -
  have edges: "active_set tasks None = A" "set E = {(task_id u, task_id t) | t u. t \<in> set ts \<and> u \<in> set ts \<and> (\<exists>d\<in>set deps. waits_for ops ts g d t u)}"
    unfolding E_def A_def assms(5) by (rule assigned_edges [OF assms(2,4)])+
  have inv: "task_inv (length tasks) E A w" using task_sys.reachable_inv [OF assms(6)] unfolding task_sys_inv_def edges(1) E_def .
  have range: "\<forall>i\<in>A. 0 \<le> i \<and> i < int (length tasks)" using active_set_range [of tasks None] unfolding edges(1) .
  have sub: "set E \<subseteq> A \<times> A" using task_edges_active [of tasks None None] unfolding edges(1) E_def .
  show "(\<exists>w'. task_step w w') \<or> completed w = A" by (rule task_progress [OF inv range assigned_acyclic [OF assms(1-3) edges(2)] sub])
  show "task_step w w' \<Longrightarrow> task_work E A w' < task_work E A w" by (rule task_step_work [OF inv range])
  assume h: "t \<in> set tasks" "u \<in> set tasks" "d \<in> set deps" "waits_for ops tasks g d t u" "task_id t \<in> set (submitted w)"
  obtain t' u' where t': "t' \<in> set ts" "t = t'\<lparr>dependency_task_ids := ids (task_id t')\<rparr>" "u' \<in> set ts" "u = u'\<lparr>dependency_task_ids := ids (task_id u')\<rparr>"
    using h(1,2) unfolding assms(5) by auto
  then have "waits_for ops ts g d t' u'"
    using h(4) waits_for_shape [OF shape_with_dependencies(1,1) shape_with_dependencies(2)] unfolding assms(5) by blast
  then have "(task_id u, task_id t) \<in> set E" unfolding edges(2) using t' h(3) by auto
  then show "task_id u \<in> completed w" by (rule submitted_after [OF inv h(5)])
qed

text \<open>
  C7. A planned request runs to the end. On a well-formed graph with propagators that return, expanding the graph and pruning the expansion
  to the nodes of a request never throws; the node dependencies of the plan are exactly the graph edges between those nodes; and the
  dependency state built from the plan's tasks can be started, every state its execution reaches has finished all tasks or can take a
  step, every step reduces the work left, and no task is ever submitted before all the tasks it has to wait for (for a tile, those
  that meet the region it reads) have finished.
\<close>

theorem plan_runs_to_completion:
  assumes "graph_wf g" "int_sized g" "propagators_return ops" "distinct order" "\<forall>i\<in>set order. has_node i g"
  shows "\<exists>full p. expand ops g intent = Inr full \<and> prune_node_cache ops full request order g = Inr p
    \<and> dep_edges (graph_dependencies (task_graph p)) = {(d, i) \<in> edge_rel g. d \<in> set order \<and> i \<in> set order}
    \<and> (\<exists>w. task_init (graph_tasks (task_graph p)) None None w)
    \<and> (\<forall>w. reachable (task_init (graph_tasks (task_graph p)) None None) task_step w \<longrightarrow>
         ((\<exists>w'. task_step w w') \<or> completed w = set (map task_id (graph_tasks (task_graph p))))
       \<and> (\<forall>w'. task_step w w' \<longrightarrow>
            task_work (task_edges (graph_tasks (task_graph p)) None None) (set (map task_id (graph_tasks (task_graph p)))) w'
              < task_work (task_edges (graph_tasks (task_graph p)) None None) (set (map task_id (graph_tasks (task_graph p)))) w)
       \<and> (\<forall>t u d. t \<in> set (graph_tasks (task_graph p)) \<and> u \<in> set (graph_tasks (task_graph p)) \<and> d \<in> set (graph_dependencies (task_graph p))
            \<and> waits_for ops (graph_tasks (task_graph p)) g d t u \<and> task_id t \<in> set (submitted w) \<longrightarrow> task_id u \<in> completed w))"
proof -
  obtain full where full: "expand ops g intent = Inr full" "expansion_of g full" using expand_returns [OF assms(1-3)] .
  let ?ts = "pruned_list full order"
  obtain p ids where p: "prune_node_cache ops full request order g = Inr p"
    "graph_tasks (task_graph p) = map (\<lambda>t. t\<lparr>dependency_task_ids := ids (task_id t)\<rparr>) ?ts" "grid_tasks ?ts"
    "\<forall>t\<in>set ?ts. distinct (ids (task_id t)) \<and> set (ids (task_id t)) = awaited ops ?ts g (graph_dependencies (task_graph p)) t"
    "dep_edges (graph_dependencies (task_graph p)) = {(d, i) \<in> edge_rel g. d \<in> set order \<and> i \<in> set order}"
    by (rule prune_returns [OF assms(1,3) full(2) assms(4,5), of request]) blast
  have exact: "\<forall>t\<in>set ?ts. set (ids (task_id t)) = awaited ops ?ts g (graph_dependencies (task_graph p)) t" using p(4) by blast
  have sub: "dep_edges (graph_dependencies (task_graph p)) \<subseteq> edge_rel g" using p(5) by auto
  have "dense_tasks (graph_tasks (task_graph p))" unfolding p(2) by (rule assigned_edges(1) [OF p(3) exact])
  with full(1) p(1,5) task_start_exists assigned_execution [OF assms(1) p(3) sub exact p(2)] show ?thesis
    by (intro exI [of _ full] exI [of _ p] conjI allI impI) blast+
qed

section \<open>Two selections of dirty tasks\<close>

lemma intersects_shape: "same_shape t u \<Longrightarrow> intersects_dirty_roi t snapshot = intersects_dirty_roi u snapshot"
  by (cases snapshot) (simp_all add: intersects_dirty_roi_def same_shape_def)

abbreviation selects :: "DirtyRegionSnapshot \<Rightarrow> int set option \<Rightarrow> PlannedTask \<Rightarrow> bool" where
  "selects snapshot satisfied t \<equiv> intersects_dirty_roi t (Some snapshot) \<and> (case satisfied of None \<Rightarrow> True | Some s \<Rightarrow> task_node_id t \<notin> s)"

definition picked :: "DirtyTaskSelectionOverlay \<Rightarrow> u64 \<times> int list list \<times> int list \<times> int list \<times> int list" where
  "picked sel = (sel_generation sel, sel_dependency_task_ids sel, active_task_ids sel, dirty_source_task_ids sel, downstream_task_ids sel)"

lemma select_tasks:
  assumes "\<forall>t\<in>set ts. 0 \<le> task_id t \<and> task_id t < int (length (active_task_flags sel))"
  shows "picked (fold (select_task snapshot satisfied) ts sel) =
    (sel_generation sel, sel_dependency_task_ids sel, active_task_ids sel @ map task_id (filter (selects snapshot satisfied) ts),
     dirty_source_task_ids sel @ map task_id (filter (\<lambda>t. task_node_id t \<in> set (dirty_source_nodes snapshot) \<and> selects snapshot satisfied t) ts),
     downstream_task_ids sel @ map task_id (filter (\<lambda>t. task_node_id t \<notin> set (dirty_source_nodes snapshot) \<and> selects snapshot satisfied t) ts))"
  using assms
proof (induction ts arbitrary: sel)
  case (Cons t ts)
  let ?sel = "select_task snapshot satisfied t sel"
  have "picked ?sel = (sel_generation sel, sel_dependency_task_ids sel, active_task_ids sel @ (if selects snapshot satisfied t then [task_id t] else []),
       dirty_source_task_ids sel @ (if task_node_id t \<in> set (dirty_source_nodes snapshot) \<and> selects snapshot satisfied t then [task_id t] else []),
       downstream_task_ids sel @ (if task_node_id t \<notin> set (dirty_source_nodes snapshot) \<and> selects snapshot satisfied t then [task_id t] else []))"
    "length (active_task_flags ?sel) = length (active_task_flags sel)"
    using Cons.prems intersects_shape [OF shape_with_dependencies(1)]
    by (auto simp: picked_def select_task_def Let_def apply_task_dirty_metadata_def split: option.splits)
  with Cons.IH [of ?sel] Cons.prems show ?case by (simp add: picked_def)
qed (simp add: picked_def)

lemma select_dirty_returns:
  assumes "grid_tasks (graph_tasks (task_graph p))"
    "build_task_dependency_ids ops (graph_tasks (task_graph p)) (merged_overlay_dependencies p snapshot (domain_for_intent (plan_intent p))) g = Inr ids"
  shows "\<exists>sel. select_dirty ops p snapshot g satisfied = Inr sel \<and> sel_dependencies sel = merged_overlay_dependencies p snapshot (domain_for_intent (plan_intent p))
    \<and> picked sel = (graph_generation snapshot, ids, map task_id (filter (selects snapshot satisfied) (graph_tasks (task_graph p))),
       map task_id (filter (\<lambda>t. task_node_id t \<in> set (dirty_source_nodes snapshot) \<and> selects snapshot satisfied t) (graph_tasks (task_graph p))),
       map task_id (filter (\<lambda>t. task_node_id t \<notin> set (dirty_source_nodes snapshot) \<and> selects snapshot satisfied t) (graph_tasks (task_graph p))))"
proof -
  let ?tasks = "graph_tasks (task_graph p)"
  have keep: "sel_dependencies (fold (select_task snapshot satisfied) ts sel) = sel_dependencies sel" for ts sel
    by (induction ts arbitrary: sel) (auto simp: select_task_def Let_def)
  let ?d = "domain_for_intent (plan_intent p)"
  let ?sel0 = "\<lparr>sel_generation = graph_generation snapshot, sel_domain = ?d, active_task_ids = [], dirty_source_task_ids = [], downstream_task_ids = [],
      initial_downstream_task_ids = [], active_task_flags = replicate (length ?tasks) False, source_boundary_task_flags = replicate (length ?tasks) False,
      sel_dependency_task_ids = ids, node_selections = populate_overlay_node_regions (set (map work_node_id (planned_work p))) snapshot ?d,
      sel_dependencies = merged_overlay_dependencies p snapshot ?d\<rparr>"
  let ?sel = "fold (select_task snapshot satisfied) ?tasks ?sel0"
  have "select_dirty ops p snapshot g satisfied = Inr (?sel\<lparr>initial_downstream_task_ids := initial_ready_task_ids_for_view (downstream_task_ids ?sel) ids\<rparr>)"
    unfolding select_dirty_def Let_def assms(2) res_bind_simps ..
  moreover have "sel_dependencies ?sel = merged_overlay_dependencies p snapshot ?d" by (simp add: keep)
  moreover have "picked ?sel = (graph_generation snapshot, ids, map task_id (filter (selects snapshot satisfied) ?tasks),
       map task_id (filter (\<lambda>t. task_node_id t \<in> set (dirty_source_nodes snapshot) \<and> selects snapshot satisfied t) ?tasks),
       map task_id (filter (\<lambda>t. task_node_id t \<notin> set (dirty_source_nodes snapshot) \<and> selects snapshot satisfied t) ?tasks))"
    by (subst select_tasks) (use numbered_task [OF assms(1)] in simp_all)
  moreover have "picked (sel\<lparr>initial_downstream_task_ids := xs\<rparr>) = picked sel" "sel_dependencies (sel\<lparr>initial_downstream_task_ids := xs\<rparr>) = sel_dependencies sel"
    for sel :: DirtyTaskSelectionOverlay and xs by (simp_all add: picked_def)
  ultimately show ?thesis
    by (intro exI [of _ "?sel\<lparr>initial_downstream_task_ids := initial_ready_task_ids_for_view (downstream_task_ids ?sel) ids\<rparr>"]) (simp only: simp_thms)
qed

text \<open>The plan to which a dirty snapshot was applied: its tasks with their marks, before their dependencies.\<close>

lemma awaited_shape:
  assumes "list_all2 same_shape ts' ts" "map task_id ts' = map task_id ts" "same_shape t' t"
  shows "awaited ops ts' g deps t' = awaited ops ts g deps t"
proof -
  have sub: "awaited ops xs g deps x \<subseteq> awaited ops ys g deps y"
    if h: "list_all2 same_shape xs ys" "map task_id xs = map task_id ys" "same_shape x y" for xs ys x y
  proof
    fix i assume "i \<in> awaited ops xs g deps x"
    then obtain k d where k: "k < length xs" "i = task_id (xs ! k)" "d \<in> set deps" "waits_for ops xs g d x (xs ! k)"
      by (auto simp: awaited_def in_set_conv_nth)
    have len: "length xs = length ys" using h(1) by (rule list_all2_lengthD)
    have same: "same_shape (xs ! k) (ys ! k)" and num: "task_id (ys ! k) = task_id (xs ! k)" using h k(1) len
      by (simp_all add: list_all2_conv_all_nth) (metis nth_map)
    have "waits_for ops ys g d y (ys ! k)" using k(4) waits_for_shape [OF h(3) same h(1)] by blast
    then show "i \<in> awaited ops ys g deps y" using k(1-3) len num unfolding awaited_def by (auto intro!: exI [of _ "ys ! k"])
  qed
  have sym: "same_shape a b \<Longrightarrow> same_shape b a" for a b by (simp add: same_shape_def)
  then have "list_all2 same_shape ts ts'" using assms(1) by (simp add: list_all2_conv_all_nth)
  then show ?thesis using sub assms sym by (intro equalityI) auto
qed

lemma prune_dirty_returns:
  assumes "grid_tasks (graph_tasks (task_graph p))" "graph_wf g" "propagators_return ops" "select_dirty ops p snapshot g None = Inr sel"
    "\<forall>d\<in>set (sel_dependencies sel). edge_rect (dep_from_roi d)"
  defines "marked \<equiv> map (\<lambda>t. apply_task_dirty_metadata (Some snapshot) (t\<lparr>source_boundary_eligible := False, dirty_selected := True, dirty_generation := 0\<rparr>))
      (graph_tasks (task_graph p))"
  obtains p' ids where "prune_dirty_snapshot ops p snapshot g = Inr p'"
    "graph_tasks (task_graph p') = map (\<lambda>t. t\<lparr>dependency_task_ids := ids (task_id t)\<rparr>) marked"
    "\<forall>t\<in>set marked. set (ids (task_id t)) = awaited ops marked g (sel_dependencies sel) t"
proof -
  let ?p1 = "clear_dirty_work_metadata p"
  let ?p2 = "?p1\<lparr>planned_work := fold (\<lambda>(i, s). update_work i (\<lambda>w. w\<lparr>represented_hp_roi := ns_represented_hp_roi s, execution_roi := ns_execution_roi s,
        work_whole_output := ns_whole_output s, work_dirty_rois := ns_dirty_rois s\<rparr>)) (node_selections sel) (planned_work ?p1),
      task_graph := (task_graph ?p1)\<lparr>graph_dependencies := sel_dependencies sel,
        graph_tasks := map (apply_task_dirty_metadata (Some snapshot)) (graph_tasks (task_graph ?p1))\<rparr>\<rparr>"
  let ?p3 = "populate_node_dependency_lists (rebuild_work_task_ids ?p2)"
  have p3: "graph_tasks (task_graph ?p3) = marked" "graph_dependencies (task_graph ?p3) = sel_dependencies sel"
    by (simp_all add: node_dependency_lists_fields rebuild_work_task_ids_def clear_dirty_work_metadata_def marked_def)
  have "list_all2 same_shape marked (graph_tasks (task_graph p))" "map task_id marked = map task_id (graph_tasks (task_graph p))"
    by (simp_all add: marked_def list_all2_conv_all_nth same_shape_def apply_task_dirty_metadata_def)
  then have grid: "grid_tasks marked" using assms(1) tile_shape_cong [of marked "graph_tasks (task_graph p)"] nth_map [of _ marked task_id] nth_map [of _ "graph_tasks (task_graph p)" task_id]
    by (simp add: grid_tasks_def marked_def)
  have "prune_dirty_snapshot ops p snapshot g = populate_task_dependencies ops g ?p3"
    using assms(4) by (simp add: prune_dirty_snapshot_def Let_def)
  moreover obtain p' ids where "populate_task_dependencies ops g ?p3 = Inr p'"
    "graph_tasks (task_graph p') = map (\<lambda>t. t\<lparr>dependency_task_ids := ids (task_id t)\<rparr>) marked"
    "\<forall>t\<in>set marked. set (ids (task_id t)) = awaited ops marked g (sel_dependencies sel) t"
    using populate_task_dependencies_returns [of ?p3 g ops, unfolded p3, OF grid assms(2,3,5)] by blast
  ultimately show ?thesis by (intro that [of p' ids]) (simp_all only:)
qed

text \<open>
  C19. The two selections of dirty work agree. For a plan whose tasks lie on their grids, selecting the dirty tasks beside an unchanged plan and
  applying the snapshot to the plan both return; they yield the same work set (the same source and downstream tasks, in the same order,
  under the same generation), which holds exactly the tasks whose region meets the dirty region of their node; and every task has
  the same dependencies in both, so the plan and its overlay can stand for each other.
\<close>

theorem dirty_selections_agree:
  assumes "grid_tasks (graph_tasks (task_graph p))" "graph_wf g" "propagators_return ops"
    "\<forall>d\<in>set (merged_overlay_dependencies p snapshot (domain_for_intent (plan_intent p))). edge_rect (dep_from_roi d)"
  shows "\<exists>sel p'. select_dirty ops p snapshot g None = Inr sel \<and> prune_dirty_snapshot ops p snapshot g = Inr p'
    \<and> materialize_selection sel = materialize p' snapshot
    \<and> active_task_ids sel = map task_id (filter (\<lambda>t. intersects_dirty_roi t (Some snapshot)) (graph_tasks (task_graph p)))
    \<and> map (\<lambda>t. set (dependency_task_ids t)) (graph_tasks (task_graph p')) = map set (sel_dependency_task_ids sel)"
proof -
  let ?tasks = "graph_tasks (task_graph p)" and ?deps = "merged_overlay_dependencies p snapshot (domain_for_intent (plan_intent p))"
  obtain ids where ids: "build_task_dependency_ids ops ?tasks ?deps g = Inr ids" "length ids = length ?tasks"
    "\<forall>k<length ?tasks. distinct (ids ! k) \<and> set (ids ! k) = awaited ops ?tasks g ?deps (?tasks ! k)"
    using task_dependency_lists [OF assms] by blast
  obtain sel where sel: "select_dirty ops p snapshot g None = Inr sel" "sel_dependencies sel = ?deps"
    "picked sel = (graph_generation snapshot, ids, map task_id (filter (selects snapshot None) ?tasks),
       map task_id (filter (\<lambda>t. task_node_id t \<in> set (dirty_source_nodes snapshot) \<and> selects snapshot None t) ?tasks),
       map task_id (filter (\<lambda>t. task_node_id t \<notin> set (dirty_source_nodes snapshot) \<and> selects snapshot None t) ?tasks))"
    using select_dirty_returns [OF assms(1) ids(1)] by blast
  let ?mark = "\<lambda>t. apply_task_dirty_metadata (Some snapshot) (t\<lparr>source_boundary_eligible := False, dirty_selected := True, dirty_generation := 0\<rparr>)"
  obtain p' ids' where p': "prune_dirty_snapshot ops p snapshot g = Inr p'"
    "graph_tasks (task_graph p') = map (\<lambda>t. t\<lparr>dependency_task_ids := ids' (task_id t)\<rparr>) (map ?mark ?tasks)"
    "\<forall>t\<in>set (map ?mark ?tasks). set (ids' (task_id t)) = awaited ops (map ?mark ?tasks) g ?deps t"
    using prune_dirty_returns [OF assms(1-3) sel(1)] assms(4) unfolding sel(2) by blast
  have mark: "same_shape (?mark t) t" "task_id (?mark t) = task_id t" "dirty_selected (?mark t) = intersects_dirty_roi t (Some snapshot)" for t
    by (simp_all add: apply_task_dirty_metadata_def same_shape_def intersects_dirty_roi_def)
  have shape: "list_all2 same_shape (map ?mark ?tasks) ?tasks" "map task_id (map ?mark ?tasks) = map task_id ?tasks"
    using mark by (simp_all add: list_all2_conv_all_nth)
  have "set (ids' (task_id t)) = awaited ops ?tasks g ?deps t" if "t \<in> set ?tasks" for t
    using p'(3) that awaited_shape [OF shape mark(1)] by (simp add: mark(2))
  then have "map (\<lambda>t. set (dependency_task_ids t)) (graph_tasks (task_graph p')) = map set ids"
    using ids(2,3) by (intro nth_equalityI) (simp_all add: p'(2) mark(2))
  moreover have "materialize_selection sel = materialize p' snapshot"
    using sel(3) mark same_shape_facts(5) [OF mark(1)]
    by (simp add: materialize_selection_def materialize_def picked_def p'(2) filter_map comp_def)
  ultimately show ?thesis using sel p'(1) by (auto simp: picked_def)
qed

section \<open>Concrete plans\<close>

theorem plan_runs_to_completion_witness:
  "graph_wf demo_frames \<and> (\<exists>full p w. expand demo_plan_operators demo_frames GlobalHighPrecision = Inr full
     \<and> prune_node_cache demo_plan_operators full \<lparr>req_intent = GlobalHighPrecision, req_target = 2, req_parallel = True\<rparr> [1, 2] demo_frames = Inr p
     \<and> dep_edges (graph_dependencies (task_graph p)) = {(1, 2)}
     \<and> task_init (graph_tasks (task_graph p)) None None w
     \<and> ((\<exists>w'. task_step w w') \<or> completed w = set (map task_id (graph_tasks (task_graph p)))))"
proof -
  let ?r = "\<lparr>req_intent = GlobalHighPrecision, req_target = 2, req_parallel = True\<rparr>"
  have "distinct [1, 2 :: int]" "\<forall>i\<in>set [1, 2]. has_node i demo_frames" using demo_frames_wf by auto
  from plan_runs_to_completion [OF demo_frames_wf(1,2) demo_propagators_return this, of GlobalHighPrecision ?r]
  obtain full p w where plan: "expand demo_plan_operators demo_frames GlobalHighPrecision = Inr full"
    "prune_node_cache demo_plan_operators full ?r [1, 2] demo_frames = Inr p"
    "dep_edges (graph_dependencies (task_graph p)) = {(d, i) \<in> edge_rel demo_frames. d \<in> set [1, 2] \<and> i \<in> set [1, 2]}"
    and w: "task_init (graph_tasks (task_graph p)) None None w"
    and run: "\<And>w. reachable (task_init (graph_tasks (task_graph p)) None None) task_step w
      \<Longrightarrow> (\<exists>w'. task_step w w') \<or> completed w = set (map task_id (graph_tasks (task_graph p)))"
    by blast
  have edges: "{(d, i) \<in> edge_rel demo_frames. d \<in> set [1, 2] \<and> i \<in> set [1, 2]} = {(1, 2)}"
  proof -
    have "map from_node_id (upstream_edges demo_frames 1) = []" "map from_node_id (upstream_edges demo_frames 2) = [1]" by code_simp+
    then show ?thesis using edge_rel_upstream [OF demo_frames_wf(1)] by (auto simp del: set_map)
  qed
  have "(\<exists>w'. task_step w w') \<or> completed w = set (map task_id (graph_tasks (task_graph p)))"
    by (rule run) (rule reachable_init, rule w)
  with w demo_frames_wf(1) plan [unfolded edges] show ?thesis
    by (intro conjI exI [of _ full] exI [of _ p] exI [of _ w])
qed

definition demo_dirty :: DirtyRegionSnapshot where
  "demo_dirty = empty_snapshot\<lparr>graph_generation := 5, dirty_source_nodes := [1],
     per_node_dirty_rois := [(1, [\<lparr>rect_x = 17, rect_y = 2, rect_width = 2, rect_height = 2\<rparr>]), (2, [\<lparr>rect_x = 15, rect_y = 0, rect_width = 5, rect_height = 6\<rparr>])]\<rparr>"

definition demo_tile_plan :: ComputePlan where
  "demo_tile_plan = demo_frame_plan\<lparr>task_graph := \<lparr>graph_tasks = demo_tiles, graph_dependencies = demo_dependencies, initial_task_ids = []\<rparr>\<rparr>"

theorem dirty_selections_agree_witness:
  "\<exists>sel p'. select_dirty demo_plan_operators demo_tile_plan demo_dirty demo_frames None = Inr sel
     \<and> prune_dirty_snapshot demo_plan_operators demo_tile_plan demo_dirty demo_frames = Inr p'
     \<and> materialize_selection sel = materialize p' demo_dirty \<and> active_task_ids sel = [1, 2, 3]"
proof -
  have "merged_overlay_dependencies demo_tile_plan demo_dirty (domain_for_intent (plan_intent demo_tile_plan)) = demo_dependencies"
    by (simp add: merged_overlay_dependencies_def demo_tile_plan_def demo_dirty_def empty_snapshot_def)
  moreover have "\<forall>d\<in>set demo_dependencies. edge_rect (dep_from_roi d)"
    using graph_dependencies_edges(2) [OF demo_frames_wf(1)] blank_edge_rects unfolding demo_dependencies_def by blast
  moreover have "map task_id (filter (\<lambda>t. intersects_dirty_roi t (Some demo_dirty)) demo_tiles) = [1, 2, 3]" by code_simp
  moreover have "grid_tasks (graph_tasks (task_graph demo_tile_plan))" using demo_tiles_grid by (simp add: demo_tile_plan_def)
  moreover have "graph_tasks (task_graph demo_tile_plan) = demo_tiles" by (simp add: demo_tile_plan_def)
  ultimately show ?thesis
    using dirty_selections_agree [OF _ demo_frames_wf(1) demo_propagators_return, of demo_tile_plan demo_dirty] by auto
qed

end
