(* ===== verification/StateExecutor.thy ===== *)
theory StateExecutor
  imports PS_Prelude
begin

text \<open>
  \<open>GraphStateExecutor\<close> (\<open>src/lib/graph/graph_state_executor.cpp\<close>): the bounded serial lane that runs
  one-shot tasks and the turns of reserved continuation tickets on a single worker, and its
  close protocol. Each operation is one critical section under the lane's mutex; a
  \<open>wait\<close> on a condition variable is an operation guarded by the wait's condition. A one-shot
  node is a number (its address), a ticket its identity; a ticket's state object stays in
  \<open>ticket_states\<close> after retirement, as the handles keep it alive. \<open>worker_at\<close> is where the worker
  thread stands, \<open>joiner\<close> the close caller that has moved the thread object out to join it, and
  \<open>ran\<close> the one-shot tasks the worker has taken, in order.
\<close>

section \<open>State\<close>

datatype CapacityMode = WaitingOnly | TotalAdmission

datatype ContinuationAction = Retire | Park | Queue

datatype LaneState = Accepting | Draining | WorkerStopped | Closed

datatype ContinuationPhase = Parked | Queued | Running | Retired

datatype QueueNode = OneShot nat | Continuation u64

record ContinuationState =
  phase :: ContinuationPhase
  wake_pending :: bool
  retire_pending :: bool
  close_turn_pending :: bool

definition new_ticket :: ContinuationState where
  "new_ticket = \<lparr>phase = Parked, wake_pending = False, retire_pending = False, close_turn_pending = False\<rparr>"

datatype worker_position = Not_Started | Idle_Worker | Executing QueueNode bool | Stopped_Worker

record Lane =
  lane_mode :: CapacityMode
  queue_capacity :: nat
  one_shot_nodes :: "nat list"
  continuations :: "u64 list"
  ticket_states :: "u64 \<Rightarrow> ContinuationState"
  fifo :: "QueueNode list"
  queued_task_count :: nat
  admitted_unit_count :: nat
  next_continuation_id :: u64
  lane_state :: LaneState
  close_generation :: u64
  completed_close_generation :: u64
  active_task_count :: nat
  worker_thread_count :: nat
  join_in_progress :: bool
  worker_at :: worker_position
  joiner :: "u64 option"
  next_node :: nat
  ran :: "nat list"

definition make_lane :: "nat \<Rightarrow> CapacityMode \<Rightarrow> Lane res" where
  "make_lane capacity mode =
     (if capacity = 0 then Inl Invalid_Argument
      else Inr \<lparr>lane_mode = mode, queue_capacity = capacity, one_shot_nodes = [], continuations = [],
        ticket_states = (\<lambda>_. new_ticket), fifo = [], queued_task_count = 0, admitted_unit_count = 0,
        next_continuation_id = 1, lane_state = Accepting, close_generation = 0,
        completed_close_generation = 0, active_task_count = 0, worker_thread_count = 0,
        join_in_progress = False, worker_at = Not_Started, joiner = None, next_node = 0, ran = []\<rparr>)"

section \<open>Helpers under the lock\<close>

definition append_node :: "QueueNode \<Rightarrow> Lane \<Rightarrow> Lane" where
  "append_node node l = l\<lparr>fifo := fifo l @ [node], queued_task_count := queued_task_count l + 1\<rparr>"

definition pop_node :: "Lane \<Rightarrow> QueueNode option \<times> Lane" where
  "pop_node l =
     (case fifo l of
        [] \<Rightarrow> (None, l)
      | node # rest \<Rightarrow> (Some node, l\<lparr>fifo := rest, queued_task_count := queued_task_count l - 1\<rparr>))"

definition set_ticket :: "u64 \<Rightarrow> ContinuationState \<Rightarrow> Lane \<Rightarrow> Lane" where
  "set_ticket i t l = l\<lparr>ticket_states := (ticket_states l)(i := t)\<rparr>"

definition owed_turn :: "Lane \<Rightarrow> u64 \<Rightarrow> bool" where
  "owed_turn l i \<longleftrightarrow> phase (ticket_states l i) = Parked \<and> close_turn_pending (ticket_states l i)"

definition oldest_close_turn :: "Lane \<Rightarrow> u64 option" where
  "oldest_close_turn l =
     foldl (\<lambda>oldest i. if owed_turn l i \<and> (case oldest of None \<Rightarrow> True | Some j \<Rightarrow> i < j) then Some i else oldest)
       None (continuations l)"

definition retire_continuation_locked :: "u64 \<Rightarrow> Lane \<Rightarrow> Lane res" where
  "retire_continuation_locked i l =
     (if phase (ticket_states l i) = Retired then Inr l
      else
        let l1 = (set_ticket i \<lparr>phase = Retired, wake_pending = False, retire_pending = False,
                                close_turn_pending = False\<rparr> l)
                   \<lparr>continuations := filter (\<lambda>j. j \<noteq> i) (continuations l)\<rparr>
        in if admitted_unit_count l1 = 0 then Inl Terminate
           else Inr (l1\<lparr>admitted_unit_count := admitted_unit_count l1 - 1\<rparr>))"

definition finish_continuation_turn :: "u64 \<Rightarrow> ContinuationAction \<Rightarrow> Lane \<Rightarrow> Lane res" where
  "finish_continuation_turn i action l =
     (let t = ticket_states l i in
      if retire_pending t \<or> action = Retire then retire_continuation_locked i l
      else if wake_pending t \<or> action = Queue then
        let t1 = t\<lparr>wake_pending := False\<rparr> in
        if lane_state l = Accepting
        then Inr (append_node (Continuation i) (set_ticket i (t1\<lparr>phase := Queued\<rparr>) l))
        else Inr (set_ticket i (t1\<lparr>phase := Parked, close_turn_pending := True\<rparr>) l)
      else Inr (set_ticket i (t\<lparr>phase := Parked\<rparr>) l))"

section \<open>Admission\<close>

definition lane_has_room :: "Lane \<Rightarrow> bool" where
  "lane_has_room l \<longleftrightarrow>
     lane_state l \<noteq> Accepting
     \<or> (if lane_mode l = TotalAdmission then admitted_unit_count l < queue_capacity l
         else queued_task_count l < queue_capacity l)"

text \<open>\<open>submit\<close> and \<open>enqueue\<close>; \<open>on_worker\<close> says that the caller is the lane's own worker.\<close>

definition enqueue :: "bool \<Rightarrow> Lane \<Rightarrow> nat res \<times> Lane" where
  "enqueue on_worker l =
     (if on_worker then (Inl Logic_Error, l)
      else if lane_state l \<noteq> Accepting then (Inl Runtime_Error, l)
      else
        let n = next_node l;
            l1 = l\<lparr>one_shot_nodes := one_shot_nodes l @ [n], next_node := n + 1\<rparr>;
            l2 = (if lane_mode l1 = TotalAdmission
                  then l1\<lparr>admitted_unit_count := admitted_unit_count l1 + 1\<rparr> else l1)
        in (Inr n, append_node (OneShot n) l2))"

definition reserve_ready :: "Lane \<Rightarrow> bool" where
  "reserve_ready l \<longleftrightarrow> lane_state l \<noteq> Accepting \<or> admitted_unit_count l < queue_capacity l"

definition reserve_continuation :: "bool \<Rightarrow> bool \<Rightarrow> Lane \<Rightarrow> u64 res \<times> Lane" where
  "reserve_continuation on_worker has_callback l =
     (if on_worker then (Inl Logic_Error, l)
      else if lane_mode l \<noteq> TotalAdmission then (Inl Logic_Error, l)
      else if \<not> has_callback then (Inl Invalid_Argument, l)
      else if lane_state l \<noteq> Accepting then (Inl Runtime_Error, l)
      else if next_continuation_id l = u64_max then (Inl Overflow_Error, l)
      else
        let i = next_continuation_id l in
        (Inr i, (set_ticket i new_ticket l)
           \<lparr>next_continuation_id := i + 1, continuations := continuations l @ [i],
            admitted_unit_count := admitted_unit_count l + 1\<rparr>))"

definition admitted_units :: "Lane \<Rightarrow> nat" where
  "admitted_units l = (if lane_mode l = TotalAdmission then admitted_unit_count l else queued_task_count l)"

section \<open>Tickets\<close>

definition ticket_dead :: "u64 \<Rightarrow> Lane \<Rightarrow> bool" where
  "ticket_dead i l \<longleftrightarrow> i \<notin> set (continuations l) \<or> phase (ticket_states l i) = Retired
     \<or> retire_pending (ticket_states l i)"

definition wake_continuation :: "u64 \<Rightarrow> Lane \<Rightarrow> bool \<times> Lane" where
  "wake_continuation i l =
     (let t = ticket_states l i in
      if lane_state l \<noteq> Accepting \<or> ticket_dead i l then (False, l)
      else if phase t = Parked then (True, append_node (Continuation i) (set_ticket i (t\<lparr>phase := Queued\<rparr>) l))
      else if phase t = Running then (True, set_ticket i (t\<lparr>wake_pending := True\<rparr>) l)
      else (True, l))"

definition resume_continuation :: "u64 \<Rightarrow> Lane \<Rightarrow> bool \<times> Lane" where
  "resume_continuation i l =
     (let t = ticket_states l i in
      if ticket_dead i l then (False, l)
      else if phase t = Parked then
        (True, if lane_state l = Accepting
               then append_node (Continuation i) (set_ticket i (t\<lparr>phase := Queued\<rparr>) l)
               else set_ticket i (t\<lparr>close_turn_pending := True\<rparr>) l)
      else if phase t = Running then (True, set_ticket i (t\<lparr>wake_pending := True\<rparr>) l)
      else (True, l))"

definition retire_continuation :: "u64 \<Rightarrow> Lane \<Rightarrow> (bool \<times> Lane) res" where
  "retire_continuation i l =
     (let t = ticket_states l i in
      if ticket_dead i l then Inr (False, l)
      else if phase t = Parked then res_bind (retire_continuation_locked i l) (\<lambda>l1. Inr (True, l1))
      else Inr (True, set_ticket i (t\<lparr>retire_pending := True, wake_pending := False,
                                      close_turn_pending := False\<rparr>) l))"

section \<open>Close\<close>

definition stop_admission_for_close :: "bool \<Rightarrow> Lane \<Rightarrow> u64 res \<times> Lane" where
  "stop_admission_for_close on_worker l =
     (if on_worker then (Inl Logic_Error, l)
      else if lane_state l = Accepting then
        if close_generation l = u64_max then (Inl Overflow_Error, l)
        else
          let l1 = l\<lparr>close_generation := close_generation l + 1, lane_state := Draining,
                     ticket_states := (\<lambda>i. let t = ticket_states l i in
                       if i \<in> set (continuations l) \<and> phase t = Parked
                       then t\<lparr>close_turn_pending := True\<rparr> else t)\<rparr>
          in (Inr (close_generation l1), l1)
      else (Inr (close_generation l), l))"

datatype close_progress = Close_Done | Close_Join | Close_Wait

text \<open>One round of the loop of \<open>close_and_drain\<close> for the generation it waits for.\<close>

definition close_poll :: "u64 \<Rightarrow> Lane \<Rightarrow> close_progress \<times> Lane" where
  "close_poll target l =
     (if target \<le> completed_close_generation l then (Close_Done, l)
      else if lane_state l = WorkerStopped \<and> \<not> join_in_progress l
        then (Close_Join, l\<lparr>join_in_progress := True, joiner := Some target\<rparr>)
      else (Close_Wait, l))"

definition close_joined :: "u64 \<Rightarrow> Lane \<Rightarrow> Lane" where
  "close_joined target l =
     l\<lparr>lane_state := Closed, completed_close_generation := target, join_in_progress := False, joiner := None\<rparr>"

definition close_join_failed :: "Lane \<Rightarrow> Lane" where
  "close_join_failed l = l\<lparr>join_in_progress := False, joiner := None\<rparr>"

section \<open>The worker\<close>

definition worker_start :: "Lane \<Rightarrow> Lane" where
  "worker_start l = l\<lparr>worker_thread_count := 1, worker_at := Idle_Worker\<rparr>"

definition worker_ready :: "Lane \<Rightarrow> bool" where
  "worker_ready l \<longleftrightarrow>
     fifo l \<noteq> []
     \<or> lane_state l \<noteq> Accepting \<and> (oldest_close_turn l \<noteq> None \<or> admitted_unit_count l = 0)"

definition run_ticket :: "u64 \<Rightarrow> ContinuationState \<Rightarrow> Lane \<Rightarrow> Lane res" where
  "run_ticket i t l =
     (if i \<notin> set (continuations l) then Inl Out_Of_Range
      else Inr ((set_ticket i (t\<lparr>phase := Running\<rparr>) l)
                  \<lparr>active_task_count := 1, worker_at := Executing (Continuation i) (retire_pending t)\<rparr>))"

text \<open>
  The critical section at the head of the loop, entered when \<open>worker_ready\<close> holds. The missing
  node of the last branch is a null dereference in the code.
\<close>

definition worker_next :: "Lane \<Rightarrow> Lane res" where
  "worker_next l =
     (let (node, l1) = pop_node l;
          close_turn = (if node = None \<and> lane_state l1 \<noteq> Accepting then oldest_close_turn l1 else None)
      in if node = None \<and> close_turn = None \<and> (lane_mode l1 \<noteq> TotalAdmission \<or> admitted_unit_count l1 = 0)
         then Inr (l1\<lparr>worker_thread_count := 0, lane_state := WorkerStopped, worker_at := Stopped_Worker\<rparr>)
         else case close_turn of
           Some i \<Rightarrow> run_ticket i ((ticket_states l1 i)\<lparr>close_turn_pending := False\<rparr>) l1
         | None \<Rightarrow>
             (case node of
                Some (Continuation i) \<Rightarrow> run_ticket i (ticket_states l1 i) l1
              | Some (OneShot n) \<Rightarrow>
                  if n \<notin> set (one_shot_nodes l1) then Inl Terminate
                  else Inr (l1\<lparr>one_shot_nodes := filter (\<lambda>m. m \<noteq> n) (one_shot_nodes l1),
                               active_task_count := 1, worker_at := Executing (OneShot n) False,
                               ran := ran l1 @ [n]\<rparr>)
              | None \<Rightarrow> Inl Terminate))"

text \<open>
  The critical section after the task or the callback has returned: \<open>action\<close> is the callback's
  decision, or \<open>Retire\<close> when it threw.
\<close>

definition worker_finish :: "ContinuationAction \<Rightarrow> Lane \<Rightarrow> Lane res" where
  "worker_finish action l =
     (let l1 = l\<lparr>active_task_count := 0, worker_at := Idle_Worker\<rparr> in
      case worker_at l of
        Executing (Continuation i) skip \<Rightarrow> finish_continuation_turn i (if skip then Retire else action) l1
      | Executing (OneShot n) skip \<Rightarrow>
          if lane_mode l1 = TotalAdmission then
            if admitted_unit_count l1 = 0 then Inl Terminate
            else Inr (l1\<lparr>admitted_unit_count := admitted_unit_count l1 - 1\<rparr>)
          else Inr l1
      | _ \<Rightarrow> Inr l)"

section \<open>Steps\<close>

definition lane_init :: "Lane \<Rightarrow> bool" where
  "lane_init l \<longleftrightarrow> (\<exists>capacity mode. make_lane capacity mode = Inr l)"

inductive lane_step :: "Lane \<Rightarrow> Lane \<Rightarrow> bool" where
  submit: "lane_has_room l \<Longrightarrow> enqueue False l = (r, l') \<Longrightarrow> lane_step l l'"
| reserve: "reserve_ready l \<Longrightarrow> reserve_continuation False True l = (r, l') \<Longrightarrow> lane_step l l'"
| wake: "wake_continuation i l = (b, l') \<Longrightarrow> lane_step l l'"
| resume: "resume_continuation i l = (b, l') \<Longrightarrow> lane_step l l'"
| retire: "retire_continuation i l = Inr (b, l') \<Longrightarrow> lane_step l l'"
| stop: "stop_admission_for_close False l = (r, l') \<Longrightarrow> lane_step l l'"
| poll: "lane_state l \<noteq> Accepting \<Longrightarrow> close_poll (close_generation l) l = (p, l') \<Longrightarrow> lane_step l l'"
| joined: "joiner l = Some target \<Longrightarrow> worker_at l = Stopped_Worker \<Longrightarrow> lane_step l (close_joined target l)"
| join_failed: "joiner l = Some target \<Longrightarrow> lane_step l (close_join_failed l)"
| worker_start: "worker_at l = Not_Started \<Longrightarrow> lane_step l (worker_start l)"
| worker_turn: "worker_at l = Idle_Worker \<Longrightarrow> worker_ready l \<Longrightarrow> worker_next l = Inr l' \<Longrightarrow> lane_step l l'"
| worker_return: "worker_at l = Executing node skip \<Longrightarrow> worker_finish action l = Inr l' \<Longrightarrow> lane_step l l'"

section \<open>Invariant\<close>

fun node_tasks :: "QueueNode list \<Rightarrow> nat list" where
  "node_tasks [] = []"
| "node_tasks (OneShot n # ns) = n # node_tasks ns"
| "node_tasks (Continuation i # ns) = node_tasks ns"

fun node_tickets :: "QueueNode list \<Rightarrow> u64 list" where
  "node_tickets [] = []"
| "node_tickets (OneShot n # ns) = node_tickets ns"
| "node_tickets (Continuation i # ns) = i # node_tickets ns"

lemma node_append [simp]:
  "node_tasks (xs @ ys) = node_tasks xs @ node_tasks ys"
  "node_tickets (xs @ ys) = node_tickets xs @ node_tickets ys"
  by (induction xs rule: node_tasks.induct) auto

definition running_task :: "Lane \<Rightarrow> nat" where
  "running_task l = (case worker_at l of Executing (OneShot n) _ \<Rightarrow> 1 | _ \<Rightarrow> 0)"

definition running_ticket :: "Lane \<Rightarrow> u64 option" where
  "running_ticket l = (case worker_at l of Executing (Continuation i) _ \<Rightarrow> Some i | _ \<Rightarrow> None)"

text \<open>The queue holds the owned tasks in the order of their admission; tasks before them ran.\<close>

definition tasks_inv :: "Lane \<Rightarrow> bool" where
  "tasks_inv l \<longleftrightarrow> queued_task_count l = length (fifo l) \<and> node_tasks (fifo l) = one_shot_nodes l
     \<and> ran l @ one_shot_nodes l = [0..<next_node l]"

text \<open>The state of one live ticket, given whether it is in the queue and whether it runs.\<close>

definition ticket_ok :: "LaneState \<Rightarrow> bool \<Rightarrow> bool \<Rightarrow> ContinuationState \<Rightarrow> bool" where
  "ticket_ok st queued running t \<longleftrightarrow>
     phase t \<noteq> Retired \<and> (phase t = Queued \<longleftrightarrow> queued) \<and> (phase t = Running \<longleftrightarrow> running)
     \<and> (wake_pending t \<longrightarrow> running) \<and> (retire_pending t \<longrightarrow> queued \<or> running)
     \<and> (close_turn_pending t \<longrightarrow> phase t = Parked \<and> st \<noteq> Accepting)"

definition tickets_inv :: "Lane \<Rightarrow> bool" where
  "tickets_inv l \<longleftrightarrow>
     distinct (continuations l) \<and> distinct (node_tickets (fifo l))
     \<and> set (node_tickets (fifo l)) \<subseteq> set (continuations l)
     \<and> (\<forall>i. running_ticket l = Some i \<longrightarrow> i \<in> set (continuations l))
     \<and> (\<forall>i \<in> set (continuations l). i < next_continuation_id l
          \<and> ticket_ok (lane_state l) (i \<in> set (node_tickets (fifo l))) (running_ticket l = Some i) (ticket_states l i))"

definition admission_inv :: "Lane \<Rightarrow> bool" where
  "admission_inv l \<longleftrightarrow>
     (if lane_mode l = TotalAdmission
      then admitted_unit_count l = length (one_shot_nodes l) + running_task l + length (continuations l)
           \<and> admitted_unit_count l \<le> queue_capacity l
      else continuations l = [] \<and> admitted_unit_count l = 0 \<and> length (fifo l) \<le> queue_capacity l)"

definition worker_inv :: "Lane \<Rightarrow> bool" where
  "worker_inv l \<longleftrightarrow>
     active_task_count l = (case worker_at l of Executing _ _ \<Rightarrow> 1 | _ \<Rightarrow> 0)
     \<and> worker_thread_count l = (case worker_at l of Idle_Worker \<Rightarrow> 1 | Executing _ _ \<Rightarrow> 1 | _ \<Rightarrow> 0)
     \<and> (worker_at l = Stopped_Worker \<longleftrightarrow> lane_state l \<in> {WorkerStopped, Closed})
     \<and> (worker_at l = Stopped_Worker \<longrightarrow> fifo l = [] \<and> continuations l = [])"

definition close_inv :: "Lane \<Rightarrow> bool" where
  "close_inv l \<longleftrightarrow>
     close_generation l = (if lane_state l = Accepting then 0 else 1)
     \<and> completed_close_generation l = (if lane_state l = Closed then 1 else 0)
     \<and> (join_in_progress l \<longleftrightarrow> joiner l \<noteq> None)
     \<and> (\<forall>g. joiner l = Some g \<longrightarrow> g = 1 \<and> lane_state l = WorkerStopped)"

definition lane_inv :: "Lane \<Rightarrow> bool" where
  "lane_inv l \<longleftrightarrow> tasks_inv l \<and> tickets_inv l \<and> admission_inv l \<and> worker_inv l \<and> close_inv l"

lemmas lane_inv_defs = tasks_inv_def tickets_inv_def admission_inv_def worker_inv_def close_inv_def

lemma lane_invI:
  assumes "tasks_inv l" "tickets_inv l" "admission_inv l" "worker_inv l" "close_inv l"
  shows "lane_inv l"
  using assms by (simp add: lane_inv_def)

lemma lane_invD:
  assumes "lane_inv l"
  shows "tasks_inv l" "tickets_inv l" "admission_inv l" "worker_inv l" "close_inv l"
  using assms by (simp_all add: lane_inv_def)

lemma tickets_invD:
  assumes "tickets_inv l" "i \<in> set (continuations l)"
  shows "i < next_continuation_id l"
    "ticket_ok (lane_state l) (i \<in> set (node_tickets (fifo l))) (running_ticket l = Some i) (ticket_states l i)"
  using assms by (auto simp: tickets_inv_def)

text \<open>Writing one live ticket's state.\<close>

lemma set_ticket_fields [simp]:
  "fifo (set_ticket i t l) = fifo l" "continuations (set_ticket i t l) = continuations l"
  "ticket_states (set_ticket i t l) = (ticket_states l)(i := t)"
  "queued_task_count (set_ticket i t l) = queued_task_count l" "one_shot_nodes (set_ticket i t l) = one_shot_nodes l"
  "ran (set_ticket i t l) = ran l" "next_node (set_ticket i t l) = next_node l"
  "lane_mode (set_ticket i t l) = lane_mode l" "admitted_unit_count (set_ticket i t l) = admitted_unit_count l"
  "queue_capacity (set_ticket i t l) = queue_capacity l" "worker_at (set_ticket i t l) = worker_at l"
  "lane_state (set_ticket i t l) = lane_state l" "next_continuation_id (set_ticket i t l) = next_continuation_id l"
  "close_generation (set_ticket i t l) = close_generation l" "joiner (set_ticket i t l) = joiner l"
  "completed_close_generation (set_ticket i t l) = completed_close_generation l"
  "active_task_count (set_ticket i t l) = active_task_count l" "join_in_progress (set_ticket i t l) = join_in_progress l"
  "worker_thread_count (set_ticket i t l) = worker_thread_count l"
  by (simp_all add: set_ticket_def)

lemma running_simps [simp]:
  "running_ticket (set_ticket i t l) = running_ticket l" "running_task (set_ticket i t l) = running_task l"
  "running_ticket (append_node nd l) = running_ticket l" "running_task (append_node nd l) = running_task l"
  by (simp_all add: running_ticket_def running_task_def append_node_def)

lemma append_node_fields [simp]:
  "fifo (append_node nd l) = fifo l @ [nd]" "continuations (append_node nd l) = continuations l"
  "ticket_states (append_node nd l) = ticket_states l"
  "one_shot_nodes (append_node nd l) = one_shot_nodes l"
  "lane_mode (append_node nd l) = lane_mode l" "admitted_unit_count (append_node nd l) = admitted_unit_count l"
  "queue_capacity (append_node nd l) = queue_capacity l" "worker_at (append_node nd l) = worker_at l"
  "lane_state (append_node nd l) = lane_state l" "next_continuation_id (append_node nd l) = next_continuation_id l"
  "close_generation (append_node nd l) = close_generation l" "joiner (append_node nd l) = joiner l"
  "completed_close_generation (append_node nd l) = completed_close_generation l"
  "active_task_count (append_node nd l) = active_task_count l" "join_in_progress (append_node nd l) = join_in_progress l"
  "worker_thread_count (append_node nd l) = worker_thread_count l"
  "queued_task_count (append_node nd l) = queued_task_count l + 1"
  "ran (append_node nd l) = ran l" "next_node (append_node nd l) = next_node l"
  by (simp_all add: append_node_def)

lemma set_ticket_inv [simp]:
  "tasks_inv (set_ticket i t l) = tasks_inv l" "admission_inv (set_ticket i t l) = admission_inv l"
  "worker_inv (set_ticket i t l) = worker_inv l" "close_inv (set_ticket i t l) = close_inv l"
  by (simp_all add: lane_inv_defs)

lemma append_ticket_inv [simp]:
  "tasks_inv (append_node (Continuation i) l) = tasks_inv l" "close_inv (append_node nd l) = close_inv l"
  by (auto simp: lane_inv_defs)

lemma lane_inv_set_ticket:
  assumes "lane_inv l" and "i \<in> set (continuations l) \<Longrightarrow>
    ticket_ok (lane_state l) (i \<in> set (node_tickets (fifo l))) (running_ticket l = Some i) t"
  shows "lane_inv (set_ticket i t l)"
proof -
  have "tickets_inv (set_ticket i t l)" using lane_invD(2) [OF assms(1)] assms(2) by (auto simp: tickets_inv_def)
  then show ?thesis using assms(1) by (simp add: lane_inv_def)
qed

text \<open>Queueing a parked live ticket while the lane accepts.\<close>

lemma lane_inv_queue_ticket:
  assumes inv: "lane_inv l" and i: "i \<in> set (continuations l)" and acc: "lane_state l = Accepting"
    and idle: "i \<notin> set (node_tickets (fifo l))" "running_ticket l \<noteq> Some i"
    and t: "ticket_ok Accepting True False t"
  shows "lane_inv (append_node (Continuation i) (set_ticket i t l))"
proof (rule lane_invI)
  show "tickets_inv (append_node (Continuation i) (set_ticket i t l))"
    using lane_invD(2) [OF inv] i acc idle t by (auto simp: tickets_inv_def)
  have "lane_mode l = TotalAdmission" using lane_invD(3) [OF inv] i by (auto simp: admission_inv_def split: if_splits)
  then show "admission_inv (append_node (Continuation i) (set_ticket i t l))"
    using lane_invD(3) [OF inv] by (simp add: admission_inv_def)
  show "worker_inv (append_node (Continuation i) (set_ticket i t l))"
    using lane_invD(4) [OF inv] i acc by (auto simp: worker_inv_def)
qed (use lane_invD(1,5) [OF inv] in simp_all)

text \<open>What the phase of a live ticket says.\<close>

lemma ticket_phase_cases:
  assumes "tickets_inv l" "\<not> ticket_dead i l"
  shows "i \<in> set (continuations l)" "\<not> retire_pending (ticket_states l i)"
    "phase (ticket_states l i) = Parked \<Longrightarrow> i \<notin> set (node_tickets (fifo l)) \<and> running_ticket l \<noteq> Some i
       \<and> \<not> wake_pending (ticket_states l i)"
    "phase (ticket_states l i) = Running \<Longrightarrow> i \<notin> set (node_tickets (fifo l)) \<and> running_ticket l = Some i
       \<and> \<not> close_turn_pending (ticket_states l i)"
    "phase (ticket_states l i) = Queued \<Longrightarrow> i \<in> set (node_tickets (fifo l)) \<and> running_ticket l \<noteq> Some i
       \<and> \<not> close_turn_pending (ticket_states l i)"
proof -
  show i: "i \<in> set (continuations l)" and "\<not> retire_pending (ticket_states l i)"
    using assms(2) by (auto simp: ticket_dead_def)
  note ok = tickets_invD(2) [OF assms(1) i, unfolded ticket_ok_def]
  show "phase (ticket_states l i) = Parked \<Longrightarrow> i \<notin> set (node_tickets (fifo l)) \<and> running_ticket l \<noteq> Some i
       \<and> \<not> wake_pending (ticket_states l i)"
    "phase (ticket_states l i) = Running \<Longrightarrow> i \<notin> set (node_tickets (fifo l)) \<and> running_ticket l = Some i
       \<and> \<not> close_turn_pending (ticket_states l i)"
    "phase (ticket_states l i) = Queued \<Longrightarrow> i \<in> set (node_tickets (fifo l)) \<and> running_ticket l \<noteq> Some i
       \<and> \<not> close_turn_pending (ticket_states l i)"
    using ok by auto
qed

lemma lane_inv_wake:
  assumes inv: "lane_inv l" and w: "wake_continuation i l = (b, l')"
  shows "lane_inv l'"
proof (cases "lane_state l \<noteq> Accepting \<or> ticket_dead i l")
  case False
  then have live: "\<not> ticket_dead i l" and acc: "lane_state l = Accepting" by simp_all
  note tk = ticket_phase_cases [OF lane_invD(2) [OF inv] live]
  note ok = tickets_invD(2) [OF lane_invD(2) [OF inv] tk(1)]
  let ?t = "ticket_states l i"
  show ?thesis
  proof (cases "phase ?t")
    case Parked
    then have "lane_inv (append_node (Continuation i) (set_ticket i (?t\<lparr>phase := Queued\<rparr>) l))"
      using tk ok acc by (intro lane_inv_queue_ticket inv) (auto simp: ticket_ok_def)
    with Parked w live acc show ?thesis by (simp add: wake_continuation_def)
  next
    case Running
    then have "lane_inv (set_ticket i (?t\<lparr>wake_pending := True\<rparr>) l)"
      using ok by (intro lane_inv_set_ticket inv) (simp add: ticket_ok_def)
    with Running w live acc show ?thesis by (simp add: wake_continuation_def)
  qed (use w live acc inv in \<open>simp_all add: wake_continuation_def\<close>)
qed (use assms in \<open>auto simp: wake_continuation_def\<close>)

lemma lane_inv_resume:
  assumes inv: "lane_inv l" and w: "resume_continuation i l = (b, l')"
  shows "lane_inv l'"
proof (cases "lane_state l = Accepting \<or> ticket_dead i l \<or> phase (ticket_states l i) \<noteq> Parked")
  case True
  then have "wake_continuation i l = (b, l') \<or> l' = l
      \<or> phase (ticket_states l i) = Running \<and> \<not> ticket_dead i l \<and> l' = set_ticket i ((ticket_states l i)\<lparr>wake_pending := True\<rparr>) l"
    using w by (auto simp: resume_continuation_def wake_continuation_def Let_def split: if_splits)
  moreover have "lane_inv (set_ticket i ((ticket_states l i)\<lparr>wake_pending := True\<rparr>) l)"
    if r: "phase (ticket_states l i) = Running" "\<not> ticket_dead i l"
    using tickets_invD(2) [OF lane_invD(2) [OF inv] ticket_phase_cases(1) [OF lane_invD(2) [OF inv] r(2)]] r
    by (intro lane_inv_set_ticket inv) (simp add: ticket_ok_def)
  ultimately show ?thesis using lane_inv_wake [OF inv] inv by auto
next
  case False
  note ok = tickets_invD(2) [OF lane_invD(2) [OF inv] ticket_phase_cases(1) [OF lane_invD(2) [OF inv]]]
  have "lane_inv (set_ticket i ((ticket_states l i)\<lparr>close_turn_pending := True\<rparr>) l)"
    using False ok [of i] by (intro lane_inv_set_ticket inv) (auto simp: ticket_ok_def)
  with False w show ?thesis by (simp add: resume_continuation_def)
qed

text \<open>Retirement of a ticket that is not in the queue and not running.\<close>

lemma lane_inv_retire_locked:
  assumes inv: "lane_inv l" and i: "i \<in> set (continuations l)"
    and idle: "i \<notin> set (node_tickets (fifo l))" "running_ticket l \<noteq> Some i"
  obtains l' where "retire_continuation_locked i l = Inr l'" "lane_inv l'"
    "fifo l' = fifo l" "lane_state l' = lane_state l" "worker_at l' = worker_at l"
    "continuations l' = filter (\<lambda>j. j \<noteq> i) (continuations l)"
    "\<And>j. j \<noteq> i \<Longrightarrow> ticket_states l' j = ticket_states l j"
proof -
  have mode: "lane_mode l = TotalAdmission"
    using lane_invD(3) [OF inv] i by (auto simp: admission_inv_def split: if_splits)
  have dist: "distinct (continuations l)" using lane_invD(2) [OF inv] by (simp add: tickets_inv_def)
  note len = length_filter_neq [OF dist i]
  define l' where "l' = (set_ticket i \<lparr>phase = Retired, wake_pending = False, retire_pending = False,
       close_turn_pending = False\<rparr> l)\<lparr>continuations := filter (\<lambda>j. j \<noteq> i) (continuations l),
         admitted_unit_count := admitted_unit_count l - 1\<rparr>"
  have pos: "0 < length (continuations l)" using i by (cases "continuations l") auto
  have adm: "admitted_unit_count l \<noteq> 0" using lane_invD(3) [OF inv] mode pos by (simp add: admission_inv_def)
  have nr: "phase (ticket_states l i) \<noteq> Retired"
    using tickets_invD(2) [OF lane_invD(2) [OF inv] i] by (simp add: ticket_ok_def)
  have r: "retire_continuation_locked i l = Inr l'"
    using nr adm by (simp add: retire_continuation_locked_def l'_def set_ticket_def)
  have run: "running_ticket l' = running_ticket l" "running_task l' = running_task l"
    by (simp_all add: l'_def running_ticket_def running_task_def)
  have "tickets_inv l'"
    using lane_invD(2) [OF inv] idle run(1) by (auto simp: tickets_inv_def l'_def)
  moreover have "admission_inv l'"
    using lane_invD(3) [OF inv] mode len run(2) unfolding admission_inv_def by (simp add: l'_def) linarith
  moreover have "tasks_inv l'" "close_inv l'" "worker_inv l'"
    using lane_invD(1,4,5) [OF inv] by (simp_all add: tasks_inv_def close_inv_def worker_inv_def l'_def)
  ultimately have "lane_inv l'" by (intro lane_invI)
  then show ?thesis by (rule that [OF r]) (simp_all add: l'_def)
qed

lemma lane_inv_retire:
  assumes inv: "lane_inv l"
  shows "\<exists>b l'. retire_continuation i l = Inr (b, l') \<and> lane_inv l'"
proof (cases "ticket_dead i l")
  case False
  note tk = ticket_phase_cases [OF lane_invD(2) [OF inv] False]
  note ok = tickets_invD(2) [OF lane_invD(2) [OF inv] tk(1)]
  let ?t = "ticket_states l i"
  show ?thesis
  proof (cases "phase ?t = Parked")
    case True
    obtain l' where "retire_continuation_locked i l = Inr l'" "lane_inv l'"
      using lane_inv_retire_locked [OF inv tk(1)] tk(3) [OF True] by blast
    with True False show ?thesis by (auto simp: retire_continuation_def)
  next
    case n: False
    have "lane_inv (set_ticket i (?t\<lparr>retire_pending := True, wake_pending := False, close_turn_pending := False\<rparr>) l)"
      using ok n by (intro lane_inv_set_ticket inv) (cases "phase ?t"; auto simp: ticket_ok_def)
    with n False show ?thesis by (auto simp: retire_continuation_def)
  qed
qed (use inv in \<open>auto simp: retire_continuation_def\<close>)

lemma lane_inv_enqueue:
  assumes inv: "lane_inv l" and room: "lane_has_room l" and e: "enqueue w l = (r, l')"
  shows "lane_inv l'"
proof (cases "w \<or> lane_state l \<noteq> Accepting")
  case False
  let ?l1 = "l\<lparr>one_shot_nodes := one_shot_nodes l @ [next_node l], next_node := next_node l + 1\<rparr>"
  have l': "l' = append_node (OneShot (next_node l)) (if lane_mode l = TotalAdmission
      then ?l1\<lparr>admitted_unit_count := admitted_unit_count l + 1\<rparr> else ?l1)"
    using e False by (auto simp: enqueue_def Let_def split: if_splits)
  have run: "running_ticket l' = running_ticket l" "running_task l' = running_task l"
    by (simp_all add: l' running_ticket_def running_task_def)
  have "tickets_inv l'" using lane_invD(2) [OF inv] run(1) by (simp add: tickets_inv_def l')
  moreover have "admission_inv l'"
    using lane_invD(1,3) [OF inv] run(2) room False
    by (auto simp: admission_inv_def tasks_inv_def l' lane_has_room_def split: if_splits)
  moreover have "tasks_inv l'" using lane_invD(1) [OF inv] by (simp add: tasks_inv_def l')
  moreover have "worker_inv l'" using lane_invD(4) [OF inv] False by (simp add: worker_inv_def l')
  moreover have "close_inv l'" using lane_invD(5) [OF inv] by (auto simp: close_inv_def l')
  ultimately show ?thesis by (intro lane_invI)
qed (use assms in \<open>auto simp: enqueue_def Let_def split: if_splits\<close>)

lemma lane_inv_reserve:
  assumes inv: "lane_inv l" and room: "reserve_ready l" and e: "reserve_continuation w cb l = (r, l')"
  shows "lane_inv l'"
proof (cases "w \<or> \<not> cb \<or> lane_mode l \<noteq> TotalAdmission \<or> lane_state l \<noteq> Accepting \<or> next_continuation_id l = u64_max")
  case False
  let ?i = "next_continuation_id l"
  have l': "l' = (set_ticket ?i new_ticket l)
           \<lparr>next_continuation_id := ?i + 1, continuations := continuations l @ [?i],
            admitted_unit_count := admitted_unit_count l + 1\<rparr>"
    using e False by (auto simp: reserve_continuation_def Let_def split: if_splits)
  have run: "running_ticket l' = running_ticket l" "running_task l' = running_task l"
    by (simp_all add: l' running_ticket_def running_task_def)
  have lt: "?i < ?i + 1" using False succ_no_wrap_less by blast
  have old: "i < ?i" if "i \<in> set (continuations l)" for i by (rule tickets_invD(1) [OF lane_invD(2) [OF inv] that])
  then have fresh: "?i \<notin> set (continuations l)" by blast
  then have idle: "?i \<notin> set (node_tickets (fifo l))" "running_ticket l \<noteq> Some ?i"
    using lane_invD(2) [OF inv] by (auto simp: tickets_inv_def)
  have new: "ticket_ok Accepting False False new_ticket" by (simp add: ticket_ok_def new_ticket_def)
  have "i < ?i + 1" if "i \<in> set (continuations l)" for i using old [OF that] lt by (rule less_trans)
  then have "tickets_inv l'"
    using lane_invD(2) [OF inv] run(1) fresh idle lt False new unfolding tickets_inv_def by (auto simp: l')
  moreover have "admission_inv l'"
    using lane_invD(3) [OF inv] run(2) room False by (simp add: admission_inv_def l' reserve_ready_def)
  moreover have "tasks_inv l'" using lane_invD(1) [OF inv] by (simp add: tasks_inv_def l')
  moreover have "worker_inv l'" using lane_invD(4) [OF inv] False by (simp add: worker_inv_def l')
  moreover have "close_inv l'" using lane_invD(5) [OF inv] by (auto simp: close_inv_def l')
  ultimately show ?thesis by (intro lane_invI)
qed (use assms in \<open>auto simp: reserve_continuation_def Let_def split: if_splits\<close>)

lemma lane_inv_stop:
  assumes inv: "lane_inv l" and e: "stop_admission_for_close w l = (r, l')"
  shows "lane_inv l'"
proof (cases "w \<or> lane_state l \<noteq> Accepting")
  case False
  have g: "close_generation l = 0" using lane_invD(5) [OF inv] False by (simp add: close_inv_def)
  have l': "l' = l\<lparr>close_generation := 1, lane_state := Draining,
      ticket_states := (\<lambda>i. let t = ticket_states l i in
         if i \<in> set (continuations l) \<and> phase t = Parked then t\<lparr>close_turn_pending := True\<rparr> else t)\<rparr>"
    using e False g by (auto simp: stop_admission_for_close_def Let_def u64_max_def split: if_splits)
  have run: "running_ticket l' = running_ticket l" "running_task l' = running_task l"
    by (simp_all add: l' running_ticket_def running_task_def)
  have "ticket_ok Draining q rn t \<and> (phase t = Parked \<longrightarrow> ticket_ok Draining q rn (t\<lparr>close_turn_pending := True\<rparr>))"
    if "ticket_ok Accepting q rn t" for t q rn
    using that by (auto simp: ticket_ok_def)
  then have "tickets_inv l'"
    using lane_invD(2) [OF inv] run(1) False unfolding tickets_inv_def by (simp add: l' Let_def)
  moreover have "admission_inv l'" using lane_invD(3) [OF inv] run(2) by (auto simp: admission_inv_def l' split: if_splits)
  moreover have "tasks_inv l'" using lane_invD(1) [OF inv] by (simp add: tasks_inv_def l')
  moreover have "worker_inv l'" using lane_invD(4) [OF inv] False by (simp add: worker_inv_def l')
  moreover have "close_inv l'" using lane_invD(5) [OF inv] False by (auto simp: close_inv_def l')
  ultimately show ?thesis by (intro lane_invI)
qed (use assms in \<open>auto simp: stop_admission_for_close_def Let_def split: if_splits\<close>)

text \<open>The oldest owed close turn.\<close>

lemma oldest_close_turn_step:
  "(case foldl (\<lambda>oldest i. if P i \<and> (case oldest of None \<Rightarrow> True | Some j \<Rightarrow> i < j) then Some i else oldest) r xs of
      None \<Rightarrow> r = None \<and> (\<forall>i \<in> set xs. \<not> P i)
    | Some i \<Rightarrow> (r = Some i \<or> i \<in> set xs \<and> P i) \<and> (\<forall>j \<in> set xs. P j \<longrightarrow> i \<le> j) \<and> (\<forall>j. r = Some j \<longrightarrow> i \<le> j))"
  for xs :: "u64 list"
proof (induction xs arbitrary: r)
  case (Cons x xs)
  show ?case using Cons.IH [of "if P x \<and> (case r of None \<Rightarrow> True | Some j \<Rightarrow> x < j) then Some x else r"]
    by (auto split: option.splits if_splits)
qed (simp split: option.split)

lemma oldest_close_turn_None: "oldest_close_turn l = None \<longleftrightarrow> (\<forall>i \<in> set (continuations l). \<not> owed_turn l i)"
  using oldest_close_turn_step [where P = "owed_turn l" and r = None and xs = "continuations l"]
  by (auto simp: oldest_close_turn_def split: option.splits)

lemma oldest_close_turn_Some:
  assumes "oldest_close_turn l = Some i"
  shows "i \<in> set (continuations l)" "owed_turn l i" "\<And>j. j \<in> set (continuations l) \<Longrightarrow> owed_turn l j \<Longrightarrow> i \<le> j"
  using oldest_close_turn_step [where P = "owed_turn l" and r = None and xs = "continuations l"] assms
  by (auto simp: oldest_close_turn_def)

text \<open>The worker takes a ticket, from the head of the queue or as a close turn.\<close>

lemma lane_inv_run:
  assumes inv: "lane_inv l" and idle: "worker_at l = Idle_Worker" and i: "i \<in> set (continuations l)"
    and f: "fifo l = pre @ rest" "pre = [Continuation i] \<or> pre = [] \<and> i \<notin> set (node_tickets rest)"
    and t: "ticket_ok (lane_state l) False True t"
  shows "lane_inv ((set_ticket i t (l\<lparr>fifo := rest, queued_task_count := length rest\<rparr>))
      \<lparr>active_task_count := 1, worker_at := Executing (Continuation i) s\<rparr>)" (is "lane_inv ?l'")
proof (rule lane_invI)
  have none: "running_ticket l = None" "running_task l = 0" using idle by (simp_all add: running_ticket_def running_task_def)
  have run: "running_ticket ?l' = Some i" "running_task ?l' = 0" by (simp_all add: running_ticket_def running_task_def)
  have tks: "set (node_tickets (fifo l)) - {i} = set (node_tickets rest)" "distinct (node_tickets rest)"
    using f lane_invD(2) [OF inv] by (auto simp: tickets_inv_def)
  have other: "j \<in> set (node_tickets rest) \<longleftrightarrow> j \<in> set (node_tickets (fifo l))" if "j \<noteq> i" for j
    using tks(1) that by blast
  have "i \<notin> set (node_tickets rest)" using tks(1) by blast
  then show "tickets_inv ?l'"
    using lane_invD(2) [OF inv] run(1) none(1) tks t i other unfolding tickets_inv_def by auto
  have "lane_mode l = TotalAdmission"
    using lane_invD(3) [OF inv] i by (auto simp: admission_inv_def split: if_splits)
  then show "admission_inv ?l'"
    using lane_invD(3) [OF inv] run(2) none(2) unfolding admission_inv_def by simp
  show "tasks_inv ?l'" using lane_invD(1) [OF inv] f by (auto simp: tasks_inv_def)
  show "worker_inv ?l'" using lane_invD(4) [OF inv] idle by (auto simp: worker_inv_def)
  show "close_inv ?l'" using lane_invD(5) [OF inv] by (simp add: close_inv_def)
qed

lemma lane_inv_run_task:
  assumes inv: "lane_inv l" and idle: "worker_at l = Idle_Worker" and f: "fifo l = OneShot n # rest"
  shows "n \<in> set (one_shot_nodes l)"
    "lane_inv (l\<lparr>fifo := rest, queued_task_count := length rest, one_shot_nodes := filter (\<lambda>m. m \<noteq> n) (one_shot_nodes l),
       active_task_count := 1, worker_at := Executing (OneShot n) False, ran := ran l @ [n]\<rparr>)" (is "lane_inv ?l'")
proof -
  have tasks: "one_shot_nodes l = n # node_tasks rest" "ran l @ one_shot_nodes l = [0..<next_node l]"
    using lane_invD(1) [OF inv] f by (simp_all add: tasks_inv_def)
  then show "n \<in> set (one_shot_nodes l)" by simp
  have "distinct (ran l @ one_shot_nodes l)" unfolding tasks(2) by simp
  then have flt: "filter (\<lambda>m. m \<noteq> n) (one_shot_nodes l) = node_tasks rest"
    unfolding tasks(1) by (auto intro: filter_True)
  have run: "running_ticket ?l' = None" "running_task ?l' = 1" "running_ticket l = None" "running_task l = 0"
    using idle by (simp_all add: running_ticket_def running_task_def)
  show "lane_inv ?l'"
  proof (rule lane_invI)
    show "tickets_inv ?l'" using lane_invD(2) [OF inv] run f unfolding tickets_inv_def by simp
    show "admission_inv ?l'"
      using lane_invD(3) [OF inv] run tasks(1) f flt unfolding admission_inv_def by (auto split: if_splits)
    show "tasks_inv ?l'" using tasks flt by (simp add: tasks_inv_def)
    show "worker_inv ?l'" using lane_invD(4) [OF inv] idle by (simp add: worker_inv_def)
    show "close_inv ?l'" using lane_invD(5) [OF inv] by (simp add: close_inv_def)
  qed
qed

text \<open>A turn of the worker: what it takes, and that none of its failing branches is reached.\<close>

lemma worker_next_cases:
  assumes inv: "lane_inv l" and idle: "worker_at l = Idle_Worker" and ready: "worker_ready l"
  obtains (task) n rest where "fifo l = OneShot n # rest"
      "worker_next l = Inr (l\<lparr>fifo := rest, queued_task_count := length rest,
         one_shot_nodes := filter (\<lambda>m. m \<noteq> n) (one_shot_nodes l),
         active_task_count := 1, worker_at := Executing (OneShot n) False, ran := ran l @ [n]\<rparr>)"
  | (ticket) i rest t where "fifo l = Continuation i # rest" "i \<in> set (continuations l)"
      "t = (ticket_states l i)\<lparr>phase := Running\<rparr>" "phase (ticket_states l i) = Queued"
      "worker_next l = Inr ((set_ticket i t (l\<lparr>fifo := rest, queued_task_count := length rest\<rparr>))
         \<lparr>active_task_count := 1, worker_at := Executing (Continuation i) (retire_pending t)\<rparr>)"
  | (close_turn) i t where "fifo l = []" "lane_state l = Draining" "i \<in> set (continuations l)" "owed_turn l i"
      "t = (ticket_states l i)\<lparr>close_turn_pending := False, phase := Running\<rparr>"
      "worker_next l = Inr ((set_ticket i t (l\<lparr>fifo := [], queued_task_count := 0\<rparr>))
         \<lparr>active_task_count := 1, worker_at := Executing (Continuation i) (retire_pending t)\<rparr>)"
  | (stop) "fifo l = []" "lane_state l = Draining" "continuations l = []"
      "worker_next l = Inr (l\<lparr>worker_thread_count := 0, lane_state := WorkerStopped, worker_at := Stopped_Worker\<rparr>)"
proof -
  have q: "queued_task_count l = length (fifo l)" using lane_invD(1) [OF inv] by (simp add: tasks_inv_def)
  have st: "lane_state l = Accepting \<or> lane_state l = Draining"
    using lane_invD(4) [OF inv] idle by (cases "lane_state l") (auto simp: worker_inv_def)
  consider (t) n rest where "fifo l = OneShot n # rest" | (c) i rest where "fifo l = Continuation i # rest" | (e) "fifo l = []"
    by (cases "fifo l"; cases "hd (fifo l)") auto
  then show ?thesis
  proof cases
    case t
    then show ?thesis
      using lane_inv_run_task(1) [OF inv idle t] q by (intro task) (simp_all add: worker_next_def pop_node_def)
  next
    case c
    then have i: "i \<in> set (continuations l)" using lane_invD(2) [OF inv] by (simp add: tickets_inv_def)
    then have "phase (ticket_states l i) = Queued"
      using tickets_invD(2) [OF lane_invD(2) [OF inv] i] c by (simp add: ticket_ok_def)
    with c i q show ?thesis
      by (intro ticket [of i rest "(ticket_states l i)\<lparr>phase := Running\<rparr>"]) (simp_all add: worker_next_def pop_node_def run_ticket_def)
  next
    case e
    with ready st have d: "lane_state l = Draining" by (auto simp: worker_ready_def)
    show ?thesis
    proof (cases "oldest_close_turn l")
      case None
      with e d ready have adm: "admitted_unit_count l = 0" by (simp add: worker_ready_def)
      with lane_invD(3) [OF inv] have "continuations l = []" by (auto simp: admission_inv_def split: if_splits)
      with e d None adm show ?thesis by (intro stop) (simp_all add: worker_next_def pop_node_def)
    next
      case (Some i)
      have fl: "l\<lparr>fifo := [], queued_task_count := 0\<rparr> = l" using e q by simp
      have i: "i \<in> set (continuations l)" "owed_turn l i" using oldest_close_turn_Some [OF Some] by auto
      show ?thesis
      proof (rule close_turn [OF e d i refl])
        show "worker_next l = Inr ((set_ticket i ((ticket_states l i)\<lparr>close_turn_pending := False, phase := Running\<rparr>)
             (l\<lparr>fifo := [], queued_task_count := 0\<rparr>))
           \<lparr>active_task_count := 1, worker_at := Executing (Continuation i)
              (retire_pending ((ticket_states l i)\<lparr>close_turn_pending := False, phase := Running\<rparr>))\<rparr>)"
          unfolding fl using e d i Some by (simp add: worker_next_def pop_node_def run_ticket_def)
      qed
    qed
  qed
qed

lemma lane_inv_worker_next:
  assumes inv: "lane_inv l" and idle: "worker_at l = Idle_Worker" and ready: "worker_ready l"
  shows "\<exists>l'. worker_next l = Inr l' \<and> lane_inv l'"
  using inv idle ready
proof (cases rule: worker_next_cases)
  case (task n rest)
  then show ?thesis using lane_inv_run_task(2) [OF inv idle task(1)] by simp
next
  case (ticket i rest t)
  have "ticket_ok (lane_state l) False True t"
    using tickets_invD(2) [OF lane_invD(2) [OF inv] ticket(2)] ticket(3,4) by (auto simp: ticket_ok_def)
  then show ?thesis
    using lane_inv_run [OF inv idle ticket(2), of "[Continuation i]" rest t "retire_pending t"] ticket by simp
next
  case (close_turn i t)
  have "ticket_ok (lane_state l) False True t"
    using tickets_invD(2) [OF lane_invD(2) [OF inv] close_turn(3)] close_turn(1,4,5) by (auto simp: ticket_ok_def owed_turn_def)
  then show ?thesis
    using lane_inv_run [OF inv idle close_turn(3), of "[]" "[]" t "retire_pending t"] close_turn by simp
next
  case stop
  let ?l' = "l\<lparr>worker_thread_count := 0, lane_state := WorkerStopped, worker_at := Stopped_Worker\<rparr>"
  have run: "running_ticket ?l' = None" "running_task ?l' = 0" "running_task l = 0"
    using idle by (simp_all add: running_ticket_def running_task_def)
  have "lane_inv ?l'"
  proof (rule lane_invI)
    show "admission_inv ?l'" using lane_invD(3) [OF inv] run unfolding admission_inv_def by (auto split: if_splits)
    show "close_inv ?l'" using lane_invD(5) [OF inv] stop by (auto simp: close_inv_def)
  qed (use lane_invD(1,2,4) [OF inv] stop run idle in \<open>auto simp: tasks_inv_def tickets_inv_def worker_inv_def\<close>)
  with stop show ?thesis by simp
qed

text \<open>The end of a turn. First the worker is idle again, with the ticket still marked as running.\<close>

lemma finish_turn:
  assumes inv: "lane_inv l" and at: "worker_at l = Executing (Continuation i) s"
  shows "\<exists>l'. finish_continuation_turn i a (l\<lparr>active_task_count := 0, worker_at := Idle_Worker\<rparr>) = Inr l' \<and> lane_inv l'"
proof -
  let ?t = "ticket_states l i"
  let ?l1 = "l\<lparr>active_task_count := 0, worker_at := Idle_Worker\<rparr>"
  have run: "running_ticket l = Some i" "running_task l = 0" "running_ticket ?l1 = None" "running_task ?l1 = 0"
    using at by (simp_all add: running_ticket_def running_task_def)
  have i: "i \<in> set (continuations l)" using lane_invD(2) [OF inv] run(1) by (simp add: tickets_inv_def)
  have ok: "ticket_ok (lane_state l) (i \<in> set (node_tickets (fifo l))) True ?t"
    using tickets_invD(2) [OF lane_invD(2) [OF inv] i] run(1) by simp
  then have ph: "phase ?t = Running" "i \<notin> set (node_tickets (fifo l))" "\<not> close_turn_pending ?t"
    by (auto simp: ticket_ok_def)
  have st: "lane_state l \<noteq> Accepting \<Longrightarrow> lane_state l = Draining"
    using lane_invD(4) [OF inv] at by (cases "lane_state l") (auto simp: worker_inv_def)
  have parked: "lane_inv (set_ticket i t ?l1)" if "ticket_ok (lane_state l) False False t" for t
  proof (rule lane_invI)
    show "tickets_inv (set_ticket i t ?l1)"
      using lane_invD(2) [OF inv] run that ph(2) unfolding tickets_inv_def by auto
    show "admission_inv (set_ticket i t ?l1)"
      using lane_invD(3) [OF inv] run unfolding set_ticket_inv admission_inv_def by (auto split: if_splits)
  qed (use lane_invD(1,4,5) [OF inv] at in \<open>simp_all add: tasks_inv_def worker_inv_def close_inv_def\<close>)
  consider (r) "retire_pending ?t \<or> a = Retire"
    | (q) "\<not> (retire_pending ?t \<or> a = Retire)" "wake_pending ?t \<or> a = Queue" "lane_state l = Accepting"
    | (c) "\<not> (retire_pending ?t \<or> a = Retire)" "wake_pending ?t \<or> a = Queue" "lane_state l \<noteq> Accepting"
    | (p) "\<not> (retire_pending ?t \<or> a = Retire)" "\<not> (wake_pending ?t \<or> a = Queue)"
    by blast
  then show ?thesis
  proof cases
    case r
    let ?m = "set_ticket i new_ticket ?l1"
    have m: "lane_inv ?m" by (rule parked) (simp add: ticket_ok_def new_ticket_def)
    have im: "i \<in> set (continuations ?m)" "i \<notin> set (node_tickets (fifo ?m))" "running_ticket ?m \<noteq> Some i"
      using i ph(2) run(3) by simp_all
    obtain l' where "retire_continuation_locked i ?m = Inr l'" "lane_inv l'"
      by (rule lane_inv_retire_locked [OF m im])
    moreover have "retire_continuation_locked i ?m = retire_continuation_locked i ?l1"
      using ph(1) by (simp add: retire_continuation_locked_def new_ticket_def set_ticket_def)
    moreover have "finish_continuation_turn i a ?l1 = retire_continuation_locked i ?l1"
      using r by (simp add: finish_continuation_turn_def)
    ultimately show ?thesis by simp
  next
    case q
    have "lane_inv (append_node (Continuation i) (set_ticket i (?t\<lparr>wake_pending := False, phase := Queued\<rparr>) (set_ticket i new_ticket ?l1)))"
      using i q(1,3) ph run(3)
      by (intro lane_inv_queue_ticket parked) (auto simp: ticket_ok_def new_ticket_def)
    with q show ?thesis by (simp add: finish_continuation_turn_def Let_def set_ticket_def)
  next
    case c
    then have "lane_inv (set_ticket i (?t\<lparr>wake_pending := False, phase := Parked, close_turn_pending := True\<rparr>) ?l1)"
      by (intro parked) (simp add: ticket_ok_def)
    with c show ?thesis by (simp add: finish_continuation_turn_def Let_def)
  next
    case p
    then have "lane_inv (set_ticket i (?t\<lparr>phase := Parked\<rparr>) ?l1)"
      using ph(3) by (intro parked) (simp add: ticket_ok_def)
    with p show ?thesis by (simp add: finish_continuation_turn_def Let_def)
  qed
qed

lemma lane_inv_worker_finish:
  assumes inv: "lane_inv l" and at: "worker_at l = Executing node s"
  shows "\<exists>l'. worker_finish a l = Inr l' \<and> lane_inv l'"
proof (cases node)
  case (Continuation i)
  then show ?thesis using finish_turn [OF inv at [unfolded Continuation]] at by (simp add: worker_finish_def)
next
  case (OneShot n)
  let ?l1 = "l\<lparr>active_task_count := 0, worker_at := Idle_Worker\<rparr>"
  let ?l' = "if lane_mode l = TotalAdmission then ?l1\<lparr>admitted_unit_count := admitted_unit_count l - 1\<rparr> else ?l1"
  have run: "running_ticket l = None" "running_task l = 1" "running_ticket ?l' = None" "running_task ?l' = 0"
    using at OneShot by (simp_all add: running_ticket_def running_task_def)
  have "lane_inv ?l'"
  proof (rule lane_invI)
    show "tickets_inv ?l'" using lane_invD(2) [OF inv] run unfolding tickets_inv_def by simp
    show "admission_inv ?l'" using lane_invD(3) [OF inv] run unfolding admission_inv_def by (auto split: if_splits)
  qed (use lane_invD(1,4,5) [OF inv] at in \<open>simp_all add: tasks_inv_def worker_inv_def close_inv_def\<close>)
  moreover have "admitted_unit_count l \<noteq> 0" if "lane_mode l = TotalAdmission"
    using lane_invD(3) [OF inv] run(2) that by (simp add: admission_inv_def)
  ultimately show ?thesis
    using at OneShot by (cases "lane_mode l = TotalAdmission") (simp_all add: worker_finish_def Let_def)
qed

lemma lane_inv_init: "lane_init l \<Longrightarrow> lane_inv l"
  by (auto simp: lane_init_def make_lane_def lane_inv_def lane_inv_defs running_task_def running_ticket_def split: if_splits)

text \<open>The join bookkeeping concerns the close invariant only.\<close>

lemma join_update_inv:
  "running_ticket (l\<lparr>join_in_progress := a, joiner := b\<rparr>) = running_ticket l"
  "running_task (l\<lparr>join_in_progress := a, joiner := b\<rparr>) = running_task l"
  "tickets_inv (l\<lparr>join_in_progress := a, joiner := b\<rparr>) = tickets_inv l"
  "tasks_inv (l\<lparr>join_in_progress := a, joiner := b\<rparr>) = tasks_inv l"
  "admission_inv (l\<lparr>join_in_progress := a, joiner := b\<rparr>) = admission_inv l"
  "worker_inv (l\<lparr>join_in_progress := a, joiner := b\<rparr>) = worker_inv l"
proof -
  show r: "running_ticket (l\<lparr>join_in_progress := a, joiner := b\<rparr>) = running_ticket l"
    "running_task (l\<lparr>join_in_progress := a, joiner := b\<rparr>) = running_task l"
    by (simp_all add: running_ticket_def running_task_def)
  show "tickets_inv (l\<lparr>join_in_progress := a, joiner := b\<rparr>) = tickets_inv l"
    "admission_inv (l\<lparr>join_in_progress := a, joiner := b\<rparr>) = admission_inv l"
    unfolding tickets_inv_def admission_inv_def r by simp_all
qed (simp_all add: tasks_inv_def worker_inv_def)

lemma lane_inv_close:
  assumes inv: "lane_inv l"
  shows "close_poll (close_generation l) l = (p, l') \<Longrightarrow> lane_inv l'"
    "joiner l = Some g \<Longrightarrow> lane_inv (close_joined g l)"
    "joiner l = Some g \<Longrightarrow> lane_inv (close_join_failed l)"
proof -
  note c = lane_invD(5) [OF inv, unfolded close_inv_def]
  show "lane_inv l'" if "close_poll (close_generation l) l = (p, l')"
  proof (cases "l' = l")
    case False
    with that have l': "l' = l\<lparr>join_in_progress := True, joiner := Some (close_generation l)\<rparr>" "lane_state l = WorkerStopped"
      by (auto simp: close_poll_def split: if_splits)
    then have "close_inv l'" using c by (simp add: close_inv_def)
    with inv show ?thesis by (simp add: lane_inv_def l'(1) join_update_inv)
  qed (use inv in simp)
  show "lane_inv (close_join_failed l)" if "joiner l = Some g"
  proof -
    have "close_inv (close_join_failed l)" using c by (auto simp: close_inv_def close_join_failed_def)
    with inv show ?thesis by (simp add: lane_inv_def close_join_failed_def join_update_inv)
  qed
  show "lane_inv (close_joined g l)" if j: "joiner l = Some g"
  proof -
    have st: "lane_state l = WorkerStopped" "g = 1" using c j by auto
    then have w: "worker_at l = Stopped_Worker" "continuations l = []" "fifo l = []"
      using lane_invD(4) [OF inv] by (auto simp: worker_inv_def)
    then have "running_ticket (close_joined g l) = None" "running_task (close_joined g l) = running_task l"
      by (simp_all add: close_joined_def running_ticket_def running_task_def)
    with w st inv show ?thesis
      by (auto simp: lane_inv_def lane_inv_defs close_joined_def split: if_splits)
  qed
qed

lemma lane_inv_worker_start:
  assumes inv: "lane_inv l" and at: "worker_at l = Not_Started"
  shows "lane_inv (worker_start l)"
proof -
  have run: "running_ticket (worker_start l) = running_ticket l" "running_task (worker_start l) = running_task l"
    using at by (simp_all add: worker_start_def running_ticket_def running_task_def)
  have "tickets_inv (worker_start l)" "admission_inv (worker_start l)"
    using lane_invD(2,3) [OF inv] unfolding tickets_inv_def admission_inv_def run by (auto simp: worker_start_def split: if_splits)
  moreover have "tasks_inv (worker_start l)" "worker_inv (worker_start l)" "close_inv (worker_start l)"
    using lane_invD(1,4,5) [OF inv] at by (simp_all add: tasks_inv_def worker_inv_def close_inv_def worker_start_def)
  ultimately show ?thesis by (intro lane_invI)
qed

lemma lane_inv_step:
  assumes inv: "lane_inv l" and step: "lane_step l l'"
  shows "lane_inv l'"
  using step
proof cases
  case (retire i b)
  then show ?thesis using lane_inv_retire [OF inv, of i] by auto
next
  case (poll p)
  then show ?thesis using lane_inv_close(1) [OF inv] by blast
next
  case (joined target)
  then show ?thesis using lane_inv_close(2) [OF inv] by blast
next
  case (join_failed target)
  then show ?thesis using lane_inv_close(3) [OF inv] by blast
next
  case worker_start
  then show ?thesis using lane_inv_worker_start [OF inv] by blast
next
  case worker_turn
  then show ?thesis using lane_inv_worker_next [OF inv] by auto
next
  case (worker_return node skip action)
  then show ?thesis using lane_inv_worker_finish [OF inv worker_return(1), of action] by auto
qed (use lane_inv_enqueue [OF inv] lane_inv_reserve [OF inv] lane_inv_wake [OF inv] lane_inv_resume [OF inv]
    lane_inv_stop [OF inv] in blast)+

interpretation lane_sys: inv_system lane_init lane_step lane_inv
  by unfold_locales (rule lane_inv_init, assumption, rule lane_inv_step)

section \<open>Draining\<close>

definition owed_tickets :: "Lane \<Rightarrow> u64 set" where
  "owed_tickets l = {i \<in> set (continuations l). owed_turn l i}"

text \<open>What the worker still has to do before it can stop or must wait for a ticket's owner.\<close>

definition drain_work :: "Lane \<Rightarrow> nat" where
  "drain_work l = 3 * (length (fifo l) + card (owed_tickets l))
     + (case worker_at l of
          Executing (Continuation i) _ \<Rightarrow> if wake_pending (ticket_states l i) then 5 else 2
        | Stopped_Worker \<Rightarrow> 0 | Executing (OneShot _) _ \<Rightarrow> 2 | _ \<Rightarrow> 1)"

lemma owed_tickets_finite [simp]: "finite (owed_tickets l)"
  by (simp add: owed_tickets_def)

lemma drain_work_next:
  assumes inv: "lane_inv l" and idle: "worker_at l = Idle_Worker" and ready: "worker_ready l" and n: "worker_next l = Inr l'"
  shows "drain_work l' < drain_work l"
  using inv idle ready
proof (cases rule: worker_next_cases)
  case (task m rest)
  then have "owed_tickets l' = owed_tickets l" using n by (auto simp: owed_tickets_def owed_turn_def)
  then show ?thesis using task n idle by (auto simp: drain_work_def)
next
  case (ticket i rest t)
  have ok: "\<not> wake_pending (ticket_states l i)"
    using tickets_invD(2) [OF lane_invD(2) [OF inv] ticket(2)] ticket(4) by (auto simp: ticket_ok_def)
  have l': "l' = (set_ticket i t (l\<lparr>fifo := rest, queued_task_count := length rest\<rparr>))
         \<lparr>active_task_count := 1, worker_at := Executing (Continuation i) (retire_pending t)\<rparr>" using ticket(5) n by simp
  have "owed_tickets l' = owed_tickets l" using ticket(3,4) by (auto simp: owed_tickets_def owed_turn_def l')
  then show ?thesis using ticket(1,3) ok idle by (simp add: drain_work_def l')
next
  case (close_turn i t)
  have ok: "\<not> wake_pending (ticket_states l i)"
    using tickets_invD(2) [OF lane_invD(2) [OF inv] close_turn(3)] close_turn(4) by (auto simp: ticket_ok_def owed_turn_def)
  have l': "l' = (set_ticket i t (l\<lparr>fifo := [], queued_task_count := 0\<rparr>))
         \<lparr>active_task_count := 1, worker_at := Executing (Continuation i) (retire_pending t)\<rparr>" using close_turn(6) n by simp
  have "owed_tickets l' = owed_tickets l - {i}" using close_turn(5) by (auto simp: owed_tickets_def owed_turn_def l')
  moreover have "i \<in> owed_tickets l" using close_turn(3,4) by (simp add: owed_tickets_def)
  ultimately have "Suc (card (owed_tickets l')) = card (owed_tickets l)"
    by (metis card_Suc_Diff1 owed_tickets_finite)
  then show ?thesis using close_turn(1,5) ok idle by (simp add: drain_work_def l')
next
  case stop
  then have "owed_tickets l' = owed_tickets l" using n by (auto simp: owed_tickets_def)
  then show ?thesis using stop n idle by (auto simp: drain_work_def)
qed

lemma drain_work_finish:
  assumes inv: "lane_inv l" and at: "worker_at l = Executing node s" and d: "lane_state l \<noteq> Accepting"
    and f: "worker_finish a l = Inr l'" and a: "a \<noteq> Queue"
  shows "drain_work l' < drain_work l"
proof (cases node)
  case (OneShot n)
  then have "l' = l\<lparr>active_task_count := 0, worker_at := Idle_Worker\<rparr>
      \<or> l' = l\<lparr>active_task_count := 0, worker_at := Idle_Worker, admitted_unit_count := admitted_unit_count l - 1\<rparr>"
    using at f by (auto simp: worker_finish_def Let_def split: if_splits)
  then have "owed_tickets l' = owed_tickets l" "fifo l' = fifo l" "worker_at l' = Idle_Worker"
    by (auto simp: owed_tickets_def owed_turn_def)
  then show ?thesis using at OneShot by (simp add: drain_work_def)
next
  case (Continuation i)
  let ?t = "ticket_states l i"
  let ?l1 = "l\<lparr>active_task_count := 0, worker_at := Idle_Worker\<rparr>"
  have i: "i \<in> set (continuations l)"
    using lane_invD(2) [OF inv] at Continuation by (simp add: tickets_inv_def running_ticket_def)
  then have ph: "phase ?t = Running" "\<not> close_turn_pending ?t"
    using tickets_invD(2) [OF lane_invD(2) [OF inv] i] at Continuation by (auto simp: ticket_ok_def running_ticket_def)
  then have ni: "i \<notin> owed_tickets l" by (simp add: owed_tickets_def owed_turn_def)
  have fin: "finish_continuation_turn i (if s then Retire else a) ?l1 = Inr l'"
    using f at Continuation by (simp add: worker_finish_def Let_def)
  consider (r) "retire_pending ?t \<or> s \<or> a = Retire" | (c) "\<not> (retire_pending ?t \<or> s \<or> a = Retire)" "wake_pending ?t"
    | (p) "\<not> (retire_pending ?t \<or> s \<or> a = Retire)" "\<not> wake_pending ?t" by blast
  then show ?thesis
  proof cases
    case r
    with fin have "retire_continuation_locked i ?l1 = Inr l'" by (auto simp: finish_continuation_turn_def split: if_splits)
    then have "fifo l' = fifo l" "worker_at l' = Idle_Worker" "owed_tickets l' = owed_tickets l"
      using ph ni by (auto simp: retire_continuation_locked_def Let_def owed_tickets_def owed_turn_def split: if_splits)
    then show ?thesis using at Continuation by (simp add: drain_work_def)
  next
    case c
    then have l': "l' = set_ticket i (?t\<lparr>wake_pending := False, phase := Parked, close_turn_pending := True\<rparr>) ?l1"
      using fin d by (simp add: finish_continuation_turn_def)
    then have "owed_tickets l' = insert i (owed_tickets l)"
      using i by (auto simp: owed_tickets_def owed_turn_def)
    then show ?thesis using at Continuation c ni by (simp add: drain_work_def l')
  next
    case p
    then have l': "l' = set_ticket i (?t\<lparr>phase := Parked\<rparr>) ?l1"
      using fin d a by (simp add: finish_continuation_turn_def)
    then have "owed_tickets l' = owed_tickets l"
      using ph ni by (auto simp: owed_tickets_def owed_turn_def split: if_splits)
    then show ?thesis using at Continuation p by (simp add: drain_work_def l')
  qed
qed

lemma idle_drain:
  assumes inv: "lane_inv l" and idle: "worker_at l = Idle_Worker" and d: "lane_state l = Draining"
  shows "worker_ready l \<or> (fifo l = [] \<and> continuations l \<noteq> []
    \<and> (\<forall>i \<in> set (continuations l). phase (ticket_states l i) = Parked \<and> \<not> close_turn_pending (ticket_states l i)))"
proof (rule disjCI)
  assume no: "\<not> (fifo l = [] \<and> continuations l \<noteq> []
    \<and> (\<forall>i \<in> set (continuations l). phase (ticket_states l i) = Parked \<and> \<not> close_turn_pending (ticket_states l i)))"
  have run: "running_ticket l = None" "running_task l = 0" using idle by (simp_all add: running_ticket_def running_task_def)
  show "worker_ready l"
  proof (cases "fifo l = []")
    case True
    have parked: "phase (ticket_states l i) = Parked" if "i \<in> set (continuations l)" for i
      using tickets_invD(2) [OF lane_invD(2) [OF inv] that] run True
      by (cases "phase (ticket_states l i)") (auto simp: ticket_ok_def)
    show ?thesis
    proof (cases "continuations l = []")
      case nil: True
      have "admitted_unit_count l = 0"
        using lane_invD(1,3) [OF inv] True nil run by (auto simp: admission_inv_def tasks_inv_def split: if_splits)
      with d show ?thesis by (simp add: worker_ready_def)
    next
      case False
      with no True parked obtain i where "i \<in> set (continuations l)" "owed_turn l i" by (auto simp: owed_turn_def)
      then have "oldest_close_turn l \<noteq> None" unfolding oldest_close_turn_None by blast
      with d show ?thesis by (simp add: worker_ready_def)
    qed
  qed (simp add: worker_ready_def)
qed

section \<open>Example runs\<close>

definition demo_lane :: Lane where
  "demo_lane = (case make_lane 2 TotalAdmission of Inr l \<Rightarrow> l | Inl _ \<Rightarrow> undefined)"

lemma demo_lane: "lane_init demo_lane"
  unfolding lane_init_def by (rule exI [of _ 2], rule exI [of _ TotalAdmission]) (simp add: demo_lane_def make_lane_def)

lemmas lane_demo_defs = demo_lane_def make_lane_def lane_has_room_def enqueue_def reserve_ready_def
  reserve_continuation_def u64_max_def append_node_def set_ticket_def new_ticket_def Let_def

definition demo_open_lane :: Lane where
  "demo_open_lane = worker_start (snd (reserve_continuation False True (snd (enqueue False demo_lane))))"

lemma demo_open_lane: "reachable lane_init lane_step demo_open_lane"
proof -
  have "reachable lane_init lane_step demo_lane" by (rule reachable_init [of lane_init, OF demo_lane])
  then have "reachable lane_init lane_step (snd (enqueue False demo_lane))"
    by (rule reachable_step [where step = lane_step, OF _ lane_step.submit [OF _ prod.collapse [symmetric]]])
      (simp add: lane_demo_defs)
  then have "reachable lane_init lane_step (snd (reserve_continuation False True (snd (enqueue False demo_lane))))"
    by (rule reachable_step [where step = lane_step, OF _ lane_step.reserve [OF _ prod.collapse [symmetric]]])
      (simp add: lane_demo_defs)
  then show ?thesis unfolding demo_open_lane_def
    by (rule reachable_step [where step = lane_step, OF _ lane_step.worker_start]) (simp add: lane_demo_defs)
qed

lemma demo_draining_lane: "reachable lane_init lane_step (snd (stop_admission_for_close False demo_open_lane))"
  by (rule reachable_step [where step = lane_step, OF demo_open_lane lane_step.stop [OF prod.collapse [symmetric]]])

lemma demo_draining_state:
  "lane_state (snd (stop_admission_for_close False demo_open_lane)) = Draining"
  "worker_at (snd (stop_admission_for_close False demo_open_lane)) = Idle_Worker"
  "fifo (snd (stop_admission_for_close False demo_open_lane)) = [OneShot 0]"
  by (simp_all add: demo_open_lane_def stop_admission_for_close_def worker_start_def lane_demo_defs)

section \<open>Properties\<close>

text \<open>
  C26. The lane is bounded and serial and never terminates the process. In every reachable
  state: under total admission the charged units are exactly the queued tasks, the running task
  and the live tickets, and within the capacity; otherwise the queue is within it; at most
  one unit runs; every live ticket is in the queue exactly when it is in the queued phase, and
  then once. A ready worker's turn, the end of a turn with any decision of the callback, and
  the retirement of any ticket all return: no terminating branch, missing owner or missing
  node is met.
\<close>

theorem lane_bounded_serial:
  assumes "reachable lane_init lane_step l"
  shows "(if lane_mode l = TotalAdmission
          then admitted_unit_count l = length (one_shot_nodes l) + running_task l + length (continuations l)
               \<and> admitted_unit_count l \<le> queue_capacity l
          else length (fifo l) \<le> queue_capacity l)
    \<and> active_task_count l \<le> 1 \<and> worker_thread_count l \<le> 1
    \<and> distinct (node_tickets (fifo l))
    \<and> (\<forall>i \<in> set (continuations l). i \<in> set (node_tickets (fifo l)) \<longleftrightarrow> phase (ticket_states l i) = Queued)
    \<and> (worker_at l = Idle_Worker \<and> worker_ready l \<longrightarrow> (\<exists>l'. worker_next l = Inr l'))
    \<and> (\<forall>node s a. worker_at l = Executing node s \<longrightarrow> (\<exists>l'. worker_finish a l = Inr l'))
    \<and> (\<exists>b l'. retire_continuation i l = Inr (b, l'))"
proof -
  have inv: "lane_inv l" by (rule lane_sys.reachable_inv [OF assms])
  have "i \<in> set (node_tickets (fifo l)) \<longleftrightarrow> phase (ticket_states l i) = Queued" if "i \<in> set (continuations l)" for i
    using tickets_invD(2) [OF lane_invD(2) [OF inv] that] by (auto simp: ticket_ok_def)
  moreover have "distinct (node_tickets (fifo l))" using lane_invD(2) [OF inv] by (simp add: tickets_inv_def)
  moreover have "active_task_count l \<le> 1 \<and> worker_thread_count l \<le> 1"
    using lane_invD(4) [OF inv] by (simp add: worker_inv_def split: worker_position.splits)
  moreover have "if lane_mode l = TotalAdmission
      then admitted_unit_count l = length (one_shot_nodes l) + running_task l + length (continuations l)
           \<and> admitted_unit_count l \<le> queue_capacity l
      else length (fifo l) \<le> queue_capacity l"
    using lane_invD(3) [OF inv] by (simp add: admission_inv_def split: if_splits)
  ultimately show ?thesis
    using lane_inv_worker_next [OF inv] lane_inv_worker_finish [OF inv] lane_inv_retire [OF inv, of i] by blast
qed

theorem lane_bounded_serial_witness:
  "reachable lane_init lane_step demo_open_lane \<and> admitted_unit_count demo_open_lane = 2
     \<and> (\<exists>l'. worker_next demo_open_lane = Inr l')"
proof -
  have "worker_at demo_open_lane = Idle_Worker" "worker_ready demo_open_lane" "admitted_unit_count demo_open_lane = 2"
    by (simp_all add: demo_open_lane_def worker_start_def worker_ready_def lane_demo_defs)
  then show ?thesis using lane_bounded_serial [OF demo_open_lane, of 1] demo_open_lane by blast
qed

text \<open>
  C34. Tasks run in admission order, each exactly once, and closing abandons none. In every
  reachable state the tasks the worker has taken followed by the queued ones are all admitted
  tasks in the order of their admission; once the worker has stopped, every admitted task
  has been taken and no ticket is left.
\<close>

theorem lane_fifo_exactly_once:
  assumes "reachable lane_init lane_step l"
  shows "ran l @ node_tasks (fifo l) = [0..<next_node l]
    \<and> (lane_state l \<in> {WorkerStopped, Closed} \<longrightarrow> ran l = [0..<next_node l] \<and> fifo l = [] \<and> continuations l = [])"
proof -
  have inv: "lane_inv l" by (rule lane_sys.reachable_inv [OF assms])
  then show ?thesis using lane_invD(1,4) [OF inv] by (auto simp: tasks_inv_def worker_inv_def)
qed

theorem lane_fifo_exactly_once_witness:
  "reachable lane_init lane_step demo_open_lane \<and> ran demo_open_lane @ node_tasks (fifo demo_open_lane) = [0..<1]"
proof -
  have "next_node demo_open_lane = 1" by (simp add: demo_open_lane_def worker_start_def lane_demo_defs)
  then show ?thesis using lane_fifo_exactly_once [OF demo_open_lane] demo_open_lane by simp
qed

text \<open>
  C33. Closing drains. Stopping admission leaves every live ticket queued, running or owed a
  turn. While draining, an idle worker has a turn to take unless the queue is empty and
  every live ticket is parked with no turn owed, that is, unless it waits for the owners of
  those tickets; each turn it takes, and the end of each turn whose callback does not ask to be
  queued again, strictly reduces the work left.
\<close>

theorem lane_drains:
  assumes "reachable lane_init lane_step l"
  shows "(lane_state l = Accepting \<longrightarrow>
        (\<forall>i \<in> set (continuations l). let l' = snd (stop_admission_for_close False l) in
           phase (ticket_states l' i) \<in> {Queued, Running} \<or> owed_turn l' i))
    \<and> (lane_state l = Draining \<longrightarrow>
        (worker_at l = Idle_Worker \<longrightarrow>
           worker_ready l \<or> (fifo l = [] \<and> continuations l \<noteq> []
             \<and> (\<forall>i \<in> set (continuations l). phase (ticket_states l i) = Parked \<and> \<not> close_turn_pending (ticket_states l i))))
        \<and> (\<forall>l'. worker_at l = Idle_Worker \<and> worker_ready l \<and> worker_next l = Inr l' \<longrightarrow> drain_work l' < drain_work l)
        \<and> (\<forall>node s a l'. worker_at l = Executing node s \<and> a \<noteq> Queue \<and> worker_finish a l = Inr l'
             \<longrightarrow> drain_work l' < drain_work l))"
proof -
  have inv: "lane_inv l" by (rule lane_sys.reachable_inv [OF assms])
  have "phase (ticket_states (snd (stop_admission_for_close False l)) i) \<in> {Queued, Running}
      \<or> owed_turn (snd (stop_admission_for_close False l)) i"
    if "lane_state l = Accepting" "i \<in> set (continuations l)" for i
    using lane_invD(5) [OF inv] that tickets_invD(2) [OF lane_invD(2) [OF inv] that(2)]
    by (cases "phase (ticket_states l i)")
      (simp_all add: stop_admission_for_close_def owed_turn_def close_inv_def u64_max_def ticket_ok_def)
  then show ?thesis
    using idle_drain [OF inv] drain_work_next [OF inv] drain_work_finish [OF inv] unfolding Let_def
    by (metis LaneState.distinct(1))
qed

theorem lane_drains_witness:
  "let l = snd (stop_admission_for_close False demo_open_lane) in
     lane_state l = Draining \<and> (\<forall>l'. worker_next l = Inr l' \<longrightarrow> drain_work l' < drain_work l)"
proof -
  have "worker_ready (snd (stop_admission_for_close False demo_open_lane))"
    by (simp add: worker_ready_def demo_draining_state)
  then show ?thesis
    using lane_drains [OF demo_draining_lane] demo_draining_state unfolding Let_def by blast
qed

end
