(* ===== verification/RequestCoordinator.thy ===== *)
theory RequestCoordinator
  imports Supersession StateExecutor
begin

text \<open>
  \<open>ComputeRequestCoordinator\<close> (\<open>src/lib/compute/compute_request_coordinator.cpp\<close>): latest-wins
  admission of compute requests per lineage key. Each operation of the model is one critical
  section of the code; the callbacks a candidate carries appear as events of a log. A
  reservation of the compute lane (a continuation ticket) is a number; \<open>live_tickets\<close> maps the
  ones reserved and not retired to the key their callback pumps. Which live ticket gets a
  turn, and when, is left open.
\<close>

section \<open>State\<close>

type_synonym identity = "SupersessionKey \<times> u64"

record LineageRow =
  current_generation :: "u64 option"
  ticket :: "nat option"
  pending :: "identity option"
  active :: "identity option"
  provisional_adopters :: nat
  reservation_in_progress :: bool

definition new_row :: LineageRow where
  "new_row = \<lparr>current_generation = None, ticket = None, pending = None, active = None,
     provisional_adopters = 0, reservation_in_progress = False\<rparr>"

text \<open>
  Where a thread that called \<open>prepare\<close> stands: waiting for another thread's reservation,
  reserving the ticket itself, or holding the returned \<open>PreparedCandidate\<close>.
\<close>

datatype holder_role = Waiting | Reserving | Prepared

datatype settlement = Executed | Execution_Failed | Settled_Superseded | Settled_Failed

datatype coord_event = Cancel_Superseded identity | Settle settlement identity

record Coordinator =
  accepting :: bool
  allocator :: GenerationAllocator
  lineage_rows :: "SupersessionKey \<rightharpoonup> LineageRow"
  active_key :: "SupersessionKey option"
  holders :: "identity \<rightharpoonup> holder_role"
  running :: "(nat \<times> identity) option"
  live_tickets :: "nat \<rightharpoonup> SupersessionKey"
  coord_log :: "coord_event list"

definition size_max :: nat where
  "size_max = 2 ^ 64 - 1"

definition make_coordinator :: "u64 \<Rightarrow> Coordinator res" where
  "make_coordinator first_generation =
     res_bind (make_allocator first_generation) (\<lambda>al.
       Inr \<lparr>accepting = True, allocator = al, lineage_rows = Map.empty, active_key = None,
            holders = Map.empty, running = None, live_tickets = Map.empty, coord_log = []\<rparr>)"

definition idle_row :: "LineageRow \<Rightarrow> bool" where
  "idle_row row \<longleftrightarrow> provisional_adopters row = 0 \<and> pending row = None \<and> active row = None
     \<and> \<not> reservation_in_progress row"

definition set_row :: "SupersessionKey \<Rightarrow> LineageRow \<Rightarrow> Coordinator \<Rightarrow> Coordinator" where
  "set_row k row c = c\<lparr>lineage_rows := (lineage_rows c)(k \<mapsto> row)\<rparr>"

definition erase_row :: "SupersessionKey \<Rightarrow> Coordinator \<Rightarrow> Coordinator" where
  "erase_row k c = c\<lparr>lineage_rows := (lineage_rows c)(k := None)\<rparr>"

definition set_holder :: "identity \<Rightarrow> holder_role option \<Rightarrow> Coordinator \<Rightarrow> Coordinator" where
  "set_holder i role c = c\<lparr>holders := (holders c)(i := role)\<rparr>"

definition retire_ticket :: "nat option \<Rightarrow> Coordinator \<Rightarrow> Coordinator" where
  "retire_ticket t c = (case t of None \<Rightarrow> c | Some n \<Rightarrow> c\<lparr>live_tickets := (live_tickets c)(n := None)\<rparr>)"

definition log_events :: "coord_event list \<Rightarrow> Coordinator \<Rightarrow> Coordinator" where
  "log_events es c = c\<lparr>coord_log := coord_log c @ es\<rparr>"

section \<open>Preparation\<close>

text \<open>The first critical section of \<open>prepare\<close>, up to the wait loop.\<close>

definition prepare_enter :: "SupersessionKey \<Rightarrow> Coordinator \<Rightarrow> u64 res \<times> Coordinator" where
  "prepare_enter k c =
     (if \<not> accepting c then (Inl Runtime_Error, c)
      else case allocate (allocator c) of
        Inl e \<Rightarrow> (Inl e, c)
      | Inr (g, al) \<Rightarrow>
          let row = (case lineage_rows c k of None \<Rightarrow> new_row | Some row \<Rightarrow> row);
              c1 = set_row k row (c\<lparr>allocator := al\<rparr>)
          in if provisional_adopters row = size_max then (Inl Overflow_Error, c1)
             else
               let row1 = row\<lparr>provisional_adopters := provisional_adopters row + 1\<rparr> in
               if ticket row \<noteq> None then (Inr g, set_holder (k, g) (Some Prepared) (set_row k row1 c1))
               else if \<not> reservation_in_progress row
                 then (Inr g, set_holder (k, g) (Some Reserving)
                                (set_row k (row1\<lparr>reservation_in_progress := True\<rparr>) c1))
               else (Inr g, set_holder (k, g) (Some Waiting) (set_row k row1 c1)))"

definition wake_condition :: "SupersessionKey \<Rightarrow> Coordinator \<Rightarrow> bool" where
  "wake_condition k c \<longleftrightarrow>
     \<not> accepting c
     \<or> (case lineage_rows c k of None \<Rightarrow> True | Some row \<Rightarrow> ticket row \<noteq> None \<or> \<not> reservation_in_progress row)"

text \<open>A waiter that the condition variable lets through: one round of the loop of \<open>prepare\<close>.\<close>

definition prepare_wake :: "identity \<Rightarrow> Coordinator \<Rightarrow> unit res \<times> Coordinator" where
  "prepare_wake i c =
     (let k = fst i in
      case lineage_rows c k of
        None \<Rightarrow> (Inl Runtime_Error, set_holder i None c)
      | Some row \<Rightarrow>
          if \<not> accepting c then
            if provisional_adopters row = 0 then (Inl Logic_Error, set_holder i None c)
            else
              let row1 = row\<lparr>provisional_adopters := provisional_adopters row - 1\<rparr> in
              (Inl Runtime_Error, set_holder i None
                 (if idle_row row1 then erase_row k c else set_row k row1 c))
          else if ticket row \<noteq> None then (Inr (), set_holder i (Some Prepared) c)
          else (Inr (), set_holder i (Some Reserving) (set_row k (row\<lparr>reservation_in_progress := True\<rparr>) c)))"

definition reserve_done :: "identity \<Rightarrow> nat \<Rightarrow> Coordinator \<Rightarrow> unit res \<times> Coordinator" where
  "reserve_done i t c =
     (let k = fst i in
      case lineage_rows c k of
        None \<Rightarrow> (Inl Terminate, c)
      | Some row \<Rightarrow>
          if \<not> reservation_in_progress row \<or> ticket row \<noteq> None then (Inl Terminate, c)
          else (Inr (), set_holder i (Some Prepared)
                  (set_row k (row\<lparr>ticket := Some t, reservation_in_progress := False\<rparr>)
                     (c\<lparr>live_tickets := (live_tickets c)(t \<mapsto> k)\<rparr>))))"

definition reserve_failed :: "identity \<Rightarrow> Coordinator \<Rightarrow> unit res \<times> Coordinator" where
  "reserve_failed i c =
     (let k = fst i in
      case lineage_rows c k of
        None \<Rightarrow> (Inr (), set_holder i None c)
      | Some row \<Rightarrow>
          if provisional_adopters row = 0 then (Inl Terminate, c)
          else
            let row1 = row\<lparr>reservation_in_progress := False,
                           provisional_adopters := provisional_adopters row - 1\<rparr> in
            (Inr (), set_holder i None
               (if provisional_adopters row1 = 0 \<and> pending row1 = None \<and> active row1 = None
                then erase_row k c else set_row k row1 c)))"

definition abandon_preparation :: "identity \<Rightarrow> Coordinator \<Rightarrow> unit res \<times> Coordinator" where
  "abandon_preparation i c =
     (let k = fst i in
      case lineage_rows c k of
        None \<Rightarrow> (Inr (), set_holder i None c)
      | Some row \<Rightarrow>
          if provisional_adopters row = 0 then (Inl Logic_Error, c)
          else
            let row1 = row\<lparr>provisional_adopters := provisional_adopters row - 1\<rparr> in
            (Inr (), set_holder i None
               (if idle_row row1 then retire_ticket (ticket row1) (erase_row k c) else set_row k row1 c)))"

section \<open>Publication\<close>

text \<open>
  The graph-state task of \<open>publish\<close>: reject after close, settle a candidate that is older than
  the current generation, or make it the current and pending one, cancelling the active
  candidate and settling the pending one it displaces.
\<close>

definition publish_candidate :: "identity \<Rightarrow> Coordinator \<Rightarrow> unit res \<times> Coordinator" where
  "publish_candidate i c =
     (let (k, g) = i in
      case lineage_rows c k of
        None \<Rightarrow> (Inl Logic_Error, c)
      | Some row \<Rightarrow>
          if provisional_adopters row = 0 then (Inl Logic_Error, c)
          else
            let row1 = row\<lparr>provisional_adopters := provisional_adopters row - 1\<rparr>;
                rejected_by_close = (\<not> accepting c \<or> ticket row1 = None);
                born_superseded = (\<not> rejected_by_close
                  \<and> (case current_generation row1 of None \<Rightarrow> False | Some cur \<Rightarrow> \<not> cur < g))
            in if \<not> rejected_by_close \<and> \<not> born_superseded then
                 (Inr (), log_events
                    ((case active row1 of None \<Rightarrow> [] | Some a \<Rightarrow> [Cancel_Superseded a])
                     @ (case pending row1 of None \<Rightarrow> [] | Some p \<Rightarrow> [Cancel_Superseded p, Settle Settled_Superseded p]))
                    (set_holder i None (set_row k (row1\<lparr>current_generation := Some g, pending := Some i\<rparr>) c)))
               else
                 let c1 = set_holder i None
                            (if idle_row row1 then retire_ticket (ticket row1) (erase_row k c) else set_row k row1 c)
                 in (Inr (), log_events
                       (if rejected_by_close then [Settle Settled_Failed i]
                        else [Cancel_Superseded i, Settle Settled_Superseded i]) c1))"

section \<open>Turns\<close>

text \<open>
  The critical section before \<open>execute\<close>: \<open>Inl\<close> is the action returned without executing,
  \<open>Inr\<close> the candidate to execute.
\<close>

definition pump_claim :: "SupersessionKey \<Rightarrow> nat \<Rightarrow> Coordinator \<Rightarrow> (ContinuationAction + identity) \<times> Coordinator" where
  "pump_claim k t c =
     (case lineage_rows c k of
        None \<Rightarrow> (Inl Retire, retire_ticket (Some t) c)
      | Some row \<Rightarrow>
          if ticket row \<noteq> Some t then (Inl Retire, retire_ticket (Some t) c)
          else case pending row of
            None \<Rightarrow>
              if active row = None \<and> provisional_adopters row = 0
              then (Inl Retire, retire_ticket (Some t) (erase_row k c))
              else (Inl Park, c)
          | Some candidate \<Rightarrow>
              if active_key c \<noteq> None then (Inl Queue, c)
              else (Inr candidate,
                    (set_row k (row\<lparr>pending := None, active := Some candidate\<rparr>) c)
                      \<lparr>active_key := Some k, running := Some (t, candidate)\<rparr>))"

text \<open>After \<open>execute\<close> returned or threw: the last critical section.\<close>

definition pump_finish :: "nat \<Rightarrow> identity \<Rightarrow> bool \<Rightarrow> Coordinator \<Rightarrow> ContinuationAction \<times> Coordinator" where
  "pump_finish t candidate failed c0 =
     (let k = fst candidate;
          c = (log_events [Settle (if failed then Execution_Failed else Executed) candidate] c0)\<lparr>running := None\<rparr>
      in case lineage_rows c k of
           None \<Rightarrow> (Retire, retire_ticket (Some t) c)
         | Some row \<Rightarrow>
             if ticket row \<noteq> Some t \<or> active row \<noteq> Some candidate \<or> active_key c \<noteq> Some k
             then (Retire, retire_ticket (Some t) c)
             else
               let row1 = row\<lparr>active := None\<rparr>; c1 = (set_row k row1 c)\<lparr>active_key := None\<rparr> in
               if pending row1 \<noteq> None then (Queue, c1)
               else if provisional_adopters row1 \<noteq> 0 then (Park, c1)
               else (Retire, retire_ticket (Some t) (erase_row k c1)))"

definition is_current :: "identity \<Rightarrow> Coordinator \<Rightarrow> bool" where
  "is_current i c =
     (case lineage_rows c (fst i) of None \<Rightarrow> False | Some row \<Rightarrow> current_generation row = Some (snd i))"

definition stop_admission :: "Coordinator \<Rightarrow> Coordinator" where
  "stop_admission c = c\<lparr>accepting := False\<rparr>"

section \<open>Steps\<close>

inductive coord_step :: "Coordinator \<Rightarrow> Coordinator \<Rightarrow> bool" where
  enter: "prepare_enter k c = (r, c') \<Longrightarrow> coord_step c c'"
| wake: "holders c i = Some Waiting \<Longrightarrow> wake_condition (fst i) c \<Longrightarrow> prepare_wake i c = (r, c') \<Longrightarrow> coord_step c c'"
| reserved: "holders c i = Some Reserving \<Longrightarrow> live_tickets c t = None \<Longrightarrow> reserve_done i t c = (r, c') \<Longrightarrow> coord_step c c'"
| not_reserved: "holders c i = Some Reserving \<Longrightarrow> reserve_failed i c = (r, c') \<Longrightarrow> coord_step c c'"
| publish: "holders c i = Some Prepared \<Longrightarrow> publish_candidate i c = (r, c') \<Longrightarrow> coord_step c c'"
| abandon: "holders c i = Some Prepared \<Longrightarrow> abandon_preparation i c = (r, c') \<Longrightarrow> coord_step c c'"
| claim: "live_tickets c t = Some k \<Longrightarrow> pump_claim k t c = (a, c') \<Longrightarrow> coord_step c c'"
| finish: "running c = Some (t, candidate) \<Longrightarrow> pump_finish t candidate failed c = (a, c') \<Longrightarrow> coord_step c c'"
| stop: "coord_step c (stop_admission c)"

definition coord_init :: "Coordinator \<Rightarrow> bool" where
  "coord_init c \<longleftrightarrow> (\<exists>g. make_coordinator g = Inr c)"

section \<open>Ownership of rows\<close>

text \<open>
  The part of the state one lineage key owns: its row and the threads inside \<open>prepare\<close> or
  holding a prepared candidate for it. A row exists while anyone holds it and counts its
  holders exactly; at most one holder reserves; a prepared candidate's row has a ticket, and
  that ticket is live.
\<close>

definition row_owned ::
  "LineageRow option \<Rightarrow> (u64 \<rightharpoonup> holder_role) \<Rightarrow> SupersessionKey \<Rightarrow> (nat \<rightharpoonup> SupersessionKey) \<Rightarrow> bool" where
  "row_owned ro h k tickets \<longleftrightarrow>
     finite (dom h)
     \<and> (\<forall>g g'. h g = Some Reserving \<and> h g' = Some Reserving \<longrightarrow> g = g')
     \<and> (case ro of
          None \<Rightarrow> h = Map.empty
        | Some row \<Rightarrow>
            provisional_adopters row = card (dom h)
            \<and> (reservation_in_progress row \<longleftrightarrow> (\<exists>g. h g = Some Reserving))
            \<and> (reservation_in_progress row \<longrightarrow> ticket row = None)
            \<and> (\<forall>g. h g = Some Prepared \<longrightarrow> ticket row \<noteq> None)
            \<and> (\<forall>t. ticket row = Some t \<longrightarrow> tickets t = Some k))"

definition key_holders :: "Coordinator \<Rightarrow> SupersessionKey \<Rightarrow> (u64 \<rightharpoonup> holder_role)" where
  "key_holders c k = (\<lambda>g. holders c (k, g))"

definition ownership_inv :: "Coordinator \<Rightarrow> bool" where
  "ownership_inv c \<longleftrightarrow>
     allocator_ok (allocator c)
     \<and> (\<forall>k g. unissued (allocator c) g \<longrightarrow> holders c (k, g) = None)
     \<and> (\<forall>k. row_owned (lineage_rows c k) (key_holders c k) k (live_tickets c))"

lemma key_holders_upd:
  "(\<lambda>g. ((holders c)(i := r)) (k, g)) = (if k = fst i then (key_holders c k)(snd i := r) else key_holders c k)"
  by (cases i) (auto simp: key_holders_def)

lemma row_owned_tickets:
  assumes "row_owned ro h k tickets" "\<And>t. tickets t = Some k \<Longrightarrow> tickets' t = Some k"
  shows "row_owned ro h k tickets'"
  using assms by (auto simp: row_owned_def split: option.splits)

text \<open>The state updates, seen by one key.\<close>

lemma state_updates [simp]:
  "lineage_rows (set_row k row c) = (lineage_rows c)(k \<mapsto> row)"
  "lineage_rows (erase_row k c) = (lineage_rows c)(k := None)"
  "lineage_rows (set_holder i r c) = lineage_rows c"
  "lineage_rows (retire_ticket t c) = lineage_rows c"
  "lineage_rows (log_events es c) = lineage_rows c"
  "key_holders (set_row k row c) = key_holders c"
  "key_holders (erase_row k c) = key_holders c"
  "key_holders (retire_ticket t c) = key_holders c"
  "key_holders (log_events es c) = key_holders c"
  "key_holders (set_holder i r c) k' = (if k' = fst i then (key_holders c k')(snd i := r) else key_holders c k')"
  "live_tickets (set_row k row c) = live_tickets c"
  "live_tickets (erase_row k c) = live_tickets c"
  "live_tickets (set_holder i r c) = live_tickets c"
  "live_tickets (log_events es c) = live_tickets c"
  "live_tickets (retire_ticket t c) = (case t of None \<Rightarrow> live_tickets c | Some n \<Rightarrow> (live_tickets c)(n := None))"
  "allocator (set_row k row c) = allocator c" "allocator (erase_row k c) = allocator c"
  "allocator (set_holder i r c) = allocator c" "allocator (retire_ticket t c) = allocator c"
  "allocator (log_events es c) = allocator c"
  "holders (set_row k row c) = holders c" "holders (erase_row k c) = holders c"
  "holders (retire_ticket t c) = holders c" "holders (log_events es c) = holders c"
  "holders (set_holder i r c) = (holders c)(i := r)"
  "accepting (set_row k row c) = accepting c" "accepting (erase_row k c) = accepting c"
  "accepting (set_holder i r c) = accepting c" "accepting (retire_ticket t c) = accepting c"
  "accepting (log_events es c) = accepting c"
  "active_key (set_row k row c) = active_key c" "active_key (erase_row k c) = active_key c"
  "active_key (set_holder i r c) = active_key c" "active_key (retire_ticket t c) = active_key c"
  "active_key (log_events es c) = active_key c"
  "running (set_row k row c) = running c" "running (erase_row k c) = running c"
  "running (set_holder i r c) = running c" "running (retire_ticket t c) = running c"
  "running (log_events es c) = running c"
  "coord_log (set_row k row c) = coord_log c" "coord_log (erase_row k c) = coord_log c"
  "coord_log (set_holder i r c) = coord_log c" "coord_log (retire_ticket t c) = coord_log c"
  "coord_log (log_events es c) = coord_log c @ es"
  by (auto simp: set_row_def erase_row_def set_holder_def retire_ticket_def log_events_def key_holders_def
      prod_eq_iff fun_eq_iff split: option.splits)

lemma key_holders_update [simp]:
  "key_holders (c\<lparr>live_tickets := ts\<rparr>) = key_holders c" "key_holders (c\<lparr>allocator := al\<rparr>) = key_holders c"
  "key_holders (c\<lparr>active_key := ak\<rparr>) = key_holders c" "key_holders (c\<lparr>running := ru\<rparr>) = key_holders c"
  "key_holders (c\<lparr>accepting := b\<rparr>) = key_holders c"
  by (simp_all add: key_holders_def fun_eq_iff)

text \<open>A holder leaves or joins a row.\<close>

lemma row_owned_join:
  assumes own: "row_owned (Some row) h k tickets" and new: "h g = None"
    and row': "provisional_adopters row' = Suc (provisional_adopters row)" "ticket row' = ticket row"
    and role: "case role of Prepared \<Rightarrow> ticket row \<noteq> None \<and> reservation_in_progress row' = reservation_in_progress row
      | Reserving \<Rightarrow> ticket row = None \<and> \<not> reservation_in_progress row \<and> reservation_in_progress row'
      | Waiting \<Rightarrow> reservation_in_progress row' = reservation_in_progress row"
  shows "row_owned (Some row') (h(g \<mapsto> role)) k tickets"
proof -
  have "card (dom (h(g \<mapsto> role))) = Suc (card (dom h))"
    using own new by (simp add: row_owned_def domIff)
  moreover have "h g' \<noteq> Some Reserving" if "role = Reserving" for g'
    using own role that by (simp add: row_owned_def)
  moreover have "h g' = Some Reserving \<Longrightarrow> g' \<noteq> g" for g' using new by auto
  ultimately show ?thesis
    using own row' role unfolding row_owned_def
    by (cases role) (auto split: if_splits)
qed

lemma row_owned_leave:
  assumes own: "row_owned (Some row) h k tickets" and held: "h g = Some role" "role \<noteq> Reserving"
    and row': "provisional_adopters row' = provisional_adopters row - 1" "ticket row' = ticket row"
      "reservation_in_progress row' = reservation_in_progress row"
  shows "row_owned (Some row') (h(g := None)) k tickets"
proof -
  have "card (dom (h(g := None))) = card (dom h) - 1"
    using own held(1) by (simp add: row_owned_def domI card_Diff_singleton)
  moreover have "(\<exists>g'. (h(g := None)) g' = Some Reserving) \<longleftrightarrow> (\<exists>g'. h g' = Some Reserving)"
    using held by (auto split: if_splits) (metis option.inject)
  ultimately show ?thesis
    using own row' unfolding row_owned_def by (auto split: if_splits)
qed

lemma ownership_local:
  assumes inv: "ownership_inv c" and al: "allocator_ok (allocator c')"
    and issued: "\<And>g. unissued (allocator c') g \<Longrightarrow> unissued (allocator c) g"
    and others: "\<And>k'. k' \<noteq> k \<Longrightarrow> lineage_rows c' k' = lineage_rows c k' \<and> key_holders c' k' = key_holders c k'"
    and tickets: "\<And>k' t. k' \<noteq> k \<Longrightarrow> live_tickets c t = Some k' \<Longrightarrow> live_tickets c' t = Some k'"
    and fresh: "\<And>g. unissued (allocator c') g \<Longrightarrow> key_holders c' k g = None"
    and own: "row_owned (lineage_rows c' k) (key_holders c' k) k (live_tickets c')"
  shows "ownership_inv c'"
  unfolding ownership_inv_def
proof (intro conjI allI impI al)
  fix k' g assume "unissued (allocator c') g"
  with inv issued fresh others [of k'] show "holders c' (k', g) = None"
    by (cases "k' = k") (auto simp: ownership_inv_def key_holders_def fun_eq_iff)
next
  fix k' show "row_owned (lineage_rows c' k') (key_holders c' k') k' (live_tickets c')"
  proof (cases "k' = k")
    case False
    then have "row_owned (lineage_rows c' k') (key_holders c' k') k' (live_tickets c)"
      using inv others by (simp add: ownership_inv_def)
    then show ?thesis by (rule row_owned_tickets) (use tickets False in blast)
  qed (use own in simp)
qed

lemma ownership_row:
  assumes "ownership_inv c"
  shows "row_owned (lineage_rows c k) (key_holders c k) k (live_tickets c)"
    "unissued (allocator c) g \<Longrightarrow> key_holders c k g = None" "allocator_ok (allocator c)"
  using assms by (simp_all add: ownership_inv_def key_holders_def)

lemma row_owned_new: "row_owned (Some new_row) Map.empty k tickets"
  by (simp add: row_owned_def new_row_def)

lemma row_owned_absent: "row_owned None h k tickets \<Longrightarrow> h = Map.empty"
  by (simp add: row_owned_def)

lemma row_owned_present: "row_owned ro h k tickets \<Longrightarrow> h g \<noteq> None \<Longrightarrow> \<exists>row. ro = Some row \<and> 0 < provisional_adopters row"
  by (cases ro) (auto simp: row_owned_def card_gt_0_iff)

text \<open>A row with no holders left may be erased, with its ticket.\<close>

lemma row_owned_erase:
  "row_owned (Some row) h k tickets \<Longrightarrow> provisional_adopters row = 0 \<Longrightarrow> row_owned None h k tickets'"
  by (auto simp: row_owned_def card_eq_0_iff)

lemma ownership_enter:
  assumes inv: "ownership_inv c" and step: "prepare_enter k c = (r, c')"
  shows "ownership_inv c'"
proof (cases "accepting c")
  case False
  with step inv show ?thesis by (simp add: prepare_enter_def)
next
  case True
  let ?row = "case lineage_rows c k of None \<Rightarrow> new_row | Some row \<Rightarrow> row"
  have own: "row_owned (Some ?row) (key_holders c k) k (live_tickets c)"
    using ownership_row(1) [OF inv, of k] row_owned_new row_owned_absent
    by (cases "lineage_rows c k") auto
  show ?thesis
  proof (cases "allocate (allocator c)")
    case (Inl e)
    with step True inv show ?thesis by (simp add: prepare_enter_def)
  next
    case (Inr x)
    then obtain g al where al: "allocate (allocator c) = Inr (g, al)" by (cases x) auto
    note f = allocate_Inr [OF al ownership_row(3) [OF inv]]
    have new: "key_holders c k g = None" using ownership_row(2) [OF inv f(1)] .
    let ?row1 = "?row\<lparr>provisional_adopters := provisional_adopters ?row + 1\<rparr>"
    show ?thesis
    proof (rule ownership_local [OF inv, where k = k])
      show "row_owned (lineage_rows c' k) (key_holders c' k) k (live_tickets c')"
        using step True al own row_owned_join [OF own new, of ?row1 Prepared]
          row_owned_join [OF own new, of "?row1\<lparr>reservation_in_progress := True\<rparr>" Reserving]
          row_owned_join [OF own new, of ?row1 Waiting]
        by (simp add: prepare_enter_def Let_def split: if_splits) auto
    qed (use step True al f ownership_row(2) [OF inv] in
        \<open>auto simp: prepare_enter_def Let_def split: if_splits\<close>)
  qed
qed

text \<open>A holder of a key: its row, with at least this holder counted.\<close>

lemma holder_row:
  assumes "ownership_inv c" "holders c (k, g) = Some role"
  obtains row where "lineage_rows c k = Some row" "0 < provisional_adopters row"
    "row_owned (Some row) (key_holders c k) k (live_tickets c)" "key_holders c k g = Some role"
proof -
  have h: "key_holders c k g = Some role" using assms(2) by (simp add: key_holders_def)
  with row_owned_present [OF ownership_row(1) [OF assms(1), of k], of g] ownership_row(1) [OF assms(1), of k] that
  show ?thesis by auto
qed

text \<open>
  The operations by which a holder leaves: the row loses one adopter and is erased when
  idle, its ticket retired or not.
\<close>

lemma ownership_leave:
  assumes inv: "ownership_inv c" and h: "holders c (k, g) = Some role" "role \<noteq> Reserving"
    and row: "lineage_rows c k = Some row"
    and row': "provisional_adopters row' = provisional_adopters row - 1" "ticket row' = ticket row"
      "reservation_in_progress row' = reservation_in_progress row"
    and c': "key_holders c' = key_holders (set_holder (k, g) None c)" "allocator c' = allocator c"
    and rows: "lineage_rows c' = (lineage_rows c)(k := (if gone then None else Some row'))"
    and gone: "gone \<Longrightarrow> provisional_adopters row' = 0"
    and tickets: "live_tickets c' = (if gone \<and> retired then (case ticket row of None \<Rightarrow> live_tickets c
        | Some n \<Rightarrow> (live_tickets c)(n := None)) else live_tickets c)"
  shows "ownership_inv c'"
proof (rule ownership_local [OF inv, where k = k])
  obtain own: "row_owned (Some row) (key_holders c k) k (live_tickets c)" "key_holders c k g = Some role"
    by (rule holder_row [OF inv h(1)]) (use row in auto)
  have own1: "row_owned (Some row') ((key_holders c k)(g := None)) k (live_tickets c)"
    by (rule row_owned_leave [OF own h(2) row'])
  show "row_owned (lineage_rows c' k) (key_holders c' k) k (live_tickets c')"
    using own1 row_owned_erase [OF own1] gone tickets by (auto simp: rows c')
  show "live_tickets c' t = Some k'" if "k' \<noteq> k" "live_tickets c t = Some k'" for k' t
    using that own(1) tickets by (auto simp: row_owned_def split: option.splits if_splits)
qed (use ownership_row(2,3) [OF inv] rows in \<open>auto simp: c'\<close>)

lemma ownership_wake:
  assumes inv: "ownership_inv c" and h: "holders c i = Some Waiting" "wake_condition (fst i) c"
    and step: "prepare_wake i c = (r, c')"
  shows "ownership_inv c'"
proof -
  obtain k g where i: "i = (k, g)" by (cases i)
  obtain row where row: "lineage_rows c k = Some row" "0 < provisional_adopters row"
    and own: "row_owned (Some row) (key_holders c k) k (live_tickets c)" "key_holders c k g = Some Waiting"
    using holder_row [OF inv, of k g] h(1) i by auto
  let ?row1 = "row\<lparr>provisional_adopters := provisional_adopters row - 1\<rparr>"
  show ?thesis
  proof (cases "accepting c")
    case False
    then have c': "c' = set_holder (k, g) None (if idle_row ?row1 then erase_row k c else set_row k ?row1 c)"
      using step row by (auto simp: prepare_wake_def i Let_def)
    show ?thesis
      by (rule ownership_leave [OF inv, where k = k and g = g and row = row and row' = ?row1
            and gone = "idle_row ?row1" and retired = False])
        (use h row in \<open>auto simp: i c' idle_row_def split: option.split\<close>)
  next
    case True
    have dom: "insert g (dom (key_holders c k)) = dom (key_holders c k)"
      using own(2) by auto
    show ?thesis
    proof (rule ownership_local [OF inv, where k = k])
      show "row_owned (lineage_rows c' k) (key_holders c' k) k (live_tickets c')"
      proof (cases "ticket row")
        case None
        with True step row h have c': "c' = set_holder (k, g) (Some Reserving)
            (set_row k (row\<lparr>reservation_in_progress := True\<rparr>) c)" "\<not> reservation_in_progress row"
          by (auto simp: prepare_wake_def wake_condition_def i Let_def)
        with own None show ?thesis
          unfolding row_owned_def by (auto simp: dom split: if_splits)
      next
        case (Some t)
        with True step row have c': "c' = set_holder (k, g) (Some Prepared) c"
          by (auto simp: prepare_wake_def i Let_def)
        with own Some row(1) show ?thesis
          unfolding row_owned_def by (auto simp: dom split: if_splits)
      qed
    qed (use step row True ownership_row(2,3) [OF inv] own(2) in
        \<open>auto simp: prepare_wake_def i Let_def split: if_splits\<close>)
  qed
qed

lemma ownership_reserved:
  assumes inv: "ownership_inv c" and h: "holders c i = Some Reserving" "live_tickets c t = None"
    and step: "reserve_done i t c = (r, c')"
  shows "ownership_inv c'" "r = Inr ()"
proof -
  obtain k g where i: "i = (k, g)" by (cases i)
  obtain row where row: "lineage_rows c k = Some row" "0 < provisional_adopters row"
    and own: "row_owned (Some row) (key_holders c k) k (live_tickets c)" "key_holders c k g = Some Reserving"
    using holder_row [OF inv, of k g] h(1) i by auto
  have busy: "reservation_in_progress row" "ticket row = None"
    using own by (auto simp: row_owned_def)
  then have r: "r = Inr ()" and c': "c' = set_holder (k, g) (Some Prepared)
      (set_row k (row\<lparr>ticket := Some t, reservation_in_progress := False\<rparr>)
        (c\<lparr>live_tickets := (live_tickets c)(t \<mapsto> k)\<rparr>))"
    using step row by (auto simp: reserve_done_def i Let_def)
  show "r = Inr ()" by (rule r)
  have dom: "insert g (dom (key_holders c k)) = dom (key_holders c k)" using own(2) by auto
  have uniq: "key_holders c k g' = Some Reserving \<Longrightarrow> g' = g" for g'
    using own unfolding row_owned_def by blast
  show "ownership_inv c'"
  proof (rule ownership_local [OF inv, where k = k])
    show "row_owned (lineage_rows c' k) (key_holders c' k) k (live_tickets c')"
      using own uniq unfolding row_owned_def c' by (auto simp: dom)
  qed (use h ownership_row(2,3) [OF inv] own(2) in \<open>auto simp: c'\<close>)
qed

lemma ownership_not_reserved:
  assumes inv: "ownership_inv c" and h: "holders c i = Some Reserving"
    and step: "reserve_failed i c = (r, c')"
  shows "ownership_inv c'" "r = Inr ()"
proof -
  obtain k g where i: "i = (k, g)" by (cases i)
  obtain row where row: "lineage_rows c k = Some row" "0 < provisional_adopters row"
    and own: "row_owned (Some row) (key_holders c k) k (live_tickets c)" "key_holders c k g = Some Reserving"
    using holder_row [OF inv, of k g] h(1) i by auto
  let ?row1 = "row\<lparr>reservation_in_progress := False, provisional_adopters := provisional_adopters row - 1\<rparr>"
  let ?gone = "provisional_adopters ?row1 = 0 \<and> pending ?row1 = None \<and> active ?row1 = None"
  have r: "r = Inr ()" and c': "c' = set_holder (k, g) None (if ?gone then erase_row k c else set_row k ?row1 c)"
    using step row by (auto simp: reserve_failed_def i Let_def)
  show "r = Inr ()" by (rule r)
  have card: "card (dom ((key_holders c k)(g := None))) = card (dom (key_holders c k)) - 1"
    using own by (simp add: row_owned_def domI card_Diff_singleton)
  have uniq: "key_holders c k g' = Some Reserving \<Longrightarrow> g' = g" for g'
    using own unfolding row_owned_def by blast
  have own1: "row_owned (Some ?row1) ((key_holders c k)(g := None)) k (live_tickets c)"
    using own(1) uniq card unfolding row_owned_def by (auto split: if_splits)
  show "ownership_inv c'"
  proof (rule ownership_local [OF inv, where k = k])
    show "row_owned (lineage_rows c' k) (key_holders c' k) k (live_tickets c')"
      using own1 row_owned_erase [OF own1] by (auto simp: c')
  qed (use ownership_row(2,3) [OF inv] in \<open>auto simp: c' split: if_splits\<close>)
qed

lemma ownership_abandon:
  assumes inv: "ownership_inv c" and h: "holders c i = Some Prepared"
    and step: "abandon_preparation i c = (r, c')"
  shows "ownership_inv c'" "r = Inr ()"
proof -
  obtain k g where i: "i = (k, g)" by (cases i)
  obtain row where row: "lineage_rows c k = Some row" "0 < provisional_adopters row"
    using holder_row [OF inv, of k g] h(1) i by auto
  let ?row1 = "row\<lparr>provisional_adopters := provisional_adopters row - 1\<rparr>"
  have r: "r = Inr ()" and c': "c' = set_holder (k, g) None
      (if idle_row ?row1 then retire_ticket (ticket ?row1) (erase_row k c) else set_row k ?row1 c)"
    using step row by (auto simp: abandon_preparation_def i Let_def)
  show "r = Inr ()" by (rule r)
  show "ownership_inv c'"
    by (rule ownership_leave [OF inv, where k = k and g = g and row = row and row' = ?row1
          and gone = "idle_row ?row1" and retired = True])
      (use h row in \<open>auto simp: i c' idle_row_def split: option.split\<close>)
qed

text \<open>The three outcomes of a publication.\<close>

lemma publish_cases:
  assumes inv: "ownership_inv c" and h: "holders c (k, g) = Some Prepared"
    and step: "publish_candidate (k, g) c = (r, c')"
  obtains row where "lineage_rows c k = Some row" "0 < provisional_adopters row" "ticket row \<noteq> None" "r = Inr ()"
    "accepting c" "\<forall>cur. current_generation row = Some cur \<longrightarrow> cur < g"
    "c' = log_events
        ((case active row of None \<Rightarrow> [] | Some a \<Rightarrow> [Cancel_Superseded a])
         @ (case pending row of None \<Rightarrow> [] | Some p \<Rightarrow> [Cancel_Superseded p, Settle Settled_Superseded p]))
        (set_holder (k, g) None (set_row k (row\<lparr>provisional_adopters := provisional_adopters row - 1,
           current_generation := Some g, pending := Some (k, g)\<rparr>) c))"
  | row s pre where "lineage_rows c k = Some row" "0 < provisional_adopters row" "ticket row \<noteq> None" "r = Inr ()"
    "set pre \<subseteq> {Cancel_Superseded (k, g)}"
    "c' = log_events (pre @ [Settle s (k, g)]) (set_holder (k, g) None
        (if idle_row (row\<lparr>provisional_adopters := provisional_adopters row - 1\<rparr>)
         then retire_ticket (ticket row) (erase_row k c)
         else set_row k (row\<lparr>provisional_adopters := provisional_adopters row - 1\<rparr>) c))"
proof -
  obtain row where row: "lineage_rows c k = Some row" "0 < provisional_adopters row"
    and own: "row_owned (Some row) (key_holders c k) k (live_tickets c)" "key_holders c k g = Some Prepared"
    by (rule holder_row [OF inv h])
  then have t: "ticket row \<noteq> None" by (auto simp: row_owned_def)
  consider (current) "accepting c" "\<forall>cur. current_generation row = Some cur \<longrightarrow> cur < g"
    | (closed) "\<not> accepting c"
    | (old) cur where "accepting c" "current_generation row = Some cur" "\<not> cur < g" by blast
  then show thesis
  proof cases
    case current
    then show ?thesis
      using step row t by (intro that(1) [of row]) (auto simp: publish_candidate_def Let_def split: option.splits)
  next
    case closed
    then show ?thesis
      using step row t by (intro that(2) [of row "[]" Settled_Failed]) (auto simp: publish_candidate_def Let_def)
  next
    case old
    then show ?thesis
      using step row t by (intro that(2) [of row "[Cancel_Superseded (k, g)]" Settled_Superseded])
        (auto simp: publish_candidate_def Let_def)
  qed
qed

lemma ownership_publish:
  assumes inv: "ownership_inv c" and h: "holders c i = Some Prepared"
    and step: "publish_candidate i c = (r, c')"
  shows "ownership_inv c'" "r = Inr ()"
proof -
  obtain k g where i: "i = (k, g)" by (cases i)
  note cases = publish_cases [OF inv h [unfolded i] step [unfolded i]]
  show "r = Inr ()" by (rule cases)
  show "ownership_inv c'"
  proof (rule cases)
    fix row :: LineageRow
    let ?row1 = "row\<lparr>provisional_adopters := provisional_adopters row - 1, current_generation := Some g,
      pending := Some (k, g)\<rparr>"
    assume row: "lineage_rows c k = Some row" and c': "c' = log_events
        ((case active row of None \<Rightarrow> [] | Some a \<Rightarrow> [Cancel_Superseded a])
         @ (case pending row of None \<Rightarrow> [] | Some p \<Rightarrow> [Cancel_Superseded p, Settle Settled_Superseded p]))
        (set_holder (k, g) None (set_row k ?row1 c))"
    show ?thesis
      by (rule ownership_leave [OF inv, where k = k and g = g and row = row and row' = ?row1
            and gone = False and retired = False])
        (use h row in \<open>auto simp: i c'\<close>)
  next
    fix row :: LineageRow and s :: settlement and pre :: "coord_event list"
    let ?row1 = "row\<lparr>provisional_adopters := provisional_adopters row - 1\<rparr>"
    assume row: "lineage_rows c k = Some row" and c': "c' = log_events (pre @ [Settle s (k, g)])
        (set_holder (k, g) None (if idle_row ?row1 then retire_ticket (ticket row) (erase_row k c)
           else set_row k ?row1 c))"
    show ?thesis
      by (rule ownership_leave [OF inv, where k = k and g = g and row = row and row' = ?row1
            and gone = "idle_row ?row1" and retired = True])
        (use h row in \<open>auto simp: i c' idle_row_def split: option.split\<close>)
  qed
qed

text \<open>A turn changes only its own key's row, and erases it only without holders.\<close>

lemma ownership_turn:
  assumes inv: "ownership_inv c" and al: "allocator c' = allocator c" and kh: "key_holders c' = key_holders c"
    and row: "lineage_rows c k = Some row" "ticket row = Some t"
    and rows: "lineage_rows c' = (lineage_rows c)(k := (if gone then None else Some row'))"
    and row': "provisional_adopters row' = provisional_adopters row" "ticket row' = ticket row"
      "reservation_in_progress row' = reservation_in_progress row"
    and gone: "gone \<Longrightarrow> provisional_adopters row = 0"
    and tickets: "live_tickets c' = (if gone then (live_tickets c)(t := None) else live_tickets c)"
  shows "ownership_inv c'"
proof (rule ownership_local [OF inv, where k = k])
  have own: "row_owned (Some row) (key_holders c k) k (live_tickets c)"
    using ownership_row(1) [OF inv, of k] row by simp
  then have own': "row_owned (Some row') (key_holders c k) k (live_tickets c)"
    using row' by (simp add: row_owned_def)
  show "row_owned (lineage_rows c' k) (key_holders c' k) k (live_tickets c')"
    using own' row_owned_erase [OF own] gone tickets by (auto simp: rows kh)
  show "live_tickets c' t' = Some k'" if "k' \<noteq> k" "live_tickets c t' = Some k'" for k' t'
    using that own row tickets by (auto simp: row_owned_def)
qed (use ownership_row(2,3) [OF inv] rows in \<open>auto simp: al kh\<close>)

text \<open>A turn of a ticket its key's row does not have changes nothing but the ticket.\<close>

lemma ownership_foreign_ticket:
  assumes inv: "ownership_inv c" and live: "live_tickets c t = Some k"
    and row: "\<And>row. lineage_rows c k = Some row \<Longrightarrow> ticket row \<noteq> Some t"
    and c': "allocator c' = allocator c" "key_holders c' = key_holders c" "lineage_rows c' = lineage_rows c"
      "live_tickets c' = (live_tickets c)(t := None)"
  shows "ownership_inv c'"
proof (rule ownership_local [OF inv, where k = k])
  have "row_owned (lineage_rows c k) (key_holders c k) k (live_tickets c)" by (rule ownership_row(1) [OF inv])
  with row show "row_owned (lineage_rows c' k) (key_holders c' k) k (live_tickets c')"
    by (auto simp: c' row_owned_def split: option.splits)
qed (use ownership_row(2,3) [OF inv] live in \<open>auto simp: c'\<close>)

lemma ownership_claim:
  assumes inv: "ownership_inv c" and live: "live_tickets c t = Some k" and step: "pump_claim k t c = (a, c')"
  shows "ownership_inv c'"
proof (cases "\<exists>row. lineage_rows c k = Some row \<and> ticket row = Some t")
  case False
  with step have c': "c' = retire_ticket (Some t) c"
    by (auto simp: pump_claim_def split: option.splits)
  show ?thesis
    by (rule ownership_foreign_ticket [OF inv live]) (use False in \<open>auto simp: c'\<close>)
next
  case True
  then obtain row where row: "lineage_rows c k = Some row" "ticket row = Some t" by blast
  show ?thesis
  proof (cases "pending row")
    case None
    show ?thesis
      by (rule ownership_turn [OF inv, where k = k and row = row and t = t and row' = row
            and gone = "active row = None \<and> provisional_adopters row = 0"])
        (use step row None in \<open>auto simp: pump_claim_def fun_upd_idem split: if_splits\<close>)
  next
    case (Some candidate)
    show ?thesis
      by (rule ownership_turn [OF inv, where k = k and row = row and t = t and gone = False
            and row' = "if active_key c \<noteq> None then row else row\<lparr>pending := None, active := Some candidate\<rparr>"])
        (use step row Some in \<open>auto simp: pump_claim_def fun_upd_idem split: if_splits\<close>)
  qed
qed

section \<open>Candidates\<close>

text \<open>
  What a row says about candidates, absent rows included. The pending candidate is the
  current generation; the active one is the one being executed and, once a newer generation
  is current, has been told so; at most one key is active.
\<close>

definition row_pending :: "LineageRow option \<Rightarrow> identity option" where
  "row_pending ro = (case ro of None \<Rightarrow> None | Some row \<Rightarrow> pending row)"

definition row_active :: "LineageRow option \<Rightarrow> identity option" where
  "row_active ro = (case ro of None \<Rightarrow> None | Some row \<Rightarrow> active row)"

definition row_current :: "LineageRow option \<Rightarrow> u64 option" where
  "row_current ro = (case ro of None \<Rightarrow> None | Some row \<Rightarrow> current_generation row)"

definition row_ticket :: "LineageRow option \<Rightarrow> nat option" where
  "row_ticket ro = (case ro of None \<Rightarrow> None | Some row \<Rightarrow> ticket row)"

lemmas row_view_defs = row_pending_def row_active_def row_current_def row_ticket_def

lemma row_view_simps [simp]:
  "row_pending None = None" "row_active None = None" "row_current None = None" "row_ticket None = None"
  "row_pending (Some row) = pending row" "row_active (Some row) = active row"
  "row_current (Some row) = current_generation row" "row_ticket (Some row) = ticket row"
  by (simp_all add: row_view_defs)

definition row_candidates ::
  "LineageRow option \<Rightarrow> SupersessionKey \<Rightarrow> SupersessionKey option \<Rightarrow> (nat \<times> identity) option \<Rightarrow> coord_event list \<Rightarrow> bool" where
  "row_candidates ro k ak run events \<longleftrightarrow>
     (\<forall>i. row_pending ro = Some i \<longrightarrow>
        fst i = k \<and> row_current ro = Some (snd i) \<and> row_ticket ro \<noteq> None \<and> row_active ro \<noteq> Some i)
     \<and> (case row_active ro of
          None \<Rightarrow> ak \<noteq> Some k
        | Some i \<Rightarrow>
            fst i = k \<and> ak = Some k \<and> (\<exists>t. row_ticket ro = Some t \<and> run = Some (t, i))
            \<and> (\<exists>cur. row_current ro = Some cur \<and> snd i \<le> cur
                 \<and> (snd i \<noteq> cur \<longrightarrow> Cancel_Superseded i \<in> set events)))"

definition candidate_inv :: "Coordinator \<Rightarrow> bool" where
  "candidate_inv c \<longleftrightarrow>
     (\<forall>k. row_candidates (lineage_rows c k) k (active_key c) (running c) (coord_log c))
     \<and> (active_key c = None \<longrightarrow> running c = None)
     \<and> (\<forall>k cur. row_current (lineage_rows c k) = Some cur \<longrightarrow> \<not> unissued (allocator c) cur)"

definition settles :: "identity \<Rightarrow> coord_event \<Rightarrow> bool" where
  "settles i e = (case e of Settle _ j \<Rightarrow> j = i | Cancel_Superseded _ \<Rightarrow> False)"

definition settled_count :: "identity \<Rightarrow> Coordinator \<Rightarrow> nat" where
  "settled_count i c = length (filter (settles i) (coord_log c))"

definition in_flight :: "identity \<Rightarrow> Coordinator \<Rightarrow> bool" where
  "in_flight i c \<longleftrightarrow>
     row_pending (lineage_rows c (fst i)) = Some i \<or> row_active (lineage_rows c (fst i)) = Some i"

definition settlement_inv :: "Coordinator \<Rightarrow> bool" where
  "settlement_inv c \<longleftrightarrow>
     (\<forall>i. settled_count i c \<le> 1
        \<and> (holders c i \<noteq> None \<or> in_flight i c \<longrightarrow> settled_count i c = 0)
        \<and> (holders c i \<noteq> None \<longrightarrow> \<not> in_flight i c)
        \<and> (unissued (allocator c) (snd i) \<longrightarrow> \<not> in_flight i c \<and> settled_count i c = 0))"

text \<open>Steps that move no candidate.\<close>

definition quiet :: "Coordinator \<Rightarrow> Coordinator \<Rightarrow> bool" where
  "quiet c c' \<longleftrightarrow>
     active_key c' = active_key c \<and> running c' = running c \<and> coord_log c' = coord_log c
     \<and> (\<forall>g. unissued (allocator c') g \<longrightarrow> unissued (allocator c) g)
     \<and> (\<forall>i. holders c' i \<noteq> None \<longrightarrow>
          holders c i \<noteq> None \<or> (unissued (allocator c) (snd i) \<and> \<not> unissued (allocator c') (snd i)))
     \<and> (\<forall>k. row_pending (lineage_rows c' k) = row_pending (lineage_rows c k)
          \<and> row_active (lineage_rows c' k) = row_active (lineage_rows c k)
          \<and> (\<forall>cur. row_current (lineage_rows c' k) = Some cur \<longrightarrow> row_current (lineage_rows c k) = Some cur)
          \<and> (row_pending (lineage_rows c k) \<noteq> None \<or> row_active (lineage_rows c k) \<noteq> None \<longrightarrow>
               row_current (lineage_rows c' k) = row_current (lineage_rows c k)
               \<and> row_ticket (lineage_rows c' k) = row_ticket (lineage_rows c k)))"

lemma quietD:
  assumes "quiet c c'"
  shows "active_key c' = active_key c" "running c' = running c" "coord_log c' = coord_log c"
    "unissued (allocator c') g \<Longrightarrow> unissued (allocator c) g"
    "holders c' i \<noteq> None \<Longrightarrow> holders c i \<noteq> None \<or> unissued (allocator c) (snd i)"
    "unissued (allocator c') (snd i) \<Longrightarrow> holders c' i \<noteq> None \<Longrightarrow> holders c i \<noteq> None"
    "row_pending (lineage_rows c' k) = row_pending (lineage_rows c k)"
    "row_active (lineage_rows c' k) = row_active (lineage_rows c k)"
    "row_current (lineage_rows c' k) = Some cur \<Longrightarrow> row_current (lineage_rows c k) = Some cur"
    "row_pending (lineage_rows c k) \<noteq> None \<or> row_active (lineage_rows c k) \<noteq> None \<Longrightarrow>
      row_current (lineage_rows c' k) = row_current (lineage_rows c k)
      \<and> row_ticket (lineage_rows c' k) = row_ticket (lineage_rows c k)"
  using assms unfolding quiet_def by blast+

lemma quiet_candidates:
  assumes inv: "candidate_inv c" and q: "quiet c c'"
  shows "candidate_inv c'"
  unfolding candidate_inv_def
proof (intro conjI allI impI)
  fix k
  have old: "row_candidates (lineage_rows c k) k (active_key c) (running c) (coord_log c)"
    using inv unfolding candidate_inv_def by blast
  show "row_candidates (lineage_rows c' k) k (active_key c') (running c') (coord_log c')"
  proof (cases "row_pending (lineage_rows c k) = None \<and> row_active (lineage_rows c k) = None")
    case True
    with old show ?thesis unfolding row_candidates_def quietD(1,2,3,7,8) [OF q] by simp
  next
    case False
    with quietD(10) [OF q, of k]
    have eqs: "row_current (lineage_rows c' k) = row_current (lineage_rows c k)"
      "row_ticket (lineage_rows c' k) = row_ticket (lineage_rows c k)" by metis+
    show ?thesis using old unfolding row_candidates_def quietD(1,2,3,7,8) [OF q] eqs .
  qed
next
  assume "active_key c' = None"
  then show "running c' = None"
    using inv unfolding quietD(1,2) [OF q] candidate_inv_def by blast
next
  fix k cur assume "row_current (lineage_rows c' k) = Some cur"
  then have "row_current (lineage_rows c k) = Some cur" by (rule quietD(9) [OF q])
  then have "\<not> unissued (allocator c) cur" using inv unfolding candidate_inv_def by blast
  then show "\<not> unissued (allocator c') cur" using quietD(4) [OF q] by blast
qed

lemma settlementD:
  assumes "settlement_inv c"
  shows "settled_count i c \<le> 1" "holders c i \<noteq> None \<or> in_flight i c \<Longrightarrow> settled_count i c = 0"
    "holders c i \<noteq> None \<Longrightarrow> \<not> in_flight i c"
    "unissued (allocator c) (snd i) \<Longrightarrow> \<not> in_flight i c" "unissued (allocator c) (snd i) \<Longrightarrow> settled_count i c = 0"
  using assms unfolding settlement_inv_def by blast+

lemma quiet_settlement:
  assumes inv: "settlement_inv c" and q: "quiet c c'"
  shows "settlement_inv c'"
  unfolding settlement_inv_def
proof (intro allI)
  fix i
  have "in_flight i c' \<longleftrightarrow> in_flight i c" "settled_count i c' = settled_count i c"
    unfolding in_flight_def settled_count_def quietD(3,7,8) [OF q] by (rule refl)+
  then show "settled_count i c' \<le> 1
      \<and> (holders c' i \<noteq> None \<or> in_flight i c' \<longrightarrow> settled_count i c' = 0)
      \<and> (holders c' i \<noteq> None \<longrightarrow> \<not> in_flight i c')
      \<and> (unissued (allocator c') (snd i) \<longrightarrow> \<not> in_flight i c' \<and> settled_count i c' = 0)"
    using settlementD [OF inv, of i] quietD(4) [OF q, of "snd i"] quietD(5) [OF q, of i] by metis
qed

lemma quietI:
  assumes "active_key c' = active_key c" "running c' = running c" "coord_log c' = coord_log c"
    and "\<And>g. unissued (allocator c') g \<Longrightarrow> unissued (allocator c) g"
    and "\<And>i. holders c' i \<noteq> None \<Longrightarrow>
      holders c i \<noteq> None \<or> (unissued (allocator c) (snd i) \<and> \<not> unissued (allocator c') (snd i))"
    and "\<And>k'. k' \<noteq> k \<Longrightarrow> lineage_rows c' k' = lineage_rows c k'"
    and "row_pending (lineage_rows c' k) = row_pending (lineage_rows c k)"
    and "row_active (lineage_rows c' k) = row_active (lineage_rows c k)"
    and "\<And>cur. row_current (lineage_rows c' k) = Some cur \<Longrightarrow> row_current (lineage_rows c k) = Some cur"
    and "row_pending (lineage_rows c k) \<noteq> None \<or> row_active (lineage_rows c k) \<noteq> None \<Longrightarrow>
      row_current (lineage_rows c' k) = row_current (lineage_rows c k)
      \<and> row_ticket (lineage_rows c' k) = row_ticket (lineage_rows c k)"
  shows "quiet c c'"
  unfolding quiet_def
proof (intro conjI allI impI assms(1-3))
  fix k'
  show "row_pending (lineage_rows c' k') = row_pending (lineage_rows c k')"
    "row_active (lineage_rows c' k') = row_active (lineage_rows c k')"
    using assms(6-8) by (cases "k' = k", simp_all)+
  show "row_current (lineage_rows c k') = Some cur" if "row_current (lineage_rows c' k') = Some cur" for cur
    using assms(6,9) that by (cases "k' = k") simp_all
  assume "row_pending (lineage_rows c k') \<noteq> None \<or> row_active (lineage_rows c k') \<noteq> None"
  then show "row_current (lineage_rows c' k') = row_current (lineage_rows c k')"
    "row_ticket (lineage_rows c' k') = row_ticket (lineage_rows c k')"
    using assms(6,10) by (cases "k' = k", simp_all)+
qed (use assms(4,5) in auto)

lemma quiet_enter:
  assumes "ownership_inv c" "prepare_enter k c = (r, c')"
  shows "quiet c c'"
proof (cases "accepting c")
  case False
  with assms show ?thesis by (intro quietI [where k = k]) (auto simp: prepare_enter_def)
next
  case True
  show ?thesis
  proof (cases "allocate (allocator c)")
    case (Inl e)
    with assms True show ?thesis by (intro quietI [where k = k]) (auto simp: prepare_enter_def)
  next
    case (Inr x)
    then obtain g al where al: "allocate (allocator c) = Inr (g, al)" by (cases x) auto
    note f = allocate_Inr [OF al ownership_row(3) [OF assms(1)]]
    show ?thesis
      by (rule quietI [where k = k])
        (use assms True al f in \<open>auto simp: prepare_enter_def Let_def new_row_def split: if_splits option.splits\<close>)
  qed
qed

lemma quiet_wake:
  assumes "prepare_wake i c = (r, c')" "holders c i = Some Waiting"
  shows "quiet c c'"
  by (rule quietI [where k = "fst i"])
    (use assms in \<open>auto simp: prepare_wake_def Let_def idle_row_def split: if_splits option.splits\<close>)

lemma quiet_reserved:
  assumes "candidate_inv c" "reserve_done i t c = (r, c')" "holders c i = Some Reserving"
  shows "quiet c c'"
proof -
  have "row_candidates (lineage_rows c (fst i)) (fst i) (active_key c) (running c) (coord_log c)"
    using assms(1) by (simp add: candidate_inv_def)
  then show ?thesis
    using assms(2,3)
    by (intro quietI [where k = "fst i"])
      (auto simp: reserve_done_def Let_def row_candidates_def split: if_splits option.splits)
qed

lemma quiet_not_reserved:
  assumes "reserve_failed i c = (r, c')" "holders c i = Some Reserving"
  shows "quiet c c'"
  by (rule quietI [where k = "fst i"])
    (use assms in \<open>auto simp: reserve_failed_def Let_def split: if_splits option.splits\<close>)

lemma quiet_abandon:
  assumes "abandon_preparation i c = (r, c')" "holders c i = Some Prepared"
  shows "quiet c c'"
  by (rule quietI [where k = "fst i"])
    (use assms in \<open>auto simp: abandon_preparation_def Let_def idle_row_def split: if_splits option.splits\<close>)

lemma quiet_claim:
  assumes "pump_claim k t c = (Inl a, c')"
  shows "quiet c c'"
  by (rule quietI [where k = k])
    (use assms in \<open>auto simp: pump_claim_def split: if_splits option.splits\<close>)

lemma row_candidates_mono:
  "row_candidates ro k ak run es \<Longrightarrow> set es \<subseteq> set es' \<Longrightarrow> row_candidates ro k ak run es'"
  unfolding row_candidates_def by (cases "row_active ro") auto

lemma candidateD:
  assumes "candidate_inv c"
  shows "row_candidates (lineage_rows c k) k (active_key c) (running c) (coord_log c)"
    "active_key c = None \<Longrightarrow> running c = None"
    "row_current (lineage_rows c k) = Some cur \<Longrightarrow> \<not> unissued (allocator c) cur"
  using assms unfolding candidate_inv_def by blast+

lemma row_candidatesD:
  assumes "row_candidates ro k ak run es"
  shows "row_pending ro = Some i \<Longrightarrow> fst i = k" "row_pending ro = Some i \<Longrightarrow> row_active ro \<noteq> Some i"
    "row_pending ro = Some i \<Longrightarrow> row_current ro = Some (snd i)" "row_active ro = Some i \<Longrightarrow> fst i = k"
  using assms unfolding row_candidates_def by (blast, blast, blast, force)

lemma candidate_log: "candidate_inv c \<Longrightarrow> candidate_inv (log_events es c)"
  unfolding candidate_inv_def by (auto intro: row_candidates_mono)

lemma settled_count_log: "settled_count i (log_events es c) = settled_count i c + length (filter (settles i) es)"
  by (simp add: settled_count_def)

lemma settlement_log:
  assumes inv: "settlement_inv c" and i: "holders c i = None" "\<not> in_flight i c" "settled_count i c = 0"
      "\<not> unissued (allocator c) (snd i)"
    and es: "\<And>j. length (filter (settles j) es) = (if j = i then 1 else 0)"
  shows "settlement_inv (log_events es c)"
  unfolding settlement_inv_def
proof (intro allI)
  fix j
  have "in_flight j (log_events es c) \<longleftrightarrow> in_flight j c" by (simp add: in_flight_def)
  then show "settled_count j (log_events es c) \<le> 1
      \<and> (holders (log_events es c) j \<noteq> None \<or> in_flight j (log_events es c) \<longrightarrow> settled_count j (log_events es c) = 0)
      \<and> (holders (log_events es c) j \<noteq> None \<longrightarrow> \<not> in_flight j (log_events es c))
      \<and> (unissued (allocator (log_events es c)) (snd j) \<longrightarrow>
           \<not> in_flight j (log_events es c) \<and> settled_count j (log_events es c) = 0)"
    using settlementD [OF inv, of j] i es [of j] by (cases "j = i") (auto simp: settled_count_log)
qed

definition coord_inv :: "Coordinator \<Rightarrow> bool" where
  "coord_inv c \<longleftrightarrow> ownership_inv c \<and> candidate_inv c \<and> settlement_inv c"

lemma coord_inv_quiet: "coord_inv c \<Longrightarrow> quiet c c' \<Longrightarrow> ownership_inv c' \<Longrightarrow> coord_inv c'"
  unfolding coord_inv_def by (blast intro: quiet_candidates quiet_settlement)

lemma coord_inv_publish:
  assumes inv: "coord_inv c" and h: "holders c i = Some Prepared" and step: "publish_candidate i c = (r, c')"
  shows "coord_inv c' \<and> (in_flight i c' \<or> settled_count i c' = 1)"
proof -
  obtain k g where i: "i = (k, g)" by (cases i)
  have own: "ownership_inv c" and cand: "candidate_inv c" and set: "settlement_inv c"
    using inv by (simp_all add: coord_inv_def)
  have own': "ownership_inv c'" by (rule ownership_publish(1) [OF own h step])
  have iss: "\<not> unissued (allocator c) g" using ownership_row(2) [OF own, of g k] h i by (auto simp: key_holders_def)
  have i0: "settled_count i c = 0" "\<not> in_flight i c" using settlementD(2,3) [OF set, of i] h by auto
  show ?thesis
  proof (rule publish_cases [OF own h [unfolded i] step [unfolded i]])
    fix row :: LineageRow and s :: settlement and pre :: "coord_event list"
    let ?row1 = "row\<lparr>provisional_adopters := provisional_adopters row - 1\<rparr>"
    let ?c = "set_holder (k, g) None (if idle_row ?row1 then retire_ticket (ticket row) (erase_row k c)
      else set_row k ?row1 c)"
    assume row: "lineage_rows c k = Some row" and pre: "set pre \<subseteq> {Cancel_Superseded (k, g)}"
      and c': "c' = log_events (pre @ [Settle s (k, g)]) ?c"
    have q: "quiet c ?c"
      by (rule quietI [where k = k])
        (use row h i in \<open>auto simp: idle_row_def split: if_splits option.splits\<close>)
    have "filter (settles j) pre = []" for j using pre by (auto simp: filter_empty_conv settles_def)
    then have es: "length (filter (settles j) (pre @ [Settle s (k, g)])) = (if j = i then 1 else 0)" for j
      by (auto simp: settles_def i)
    have fl: "in_flight j ?c \<longleftrightarrow> in_flight j c" "settled_count j ?c = settled_count j c" for j
      unfolding in_flight_def settled_count_def quietD(3,7,8) [OF q] by (rule refl)+
    have "settlement_inv c'"
      unfolding c'
      by (rule settlement_log [where i = i])
        (use quiet_settlement [OF set q] i0 fl es iss in \<open>auto simp: i\<close>)
    moreover have "settled_count i c' = 1" using i0 fl es by (simp add: c' settled_count_log)
    ultimately show ?thesis
      using own' candidate_log [OF quiet_candidates [OF cand q]] by (simp add: coord_inv_def c')
  next
    fix row :: LineageRow
    let ?row1 = "row\<lparr>provisional_adopters := provisional_adopters row - 1, current_generation := Some g,
      pending := Some (k, g)\<rparr>"
    let ?es = "(case active row of None \<Rightarrow> [] | Some a \<Rightarrow> [Cancel_Superseded a])
         @ (case pending row of None \<Rightarrow> [] | Some p \<Rightarrow> [Cancel_Superseded p, Settle Settled_Superseded p])"
    assume row: "lineage_rows c k = Some row" and t: "ticket row \<noteq> None"
      and newer: "\<forall>cur. current_generation row = Some cur \<longrightarrow> cur < g"
      and c': "c' = log_events ?es (set_holder (k, g) None (set_row k ?row1 c))"
    note old = candidateD(1) [OF cand, of k, unfolded row]
    have rows: "lineage_rows c' = (lineage_rows c)(k \<mapsto> ?row1)" "allocator c' = allocator c"
      "holders c' = (holders c)((k, g) := None)" "active_key c' = active_key c" "running c' = running c"
      by (simp_all add: c')
    have "row_candidates (Some ?row1) k (active_key c) (running c) (coord_log c @ ?es)"
    proof (cases "active row")
      case None
      with old t show ?thesis by (simp add: row_candidates_def)
    next
      case (Some a)
      with old newer have less: "snd a < g" by (auto simp: row_candidates_def)
      then have "a \<noteq> (k, g)" by auto
      with less old t Some show ?thesis by (auto simp: row_candidates_def)
    qed
    then have "row_candidates (lineage_rows c' k') k' (active_key c') (running c') (coord_log c')" for k'
      using row_candidates_mono [OF candidateD(1) [OF cand, of k'], of "coord_log c'"] by (simp add: c')
    moreover have "\<not> unissued (allocator c') cur" if "row_current (lineage_rows c' k') = Some cur" for k' cur
      using candidateD(3) [OF cand, of k' cur] that iss by (auto simp: rows split: if_splits)
    ultimately have "candidate_inv c'"
      using candidateD(2) [OF cand] by (simp add: candidate_inv_def rows)
    have fl: "in_flight j c' \<longleftrightarrow> j = i \<or> (in_flight j c \<and> pending row \<noteq> Some j)" for j
      using row_candidatesD [OF old, of j] row by (auto simp: in_flight_def rows i)
    have cnt: "settled_count j c' = settled_count j c + (if pending row = Some j then 1 else 0)" for j
      by (auto simp: c' settled_count_log settles_def settled_count_def split: option.splits)
    have pf: "in_flight p c" if "pending row = Some p" for p
      using row_candidatesD [OF old, of p] row that by (auto simp: in_flight_def)
    have "settlement_inv c'"
      unfolding settlement_inv_def
    proof (intro allI)
      fix j
      show "settled_count j c' \<le> 1
        \<and> (holders c' j \<noteq> None \<or> in_flight j c' \<longrightarrow> settled_count j c' = 0)
        \<and> (holders c' j \<noteq> None \<longrightarrow> \<not> in_flight j c')
        \<and> (unissued (allocator c') (snd j) \<longrightarrow> \<not> in_flight j c' \<and> settled_count j c' = 0)"
        using settlementD [OF set, of j] pf [of j] i0 iss unfolding fl cnt rows
        by (cases "pending row = Some j"; cases "j = i") (auto simp: i simp del: not_None_eq)
    qed
    with \<open>candidate_inv c'\<close> own' fl show ?thesis by (simp add: coord_inv_def)
  qed
qed

lemma coord_inv_execute:
  assumes inv: "coord_inv c" and live: "live_tickets c t = Some k" and step: "pump_claim k t c = (Inr candidate, c')"
  shows "coord_inv c'"
proof -
  have own: "ownership_inv c" and cand: "candidate_inv c" and set: "settlement_inv c"
    using inv by (simp_all add: coord_inv_def)
  from step obtain row where row: "lineage_rows c k = Some row" "ticket row = Some t" "pending row = Some candidate"
    and ak: "active_key c = None"
    and c': "c' = (set_row k (row\<lparr>pending := None, active := Some candidate\<rparr>) c)
                      \<lparr>active_key := Some k, running := Some (t, candidate)\<rparr>"
    by (auto simp: pump_claim_def split: option.splits if_splits)
  have none: "row_active (lineage_rows c k') = None" for k'
    using candidateD(1) [OF cand, of k'] ak by (auto simp: row_candidates_def split: option.splits)
  have act: "active row = None" using none [of k] row by simp
  have "row_candidates (lineage_rows c' k') k' (active_key c') (running c') (coord_log c')" for k'
  proof (cases "k' = k")
    case True
    with candidateD(1) [OF cand, of k] row show ?thesis by (simp add: c' row_candidates_def)
  next
    case False
    with candidateD(1) [OF cand, of k'] none [of k'] show ?thesis
      by (simp add: c' row_candidates_def)
  qed
  moreover have "\<not> unissued (allocator c') cur" if "row_current (lineage_rows c' k') = Some cur" for k' cur
    using candidateD(3) [OF cand, of k' cur] that row by (auto simp: c' split: if_splits)
  ultimately have "candidate_inv c'" by (simp add: candidate_inv_def) (simp add: c')
  moreover have "in_flight j c' \<longleftrightarrow> in_flight j c" for j
    using row act row_candidatesD(1) [OF candidateD(1) [OF cand, of k], of candidate] by (auto simp: in_flight_def c')
  then have "settlement_inv c'"
    using set by (simp add: settlement_inv_def settled_count_def) (simp add: c')
  moreover have "ownership_inv c'" by (rule ownership_claim [OF own live step])
  ultimately show ?thesis by (simp add: coord_inv_def)
qed

lemma coord_inv_finish:
  assumes inv: "coord_inv c" and run: "running c = Some (t, candidate)"
    and step: "pump_finish t candidate failed c = (a, c')"
  shows "coord_inv c' \<and> settled_count candidate c' = 1"
proof -
  have own: "ownership_inv c" and cand: "candidate_inv c" and set: "settlement_inv c"
    using inv by (simp_all add: coord_inv_def)
  obtain k where ak: "active_key c = Some k" using candidateD(2) [OF cand] run by (cases "active_key c") auto
  from candidateD(1) [OF cand, of k] ak run obtain row where row: "lineage_rows c k = Some row"
    "active row = Some candidate" "ticket row = Some t" and ck: "fst candidate = k"
    by (cases "lineage_rows c k") (auto simp: row_candidates_def split: option.splits)
  let ?row1 = "row\<lparr>active := None\<rparr>"
  let ?gone = "pending row = None \<and> provisional_adopters row = 0"
  let ?c = "(log_events [Settle (if failed then Execution_Failed else Executed) candidate] c)
    \<lparr>running := None, lineage_rows := (lineage_rows c)(k \<mapsto> ?row1), active_key := None\<rparr>"
  have c': "c' = (if ?gone then retire_ticket (Some t) (erase_row k ?c) else ?c)"
    using step row ak ck by (auto simp: pump_finish_def Let_def set_row_def split: if_splits)
  have rows: "lineage_rows c' = (lineage_rows c)(k := (if ?gone then None else Some ?row1))"
    and flds: "allocator c' = allocator c" "holders c' = holders c" "active_key c' = None" "running c' = None"
      "coord_log c' = coord_log c @ [Settle (if failed then Execution_Failed else Executed) candidate]"
    by (simp_all add: c')
  have "ownership_inv c'"
    by (rule ownership_turn [OF own, where k = k and row = row and t = t and row' = ?row1 and gone = ?gone])
      (use row in \<open>auto simp: c' key_holders_def\<close>)
  moreover have none: "row_active (lineage_rows c k') = None" if "k' \<noteq> k" for k'
    using candidateD(1) [OF cand, of k'] ak that by (auto simp: row_candidates_def split: option.splits)
  have "row_candidates (lineage_rows c' k') k' None None (coord_log c')" for k'
  proof (cases "k' = k")
    case True
    with candidateD(1) [OF cand, of k] row show ?thesis by (auto simp: rows row_candidates_def)
  next
    case False
    with candidateD(1) [OF cand, of k'] none [OF False] show ?thesis by (simp add: rows row_candidates_def)
  qed
  moreover have "\<not> unissued (allocator c') cur" if "row_current (lineage_rows c' k') = Some cur" for k' cur
    using candidateD(3) [OF cand, of k' cur] that row by (auto simp: rows flds split: if_splits)
  ultimately have "candidate_inv c'" by (simp add: candidate_inv_def flds)
  have fl: "in_flight j c' \<longleftrightarrow> in_flight j c \<and> j \<noteq> candidate" for j
  proof -
    have "pending row \<noteq> Some candidate"
      using row_candidatesD(2) [OF candidateD(1) [OF cand, of k], of candidate] row by auto
    then show ?thesis using row ck by (auto simp: in_flight_def rows)
  qed
  have cnt: "settled_count j c' = settled_count j c + (if j = candidate then 1 else 0)" for j
    by (simp add: settled_count_def flds settles_def)
  have in0: "in_flight candidate c" using row ck by (simp add: in_flight_def)
  have "settlement_inv c'"
    unfolding settlement_inv_def
  proof (intro allI)
    fix j
    show "settled_count j c' \<le> 1
      \<and> (holders c' j \<noteq> None \<or> in_flight j c' \<longrightarrow> settled_count j c' = 0)
      \<and> (holders c' j \<noteq> None \<longrightarrow> \<not> in_flight j c')
      \<and> (unissued (allocator c') (snd j) \<longrightarrow> \<not> in_flight j c' \<and> settled_count j c' = 0)"
      using settlementD [OF set, of j] in0 unfolding fl cnt flds by (cases "j = candidate") (auto simp del: not_None_eq)
  qed
  moreover have "settled_count candidate c' = 1"
    using settlementD(2) [OF set, of candidate] in0 by (simp add: cnt)
  ultimately show ?thesis using \<open>ownership_inv c'\<close> \<open>candidate_inv c'\<close> by (simp add: coord_inv_def)
qed

lemma quiet_stop: "quiet c (stop_admission c)"
  by (auto simp: quiet_def stop_admission_def)

lemma ownership_stop: "ownership_inv c \<Longrightarrow> ownership_inv (stop_admission c)"
  by (simp add: ownership_inv_def stop_admission_def)

lemma coord_inv_step:
  assumes inv: "coord_inv c" and step: "coord_step c c'"
  shows "coord_inv c'"
proof -
  have own: "ownership_inv c" and cand: "candidate_inv c" using inv by (simp_all add: coord_inv_def)
  note q = coord_inv_quiet [OF inv]
  from step show ?thesis
  proof cases
    case (enter k r)
    show ?thesis by (rule q [OF quiet_enter [OF own enter] ownership_enter [OF own enter]])
  next
    case (wake i r)
    show ?thesis by (rule q [OF quiet_wake [OF wake(3,1)] ownership_wake [OF own wake(1-3)]])
  next
    case (reserved i t r)
    show ?thesis by (rule q [OF quiet_reserved [OF cand reserved(3,1)] ownership_reserved(1) [OF own reserved(1-3)]])
  next
    case (not_reserved i r)
    show ?thesis by (rule q [OF quiet_not_reserved [OF not_reserved(2,1)] ownership_not_reserved(1) [OF own not_reserved]])
  next
    case (publish i r)
    show ?thesis using coord_inv_publish [OF inv publish] by blast
  next
    case (abandon i r)
    show ?thesis by (rule q [OF quiet_abandon [OF abandon(2,1)] ownership_abandon(1) [OF own abandon]])
  next
    case (claim t k a)
    show ?thesis
    proof (cases a)
      case (Inl x)
      show ?thesis
        by (rule q [OF quiet_claim [OF claim(2) [unfolded Inl]] ownership_claim [OF own claim]])
    next
      case (Inr candidate)
      show ?thesis by (rule coord_inv_execute [OF inv claim(1) claim(2) [unfolded Inr]])
    qed
  next
    case (finish t candidate failed a)
    show ?thesis using coord_inv_finish [OF inv finish] by blast
  next
    case stop
    show ?thesis unfolding stop by (rule q [OF quiet_stop ownership_stop [OF own]])
  qed
qed

lemma coord_inv_init: "coord_init c \<Longrightarrow> coord_inv c"
  by (auto simp: coord_init_def make_coordinator_def make_allocator_def res_simps coord_inv_def ownership_inv_def
      allocator_ok_def row_owned_def key_holders_def candidate_inv_def row_candidates_def settlement_inv_def
      settled_count_def in_flight_def split: if_splits)

interpretation coord_sys: inv_system coord_init coord_step coord_inv
  by unfold_locales (rule coord_inv_init, assumption, rule coord_inv_step)

text \<open>A published candidate stays in flight until it is settled, and settled afterwards.\<close>

lemma in_flight_step:
  assumes inv: "coord_inv c" and step: "coord_step c c'" and i: "in_flight i c \<or> settled_count i c = 1"
  shows "in_flight i c' \<or> settled_count i c' = 1"
proof -
  have own: "ownership_inv c" and cand: "candidate_inv c" using inv by (simp_all add: coord_inv_def)
  have q: ?thesis if "quiet c c'"
    using i unfolding in_flight_def settled_count_def quietD(3,7,8) [OF that] .
  have le: "settled_count i c' \<le> 1"
    using coord_inv_step [OF inv step] settlementD(1) by (auto simp: coord_inv_def)
  from step show ?thesis
  proof cases
    case (publish j r)
    obtain k g where j: "j = (k, g)" by (cases j)
    note old = candidateD(1) [OF cand, of k]
    show ?thesis
    proof (rule publish_cases [OF own publish(1) [unfolded j] publish(2) [unfolded j]])
      fix row :: LineageRow
      assume row: "lineage_rows c k = Some row"
        and c': "c' = log_events
        ((case active row of None \<Rightarrow> [] | Some a \<Rightarrow> [Cancel_Superseded a])
         @ (case pending row of None \<Rightarrow> [] | Some p \<Rightarrow> [Cancel_Superseded p, Settle Settled_Superseded p]))
        (set_holder (k, g) None (set_row k (row\<lparr>provisional_adopters := provisional_adopters row - 1,
           current_generation := Some g, pending := Some (k, g)\<rparr>) c))"
      show ?thesis
      proof (cases "pending row = Some i")
        case True
        then have "1 \<le> settled_count i c'" by (simp add: c' settled_count_log settles_def)
        with le show ?thesis by simp
      next
        case False
        have "settled_count i c \<le> settled_count i c'" by (simp add: c' settled_count_def)
        with i le False row show ?thesis
          by (cases "fst i = k") (auto simp: in_flight_def c')
      qed
    next
      fix row :: LineageRow and s :: settlement and pre :: "coord_event list"
      let ?row1 = "row\<lparr>provisional_adopters := provisional_adopters row - 1\<rparr>"
      assume row: "lineage_rows c k = Some row" and c': "c' = log_events (pre @ [Settle s (k, g)])
          (set_holder (k, g) None (if idle_row ?row1 then retire_ticket (ticket row) (erase_row k c)
             else set_row k ?row1 c))"
      have "settled_count i c \<le> settled_count i c'" by (simp add: c' settled_count_def)
      with i le row show ?thesis
        by (cases "fst i = k") (auto simp: in_flight_def c' idle_row_def)
    qed
  next
    case (claim t k a)
    show ?thesis
    proof (cases a)
      case (Inl x)
      with claim(2) show ?thesis by (intro q quiet_claim) simp
    next
      case (Inr candidate)
      then have "settled_count i c' = settled_count i c" "in_flight i c \<Longrightarrow> in_flight i c'"
        using claim(2) candidateD(1) [OF cand, of k]
        by (auto simp: pump_claim_def settled_count_def in_flight_def row_candidates_def split: option.splits if_splits)
      with i show ?thesis by auto
    qed
  next
    case (finish t candidate failed a)
    have "settled_count candidate c' = 1" using coord_inv_finish [OF inv finish] by blast
    moreover have "settled_count i c \<le> settled_count i c'"
      using finish(2) by (auto simp: pump_finish_def Let_def settled_count_def split: option.splits if_splits)
    moreover have "in_flight i c'" if "i \<noteq> candidate" "in_flight i c"
      using finish(2) that by (cases i) (auto simp: pump_finish_def Let_def in_flight_def split: option.splits if_splits)
    ultimately show ?thesis using i le by (cases "i = candidate") auto
  next
    case (enter k r) then show ?thesis by (intro q quiet_enter [OF own])
  next
    case (wake j r) then show ?thesis by (intro q quiet_wake)
  next
    case (reserved j t r) then show ?thesis by (intro q quiet_reserved [OF cand])
  next
    case (not_reserved j r) then show ?thesis by (intro q quiet_not_reserved)
  next
    case (abandon j r) then show ?thesis by (intro q quiet_abandon)
  next
    case stop then show ?thesis using q quiet_stop by simp
  qed
qed

section \<open>Example runs\<close>

definition demo_key :: SupersessionKey where
  "demo_key = SupersessionKey 7 GlobalHighPrecision"

definition demo_coordinator :: "bool \<Rightarrow> u64 \<Rightarrow> (SupersessionKey \<rightharpoonup> LineageRow) \<Rightarrow> (identity \<rightharpoonup> holder_role) \<Rightarrow> Coordinator" where
  "demo_coordinator open_gate next rows held =
     \<lparr>accepting = open_gate, allocator = \<lparr>next_value = next, exhausted = False\<rparr>, lineage_rows = rows, active_key = None,
      holders = held, running = None, live_tickets = Map.empty, coord_log = []\<rparr>"

lemmas coord_demo_defs = demo_coordinator_def new_row_def set_row_def erase_row_def set_holder_def retire_ticket_def
  log_events_def allocate_def make_supersession_generation_def u64_max_def size_max_def idle_row_def res_simps

lemmas coord_next = reachable_step [where init = coord_init and step = coord_step]

lemma demo_init: "coord_init (demo_coordinator True 1 Map.empty Map.empty)"
  by (auto simp: coord_init_def make_coordinator_def make_allocator_def demo_coordinator_def res_simps intro!: exI [of _ 1])

lemma demo_reserving:
  "reachable coord_init coord_step
     (demo_coordinator True 2 [demo_key \<mapsto> new_row\<lparr>provisional_adopters := 1, reservation_in_progress := True\<rparr>]
        [(demo_key, 1) \<mapsto> Reserving])"
  by (rule coord_next [OF reachable_init [of coord_init, OF demo_init] coord_step.enter [of demo_key _ "Inr 1"]])
    (simp add: prepare_enter_def Let_def coord_demo_defs)

lemma demo_prepared:
  "reachable coord_init coord_step
     ((demo_coordinator True 2 [demo_key \<mapsto> new_row\<lparr>provisional_adopters := 1, ticket := Some 0\<rparr>]
        [(demo_key, 1) \<mapsto> Prepared])\<lparr>live_tickets := [0 \<mapsto> demo_key]\<rparr>)"
  by (rule coord_next [OF demo_reserving coord_step.reserved [of _ "(demo_key, 1)" 0 "Inr ()"]])
    (simp_all add: reserve_done_def Let_def coord_demo_defs)

lemma demo_displaced:
  "reachable coord_init coord_step
     ((demo_coordinator True 3
         [demo_key \<mapsto> new_row\<lparr>current_generation := Some 2, ticket := Some 0, pending := Some (demo_key, 2),
            active := Some (demo_key, 1)\<rparr>] Map.empty)
        \<lparr>live_tickets := [0 \<mapsto> demo_key], active_key := Some demo_key, running := Some (0, (demo_key, 1)),
         coord_log := [Cancel_Superseded (demo_key, 1)]\<rparr>)"
proof -
  let ?T = "\<lambda>c. c\<lparr>live_tickets := [0 \<mapsto> demo_key]\<rparr>"
  let ?R = "new_row\<lparr>current_generation := Some 1, ticket := Some 0\<rparr>"
  let ?run = "\<lambda>c. c\<lparr>active_key := Some demo_key, running := Some (0, (demo_key, 1))\<rparr>"
  have "reachable coord_init coord_step
      (?T (demo_coordinator True 2 [demo_key \<mapsto> ?R\<lparr>pending := Some (demo_key, 1)\<rparr>] Map.empty))"
    by (rule coord_next [OF demo_prepared coord_step.publish [of _ "(demo_key, 1)" "Inr ()"]])
      (simp_all add: publish_candidate_def Let_def coord_demo_defs)
  then have "reachable coord_init coord_step
      (?run (?T (demo_coordinator True 2 [demo_key \<mapsto> ?R\<lparr>active := Some (demo_key, 1)\<rparr>] Map.empty)))"
    by (rule coord_next [OF _ coord_step.claim [of _ 0 demo_key "Inr (demo_key, 1)"]])
      (simp_all add: pump_claim_def coord_demo_defs)
  then have "reachable coord_init coord_step
      (?run (?T (demo_coordinator True 3
         [demo_key \<mapsto> ?R\<lparr>active := Some (demo_key, 1), provisional_adopters := 1\<rparr>] [(demo_key, 2) \<mapsto> Prepared])))"
    by (rule coord_next [OF _ coord_step.enter [of demo_key _ "Inr 2"]])
      (simp add: prepare_enter_def Let_def coord_demo_defs)
  then show ?thesis
    by (rule coord_next [OF _ coord_step.publish [of _ "(demo_key, 2)" "Inr ()"]])
      (simp_all add: publish_candidate_def Let_def coord_demo_defs)
qed

section \<open>Properties\<close>



text \<open>
  C2. Every published candidate is settled exactly once. Publication of a prepared candidate
  never fails with a broken-ownership error, and in every later state, after any steps, the
  candidate is still pending or active and has not been settled, or it has been settled
  exactly once (executed, failed, superseded or rejected by close).
\<close>

theorem coordinator_settles_once:
  assumes "reachable coord_init coord_step c" "holders c i = Some Prepared"
    "publish_candidate i c = (r, c')" "coord_step\<^sup>*\<^sup>* c' d"
  shows "r = Inr () \<and> ((in_flight i d \<and> settled_count i d = 0) \<or> (\<not> in_flight i d \<and> settled_count i d = 1))"
proof -
  have inv: "coord_inv c" by (rule coord_sys.reachable_inv [OF assms(1)])
  have r: "r = Inr ()" using ownership_publish(2) [OF _ assms(2,3)] inv by (simp add: coord_inv_def)
  have "coord_inv c' \<and> (in_flight i c' \<or> settled_count i c' = 1)"
    by (rule coord_inv_publish [OF inv assms(2,3)])
  with assms(4) have "coord_inv d \<and> (in_flight i d \<or> settled_count i d = 1)"
    by (induction rule: rtranclp_induct) (use coord_inv_step in_flight_step in blast)+
  then show ?thesis using r settlementD(2) [of d i] by (auto simp: coord_inv_def)
qed

theorem coordinator_settles_once_witness:
  "\<exists>c c'. reachable coord_init coord_step c \<and> holders c (demo_key, 1) = Some Prepared
     \<and> publish_candidate (demo_key, 1) c = (Inr (), c')
     \<and> (in_flight (demo_key, 1) c' \<and> settled_count (demo_key, 1) c' = 0
        \<or> \<not> in_flight (demo_key, 1) c' \<and> settled_count (demo_key, 1) c' = 1)"
proof -
  let ?c = "(demo_coordinator True 2 [demo_key \<mapsto> new_row\<lparr>provisional_adopters := 1, ticket := Some 0\<rparr>]
        [(demo_key, 1) \<mapsto> Prepared])\<lparr>live_tickets := [0 \<mapsto> demo_key]\<rparr>"
  have h: "holders ?c (demo_key, 1) = Some Prepared" by (simp add: demo_coordinator_def)
  note r = coordinator_settles_once [OF demo_prepared h prod.collapse [symmetric] rtranclp.rtrancl_refl]
  show ?thesis using demo_prepared h r by (metis prod.collapse)
qed

text \<open>
  C38. The ownership bookkeeping never breaks: in every reachable state the operations of a
  thread that holds a preparation meet none of the code's termination or logic-error
  branches; a waiter continues or is refused because admission closed.
\<close>

theorem coordinator_ownership_sound:
  assumes "reachable coord_init coord_step c"
  shows "(holders c i = Some Prepared \<longrightarrow>
        fst (publish_candidate i c) = Inr () \<and> fst (abandon_preparation i c) = Inr ())
    \<and> (holders c i = Some Reserving \<longrightarrow>
        fst (reserve_failed i c) = Inr () \<and> (live_tickets c t = None \<longrightarrow> fst (reserve_done i t c) = Inr ()))
    \<and> (holders c i = Some Waiting \<longrightarrow> fst (prepare_wake i c) \<in> {Inr (), Inl Runtime_Error})"
proof -
  have own: "ownership_inv c" using coord_sys.reachable_inv [OF assms] by (simp add: coord_inv_def)
  have "fst (prepare_wake i c) \<in> {Inr (), Inl Runtime_Error}" if h: "holders c i = Some Waiting"
  proof -
    obtain row where "lineage_rows c (fst i) = Some row" "0 < provisional_adopters row"
      using holder_row [OF own, of "fst i" "snd i"] h by (metis prod.collapse)
    then show ?thesis by (simp add: prepare_wake_def Let_def)
  qed
  moreover have "fst (publish_candidate i c) = Inr () \<and> fst (abandon_preparation i c) = Inr ()"
    if "holders c i = Some Prepared"
    using ownership_publish(2) [OF own that prod.collapse [symmetric]]
      ownership_abandon(2) [OF own that prod.collapse [symmetric]] by simp
  moreover have "fst (reserve_failed i c) = Inr ()" if "holders c i = Some Reserving"
    by (rule ownership_not_reserved(2) [OF own that prod.collapse [symmetric]])
  moreover have "fst (reserve_done i t c) = Inr ()" if "holders c i = Some Reserving" "live_tickets c t = None"
    by (rule ownership_reserved(2) [OF own that prod.collapse [symmetric]])
  ultimately show ?thesis by blast
qed

theorem coordinator_ownership_sound_witness:
  "\<exists>c. reachable coord_init coord_step c \<and> holders c (demo_key, 1) = Some Prepared
     \<and> fst (publish_candidate (demo_key, 1) c) = Inr () \<and> fst (abandon_preparation (demo_key, 1) c) = Inr ()"
proof -
  have "holders ((demo_coordinator True 2 [demo_key \<mapsto> new_row\<lparr>provisional_adopters := 1, ticket := Some 0\<rparr>]
        [(demo_key, 1) \<mapsto> Prepared])\<lparr>live_tickets := [0 \<mapsto> demo_key]\<rparr>) (demo_key, 1) = Some Prepared"
    by (simp add: demo_coordinator_def)
  then show ?thesis using coordinator_ownership_sound [OF demo_prepared, of "(demo_key, 1)"] demo_prepared by blast
qed


end
