(* ===== verification/ComputeRun.thy ===== *)
theory ComputeRun
  imports Supersession
begin

text \<open>
  \<open>ComputeRun\<close> (\<open>src/lib/compute/compute_run.cpp\<close>): the control block of one run, its phases, the
  terminal arbiter that cancellation, failure and a commit contender compete for, cancellation
  notifications, leases and the counters of physical settlement. A critical section under the
  run's mutex is one operation. Cancellation callbacks run outside the mutex, one slot after
  the other: \<open>dispatching\<close> is the position of the thread that runs them. A slot is a number;
  \<open>slot_status\<close> says whether its registration is still held, and \<open>calls\<close> logs the invocations.
  \<open>throws\<close> gives the exception a slot's callback raises, if any; the clock is the argument
  \<open>now\<close>. Memory accounting and the routing of task callbacks into the plan are not
  modelled.
\<close>

section \<open>Data\<close>

datatype ComputeRunQuality = Full | Interactive

datatype ComputeRunQosClass = Interactive_Class | Throughput_Class

record ComputeRunQos =
  service_class :: ComputeRunQosClass
  deadline :: "int option"
  qos_weight :: "32 word"
  maximum_parallelism :: "32 word option"

record ComputeRunSubmission =
  graph_identity :: string
  sub_graph_instance :: u64
  sub_revision :: u64
  sub_target :: int
  sub_intent :: ComputeIntent
  quality :: ComputeRunQuality
  qos :: ComputeRunQos
  supersession :: "SupersessionKey \<times> u64"

datatype ComputeRunPhase = Created | Admitted | Queued | Running | CommitPending | Terminal

datatype ComputeRunTerminalKind = Succeeded | Failed | Cancelled

datatype ComputeRunCancellationReason =
  ExplicitRequest | GraphClose | ProcessShutdown | Superseded | DeadlineExceeded

record ComputeRunTerminalOutcome =
  kind :: ComputeRunTerminalKind
  failure :: "ps_exn option"
  cancellation_reason :: "ComputeRunCancellationReason option"

datatype ArbiterState = Open | CommitClaimed | Arbiter_Terminal

record ComputeRunTaskIdentity =
  task_run_id :: u64
  local_task_id :: u64

text \<open>Of the submission plan: its run, the ids of its tasks in order, and the publication flag.\<close>

record SubmissionPlan =
  plan_run_id :: u64
  plan_task_ids :: "int list"
  publication_closed :: bool

datatype SlotStatus = Slot_Free | Slot_Active | Slot_Released

record RunControl =
  run_id :: u64
  submission :: ComputeRunSubmission
  run_phase :: ComputeRunPhase
  terminal_outcome :: "ComputeRunTerminalOutcome option"
  arbiter_state :: ArbiterState
  cancellation_slots :: "nat list"
  submission_plan :: "SubmissionPlan option"
  dirty_hp_write_buffer :: "bool option"
  active_leases :: nat
  pending_root_reservations :: u64
  live_root_reservations :: u64
  lifecycle_telemetry :: "nat option"
  slot_status :: "nat \<Rightarrow> SlotStatus"
  next_slot :: nat
  dispatching :: "(ComputeRunCancellationReason \<times> nat \<times> bool) option"
  dispatch_aborted :: bool
  calls :: "(nat \<times> ComputeRunCancellationReason) list"
  contender_live :: bool
  lease_handles :: nat

section \<open>Creation\<close>

definition mint_compute_run_id_value :: "u64 \<Rightarrow> (u64 \<times> u64) res" where
  "mint_compute_run_id_value next_id =
     (if next_id = u64_max then Inl Overflow_Error else Inr (next_id, next_id + 1))"

definition validate_submission :: "ComputeRunSubmission \<Rightarrow> unit res" where
  "validate_submission s =
     (if sub_intent s \<noteq> GlobalHighPrecision \<and> sub_intent s \<noteq> RealTimeUpdate then Inl Invalid_Argument
      else if sub_intent s = GlobalHighPrecision \<and> quality s \<noteq> Full then Inl Invalid_Argument
      else if sub_intent s = RealTimeUpdate \<and> quality s \<noteq> Interactive then Inl Invalid_Argument
      else if qos_weight (qos s) = 0 then Inl Invalid_Argument
      else if maximum_parallelism (qos s) = Some 0 then Inl Invalid_Argument
      else if target_node_id (fst (supersession s)) \<noteq> sub_target s then Inl Invalid_Argument
      else Inr ())"

definition make_run :: "ComputeRunSubmission \<Rightarrow> bool \<Rightarrow> u64 \<Rightarrow> (RunControl \<times> u64) res" where
  "make_run s has_clock next_id =
     res_bind (validate_submission s) (\<lambda>_.
     res_bind (mint_compute_run_id_value next_id) (\<lambda>(i, next_id').
       if \<not> has_clock then Inl Invalid_Argument
       else Inr (\<lparr>run_id = i, submission = s, run_phase = Created, terminal_outcome = None,
         arbiter_state = Open, cancellation_slots = [], submission_plan = None,
         dirty_hp_write_buffer = None, active_leases = 0, pending_root_reservations = 0,
         live_root_reservations = 0, lifecycle_telemetry = None, slot_status = (\<lambda>_. Slot_Free),
         next_slot = 0, dispatching = None, dispatch_aborted = False, calls = [],
         contender_live = False, lease_handles = 0\<rparr>, next_id')))"

section \<open>The terminal arbiter\<close>

definition close_plan :: "RunControl \<Rightarrow> RunControl" where
  "close_plan c = c\<lparr>submission_plan := map_option (\<lambda>p. p\<lparr>publication_closed := True\<rparr>) (submission_plan c)\<rparr>"

definition settle :: "ComputeRunTerminalOutcome \<Rightarrow> RunControl \<Rightarrow> RunControl" where
  "settle outcome c = close_plan (c\<lparr>terminal_outcome := Some outcome, arbiter_state := Arbiter_Terminal\<rparr>)"

definition succeeded :: ComputeRunTerminalOutcome where
  "succeeded = \<lparr>kind = Succeeded, failure = None, cancellation_reason = None\<rparr>"

definition failed_with :: "ps_exn \<Rightarrow> ComputeRunTerminalOutcome" where
  "failed_with e = \<lparr>kind = Failed, failure = Some e, cancellation_reason = None\<rparr>"

definition cancelled :: "ComputeRunCancellationReason \<Rightarrow> ComputeRunTerminalOutcome" where
  "cancelled r = \<lparr>kind = Cancelled, failure = None, cancellation_reason = Some r\<rparr>"

definition publish_terminal :: "ComputeRunTerminalOutcome \<Rightarrow> RunControl \<Rightarrow> bool \<times> RunControl" where
  "publish_terminal outcome c = (if arbiter_state c \<noteq> Open then (False, c) else (True, settle outcome c))"

definition publish_succeeded :: "RunControl \<Rightarrow> bool \<times> RunControl" where
  "publish_succeeded = publish_terminal succeeded"

definition publish_failed :: "ps_exn option \<Rightarrow> RunControl \<Rightarrow> bool res \<times> RunControl" where
  "publish_failed e c =
     (case e of
        None \<Rightarrow> (Inl Invalid_Argument, c)
      | Some x \<Rightarrow> (case publish_terminal (failed_with x) c of (b, c') \<Rightarrow> (Inr b, c')))"

text \<open>The critical section of a cancellation; \<open>won\<close> is the request's latch it may set.\<close>

definition cancel_claim :: "ComputeRunCancellationReason \<Rightarrow> RunControl \<Rightarrow> bool \<times> RunControl" where
  "cancel_claim reason c =
     (if arbiter_state c \<noteq> Open then (False, c)
      else (True, (settle (cancelled reason) c)\<lparr>dispatching := Some (reason, 0, True)\<rparr>))"

text \<open>
  One round of the dispatch loop. The last component says whether the loop contains callback
  exceptions (a requested cancellation) or lets the first one escape (a deadline found by a
  commit attempt).
\<close>

definition dispatch_one :: "(nat \<Rightarrow> ps_exn option) \<Rightarrow> RunControl \<Rightarrow> ps_exn option \<times> RunControl" where
  "dispatch_one throws c =
     (case dispatching c of
        None \<Rightarrow> (None, c)
      | Some (reason, k, contain) \<Rightarrow>
          if length (cancellation_slots c) \<le> k then (None, c\<lparr>dispatching := None\<rparr>)
          else
            let s = cancellation_slots c ! k; c1 = c\<lparr>dispatching := Some (reason, k + 1, contain)\<rparr> in
            if slot_status c s \<noteq> Slot_Active then (None, c1)
            else
              let c2 = c1\<lparr>calls := calls c @ [(s, reason)]\<rparr> in
              (throws s, if throws s = None \<or> contain then c2
                         else c2\<lparr>dispatching := None, dispatch_aborted := True\<rparr>))"

definition dispatch_rounds :: "RunControl \<Rightarrow> nat" where
  "dispatch_rounds c =
     (case dispatching c of None \<Rightarrow> 0 | Some (_, k, _) \<Rightarrow> Suc (length (cancellation_slots c) - k))"

lemma dispatch_one_less:
  assumes "dispatching c \<noteq> None"
  shows "dispatch_rounds (snd (dispatch_one throws c)) < dispatch_rounds c"
  using assms by (auto simp: dispatch_one_def dispatch_rounds_def Let_def split: option.splits prod.splits)

function dispatch_loop :: "(nat \<Rightarrow> ps_exn option) \<Rightarrow> ps_exn option \<Rightarrow> RunControl \<Rightarrow> ps_exn option \<times> RunControl" where
  "dispatch_loop throws first c =
     (if dispatching c = None then (first, c)
      else let r = dispatch_one throws c
           in dispatch_loop throws (case first of None \<Rightarrow> fst r | Some e \<Rightarrow> Some e) (snd r))"
  by pat_completeness auto

termination dispatch_loop
  by (relation "measure (\<lambda>(_, _, c). dispatch_rounds c)") (auto simp: dispatch_one_less)

declare dispatch_loop.simps [simp del]

definition request_cancellation_containing_callbacks ::
  "(nat \<Rightarrow> ps_exn option) \<Rightarrow> ComputeRunCancellationReason \<Rightarrow> RunControl \<Rightarrow> (bool \<times> ps_exn option) \<times> RunControl" where
  "request_cancellation_containing_callbacks throws reason c =
     (case cancel_claim reason c of
        (False, _) \<Rightarrow> ((False, None), c)
      | (True, c1) \<Rightarrow> (case dispatch_loop throws None c1 of (first, c2) \<Rightarrow> ((True, first), c2)))"

definition request_cancellation ::
  "(nat \<Rightarrow> ps_exn option) \<Rightarrow> ComputeRunCancellationReason \<Rightarrow> RunControl \<Rightarrow> bool res \<times> RunControl" where
  "request_cancellation throws reason c =
     (case request_cancellation_containing_callbacks throws reason c of
        ((accepted, None), c') \<Rightarrow> (Inr accepted, c')
      | ((accepted, Some e), c') \<Rightarrow> (Inl e, c'))"

definition deadline_expired :: "int \<Rightarrow> RunControl \<Rightarrow> bool" where
  "deadline_expired now c = (case deadline (qos (submission c)) of None \<Rightarrow> False | Some d \<Rightarrow> d \<le> now)"

definition observe_cancellation ::
  "(nat \<Rightarrow> ps_exn option) \<Rightarrow> int \<Rightarrow> RunControl \<Rightarrow> ComputeRunCancellationReason option res \<times> RunControl" where
  "observe_cancellation throws now c =
     (let (r, c1) = (if arbiter_state c = Open \<and> deadline_expired now c
                     then request_cancellation throws DeadlineExceeded c else (Inr False, c))
      in case r of
           Inl e \<Rightarrow> (Inl e, c1)
         | Inr _ \<Rightarrow> (Inr (case terminal_outcome c1 of
                             Some o1 \<Rightarrow> if kind o1 = Cancelled then cancellation_reason o1 else None
                           | None \<Rightarrow> None), c1))"

text \<open>The critical section of a commit attempt, and the whole attempt.\<close>

definition commit_claim :: "int \<Rightarrow> RunControl \<Rightarrow> bool \<times> RunControl" where
  "commit_claim now c =
     (if arbiter_state c \<noteq> Open then (False, c)
      else if deadline_expired now c
        then (False, (settle (cancelled DeadlineExceeded) c)\<lparr>dispatching := Some (DeadlineExceeded, 0, False)\<rparr>)
      else if run_phase c \<noteq> CommitPending then (False, c)
      else (True, c\<lparr>arbiter_state := CommitClaimed, contender_live := True\<rparr>))"

definition try_claim_commit :: "(nat \<Rightarrow> ps_exn option) \<Rightarrow> int \<Rightarrow> RunControl \<Rightarrow> bool res \<times> RunControl" where
  "try_claim_commit throws now c =
     (case commit_claim now c of
        (True, c1) \<Rightarrow> (Inr True, c1)
      | (False, c1) \<Rightarrow>
          if arbiter_state c = Open \<and> arbiter_state c1 = Arbiter_Terminal
          then (case dispatch_loop throws None c1 of
                  (None, c2) \<Rightarrow> (Inr False, c2)
                | (Some e, c2) \<Rightarrow> (Inl e, c2))
          else (Inr False, c1))"

definition resolve_commit :: "ComputeRunTerminalOutcome \<Rightarrow> RunControl \<Rightarrow> bool \<times> RunControl" where
  "resolve_commit outcome c = (if arbiter_state c \<noteq> CommitClaimed then (False, c) else (True, settle outcome c))"

text \<open>The contender's resolutions: it gives up its claim only when the arbiter accepted.\<close>

definition contender_publish :: "ComputeRunTerminalOutcome \<Rightarrow> RunControl \<Rightarrow> bool \<times> RunControl" where
  "contender_publish outcome c =
     (if \<not> contender_live c then (False, c)
      else case resolve_commit outcome c of
        (True, c') \<Rightarrow> (True, c'\<lparr>contender_live := False\<rparr>)
      | (False, c') \<Rightarrow> (False, c'))"

definition contender_abandon :: "RunControl \<Rightarrow> RunControl res" where
  "contender_abandon c =
     (if \<not> contender_live c then Inr c
      else case resolve_commit (failed_with Logic_Error) c of
        (True, c') \<Rightarrow> Inr (c'\<lparr>contender_live := False\<rparr>)
      | (False, _) \<Rightarrow> Inl Terminate)"

section \<open>Cancellation notifications\<close>

fun install_slot :: "(nat \<Rightarrow> SlotStatus) \<Rightarrow> nat \<Rightarrow> nat list \<Rightarrow> nat list" where
  "install_slot status s [] = [s]"
| "install_slot status s (x # xs) = (if status x = Slot_Released then s # xs else x # install_slot status s xs)"

text \<open>
  \<open>register_cancellation_notification\<close>: a fresh slot is installed while the arbiter is open; on a
  cancelled run its callback is invoked at once, and in either remaining case the registration
  is empty and the slot deactivated.
\<close>

definition register_cancellation_notification ::
  "(nat \<Rightarrow> ps_exn option) \<Rightarrow> bool \<Rightarrow> RunControl \<Rightarrow> nat option res \<times> RunControl" where
  "register_cancellation_notification throws has_callback c =
     (if \<not> has_callback then (Inl Invalid_Argument, c)
      else
        let s = next_slot c; c1 = c\<lparr>next_slot := s + 1\<rparr> in
        if arbiter_state c = Open then
          (Inr (Some s), c1\<lparr>cancellation_slots := install_slot (slot_status c) s (cancellation_slots c),
                            slot_status := (slot_status c)(s := Slot_Active)\<rparr>)
        else
          let c2 = c1\<lparr>slot_status := (slot_status c)(s := Slot_Released)\<rparr> in
          (case terminal_outcome c of
             Some o1 \<Rightarrow>
               (case (if kind o1 = Cancelled then cancellation_reason o1 else None) of
                  Some r \<Rightarrow> (case throws s of None \<Rightarrow> Inr None | Some e \<Rightarrow> Inl e,
                             c2\<lparr>calls := calls c @ [(s, r)]\<rparr>)
                | None \<Rightarrow> (Inr None, c2))
           | None \<Rightarrow> (Inr None, c2)))"

definition reset_registration :: "nat \<Rightarrow> RunControl \<Rightarrow> RunControl" where
  "reset_registration s c =
     (if slot_status c s = Slot_Active then c\<lparr>slot_status := (slot_status c)(s := Slot_Released)\<rparr> else c)"

section \<open>Phases and storage\<close>

fun nonterminal_phase_rank :: "ComputeRunPhase \<Rightarrow> nat res" where
  "nonterminal_phase_rank Created = Inr 0"
| "nonterminal_phase_rank Admitted = Inr 1"
| "nonterminal_phase_rank Queued = Inr 2"
| "nonterminal_phase_rank Running = Inr 3"
| "nonterminal_phase_rank CommitPending = Inr 4"
| "nonterminal_phase_rank Terminal = Inl Invalid_Argument"

definition observed_phase :: "RunControl \<Rightarrow> ComputeRunPhase" where
  "observed_phase c = (if arbiter_state c = Arbiter_Terminal then Terminal else run_phase c)"

definition advance_to :: "ComputeRunPhase \<Rightarrow> RunControl \<Rightarrow> bool res \<times> RunControl" where
  "advance_to next c =
     (case nonterminal_phase_rank next of
        Inl e \<Rightarrow> (Inl e, c)
      | Inr next_rank \<Rightarrow>
          if arbiter_state c \<noteq> Open then (Inr False, c)
          else case nonterminal_phase_rank (run_phase c) of
            Inl e \<Rightarrow> (Inl e, c)
          | Inr current_rank \<Rightarrow>
              if next_rank < current_rank then (Inl Logic_Error, c)
              else if next_rank = current_rank then (Inr False, c)
              else (Inr True, c\<lparr>run_phase := next\<rparr>))"

definition emplace_submission_plan :: "int list \<Rightarrow> RunControl \<Rightarrow> unit res \<times> RunControl" where
  "emplace_submission_plan task_ids c =
     (if arbiter_state c \<noteq> Open then (Inl Logic_Error, c)
      else if submission_plan c \<noteq> None then (Inl Logic_Error, c)
      else (Inr (), c\<lparr>submission_plan := Some \<lparr>plan_run_id = run_id c, plan_task_ids = task_ids,
                                              publication_closed = False\<rparr>\<rparr>))"

definition emplace_dirty_hp_write_buffer :: "bool \<Rightarrow> RunControl \<Rightarrow> unit res \<times> RunControl" where
  "emplace_dirty_hp_write_buffer seed c =
     (if arbiter_state c \<noteq> Open then (Inl Logic_Error, c)
      else if dirty_hp_write_buffer c \<noteq> None then (Inl Logic_Error, c)
      else (Inr (), c\<lparr>dirty_hp_write_buffer := Some seed\<rparr>))"

definition contains_task_identity :: "SubmissionPlan \<Rightarrow> ComputeRunTaskIdentity \<Rightarrow> bool" where
  "contains_task_identity p i \<longleftrightarrow>
     task_run_id i = plan_run_id p
     \<and> (let v = unat (local_task_id i) in
         v < length (plan_task_ids p) \<and> 0 \<le> plan_task_ids p ! v \<and> nat (plan_task_ids p ! v) = v)"

definition accepts_task_identity :: "ComputeRunTaskIdentity \<Rightarrow> RunControl \<Rightarrow> bool" where
  "accepts_task_identity i c = (case submission_plan c of None \<Rightarrow> False | Some p \<Rightarrow> contains_task_identity p i)"

definition publish_task_failure ::
  "ComputeRunTaskIdentity \<Rightarrow> ps_exn option \<Rightarrow> RunControl \<Rightarrow> bool res \<times> RunControl" where
  "publish_task_failure i e c =
     (case e of
        None \<Rightarrow> (Inl Invalid_Argument, c)
      | Some x \<Rightarrow>
          if \<not> accepts_task_identity i c then (Inr False, c)
          else (case publish_terminal (failed_with x) c of (b, c') \<Rightarrow> (Inr b, c')))"

section \<open>Leases and settlement counters\<close>

definition size_t_max :: nat where
  "size_t_max = 2 ^ 64 - 1"

definition lease_retain :: "RunControl \<Rightarrow> RunControl res" where
  "lease_retain c =
     (if active_leases c = size_t_max then Inl Terminate
      else Inr (c\<lparr>active_leases := active_leases c + 1, lease_handles := lease_handles c + 1\<rparr>))"

definition acquire_lease :: "RunControl \<Rightarrow> RunControl res" where
  "acquire_lease c = (if terminal_outcome c \<noteq> None then Inl Logic_Error else lease_retain c)"

definition lease_release :: "RunControl \<Rightarrow> RunControl res" where
  "lease_release c =
     (if active_leases c = 0 then Inl Terminate
      else Inr (c\<lparr>active_leases := active_leases c - 1, lease_handles := lease_handles c - 1\<rparr>))"

definition is_quiescent :: "RunControl \<Rightarrow> bool" where
  "is_quiescent c \<longleftrightarrow> active_leases c = 0"

definition begin_resource_settlement_observation :: "nat \<Rightarrow> RunControl \<Rightarrow> unit res \<times> RunControl" where
  "begin_resource_settlement_observation telemetry c =
     (if lifecycle_telemetry c \<noteq> Some telemetry
         \<and> (pending_root_reservations c \<noteq> 0 \<or> live_root_reservations c \<noteq> 0) then (Inl Logic_Error, c)
      else
        let c1 = c\<lparr>lifecycle_telemetry := Some telemetry\<rparr> in
        if pending_root_reservations c1 = u64_max then (Inl Overflow_Error, c1)
        else (Inr (), c1\<lparr>pending_root_reservations := pending_root_reservations c1 + 1\<rparr>))"

definition commit_resource_settlement_observation :: "RunControl \<Rightarrow> RunControl res" where
  "commit_resource_settlement_observation c =
     (if pending_root_reservations c = 0 \<or> live_root_reservations c = u64_max then Inl Terminate
      else if lifecycle_telemetry c = None then Inl Terminate
      else Inr (c\<lparr>pending_root_reservations := pending_root_reservations c - 1,
                  live_root_reservations := live_root_reservations c + 1\<rparr>))"

definition cancel_resource_settlement_observation :: "RunControl \<Rightarrow> RunControl res" where
  "cancel_resource_settlement_observation c =
     (if pending_root_reservations c = 0 then Inl Terminate
      else Inr (c\<lparr>pending_root_reservations := pending_root_reservations c - 1\<rparr>))"

definition complete_resource_settlement_observation :: "RunControl \<Rightarrow> RunControl res" where
  "complete_resource_settlement_observation c =
     (if live_root_reservations c = 0 then Inl Terminate
      else if lifecycle_telemetry c = None then Inl Terminate
      else Inr (c\<lparr>live_root_reservations := live_root_reservations c - 1\<rparr>))"

definition resource_settled :: "RunControl \<Rightarrow> bool res" where
  "resource_settled c =
     (if terminal_outcome c = None then Inl Logic_Error
      else Inr (pending_root_reservations c = 0 \<and> live_root_reservations c = 0))"

section \<open>Steps\<close>

inductive run_step :: "RunControl \<Rightarrow> RunControl \<Rightarrow> bool" where
  succeed: "publish_succeeded c = (b, c') \<Longrightarrow> run_step c c'"
| fail: "publish_failed e c = (b, c') \<Longrightarrow> run_step c c'"
| task_failure: "publish_task_failure i e c = (b, c') \<Longrightarrow> run_step c c'"
| cancel: "cancel_claim reason c = (b, c') \<Longrightarrow> run_step c c'"
| dispatch: "dispatch_one throws c = (e, c') \<Longrightarrow> run_step c c'"
| commit: "commit_claim now c = (b, c') \<Longrightarrow> run_step c c'"
| contender_succeed: "contender_publish succeeded c = (b, c') \<Longrightarrow> run_step c c'"
| contender_fail: "contender_publish (failed_with e) c = (b, c') \<Longrightarrow> run_step c c'"
| contender_drop: "contender_abandon c = Inr c' \<Longrightarrow> run_step c c'"
| register: "register_cancellation_notification throws has_callback c = (r, c') \<Longrightarrow> run_step c c'"
| reset: "run_step c (reset_registration s c)"
| advance: "advance_to next c = (r, c') \<Longrightarrow> run_step c c'"
| plan: "emplace_submission_plan task_ids c = (r, c') \<Longrightarrow> run_step c c'"
| buffer: "emplace_dirty_hp_write_buffer seed c = (r, c') \<Longrightarrow> run_step c c'"
| acquire: "acquire_lease c = Inr c' \<Longrightarrow> run_step c c'"
| copy: "0 < lease_handles c \<Longrightarrow> lease_retain c = Inr c' \<Longrightarrow> run_step c c'"
| release: "0 < lease_handles c \<Longrightarrow> lease_release c = Inr c' \<Longrightarrow> run_step c c'"
| observe_begin: "begin_resource_settlement_observation telemetry c = (r, c') \<Longrightarrow> run_step c c'"
| observe_commit: "commit_resource_settlement_observation c = Inr c' \<Longrightarrow> run_step c c'"
| observe_cancel: "cancel_resource_settlement_observation c = Inr c' \<Longrightarrow> run_step c c'"
| observe_complete: "complete_resource_settlement_observation c = Inr c' \<Longrightarrow> run_step c c'"

definition run_init :: "RunControl \<Rightarrow> bool" where
  "run_init c \<longleftrightarrow> (\<exists>s clock next next'. make_run s clock next = Inr (c, next'))"

section \<open>Invariants\<close>

definition outcome_wf :: "ComputeRunTerminalOutcome \<Rightarrow> bool" where
  "outcome_wf oc \<longleftrightarrow> oc = succeeded \<or> (\<exists>e. oc = failed_with e) \<or> (\<exists>r. oc = cancelled r)"

definition control_inv :: "RunControl \<Rightarrow> bool" where
  "control_inv c \<longleftrightarrow>
     (arbiter_state c = Arbiter_Terminal \<longleftrightarrow> terminal_outcome c \<noteq> None)
     \<and> (contender_live c \<longleftrightarrow> arbiter_state c = CommitClaimed)
     \<and> (\<forall>oc. terminal_outcome c = Some oc \<longrightarrow> outcome_wf oc)
     \<and> (arbiter_state c = CommitClaimed \<longrightarrow> run_phase c = CommitPending)
     \<and> run_phase c \<noteq> Terminal
     \<and> active_leases c = lease_handles c
     \<and> (pending_root_reservations c \<noteq> 0 \<or> live_root_reservations c \<noteq> 0 \<longrightarrow> lifecycle_telemetry c \<noteq> None)
     \<and> (\<forall>p. submission_plan c = Some p \<longrightarrow> plan_run_id p = run_id c
           \<and> (terminal_outcome c \<noteq> None \<longrightarrow> publication_closed p))"

definition called :: "RunControl \<Rightarrow> nat set" where
  "called c = fst ` set (calls c)"

definition slots_inv :: "RunControl \<Rightarrow> bool" where
  "slots_inv c \<longleftrightarrow>
     distinct (cancellation_slots c) \<and> (\<forall>s \<in> set (cancellation_slots c). s < next_slot c)
     \<and> (\<forall>s. slot_status c s = Slot_Active \<longrightarrow> s \<in> set (cancellation_slots c))
     \<and> distinct (map fst (calls c))
     \<and> (\<forall>s r. (s, r) \<in> set (calls c) \<longrightarrow> s < next_slot c \<and> terminal_outcome c = Some (cancelled r))
     \<and> (dispatch_aborted c \<longrightarrow> dispatching c = None \<and> (\<exists>r. terminal_outcome c = Some (cancelled r)))
     \<and> (\<forall>r k b. dispatching c = Some (r, k, b) \<longrightarrow>
           terminal_outcome c = Some (cancelled r)
           \<and> (\<forall>s \<in> set (take k (cancellation_slots c)). slot_status c s = Slot_Active \<longrightarrow> s \<in> called c)
           \<and> set (drop k (cancellation_slots c)) \<inter> called c = {})
     \<and> (\<forall>r. terminal_outcome c = Some (cancelled r) \<and> dispatching c = None \<and> \<not> dispatch_aborted c \<longrightarrow>
           (\<forall>s. slot_status c s = Slot_Active \<longrightarrow> s \<in> called c))"

definition run_inv :: "RunControl \<Rightarrow> bool" where
  "run_inv c \<longleftrightarrow> control_inv c \<and> slots_inv c"

lemma slots_invD:
  assumes "slots_inv c"
  shows "distinct (cancellation_slots c)" "\<And>s. s \<in> set (cancellation_slots c) \<Longrightarrow> s < next_slot c"
    "\<And>s. slot_status c s = Slot_Active \<Longrightarrow> s \<in> set (cancellation_slots c)"
    "distinct (map fst (calls c))"
    "\<And>s r. (s, r) \<in> set (calls c) \<Longrightarrow> s < next_slot c \<and> terminal_outcome c = Some (cancelled r)"
    "\<And>s. s \<in> called c \<Longrightarrow> s < next_slot c"
    "dispatch_aborted c \<Longrightarrow> dispatching c = None \<and> (\<exists>r. terminal_outcome c = Some (cancelled r))"
    "\<And>r k b. dispatching c = Some (r, k, b) \<Longrightarrow> terminal_outcome c = Some (cancelled r)"
    "\<And>r s. terminal_outcome c = Some (cancelled r) \<Longrightarrow> dispatching c = None \<Longrightarrow> \<not> dispatch_aborted c \<Longrightarrow>
       slot_status c s = Slot_Active \<Longrightarrow> s \<in> called c"
proof -
  show five: "(s, r) \<in> set (calls c) \<Longrightarrow> s < next_slot c \<and> terminal_outcome c = Some (cancelled r)" for s r
    using assms unfolding slots_inv_def by (elim conjE) blast
  show "s \<in> called c \<Longrightarrow> s < next_slot c" for s unfolding called_def by (auto dest: five)
qed (use assms in \<open>unfold slots_inv_def, (elim conjE, blast)+\<close>)

lemma outcome_simps [simp]:
  "outcome_wf succeeded" "outcome_wf (failed_with e)" "outcome_wf (cancelled r)"
  "cancelled r = cancelled r' \<longleftrightarrow> r = r'" "succeeded \<noteq> cancelled r" "failed_with e \<noteq> cancelled r"
  "kind (cancelled r) = Cancelled" "kind succeeded = Succeeded" "kind (failed_with e) = Failed"
  "cancellation_reason (cancelled r) = Some r"
  by (auto simp: outcome_wf_def succeeded_def failed_with_def cancelled_def)

lemma outcome_wf_cancelled: "outcome_wf oc \<Longrightarrow> kind oc = Cancelled \<Longrightarrow> \<exists>r. oc = cancelled r"
  by (auto simp: outcome_wf_def)

lemma settle_fields [simp]:
  "terminal_outcome (settle oc c) = Some oc" "arbiter_state (settle oc c) = Arbiter_Terminal"
  "cancellation_slots (settle oc c) = cancellation_slots c" "slot_status (settle oc c) = slot_status c"
  "next_slot (settle oc c) = next_slot c" "calls (settle oc c) = calls c" "dispatching (settle oc c) = dispatching c"
  "dispatch_aborted (settle oc c) = dispatch_aborted c" "contender_live (settle oc c) = contender_live c"
  "run_phase (settle oc c) = run_phase c" "active_leases (settle oc c) = active_leases c"
  "lease_handles (settle oc c) = lease_handles c" "run_id (settle oc c) = run_id c"
  "pending_root_reservations (settle oc c) = pending_root_reservations c"
  "live_root_reservations (settle oc c) = live_root_reservations c"
  "lifecycle_telemetry (settle oc c) = lifecycle_telemetry c"
  "submission_plan (settle oc c) = map_option (\<lambda>p. p\<lparr>publication_closed := True\<rparr>) (submission_plan c)"
  by (simp_all add: settle_def close_plan_def)

text \<open>Settling an unsettled run.\<close>

lemma control_inv_settle:
  assumes "control_inv c" "outcome_wf oc"
  shows "control_inv ((settle oc c)\<lparr>contender_live := False, dispatching := d\<rparr>)"
  using assms by (auto simp: control_inv_def)

lemma slots_inv_settle:
  assumes "slots_inv c" "terminal_outcome c = None"
  shows "(\<And>r. oc \<noteq> cancelled r) \<Longrightarrow> slots_inv ((settle oc c)\<lparr>contender_live := b\<rparr>)"
    and "slots_inv ((settle (cancelled r) c)\<lparr>dispatching := Some (r, 0, b')\<rparr>)"
proof -
  have calls: "calls c = []" using assms by (cases "calls c") (auto simp: slots_inv_def)
  have d: "dispatching c = None" using assms by (cases "dispatching c") (auto simp: slots_inv_def)
  have na: "\<not> dispatch_aborted c" using assms by (auto simp: slots_inv_def)
  show "slots_inv ((settle oc c)\<lparr>contender_live := b\<rparr>)" if "\<And>r. oc \<noteq> cancelled r"
    using assms calls d na that by (auto simp: slots_inv_def called_def)
  show "slots_inv ((settle (cancelled r) c)\<lparr>dispatching := Some (r, 0, b')\<rparr>)"
    using assms calls d na by (auto simp: slots_inv_def called_def)
qed

lemma run_inv_publish:
  assumes inv: "run_inv c" and p: "publish_terminal oc c = (b, c')" and oc: "oc = succeeded \<or> (\<exists>e. oc = failed_with e)"
  shows "run_inv c'"
proof (cases "arbiter_state c = Open")
  case True
  have n: "terminal_outcome c = None" "\<not> contender_live c"
    using inv True by (auto simp: run_inv_def control_inv_def)
  then have n3: "dispatching c = None" using inv by (cases "dispatching c") (auto simp: run_inv_def slots_inv_def)
  have c': "c' = (settle oc c)\<lparr>contender_live := False, dispatching := None\<rparr>"
    using p True n n3 by (auto simp: publish_terminal_def settle_def close_plan_def)
  have "c' = (settle oc c)\<lparr>contender_live := False\<rparr>"
    using p True n by (auto simp: publish_terminal_def settle_def close_plan_def)
  then show ?thesis
    using control_inv_settle [of c oc None] slots_inv_settle(1) [OF _ n(1), of oc False] inv oc c'
    unfolding run_inv_def by auto
qed (use inv p in \<open>auto simp: publish_terminal_def\<close>)

lemma run_inv_cancel:
  assumes inv: "run_inv c" and o: "arbiter_state c = Open"
  shows "run_inv ((settle (cancelled r) c)\<lparr>dispatching := Some (r, 0, b)\<rparr>)"
proof -
  have n: "terminal_outcome c = None" "\<not> contender_live c"
    using inv o by (auto simp: run_inv_def control_inv_def)
  have "(settle (cancelled r) c)\<lparr>dispatching := Some (r, 0, b)\<rparr>
      = (settle (cancelled r) c)\<lparr>contender_live := False, dispatching := Some (r, 0, b)\<rparr>"
    using n by (simp add: settle_def close_plan_def)
  then show ?thesis
    using control_inv_settle [of c "cancelled r" "Some (r, 0, b)"] slots_inv_settle(2) [OF _ n(1), of r b] inv
    unfolding run_inv_def by auto
qed

lemma run_inv_resolve:
  assumes inv: "run_inv c" and o: "arbiter_state c = CommitClaimed" and oc: "oc = succeeded \<or> (\<exists>e. oc = failed_with e)"
  shows "run_inv ((settle oc c)\<lparr>contender_live := False\<rparr>)"
proof -
  have n: "terminal_outcome c = None" using inv o by (auto simp: run_inv_def control_inv_def)
  have d: "dispatching c = None" using inv n by (cases "dispatching c") (auto simp: run_inv_def slots_inv_def)
  have "(settle oc c)\<lparr>contender_live := False\<rparr> = (settle oc c)\<lparr>contender_live := False, dispatching := None\<rparr>"
    using d by (simp add: settle_def close_plan_def)
  then show ?thesis
    using control_inv_settle [of c oc None] slots_inv_settle(1) [OF _ n, of oc False] inv oc
    unfolding run_inv_def by auto
qed

text \<open>One round of the dispatch.\<close>

lemma run_inv_dispatch:
  assumes inv: "run_inv c" and d: "dispatch_one throws c = (e, c')"
  shows "run_inv c'"
proof (cases "dispatching c")
  case (Some x)
  obtain r k b where x: "x = (r, k, b)" by (cases x)
  note s = inv [unfolded run_inv_def slots_inv_def, THEN conjunct2]
  have disp: "terminal_outcome c = Some (cancelled r)"
    "\<forall>s \<in> set (take k (cancellation_slots c)). slot_status c s = Slot_Active \<longrightarrow> s \<in> called c"
    "set (drop k (cancellation_slots c)) \<inter> called c = {}" "\<not> dispatch_aborted c"
    using s Some x by auto
  show ?thesis
  proof (cases "length (cancellation_slots c) \<le> k")
    case True
    then have "c' = c\<lparr>dispatching := None\<rparr>" using d Some x by (simp add: dispatch_one_def)
    moreover have "\<forall>s. slot_status c s = Slot_Active \<longrightarrow> s \<in> called c" using s disp(2) True by auto
    ultimately show ?thesis
      using inv disp unfolding run_inv_def control_inv_def slots_inv_def called_def by auto
  next
    case False
    let ?s = "cancellation_slots c ! k"
    have tk: "take (Suc k) (cancellation_slots c) = take k (cancellation_slots c) @ [?s]"
      using False by (simp add: take_Suc_conv_app_nth)
    have dk: "drop k (cancellation_slots c) = ?s # drop (Suc k) (cancellation_slots c)"
      using False by (simp add: Cons_nth_drop_Suc)
    have nin: "?s \<notin> called c" using disp(3) dk by auto
    have "distinct (drop k (cancellation_slots c))" using s by simp
    then have nd: "?s \<notin> set (drop (Suc k) (cancellation_slots c))" unfolding dk by simp
    have mem: "?s \<in> set (cancellation_slots c)" using False by simp
    show ?thesis
    proof (cases "slot_status c ?s = Slot_Active")
      case na: False
      then have c': "c' = c\<lparr>dispatching := Some (r, Suc k, b)\<rparr>" using d Some x False by (simp add: dispatch_one_def)
      have "\<forall>s \<in> set (take (Suc k) (cancellation_slots c)). slot_status c s = Slot_Active \<longrightarrow> s \<in> called c"
        using disp(2) na unfolding tk by auto
      moreover have "set (drop (Suc k) (cancellation_slots c)) \<inter> called c = {}" using disp(3) dk by auto
      ultimately show ?thesis
        using inv disp Some x unfolding c' run_inv_def control_inv_def slots_inv_def called_def by auto
    next
      case True
      let ?c2 = "c\<lparr>dispatching := Some (r, Suc k, b), calls := calls c @ [(?s, r)]\<rparr>"
      have cd: "called (c\<lparr>dispatching := d', calls := calls c @ [(?s, r)]\<rparr>) = insert ?s (called c)" for d'
        by (auto simp: called_def)
      have c': "c' = (if throws ?s = None \<or> b then ?c2 else ?c2\<lparr>dispatching := None, dispatch_aborted := True\<rparr>)"
        using d Some x False True by (auto simp: dispatch_one_def Let_def split: if_splits)
      have slots2: "slots_inv ?c2"
        using s disp nin nd mem unfolding slots_inv_def cd by (simp add: tk called_def) (use disp in \<open>auto simp: called_def dk\<close>)
      then have "slots_inv (?c2\<lparr>dispatching := None, dispatch_aborted := True\<rparr>)"
        using disp(1) by (auto simp: slots_inv_def called_def)
      moreover have "control_inv ?c2" "control_inv (?c2\<lparr>dispatching := None, dispatch_aborted := True\<rparr>)"
        using inv by (simp_all add: run_inv_def control_inv_def)
      ultimately show ?thesis using slots2 by (simp add: c' run_inv_def)
    qed
  qed
qed (use inv d in \<open>simp add: dispatch_one_def\<close>)

lemma install_slot_set:
  assumes "s \<notin> set xs" "distinct xs"
  shows "distinct (install_slot st s xs)" "set (install_slot st s xs) \<subseteq> insert s (set xs)" "s \<in> set (install_slot st s xs)"
    "\<And>x. x \<in> set xs \<Longrightarrow> st x \<noteq> Slot_Released \<Longrightarrow> x \<in> set (install_slot st s xs)"
  using assms by (induction xs) auto

lemma run_inv_register:
  assumes inv: "run_inv c" and d: "register_cancellation_notification throws cb c = (r, c')"
  shows "run_inv c'"
proof (cases "cb")
  case True
  note s = inv [unfolded run_inv_def slots_inv_def, THEN conjunct2]
  note k = inv [unfolded run_inv_def control_inv_def, THEN conjunct1]
  have sl: "slots_inv c" using inv by (simp add: run_inv_def)
  let ?s = "next_slot c"
  have new: "?s \<notin> set (cancellation_slots c)" "?s \<notin> called c" "slot_status c ?s \<noteq> Slot_Active"
    using slots_invD(2,6) [OF sl, of ?s] slots_invD(3) [OF sl, of ?s] by blast+
  note ins = install_slot_set [OF new(1) slots_invD(1) [OF sl], where st = "slot_status c"]
  show ?thesis
  proof (cases "arbiter_state c = Open")
    case o: True
    then have t: "terminal_outcome c = None" using k by simp
    have t2: "calls c = []" "dispatching c = None" "\<not> dispatch_aborted c"
      using slots_invD(5,7,8) [OF sl] t by (cases "calls c"; cases "dispatching c"; force)+
    have c': "c' = c\<lparr>next_slot := ?s + 1, cancellation_slots := install_slot (slot_status c) ?s (cancellation_slots c),
        slot_status := (slot_status c)(?s := Slot_Active)\<rparr>"
      using d True o by (simp add: register_cancellation_notification_def Let_def)
    have "s < Suc ?s" if "s \<in> set (install_slot (slot_status c) ?s (cancellation_slots c))" for s
      using ins(2) slots_invD(2) [OF sl, of s] that by auto
    then have "slots_inv c'"
      using ins(1,3,4) slots_invD(3) [OF sl] t t2 by (auto simp: slots_inv_def c')
    then show ?thesis using k by (simp add: run_inv_def control_inv_def c')
  next
    case False
    let ?c2 = "c\<lparr>next_slot := ?s + 1, slot_status := (slot_status c)(?s := Slot_Released)\<rparr>"
    have c2: "slots_inv ?c2" "control_inv ?c2"
      using s k new by (auto simp: slots_inv_def control_inv_def called_def less_Suc_eq)
    have imm: "slots_inv (?c2\<lparr>calls := calls c @ [(?s, q)]\<rparr>)" if "terminal_outcome c = Some (cancelled q)" for q
    proof -
      have cd: "called (?c2\<lparr>calls := calls c @ [(?s, q)]\<rparr>) = insert ?s (called c)" by (auto simp: called_def)
      have "set (drop n (cancellation_slots c)) \<inter> insert ?s (called c) = set (drop n (cancellation_slots c)) \<inter> called c" for n
        using new(1) in_set_dropD by fastforce
      with s that new show ?thesis unfolding slots_inv_def cd by (auto simp: called_def intro: less_SucI)
    qed
    have "c' = ?c2 \<or> (\<exists>q. terminal_outcome c = Some (cancelled q) \<and> c' = ?c2\<lparr>calls := calls c @ [(?s, q)]\<rparr>)"
    proof (cases "terminal_outcome c")
      case (Some oc)
      show ?thesis
      proof (cases "kind oc = Cancelled")
        case canc: True
        then obtain q where "oc = cancelled q" using outcome_wf_cancelled k Some by blast
        then show ?thesis using d True False Some
          by (cases "throws ?s") (simp_all add: register_cancellation_notification_def Let_def)
      qed (use d True False Some in \<open>simp add: register_cancellation_notification_def Let_def\<close>)
    qed (use d True False in \<open>simp add: register_cancellation_notification_def Let_def\<close>)
    then show ?thesis using c2 imm k by (auto simp: run_inv_def control_inv_def)
  qed
qed (use inv d in \<open>simp add: register_cancellation_notification_def\<close>)

lemma run_inv_reset: "run_inv c \<Longrightarrow> run_inv (reset_registration s c)"
  by (auto simp: reset_registration_def run_inv_def control_inv_def slots_inv_def called_def)

text \<open>The operations that touch neither the arbiter nor the slots.\<close>

lemma slots_inv_cong:
  assumes "cancellation_slots c' = cancellation_slots c" "slot_status c' = slot_status c" "next_slot c' = next_slot c"
    "calls c' = calls c" "terminal_outcome c' = terminal_outcome c" "dispatching c' = dispatching c"
    "dispatch_aborted c' = dispatch_aborted c"
  shows "slots_inv c' = slots_inv c"
  unfolding slots_inv_def called_def assms ..

lemma run_inv_init: "run_init c \<Longrightarrow> run_inv c"
  by (auto simp: run_init_def make_run_def validate_submission_def mint_compute_run_id_value_def res_simps
      run_inv_def control_inv_def slots_inv_def called_def split: if_splits)

lemma run_inv_step:
  assumes inv: "run_inv c" and step: "run_step c c'"
  shows "run_inv c'"
  using step
proof cases
  case (succeed b)
  then show ?thesis using run_inv_publish [OF inv] by (simp add: publish_succeeded_def)
next
  case (fail e b)
  then show ?thesis using run_inv_publish [OF inv] inv
    by (auto simp: publish_failed_def split: option.splits prod.splits)
next
  case (task_failure i e b)
  then show ?thesis using run_inv_publish [OF inv] inv
    by (auto simp: publish_task_failure_def split: option.splits prod.splits if_splits)
next
  case (cancel reason b)
  then show ?thesis using run_inv_cancel [OF inv] inv by (auto simp: cancel_claim_def split: if_splits)
next
  case (dispatch throws e)
  then show ?thesis using run_inv_dispatch [OF inv] by blast
next
  case (commit now b)
  have "run_inv (c\<lparr>arbiter_state := CommitClaimed, contender_live := True\<rparr>)"
    if "arbiter_state c = Open" "run_phase c = CommitPending"
    using inv that slots_inv_cong [of "c\<lparr>arbiter_state := CommitClaimed, contender_live := True\<rparr>" c]
    by (simp add: run_inv_def control_inv_def)
  then show ?thesis using commit run_inv_cancel [OF inv] inv by (auto simp: commit_claim_def split: if_splits)
next
  case (contender_succeed b)
  then show ?thesis using run_inv_resolve [OF inv] inv
    by (auto simp: contender_publish_def resolve_commit_def split: if_splits)
next
  case (contender_fail e b)
  then show ?thesis using run_inv_resolve [OF inv] inv
    by (auto simp: contender_publish_def resolve_commit_def split: if_splits)
next
  case contender_drop
  then show ?thesis using run_inv_resolve [OF inv] inv
    by (auto simp: contender_abandon_def resolve_commit_def split: if_splits)
next
  case (register throws cb r)
  then show ?thesis using run_inv_register [OF inv] by blast
next
  case (reset s)
  then show ?thesis using run_inv_reset [OF inv] by simp
next
  case (advance ph r)
  then have "c' = c \<or> arbiter_state c = Open \<and> ph \<noteq> Terminal \<and> c' = c\<lparr>run_phase := ph\<rparr>"
    by (cases ph) (auto simp: advance_to_def split: sum.splits if_splits)
  then show ?thesis using inv slots_inv_cong [of c' c] by (auto simp: run_inv_def control_inv_def)
next
  case (plan task_ids r)
  then show ?thesis using inv slots_inv_cong [of c' c]
    by (auto simp: emplace_submission_plan_def run_inv_def control_inv_def split: if_splits)
next
  case (buffer seed r)
  then show ?thesis using inv slots_inv_cong [of c' c]
    by (auto simp: emplace_dirty_hp_write_buffer_def run_inv_def control_inv_def split: if_splits)
next
  case acquire
  then show ?thesis using inv slots_inv_cong [of c' c]
    by (auto simp: acquire_lease_def lease_retain_def run_inv_def control_inv_def split: if_splits)
next
  case copy
  then show ?thesis using inv slots_inv_cong [of c' c]
    by (auto simp: lease_retain_def run_inv_def control_inv_def split: if_splits)
next
  case release
  then show ?thesis using inv slots_inv_cong [of c' c]
    by (auto simp: lease_release_def run_inv_def control_inv_def split: if_splits)
next
  case (observe_begin telemetry r)
  then have "c' = c \<or> c' = c\<lparr>lifecycle_telemetry := Some telemetry\<rparr>
      \<or> c' = c\<lparr>lifecycle_telemetry := Some telemetry, pending_root_reservations := pending_root_reservations c + 1\<rparr>"
    by (auto simp: begin_resource_settlement_observation_def Let_def split: if_splits)
  then show ?thesis using inv slots_inv_cong [of c' c] by (auto simp: run_inv_def control_inv_def)
next
  case observe_commit
  then show ?thesis using inv slots_inv_cong [of c' c]
    by (auto simp: commit_resource_settlement_observation_def run_inv_def control_inv_def split: if_splits)
next
  case observe_cancel
  then show ?thesis using inv slots_inv_cong [of c' c]
    by (auto simp: cancel_resource_settlement_observation_def run_inv_def control_inv_def split: if_splits)
next
  case observe_complete
  then show ?thesis using inv slots_inv_cong [of c' c]
    by (auto simp: complete_resource_settlement_observation_def run_inv_def control_inv_def split: if_splits)
qed

interpretation run_sys: inv_system run_init run_step run_inv
  by unfold_locales (rule run_inv_init, assumption, rule run_inv_step)

section \<open>Finality\<close>

definition phase_rank :: "ComputeRunPhase \<Rightarrow> nat" where
  "phase_rank p = (case nonterminal_phase_rank p of Inr n \<Rightarrow> n | Inl _ \<Rightarrow> 5)"

lemma phase_rank_simps [simp]:
  "phase_rank Created = 0" "phase_rank Admitted = 1" "phase_rank Queued = 2" "phase_rank Running = 3"
  "phase_rank CommitPending = 4" "phase_rank Terminal = 5"
  by (simp_all add: phase_rank_def)

lemma phase_rank_le: "phase_rank p \<le> 5"
  by (cases p) simp_all

text \<open>Each step leaves outcome and phase alone, or settles an unsettled run, or advances an open one.\<close>

lemma run_step_kinds:
  assumes "run_inv c" "run_step c c'"
  shows "(terminal_outcome c' = terminal_outcome c \<and> phase_rank (observed_phase c) \<le> phase_rank (observed_phase c'))
    \<or> (terminal_outcome c = None \<and> arbiter_state c' = Arbiter_Terminal)"
proof -
  have n: "arbiter_state c \<noteq> Arbiter_Terminal \<Longrightarrow> terminal_outcome c = None"
    using assms(1) by (auto simp: run_inv_def control_inv_def)
  have p: "?thesis" if "publish_terminal oc c = (b, c')" for oc b
    using that n by (auto simp: publish_terminal_def split: if_splits)
  from assms(2) show ?thesis
  proof cases
    case (advance ph r)
    then show ?thesis
      by (cases "run_phase c"; cases ph) (auto simp: advance_to_def observed_phase_def split: if_splits)
  next
    case (fail e b)
    then show ?thesis using p by (auto simp: publish_failed_def split: option.splits prod.splits)
  next
    case (task_failure i e b)
    then show ?thesis using p by (auto simp: publish_task_failure_def split: option.splits prod.splits if_splits)
  next
    case (succeed b)
    then show ?thesis using p by (simp add: publish_succeeded_def)
  next
    case (dispatch throws e)
    then show ?thesis
      by (auto simp: dispatch_one_def Let_def observed_phase_def split: option.splits prod.splits if_splits)
  next
    case (register throws cb r)
    then show ?thesis
      by (auto simp: register_cancellation_notification_def Let_def observed_phase_def split: option.splits if_splits)
  next
    case (commit now b)
    then show ?thesis using n by (auto simp: commit_claim_def observed_phase_def split: if_splits)
  qed (use n in \<open>auto simp: cancel_claim_def contender_publish_def resolve_commit_def contender_abandon_def
        reset_registration_def emplace_submission_plan_def emplace_dirty_hp_write_buffer_def acquire_lease_def
        lease_retain_def lease_release_def begin_resource_settlement_observation_def Let_def
        commit_resource_settlement_observation_def cancel_resource_settlement_observation_def
        complete_resource_settlement_observation_def observed_phase_def split: if_splits\<close>)
qed

lemma run_final:
  assumes "run_step\<^sup>*\<^sup>* c d" "run_inv c"
  shows "run_inv d \<and> (\<forall>oc. terminal_outcome c = Some oc \<longrightarrow> terminal_outcome d = Some oc)
    \<and> phase_rank (observed_phase c) \<le> phase_rank (observed_phase d)"
  using assms
proof (induction rule: rtranclp_induct)
  case (step d e)
  then have d: "run_inv d" "\<forall>oc. terminal_outcome c = Some oc \<longrightarrow> terminal_outcome d = Some oc"
    "phase_rank (observed_phase c) \<le> phase_rank (observed_phase d)" by auto
  have "observed_phase e = Terminal" if "arbiter_state e = Arbiter_Terminal" using that by (simp add: observed_phase_def)
  with run_step_kinds [OF d(1) step(2)] d phase_rank_le [of "observed_phase c"]
  show ?case using run_inv_step [OF d(1) step(2)] by fastforce
qed simp

section \<open>Dispatch of cancellation callbacks\<close>

definition first_failure :: "(nat \<Rightarrow> ps_exn option) \<Rightarrow> nat list \<Rightarrow> ps_exn option" where
  "first_failure throws ss = (case find (\<lambda>s. throws s \<noteq> None) ss of None \<Rightarrow> None | Some s \<Rightarrow> throws s)"

lemma dispatch_loop_contained:
  assumes "dispatching c = Some (r, k, True)" "k \<le> length (cancellation_slots c)"
  shows "dispatch_loop throws first c =
    (case first of None \<Rightarrow> first_failure throws (filter (\<lambda>s. slot_status c s = Slot_Active) (drop k (cancellation_slots c)))
     | Some e \<Rightarrow> Some e,
     c\<lparr>dispatching := None,
       calls := calls c @ map (\<lambda>s. (s, r)) (filter (\<lambda>s. slot_status c s = Slot_Active) (drop k (cancellation_slots c)))\<rparr>)"
  using assms
proof (induction "length (cancellation_slots c) - k" arbitrary: c k first)
  case 0
  then show ?case
    by (subst dispatch_loop.simps, simp add: dispatch_one_def, subst dispatch_loop.simps)
      (simp add: first_failure_def split: option.split)
next
  case (Suc n)
  let ?s = "cancellation_slots c ! k"
  have k: "k < length (cancellation_slots c)" using Suc.hyps(2) by simp
  then have dk: "drop k (cancellation_slots c) = ?s # drop (Suc k) (cancellation_slots c)"
    by (simp add: Cons_nth_drop_Suc)
  show ?case
  proof (cases "slot_status c ?s = Slot_Active")
    case True
    let ?c1 = "c\<lparr>dispatching := Some (r, Suc k, True), calls := calls c @ [(?s, r)]\<rparr>"
    have one: "dispatch_one throws c = (throws ?s, ?c1)" using Suc.prems k True by (simp add: dispatch_one_def Let_def)
    have "dispatch_loop throws first c = dispatch_loop throws (case first of None \<Rightarrow> throws ?s | Some e \<Rightarrow> Some e) ?c1"
      using Suc.prems by (subst dispatch_loop.simps) (cases first; simp add: one)
    then show ?thesis
      using Suc.hyps(1) [of ?c1 "Suc k"] Suc.hyps(2) k True dk by (auto simp: first_failure_def split: option.splits)
  next
    case False
    let ?c1 = "c\<lparr>dispatching := Some (r, Suc k, True)\<rparr>"
    have one: "dispatch_one throws c = (None, ?c1)" using Suc.prems k False by (simp add: dispatch_one_def Let_def)
    have "dispatch_loop throws first c = dispatch_loop throws first ?c1"
      using Suc.prems by (subst dispatch_loop.simps) (simp add: one split: option.split)
    then show ?thesis
      using Suc.hyps(1) [of ?c1 "Suc k"] Suc.hyps(2) k False dk by (cases first) simp_all
  qed
qed

section \<open>An example run\<close>

definition demo_submission :: ComputeRunSubmission where
  "demo_submission = \<lparr>graph_identity = ''g'', sub_graph_instance = 1, sub_revision = 1, sub_target = 7,
     sub_intent = GlobalHighPrecision, quality = Full,
     qos = \<lparr>service_class = Throughput_Class, deadline = None, qos_weight = 1, maximum_parallelism = None\<rparr>,
     supersession = (SupersessionKey 7 GlobalHighPrecision, 1)\<rparr>"

definition demo_run :: RunControl where
  "demo_run = (case make_run demo_submission True 1 of Inr (c, _) \<Rightarrow> c | Inl _ \<Rightarrow> undefined)"

definition demo_watched :: RunControl where
  "demo_watched = snd (register_cancellation_notification (\<lambda>_. None) True (snd (advance_to CommitPending demo_run)))"

definition demo_claimed :: RunControl where
  "demo_claimed = snd (commit_claim 0 demo_watched)"

lemmas run_demo_defs = demo_run_def make_run_def demo_submission_def validate_submission_def
  mint_compute_run_id_value_def u64_max_def res_simps

lemma demo_run_reach: "reachable run_init run_step demo_run"
proof -
  have "run_init demo_run"
    unfolding run_init_def
    by (rule exI [of _ demo_submission], rule exI [of _ True], rule exI [of _ 1]) (simp add: run_demo_defs)
  then show ?thesis by (rule reachable_init)
qed

lemma demo_watched_reach: "reachable run_init run_step demo_watched"
proof -
  have "reachable run_init run_step (snd (advance_to CommitPending demo_run))"
    by (rule reachable_step [where step = run_step, OF demo_run_reach run_step.advance [OF prod.collapse [symmetric]]])
  then show ?thesis unfolding demo_watched_def
    by (rule reachable_step [where step = run_step, OF _ run_step.register [OF prod.collapse [symmetric]]])
qed

lemma demo_claimed_reach: "reachable run_init run_step demo_claimed"
  unfolding demo_claimed_def
  by (rule reachable_step [where step = run_step, OF demo_watched_reach run_step.commit [OF prod.collapse [symmetric]]])

lemma demo_watched_state:
  "arbiter_state demo_watched = Open" "cancellation_slots demo_watched = [0]" "calls demo_watched = []"
  "slot_status demo_watched 0 = Slot_Active" "run_phase demo_watched = CommitPending"
  "terminal_outcome demo_watched = None" "deadline_expired 0 demo_watched = False"
  by (simp_all add: demo_watched_def register_cancellation_notification_def advance_to_def deadline_expired_def run_demo_defs)

lemma demo_claimed_state: "arbiter_state demo_claimed = CommitClaimed"
  using demo_watched_state by (simp add: demo_claimed_def commit_claim_def)

section \<open>Properties\<close>

text \<open>
  C11. A run is settled once and for good. In every reachable state the arbiter is terminal exactly
  when an outcome is published, the outcome is well formed and a plan is closed; no later step
  changes a published outcome or moves the observed phase backward. While a commit
  contender holds the claim, neither a cancellation nor another publication is accepted and
  nothing changes, and the contender, even when it is merely dropped, settles the run without
  terminating the process.
\<close>

theorem run_settled_once:
  assumes "reachable run_init run_step c" "run_step\<^sup>*\<^sup>* c d"
  shows "(arbiter_state d = Arbiter_Terminal \<longleftrightarrow> terminal_outcome d \<noteq> None)
    \<and> (\<forall>oc. terminal_outcome c = Some oc \<longrightarrow> outcome_wf oc \<and> terminal_outcome d = Some oc
         \<and> (\<forall>p. submission_plan d = Some p \<longrightarrow> publication_closed p))
    \<and> phase_rank (observed_phase c) \<le> phase_rank (observed_phase d)
    \<and> (arbiter_state c = CommitClaimed \<longrightarrow>
         contender_live c \<and> run_phase c = CommitPending
         \<and> cancel_claim r c = (False, c) \<and> publish_terminal oc c = (False, c)
         \<and> (\<exists>c'. contender_abandon c = Inr c' \<and> terminal_outcome c' = Some (failed_with Logic_Error)))"
proof -
  have inv: "run_inv c" by (rule run_sys.reachable_inv [OF assms(1)])
  note fin = run_final [OF assms(2) inv]
  have k: "control_inv c" "control_inv d" using inv fin by (auto simp: run_inv_def)
  have "contender_live c \<and> run_phase c = CommitPending
         \<and> cancel_claim r c = (False, c) \<and> publish_terminal oc c = (False, c)
         \<and> (\<exists>c'. contender_abandon c = Inr c' \<and> terminal_outcome c' = Some (failed_with Logic_Error))"
    if "arbiter_state c = CommitClaimed"
    using k(1) that by (simp add: control_inv_def cancel_claim_def publish_terminal_def contender_abandon_def resolve_commit_def)
  moreover have "arbiter_state d = Arbiter_Terminal \<longleftrightarrow> terminal_outcome d \<noteq> None"
    "\<And>q p. terminal_outcome d = Some q \<Longrightarrow> submission_plan d = Some p \<Longrightarrow> publication_closed p"
    "\<And>q. terminal_outcome c = Some q \<Longrightarrow> outcome_wf q"
    using k by (simp_all add: control_inv_def)
  ultimately show ?thesis using fin by blast
qed

theorem run_settled_once_witness:
  "arbiter_state demo_claimed = CommitClaimed \<and> cancel_claim Superseded demo_claimed = (False, demo_claimed)
     \<and> (\<exists>c'. contender_abandon demo_claimed = Inr c' \<and> terminal_outcome c' = Some (failed_with Logic_Error))"
  using run_settled_once [OF demo_claimed_reach rtranclp.rtrancl_refl, of Superseded succeeded] demo_claimed_state by blast

text \<open>
  C31. Cancellation notifies every registered owner exactly once. In every reachable state a
  callback has been invoked only with the reason of a published cancellation and at most
  once, and when no dispatch is under way or was cut short, every held registration of a cancelled run
  has been notified. A cancellation requested while the arbiter is open is accepted, terminates
  and notifies, in order, exactly the registrations then held, even when callbacks throw, and
  reports the first exception.
\<close>

theorem run_cancellation_notifies:
  assumes "reachable run_init run_step c"
  shows "distinct (map fst (calls c))
    \<and> (\<forall>(s, r) \<in> set (calls c). terminal_outcome c = Some (cancelled r))
    \<and> (\<forall>r s. terminal_outcome c = Some (cancelled r) \<and> dispatching c = None \<and> \<not> dispatch_aborted c
         \<and> slot_status c s = Slot_Active \<longrightarrow> (s, r) \<in> set (calls c))
    \<and> (arbiter_state c = Open \<longrightarrow>
         (\<exists>c'. let held = filter (\<lambda>s. slot_status c s = Slot_Active) (cancellation_slots c) in
            request_cancellation_containing_callbacks throws reason c = ((True, first_failure throws held), c')
            \<and> terminal_outcome c' = Some (cancelled reason) \<and> calls c' = map (\<lambda>s. (s, reason)) held
            \<and> dispatching c' = None \<and> {s. slot_status c s = Slot_Active} = set held))"
proof -
  have inv: "run_inv c" by (rule run_sys.reachable_inv [OF assms])
  have sl: "slots_inv c" using inv by (simp add: run_inv_def)
  have "\<forall>(s, r) \<in> set (calls c). terminal_outcome c = Some (cancelled r)" using slots_invD(5) [OF sl] by auto
  moreover have "(s, r) \<in> set (calls c)"
    if t: "terminal_outcome c = Some (cancelled r)" "dispatching c = None" "\<not> dispatch_aborted c" "slot_status c s = Slot_Active"
    for r s
  proof -
    obtain r' where "(s, r') \<in> set (calls c)" using slots_invD(9) [OF sl t] by (auto simp: called_def)
    with slots_invD(5) [OF sl this] t(1) show ?thesis by simp
  qed
  moreover have "\<exists>c'. let held = filter (\<lambda>s. slot_status c s = Slot_Active) (cancellation_slots c) in
            request_cancellation_containing_callbacks throws reason c = ((True, first_failure throws held), c')
            \<and> terminal_outcome c' = Some (cancelled reason) \<and> calls c' = map (\<lambda>s. (s, reason)) held
            \<and> dispatching c' = None \<and> {s. slot_status c s = Slot_Active} = set held"
    if o: "arbiter_state c = Open"
  proof -
    have "terminal_outcome c = None" using inv o by (auto simp: run_inv_def control_inv_def)
    then have "calls c = []" using slots_invD(5) [OF sl] by (cases "calls c") auto
    moreover have "{s. slot_status c s = Slot_Active} = {s \<in> set (cancellation_slots c). slot_status c s = Slot_Active}"
      using slots_invD(3) [OF sl] by auto
    ultimately show ?thesis
      using o dispatch_loop_contained [of "(settle (cancelled reason) c)\<lparr>dispatching := Some (reason, 0, True)\<rparr>" reason 0 throws None]
      by (simp add: request_cancellation_containing_callbacks_def cancel_claim_def Let_def)
  qed
  ultimately show ?thesis using slots_invD(4) [OF sl] by blast
qed

theorem run_cancellation_notifies_witness:
  "\<exists>c'. request_cancellation_containing_callbacks (\<lambda>_. Some Runtime_Error) ExplicitRequest demo_watched
       = ((True, Some Runtime_Error), c') \<and> calls c' = [(0, ExplicitRequest)]"
  using run_cancellation_notifies [OF demo_watched_reach, of "\<lambda>_. Some Runtime_Error" ExplicitRequest] demo_watched_state
  by (auto simp: Let_def first_failure_def)

text \<open>
  Leases and settlement counters are exact. In every reachable state the lease count is the
  number of live lease handles, so releasing a held lease never terminates the process and the run is
  quiescent exactly when no handle is left; and a started observation of physical resources can
  be committed, cancelled or completed without meeting a terminating branch, with the 64-bit
  counters moving by exactly one.
\<close>

theorem run_counters_exact:
  assumes "reachable run_init run_step c"
  shows "(is_quiescent c \<longleftrightarrow> lease_handles c = 0)
    \<and> (0 < lease_handles c \<longrightarrow> (\<exists>c'. lease_release c = Inr c' \<and> active_leases c' = lease_handles c - 1))
    \<and> (pending_root_reservations c \<noteq> 0 \<longrightarrow>
         (\<exists>c'. cancel_resource_settlement_observation c = Inr c'
               \<and> unat (pending_root_reservations c') = unat (pending_root_reservations c) - 1)
         \<and> (live_root_reservations c \<noteq> u64_max \<longrightarrow>
              (\<exists>c'. commit_resource_settlement_observation c = Inr c'
                 \<and> unat (pending_root_reservations c') = unat (pending_root_reservations c) - 1
                 \<and> unat (live_root_reservations c') = unat (live_root_reservations c) + 1)))
    \<and> (live_root_reservations c \<noteq> 0 \<longrightarrow>
         (\<exists>c'. complete_resource_settlement_observation c = Inr c'
               \<and> unat (live_root_reservations c') = unat (live_root_reservations c) - 1))"
proof -
  have k: "control_inv c" using run_sys.reachable_inv [OF assms] by (simp add: run_inv_def)
  have dec: "unat (x - 1) = unat x - 1" if "x \<noteq> 0" for x :: u64
    using that unat_sub_of_le [of 1 x] by (simp add: word_le_nat_alt unat_gt_0 Suc_leI)
  show ?thesis
    using k by (auto simp: control_inv_def is_quiescent_def lease_release_def cancel_resource_settlement_observation_def
        commit_resource_settlement_observation_def complete_resource_settlement_observation_def dec unat_succ_no_wrap)
qed

theorem run_counters_exact_witness:
  "let c = snd (begin_resource_settlement_observation 0 demo_run) in
     \<exists>c'. commit_resource_settlement_observation c = Inr c' \<and> unat (live_root_reservations c') = 1"
proof -
  let ?c = "snd (begin_resource_settlement_observation 0 demo_run)"
  have r: "reachable run_init run_step ?c"
    by (rule reachable_step [where step = run_step, OF demo_run_reach run_step.observe_begin [OF prod.collapse [symmetric]]])
  have "pending_root_reservations ?c = 1" "live_root_reservations ?c = 0"
    by (simp_all add: begin_resource_settlement_observation_def run_demo_defs)
  then show ?thesis using run_counters_exact [OF r] by (auto simp: u64_max_def)
qed

end
