(* ===== verification/RunGroup.thy ===== *)
theory RunGroup
  imports ComputeRun
begin

text \<open>
  The request-wide cancellation source of \<open>src/lib/compute/compute_run.cpp\<close>, the pair of runs of a
  realtime request (\<open>src/lib/compute/run_group.cpp\<close>) and the gate between their commits
  (\<open>src/lib/compute/dirty_sibling_commit_gate.cpp\<close>). Runs live in a store indexed by run identity; a
  source refers to its children by identity, as the code does by weak pointers, so a child
  may be gone. \<open>fanout\<close> holds the children the accepted request has yet to cancel, \<open>attaching\<close> the
  late children whose attaching threads have yet to cancel them, and \<open>request_wins\<close> the children
  whose arbiter a request cancellation has won.
\<close>

section \<open>State\<close>

record RequestWorld =
  runs :: "u64 \<rightharpoonup> RunControl"
  next_run_id :: u64
  accepted_reason :: "ComputeRunCancellationReason option"
  child_cancellation_won :: bool
  child_ids :: "u64 list"
  child_sources :: "u64 list"
  fanout :: "u64 list"
  attaching :: "u64 list"
  request_wins :: "u64 list"

definition new_request :: "u64 \<Rightarrow> RequestWorld" where
  "new_request n = \<lparr>runs = Map.empty, next_run_id = n, accepted_reason = None, child_cancellation_won = False,
     child_ids = [], child_sources = [], fanout = [], attaching = [], request_wins = []\<rparr>"

section \<open>Request cancellation\<close>

text \<open>The critical section of \<open>attach\<close>; the late child of an accepted request is cancelled next.\<close>

definition attach_enter :: "u64 \<Rightarrow> RequestWorld \<Rightarrow> RequestWorld" where
  "attach_enter i w =
     (if i \<in> set (child_ids w) then w
      else
        let w1 = w\<lparr>child_ids := child_ids w @ [i], child_sources := child_sources w @ [i]\<rparr> in
        if accepted_reason w = None then w1 else w1\<lparr>attaching := attaching w1 @ [i]\<rparr>)"

text \<open>The arbiter step of the cancellation of one child, with the request's latch.\<close>

definition cancel_child :: "ComputeRunCancellationReason \<Rightarrow> u64 \<Rightarrow> RequestWorld \<Rightarrow> RequestWorld" where
  "cancel_child reason i w =
     (case runs w i of
        None \<Rightarrow> w
      | Some c \<Rightarrow>
          (case cancel_claim reason c of
             (False, _) \<Rightarrow> w
           | (True, c') \<Rightarrow> w\<lparr>runs := (runs w)(i \<mapsto> c'), child_cancellation_won := True,
                            request_wins := request_wins w @ [i]\<rparr>))"

definition request_begin :: "ComputeRunCancellationReason \<Rightarrow> RequestWorld \<Rightarrow> bool \<times> RequestWorld" where
  "request_begin reason w =
     (if accepted_reason w \<noteq> None then (False, w)
      else (True, w\<lparr>accepted_reason := Some reason, child_sources := [], fanout := child_sources w\<rparr>))"

definition accepted_child_cancellation_reason :: "RequestWorld \<Rightarrow> ComputeRunCancellationReason option" where
  "accepted_child_cancellation_reason w = (if \<not> child_cancellation_won w then None else accepted_reason w)"

text \<open>
  The whole calls, run by one thread: each child's callbacks are dispatched before the next child is
  cancelled, and the first callback exception is rethrown at the end.
\<close>

definition cancel_child_fully ::
  "(nat \<Rightarrow> ps_exn option) \<Rightarrow> ComputeRunCancellationReason \<Rightarrow> u64 \<Rightarrow> RequestWorld \<Rightarrow> ps_exn option \<times> RequestWorld" where
  "cancel_child_fully throws reason i w =
     (let w1 = cancel_child reason i w in
      case runs w1 i of
        None \<Rightarrow> (None, w1)
      | Some c \<Rightarrow>
          if request_wins w1 = request_wins w then (None, w1)
          else (case dispatch_loop throws None c of (e, c') \<Rightarrow> (e, w1\<lparr>runs := (runs w1)(i \<mapsto> c')\<rparr>)))"

primrec cancel_children ::
  "(nat \<Rightarrow> ps_exn option) \<Rightarrow> ComputeRunCancellationReason \<Rightarrow> u64 list \<Rightarrow> ps_exn option \<Rightarrow> RequestWorld
   \<Rightarrow> ps_exn option \<times> RequestWorld" where
  "cancel_children throws reason [] first w = (first, w)"
| "cancel_children throws reason (i # is) first w =
     (case cancel_child_fully throws reason i w of
        (e, w1) \<Rightarrow> cancel_children throws reason is (case first of None \<Rightarrow> e | Some x \<Rightarrow> Some x) w1)"

definition request_source_cancellation ::
  "(nat \<Rightarrow> ps_exn option) \<Rightarrow> ComputeRunCancellationReason \<Rightarrow> RequestWorld \<Rightarrow> bool res \<times> RequestWorld" where
  "request_source_cancellation throws reason w =
     (case request_begin reason w of
        (False, _) \<Rightarrow> (Inr False, w)
      | (True, w1) \<Rightarrow>
          (case cancel_children throws reason (fanout w1) None (w1\<lparr>fanout := []\<rparr>) of
             (None, w2) \<Rightarrow> (Inr True, w2)
           | (Some e, w2) \<Rightarrow> (Inl e, w2)))"

definition attach ::
  "(nat \<Rightarrow> ps_exn option) \<Rightarrow> u64 \<Rightarrow> RequestWorld \<Rightarrow> unit res \<times> RequestWorld" where
  "attach throws i w =
     (let w1 = attach_enter i w in
      case accepted_reason w of
        Some reason \<Rightarrow>
          if i \<in> set (child_ids w) then (Inr (), w1)
          else (case cancel_child_fully throws reason i (w1\<lparr>attaching := attaching w\<rparr>) of
                  (None, w2) \<Rightarrow> (Inr (), w2)
                | (Some e, w2) \<Rightarrow> (Inl e, w2))
      | None \<Rightarrow> (Inr (), w1))"

section \<open>Steps\<close>

inductive request_step :: "RequestWorld \<Rightarrow> RequestWorld \<Rightarrow> bool" where
  new_run: "make_run s True (next_run_id w) = Inr (c, n) \<Longrightarrow>
     request_step w (w\<lparr>runs := (runs w)(run_id c \<mapsto> c), next_run_id := n\<rparr>)"
| run: "runs w i = Some c \<Longrightarrow> run_step c c' \<Longrightarrow> request_step w (w\<lparr>runs := (runs w)(i \<mapsto> c')\<rparr>)"
| expire: "request_step w (w\<lparr>runs := (runs w)(i := None)\<rparr>)"
| attach: "i < next_run_id w \<Longrightarrow> request_step w (attach_enter i w)"
| attach_cancel: "attaching w = i # rest \<Longrightarrow> accepted_reason w = Some reason \<Longrightarrow>
     request_step w (cancel_child reason i (w\<lparr>attaching := rest\<rparr>))"
| request: "request_begin reason w = (b, w') \<Longrightarrow> request_step w w'"
| fan: "fanout w = i # rest \<Longrightarrow> accepted_reason w = Some reason \<Longrightarrow>
     request_step w (cancel_child reason i (w\<lparr>fanout := rest\<rparr>))"

definition request_init :: "RequestWorld \<Rightarrow> bool" where
  "request_init w \<longleftrightarrow> (\<exists>n. w = new_request n)"

definition request_inv :: "RequestWorld \<Rightarrow> bool" where
  "request_inv w \<longleftrightarrow>
     (\<forall>i c. runs w i = Some c \<longrightarrow> run_inv c \<and> run_id c = i \<and> i < next_run_id w)
     \<and> (\<forall>i \<in> set (child_ids w) \<union> set (request_wins w). i < next_run_id w)
     \<and> set (request_wins w) \<subseteq> set (child_ids w)
     \<and> set (fanout w) \<union> set (attaching w) \<union> set (child_sources w) \<subseteq> set (child_ids w)
     \<and> (child_cancellation_won w \<longleftrightarrow> request_wins w \<noteq> [])
     \<and> (case accepted_reason w of
          None \<Rightarrow> fanout w = [] \<and> attaching w = [] \<and> request_wins w = [] \<and> set (child_sources w) = set (child_ids w)
        | Some reason \<Rightarrow>
            (\<forall>i c. runs w i = Some c \<and> i \<in> set (request_wins w) \<longrightarrow> terminal_outcome c = Some (cancelled reason))
            \<and> (\<forall>i c. runs w i = Some c \<and> i \<in> set (child_ids w) \<longrightarrow>
                 i \<in> set (fanout w) \<or> i \<in> set (attaching w) \<or> arbiter_state c \<noteq> Open))"

lemmas run_op_defs = publish_succeeded_def publish_terminal_def publish_failed_def publish_task_failure_def
  cancel_claim_def commit_claim_def contender_publish_def resolve_commit_def contender_abandon_def
  register_cancellation_notification_def reset_registration_def advance_to_def emplace_submission_plan_def
  emplace_dirty_hp_write_buffer_def acquire_lease_def lease_retain_def lease_release_def
  begin_resource_settlement_observation_def commit_resource_settlement_observation_def
  cancel_resource_settlement_observation_def complete_resource_settlement_observation_def Let_def
  dispatch_one_def

lemma run_step_closed:
  assumes "run_step c c'" "arbiter_state c \<noteq> Open"
  shows "arbiter_state c' \<noteq> Open"
  using assms
  by cases (auto simp: run_op_defs split: if_splits option.splits prod.splits sum.splits)

lemma run_step_id:
  assumes "run_step c c'"
  shows "run_id c' = run_id c"
  using assms
  by cases (auto simp: run_op_defs split: if_splits option.splits prod.splits sum.splits)

lemma cancel_claim_child:
  assumes "run_inv c" "cancel_claim reason c = (b, c')"
  shows "run_inv c'" "run_id c' = run_id c" "arbiter_state c' \<noteq> Open"
    "b \<Longrightarrow> terminal_outcome c' = Some (cancelled reason)" "\<not> b \<Longrightarrow> c' = c"
    "terminal_outcome c = Some oc \<Longrightarrow> terminal_outcome c' = Some oc"
proof -
  have step: "run_step c c'" by (rule run_step.cancel [OF assms(2)])
  show "run_inv c'" by (rule run_inv_step [OF assms(1) step])
  show "run_id c' = run_id c" by (rule run_step_id [OF step])
  show "terminal_outcome c = Some oc \<Longrightarrow> terminal_outcome c' = Some oc"
    using run_final [OF _ assms(1)] step by blast
qed (use assms in \<open>auto simp: cancel_claim_def split: if_splits\<close>)

text \<open>Cancelling a pending child keeps the invariant of the world with the child taken off its list.\<close>

lemma request_inv_cancel_child:
  assumes inv: "request_inv (w\<lparr>fanout := f, attaching := a\<rparr>)" and acc: "accepted_reason w = Some reason"
    and i: "i \<in> set f \<union> set a" "set f' \<union> set a' \<union> {i} = set f \<union> set a"
  shows "request_inv (cancel_child reason i (w\<lparr>fanout := f', attaching := a'\<rparr>))"
proof -
  let ?w = "w\<lparr>fanout := f', attaching := a'\<rparr>"
  have old: "\<And>j c. runs w j = Some c \<Longrightarrow> run_inv c \<and> run_id c = j \<and> j < next_run_id w"
    "\<And>j. j \<in> set (child_ids w) \<union> set (request_wins w) \<Longrightarrow> j < next_run_id w"
    "set (request_wins w) \<subseteq> set (child_ids w)" "set f \<union> set a \<union> set (child_sources w) \<subseteq> set (child_ids w)"
    "child_cancellation_won w \<longleftrightarrow> request_wins w \<noteq> []"
    "\<And>j c. runs w j = Some c \<Longrightarrow> j \<in> set (request_wins w) \<Longrightarrow> terminal_outcome c = Some (cancelled reason)"
    "\<And>j c. runs w j = Some c \<Longrightarrow> j \<in> set (child_ids w) \<Longrightarrow> j \<in> set f \<union> set a \<or> arbiter_state c \<noteq> Open"
    using inv acc by (auto simp: request_inv_def)
  have sub: "set f' \<union> set a' \<union> set (child_sources w) \<subseteq> set (child_ids w)" "i \<in> set (child_ids w)" using old(4) i by auto
  have later: "j \<in> set f' \<or> j \<in> set a' \<or> arbiter_state c \<noteq> Open"
    if "runs w j = Some c" "j \<in> set (child_ids w)" "j \<noteq> i" for j c
    using old(7) [OF that(1,2)] that(3) i(2) by auto
  show ?thesis
  proof (cases "runs w i")
    case None
    then have "cancel_child reason i ?w = ?w" by (simp add: cancel_child_def)
    moreover have "j \<noteq> i" if "runs w j = Some c" for j c using that None by auto
    ultimately show ?thesis using old(1,2,3,5,6) sub later acc unfolding request_inv_def by (auto split: option.splits)
  next
    case (Some c)
    obtain b c' where cc: "cancel_claim reason c = (b, c')" by (cases "cancel_claim reason c")
    note ch = cancel_claim_child [OF conjunct1 [OF old(1) [OF Some]] cc]
    show ?thesis
    proof (cases b)
      case True
      then have w': "cancel_child reason i ?w = ?w\<lparr>runs := (runs w)(i \<mapsto> c'), child_cancellation_won := True,
          request_wins := request_wins w @ [i]\<rparr>"
        using Some cc by (simp add: cancel_child_def)
      have "run_id c' = i \<and> i < next_run_id w" using ch(2) old(1) [OF Some] by simp
      then show ?thesis using old(1,2,3,6) sub later acc ch(1,3,4) True unfolding w' request_inv_def by auto
    next
      case False
      then have w': "cancel_child reason i ?w = ?w" using Some cc by (simp add: cancel_child_def)
      have "arbiter_state c \<noteq> Open" using cc False by (auto simp: cancel_claim_def split: if_splits)
      then have "j \<in> set f' \<or> j \<in> set a' \<or> arbiter_state d \<noteq> Open"
        if "runs w j = Some d" "j \<in> set (child_ids w)" for j d
        using later [OF that] that Some by (cases "j = i") auto
      then show ?thesis using old(1,2,3,5,6) sub acc unfolding w' request_inv_def by auto
    qed
  qed
qed

lemma request_inv_init: "request_init w \<Longrightarrow> request_inv w"
  by (auto simp: request_init_def new_request_def request_inv_def)

lemma make_run_fresh:
  assumes "make_run s clock n = Inr (c, n')"
  shows "run_inv c" "run_id c = n" "n < n'" "arbiter_state c = Open"
proof -
  show "run_inv c" by (rule run_inv_init) (use assms in \<open>auto simp: run_init_def\<close>)
  show "run_id c = n" "n < n'" "arbiter_state c = Open"
    using assms succ_no_wrap_less [of n]
    by (auto simp: make_run_def mint_compute_run_id_value_def res_simps split: if_splits)
qed

lemma request_inv_step:
  assumes inv: "request_inv w" and step: "request_step w w'"
  shows "request_inv w'"
proof -
  have self: "request_inv (w\<lparr>fanout := fanout w, attaching := attaching w\<rparr>)" using inv by simp
  from step show ?thesis
  proof cases
    case (new_run s c n)
    note fr = make_run_fresh [OF new_run(2)]
    have "runs w (run_id c) = None" using inv fr(2) by (cases "runs w (run_id c)") (auto simp: request_inv_def)
    moreover have "j < n" if "j < next_run_id w" for j using that fr(3) by (rule less_trans)
    moreover have "run_id c \<notin> set (child_ids w) \<union> set (request_wins w)" using inv fr(2) by (auto simp: request_inv_def)
    ultimately show ?thesis using inv fr new_run(1) by (auto simp: request_inv_def split: option.splits)
  next
    case (run i c c')
    have c: "run_inv c" "run_id c = i" "i < next_run_id w" using inv run(2) by (auto simp: request_inv_def)
    have c': "run_inv c'" "run_id c' = i" using run_inv_step [OF c(1) run(3)] run_step_id [OF run(3)] c by auto
    have "terminal_outcome c' = Some oc" if "terminal_outcome c = Some oc" for oc
      using run_final [OF _ c(1)] run(3) that by blast
    moreover have "arbiter_state c' \<noteq> Open"
      if "accepted_reason w = Some r" "i \<in> set (child_ids w)" "i \<notin> set (fanout w)" "i \<notin> set (attaching w)" for r
    proof (rule run_step_closed [OF run(3)])
      show "arbiter_state c \<noteq> Open" using inv that run(2) by (auto simp: request_inv_def)
    qed
    ultimately show ?thesis using inv c' c run(1,2) by (auto simp: request_inv_def split: option.splits)
  next
    case (expire i)
    then show ?thesis using inv by (auto simp: request_inv_def split: option.splits if_splits)
  next
    case (attach i)
    then show ?thesis using inv
      by (auto simp: attach_enter_def Let_def request_inv_def split: option.splits if_splits)
  next
    case (attach_cancel i rest reason)
    have "request_inv (cancel_child reason i (w\<lparr>fanout := fanout w, attaching := rest\<rparr>))"
      by (rule request_inv_cancel_child [OF self attach_cancel(3)]) (use attach_cancel(2) in auto)
    then show ?thesis using attach_cancel(1) by simp
  next
    case (request reason b)
    then show ?thesis using inv
      by (auto simp: request_begin_def request_inv_def split: option.splits if_splits)
  next
    case (fan i rest reason)
    have "request_inv (cancel_child reason i (w\<lparr>fanout := rest, attaching := attaching w\<rparr>))"
      by (rule request_inv_cancel_child [OF self fan(3)]) (use fan(2) in auto)
    then show ?thesis using fan(1) by simp
  qed
qed

interpretation request_sys: inv_system request_init request_step request_inv
  by unfold_locales (rule request_inv_init, assumption, rule request_inv_step)

lemma accepted_reason_final:
  assumes "request_step\<^sup>*\<^sup>* w d" "accepted_reason w = Some r"
  shows "accepted_reason d = Some r"
  using assms
proof (induction rule: rtranclp_induct)
  case (step d e)
  then have "accepted_reason d = Some r" by simp
  with step(2) show ?case
    by cases (auto simp: attach_enter_def cancel_child_def request_begin_def Let_def
        split: option.splits prod.splits bool.splits)
qed simp

section \<open>The gate between the commits of a pair\<close>

datatype GateState = Pending | Committed | Denied

definition mark_rt_committed :: "GateState \<Rightarrow> GateState" where
  "mark_rt_committed g = (if g = Pending then Committed else g)"

definition abort_hp_commit :: "GateState \<Rightarrow> GateState" where
  "abort_hp_commit g = (if g = Pending then Denied else g)"

text \<open>\<open>wait_for_rt_commit_or_throw\<close>: None while the call waits.\<close>

definition wait_for_rt_commit :: "GateState \<Rightarrow> unit res option" where
  "wait_for_rt_commit g =
     (case g of Pending \<Rightarrow> None | Denied \<Rightarrow> Some (Inl (Graph_Error ComputeError)) | Committed \<Rightarrow> Some (Inr ()))"

section \<open>Run groups\<close>

record RunGroup =
  group_id :: u64
  group_supersession :: "SupersessionKey \<times> u64"
  hp_run :: u64
  rt_run :: u64
  hp_lease_held :: bool
  rt_lease_held :: bool
  sibling_commit_gate :: GateState

definition mint_run_group_id :: "u64 \<Rightarrow> bool \<Rightarrow> (u64 \<times> u64 \<times> bool) res" where
  "mint_run_group_id next_id maximum_claimed =
     (if next_id = u64_max then
        if \<not> maximum_claimed then Inr (next_id, next_id, True) else Inl Overflow_Error
      else Inr (next_id, next_id + 1, maximum_claimed))"

definition is_bad_alloc_failure :: "ps_exn option \<Rightarrow> bool" where
  "is_bad_alloc_failure e \<longleftrightarrow> e = Some Bad_Alloc"

definition validate_realtime_group :: "ComputeRunSubmission \<Rightarrow> ComputeRunSubmission \<Rightarrow> unit res" where
  "validate_realtime_group hp rt =
     (if graph_identity hp \<noteq> graph_identity rt \<or> sub_graph_instance hp \<noteq> sub_graph_instance rt
         \<or> sub_revision hp \<noteq> sub_revision rt \<or> sub_target hp \<noteq> sub_target rt
         \<or> fst (supersession hp) \<noteq> fst (supersession rt) \<or> snd (supersession hp) \<noteq> snd (supersession rt)
         \<or> request_intent (fst (supersession hp)) \<noteq> RealTimeUpdate
         \<or> sub_intent hp \<noteq> GlobalHighPrecision \<or> quality hp \<noteq> Full
         \<or> sub_intent rt \<noteq> RealTimeUpdate \<or> quality rt \<noteq> Interactive
      then Inl Invalid_Argument else Inr ())"

text \<open>Construction: validation, the group's identity, the two runs and a lease on each.\<close>

definition make_run_group ::
  "ComputeRunSubmission \<Rightarrow> ComputeRunSubmission \<Rightarrow> u64 \<Rightarrow> bool \<Rightarrow> RequestWorld \<Rightarrow> (RunGroup \<times> RequestWorld) res" where
  "make_run_group hp rt next_group maximum_claimed w =
     res_bind (validate_realtime_group hp rt) (\<lambda>_.
     res_bind (mint_run_group_id next_group maximum_claimed) (\<lambda>(g, _, _).
     res_bind (make_run hp True (next_run_id w)) (\<lambda>(hc, n1).
     res_bind (make_run rt True n1) (\<lambda>(rc, n2).
     res_bind (acquire_lease hc) (\<lambda>hc1.
     res_bind (acquire_lease rc) (\<lambda>rc1.
       Inr (\<lparr>group_id = g, group_supersession = supersession hp, hp_run = run_id hc1, rt_run = run_id rc1,
             hp_lease_held = True, rt_lease_held = True, sibling_commit_gate = Pending\<rparr>,
            w\<lparr>runs := (runs w)(run_id hc1 \<mapsto> hc1, run_id rc1 \<mapsto> rc1), next_run_id := n2\<rparr>)))))))"

definition group_request_cancellation ::
  "(nat \<Rightarrow> ps_exn option) \<Rightarrow> ComputeRunCancellationReason \<Rightarrow> RunGroup \<Rightarrow> RequestWorld
   \<Rightarrow> bool res \<times> RunGroup \<times> RequestWorld" where
  "group_request_cancellation throws reason g w =
     (let g1 = g\<lparr>sibling_commit_gate := abort_hp_commit (sibling_commit_gate g)\<rparr> in
      case request_source_cancellation throws reason w of (r, w1) \<Rightarrow> (r, g1, w1))"

definition child_outcome :: "u64 \<Rightarrow> RequestWorld \<Rightarrow> ComputeRunTerminalOutcome option" where
  "child_outcome i w = Option.bind (runs w i) terminal_outcome"

definition aggregate_terminal_outcome :: "RunGroup \<Rightarrow> RequestWorld \<Rightarrow> ComputeRunTerminalOutcome res" where
  "aggregate_terminal_outcome g w =
     (case (child_outcome (rt_run g) w, child_outcome (hp_run g) w) of
        (Some rt, Some hp) \<Rightarrow>
          if kind rt = Failed \<and> is_bad_alloc_failure (failure rt) then Inr rt
          else if kind hp = Failed \<and> is_bad_alloc_failure (failure hp) then Inr hp
          else if kind rt = Failed then Inr rt
          else if kind hp = Failed then Inr hp
          else (case accepted_child_cancellation_reason w of
                  Some r \<Rightarrow> Inr (cancelled r)
                | None \<Rightarrow>
                    if kind rt = Cancelled then Inr rt
                    else if kind hp = Cancelled then Inr hp
                    else Inr succeeded)
      | _ \<Rightarrow> Inl Logic_Error)"

definition release_lifecycle_leases :: "RunGroup \<Rightarrow> RunGroup" where
  "release_lifecycle_leases g = g\<lparr>hp_lease_held := False, rt_lease_held := False\<rparr>"

section \<open>Example\<close>

definition demo_hp :: ComputeRunSubmission where
  "demo_hp = demo_submission\<lparr>supersession := (SupersessionKey 7 RealTimeUpdate, 1)\<rparr>"

definition demo_rt :: ComputeRunSubmission where
  "demo_rt = demo_hp\<lparr>sub_intent := RealTimeUpdate, quality := Interactive\<rparr>"

definition demo_hp_run :: RunControl where
  "demo_hp_run = demo_run\<lparr>submission := demo_hp\<rparr>"

definition demo_rt_run :: RunControl where
  "demo_rt_run = demo_run\<lparr>run_id := 2, submission := demo_rt\<rparr>"

lemma demo_pair_runs: "make_run demo_hp True 1 = Inr (demo_hp_run, 2)" "make_run demo_rt True 2 = Inr (demo_rt_run, 3)"
  by (simp_all add: demo_hp_def demo_rt_def demo_hp_run_def demo_rt_run_def run_demo_defs)

lemma demo_pair_states:
  "run_id demo_hp_run = 1" "run_id demo_rt_run = 2" "arbiter_state demo_hp_run = Open" "arbiter_state demo_rt_run = Open"
  by (simp_all add: demo_hp_run_def demo_rt_run_def run_demo_defs)

definition demo_pair :: RequestWorld where
  "demo_pair = (new_request 1)\<lparr>runs := [1 \<mapsto> demo_hp_run, 2 \<mapsto> demo_rt_run], next_run_id := 3,
     child_ids := [1, 2], child_sources := [1, 2]\<rparr>"

definition demo_cancelled :: RequestWorld where
  "demo_cancelled = demo_pair\<lparr>runs := [1 \<mapsto> snd (cancel_claim GraphClose demo_hp_run), 2 \<mapsto> snd (cancel_claim GraphClose demo_rt_run)],
     accepted_reason := Some GraphClose, child_sources := [], child_cancellation_won := True, request_wins := [1, 2]\<rparr>"

lemmas request_next = reachable_step [where init = request_init and step = request_step]

lemma demo_pair_reach: "reachable request_init request_step demo_pair"
proof -
  have "reachable request_init request_step (new_request 1)" by (rule reachable_init) (auto simp: request_init_def)
  then have "reachable request_init request_step
      ((new_request 1)\<lparr>runs := (runs (new_request 1))(run_id demo_hp_run \<mapsto> demo_hp_run), next_run_id := 2\<rparr>)" (is "reachable _ _ ?w1")
    by (rule request_next [OF _ request_step.new_run [where s = demo_hp]]) (simp add: demo_pair_runs new_request_def)
  then have "reachable request_init request_step
      (?w1\<lparr>runs := (runs ?w1)(run_id demo_rt_run \<mapsto> demo_rt_run), next_run_id := 3\<rparr>)" (is "reachable _ _ ?w2")
    by (rule request_next [OF _ request_step.new_run [where s = demo_rt]]) (simp add: demo_pair_runs new_request_def)
  then have "reachable request_init request_step (attach_enter 1 ?w2)"
    by (rule request_next [OF _ request_step.attach]) simp
  then have "reachable request_init request_step (attach_enter 2 (attach_enter 1 ?w2))"
    by (rule request_next [OF _ request_step.attach]) (simp add: attach_enter_def new_request_def)
  then show ?thesis by (simp add: attach_enter_def new_request_def demo_pair_def demo_pair_states)
qed

lemma demo_cancelled_reach: "reachable request_init request_step demo_cancelled"
proof -
  let ?w = "demo_pair\<lparr>accepted_reason := Some GraphClose, child_sources := [], fanout := [1, 2]\<rparr>"
  have "reachable request_init request_step ?w"
    by (rule request_next [OF demo_pair_reach request_step.request [of GraphClose _ True]])
      (simp add: request_begin_def demo_pair_def new_request_def)
  then have "reachable request_init request_step (cancel_child GraphClose 1 (?w\<lparr>fanout := [2]\<rparr>))" (is "reachable _ _ ?w1")
    by (rule request_next [OF _ request_step.fan]) (simp_all add: demo_pair_def)
  then have "reachable request_init request_step (cancel_child GraphClose 2 (?w1\<lparr>fanout := []\<rparr>))"
    by (rule request_next [OF _ request_step.fan])
      (simp_all add: demo_pair_def new_request_def cancel_child_def cancel_claim_def demo_pair_states)
  then show ?thesis
    by (simp add: demo_cancelled_def demo_pair_def new_request_def cancel_child_def cancel_claim_def demo_pair_states fun_upd_twist)
qed

lemma demo_cancelled_state:
  "accepted_reason demo_cancelled = Some GraphClose" "fanout demo_cancelled = []" "attaching demo_cancelled = []"
  "child_ids demo_cancelled = [1, 2]"
  "child_outcome 1 demo_cancelled = Some (cancelled GraphClose)" "child_outcome 2 demo_cancelled = Some (cancelled GraphClose)"
  by (simp_all add: demo_cancelled_def demo_pair_def new_request_def child_outcome_def cancel_claim_def demo_pair_states)

definition demo_group :: RunGroup where
  "demo_group = \<lparr>group_id = 1, group_supersession = (SupersessionKey 7 RealTimeUpdate, 1), hp_run = 1, rt_run = 2,
     hp_lease_held = True, rt_lease_held = True, sibling_commit_gate = Pending\<rparr>"

section \<open>Properties\<close>

text \<open>
  The first reason accepted by a request stands and reaches every child. From any reachable
  state in which a reason has been accepted, through any later steps (runs progressing on their
  own, runs being created and released, late attachments), the reason never changes; whenever the
  fan-out and all late attachers are done, no attached run that still exists has an open
  arbiter; and the latch is set exactly when the request won some child, which is then
  cancelled with that reason.
\<close>

theorem request_cancellation_reaches_children:
  assumes "reachable request_init request_step w" "request_step\<^sup>*\<^sup>* w d" "accepted_reason w = Some r"
  shows "accepted_reason d = Some r
    \<and> (fanout d = [] \<and> attaching d = [] \<longrightarrow>
         (\<forall>i c. i \<in> set (child_ids d) \<and> runs d i = Some c \<longrightarrow> arbiter_state c \<noteq> Open))
    \<and> (child_cancellation_won d \<longleftrightarrow> request_wins d \<noteq> [])
    \<and> (\<forall>i c. i \<in> set (request_wins d) \<and> runs d i = Some c \<longrightarrow> terminal_outcome c = Some (cancelled r))"
proof -
  have acc: "accepted_reason d = Some r" by (rule accepted_reason_final [OF assms(2,3)])
  have "request_inv d" by (rule request_sys.run_inv [OF assms(2) request_sys.reachable_inv [OF assms(1)]])
  with acc show ?thesis by (auto simp: request_inv_def)
qed

theorem request_cancellation_reaches_children_witness:
  "accepted_reason demo_cancelled = Some GraphClose
     \<and> child_cancellation_won demo_cancelled = (request_wins demo_cancelled \<noteq> [])"
  using request_cancellation_reaches_children [OF demo_cancelled_reach rtranclp.rtrancl_refl demo_cancelled_state(1)]
  by blast

text \<open>
  The aggregate outcome of a pair is faithful. Aggregation is refused exactly while a child is
  unsettled. Otherwise the result is a success exactly when both children succeeded, a failure
  exactly when one failed, preferring a memory exhaustion to any other failure, and a
  cancellation in all other cases, with the reason of the request when the request won a child.
\<close>

theorem group_aggregate_faithful:
  assumes "reachable request_init request_step w" "set (child_ids w) \<subseteq> {hp_run g, rt_run g}"
  shows "case (child_outcome (rt_run g) w, child_outcome (hp_run g) w) of
      (Some rt, Some hp) \<Rightarrow>
        (\<exists>oc. aggregate_terminal_outcome g w = Inr oc
           \<and> (kind oc = Succeeded \<longleftrightarrow> kind rt = Succeeded \<and> kind hp = Succeeded)
           \<and> (kind oc = Failed \<longleftrightarrow> kind rt = Failed \<or> kind hp = Failed)
           \<and> (oc = failed_with Bad_Alloc \<longleftrightarrow> rt = failed_with Bad_Alloc \<or> hp = failed_with Bad_Alloc)
           \<and> (kind oc = Cancelled \<longrightarrow>
                (if child_cancellation_won w then cancellation_reason oc = accepted_reason w
                 else oc = rt \<or> oc = hp)))
    | _ \<Rightarrow> aggregate_terminal_outcome g w = Inl Logic_Error"
proof (cases "child_outcome (rt_run g) w = None \<or> child_outcome (hp_run g) w = None")
  case True
  then show ?thesis by (auto simp: aggregate_terminal_outcome_def split: option.splits)
next
  case False
  then obtain rt hp rc hc where runs: "runs w (rt_run g) = Some rc" "runs w (hp_run g) = Some hc"
      "terminal_outcome rc = Some rt" "terminal_outcome hc = Some hp"
    by (auto simp: child_outcome_def bind_eq_Some_conv)
  have inv: "request_inv w" by (rule request_sys.reachable_inv [OF assms(1)])
  then have wf: "outcome_wf rt" "outcome_wf hp"
    using runs by (auto simp: request_inv_def run_inv_def control_inv_def)
  have won: "\<exists>r. accepted_reason w = Some r \<and> (rt = cancelled r \<or> hp = cancelled r)" if won: "child_cancellation_won w"
  proof -
    obtain i where i: "i \<in> set (request_wins w)" "i \<in> {hp_run g, rt_run g}"
      using inv won assms(2) by (cases "request_wins w") (auto simp: request_inv_def)
    obtain r where r: "accepted_reason w = Some r"
      using inv i(1) by (cases "accepted_reason w") (auto simp: request_inv_def)
    have "terminal_outcome c = Some (cancelled r)" if "runs w i = Some c" for c
      using inv r i(1) that by (auto simp: request_inv_def)
    with i(2) runs r show ?thesis by auto
  qed
  have out: "child_outcome (rt_run g) w = Some rt" "child_outcome (hp_run g) w = Some hp"
    using runs by (simp_all add: child_outcome_def)
  have ba: "kind x = Failed \<and> is_bad_alloc_failure (failure x) \<longleftrightarrow> x = failed_with Bad_Alloc" if "outcome_wf x" for x
    using that by (auto simp: outcome_wf_def is_bad_alloc_failure_def failed_with_def succeeded_def cancelled_def)
  have distinct: "succeeded \<noteq> failed_with f" "failed_with f \<noteq> succeeded" for f
    by (simp_all add: succeeded_def failed_with_def)
  show ?thesis
    using wf won ba [OF wf(1)] ba [OF wf(2)] unfolding out
    by (cases "kind rt"; cases "kind hp"; cases "child_cancellation_won w")
      (auto simp: aggregate_terminal_outcome_def out accepted_child_cancellation_reason_def distinct)
qed

theorem group_aggregate_faithful_witness:
  "\<exists>oc. aggregate_terminal_outcome demo_group demo_cancelled = Inr oc \<and> kind oc = Cancelled"
proof -
  have "set (child_ids demo_cancelled) \<subseteq> {hp_run demo_group, rt_run demo_group}"
    by (simp add: demo_cancelled_state demo_group_def)
  note ag = group_aggregate_faithful [OF demo_cancelled_reach this]
  obtain oc where "aggregate_terminal_outcome demo_group demo_cancelled = Inr oc" "kind oc \<noteq> Succeeded" "kind oc \<noteq> Failed"
    using ag demo_cancelled_state(5,6) by (auto simp: demo_group_def)
  then show ?thesis by (cases "kind oc") auto
qed

end
