(* ===== verification/Utf8.thy ===== *)
theory Utf8
  imports PS_Prelude
begin

text \<open>
  The UTF-8 check that guards retained event text (\<^verbatim>\<open>utf8_scalar_bytes\<close> and \<^verbatim>\<open>valid_utf8\<close> of
  \<^verbatim>\<open>src/lib/runtime/graph_event_service.cpp\<close>; \<^verbatim>\<open>src/lib/ipc/codec.cpp\<close> repeats it for wire text), and the encoding of
  Unicode scalar values it has to accept. Text is the list of its byte values.
\<close>

section \<open>Model\<close>

definition continuation_byte :: "nat \<Rightarrow> bool" where
  "continuation_byte b \<longleftrightarrow> 0x80 \<le> b \<and> b \<le> 0xbf"

definition utf8_scalar_bytes :: "nat list \<Rightarrow> nat \<Rightarrow> nat" where
  "utf8_scalar_bytes bytes offset =
    (if length bytes \<le> offset then 0
     else let first = bytes ! offset in
       if first \<le> 0x7f then 1
       else if 0xc2 \<le> first \<and> first \<le> 0xdf then
         (if offset + 1 < length bytes \<and> continuation_byte (bytes ! (offset + 1)) then 2 else 0)
       else if 0xe0 \<le> first \<and> first \<le> 0xef then
         (if length bytes \<le> offset + 2 then 0
          else let second = bytes ! (offset + 1); third = bytes ! (offset + 2);
                   second_valid = (if first = 0xe0 then 0xa0 \<le> second \<and> second \<le> 0xbf
                     else if first = 0xed then 0x80 \<le> second \<and> second \<le> 0x9f else continuation_byte second) in
            if second_valid \<and> continuation_byte third then 3 else 0)
       else if 0xf0 \<le> first \<and> first \<le> 0xf4 then
         (if length bytes \<le> offset + 3 then 0
          else let second = bytes ! (offset + 1); third = bytes ! (offset + 2); fourth = bytes ! (offset + 3);
                   second_valid = (if first = 0xf0 then 0x90 \<le> second \<and> second \<le> 0xbf
                     else if first = 0xf4 then 0x80 \<le> second \<and> second \<le> 0x8f else continuation_byte second) in
            if second_valid \<and> continuation_byte third \<and> continuation_byte fourth then 4 else 0)
       else 0)"

function valid_utf8_from :: "nat list \<Rightarrow> nat \<Rightarrow> bool" where
  "valid_utf8_from bytes offset =
    (if offset < length bytes then
       let scalar_bytes = utf8_scalar_bytes bytes offset in
       if scalar_bytes = 0 then False else valid_utf8_from bytes (offset + scalar_bytes)
     else True)"
  by pat_completeness auto
termination
  by (relation "measure (\<lambda>(bytes, offset). length bytes - offset)") auto

declare valid_utf8_from.simps [simp del]

definition valid_utf8 :: "nat list \<Rightarrow> bool" where
  "valid_utf8 bytes = valid_utf8_from bytes 0"

section \<open>Reference\<close>

text \<open>Unicode scalar values and their encoding.\<close>

definition unicode_scalar :: "nat \<Rightarrow> bool" where
  "unicode_scalar n \<longleftrightarrow> n \<le> 0x10ffff \<and> \<not> (0xd800 \<le> n \<and> n \<le> 0xdfff)"

definition utf8_encode :: "nat \<Rightarrow> nat list" where
  "utf8_encode n =
    (if n < 0x80 then [n]
     else if n < 0x800 then [0xc0 + n div 64, 0x80 + n mod 64]
     else if n < 0x10000 then [0xe0 + n div 4096, 0x80 + n div 64 mod 64, 0x80 + n mod 64]
     else [0xf0 + n div 262144, 0x80 + n div 4096 mod 64, 0x80 + n div 64 mod 64, 0x80 + n mod 64])"

section \<open>Lemmas\<close>

lemma utf8_scalar_bytes_drop:
  "offset \<le> length bytes \<Longrightarrow> utf8_scalar_bytes bytes offset = utf8_scalar_bytes (drop offset bytes) 0"
  by (auto simp: utf8_scalar_bytes_def Let_def less_diff_conv le_diff_conv add.commute)

text \<open>The digits of a bytes in base 64.\<close>

lemma digits_of:
  fixes a b c d :: nat
  assumes "b < 64" "c < 64" "d < 64"
  shows "(262144 * a + 4096 * b + 64 * c + d) div 262144 = a"
    "(262144 * a + 4096 * b + 64 * c + d) div 4096 = 64 * a + b"
    "(262144 * a + 4096 * b + 64 * c + d) div 64 = 4096 * a + 64 * b + c"
    "(262144 * a + 4096 * b + 64 * c + d) mod 64 = d"
    "(64 * a + b) mod 64 = b" "(4096 * a + 64 * b + c) mod 64 = c"
  using assms by (auto intro!: div_nat_eqI simp: mod_nat_eqI mod_add_eq)

lemma digits_exist:
  fixes n :: nat
  obtains a b c d where "n = 262144 * a + 4096 * b + 64 * c + d" "b < 64" "c < 64" "d < 64"
proof
  have "n = 64 * (n div 64) + n mod 64" "n div 64 = 64 * (n div 4096) + n div 64 mod 64"
      "n div 4096 = 64 * (n div 262144) + n div 4096 mod 64"
    using div_mult2_eq [of n 64 64] div_mult2_eq [of n 4096 64] by simp_all
  then show "n = 262144 * (n div 262144) + 4096 * (n div 4096 mod 64) + 64 * (n div 64 mod 64) + n mod 64" by linarith
qed simp_all

lemma utf8_encode_digits:
  assumes "b < 64" "c < 64" "d < 64" "n = 262144 * a + 4096 * b + 64 * c + d"
  shows "utf8_encode n = (if n < 0x80 then [n]
     else if n < 0x800 then [0xc0 + c, 0x80 + d]
     else if n < 0x10000 then [0xe0 + b, 0x80 + c, 0x80 + d]
     else [0xf0 + a, 0x80 + b, 0x80 + c, 0x80 + d])"
  using assms(1-3) digits_of [OF assms(1-3), of a] unfolding utf8_encode_def assms(4) by auto

lemma utf8_scalar_bytes_encode:
  assumes "unicode_scalar n" shows "utf8_scalar_bytes (utf8_encode n @ rest) 0 = length (utf8_encode n)"
proof -
  obtain a b c d where n: "n = 262144 * a + 4096 * b + 64 * c + d" "b < 64" "c < 64" "d < 64" by (rule digits_exist)
  note enc = utf8_encode_digits [OF n(2-4) n(1)]
  note chk = utf8_scalar_bytes_def continuation_byte_def Let_def
  consider "n < 0x80" | "0x80 \<le> n" "n < 0x800" | "0x800 \<le> n" "n < 0x10000" | "0x10000 \<le> n" by linarith
  then show ?thesis
  proof cases
    case 1
    then show ?thesis by (simp add: enc chk)
  next
    case 2
    then have "a = 0" "b = 0" using n(1) by linarith+
    then have "2 \<le> c" "c < 32" using 2 n(1,4) by linarith+
    moreover have "utf8_encode n = [0xc0 + c, 0x80 + d]" using 2 by (simp add: enc)
    ultimately show ?thesis using n(4) by (simp add: chk)
  next
    case 3
    then have "a = 0" "b < 16" using n(1) by linarith+
    moreover from this have "b = 0 \<Longrightarrow> 32 \<le> c" "b = 13 \<Longrightarrow> c < 32"
      using 3 n assms unfolding unicode_scalar_def by linarith+
    moreover have "utf8_encode n = [0xe0 + b, 0x80 + c, 0x80 + d]" using 3 by (simp add: enc)
    ultimately show ?thesis using n(2-4) by (auto simp: chk)
  next
    case 4
    have "n \<le> 0x10ffff" using assms by (simp add: unicode_scalar_def)
    then have "a \<le> 4" "a = 0 \<Longrightarrow> 16 \<le> b" "a = 4 \<Longrightarrow> b < 16" using 4 n by linarith+
    moreover have "utf8_encode n = [0xf0 + a, 0x80 + b, 0x80 + c, 0x80 + d]" using 4 by (simp add: enc)
    ultimately show ?thesis using n(2-4) by (auto simp: chk)
  qed
qed

lemma utf8_scalar_bytes_decode:
  assumes "utf8_scalar_bytes bs 0 = k" "k \<noteq> 0"
  shows "\<exists>n. unicode_scalar n \<and> take k bs = utf8_encode n \<and> k \<le> length bs"
proof -
  obtain b0 bs1 where bs: "bs = b0 # bs1" using assms by (cases bs) (auto simp: utf8_scalar_bytes_def)
  consider "b0 \<le> 0x7f" | "0xc2 \<le> b0" "b0 \<le> 0xdf" | "0xe0 \<le> b0" "b0 \<le> 0xef" | "0xf0 \<le> b0" "b0 \<le> 0xf4"
    using assms by (auto simp: bs utf8_scalar_bytes_def Let_def split: if_splits)
  then show ?thesis
  proof cases
    case 1
    then show ?thesis using assms by (auto simp: bs utf8_scalar_bytes_def utf8_encode_def unicode_scalar_def intro!: exI [of _ b0])
  next
    case 2
    then obtain b1 bs2 where b: "bs1 = b1 # bs2" "continuation_byte b1" "k = 2"
      using assms by (cases bs1) (auto simp: bs utf8_scalar_bytes_def split: if_splits)
    then obtain d where d: "b1 = 0x80 + d" "d < 64" by (auto simp: continuation_byte_def le_iff_add)
    obtain c where c: "b0 = 0xc0 + c" "2 \<le> c" "c < 32" using 2 by (auto simp: le_iff_add)
    let ?n = "262144 * 0 + 4096 * 0 + 64 * c + d"
    have "utf8_encode ?n = [b0, b1]" using c d by (subst utf8_encode_digits [OF _ _ _ refl]) auto
    moreover have "unicode_scalar ?n" using c d by (simp add: unicode_scalar_def)
    ultimately show ?thesis using bs b by (intro exI [of _ ?n]) simp
  next
    case 3
    then obtain b1 b2 bs3 where b: "bs1 = b1 # b2 # bs3" "continuation_byte b2" "k = 3"
        "if b0 = 0xe0 then 0xa0 \<le> b1 \<and> b1 \<le> 0xbf else if b0 = 0xed then 0x80 \<le> b1 \<and> b1 \<le> 0x9f else continuation_byte b1"
      using assms by (cases bs1; cases "tl bs1") (auto simp: bs utf8_scalar_bytes_def Let_def split: if_splits)
    obtain d where d: "b2 = 0x80 + d" "d < 64" using b(2) by (auto simp: continuation_byte_def le_iff_add)
    have "0x80 \<le> b1" "b1 \<le> 0xbf" using b(4) by (auto simp: continuation_byte_def split: if_splits)
    then obtain c where c: "b1 = 0x80 + c" "c < 64" by (auto simp: le_iff_add)
    obtain e where e: "b0 = 0xe0 + e" "e < 16" using 3 by (auto simp: le_iff_add)
    let ?n = "262144 * 0 + 4096 * e + 64 * c + d"
    have "utf8_encode ?n = [b0, b1, b2]" using c d e b(4) by (subst utf8_encode_digits [OF _ _ _ refl]) (auto split: if_splits)
    moreover have "unicode_scalar ?n" using c d e b(4) by (auto simp: unicode_scalar_def continuation_byte_def split: if_splits)
    ultimately show ?thesis using bs b by (intro exI [of _ ?n]) simp
  next
    case 4
    then obtain b1 b2 b3 bs4 where b: "bs1 = b1 # b2 # b3 # bs4" "continuation_byte b2" "continuation_byte b3" "k = 4"
        "if b0 = 0xf0 then 0x90 \<le> b1 \<and> b1 \<le> 0xbf else if b0 = 0xf4 then 0x80 \<le> b1 \<and> b1 \<le> 0x8f else continuation_byte b1"
      using assms by (cases bs1; cases "tl bs1"; cases "tl (tl bs1)") (auto simp: bs utf8_scalar_bytes_def Let_def split: if_splits)
    obtain d where d: "b3 = 0x80 + d" "d < 64" using b(3) by (auto simp: continuation_byte_def le_iff_add)
    obtain c where c: "b2 = 0x80 + c" "c < 64" using b(2) by (auto simp: continuation_byte_def le_iff_add)
    have "0x80 \<le> b1" "b1 \<le> 0xbf" using b(5) by (auto simp: continuation_byte_def split: if_splits)
    then obtain e where e: "b1 = 0x80 + e" "e < 64" by (auto simp: le_iff_add)
    obtain f where f: "b0 = 0xf0 + f" "f < 5" using 4 by (auto simp: le_iff_add)
    let ?n = "262144 * f + 4096 * e + 64 * c + d"
    have "utf8_encode ?n = [b0, b1, b2, b3]" using c d e f b(5) by (subst utf8_encode_digits [OF _ _ _ refl]) (auto split: if_splits)
    moreover have "unicode_scalar ?n" using c d e f b(5) by (auto simp: unicode_scalar_def continuation_byte_def split: if_splits)
    ultimately show ?thesis using bs b by (intro exI [of _ ?n]) simp
  qed
qed

lemma utf8_encode_nonempty: "utf8_encode n \<noteq> []"
  by (simp add: utf8_encode_def)

definition utf8_text :: "nat list \<Rightarrow> bool" where
  "utf8_text bs \<longleftrightarrow> (\<exists>ns. list_all unicode_scalar ns \<and> bs = concat (map utf8_encode ns))"

lemma utf8_text_step:
  assumes "bs \<noteq> []" defines "k \<equiv> utf8_scalar_bytes bs 0"
  shows "utf8_text bs \<longleftrightarrow> k \<noteq> 0 \<and> utf8_text (drop k bs)"
proof
  assume "utf8_text bs"
  then obtain ns where ns: "list_all unicode_scalar ns" "bs = concat (map utf8_encode ns)" by (auto simp: utf8_text_def)
  then obtain m ms where m: "ns = m # ms" using assms(1) by (cases ns) auto
  then have "k = length (utf8_encode m)" using ns utf8_scalar_bytes_encode [of m] by (simp add: k_def)
  then show "k \<noteq> 0 \<and> utf8_text (drop k bs)"
    using ns m utf8_encode_nonempty [of m] by (auto simp: utf8_text_def)
next
  assume k: "k \<noteq> 0 \<and> utf8_text (drop k bs)"
  obtain n where n: "unicode_scalar n" "take k bs = utf8_encode n"
    using utf8_scalar_bytes_decode [of bs k] k by (auto simp: k_def)
  obtain ns where ns: "list_all unicode_scalar ns" "drop k bs = concat (map utf8_encode ns)" using k by (auto simp: utf8_text_def)
  have "bs = utf8_encode n @ concat (map utf8_encode ns)" using n(2) ns(2) by (metis append_take_drop_id)
  then show "utf8_text bs" using n(1) ns(1) by (auto simp: utf8_text_def intro!: exI [of _ "n # ns"])
qed

lemma valid_utf8_from_text: "valid_utf8_from (pre @ bs) (length pre) \<longleftrightarrow> utf8_text bs"
proof (induction "length bs" arbitrary: pre bs rule: less_induct)
  case less
  let ?k = "utf8_scalar_bytes bs 0"
  have k: "utf8_scalar_bytes (pre @ bs) (length pre) = ?k" using utf8_scalar_bytes_drop [of "length pre" "pre @ bs"] by simp
  show ?case
  proof (cases "bs = []")
    case True
    have "utf8_text []" unfolding utf8_text_def by (rule exI [of _ "[]"]) simp
    then show ?thesis using True by (simp add: valid_utf8_from.simps [of pre])
  next
    case ne: False
    note step = valid_utf8_from.simps [of "pre @ bs" "length pre", unfolded k Let_def]
    show ?thesis
    proof (cases "?k = 0")
      case True
      then show ?thesis using ne utf8_text_step [OF ne] by (simp add: step)
    next
      case pos: False
      then have le: "?k \<le> length bs" using utf8_scalar_bytes_decode [of bs ?k] by auto
      then have "valid_utf8_from (pre @ bs) (length pre + ?k)
          = valid_utf8_from ((pre @ take ?k bs) @ drop ?k bs) (length (pre @ take ?k bs))" by simp
      also have "\<dots> \<longleftrightarrow> utf8_text (drop ?k bs)" by (rule less) (use pos le ne in simp)
      finally show ?thesis using ne pos utf8_text_step [OF ne] by (simp add: step)
    qed
  qed
qed

section \<open>Properties\<close>

text \<open>
  C24. The UTF-8 check accepts exactly the encodings. A byte sequence passes if and only if it is the
  concatenation of the encodings of Unicode scalar values: no stray or missing continuation byte,
  no overlong form, no surrogate, nothing above U+10FFFF.
\<close>

theorem valid_utf8_exact:
  "valid_utf8 bs \<longleftrightarrow> (\<exists>ns. list_all unicode_scalar ns \<and> bs = concat (map utf8_encode ns))"
  using valid_utf8_from_text [of "[]" bs] by (simp add: valid_utf8_def utf8_text_def)

end
