(* ===== verification/EventService.thy ===== *)
theory EventService
  imports Utf8 "HOL-Library.Word" "HOL-Library.Sublist"
begin

text \<open>
  The per-graph compute event ring (\<^verbatim>\<open>GraphEventService\<close> of \<^verbatim>\<open>src/lib/runtime/graph_event_service.cpp\<close>): a fixed array of
  optional slots with a head index and a size, a 64-bit sequence number that stops at a sentinel, and a saturating count of events
  lost since the last drain. The ring is shown to implement a bounded queue that drops its oldest entry, and over whole histories
  every publication is accounted for exactly once.
\<close>

section \<open>Model\<close>

type_synonym sequence_number = u64

definition kObservationSequenceExhausted :: sequence_number where
  "kObservationSequenceExhausted = u64_max"

definition kComputeEventDrainMinLimit :: nat where
  "kComputeEventDrainMinLimit = 1"

definition kComputeEventDrainMaxLimit :: nat where
  "kComputeEventDrainMaxLimit = 1024"

definition kComputeEventTextMaxBytes :: nat where
  "kComputeEventTextMaxBytes = 1024"

text \<open>The elapsed time is carried as the bits of its double.\<close>

record ComputeEventSnapshot =
  event_sequence :: sequence_number
  event_node :: int
  event_name :: "nat list"
  event_source :: "nat list"
  event_elapsed_ms :: "64 word"

record ComputeEventBatch =
  batch_events :: "ComputeEventSnapshot list"
  batch_next_sequence :: sequence_number
  batch_dropped_count :: sequence_number
  batch_has_more :: bool

record GraphEventService =
  slots :: "ComputeEventSnapshot option list"
  ring_head :: nat
  ring_size :: nat
  next_sequence :: sequence_number
  dropped_count :: sequence_number

text \<open>The last error stands for reading an empty slot, which the source never tests for.\<close>

datatype event_error = CapacityZero | InitialSequenceZero | DrainLimitOutOfRange | EmptySlotRead

definition saturating_increment :: "sequence_number \<Rightarrow> sequence_number" where
  "saturating_increment count = (if count \<noteq> kObservationSequenceExhausted then count + 1 else count)"

definition sequence_successor :: "sequence_number \<Rightarrow> sequence_number" where
  "sequence_successor sequence =
    (if kObservationSequenceExhausted - 1 \<le> sequence then kObservationSequenceExhausted else sequence + 1)"

definition make_event_service :: "nat \<Rightarrow> sequence_number \<Rightarrow> sequence_number \<Rightarrow> event_error + GraphEventService" where
  "make_event_service capacity initial_sequence initial_dropped_count =
    (if capacity = 0 then Inl CapacityZero
     else if initial_sequence = 0 then Inl InitialSequenceZero
     else Inr \<lparr>slots = replicate capacity None, ring_head = 0, ring_size = 0, next_sequence = initial_sequence,
            dropped_count = initial_dropped_count\<rparr>)"

definition text_rejected :: "nat list \<Rightarrow> nat list \<Rightarrow> bool" where
  "text_rejected name source =
    (let oversized = kComputeEventTextMaxBytes < length name \<or> kComputeEventTextMaxBytes < length source;
         invalid_text = \<not> oversized \<and> (\<not> valid_utf8 name \<or> \<not> valid_utf8 source)
     in oversized \<or> invalid_text)"

definition push_event :: "int \<Rightarrow> nat list \<Rightarrow> nat list \<Rightarrow> 64 word \<Rightarrow> GraphEventService \<Rightarrow> GraphEventService" where
  "push_event node name source ms s =
    (if next_sequence s = kObservationSequenceExhausted then s\<lparr>dropped_count := saturating_increment (dropped_count s)\<rparr>
     else let sequence = next_sequence s in
       if text_rejected name source then
         s\<lparr>next_sequence := sequence_successor sequence, dropped_count := saturating_increment (dropped_count s)\<rparr>
       else let event = \<lparr>event_sequence = sequence, event_node = node, event_name = name, event_source = source,
                         event_elapsed_ms = ms\<rparr>;
                s1 = s\<lparr>next_sequence := sequence_successor sequence\<rparr> in
         if ring_size s1 = length (slots s1) then
           s1\<lparr>slots := (slots s1)[ring_head s1 := Some event], ring_head := (ring_head s1 + 1) mod length (slots s1),
              dropped_count := saturating_increment (dropped_count s1)\<rparr>
         else let insertion = (ring_head s1 + ring_size s1) mod length (slots s1) in
           s1\<lparr>slots := (slots s1)[insertion := Some event], ring_size := ring_size s1 + 1\<rparr>)"

fun take_slots :: "ComputeEventSnapshot option list \<Rightarrow> nat \<Rightarrow> nat list \<Rightarrow> ComputeEventSnapshot list option" where
  "take_slots sl h [] = Some []"
| "take_slots sl h (offset # offsets) =
    (case sl ! ((h + offset) mod length sl) of
       None \<Rightarrow> None
     | Some event \<Rightarrow> map_option ((#) event) (take_slots sl h offsets))"

definition reset_slots :: "ComputeEventSnapshot option list \<Rightarrow> nat \<Rightarrow> nat \<Rightarrow> ComputeEventSnapshot option list" where
  "reset_slots sl h count = fold (\<lambda>offset sl'. sl'[(h + offset) mod length sl' := None]) [0..<count] sl"

definition drain :: "nat \<Rightarrow> GraphEventService \<Rightarrow> event_error + ComputeEventBatch \<times> GraphEventService" where
  "drain limit s =
    (if limit < kComputeEventDrainMinLimit \<or> kComputeEventDrainMaxLimit < limit then Inl DrainLimitOutOfRange
     else let return_count = min limit (ring_size s) in
       case take_slots (slots s) (ring_head s) [0..<return_count] of
         None \<Rightarrow> Inl EmptySlotRead
       | Some events \<Rightarrow>
          let s1 = s\<lparr>slots := reset_slots (slots s) (ring_head s) return_count,
                     ring_head := (ring_head s + return_count) mod length (slots s),
                     ring_size := ring_size s - return_count\<rparr>;
              has_more = (ring_size s1 \<noteq> 0);
              next = (if \<not> has_more \<and> next_sequence s1 = kObservationSequenceExhausted then kObservationSequenceExhausted
                      else if events = [] then next_sequence s1 else sequence_successor (event_sequence (last events)))
          in Inr (\<lparr>batch_events = events, batch_next_sequence = next, batch_dropped_count = dropped_count s1,
                   batch_has_more = has_more\<rparr>, s1\<lparr>dropped_count := 0\<rparr>))"

section \<open>Histories of calls\<close>

datatype event_op = PushEvent int "nat list" "nat list" "64 word" | DrainEvents nat

text \<open>A rejected drain throws before it changes anything.\<close>

fun run_events :: "event_op list \<Rightarrow> GraphEventService \<Rightarrow> ComputeEventBatch list \<times> GraphEventService" where
  "run_events [] s = ([], s)"
| "run_events (PushEvent node name source ms # ops) s = run_events ops (push_event node name source ms s)"
| "run_events (DrainEvents limit # ops) s =
    (case drain limit s of
       Inl e \<Rightarrow> run_events ops s
     | Inr (batch, s') \<Rightarrow> (let (batches, t) = run_events ops s' in (batch # batches, t)))"

fun pushes :: "event_op list \<Rightarrow> nat" where
  "pushes [] = 0"
| "pushes (PushEvent node name source ms # ops) = pushes ops + 1"
| "pushes (DrainEvents limit # ops) = pushes ops"

text \<open>The admissible publications with the number of the attempt that made them.\<close>

fun published :: "event_op list \<Rightarrow> sequence_number \<Rightarrow> ComputeEventSnapshot list" where
  "published [] sequence = []"
| "published (PushEvent node name source ms # ops) sequence =
    (if text_rejected name source then []
     else [\<lparr>event_sequence = sequence, event_node = node, event_name = name, event_source = source, event_elapsed_ms = ms\<rparr>])
    @ published ops (sequence_successor sequence)"
| "published (DrainEvents limit # ops) sequence = published ops sequence"

section \<open>Specification\<close>

text \<open>A bounded queue that loses its oldest entry when it is full.\<close>

record event_queue =
  queue_capacity :: nat
  queued :: "ComputeEventSnapshot list"
  queue_next :: sequence_number
  queue_dropped :: sequence_number

definition queue_push :: "int \<Rightarrow> nat list \<Rightarrow> nat list \<Rightarrow> 64 word \<Rightarrow> event_queue \<Rightarrow> event_queue" where
  "queue_push node name source ms q =
    (let lost = q\<lparr>queue_next := sequence_successor (queue_next q), queue_dropped := saturating_increment (queue_dropped q)\<rparr>;
         extended = queued q @ [\<lparr>event_sequence = queue_next q, event_node = node, event_name = name, event_source = source,
                                 event_elapsed_ms = ms\<rparr>]
     in if queue_next q = kObservationSequenceExhausted \<or> text_rejected name source then lost
        else if queue_capacity q < length extended then lost\<lparr>queued := tl extended\<rparr>
        else q\<lparr>queued := extended, queue_next := sequence_successor (queue_next q)\<rparr>)"

definition queue_drain :: "nat \<Rightarrow> event_queue \<Rightarrow> event_error + ComputeEventBatch \<times> event_queue" where
  "queue_drain limit q =
    (if limit \<notin> {1..1024} then Inl DrainLimitOutOfRange
     else let events = take limit (queued q); rest = drop limit (queued q) in
       Inr (\<lparr>batch_events = events,
             batch_next_sequence = (if events = [] \<or> rest = [] \<and> queue_next q = kObservationSequenceExhausted then queue_next q
               else sequence_successor (event_sequence (last events))),
             batch_dropped_count = queue_dropped q, batch_has_more = (rest \<noteq> [])\<rparr>,
            q\<lparr>queued := rest, queue_dropped := 0\<rparr>))"

text \<open>The ring read from its head: the retained events, then empty slots.\<close>

definition ring_wf :: "GraphEventService \<Rightarrow> bool" where
  "ring_wf s \<longleftrightarrow> slots s \<noteq> [] \<and> ring_head s < length (slots s) \<and> ring_size s \<le> length (slots s)
     \<and> list_all (\<lambda>slot. slot \<noteq> None) (take (ring_size s) (rotate (ring_head s) (slots s)))
     \<and> list_all (\<lambda>slot. slot = None) (drop (ring_size s) (rotate (ring_head s) (slots s)))"

definition queue_of :: "GraphEventService \<Rightarrow> event_queue" where
  "queue_of s = \<lparr>queue_capacity = length (slots s),
     queued = map the (take (ring_size s) (rotate (ring_head s) (slots s))),
     queue_next = next_sequence s, queue_dropped = dropped_count s\<rparr>"

lemma queue_of_selectors [simp]:
  "queue_capacity (queue_of s) = length (slots s)" "queue_next (queue_of s) = next_sequence s"
  "queue_dropped (queue_of s) = dropped_count s"
  by (simp_all add: queue_of_def)

section \<open>Lemmas\<close>

subsection \<open>Saturating numbers\<close>

lemma unat_exhausted: "unat kObservationSequenceExhausted = 2 ^ 64 - 1"
  by (simp only: kObservationSequenceExhausted_def unat_u64_max)

lemma exhausted_iff: "x = kObservationSequenceExhausted \<longleftrightarrow> unat x = 2 ^ 64 - 1"
  unfolding unat_exhausted [symmetric] by (rule word_unat_eq_iff)

lemma unat_plus_one: "unat x \<noteq> 2 ^ 64 - 1 \<Longrightarrow> unat (x + 1) = unat x + 1" for x :: u64
  using unat_succ_no_wrap [of x] unat_u64_max by (metis Suc_eq_plus1)

lemma unat_saturating_increment: "unat (saturating_increment x) = (if unat x = 2 ^ 64 - 1 then unat x else unat x + 1)"
  unfolding saturating_increment_def exhausted_iff using unat_plus_one [of x] by simp

lemma unat_sequence_successor: "unat (sequence_successor x) = (if unat x = 2 ^ 64 - 1 then unat x else unat x + 1)"
proof -
  have "(1 :: u64) \<le> kObservationSequenceExhausted" by (simp add: word_le_nat_alt unat_exhausted)
  then have "unat (kObservationSequenceExhausted - 1) = 2 ^ 64 - 2" using unat_sub_of_le unat_exhausted by fastforce
  then have guard: "kObservationSequenceExhausted - 1 \<le> x \<longleftrightarrow> 2 ^ 64 - 2 \<le> unat x" by (simp only: word_le_nat_alt)
  show ?thesis
    unfolding sequence_successor_def guard using unat_plus_one [of x] unat_u64_bound [of x] unat_exhausted by simp
qed

lemma sequence_successor_exhausted [simp]: "sequence_successor kObservationSequenceExhausted = kObservationSequenceExhausted"
  unfolding exhausted_iff unat_sequence_successor by (simp add: unat_exhausted)

subsection \<open>The ring as a rotated list\<close>

lemma ring_index: "h < n \<Longrightarrow> i < n \<Longrightarrow> (h + i) mod n = (if h + i < n then h + i else h + i - n)" for n :: nat
  by (simp add: mod_if [of "h + i" n])

lemma rotate_update:
  assumes "i < length xs" "h < length xs"
  shows "rotate h (xs[(h + i) mod length xs := v]) = (rotate h xs)[i := v]"
proof (rule nth_equalityI)
  fix j assume j: "j < length (rotate h (xs[(h + i) mod length xs := v]))"
  have "(h + i) mod length xs = (h + j) mod length xs \<longleftrightarrow> i = j"
    using assms j ring_index [of h "length xs" i] ring_index [of h "length xs" j] by (auto split: if_splits)
  moreover have at: "(h + i) mod length xs < length xs" using assms by (intro mod_less_divisor) linarith
  ultimately show "rotate h (xs[(h + i) mod length xs := v]) ! j = (rotate h xs)[i := v] ! j"
    using j assms at by (auto simp: nth_rotate nth_list_update)
qed simp

text \<open>A ring is its events at the head and empty slots after them.\<close>

definition ring_holds :: "ComputeEventSnapshot option list \<Rightarrow> nat \<Rightarrow> ComputeEventSnapshot list \<Rightarrow> bool" where
  "ring_holds sl h es \<longleftrightarrow> sl \<noteq> [] \<and> h < length sl \<and> length es \<le> length sl
     \<and> rotate h sl = map Some es @ replicate (length sl - length es) None"

lemma all_none_replicate: "list_all (\<lambda>slot. slot = None) xs \<longleftrightarrow> xs = replicate (length xs) None"
  by (induction xs) auto

lemma all_some_map: "list_all (\<lambda>slot. slot \<noteq> None) xs \<longleftrightarrow> xs = map Some (map the xs)"
  by (induction xs) auto

lemma ring_wf_holds:
  "ring_wf s \<longleftrightarrow> ring_holds (slots s) (ring_head s) (queued (queue_of s)) \<and> ring_size s = length (queued (queue_of s))"
proof
  let ?r = "rotate (ring_head s) (slots s)"
  assume w: "ring_wf s"
  have "?r = take (ring_size s) ?r @ drop (ring_size s) ?r" by simp
  also have "\<dots> = map Some (queued (queue_of s)) @ replicate (length (slots s) - ring_size s) None"
    using w all_some_map [of "take (ring_size s) ?r"] all_none_replicate [of "drop (ring_size s) ?r"]
    by (simp add: ring_wf_def queue_of_def)
  finally show "ring_holds (slots s) (ring_head s) (queued (queue_of s)) \<and> ring_size s = length (queued (queue_of s))"
    using w by (auto simp add: ring_holds_def ring_wf_def queue_of_def min.absorb2)
next
  assume "ring_holds (slots s) (ring_head s) (queued (queue_of s)) \<and> ring_size s = length (queued (queue_of s))"
  then show "ring_wf s" by (auto simp: ring_wf_def ring_holds_def list_all_iff)
qed

text \<open>The other direction: a ring that holds a list is well formed and stands for that list.\<close>

lemma ring_holds_wf:
  assumes "ring_holds (slots s) (ring_head s) es" "ring_size s = length es"
  shows "ring_wf s" "queued (queue_of s) = es"
  using assms by (auto simp: ring_wf_def ring_holds_def queue_of_def list_all_iff o_def)

lemma ring_append:
  assumes "ring_holds sl h es" "length es < length sl"
  shows "ring_holds (sl[(h + length es) mod length sl := Some e]) h (es @ [e])"
proof -
  have "(map Some es @ replicate (length sl - length es) None)[length es := Some e]
      = map Some (es @ [e]) @ replicate (length sl - length (es @ [e])) None"
    using assms(2) by (cases "length sl - length es") (auto simp: list_update_append)
  then show ?thesis using assms by (auto simp: ring_holds_def rotate_update)
qed

lemma ring_overwrite:
  assumes "ring_holds sl h es" "length es = length sl"
  shows "ring_holds (sl[h := Some e]) ((h + 1) mod length sl) (tl es @ [e])"
proof -
  have sl: "sl \<noteq> []" "h < length sl" "rotate h sl = map Some es" using assms by (auto simp: ring_holds_def)
  have "rotate ((h + 1) mod length sl) (sl[h := Some e]) = rotate1 (rotate h (sl[h := Some e]))"
    using sl(2) rotate_conv_mod [of "Suc h" "sl[h := Some e]"] by simp
  also have "\<dots> = map Some (tl es @ [e])"
    using rotate_update [of 0 sl h "Some e"] sl by (cases es) auto
  finally show ?thesis using sl assms(2) by (cases es) (auto simp: ring_holds_def)
qed

lemma take_slots_ring:
  assumes "ring_holds sl h es" "j \<le> k" "k \<le> length es"
  shows "take_slots sl h [j..<k] = Some (drop j (take k es))"
  using assms(2)
proof (induction "k - j" arbitrary: j)
  case (Suc m)
  have j: "j < k" using Suc by simp
  have "sl ! ((h + j) mod length sl) = rotate h sl ! j"
    using assms j nth_rotate [of j sl h] by (simp add: ring_holds_def)
  also have "\<dots> = Some (es ! j)" using assms j by (auto simp: ring_holds_def nth_append)
  finally show ?case using Suc j assms(3) by (simp add: upt_conv_Cons Cons_nth_drop_Suc [symmetric])
qed simp

lemma reset_slots_ring:
  assumes "sl \<noteq> []" "h < length sl" "k \<le> length sl"
  shows "length (reset_slots sl h k) = length sl \<and> rotate h (reset_slots sl h k) = replicate k None @ drop k (rotate h sl)"
  using assms(3)
proof (induction k)
  case (Suc k)
  have "(replicate k None @ drop k (rotate h sl))[k := None] = replicate (Suc k) None @ drop (Suc k) (rotate h sl)"
    using Suc.prems by (simp add: list_update_append Cons_nth_drop_Suc [symmetric] replicate_append_same [symmetric])
  then show ?case using Suc assms(2) rotate_update [of k "reset_slots sl h k" h None] by (simp add: reset_slots_def)
qed (simp add: reset_slots_def)

lemma ring_drop:
  assumes "ring_holds sl h es" "k \<le> length es"
  shows "ring_holds (reset_slots sl h k) ((h + k) mod length sl) (drop k es)"
proof -
  note r = assms(1) [unfolded ring_holds_def]
  have len: "length (reset_slots sl h k) = length sl" and rot: "rotate h (reset_slots sl h k) = replicate k None @ drop k (rotate h sl)"
    using r assms(2) reset_slots_ring [of sl h k] by auto
  have "rotate ((h + k) mod length sl) (reset_slots sl h k) = rotate k (rotate h (reset_slots sl h k))"
    using len rotate_conv_mod [of "k + h" "reset_slots sl h k"] by (simp add: rotate_rotate add.commute)
  also have "\<dots> = drop k (rotate h sl) @ replicate k None" using rotate_append [of "replicate k None"] by (simp add: rot)
  also have "\<dots> = map Some (drop k es) @ replicate (length sl - length (drop k es)) None"
    using r assms(2) by (simp add: drop_map replicate_add [symmetric])
  finally show ?thesis using r len assms(2) by (auto simp: ring_holds_def)
qed


subsection \<open>The ring implements the queue\<close>

lemma push_event_refines:
  assumes "ring_wf s"
  shows "ring_wf (push_event node name source ms s)"
    "queue_of (push_event node name source ms s) = queue_push node name source ms (queue_of s)"
proof -
  let ?es = "queued (queue_of s)" and ?t = "push_event node name source ms s"
  let ?e = "\<lparr>event_sequence = next_sequence s, event_node = node, event_name = name, event_source = source,
                                 event_elapsed_ms = ms\<rparr>"
  have r: "ring_holds (slots s) (ring_head s) ?es" "ring_size s = length ?es" using assms by (simp_all add: ring_wf_holds)
  consider "next_sequence s = kObservationSequenceExhausted \<or> text_rejected name source"
    | "\<not> (next_sequence s = kObservationSequenceExhausted \<or> text_rejected name source)" "length ?es = length (slots s)"
    | "\<not> (next_sequence s = kObservationSequenceExhausted \<or> text_rejected name source)" "length ?es < length (slots s)"
    using r(1) unfolding ring_holds_def by (meson le_neq_implies_less)
  then have "ring_wf ?t \<and> queue_of ?t = queue_push node name source ms (queue_of s)"
  proof cases
    case 1
    then have "slots ?t = slots s" "ring_head ?t = ring_head s" "ring_size ?t = ring_size s"
      by (auto simp: push_event_def Let_def)
    then show ?thesis using assms 1
      by (auto simp: ring_wf_def queue_of_def push_event_def queue_push_def Let_def)
  next
    case 2
    then have "slots ?t = (slots s)[ring_head s := Some ?e]" "ring_head ?t = (ring_head s + 1) mod length (slots s)"
        "ring_size ?t = ring_size s"
      using r(2) by (auto simp: push_event_def Let_def)
    then have "ring_holds (slots ?t) (ring_head ?t) (tl ?es @ [?e])" "ring_size ?t = length (tl ?es @ [?e])"
      using ring_overwrite [OF r(1) 2(2)] r 2(2) by (auto simp: ring_holds_def)
    note w = ring_holds_wf [OF this]
    have "?es \<noteq> []" using 2(2) r(1) by (auto simp: ring_holds_def)
    moreover have "length (slots ?t) = length (slots s)" "next_sequence ?t = sequence_successor (next_sequence s)"
        "dropped_count ?t = saturating_increment (dropped_count s)"
      using 2 r(2) by (auto simp: push_event_def Let_def)
    ultimately show ?thesis using w(1) 2
      by (intro conjI event_queue.equality) (simp_all add: w(2) queue_push_def Let_def)
  next
    case 3
    then have "slots ?t = (slots s)[(ring_head s + length ?es) mod length (slots s) := Some ?e]" "ring_head ?t = ring_head s"
        "ring_size ?t = ring_size s + 1"
      using r(2) by (auto simp: push_event_def Let_def)
    then have "ring_holds (slots ?t) (ring_head ?t) (?es @ [?e])" "ring_size ?t = length (?es @ [?e])"
      using ring_append [OF r(1) 3(2)] r by auto
    note w = ring_holds_wf [OF this]
    have "length (slots ?t) = length (slots s)" "next_sequence ?t = sequence_successor (next_sequence s)"
        "dropped_count ?t = dropped_count s"
      using 3 r(2) by (auto simp: push_event_def Let_def)
    then show ?thesis using w(1) 3
      by (intro conjI event_queue.equality) (simp_all add: w(2) queue_push_def Let_def)
  qed
  then show "ring_wf ?t" "queue_of ?t = queue_push node name source ms (queue_of s)" by auto
qed

lemma drain_refines:
  assumes "ring_wf s"
  shows "map_sum id (map_prod id queue_of) (drain limit s) = queue_drain limit (queue_of s)"
    "drain limit s = Inr (batch, t) \<Longrightarrow> ring_wf t"
proof -
  let ?es = "queued (queue_of s)" and ?k = "min limit (ring_size s)"
  have r: "ring_holds (slots s) (ring_head s) ?es" "ring_size s = length ?es" using assms by (simp_all add: ring_wf_holds)
  have k: "take ?k ?es = take limit ?es" "drop ?k ?es = drop limit ?es" using r(2) by (auto simp: min_def)
  define u where "u = s\<lparr>slots := reset_slots (slots s) (ring_head s) ?k,
      ring_head := (ring_head s + ?k) mod length (slots s), ring_size := ring_size s - ?k, dropped_count := 0\<rparr>"
  have len: "length (slots u) = length (slots s)"
    using reset_slots_ring [of "slots s" "ring_head s" ?k] r by (auto simp: u_def ring_holds_def)
  have "ring_holds (slots u) (ring_head u) (drop limit ?es)"
    using ring_drop [OF r(1), of ?k] r(2) k(2) by (simp add: u_def)
  moreover have "ring_size u = length (drop limit ?es)" using r(2) by (auto simp: u_def)
  ultimately have u: "ring_wf u" "queued (queue_of u) = drop limit ?es" by (rule ring_holds_wf)+
  have q: "queue_of u = (queue_of s)\<lparr>queued := drop limit ?es, queue_dropped := 0\<rparr>"
    using u(2) len by (simp add: queue_of_def u_def)
  have take: "take_slots (slots s) (ring_head s) [0..<?k] = Some (take limit ?es)"
    using take_slots_ring [OF r(1), of 0 ?k] r(2) k(1) by simp
  have d: "drain limit s = (if limit \<notin> {1..1024} then Inl DrainLimitOutOfRange
     else Inr (\<lparr>batch_events = take limit ?es,
       batch_next_sequence = (if take limit ?es = [] \<or> drop limit ?es = [] \<and> next_sequence s = kObservationSequenceExhausted
         then next_sequence s else sequence_successor (event_sequence (last (take limit ?es)))),
       batch_dropped_count = dropped_count s, batch_has_more = (drop limit ?es \<noteq> [])\<rparr>, u))"
    using take r(2) unfolding drain_def kComputeEventDrainMinLimit_def kComputeEventDrainMaxLimit_def
    by (auto simp: Let_def u_def)
  show "map_sum id (map_prod id queue_of) (drain limit s) = queue_drain limit (queue_of s)"
    unfolding d queue_drain_def by (simp add: Let_def q)
  show "drain limit s = Inr (batch, t) \<Longrightarrow> ring_wf t"
    using u(1) by (auto simp: d split: if_splits)
qed

lemma make_event_service_refines:
  assumes "make_event_service capacity first dropped = Inr s"
  shows "ring_wf s" "queue_of s = \<lparr>queue_capacity = capacity, queued = [], queue_next = first, queue_dropped = dropped\<rparr>"
  using assms by (auto simp: make_event_service_def ring_wf_def queue_of_def list_all_iff split: if_splits)


subsection \<open>Histories\<close>

lemma run_events_account:
  assumes "ring_wf s" "unat (next_sequence s) + pushes ops < 2 ^ 64 - 1" "unat (dropped_count s) + pushes ops < 2 ^ 64 - 1"
    "run_events ops s = (batches, t)"
  shows "ring_wf t \<and> subseq (concat (map batch_events batches) @ queued (queue_of t)) (queued (queue_of s) @ published ops (next_sequence s))
    \<and> length (concat (map batch_events batches)) + length (queued (queue_of t)) + sum_list (map (unat \<circ> batch_dropped_count) batches)
        + unat (dropped_count t) = length (queued (queue_of s)) + unat (dropped_count s) + pushes ops"
  using assms
proof (induction ops arbitrary: s batches)
  case (Cons op ops)
  show ?case
  proof (cases op)
    case (PushEvent node name source ms)
    let ?s = "push_event node name source ms s"
    note q = push_event_refines [OF Cons.prems(1), of node name source ms]
    have live: "next_sequence s \<noteq> kObservationSequenceExhausted" using Cons.prems(2) unat_exhausted by auto
    have sel: "next_sequence ?s = queue_next (queue_push node name source ms (queue_of s))"
        "dropped_count ?s = queue_dropped (queue_push node name source ms (queue_of s))"
      by (simp_all add: q(2) [symmetric])
    have nxt: "next_sequence ?s = sequence_successor (next_sequence s)" by (auto simp: sel queue_push_def Let_def)
    have cap: "length (queued (queue_of s)) \<le> length (slots s)" "slots s \<noteq> []"
      using Cons.prems(1) by (auto simp: ring_wf_holds ring_holds_def)
    have acc: "length (queued (queue_of ?s)) + unat (dropped_count ?s) = length (queued (queue_of s)) + unat (dropped_count s) + 1"
      using Cons.prems(3) cap PushEvent by (auto simp: sel q(2) queue_push_def Let_def unat_saturating_increment)
    have sub: "subseq (queued (queue_of ?s) @ published ops (next_sequence ?s)) (queued (queue_of s) @ published (op # ops) (next_sequence s))"
      using live cap PushEvent unfolding q(2) nxt
      by (cases "queued (queue_of s)") (auto simp: queue_push_def Let_def intro: list_emb_Cons)
    have "unat (dropped_count ?s) \<le> unat (dropped_count s) + 1"
      by (auto simp: sel queue_push_def Let_def unat_saturating_increment)
    then show ?thesis
      using Cons.IH [OF q(1), of batches] Cons.prems(2-4) PushEvent sub acc
      by (auto simp: nxt unat_sequence_successor intro: subseq_order.trans)
  next
    case (DrainEvents limit)
    note d = drain_refines [OF Cons.prems(1)]
    show ?thesis
    proof (cases "drain limit s")
      case (Inl e)
      then show ?thesis using Cons.IH [OF Cons.prems(1), of batches] Cons.prems(2-4) DrainEvents by simp
    next
      case (Inr r)
      obtain b u where r: "r = (b, u)" by (cases r)
      have u: "ring_wf u" using d(2) Inr r by simp
      have q: "queue_drain limit (queue_of s) = Inr (b, queue_of u)" using d(1) [of limit] Inr r by simp
      then have f: "batch_events b = take limit (queued (queue_of s))" "queued (queue_of u) = drop limit (queued (queue_of s))"
          "batch_dropped_count b = dropped_count s" "next_sequence u = next_sequence s" "dropped_count u = 0"
        by (auto simp: queue_drain_def Let_def queue_of_def split: if_splits)
      obtain bs where bs: "run_events ops u = (bs, t)" "batches = b # bs" using Cons.prems(4) DrainEvents Inr r
        by (auto split: prod.splits)
      have "subseq (take limit (queued (queue_of s)) @ concat (map batch_events bs) @ queued (queue_of t))
          (take limit (queued (queue_of s)) @ drop limit (queued (queue_of s)) @ published ops (next_sequence s))"
        using Cons.IH [OF u _ _ bs(1)] Cons.prems(2,3) DrainEvents f by (intro list_emb_append_mono [OF subseq_order.refl]) auto
      then show ?thesis
        using Cons.IH [OF u _ _ bs(1)] Cons.prems(2,3) DrainEvents f bs(2) by (auto simp: append_assoc [symmetric] simp del: append_assoc)
    qed
  qed
qed simp


text \<open>Publication numbers grow.\<close>

lemma published_sequences:
  "unat n + pushes ops < 2 ^ 64 - 1 \<Longrightarrow>
    sorted_wrt (<) (map event_sequence (published ops n)) \<and> (\<forall>e\<in>set (published ops n). n \<le> event_sequence e)"
proof (induction ops arbitrary: n)
  case (Cons op ops)
  show ?case
  proof (cases op)
    case (PushEvent node name source ms)
    have "unat (sequence_successor n) = unat n + 1" using Cons.prems PushEvent by (simp add: unat_sequence_successor)
    then have "n < sequence_successor n" "unat (sequence_successor n) + pushes ops < 2 ^ 64 - 1"
      using Cons.prems PushEvent by (auto simp: word_less_nat_alt)
    moreover from this have "\<forall>e\<in>set (published ops (sequence_successor n)). n < event_sequence e"
      using Cons.IH by (blast intro: order.strict_trans2)
    ultimately show ?thesis using Cons.IH [of "sequence_successor n"] PushEvent by (auto intro: order.strict_implies_order)
  qed (use Cons in auto)
qed simp

lemma subseq_sorted_wrt: "subseq xs ys \<Longrightarrow> sorted_wrt P ys \<Longrightarrow> sorted_wrt P xs"
  by (induction rule: list_emb.induct) (auto dest: list_emb_set)

section \<open>Properties\<close>

text \<open>
  C22. The event ring implements a bounded queue. On a well-formed ring, publishing and draining do to the retained events what a
  queue does that loses its oldest entry when full: the head and size arithmetic modulo the capacity never overwrites a
  newer event, the drain never reads an empty slot, an exhausted sequence or inadmissible text is counted as a
  loss and retains nothing, a drain outside 1 to 1024 fails without effect, and the ring stays well formed.
\<close>

theorem event_ring_refines_queue:
  assumes "ring_wf s"
  shows "ring_wf (push_event node name source ms s)
    \<and> queue_of (push_event node name source ms s) = queue_push node name source ms (queue_of s)
    \<and> map_sum id (map_prod id queue_of) (drain limit s) = queue_drain limit (queue_of s)
    \<and> (case drain limit s of Inl e \<Rightarrow> e = DrainLimitOutOfRange | Inr (batch, t) \<Rightarrow> ring_wf t)"
proof -
  have "drain limit s = Inl e \<Longrightarrow> e = DrainLimitOutOfRange" for e
    using drain_refines(1) [OF assms, of limit] by (auto simp: queue_drain_def Let_def split: if_splits)
  then show ?thesis
    using push_event_refines [OF assms] drain_refines [OF assms] by (auto split: sum.split)
qed

theorem event_ring_refines_queue_witness:
  "\<exists>s. make_event_service 2 1 0 = Inr s
    \<and> queue_of (push_event 7 [65] [66] 0 s) = queue_push 7 [65] [66] 0 (queue_of s)
    \<and> map_sum id (map_prod id queue_of) (drain 5 s) = queue_drain 5 (queue_of s)"
proof -
  obtain s where s: "make_event_service 2 1 0 = Inr s" by (simp add: make_event_service_def)
  show ?thesis
    using s event_ring_refines_queue [OF make_event_service_refines(1) [OF s]] by blast
qed

text \<open>
  Every publication is accounted for once. Over any sequence of publications and drains on a new service, short of exhausting
  the 64-bit sequence: what the drains delivered followed by what the ring retains is a subsequence of the admissible
  publications in their order, with strictly increasing sequence numbers, so nothing is delivered twice, altered or reordered; and
  deliveries, retained events and reported or pending losses add up to the number of publications.
\<close>

theorem event_history_exact:
  assumes "make_event_service capacity first 0 = Inr s" "unat first + pushes ops < 2 ^ 64 - 1" "run_events ops s = (batches, t)"
  defines "seen \<equiv> concat (map batch_events batches) @ queued (queue_of t)"
  shows "subseq seen (published ops first) \<and> sorted_wrt (<) (map event_sequence seen)
    \<and> length seen + sum_list (map (unat \<circ> batch_dropped_count) batches) + unat (dropped_count t) = pushes ops"
proof -
  note s = make_event_service_refines [OF assms(1)]
  have f: "queued (queue_of s) = []" "next_sequence s = first" "dropped_count s = 0"
    using s(2) queue_of_selectors [of s] by simp_all
  have acc: "subseq seen (published ops first)"
      "length seen + sum_list (map (unat \<circ> batch_dropped_count) batches) + unat (dropped_count t) = pushes ops"
    using run_events_account [OF s(1) _ _ assms(3)] assms(2) by (simp_all add: f seen_def)
  have "subseq (map event_sequence seen) (map event_sequence (published ops first))" using acc(1) by (rule subseq_map)
  then show ?thesis using acc published_sequences [OF assms(2)] by (blast intro: subseq_sorted_wrt)
qed

theorem event_history_exact_witness:
  "\<exists>s batches t. make_event_service 1 1 0 = Inr s
    \<and> run_events [PushEvent 4 [65] [66] 0, PushEvent 5 [65] [66] 0, DrainEvents 8, PushEvent 6 [0x80] [] 0] s = (batches, t)
    \<and> length (concat (map batch_events batches) @ queued (queue_of t))
        + sum_list (map (unat \<circ> batch_dropped_count) batches) + unat (dropped_count t) = 3"
proof -
  let ?ops = "[PushEvent 4 [65] [66] 0, PushEvent 5 [65] [66] 0, DrainEvents 8, PushEvent 6 [0x80] [] 0]"
  obtain s where s: "make_event_service 1 1 0 = Inr s" by (simp add: make_event_service_def)
  obtain batches t where r: "run_events ?ops s = (batches, t)" by (cases "run_events ?ops s")
  have n: "pushes ?ops = 3" by simp
  have "unat (1 :: 64 word) + pushes ?ops < 2 ^ 64 - 1" unfolding n by simp
  from event_history_exact [OF s this r] show ?thesis using s r unfolding n by blast
qed

end
