(* ===== verification/IpcFrame.thy ===== *)
theory IpcFrame
  imports PS_Prelude "HOL-Library.Word"
begin

unbundle bit_operations_syntax

text \<open>
  Length-prefixed frames over a stream socket (\<^verbatim>\<open>src/lib/ipc/frame.cpp\<close>).

  The operating system is an explicit script: the clock readings, the results of \<^verbatim>\<open>poll\<close>, the
  results of \<^verbatim>\<open>recv\<close> and of \<^verbatim>\<open>send\<close>, each in the order in which the calls return, and the bytes
  handed to the peer so far. A chunk of the script that is longer than the caller's buffer keeps
  its unread rest. A call with no scripted result has not returned, and the function that
  makes it yields \<^term>\<open>None\<close>.
\<close>

section \<open>Model\<close>

subsection \<open>The operating system's answers\<close>

type_synonym byte = "8 word"

datatype Errno = EINTR | EAGAIN | EWOULDBLOCK | Other_Errno nat

text \<open>A diagnostic is a literal text, or a literal prefix followed by the text of an errno.\<close>

datatype IoMessage = Text string | Errno_Text string Errno

text \<open>\<^verbatim>\<open>Poll_Ready nval progress\<close>: whether \<^verbatim>\<open>POLLNVAL\<close> is set, and whether a requested bit, \<^verbatim>\<open>POLLHUP\<close>
  or \<^verbatim>\<open>POLLERR\<close> is set.\<close>

datatype PollResult = Poll_Ready bool bool | Poll_Timeout | Poll_Error Errno

text \<open>\<^verbatim>\<open>Recv_Data []\<close> is the zero count of an orderly shutdown.\<close>

datatype RecvResult = Recv_Data "byte list" | Recv_Error Errno

datatype SendResult = Send_Count nat | Send_Error Errno

record Socket =
  clocks :: "int list"
  polls :: "PollResult list"
  recvs :: "RecvResult list"
  sends :: "SendResult list"
  sent :: "byte list"

subsection \<open>Waiting and exact transfers\<close>

record IoDeadline =
  deadline_value :: int
  stage :: string

definition retry_errno :: "bool \<Rightarrow> Errno \<Rightarrow> bool" where
  "retry_errno bounded e \<longleftrightarrow> e = EINTR \<or> (bounded \<and> (e = EAGAIN \<or> e = EWOULDBLOCK))"

text \<open>\<^verbatim>\<open>Inl\<close> carries the diagnostic of a false return.\<close>

fun wait_for_io :: "IoDeadline \<Rightarrow> int list \<Rightarrow> PollResult list \<Rightarrow> ((IoMessage + unit) \<times> int list \<times> PollResult list) option" where
  "wait_for_io d [] ps = None"
| "wait_for_io d (now # cs) ps =
     (if deadline_value d \<le> now then Some (Inl (Text (stage d @ '' deadline exceeded'')), cs, ps)
      else case ps of [] \<Rightarrow> None
        | Poll_Ready nval progress # ps' \<Rightarrow>
            if nval then Some (Inl (Text (stage d @ '' descriptor became invalid'')), cs, ps')
            else if progress then Some (Inr (), cs, ps')
            else wait_for_io d cs ps'
        | Poll_Timeout # ps' \<Rightarrow>
            (case cs of [] \<Rightarrow> None
             | now' # cs' \<Rightarrow>
                 if now' < deadline_value d then wait_for_io d cs' ps'
                 else Some (Inl (Text (stage d @ '' deadline exceeded'')), cs', ps'))
        | Poll_Error e # ps' \<Rightarrow>
            if e \<noteq> EINTR then Some (Inl (Errno_Text (stage d @ '' poll failed: '') e), cs, ps')
            else wait_for_io d cs ps')"

text \<open>The wait at the head of both transfer loops: nothing happens without a deadline.\<close>

definition await_io :: "IoDeadline option \<Rightarrow> Socket \<Rightarrow> ((IoMessage + unit) \<times> Socket) option" where
  "await_io dl s = (case dl of None \<Rightarrow> Some (Inr (), s)
     | Some d \<Rightarrow> (case wait_for_io d (clocks s) (polls s) of None \<Rightarrow> None
         | Some (r, cs, ps) \<Rightarrow> Some (r, s\<lparr>clocks := cs, polls := ps\<rparr>)))"

datatype ReceiveOutcome = Received "byte list" | Receive_Clean_Eof | Receive_Truncated | Receive_Failed IoMessage

text \<open>\<^verbatim>\<open>got\<close> is the prefix of the destination filled so far.\<close>

function receive_exact :: "nat \<Rightarrow> bool \<Rightarrow> IoDeadline option \<Rightarrow> byte list \<Rightarrow> Socket \<Rightarrow> (ReceiveOutcome \<times> Socket) option" where
  "receive_exact wanted allow_clean_eof dl got s =
     (if wanted \<le> length got then Some (Received got, s)
      else case await_io dl s of None \<Rightarrow> None
        | Some (Inl m, s1) \<Rightarrow> Some (Receive_Failed m, s1)
        | Some (Inr _, s1) \<Rightarrow>
            (case recvs s1 of [] \<Rightarrow> None
             | Recv_Data [] # rs \<Rightarrow>
                 Some (if allow_clean_eof \<and> got = [] then Receive_Clean_Eof else Receive_Truncated, s1\<lparr>recvs := rs\<rparr>)
             | Recv_Data bs # rs \<Rightarrow>
                 let room = wanted - length got in
                 if length bs \<le> room then receive_exact wanted allow_clean_eof dl (got @ bs) (s1\<lparr>recvs := rs\<rparr>)
                 else receive_exact wanted allow_clean_eof dl (got @ take room bs) (s1\<lparr>recvs := Recv_Data (drop room bs) # rs\<rparr>)
             | Recv_Error e # rs \<Rightarrow>
                 if retry_errno (dl \<noteq> None) e then receive_exact wanted allow_clean_eof dl got (s1\<lparr>recvs := rs\<rparr>)
                 else Some (Receive_Failed (Errno_Text ''socket read failed: '' e), s1\<lparr>recvs := rs\<rparr>)))"
  by pat_completeness auto
termination
  by (relation "measures [\<lambda>(wanted, _, _, got, s). length (recvs s), \<lambda>(wanted, _, _, got, s). wanted - length got]")
    (auto simp: await_io_def split: option.splits)

function send_exact :: "byte list \<Rightarrow> IoDeadline option \<Rightarrow> Socket \<Rightarrow> ((IoMessage + unit) \<times> Socket) option" where
  "send_exact source dl s =
     (if source = [] then Some (Inr (), s)
      else case await_io dl s of None \<Rightarrow> None
        | Some (Inl m, s1) \<Rightarrow> Some (Inl m, s1)
        | Some (Inr _, s1) \<Rightarrow>
            (case sends s1 of [] \<Rightarrow> None
             | Send_Count n # rs \<Rightarrow>
                 if 0 < n then
                   send_exact (drop n source) dl (s1\<lparr>sends := rs, sent := sent s1 @ take n source\<rparr>)
                 else Some (Inl (Text ''socket write made no progress''), s1\<lparr>sends := rs\<rparr>)
             | Send_Error e # rs \<Rightarrow>
                 if retry_errno (dl \<noteq> None) e then send_exact source dl (s1\<lparr>sends := rs\<rparr>)
                 else Some (Inl (Errno_Text ''socket write failed: '' e), s1\<lparr>sends := rs\<rparr>)))"
  by pat_completeness auto
termination
  by (relation "measure (\<lambda>(source, _, s). length (sends s))") (auto simp: await_io_def split: option.splits)

declare receive_exact.simps [simp del] send_exact.simps [simp del]

subsection \<open>Frames\<close>

datatype FrameReadState = Complete | CleanEof | Truncated | InvalidLength | IoError

record FrameReadResult =
  read_state :: FrameReadState
  payload :: "byte list"
  read_message :: IoMessage

record FrameWriteResult =
  ok :: bool
  write_message :: IoMessage

definition kMaximumFramePayloadBytes :: nat where
  "kMaximumFramePayloadBytes = 16 * 1024 * 1024"

text \<open>The header bytes of \<^verbatim>\<open>htonl\<close> followed by \<^verbatim>\<open>memcpy\<close>, and back, whatever the byte order of the host.\<close>

definition htonl_bytes :: "32 word \<Rightarrow> byte list" where
  "htonl_bytes w = [ucast (drop_bit 24 w), ucast (drop_bit 16 w), ucast (drop_bit 8 w), ucast w]"

fun ntohl_bytes :: "byte list \<Rightarrow> 32 word" where
  "ntohl_bytes [a, b, c, d] = push_bit 24 (ucast a) OR push_bit 16 (ucast b) OR push_bit 8 (ucast c) OR ucast d"
| "ntohl_bytes _ = 0"

definition read_result :: "FrameReadState \<Rightarrow> byte list \<Rightarrow> IoMessage \<Rightarrow> FrameReadResult" where
  "read_result st p m = \<lparr>read_state = st, payload = p, read_message = m\<rparr>"

definition length_message :: IoMessage where
  "length_message = Text ''frame payload length is outside 1..16777216 bytes''"

text \<open>\<^verbatim>\<open>payload_timeout\<close> reads the clock once to fix the payload's own deadline.\<close>

definition payload_deadline :: "int option \<Rightarrow> Socket \<Rightarrow> (IoDeadline option \<times> Socket) option" where
  "payload_deadline timeout s = (case timeout of None \<Rightarrow> Some (None, s)
     | Some t \<Rightarrow> (case clocks s of [] \<Rightarrow> None
         | now # cs \<Rightarrow> Some (Some \<lparr>deadline_value = now + t, stage = ''frame payload''\<rparr>, s\<lparr>clocks := cs\<rparr>)))"

definition read_frame_impl :: "IoDeadline option \<Rightarrow> int option \<Rightarrow> Socket \<Rightarrow> (FrameReadResult \<times> Socket) option" where
  "read_frame_impl header_deadline payload_timeout s =
    (case receive_exact 4 True header_deadline [] s of None \<Rightarrow> None
     | Some (Receive_Clean_Eof, s1) \<Rightarrow> Some (read_result CleanEof [] (Text []), s1)
     | Some (Receive_Truncated, s1) \<Rightarrow> Some (read_result Truncated [] (Text ''EOF inside frame header''), s1)
     | Some (Receive_Failed m, s1) \<Rightarrow> Some (read_result IoError [] m, s1)
     | Some (Received header, s1) \<Rightarrow>
         let payload_length = unat (ntohl_bytes header) in
         if payload_length = 0 \<or> kMaximumFramePayloadBytes < payload_length
         then Some (read_result InvalidLength [] length_message, s1)
         else case payload_deadline payload_timeout s1 of None \<Rightarrow> None
           | Some (dl, s2) \<Rightarrow>
             (case receive_exact payload_length False dl [] s2 of None \<Rightarrow> None
              | Some (Received p, s3) \<Rightarrow> Some (read_result Complete p (Text []), s3)
              | Some (Receive_Clean_Eof, s3) \<Rightarrow> Some (read_result IoError [] (Text []), s3)
              | Some (Receive_Truncated, s3) \<Rightarrow> Some (read_result Truncated [] (Text ''EOF inside frame payload''), s3)
              | Some (Receive_Failed m, s3) \<Rightarrow> Some (read_result IoError [] m, s3)))"

definition write_frame_impl :: "byte list \<Rightarrow> IoDeadline option \<Rightarrow> Socket \<Rightarrow> (FrameWriteResult \<times> Socket) option" where
  "write_frame_impl p dl s =
    (if p = [] \<or> kMaximumFramePayloadBytes < length p \<or> 2 ^ 32 - 1 < length p
     then Some (\<lparr>ok = False, write_message = length_message\<rparr>, s)
     else case send_exact (htonl_bytes (word_of_nat (length p))) dl s of None \<Rightarrow> None
       | Some (Inl m, s1) \<Rightarrow> Some (\<lparr>ok = False, write_message = m\<rparr>, s1)
       | Some (Inr _, s1) \<Rightarrow>
           (case send_exact p dl s1 of None \<Rightarrow> None
            | Some (Inl m, s2) \<Rightarrow> Some (\<lparr>ok = False, write_message = m\<rparr>, s2)
            | Some (Inr _, s2) \<Rightarrow> Some (\<lparr>ok = True, write_message = Text []\<rparr>, s2)))"

definition read_frame :: "Socket \<Rightarrow> (FrameReadResult \<times> Socket) option" where
  "read_frame s = read_frame_impl None None s"

definition read_frame_with_stage_deadlines :: "int \<Rightarrow> int \<Rightarrow> Socket \<Rightarrow> (FrameReadResult \<times> Socket) option" where
  "read_frame_with_stage_deadlines header_deadline timeout s =
     read_frame_impl (Some \<lparr>deadline_value = header_deadline, stage = ''frame header''\<rparr>) (Some timeout) s"

definition write_frame :: "byte list \<Rightarrow> Socket \<Rightarrow> (FrameWriteResult \<times> Socket) option" where
  "write_frame p s = write_frame_impl p None s"

definition write_frame_before_deadline :: "byte list \<Rightarrow> int \<Rightarrow> Socket \<Rightarrow> (FrameWriteResult \<times> Socket) option" where
  "write_frame_before_deadline p deadline s =
     write_frame_impl p (Some \<lparr>deadline_value = deadline, stage = ''frame write''\<rparr>) s"

section \<open>Reference behaviour on the byte stream\<close>

text \<open>
  The bytes a script delivers before its first event that ends the stream, and that event. What
  the chunks are and where the retried errors fall plays no role.
\<close>

fun stream_of :: "bool \<Rightarrow> RecvResult list \<Rightarrow> byte list" where
  "stream_of b [] = []"
| "stream_of b (Recv_Data bs # rs) = (if bs = [] then [] else bs @ stream_of b rs)"
| "stream_of b (Recv_Error e # rs) = (if retry_errno b e then stream_of b rs else [])"

fun stream_end :: "bool \<Rightarrow> RecvResult list \<Rightarrow> RecvResult option" where
  "stream_end b [] = None"
| "stream_end b (Recv_Data bs # rs) = (if bs = [] then Some (Recv_Data []) else stream_end b rs)"
| "stream_end b (Recv_Error e # rs) = (if retry_errno b e then stream_end b rs else Some (Recv_Error e))"

definition be_value :: "byte list \<Rightarrow> nat" where
  "be_value bs = foldl (\<lambda>v b. 256 * v + unat b) 0 bs"

definition stopped :: "RecvResult option \<Rightarrow> string \<Rightarrow> FrameReadResult option" where
  "stopped fin msg = (case fin of None \<Rightarrow> None
     | Some (Recv_Data _) \<Rightarrow> Some (read_result Truncated [] (Text msg))
     | Some (Recv_Error e) \<Rightarrow> Some (read_result IoError [] (Errno_Text ''socket read failed: '' e)))"

definition spec_read :: "byte list \<Rightarrow> RecvResult option \<Rightarrow> FrameReadResult option" where
  "spec_read bytes fin =
    (if 4 \<le> length bytes then
       let n = be_value (take 4 bytes) in
       if n = 0 \<or> 16777216 < n then Some (read_result InvalidLength [] length_message)
       else if 4 + n \<le> length bytes then Some (read_result Complete (take n (drop 4 bytes)) (Text []))
       else stopped fin ''EOF inside frame payload''
     else if bytes = [] \<and> fin = Some (Recv_Data []) then Some (read_result CleanEof [] (Text []))
     else stopped fin ''EOF inside frame header'')"

definition spec_receive :: "nat \<Rightarrow> bool \<Rightarrow> byte list \<Rightarrow> RecvResult option \<Rightarrow> ReceiveOutcome option" where
  "spec_receive wanted allow bytes fin =
    (if wanted \<le> length bytes then Some (Received (take wanted bytes))
     else case fin of None \<Rightarrow> None
       | Some (Recv_Data _) \<Rightarrow> Some (if allow \<and> bytes = [] then Receive_Clean_Eof else Receive_Truncated)
       | Some (Recv_Error e) \<Rightarrow> Some (Receive_Failed (Errno_Text ''socket read failed: '' e)))"

text \<open>A frame as it travels, and a conversation of several frames on one connection.\<close>

definition frame_bytes :: "byte list \<Rightarrow> byte list" where
  "frame_bytes p = htonl_bytes (word_of_nat (length p)) @ p"

fun write_frames :: "byte list list \<Rightarrow> Socket \<Rightarrow> Socket option" where
  "write_frames [] s = Some s"
| "write_frames (p # ps) s = (case write_frame p s of None \<Rightarrow> None
     | Some (r, s1) \<Rightarrow> if ok r then write_frames ps s1 else None)"

fun read_frames :: "nat \<Rightarrow> Socket \<Rightarrow> (byte list list \<times> Socket) option" where
  "read_frames 0 s = Some ([], s)"
| "read_frames (Suc n) s = (case read_frame s of None \<Rightarrow> None
     | Some (r, s1) \<Rightarrow> if read_state r = Complete
         then map_option (\<lambda>(ps, s2). (payload r # ps, s2)) (read_frames n s1) else None)"

section \<open>Lemmas\<close>

subsection \<open>The header\<close>

lemma ntohl_htonl [simp]: "ntohl_bytes (htonl_bytes w) = w"
  unfolding htonl_bytes_def ntohl_bytes.simps
proof (rule bit_word_eqI)
  fix n assume "n < LENGTH(32)"
  then show "bit (push_bit 24 (ucast (ucast (drop_bit 24 w) :: byte)) OR push_bit 16 (ucast (ucast (drop_bit 16 w) :: byte))
      OR push_bit 8 (ucast (ucast (drop_bit 8 w) :: byte)) OR ucast (ucast w :: byte) :: 32 word) n = bit w n"
    by (cases "n < 8"; cases "n < 16"; cases "n < 24") (auto simp: bit_simps not_less)
qed

lemma length_htonl [simp]: "length (htonl_bytes w) = 4"
  by (simp add: htonl_bytes_def)

lemma length4:
  "length bs = 4 \<Longrightarrow> \<exists>a b c d. bs = [a, b, c, d]"
  by (auto simp: numeral_eq_Suc length_Suc_conv)

lemma htonl_ntohl:
  assumes "length bs = 4" shows "htonl_bytes (ntohl_bytes bs) = bs"
proof -
  obtain a b c d where bs: "bs = [a, b, c, d]" using length4 [OF assms] by blast
  have top: "\<not> bit (x :: byte) n" if "8 \<le> n" for x n using bit_imp_le_length [of x n] that by auto
  show ?thesis
    by (auto simp: bs htonl_bytes_def bit_simps top intro!: bit_word_eqI)
qed

lemma unat_ntohl:
  assumes "length bs = 4" shows "unat (ntohl_bytes bs) = be_value bs"
proof -
  obtain a b c d where bs: "bs = [a, b, c, d]" using length4 [OF assms] by blast
  have lt: "unat (x :: byte) < 256" for x using unsigned_less [of x, where ?'a = nat] by simp
  have top: "n < 8" if "bit (x :: byte) n" for x n using bit_imp_le_length [OF that] by simp
  have 1: "push_bit 8 (ucast c) + ucast d = (push_bit 8 (ucast c) OR ucast d :: 32 word)"
    by (rule disjunctive_add) (auto simp: bit_simps dest: top)
  have 2: "push_bit 16 (ucast b) + (push_bit 8 (ucast c) OR ucast d)
      = (push_bit 16 (ucast b) OR (push_bit 8 (ucast c) OR ucast d) :: 32 word)"
    by (rule disjunctive_add) (auto simp: bit_simps dest!: top)
  have 3: "push_bit 24 (ucast a) + (push_bit 16 (ucast b) OR (push_bit 8 (ucast c) OR ucast d))
      = (push_bit 24 (ucast a) OR (push_bit 16 (ucast b) OR (push_bit 8 (ucast c) OR ucast d)) :: 32 word)"
    by (rule disjunctive_add) (auto simp: bit_simps dest!: top)
  have "ntohl_bytes bs = push_bit 24 (ucast a) + (push_bit 16 (ucast b) + (push_bit 8 (ucast c) + ucast d))"
    by (simp only: bs ntohl_bytes.simps 1 2 3)
  also have "\<dots> = word_of_nat (2 ^ 24 * unat a + (2 ^ 16 * unat b + (2 ^ 8 * unat c + unat d)))"
    by (simp add: push_bit_eq_mult mult.commute of_nat_unat)
  finally have "unat (ntohl_bytes bs) = (2 ^ 24 * unat a + (2 ^ 16 * unat b + (2 ^ 8 * unat c + unat d))) mod 2 ^ 32"
    by (simp only: unat_of_nat) simp
  then show ?thesis using lt [of a] lt [of b] lt [of c] lt [of d] by (simp add: bs be_value_def)
qed

subsection \<open>Exact transfers\<close>

lemma await_io_keeps:
  "await_io dl s = Some (r, s') \<Longrightarrow> recvs s' = recvs s \<and> sends s' = sends s \<and> sent s' = sent s"
  by (auto simp: await_io_def split: option.splits)

lemma await_io_None [simp]: "await_io None s = Some (Inr (), s)"
  by (simp add: await_io_def)

lemma receive_exact_full:
  "wanted \<le> length got \<Longrightarrow> receive_exact wanted allow dl got s = Some (Received got, s)"
  by (simp add: receive_exact.simps)

text \<open>The ways an exact receive or send can go on.\<close>

lemma receive_exact_cases:
  assumes "receive_exact wanted allow dl got s = Some (oc, s')"
  obtains (full) "wanted \<le> length got" "oc = Received got" "s' = s"
  | (wait) m where "dl \<noteq> None" "oc = Receive_Failed m"
  | (eof) rs where "length got < wanted" "recvs s = Recv_Data [] # rs"
      "oc = (if allow \<and> got = [] then Receive_Clean_Eof else Receive_Truncated)"
  | (failed) e rs where "length got < wanted" "recvs s = Recv_Error e # rs" "\<not> retry_errno (dl \<noteq> None) e"
      "oc = Receive_Failed (Errno_Text ''socket read failed: '' e)"
  | (last) bs rs where "length got < wanted" "recvs s = Recv_Data bs # rs" "wanted - length got < length bs"
      "oc = Received (got @ take (wanted - length got) bs)" "recvs s' = Recv_Data (drop (wanted - length got) bs) # rs"
  | (more) bs rs s1 where "length got < wanted" "recvs s = Recv_Data bs # rs" "bs \<noteq> []" "length bs \<le> wanted - length got"
      "recvs s1 = rs" "receive_exact wanted allow dl (got @ bs) s1 = Some (oc, s')"
  | (retry) e rs s1 where "length got < wanted" "recvs s = Recv_Error e # rs" "retry_errno (dl \<noteq> None) e"
      "recvs s1 = rs" "receive_exact wanted allow dl got s1 = Some (oc, s')"
proof (cases "wanted \<le> length got")
  case True
  then show ?thesis using assms full by (simp add: receive_exact_full)
next
  case room: False
  note step = assms [unfolded receive_exact.simps [of wanted allow dl got s] if_not_P [OF room]]
  obtain r s1 where aw: "await_io dl s = Some (r, s1)" using step by (cases "await_io dl s") auto
  have keep: "recvs s1 = recvs s" using await_io_keeps [OF aw] by simp
  show ?thesis
  proof (cases r)
    case (Inl m)
    then show ?thesis using step aw wait by (cases dl) auto
  next
    case (Inr u)
    note eq = step [unfolded aw option.case prod.case Inr sum.case keep]
    obtain ev rs where evs: "recvs s = ev # rs" using eq by (cases "recvs s") auto
    show ?thesis
    proof (cases ev)
      case (Recv_Error e)
      then show ?thesis using eq evs room failed retry [of e rs "s1\<lparr>recvs := rs\<rparr>"] by (auto split: if_splits)
    next
      case (Recv_Data bs)
      then show ?thesis
        using eq evs room eof last [of bs rs] more [of bs rs "s1\<lparr>recvs := rs\<rparr>"]
        by (cases bs) (auto simp: Let_def receive_exact_full split: if_splits)
    qed
  qed
qed

lemma send_exact_cases:
  assumes "send_exact src dl s = Some (r, s')"
  obtains (empty) "src = []" "r = Inr ()" "s' = s"
  | (stop) m where "src \<noteq> []" "r = Inl m" "sent s' = sent s"
  | (more) n rs s1 where "0 < n" "sends s = Send_Count n # rs" "sends s1 = rs" "sent s1 = sent s @ take n src"
      "send_exact (drop n src) dl s1 = Some (r, s')"
  | (retry) e rs s1 where "sends s = Send_Error e # rs" "sends s1 = rs" "sent s1 = sent s"
      "send_exact src dl s1 = Some (r, s')"
proof (cases "src = []")
  case True
  then show ?thesis using assms empty by (simp add: send_exact.simps)
next
  case room: False
  note step = assms [unfolded send_exact.simps [of src dl s] if_not_P [OF room]]
  obtain q s1 where aw: "await_io dl s = Some (q, s1)" using step by (cases "await_io dl s") auto
  have keep: "sends s1 = sends s" "sent s1 = sent s" using await_io_keeps [OF aw] by simp_all
  show ?thesis
  proof (cases q)
    case (Inl m)
    then show ?thesis using step aw stop keep room by auto
  next
    case (Inr u)
    note eq = step [unfolded aw option.case prod.case Inr sum.case keep]
    obtain ev rs where evs: "sends s = ev # rs" using eq by (cases "sends s") auto
    show ?thesis
      using eq evs room stop keep more [of _ rs "s1\<lparr>sends := rs, sent := sent s @ take _ src\<rparr>"]
        retry [of _ rs "s1\<lparr>sends := rs\<rparr>"]
      by (cases ev) (auto split: if_splits)
  qed
qed

text \<open>An exact receive that returns agrees with the reference, or it was cut short by its deadline;
  without a deadline it returns exactly when the reference does.\<close>

lemma receive_exact_sound:
  assumes "receive_exact wanted allow dl got s = Some (oc, s')" "length got \<le> wanted" "b = (dl \<noteq> None)"
  shows "(b \<and> (\<exists>m. oc = Receive_Failed m))
    \<or> (spec_receive wanted allow (got @ stream_of b (recvs s)) (stream_end b (recvs s)) = Some oc
       \<and> (wanted \<le> length (got @ stream_of b (recvs s)) \<longrightarrow>
            stream_of b (recvs s') = drop (wanted - length got) (stream_of b (recvs s))
            \<and> stream_end b (recvs s') = stream_end b (recvs s)))"
  using assms
proof (induction "recvs s" arbitrary: got s)
  case Nil
  from Nil.prems(1) show ?case
    by (cases rule: receive_exact_cases) (use Nil in \<open>auto simp: spec_receive_def\<close>)
next
  case (Cons ev rs)
  note evs = Cons.hyps(2) [symmetric]
  from Cons.prems(1) show ?case
  proof (cases rule: receive_exact_cases)
    case (more bs rs1 s1)
    then have s1: "rs = recvs s1" and len: "length (got @ bs) \<le> wanted" using evs by auto
    have "drop (wanted - length got) (bs @ ys) = drop (wanted - length (got @ bs)) ys" for ys
      using more(4) by simp
    then show ?thesis
      using Cons.hyps(1) [OF s1 more(6) len Cons.prems(3)] more(2,3) evs s1 by auto
  next
    case (retry e rs1 s1)
    then have s1: "rs = recvs s1" using evs by auto
    show ?thesis using Cons.hyps(1) [OF s1 retry(5) Cons.prems(2,3)] retry(2,3) evs s1 Cons.prems(3) by auto
  qed (use Cons.prems(2,3) in \<open>auto simp: spec_receive_def\<close>)
qed

lemma receive_exact_returns:
  assumes "receive_exact wanted allow None got s = None"
  shows "length (got @ stream_of False (recvs s)) < wanted \<and> stream_end False (recvs s) = None"
  using assms
proof (induction "recvs s" arbitrary: got s)
  case Nil
  then show ?case by (simp add: receive_exact.simps [of _ _ _ got] split: if_splits)
next
  case (Cons ev rs)
  note step = receive_exact.simps [of wanted allow None got s]
  have IH: "length (got' @ stream_of False rs) < wanted \<and> stream_end False rs = None"
    if "receive_exact wanted allow None got' (s\<lparr>recvs := rs\<rparr>) = None" for got'
    using Cons.hyps(1) [of "s\<lparr>recvs := rs\<rparr>" got'] that by simp
  show ?case
    using Cons.prems
  proof (cases ev)
    case (Recv_Error e)
    with Cons.prems Cons.hyps(2) [symmetric] IH [of got] show ?thesis by (auto simp: step split: if_splits)
  next
    case (Recv_Data bs)
    with Cons.prems Cons.hyps(2) [symmetric] IH [of "got @ bs"] show ?thesis
      by (cases bs) (auto simp: step receive_exact_full Let_def split: if_splits)
  qed
qed

subsection \<open>Reading\<close>

lemma stream_end_Data: "stream_end b rs = Some (Recv_Data x) \<Longrightarrow> x = []"
  by (induction b rs rule: stream_end.induct) (auto split: if_splits)

lemma take_take_drop: "take m xs @ take n (drop m xs) @ drop (n + m) xs = xs"
  by (metis append_take_drop_id drop_drop)

lemma read_frame_impl_sound:
  assumes "read_frame_impl hdl pt s = Some (r, s')" "(hdl = None) = (pt = None)"
  defines "b \<equiv> hdl \<noteq> None"
  shows "(b \<and> read_state r = IoError)
    \<or> (spec_read (stream_of b (recvs s)) (stream_end b (recvs s)) = Some r
       \<and> (read_state r = Complete \<longrightarrow>
            stream_of b (recvs s) = frame_bytes (payload r) @ stream_of b (recvs s')
            \<and> stream_end b (recvs s') = stream_end b (recvs s)))"
proof -
  obtain oc s1 where rx: "receive_exact 4 True hdl [] s = Some (oc, s1)"
    using assms(1) by (auto simp: read_frame_impl_def split: option.splits)
  note hs = receive_exact_sound [OF rx _ refl, folded b_def]
  show ?thesis
  proof (cases oc)
    case (Received header)
    let ?b = "stream_of b (recvs s)" and ?e = "stream_end b (recvs s)" and ?n = "be_value header"
    from hs have h: "4 \<le> length ?b" "header = take 4 ?b" "stream_of b (recvs s1) = drop 4 ?b" "stream_end b (recvs s1) = ?e"
      by (auto simp: Received spec_receive_def split: if_splits option.splits RecvResult.splits)
    then have len: "length header = 4" by simp
    show ?thesis
    proof (cases "?n = 0 \<or> 16777216 < ?n")
      case True
      then show ?thesis using assms(1) h(1,2) rx unat_ntohl [OF len]
        by (auto simp: read_frame_impl_def Received spec_read_def read_result_def Let_def kMaximumFramePayloadBytes_def)
    next
      case ok: False
      obtain dl s2 where pd: "payload_deadline pt s1 = Some (dl, s2)"
        using assms(1) rx ok unat_ntohl [OF len]
        by (auto simp: read_frame_impl_def Received Let_def kMaximumFramePayloadBytes_def split: option.splits)
      have dl: "b = (dl \<noteq> None)" and s2: "recvs s2 = recvs s1"
        using pd assms(2) by (auto simp: payload_deadline_def b_def split: option.splits list.splits)
      obtain oc2 s3 where rp: "receive_exact ?n False dl [] s2 = Some (oc2, s3)"
        using assms(1) rx ok pd unat_ntohl [OF len]
        by (auto simp: read_frame_impl_def Received Let_def kMaximumFramePayloadBytes_def split: option.splits)
      have hb: "htonl_bytes (word_of_nat ?n) = take 4 ?b"
        using htonl_ntohl [OF len] h(2) unat_ntohl [OF len] by (metis of_nat_unat ucast_id)
      note ps = receive_exact_sound [OF rp _ dl, unfolded s2 h(3,4)]
      have r: "r = (case oc2 of Received p \<Rightarrow> read_result Complete p (Text [])
          | Receive_Clean_Eof \<Rightarrow> read_result IoError [] (Text [])
          | Receive_Truncated \<Rightarrow> read_result Truncated [] (Text ''EOF inside frame payload'')
          | Receive_Failed m \<Rightarrow> read_result IoError [] m)" "s' = s3"
        using assms(1) rx ok pd rp unat_ntohl [OF len]
        by (auto simp: read_frame_impl_def Received Let_def kMaximumFramePayloadBytes_def split: ReceiveOutcome.splits)
      show ?thesis
        using ps ok h(1,2) hb unfolding r
        by (cases oc2) (auto simp: spec_receive_def spec_read_def stopped_def read_result_def Let_def frame_bytes_def take_take_drop
            split: if_splits option.splits RecvResult.splits)
    qed
  qed (use assms(1) rx hs in \<open>auto simp: read_frame_impl_def read_result_def spec_read_def spec_receive_def stopped_def
      dest: stream_end_Data split: if_splits option.splits RecvResult.splits\<close>)
qed

lemma read_frame_returns:
  assumes "read_frame s = None"
  shows "spec_read (stream_of False (recvs s)) (stream_end False (recvs s)) = None"
proof (cases "receive_exact 4 True None [] s")
  case None
  from receive_exact_returns [OF this] show ?thesis by (auto simp: spec_read_def stopped_def)
next
  case (Some x)
  obtain oc s1 where x: "receive_exact 4 True None [] s = Some (oc, s1)" using Some by (cases x) simp
  note hs = receive_exact_sound [OF x _ refl, simplified]
  obtain header where oc: "oc = Received header"
    using assms x by (cases oc) (auto simp: read_frame_def read_frame_impl_def)
  let ?b = "stream_of False (recvs s)" and ?e = "stream_end False (recvs s)"
  from hs have h: "4 \<le> length ?b" "header = take 4 ?b" "stream_of False (recvs s1) = drop 4 ?b"
      "stream_end False (recvs s1) = ?e"
    by (auto simp: oc spec_receive_def split: if_splits option.splits RecvResult.splits)
  then have len: "length header = 4" by simp
  have ok: "\<not> (be_value header = 0 \<or> 16777216 < be_value header)"
    and rp: "receive_exact (be_value header) False None [] s1 = None"
    using assms x oc unat_ntohl [OF len]
    by (auto simp: read_frame_def read_frame_impl_def payload_deadline_def Let_def kMaximumFramePayloadBytes_def
        split: if_splits option.splits ReceiveOutcome.splits)
  from receive_exact_returns [OF rp] ok h show ?thesis by (auto simp: spec_read_def stopped_def Let_def)
qed

subsection \<open>Writing\<close>

text \<open>An exact send hands over a prefix of its bytes, all of them exactly when it succeeds.\<close>

lemma send_exact_sound:
  assumes "send_exact src dl s = Some (r, s')"
  shows "\<exists>n. sent s' = sent s @ take n src \<and> (case r of Inl _ \<Rightarrow> n < length src | Inr _ \<Rightarrow> length src \<le> n)"
  using assms
proof (induction "sends s" arbitrary: src s)
  case Nil
  from Nil.prems show ?case
  proof (cases rule: send_exact_cases)
    case (stop m)
    then show ?thesis by (intro exI [of _ 0]) simp
  qed (use Nil in auto)
next
  case (Cons ev rs)
  note evs = Cons.hyps(2) [symmetric]
  from Cons.prems show ?case
  proof (cases rule: send_exact_cases)
    case (stop m)
    then show ?thesis by (intro exI [of _ 0]) simp
  next
    case (more k rs1 s1)
    obtain n where "sent s' = sent s1 @ take n (drop k src)"
        "case r of Inl _ \<Rightarrow> n < length (drop k src) | Inr _ \<Rightarrow> length (drop k src) \<le> n"
      using Cons.hyps(1) [OF _ more(5)] more(2,3) evs by auto
    then show ?thesis using more(4) by (intro exI [of _ "k + n"]) (auto simp: take_add split: sum.splits)
  next
    case (retry e rs1 s1)
    then show ?thesis using Cons.hyps(1) [OF _ retry(4)] evs by auto
  qed auto
qed

text \<open>A write leaves a prefix of its frame on the wire, the whole frame exactly when it reports success.\<close>

lemma write_frame_impl_sound:
  assumes "write_frame_impl p dl s = Some (r, s')"
  shows "(ok r \<and> length p \<in> {1..16777216} \<and> sent s' = sent s @ frame_bytes p)
    \<or> (\<not> ok r \<and> (\<exists>n < length (frame_bytes p). sent s' = sent s @ take n (frame_bytes p)))"
proof (cases "length p \<in> {1..16777216}")
  case False
  then show ?thesis
    using assms by (cases p) (auto simp: write_frame_impl_def frame_bytes_def kMaximumFramePayloadBytes_def intro!: exI [of _ 0])
next
  case True
  let ?h = "htonl_bytes (word_of_nat (length p))"
  have go: "\<not> (p = [] \<or> kMaximumFramePayloadBytes < length p \<or> 2 ^ 32 - 1 < length p)"
    using True by (auto simp: kMaximumFramePayloadBytes_def)
  note eq = assms [unfolded write_frame_impl_def if_not_P [OF go]]
  obtain q s1 where h: "send_exact ?h dl s = Some (q, s1)" using eq by (cases "send_exact ?h dl s") auto
  obtain n where n: "sent s1 = sent s @ take n ?h" "case q of Inl _ \<Rightarrow> n < 4 | Inr _ \<Rightarrow> 4 \<le> n"
    using send_exact_sound [OF h, unfolded length_htonl] by blast
  show ?thesis
  proof (cases q)
    case (Inl m)
    then show ?thesis using eq h n by (auto simp: frame_bytes_def intro!: exI [of _ n])
  next
    case (Inr u)
    then obtain q2 s2 where b: "send_exact p dl s1 = Some (q2, s2)" using eq h by (cases "send_exact p dl s1") auto
    obtain k where k: "sent s2 = sent s1 @ take k p" "case q2 of Inl _ \<Rightarrow> k < length p | Inr _ \<Rightarrow> length p \<le> k"
      using send_exact_sound [OF b] by blast
    have "sent s2 = sent s @ take (4 + k) (frame_bytes p)" using n k(1) Inr by (simp add: frame_bytes_def)
    then show ?thesis using eq h b Inr k(2) True
      by (cases q2) (auto simp: frame_bytes_def intro!: exI [of _ "4 + k"])
  qed
qed

subsection \<open>Conversations\<close>

lemma be_value_header: "n < 2 ^ 32 \<Longrightarrow> be_value (htonl_bytes (word_of_nat n)) = n"
  using unat_ntohl [of "htonl_bytes (word_of_nat n)"] by (simp add: unat_of_nat)

lemma read_frame_complete:
  assumes "stream_of False (recvs s) = frame_bytes p @ rest" "length p \<in> {1..16777216}"
  shows "\<exists>s'. read_frame s = Some (read_result Complete p (Text []), s')
    \<and> stream_of False (recvs s') = rest \<and> stream_end False (recvs s') = stream_end False (recvs s)"
proof -
  let ?r = "read_result Complete p (Text [])"
  have spec: "spec_read (stream_of False (recvs s)) (stream_end False (recvs s)) = Some ?r"
    using assms by (auto simp: spec_read_def frame_bytes_def be_value_header Let_def)
  then obtain r s' where r: "read_frame s = Some (r, s')" using read_frame_returns [of s] by fastforce
  from read_frame_impl_sound [of None None s r s'] r spec have "r = ?r" by (auto simp: read_frame_def)
  with read_frame_impl_sound [of None None s r s'] r assms(1) show ?thesis
    by (auto simp: read_frame_def read_result_def)
qed

lemma read_frame_clean_eof:
  assumes "stream_of False (recvs s) = []" "stream_end False (recvs s) = Some (Recv_Data [])"
  shows "\<exists>s'. read_frame s = Some (read_result CleanEof [] (Text []), s')"
proof -
  have spec: "spec_read (stream_of False (recvs s)) (stream_end False (recvs s)) = Some (read_result CleanEof [] (Text []))"
    using assms by (simp add: spec_read_def)
  then obtain r s' where r: "read_frame s = Some (r, s')" using read_frame_returns [of s] by fastforce
  from read_frame_impl_sound [of None None s r s'] r spec show ?thesis by (auto simp: read_frame_def)
qed

lemma write_frames_sent:
  "write_frames ps s = Some s' \<Longrightarrow>
    sent s' = sent s @ concat (map frame_bytes ps) \<and> (\<forall>p \<in> set ps. length p \<in> {1..16777216})"
proof (induction ps arbitrary: s)
  case (Cons p ps)
  then obtain r s1 where w: "write_frame p s = Some (r, s1)" "ok r" "write_frames ps s1 = Some s'"
    by (auto split: option.splits if_splits)
  then show ?case using Cons.IH [OF w(3)] write_frame_impl_sound [of p None s r s1] by (auto simp: write_frame_def)
qed simp

lemma read_frames_complete:
  assumes "stream_of False (recvs s) = concat (map frame_bytes ps) @ rest" "\<forall>p \<in> set ps. length p \<in> {1..16777216}"
  shows "\<exists>s'. read_frames (length ps) s = Some (ps, s')
    \<and> stream_of False (recvs s') = rest \<and> stream_end False (recvs s') = stream_end False (recvs s)"
  using assms
proof (induction ps arbitrary: s)
  case (Cons p ps)
  obtain s1 where s1: "read_frame s = Some (read_result Complete p (Text []), s1)"
      "stream_of False (recvs s1) = concat (map frame_bytes ps) @ rest"
      "stream_end False (recvs s1) = stream_end False (recvs s)"
    using read_frame_complete [of s p "concat (map frame_bytes ps) @ rest"] Cons.prems by auto
  then show ?case using Cons.IH [OF s1(2)] Cons.prems(2) by (auto simp: read_result_def)
qed simp

subsection \<open>A sample conversation\<close>

text \<open>Two payloads sent in pieces around an interrupted call, and received in other pieces.\<close>

definition demo_sender :: Socket where
  "demo_sender = \<lparr>clocks = [], polls = [], recvs = [],
     sends = [Send_Count 3, Send_Error EINTR, Send_Count 1, Send_Count 2, Send_Count 4, Send_Count 1], sent = []\<rparr>"

definition demo_receiver :: Socket where
  "demo_receiver = \<lparr>clocks = [], polls = [],
     recvs = [Recv_Data [0, 0], Recv_Error EINTR, Recv_Data [0, 2, 65, 66, 0, 0, 0], Recv_Data [1, 67], Recv_Data []],
     sends = [], sent = []\<rparr>"

lemma demo_written:
  "write_frames [[65, 66], [67]] demo_sender = Some (demo_sender\<lparr>sends := [], sent := [0, 0, 0, 2, 65, 66, 0, 0, 0, 1, 67]\<rparr>)"
  by (simp add: demo_sender_def write_frame_def write_frame_impl_def kMaximumFramePayloadBytes_def htonl_bytes_def
      send_exact.simps retry_errno_def)

lemma demo_sender_fresh: "sent demo_sender = []"
  by (simp add: demo_sender_def)

lemma demo_received:
  "stream_of False (recvs demo_receiver) = sent (demo_sender\<lparr>sends := [], sent := [0, 0, 0, 2, 65, 66, 0, 0, 0, 1, 67]\<rparr>)"
  "stream_end False (recvs demo_receiver) = Some (Recv_Data [])"
  by (simp_all add: demo_receiver_def retry_errno_def)

section \<open>Properties\<close>

text \<open>
  C17. Reading a frame depends only on the byte stream. A blocking read returns exactly what the
  reference reader says of the bytes delivered and of how the stream ends, whatever the chunks and
  the interrupted calls: the payload of a complete frame with a big-endian length in 1..16777216,
  an invalid length before any payload byte is taken, a clean end only at a frame boundary, a
  truncation elsewhere, the socket's error, or no return while the peer is silent. A complete
  read takes the frame's bytes and nothing of what follows. A read under stage deadlines may
  besides report an IO error, and nothing else.
\<close>

theorem read_frame_exact:
  "map_option fst (read_frame s) = spec_read (stream_of False (recvs s)) (stream_end False (recvs s))
   \<and> (case read_frame s of None \<Rightarrow> True
      | Some (r, s') \<Rightarrow> (if read_state r = Complete
          then stream_of False (recvs s) = frame_bytes (payload r) @ stream_of False (recvs s') else payload r = []))
   \<and> (case read_frame_with_stage_deadlines header_deadline timeout s of None \<Rightarrow> True
      | Some (r, s') \<Rightarrow> read_state r = IoError
          \<or> spec_read (stream_of True (recvs s)) (stream_end True (recvs s)) = Some r)"
proof -
  note snd = read_frame_impl_sound [where s = s]
  have "payload r = []" if "spec_read bs fin = Some r" "read_state r \<noteq> Complete" for bs fin r
    using that by (auto simp: spec_read_def stopped_def read_result_def Let_def split: if_splits option.splits RecvResult.splits)
  then show ?thesis
    using read_frame_returns [of s] snd [of None None] snd [of "Some \<lparr>deadline_value = header_deadline, stage = ''frame header''\<rparr>" "Some timeout"]
    by (auto simp: read_frame_def read_frame_with_stage_deadlines_def split: option.split)
qed

text \<open>
  C5. Frames survive the wire. When a sequence of payloads has been written with success on a
  connection, however the sends were split or interrupted, a reader that receives those bytes in
  any chunks reads back exactly those payloads in order and then a clean end of stream. Every
  write, with or without a deadline, that does not report success has left a proper prefix of
  its frame on the wire, nothing at all when the payload's length is out of range.
\<close>

theorem frames_round_trip:
  assumes "write_frames ps w = Some w'" "sent w = []"
    and "stream_of False (recvs s) = sent w'" "stream_end False (recvs s) = Some (Recv_Data [])"
  shows "(\<exists>s1 s2. read_frames (length ps) s = Some (ps, s1)
       \<and> read_frame s1 = Some (read_result CleanEof [] (Text []), s2))
    \<and> (write_frame_impl p dl w = Some (r, w1) \<and> \<not> ok r \<longrightarrow>
       (\<exists>n < length (frame_bytes p). sent w1 = take n (frame_bytes p)) \<and> (length p \<notin> {1..16777216} \<longrightarrow> w1 = w))"
proof
  have out: "sent w' = concat (map frame_bytes ps)" and rng: "\<forall>p \<in> set ps. length p \<in> {1..16777216}"
    using write_frames_sent [OF assms(1)] assms(2) by auto
  obtain s1 where s1: "read_frames (length ps) s = Some (ps, s1)" "stream_of False (recvs s1) = []"
      "stream_end False (recvs s1) = Some (Recv_Data [])"
    using read_frames_complete [of s ps "[]", OF _ rng] assms(3,4) out by auto
  then show "\<exists>s1 s2. read_frames (length ps) s = Some (ps, s1) \<and> read_frame s1 = Some (read_result CleanEof [] (Text []), s2)"
    using read_frame_clean_eof by blast
  have "w1 = w" if "write_frame_impl p dl w = Some (r, w1)" "length p \<notin> {1..16777216}"
    using that by (cases p) (auto simp: write_frame_impl_def kMaximumFramePayloadBytes_def)
  then show "write_frame_impl p dl w = Some (r, w1) \<and> \<not> ok r \<longrightarrow>
      (\<exists>n < length (frame_bytes p). sent w1 = take n (frame_bytes p)) \<and> (length p \<notin> {1..16777216} \<longrightarrow> w1 = w)"
    using write_frame_impl_sound [of p dl w r w1] assms(2) by auto
qed

theorem frames_round_trip_witness:
  "\<exists>s1 s2. read_frames 2 demo_receiver = Some ([[65, 66], [67]], s1)
     \<and> read_frame s1 = Some (read_result CleanEof [] (Text []), s2)"
  using conjunct1 [OF frames_round_trip [OF demo_written demo_sender_fresh demo_received]]
  by (simp add: numeral_2_eq_2 del: read_frames.simps)

end
