(* ===== verification/SnapshotRegistry.thy ===== *)
theory SnapshotRegistry
  imports PS_Prelude "HOL-Library.Char_ord" "HOL-Library.Sublist"
begin

text \<open>
  The daemon's registry of stable collection snapshots
  (\<^verbatim>\<open>src/lib/ipc/collection_snapshot_registry.cpp\<close> and its header). A request reserves a slot and
  worst-case bytes, publishes the collection the host returned, and reads it back page by page
  under a cursor.

  Every operation holds the registry's mutex, so it is one function on the state. The clock and
  the cursor generator are injected callbacks: their readings are arguments. Row types are erased
  in the code, so the rows here have one type and a record keeps the name of the row type, which
  a read must match. Allocation failures are left out. Byte counts are naturals; the
  invariant bounds them by the limits, which are machine words, so no sum of the code wraps.
\<close>

section \<open>Model\<close>

subsection \<open>Data\<close>

record CollectionSnapshotBinding =
  bound_method :: string
  bound_session_id :: string
  original_params :: string

datatype CollectionSnapshotError =
  NoError | InvalidParams | CapacityExceeded | ResponseTooLarge | CursorNotFound | Stopped

record CollectionSnapshotLimits =
  max_records :: nat
  total_bytes :: nat
  reservation_bytes :: nat
  snapshot_entries :: nat
  snapshot_bytes :: nat
  page_entries :: nat
  ttl :: int

record Reservation =
  owned :: bool
  token :: nat

record 'v PageResult =
  page_error :: CollectionSnapshotError
  page_cursor :: "string option"
  page_offset :: nat
  page_rows :: "'v list"
  has_more :: bool

record 'v Record =
  record_binding :: CollectionSnapshotBinding
  record_entries :: "'v list"
  record_type :: string
  entry_count :: nat
  measured_bytes :: nat
  page_entry_limit :: nat
  next_offset :: nat
  expires_at :: int

record 'v CollectionSnapshotRegistry =
  limits :: CollectionSnapshotLimits
  records :: "(string \<times> 'v Record) list"
  reservations :: "nat list"
  retained_bytes :: nat
  reserved_bytes :: nat
  next_reservation_token :: nat
  accepting :: bool

abbreviation size_max :: nat where
  "size_max \<equiv> 18446744073709551615"

abbreviation time_max :: int where
  "time_max \<equiv> 9223372036854775807"

definition inactive_reservation :: Reservation where
  "inactive_reservation = \<lparr>owned = False, token = 0\<rparr>"

definition empty_page :: "'v PageResult" where
  "empty_page = \<lparr>page_error = NoError, page_cursor = None, page_offset = 0, page_rows = [], has_more = False\<rparr>"

definition invalid_limits :: "CollectionSnapshotLimits \<Rightarrow> bool" where
  "invalid_limits l \<longleftrightarrow> max_records l = 0 \<or> total_bytes l = 0 \<or> reservation_bytes l = 0 \<or> snapshot_entries l = 0
     \<or> snapshot_bytes l = 0 \<or> page_entries l = 0 \<or> ttl l \<le> 0 \<or> reservation_bytes l < snapshot_bytes l
     \<or> total_bytes l < reservation_bytes l"

definition new_registry :: "CollectionSnapshotLimits \<Rightarrow> 'v CollectionSnapshotRegistry res" where
  "new_registry l = (if invalid_limits l then Inl Invalid_Argument
     else Inr \<lparr>limits = l, records = [], reservations = [], retained_bytes = 0, reserved_bytes = 0,
       next_reservation_token = 1, accepting = False\<rparr>)"

definition kOpaqueIdHexCharacters :: nat where
  "kOpaqueIdHexCharacters = 32"

definition valid_opaque_id :: "string \<Rightarrow> bool" where
  "valid_opaque_id v \<longleftrightarrow> length v = kOpaqueIdHexCharacters
     \<and> list_all (\<lambda>c. (CHR ''0'' \<le> c \<and> c \<le> CHR ''9'') \<or> (CHR ''a'' \<le> c \<and> c \<le> CHR ''f'')) v"

subsection \<open>Quota\<close>

definition start :: "'v CollectionSnapshotRegistry \<Rightarrow> 'v CollectionSnapshotRegistry" where
  "start g = g\<lparr>accepting := True\<rparr>"

definition erase_locked :: "string \<Rightarrow> 'v CollectionSnapshotRegistry \<Rightarrow> 'v CollectionSnapshotRegistry" where
  "erase_locked c g = (case map_of (records g) c of None \<Rightarrow> g
     | Some r \<Rightarrow> g\<lparr>retained_bytes := (if measured_bytes r \<le> retained_bytes g then retained_bytes g - measured_bytes r else 0),
         records := filter (\<lambda>(k, _). k \<noteq> c) (records g)\<rparr>)"

fun expire_from :: "int \<Rightarrow> (string \<times> 'v Record) list \<Rightarrow> 'v CollectionSnapshotRegistry \<Rightarrow> 'v CollectionSnapshotRegistry" where
  "expire_from now [] g = g"
| "expire_from now ((c, r) # rest) g =
     (if expires_at r \<le> now then expire_from now rest (erase_locked c g) else expire_from now rest g)"

definition expire_locked :: "int \<Rightarrow> 'v CollectionSnapshotRegistry \<Rightarrow> 'v CollectionSnapshotRegistry" where
  "expire_locked now g = expire_from now (records g) g"

definition expiration_at :: "int \<Rightarrow> CollectionSnapshotLimits \<Rightarrow> int" where
  "expiration_at now l = (if time_max - ttl l < now then time_max else now + ttl l)"

text \<open>\<^verbatim>\<open>next_token\<close> is the post-increment of a 64-bit counter that skips zero.\<close>

definition next_token :: "nat \<Rightarrow> nat" where
  "next_token t = (let n = (t + 1) mod 2 ^ 64 in if n = 0 then 1 else n)"

fun claim_token :: "nat \<Rightarrow> nat list \<Rightarrow> nat \<Rightarrow> nat \<times> nat list \<times> nat" where
  "claim_token 0 held nxt = (0, held, nxt)"
| "claim_token (Suc attempts) held nxt =
     (if nxt \<noteq> 0 \<and> nxt \<notin> set held then (nxt, held @ [nxt], next_token nxt)
      else claim_token attempts held (next_token nxt))"

definition reserve :: "int \<Rightarrow> 'v CollectionSnapshotRegistry
    \<Rightarrow> (CollectionSnapshotError \<times> Reservation) res \<times> 'v CollectionSnapshotRegistry" where
  "reserve now g0 =
    (let g = expire_locked now g0; l = limits g in
     if \<not> accepting g then (Inr (Stopped, inactive_reservation), g)
     else if max_records l \<le> length (records g) \<or> max_records l - length (records g) \<le> length (reservations g)
     then (Inr (CapacityExceeded, inactive_reservation), g)
     else if total_bytes l < retained_bytes g \<or> total_bytes l - retained_bytes g < reserved_bytes g
       \<or> total_bytes l - retained_bytes g - reserved_bytes g < reservation_bytes l
     then (Inr (CapacityExceeded, inactive_reservation), g)
     else let (tok, held, nxt) = claim_token (max_records l + 1) (reservations g) (next_reservation_token g);
              g1 = g\<lparr>reservations := held, next_reservation_token := nxt\<rparr> in
       if tok = 0 then (Inl Runtime_Error, g1)
       else (Inr (NoError, \<lparr>owned = True, token = tok\<rparr>), g1\<lparr>reserved_bytes := reserved_bytes g1 + reservation_bytes l\<rparr>))"

definition cancel_reservation :: "nat \<Rightarrow> 'v CollectionSnapshotRegistry \<Rightarrow> 'v CollectionSnapshotRegistry" where
  "cancel_reservation t g =
    (if t \<notin> set (reservations g) then g
     else g\<lparr>reservations := remove1 t (reservations g),
        reserved_bytes := (if reservation_bytes (limits g) \<le> reserved_bytes g
          then reserved_bytes g - reservation_bytes (limits g) else 0)\<rparr>)"

definition reservation_active :: "nat \<Rightarrow> 'v CollectionSnapshotRegistry \<Rightarrow> bool" where
  "reservation_active t g \<longleftrightarrow> t \<in> set (reservations g)"

definition active :: "Reservation \<Rightarrow> 'v CollectionSnapshotRegistry \<Rightarrow> bool" where
  "active rv g \<longleftrightarrow> owned rv \<and> reservation_active (token rv) g"

text \<open>The destructor, and move assignment between two different objects: target, source, registry.\<close>

definition destroy_reservation :: "Reservation \<Rightarrow> 'v CollectionSnapshotRegistry \<Rightarrow> 'v CollectionSnapshotRegistry" where
  "destroy_reservation rv g = (if owned rv then cancel_reservation (token rv) g else g)"

definition move_assign :: "Reservation \<Rightarrow> Reservation \<Rightarrow> 'v CollectionSnapshotRegistry
    \<Rightarrow> Reservation \<times> Reservation \<times> 'v CollectionSnapshotRegistry" where
  "move_assign this other g =
     (other, inactive_reservation, if owned this then cancel_reservation (token this) g else g)"

definition consume_reservation_locked :: "Reservation \<Rightarrow> nat \<Rightarrow> 'v CollectionSnapshotRegistry
    \<Rightarrow> bool \<times> Reservation \<times> 'v CollectionSnapshotRegistry" where
  "consume_reservation_locked rv bytes g =
    (let l = limits g in
     if \<not> owned rv \<or> reservation_bytes l < bytes \<or> total_bytes l - bytes < retained_bytes g then (False, rv, g)
     else if token rv \<notin> set (reservations g) \<or> reserved_bytes g < reservation_bytes l then (False, rv, g)
     else (True, inactive_reservation,
       g\<lparr>reservations := remove1 (token rv) (reservations g), reserved_bytes := reserved_bytes g - reservation_bytes l,
         retained_bytes := retained_bytes g + bytes\<rparr>))"

subsection \<open>Pages\<close>

text \<open>The cursor search: an invalid candidate throws, and so does running out of attempts.\<close>

fun pick_cursor :: "nat \<Rightarrow> (nat \<Rightarrow> string) \<Rightarrow> 'v CollectionSnapshotRegistry \<Rightarrow> string res" where
  "pick_cursor 0 gen g = Inl Runtime_Error"
| "pick_cursor (Suc n) gen g =
     (if \<not> valid_opaque_id (gen 0) then Inl Runtime_Error
      else if map_of (records g) (gen 0) = None then Inr (gen 0)
      else pick_cursor n (\<lambda>i. gen (Suc i)) g)"

text \<open>The caller's part of a publication.\<close>

record 'v Publication =
  pub_type :: string
  pub_binding :: CollectionSnapshotBinding
  pub_entries :: "'v list"
  pub_measured_entries :: nat
  pub_measured_bytes :: nat
  pub_page_limit :: nat
  pub_retained_page_limit :: nat

definition rejected :: "CollectionSnapshotError \<Rightarrow> 'v PageResult" where
  "rejected e = empty_page\<lparr>page_error := e\<rparr>"

definition stored_page_limit :: "CollectionSnapshotLimits \<Rightarrow> 'v Publication \<Rightarrow> nat" where
  "stored_page_limit l p = min (pub_retained_page_limit p) (page_entries l)"

definition first_count :: "CollectionSnapshotLimits \<Rightarrow> 'v Publication \<Rightarrow> nat" where
  "first_count l p = min (length (pub_entries p)) (min (pub_page_limit p) (stored_page_limit l p))"

definition publication_record :: "int \<Rightarrow> 'v Publication \<Rightarrow> CollectionSnapshotLimits \<Rightarrow> 'v Record" where
  "publication_record now p l = \<lparr>record_binding = pub_binding p, record_entries = pub_entries p, record_type = pub_type p,
     entry_count = length (pub_entries p), measured_bytes = pub_measured_bytes p,
     page_entry_limit = stored_page_limit l p, next_offset = first_count l p, expires_at = expiration_at now l\<rparr>"

text \<open>The body of \<^verbatim>\<open>publish\<close>; its result carries the reservation parameter as the body leaves it.\<close>

definition publish_body :: "(nat \<Rightarrow> string) \<Rightarrow> int \<Rightarrow> Reservation \<Rightarrow> 'v Publication \<Rightarrow> 'v CollectionSnapshotRegistry
    \<Rightarrow> 'v PageResult res \<times> Reservation \<times> 'v CollectionSnapshotRegistry" where
  "publish_body gen now rv p g =
    (let l = limits g; n = first_count l p; page = empty_page\<lparr>page_rows := take n (pub_entries p), has_more := n < length (pub_entries p)\<rparr> in
     if pub_page_limit p = 0 \<or> page_entries l < pub_page_limit p \<or> pub_retained_page_limit p = 0
     then (Inr (rejected InvalidParams), rv, g)
     else if pub_measured_entries p < length (pub_entries p) then (Inr (rejected InvalidParams), rv, g)
     else if snapshot_entries l < pub_measured_entries p \<or> snapshot_bytes l < pub_measured_bytes p
     then (Inr (rejected ResponseTooLarge), rv, g)
     else if \<not> has_more page then
       (case consume_reservation_locked rv 0 g of
          (True, rv', g') \<Rightarrow> (Inr page, rv', g')
        | (False, rv', g') \<Rightarrow> (Inr (rejected InvalidParams), rv', g'))
     else if \<not> owned rv \<or> token rv \<notin> set (reservations g) then (Inr (rejected InvalidParams), rv, g)
     else case pick_cursor 128 gen g of
         Inl e \<Rightarrow> (Inl e, rv, g)
       | Inr c \<Rightarrow>
           let g1 = g\<lparr>records := (c, publication_record now p l) # records g\<rparr> in
           (case consume_reservation_locked rv (pub_measured_bytes p) g1 of
              (True, rv', g') \<Rightarrow> (Inr (page\<lparr>page_cursor := Some c\<rparr>), rv', g')
            | (False, rv', g') \<Rightarrow>
                (Inr (rejected InvalidParams), rv', g'\<lparr>records := filter (\<lambda>(k, _). k \<noteq> c) (records g')\<rparr>)))"

text \<open>The by-value parameter is destroyed on every way out.\<close>

definition publish :: "(nat \<Rightarrow> string) \<Rightarrow> int \<Rightarrow> Reservation \<Rightarrow> 'v Publication \<Rightarrow> 'v CollectionSnapshotRegistry
    \<Rightarrow> 'v PageResult res \<times> 'v CollectionSnapshotRegistry" where
  "publish gen now rv p g = (case publish_body gen now rv p g of (r, rv', g') \<Rightarrow> (r, destroy_reservation rv' g'))"

definition page :: "int \<Rightarrow> string \<Rightarrow> string \<Rightarrow> CollectionSnapshotBinding \<Rightarrow> nat \<Rightarrow> nat \<Rightarrow> 'v CollectionSnapshotRegistry
    \<Rightarrow> 'v PageResult \<times> 'v CollectionSnapshotRegistry" where
  "page now row_type cursor binding offset page_limit g0 =
    (let failed = (\<lambda>e. empty_page\<lparr>page_offset := offset, page_error := e\<rparr>) in
     if \<not> valid_opaque_id cursor \<or> page_limit = 0 \<or> page_entries (limits g0) < page_limit \<or> size_max - page_limit < offset
     then (failed InvalidParams, g0)
     else let g = expire_locked now g0 in
       case map_of (records g) cursor of None \<Rightarrow> (failed CursorNotFound, g)
       | Some r \<Rightarrow>
           if record_binding r \<noteq> binding \<or> record_type r \<noteq> row_type \<or> offset \<noteq> next_offset r
           then (failed CursorNotFound, g)
           else if entry_count r \<noteq> length (record_entries r) \<or> length (record_entries r) < offset
           then (failed CursorNotFound, g)
           else let effective_limit = min page_limit (page_entry_limit r);
                    stop = min (length (record_entries r)) (offset + effective_limit);
                    rows = take (stop - offset) (drop offset (record_entries r)) in
             if stop < length (record_entries r)
             then (empty_page\<lparr>page_offset := offset, page_rows := rows, has_more := True, page_cursor := Some cursor\<rparr>,
                   g\<lparr>records := map (\<lambda>(k, x). (k, if k = cursor then r\<lparr>next_offset := stop\<rparr> else x)) (records g)\<rparr>)
             else (empty_page\<lparr>page_offset := offset, page_rows := rows\<rparr>, erase_locked cursor g))"

definition begin_shutdown :: "'v CollectionSnapshotRegistry \<Rightarrow> 'v CollectionSnapshotRegistry" where
  "begin_shutdown g = g\<lparr>accepting := False\<rparr>"

definition finish_shutdown :: "'v CollectionSnapshotRegistry \<Rightarrow> 'v CollectionSnapshotRegistry" where
  "finish_shutdown g = g\<lparr>accepting := False, records := [], reservations := [], retained_bytes := 0, reserved_bytes := 0\<rparr>"

subsection \<open>The registry and its clients\<close>

text \<open>
  Clients keep reservation objects in numbered slots. Two ghost components record, per cursor, the
  collection published under it and the rows delivered from it since.
\<close>

record 'v SnapshotWorld =
  registry :: "'v CollectionSnapshotRegistry"
  held :: "nat \<Rightarrow> Reservation option"
  published :: "string \<Rightarrow> 'v list"
  delivered :: "string \<Rightarrow> 'v list"

definition note_publication :: "'v Publication \<Rightarrow> 'v PageResult res \<Rightarrow> 'v SnapshotWorld \<Rightarrow> 'v SnapshotWorld" where
  "note_publication p res w = (case res of Inl _ \<Rightarrow> w
     | Inr pg \<Rightarrow> (case page_cursor pg of None \<Rightarrow> w
         | Some c \<Rightarrow> w\<lparr>published := (published w)(c := pub_entries p), delivered := (delivered w)(c := page_rows pg)\<rparr>))"

definition note_page :: "string \<Rightarrow> 'v PageResult \<Rightarrow> 'v SnapshotWorld \<Rightarrow> 'v SnapshotWorld" where
  "note_page c pg w = (if page_error pg = NoError
     then w\<lparr>delivered := (delivered w)(c := delivered w c @ page_rows pg)\<rparr> else w)"

inductive snapshot_step :: "'v SnapshotWorld \<Rightarrow> 'v SnapshotWorld \<Rightarrow> bool" where
  st_start: "snapshot_step w (w\<lparr>registry := start (registry w)\<rparr>)"
| st_reserve: "held w i = None \<Longrightarrow> reserve now (registry w) = (Inr (e, rv), g) \<Longrightarrow>
    snapshot_step w (w\<lparr>registry := g, held := (held w)(i := Some rv)\<rparr>)"
| st_reserve_throws: "reserve now (registry w) = (Inl e, g) \<Longrightarrow> snapshot_step w (w\<lparr>registry := g\<rparr>)"
| st_destroy: "held w i = Some rv \<Longrightarrow>
    snapshot_step w (w\<lparr>registry := destroy_reservation rv (registry w), held := (held w)(i := None)\<rparr>)"
| st_move: "i \<noteq> j \<Longrightarrow> held w i = Some a \<Longrightarrow> held w j = Some b \<Longrightarrow> move_assign a b (registry w) = (a', b', g) \<Longrightarrow>
    snapshot_step w (w\<lparr>registry := g, held := (held w)(i := Some a', j := Some b')\<rparr>)"
| st_publish: "held w i = Some rv \<Longrightarrow> publish gen now rv p (registry w) = (res, g) \<Longrightarrow>
    snapshot_step w (note_publication p res (w\<lparr>registry := g, held := (held w)(i := Some inactive_reservation)\<rparr>))"
| st_page: "page now ty c b off lim (registry w) = (pg, g) \<Longrightarrow>
    snapshot_step w (note_page c pg (w\<lparr>registry := g\<rparr>))"
| st_begin_shutdown: "snapshot_step w (w\<lparr>registry := begin_shutdown (registry w)\<rparr>)"
| st_finish_shutdown: "snapshot_step w (w\<lparr>registry := finish_shutdown (registry w)\<rparr>)"

definition snapshot_init :: "'v SnapshotWorld \<Rightarrow> bool" where
  "snapshot_init w \<longleftrightarrow> (\<exists>l. max_records l \<le> size_max \<and> new_registry l = Inr (registry w)) \<and> (\<forall>i. held w i = None)"

section \<open>Invariant\<close>

definition record_ok :: "CollectionSnapshotLimits \<Rightarrow> string \<times> 'v Record \<Rightarrow> bool" where
  "record_ok l cr \<longleftrightarrow> (case cr of (c, r) \<Rightarrow> valid_opaque_id c \<and> entry_count r = length (record_entries r)
     \<and> 0 < next_offset r \<and> next_offset r < length (record_entries r) \<and> measured_bytes r \<le> snapshot_bytes l
     \<and> 0 < page_entry_limit r \<and> page_entry_limit r \<le> page_entries l)"

definition retained_sum :: "(string \<times> 'v Record) list \<Rightarrow> nat" where
  "retained_sum rs = sum_list (map (\<lambda>(c, r). measured_bytes r) rs)"

definition registry_inv :: "'v CollectionSnapshotRegistry \<Rightarrow> bool" where
  "registry_inv g \<longleftrightarrow> \<not> invalid_limits (limits g) \<and> max_records (limits g) \<le> size_max
     \<and> distinct (map fst (records g)) \<and> distinct (reservations g) \<and> 0 \<notin> set (reservations g)
     \<and> retained_bytes g = retained_sum (records g)
     \<and> reserved_bytes g = length (reservations g) * reservation_bytes (limits g)
     \<and> retained_bytes g + reserved_bytes g \<le> total_bytes (limits g)
     \<and> length (records g) + length (reservations g) \<le> max_records (limits g)
     \<and> list_all (record_ok (limits g)) (records g)
     \<and> 0 < next_reservation_token g \<and> next_reservation_token g \<le> size_max"

definition token_held :: "(nat \<Rightarrow> Reservation option) \<Rightarrow> nat \<Rightarrow> bool" where
  "token_held h t \<longleftrightarrow> (\<exists>i rv. h i = Some rv \<and> owned rv \<and> token rv = t)"

definition snapshot_inv :: "'v SnapshotWorld \<Rightarrow> bool" where
  "snapshot_inv w \<longleftrightarrow> registry_inv (registry w)
     \<and> (\<forall>t \<in> set (reservations (registry w)). token_held (held w) t)
     \<and> (\<forall>(c, r) \<in> set (records (registry w)). record_entries r = published w c
          \<and> delivered w c = take (next_offset r) (published w c))"

section \<open>Lemmas\<close>

subsection \<open>Tokens\<close>

lemma next_token_eq: "0 < t \<Longrightarrow> t \<le> size_max \<Longrightarrow> next_token t = t mod size_max + 1"
  by (cases "t = size_max") (auto simp: next_token_def Let_def)

lemma next_token_range: "0 < t \<Longrightarrow> t \<le> size_max \<Longrightarrow> 0 < next_token t \<and> next_token t \<le> size_max"
  by (simp add: next_token_eq)

lemma token_walk:
  assumes "0 < t" "t \<le> size_max"
  shows "(next_token ^^ i) t = (t - 1 + i) mod size_max + 1"
proof (induction i)
  case 0
  then show ?case using assms by simp
next
  case (Suc i)
  have "(t - 1 + i) mod size_max < size_max" by simp
  then show ?case by (simp add: Suc next_token_eq mod_Suc_eq flip: Suc_eq_plus1)
qed

lemma claim_token_fails:
  "claim_token k hs nxt = (0, hs', nxt') \<Longrightarrow> 0 < nxt \<Longrightarrow> nxt \<le> size_max \<Longrightarrow> i < k \<Longrightarrow> (next_token ^^ i) nxt \<in> set hs"
proof (induction k arbitrary: nxt i)
  case (Suc k)
  then have "nxt \<in> set hs" "claim_token k hs (next_token nxt) = (0, hs', nxt')" by (auto split: if_splits)
  then show ?case using Suc.IH [of "next_token nxt" "i - 1"] Suc.prems(2,3,4) next_token_range [of nxt]
    by (cases i) (auto simp del: funpow.simps simp: funpow_Suc_right)
qed simp

lemma claim_token_cases:
  "claim_token k hs nxt = (t, hs', nxt') \<Longrightarrow> 0 < nxt \<Longrightarrow> nxt \<le> size_max \<Longrightarrow>
    0 < nxt' \<and> nxt' \<le> size_max \<and> (if t = 0 then hs' = hs else t \<notin> set hs \<and> hs' = hs @ [t])"
proof (induction k arbitrary: nxt)
  case (Suc k)
  then show ?case using next_token_range [of nxt] by (auto split: if_splits)
qed auto

lemma add_mod_inj:
  assumes "(a + i) mod m = (a + j) mod m" "i < m" "j < (m :: nat)" shows "i = j"
proof -
  have le: "x = y" if "y \<le> x" "x < m" "(a + x) mod m = (a + y) mod m" for x y
  proof -
    have "m dvd x - y" using that by (simp add: mod_eq_dvd_iff_nat)
    moreover have "x - y < m" using that(2) by simp
    ultimately have "x - y = 0" using nat_dvd_not_less [of "x - y" m] by auto
    then show ?thesis using that(1) by simp
  qed
  show ?thesis
  proof (cases "i \<le> j")
    case True
    then show ?thesis using le [OF True assms(3) assms(1) [symmetric]] by simp
  next
    case False
    then show ?thesis using le [OF _ assms(2,1)] by simp
  qed
qed

lemma claim_token_succeeds:
  assumes "length hs < k" "length hs < size_max" "0 < nxt" "nxt \<le> size_max"
  shows "fst (claim_token k hs nxt) \<noteq> 0"
proof
  assume "fst (claim_token k hs nxt) = 0"
  then obtain hs' nxt' where eq: "claim_token k hs nxt = (0, hs', nxt')" by (metis prod.collapse)
  let ?f = "\<lambda>i. (next_token ^^ i) nxt" and ?n = "Suc (length hs)"
  have "inj_on ?f {..< ?n}"
  proof (rule inj_onI)
    fix i j assume "i \<in> {..< ?n}" "j \<in> {..< ?n}" "?f i = ?f j"
    then show "i = j" using assms(2,3,4) add_mod_inj [of "nxt - 1" i size_max j] by (auto simp: token_walk)
  qed
  then have "?n = card (?f ` {..< ?n})" by (simp add: card_image)
  also have "\<dots> \<le> card (set hs)"
    using claim_token_fails [OF eq assms(3,4)] assms(1) by (intro card_mono) auto
  also have "\<dots> \<le> length hs" by (rule card_length)
  finally show False by simp
qed

subsection \<open>Erasing and expiring\<close>

lemma retained_sum_simps [simp]:
  "retained_sum [] = 0" "retained_sum ((c, r) # rs) = measured_bytes r + retained_sum rs"
  by (simp_all add: retained_sum_def)

lemma filter_keys_id: "c \<notin> fst ` set rs \<Longrightarrow> filter (\<lambda>(k, _). k \<noteq> c) rs = rs"
  by (induction rs) auto

lemma retained_sum_filter:
  "distinct (map fst rs) \<Longrightarrow> map_of rs c = Some r \<Longrightarrow>
    retained_sum rs = measured_bytes r + retained_sum (filter (\<lambda>(k, _). k \<noteq> c) rs)"
proof (induction rs)
  case (Cons x rs)
  obtain k y where x: "x = (k, y)" by (cases x)
  show ?case
  proof (cases "k = c")
    case True
    then have "filter (\<lambda>(k, _). k \<noteq> c) rs = rs" using Cons.prems(1) x by (simp add: filter_keys_id)
    then show ?thesis using Cons.prems(2) True x by simp
  next
    case False
    then show ?thesis using Cons x by simp
  qed
qed simp

lemma distinct_fst_filter: "distinct (map fst rs) \<Longrightarrow> distinct (map fst (filter P rs))"
  by (induction rs) auto

lemma map_of_distinct_in: "distinct (map fst rs) \<Longrightarrow> map_of rs c = Some r \<longleftrightarrow> (c, r) \<in> set rs"
  by (simp add: map_of_eq_Some_iff)

lemma erase_locked_fields [simp]:
  "limits (erase_locked c g) = limits g" "reservations (erase_locked c g) = reservations g"
  "reserved_bytes (erase_locked c g) = reserved_bytes g" "accepting (erase_locked c g) = accepting g"
  "next_reservation_token (erase_locked c g) = next_reservation_token g"
  "records (erase_locked c g) = filter (\<lambda>(k, _). k \<noteq> c) (records g)"
  by (simp_all add: erase_locked_def map_of_eq_None_iff filter_keys_id split: option.split)

lemma registry_inv_erase: "registry_inv g \<Longrightarrow> registry_inv (erase_locked c g)"
proof (cases "map_of (records g) c")
  case (Some r)
  assume inv: "registry_inv g"
  then have "retained_bytes g = measured_bytes r + retained_sum (filter (\<lambda>(k, _). k \<noteq> c) (records g))"
    using retained_sum_filter [OF _ Some] by (simp add: registry_inv_def)
  moreover have "retained_bytes (erase_locked c g) = retained_bytes g - measured_bytes r"
    using Some by (simp add: erase_locked_def)
  moreover have "length (filter (\<lambda>(k, _). k \<noteq> c) (records g)) + length (reservations g) \<le> max_records (limits g)"
    using inv length_filter_le [of "\<lambda>(k, _). k \<noteq> c" "records g"] unfolding registry_inv_def by linarith
  ultimately show ?thesis using inv
    by (auto simp: registry_inv_def distinct_fst_filter list_all_iff)
qed (simp add: erase_locked_def)

lemma expire_from_fields [simp]:
  "limits (expire_from now xs g) = limits g" "reservations (expire_from now xs g) = reservations g"
  "reserved_bytes (expire_from now xs g) = reserved_bytes g" "accepting (expire_from now xs g) = accepting g"
  "next_reservation_token (expire_from now xs g) = next_reservation_token g"
  by (induction now xs g rule: expire_from.induct) simp_all

lemma records_expire_from:
  "records (expire_from now xs g) = filter (\<lambda>(k, _). \<forall>r. (k, r) \<in> set xs \<longrightarrow> now < expires_at r) (records g)"
  by (induction now xs g rule: expire_from.induct) (auto intro!: filter_cong)

lemma registry_inv_expire_from: "registry_inv g \<Longrightarrow> registry_inv (expire_from now xs g)"
  by (induction now xs g rule: expire_from.induct) (simp_all add: registry_inv_erase)

lemma registry_inv_expire: "registry_inv g \<Longrightarrow> registry_inv (expire_locked now g)"
  by (simp add: expire_locked_def registry_inv_expire_from)

lemma records_expire:
  assumes "distinct (map fst (records g))"
  shows "records (expire_locked now g) = filter (\<lambda>(_, r). now < expires_at r) (records g)"
  unfolding expire_locked_def records_expire_from
  using assms by (intro filter_cong) (auto dest: eq_key_imp_eq_value)

lemma expire_locked_fields [simp]:
  "limits (expire_locked now g) = limits g" "reservations (expire_locked now g) = reservations g"
  "reserved_bytes (expire_locked now g) = reserved_bytes g" "accepting (expire_locked now g) = accepting g"
  "next_reservation_token (expire_locked now g) = next_reservation_token g"
  by (simp_all add: expire_locked_def)

lemma set_records_expire: "set (records (expire_locked now g)) \<subseteq> set (records g)"
  by (auto simp: expire_locked_def records_expire_from)

subsection \<open>Reservations\<close>

lemma registry_inv_cancel:
  assumes "registry_inv g" shows "registry_inv (cancel_reservation t g)"
proof (cases "t \<in> set (reservations g)")
  case True
  then obtain n where "length (reservations g) = Suc n" by (cases "reservations g") auto
  then show ?thesis using assms True
    by (auto simp: cancel_reservation_def registry_inv_def length_remove1 dest: in_set_remove1 notin_set_remove1)
qed (simp add: cancel_reservation_def assms)

lemma registry_inv_destroy: "registry_inv g \<Longrightarrow> registry_inv (destroy_reservation rv g)"
  by (simp add: destroy_reservation_def registry_inv_cancel)

lemma cancel_fields [simp]:
  "limits (cancel_reservation t g) = limits g" "records (cancel_reservation t g) = records g"
  "reservations (cancel_reservation t g) = remove1 t (reservations g)"
  by (simp_all add: cancel_reservation_def remove1_idem)

lemma destroy_fields [simp]:
  "limits (destroy_reservation rv g) = limits g" "records (destroy_reservation rv g) = records g"
  "reservations (destroy_reservation rv g) = (if owned rv then remove1 (token rv) (reservations g) else reservations g)"
  by (simp_all add: destroy_reservation_def)

lemma reserve_spec:
  assumes inv: "registry_inv g" and eq: "reserve now g = (res, g')"
  shows "registry_inv g' \<and> records g' = records (expire_locked now g)
    \<and> (\<exists>e rv. res = Inr (e, rv)
        \<and> (if e = NoError then owned rv \<and> token rv \<notin> set (reservations g) \<and> reservations g' = reservations g @ [token rv]
           else rv = inactive_reservation \<and> g' = expire_locked now g)
        \<and> (e = NoError \<longleftrightarrow> accepting g
             \<and> length (records (expire_locked now g)) + length (reservations g) < max_records (limits g)
             \<and> retained_bytes (expire_locked now g) + reserved_bytes g + reservation_bytes (limits g) \<le> total_bytes (limits g)))"
proof -
  let ?g = "expire_locked now g" and ?l = "limits g"
  have inv': "registry_inv ?g" by (rule registry_inv_expire [OF inv])
  show ?thesis
  proof (cases "accepting g \<and> length (records ?g) + length (reservations g) < max_records ?l
      \<and> retained_bytes ?g + reserved_bytes g + reservation_bytes ?l \<le> total_bytes ?l")
    case False
    then obtain e where "e \<noteq> NoError" "res = Inr (e, inactive_reservation)" "g' = ?g"
      using eq inv' by (auto simp: reserve_def Let_def registry_inv_def split: if_splits)
    then show ?thesis using inv' False by (auto intro!: exI [of _ e])
  next
    case True
    obtain tok hs nxt where ct: "claim_token (max_records ?l + 1) (reservations g) (next_reservation_token g) = (tok, hs, nxt)"
      by (metis prod.collapse)
    have rng: "0 < next_reservation_token g" "next_reservation_token g \<le> size_max" "max_records ?l \<le> size_max"
      using inv by (simp_all add: registry_inv_def)
    have "tok \<noteq> 0" using claim_token_succeeds [of "reservations g" "max_records ?l + 1", OF _ _ rng(1,2)] True rng(3) ct by simp
    then have cc: "0 < nxt" "nxt \<le> size_max" "tok \<notin> set (reservations g)" "hs = reservations g @ [tok]"
      using claim_token_cases [OF ct rng(1,2)] by auto
    have "res = Inr (NoError, \<lparr>owned = True, token = tok\<rparr>)"
      "g' = ?g\<lparr>reservations := hs, next_reservation_token := nxt, reserved_bytes := reserved_bytes g + reservation_bytes ?l\<rparr>"
      using eq True \<open>tok \<noteq> 0\<close> ct by (auto simp: reserve_def Let_def split: if_splits)
    moreover from this cc True inv' \<open>tok \<noteq> 0\<close> have "registry_inv g'" by (simp add: registry_inv_def)
    ultimately show ?thesis using cc True by simp
  qed
qed

subsection \<open>Publishing\<close>

text \<open>Consuming an active reservation is cancelling it and keeping the measured bytes.\<close>

lemma consume_spec:
  assumes "reserved_bytes g = length (reservations g) * reservation_bytes (limits g)"
    and "retained_bytes g + reserved_bytes g \<le> total_bytes (limits g)" "bytes \<le> reservation_bytes (limits g)"
  shows "consume_reservation_locked rv bytes g =
    (if active rv g then (True, inactive_reservation,
        (cancel_reservation (token rv) g)\<lparr>retained_bytes := retained_bytes g + bytes\<rparr>)
     else (False, rv, g))"
proof (cases "token rv \<in> set (reservations g)")
  case True
  then obtain n where "length (reservations g) = Suc n" by (cases "reservations g") auto
  then show ?thesis using assms True
    by (auto simp: consume_reservation_locked_def active_def reservation_active_def cancel_reservation_def Let_def)
qed (simp add: consume_reservation_locked_def active_def reservation_active_def Let_def)

lemma pick_cursor_fresh: "pick_cursor n gen g = Inr c \<Longrightarrow> valid_opaque_id c \<and> map_of (records g) c = None"
  by (induction n arbitrary: gen) (auto split: if_splits)

lemma snapshot_publish_cases:
  assumes inv: "registry_inv g" and eq: "publish gen now rv p g = (res, g')"
  obtains (refused) "g' = destroy_reservation rv g" "\<forall>pg. res = Inr pg \<longrightarrow> (\<exists>e. e \<noteq> NoError \<and> pg = rejected e)"
  | (single) "active rv g" "g' = cancel_reservation (token rv) g" "first_count (limits g) p = length (pub_entries p)"
      "res = Inr (empty_page\<lparr>page_rows := pub_entries p\<rparr>)"
  | (stored) c where "active rv g" "map_of (records g) c = None" "valid_opaque_id c"
      "pub_measured_bytes p \<le> snapshot_bytes (limits g)" "0 < stored_page_limit (limits g) p"
      "0 < first_count (limits g) p" "first_count (limits g) p < length (pub_entries p)"
      "res = Inr (empty_page\<lparr>page_rows := take (first_count (limits g) p) (pub_entries p), has_more := True, page_cursor := Some c\<rparr>)"
      "g' = (cancel_reservation (token rv) g)\<lparr>records := (c, publication_record now p (limits g)) # records g,
         retained_bytes := retained_bytes g + pub_measured_bytes p\<rparr>"
proof -
  let ?l = "limits g" and ?n = "first_count (limits g) p"
  let ?bad = "pub_page_limit p = 0 \<or> page_entries ?l < pub_page_limit p \<or> pub_retained_page_limit p = 0
    \<or> pub_measured_entries p < length (pub_entries p) \<or> snapshot_entries ?l < pub_measured_entries p
    \<or> snapshot_bytes ?l < pub_measured_bytes p"
  have lim: "reserved_bytes g = length (reservations g) * reservation_bytes ?l"
      "retained_bytes g + reserved_bytes g \<le> total_bytes ?l" "snapshot_bytes ?l \<le> reservation_bytes ?l" "0 < page_entries ?l"
    using inv by (auto simp: registry_inv_def invalid_limits_def)
  show ?thesis
  proof (cases ?bad)
    case True
    then show ?thesis
      using eq by (intro refused) (auto simp: publish_def publish_body_def Let_def split: if_splits)
  next
    case ok: False
    have n: "?n \<le> length (pub_entries p)" "0 < stored_page_limit ?l p" "pub_entries p \<noteq> [] \<Longrightarrow> 0 < ?n"
      using ok lim(4) by (auto simp: first_count_def stored_page_limit_def)
    show ?thesis
    proof (cases "?n < length (pub_entries p)")
      case False
      then show ?thesis
        using eq ok n(1) refused single consume_spec [OF lim(1,2), of 0 rv]
        by (cases "active rv g")
          (auto simp: publish_def publish_body_def Let_def destroy_reservation_def inactive_reservation_def rejected_def empty_page_def
            cancel_reservation_def split: if_splits)
    next
      case more: True
      then have pos: "0 < ?n" using n(3) by fastforce
      show ?thesis
      proof (cases "active rv g")
        case False
        then show ?thesis using eq ok more
          by (intro refused) (auto simp: publish_def publish_body_def Let_def active_def reservation_active_def empty_page_def split: if_splits)
      next
        case act: True
        show ?thesis
        proof (cases "pick_cursor 128 gen g")
          case (Inl e)
          then show ?thesis using eq ok more act
            by (intro refused) (auto simp: publish_def publish_body_def Let_def active_def reservation_active_def empty_page_def split: if_splits)
        next
          case (Inr c)
          let ?g1 = "g\<lparr>records := (c, publication_record now p ?l) # records g\<rparr>"
          have "active rv ?g1" using act by (simp add: active_def reservation_active_def)
          then have "consume_reservation_locked rv (pub_measured_bytes p) ?g1 = (True, inactive_reservation,
              (cancel_reservation (token rv) ?g1)\<lparr>retained_bytes := retained_bytes g + pub_measured_bytes p\<rparr>)"
            using consume_spec [of ?g1 "pub_measured_bytes p" rv] lim ok by simp
          then show ?thesis
            using eq ok more pos act Inr pick_cursor_fresh [OF Inr] n(2)
            by (intro stored [of c]) (auto simp: publish_def publish_body_def Let_def active_def reservation_active_def empty_page_def
                destroy_reservation_def inactive_reservation_def cancel_reservation_def)
        qed
      qed
    qed
  qed
qed

lemma registry_inv_publish:
  assumes inv: "registry_inv g" and eq: "publish gen now rv p g = (res, g')"
  shows "registry_inv g'"
  using inv eq
proof (cases rule: snapshot_publish_cases)
  case (stored c)
  let ?h = "cancel_reservation (token rv) g"
  have h: "registry_inv ?h" by (rule registry_inv_cancel [OF inv])
  obtain n where n: "length (reservations g) = Suc n" "token rv \<in> set (reservations g)"
    using stored(1) by (cases "reservations g") (auto simp: active_def reservation_active_def)
  have ok: "record_ok (limits g) (c, publication_record now p (limits g))"
    using stored by (auto simp: record_ok_def publication_record_def stored_page_limit_def)
  have "reserved_bytes ?h + reservation_bytes (limits g) = reserved_bytes g" "retained_bytes ?h = retained_bytes g"
      "next_reservation_token ?h = next_reservation_token g"
    using n inv by (simp_all add: cancel_reservation_def registry_inv_def)
  then show ?thesis
    using inv h ok stored(2,4,9) n
    by (auto simp: registry_inv_def map_of_eq_None_iff length_remove1 invalid_limits_def publication_record_def)
qed (use inv in \<open>auto simp: registry_inv_destroy registry_inv_cancel\<close>)

subsection \<open>Paging\<close>

lemma page_cases:
  assumes inv: "registry_inv g" and eq: "page now ty c b off lim g = (pg, g')"
  obtains (invalid) "pg = empty_page\<lparr>page_offset := off, page_error := InvalidParams\<rparr>" "g' = g"
      "\<not> valid_opaque_id c \<or> lim = 0 \<or> page_entries (limits g) < lim \<or> size_max - lim < off"
  | (absent) "pg = empty_page\<lparr>page_offset := off, page_error := CursorNotFound\<rparr>" "g' = expire_locked now g"
      "\<not> (\<exists>r. (c, r) \<in> set (records g) \<and> now < expires_at r \<and> record_binding r = b \<and> record_type r = ty \<and> next_offset r = off)"
  | (more) r k where "(c, r) \<in> set (records g)" "now < expires_at r" "record_binding r = b" "record_type r = ty" "next_offset r = off"
      "k = min lim (page_entry_limit r)" "0 < k" "off + k < length (record_entries r)"
      "pg = empty_page\<lparr>page_offset := off, page_rows := take k (drop off (record_entries r)), has_more := True, page_cursor := Some c\<rparr>"
      "g' = (expire_locked now g)\<lparr>records := map (\<lambda>(k', x). (k', if k' = c then r\<lparr>next_offset := off + k\<rparr> else x))
         (records (expire_locked now g))\<rparr>"
  | (final) r where "(c, r) \<in> set (records g)" "now < expires_at r" "record_binding r = b" "record_type r = ty" "next_offset r = off"
      "length (record_entries r) \<le> off + min lim (page_entry_limit r)"
      "pg = empty_page\<lparr>page_offset := off, page_rows := drop off (record_entries r)\<rparr>"
      "g' = erase_locked c (expire_locked now g)"
proof (cases "\<not> valid_opaque_id c \<or> lim = 0 \<or> page_entries (limits g) < lim \<or> size_max - lim < off")
  case True
  then show ?thesis using eq by (intro invalid) (auto simp: page_def Let_def)
next
  case ok: False
  let ?g = "expire_locked now g"
  have inv': "registry_inv ?g" by (rule registry_inv_expire [OF inv])
  have look: "map_of (records ?g) c = Some r \<longleftrightarrow> (c, r) \<in> set (records g) \<and> now < expires_at r" for r
    using inv inv' by (auto simp: registry_inv_def map_of_distinct_in records_expire)
  show ?thesis
  proof (cases "\<exists>r. (c, r) \<in> set (records g) \<and> now < expires_at r \<and> record_binding r = b \<and> record_type r = ty \<and> next_offset r = off")
    case False
    then show ?thesis
      using eq ok look by (intro absent) (auto simp: page_def Let_def split: option.splits if_splits)
  next
    case True
    then obtain r where r: "(c, r) \<in> set (records g)" "now < expires_at r" "record_binding r = b" "record_type r = ty"
        "next_offset r = off" by blast
    have look': "map_of (records ?g) c = Some r" using look r by simp
    have rok: "entry_count r = length (record_entries r)" "off < length (record_entries r)" "0 < page_entry_limit r"
      using inv r by (auto simp: registry_inv_def list_all_iff record_ok_def)
    let ?k = "min lim (page_entry_limit r)"
    show ?thesis
    proof (cases "off + ?k < length (record_entries r)")
      case True
      then have mn: "min (length (record_entries r)) (off + ?k) = off + ?k" by simp
      have "pg = empty_page\<lparr>page_offset := off, page_rows := take ?k (drop off (record_entries r)), has_more := True, page_cursor := Some c\<rparr>"
        and g': "g' = ?g\<lparr>records := map (\<lambda>(k', x). (k', if k' = c
            then r\<lparr>next_offset := min (length (record_entries r)) (off + ?k)\<rparr> else x)) (records ?g)\<rparr>"
        using eq ok look' r rok True by (auto simp: page_def Let_def)
      with g' [unfolded mn] show ?thesis using ok r rok True by (intro more [of r ?k]) auto
    next
      case False
      then show ?thesis
        using eq ok look' r rok by (intro final [of r]) (auto simp: page_def Let_def)
    qed
  qed
qed

lemma record_update_map:
  "map fst (map (\<lambda>(k', x). (k', if k' = c then r else x)) rs) = map fst rs"
  by (induction rs) auto

lemma registry_inv_page:
  assumes "registry_inv g" "page now ty c b off lim g = (pg, g')"
  shows "registry_inv g'"
  using assms
proof (cases rule: page_cases)
  case (more r k)
  let ?h = "expire_locked now g" and ?r = "r\<lparr>next_offset := off + k\<rparr>"
  have h: "registry_inv ?h" by (rule registry_inv_expire [OF assms(1)])
  have oks: "\<forall>y \<in> set (records ?h). record_ok (limits g) y" using h by (simp add: registry_inv_def list_all_iff)
  have mem: "(c, r) \<in> set (records ?h)" using assms(1) more(1,2) by (auto simp: registry_inv_def records_expire)
  have only: "x = r" if "(c, x) \<in> set (records ?h)" for x
    using mem that h by (auto simp: registry_inv_def dest: eq_key_imp_eq_value)
  then have "retained_sum (map (\<lambda>(k', x). (k', if k' = c then ?r else x)) (records ?h)) = retained_sum (records ?h)"
    unfolding retained_sum_def map_map by (intro arg_cong [of _ _ sum_list] map_cong) (auto split: prod.splits)
  moreover have "list_all (record_ok (limits g)) (map (\<lambda>(k', x). (k', if k' = c then ?r else x)) (records ?h))"
  proof -
    have "record_ok (limits g) (c, ?r)" using bspec [OF oks mem] more(5,7,8) by (simp add: record_ok_def)
    with oks show ?thesis by (auto simp: list_all_iff)
  qed
  ultimately show ?thesis using h more(10) by (simp add: registry_inv_def record_update_map del: map_map)
qed (use assms(1) in \<open>auto simp: registry_inv_expire registry_inv_erase\<close>)

subsection \<open>The invariant is kept\<close>

lemma snapshot_inv_init:
  assumes "snapshot_init w" shows "snapshot_inv w"
proof -
  obtain l where l: "max_records l \<le> size_max" "\<not> invalid_limits l" "new_registry l = Inr (registry w)"
    using assms by (auto simp: snapshot_init_def new_registry_def split: if_splits)
  then have "registry w = \<lparr>limits = l, records = [], reservations = [], retained_bytes = 0, reserved_bytes = 0,
      next_reservation_token = 1, accepting = False\<rparr>" by (simp add: new_registry_def)
  with l show ?thesis by (simp add: snapshot_inv_def registry_inv_def)
qed

text \<open>A step that only drops records and reservations keeps the clients' view.\<close>

lemma snapshot_inv_shrink:
  assumes "snapshot_inv w" "registry_inv g" "set (records g) \<subseteq> set (records (registry w))"
    and "\<And>t. t \<in> set (reservations g) \<Longrightarrow> t \<in> set (reservations (registry w)) \<and> token_held h t"
  shows "snapshot_inv (w\<lparr>registry := g, held := h\<rparr>)"
  using assms unfolding snapshot_inv_def by auto

lemma set_remove1_distinct: "distinct xs \<Longrightarrow> t \<in> set (remove1 x xs) \<longleftrightarrow> t \<in> set xs \<and> t \<noteq> x"
  by (auto simp: set_remove1_eq)

text \<open>Overwriting a slot leaves the tokens of the others held.\<close>

lemma token_held_update:
  assumes "token_held h t" "\<And>rv. h i = Some rv \<Longrightarrow> owned rv \<Longrightarrow> t \<noteq> token rv" shows "token_held (h(i := x)) t"
proof -
  obtain j rv where j: "h j = Some rv" "owned rv" "token rv = t" using assms(1) by (auto simp: token_held_def)
  then have "j \<noteq> i" using assms(2) by auto
  with j show ?thesis by (auto simp: token_held_def intro!: exI [of _ j])
qed

lemma token_held_here: "owned rv \<Longrightarrow> token_held (h(i := Some rv)) (token rv)"
  by (auto simp: token_held_def intro!: exI [of _ i])

lemma snapshot_inv_publish:
  assumes inv: "snapshot_inv w" and slot: "held w i = Some rv" and eq: "publish gen now rv p (registry w) = (res, g)"
  shows "snapshot_inv (note_publication p res (w\<lparr>registry := g, held := (held w)(i := Some inactive_reservation)\<rparr>))"
proof -
  let ?h = "(held w)(i := Some inactive_reservation)"
  have ri: "registry_inv (registry w)" and d: "distinct (reservations (registry w))"
    using inv by (auto simp: snapshot_inv_def registry_inv_def)
  have g: "registry_inv g" by (rule registry_inv_publish [OF ri eq])
  have keep: "token_held ?h t" if "t \<in> set (reservations (registry w))" "owned rv \<longrightarrow> t \<noteq> token rv" for t
    using inv slot that by (intro token_held_update) (auto simp: snapshot_inv_def)
  have shrink: "snapshot_inv (w\<lparr>registry := g', held := ?h\<rparr>)"
    if "registry_inv g'" "records g' = records (registry w)"
      "\<And>t. t \<in> set (reservations g') \<Longrightarrow> t \<in> set (reservations (registry w)) \<and> (owned rv \<longrightarrow> t \<noteq> token rv)" for g'
    using that keep by (intro snapshot_inv_shrink [OF inv]) simp_all
  show ?thesis
    using ri eq
  proof (cases rule: snapshot_publish_cases)
    case refused
    then have "note_publication p res (w\<lparr>registry := g, held := ?h\<rparr>) = w\<lparr>registry := g, held := ?h\<rparr>"
      by (auto simp: note_publication_def rejected_def empty_page_def split: sum.splits)
    moreover have "snapshot_inv (w\<lparr>registry := g, held := ?h\<rparr>)"
      using refused(1) d g by (intro shrink) (auto simp: set_remove1_distinct split: if_splits)
    ultimately show ?thesis by simp
  next
    case single
    have "snapshot_inv (w\<lparr>registry := g, held := ?h\<rparr>)"
      using single(1,2) d g by (intro shrink) (auto simp: set_remove1_distinct active_def)
    with single show ?thesis by (simp add: note_publication_def empty_page_def)
  next
    case (stored c)
    have "snapshot_inv (w\<lparr>registry := cancel_reservation (token rv) (registry w), held := ?h\<rparr>)"
      using stored(1) d registry_inv_cancel [OF ri] by (intro shrink) (auto simp: set_remove1_distinct active_def)
    with stored g show ?thesis
      by (auto simp: snapshot_inv_def note_publication_def publication_record_def empty_page_def map_of_eq_None_iff rev_image_eqI)
  qed
qed

lemma snapshot_inv_page:
  assumes inv: "snapshot_inv w" and eq: "page now ty c b off lim (registry w) = (pg, g)"
  shows "snapshot_inv (note_page c pg (w\<lparr>registry := g\<rparr>))"
proof -
  have ri: "registry_inv (registry w)" using inv by (simp add: snapshot_inv_def)
  have g: "registry_inv g" by (rule registry_inv_page [OF ri eq])
  have ex: "snapshot_inv (w\<lparr>registry := g'\<rparr>)" if "registry_inv g'" "set (records g') \<subseteq> set (records (registry w))"
      "reservations g' = reservations (registry w)" for g'
    using inv that by (auto simp: snapshot_inv_def)
  show ?thesis
    using ri eq
  proof (cases rule: page_cases)
    case (more r k)
    have c: "record_entries r = published w c" "delivered w c = take off (published w c)"
      using inv more(1,5) by (auto simp: snapshot_inv_def)
    have "set (records g) \<subseteq> set (records (registry w)) - {(c, x) | x. True} \<union> {(c, r\<lparr>next_offset := off + k\<rparr>)}"
      using more(10) set_records_expire [of now "registry w"] by (auto split: if_splits)
    then show ?thesis using more(9,10) inv g c
      by (fastforce simp: snapshot_inv_def note_page_def empty_page_def take_add)
  next
    case (final r)
    then have "set (records g) \<subseteq> set (records (registry w)) - {(c, x) | x. True}"
      using set_records_expire [of now "registry w"] by auto
    then show ?thesis using final(7,8) inv g by (fastforce simp: snapshot_inv_def note_page_def empty_page_def)
  next
    case absent
    then show ?thesis using ex [OF g] set_records_expire [of now "registry w"] by (simp add: note_page_def empty_page_def)
  qed (use inv in \<open>simp_all add: note_page_def empty_page_def\<close>)
qed

lemma snapshot_inv_reserve:
  assumes inv: "snapshot_inv w" and free: "held w i = None" and eq: "reserve now (registry w) = (Inr (e, rv), g)"
  shows "snapshot_inv (w\<lparr>registry := g, held := (held w)(i := Some rv)\<rparr>)"
proof -
  have ri: "registry_inv (registry w)" using inv by (simp add: snapshot_inv_def)
  note sp = reserve_spec [OF ri eq]
  have "token_held ((held w)(i := Some rv)) t" if "t \<in> set (reservations g)" for t
  proof (cases "t \<in> set (reservations (registry w))")
    case True
    then show ?thesis using inv free by (intro token_held_update) (auto simp: snapshot_inv_def)
  next
    case False
    then show ?thesis using sp that by (auto simp: token_held_here split: if_splits)
  qed
  moreover have "set (records g) \<subseteq> set (records (registry w))" using sp set_records_expire by auto
  ultimately show ?thesis using inv sp by (auto simp: snapshot_inv_def)
qed

lemma snapshot_inv_destroy:
  assumes inv: "snapshot_inv w" and slot: "held w i = Some rv"
    and rest: "\<And>t. t \<in> set (reservations (registry w)) \<Longrightarrow> (owned rv \<Longrightarrow> t \<noteq> token rv) \<Longrightarrow> token_held h t"
  shows "snapshot_inv (w\<lparr>registry := destroy_reservation rv (registry w), held := h\<rparr>)"
proof -
  have d: "distinct (reservations (registry w))" "registry_inv (registry w)"
    using inv by (auto simp: snapshot_inv_def registry_inv_def)
  then show ?thesis
    using rest by (intro snapshot_inv_shrink [OF inv]) (auto simp: registry_inv_destroy set_remove1_distinct split: if_splits)
qed

lemma snapshot_inv_drop:
  assumes inv: "snapshot_inv w" and slot: "held w i = Some rv"
  shows "snapshot_inv (w\<lparr>registry := destroy_reservation rv (registry w), held := (held w)(i := None)\<rparr>)"
  using inv slot by (intro snapshot_inv_destroy token_held_update) (auto simp: snapshot_inv_def)

lemma snapshot_inv_move:
  assumes inv: "snapshot_inv w" and ne: "i \<noteq> j" and slots: "held w i = Some a" "held w j = Some b"
    and eq: "move_assign a b (registry w) = (a', b', g)"
  shows "snapshot_inv (w\<lparr>registry := g, held := (held w)(i := Some a', j := Some b')\<rparr>)"
proof -
  have g: "a' = b" "g = destroy_reservation a (registry w)"
    using eq by (auto simp: move_assign_def destroy_reservation_def)
  have "token_held ((held w)(i := Some a', j := Some b')) t"
    if "t \<in> set (reservations (registry w))" "owned a \<Longrightarrow> t \<noteq> token a" for t
  proof (cases "owned b \<and> token b = t")
    case True
    then show ?thesis using token_held_here [of b "(held w)(j := Some b')" i] g(1) ne by (simp add: fun_upd_twist)
  next
    case False
    then show ?thesis using inv slots that g(1) ne
      by (intro token_held_update) (auto simp: snapshot_inv_def split: if_splits)
  qed
  then show ?thesis unfolding g(2) by (rule snapshot_inv_destroy [OF inv slots(1)])
qed

lemma snapshot_inv_switch:
  assumes "snapshot_inv w"
  shows "snapshot_inv (w\<lparr>registry := start (registry w)\<rparr>)" "snapshot_inv (w\<lparr>registry := begin_shutdown (registry w)\<rparr>)"
    "snapshot_inv (w\<lparr>registry := finish_shutdown (registry w)\<rparr>)"
  using assms by (auto simp: snapshot_inv_def registry_inv_def start_def begin_shutdown_def finish_shutdown_def)

lemma snapshot_inv_step: "snapshot_step w w' \<Longrightarrow> snapshot_inv w \<Longrightarrow> snapshot_inv w'"
proof (induction rule: snapshot_step.induct)
  case (st_reserve_throws now w e g)
  then show ?case using reserve_spec [of "registry w" now "Inl e" g] by (auto simp: snapshot_inv_def)
qed (rule snapshot_inv_switch snapshot_inv_reserve snapshot_inv_drop snapshot_inv_move snapshot_inv_publish snapshot_inv_page; assumption)+

interpretation snapshot_sys: inv_system snapshot_init snapshot_step snapshot_inv
  by unfold_locales (rule snapshot_inv_init, assumption, rule snapshot_inv_step)

subsection \<open>A sample run\<close>

definition demo_limits :: CollectionSnapshotLimits where
  "demo_limits = \<lparr>max_records = 2, total_bytes = 100, reservation_bytes = 50, snapshot_entries = 10, snapshot_bytes = 40,
     page_entries = 2, ttl = 10\<rparr>"

definition demo_cursor :: string where
  "demo_cursor = replicate 32 CHR ''a''"

definition demo_binding :: CollectionSnapshotBinding where
  "demo_binding = \<lparr>bound_method = ''graph.list'', bound_session_id = [], original_params = []\<rparr>"

definition demo_publication :: "nat Publication" where
  "demo_publication = \<lparr>pub_type = ''nat'', pub_binding = demo_binding, pub_entries = [1, 2, 3], pub_measured_entries = 3,
     pub_measured_bytes = 30, pub_page_limit = 2, pub_retained_page_limit = 4\<rparr>"

definition demo_open :: "nat SnapshotWorld" where
  "demo_open = \<lparr>registry = \<lparr>limits = demo_limits, records = [], reservations = [], retained_bytes = 0, reserved_bytes = 0,
       next_reservation_token = 1, accepting = True\<rparr>, held = (\<lambda>_. None), published = (\<lambda>_. []), delivered = (\<lambda>_. [])\<rparr>"

definition demo_reserved :: "nat SnapshotWorld" where
  "demo_reserved = demo_open\<lparr>registry := (registry demo_open)\<lparr>reservations := [1], reserved_bytes := 50, next_reservation_token := 2\<rparr>,
     held := (\<lambda>_. None)(0 := Some \<lparr>owned = True, token = 1\<rparr>)\<rparr>"

definition demo_stored :: "nat CollectionSnapshotRegistry" where
  "demo_stored = (registry demo_open)\<lparr>records := [(demo_cursor, publication_record 0 demo_publication demo_limits)],
     retained_bytes := 30, next_reservation_token := 2\<rparr>"

definition demo_published :: "nat SnapshotWorld" where
  "demo_published = demo_open\<lparr>registry := demo_stored, held := (\<lambda>_. None)(0 := Some inactive_reservation),
     published := (\<lambda>_. [])(demo_cursor := [1, 2, 3]), delivered := (\<lambda>_. [])(demo_cursor := [1, 2])\<rparr>"

lemma demo_cursor_valid: "valid_opaque_id demo_cursor"
  by (simp add: valid_opaque_id_def demo_cursor_def kOpaqueIdHexCharacters_def list_all_iff)

lemma snapshot_next:
  "reachable snapshot_init snapshot_step w \<Longrightarrow> snapshot_step w w' \<Longrightarrow> reachable snapshot_init snapshot_step w'"
  by (rule reachable_step)

lemma demo_open_reach: "reachable snapshot_init snapshot_step demo_open"
proof -
  let ?w = "demo_open\<lparr>registry := (registry demo_open)\<lparr>accepting := False\<rparr>\<rparr>"
  have "snapshot_init ?w"
    by (auto simp: snapshot_init_def demo_open_def new_registry_def demo_limits_def invalid_limits_def intro!: exI [of _ demo_limits])
  then have "reachable snapshot_init snapshot_step ?w" by (rule reachable_init)
  then have "reachable snapshot_init snapshot_step (?w\<lparr>registry := start (registry ?w)\<rparr>)"
    by (rule snapshot_next [OF _ st_start])
  then show ?thesis by (simp add: start_def demo_open_def)
qed

lemma demo_reserve: "reserve 0 (registry demo_open) = (Inr (NoError, \<lparr>owned = True, token = 1\<rparr>), registry demo_reserved)"
  by (simp add: reserve_def expire_locked_def demo_open_def demo_reserved_def demo_limits_def Let_def next_token_def
      numeral_3_eq_3)

lemma demo_reserved_reach: "reachable snapshot_init snapshot_step demo_reserved"
  using snapshot_next [OF demo_open_reach st_reserve [OF _ demo_reserve, of 0]]
  by (simp add: demo_open_def demo_reserved_def)

lemma demo_publish:
  "publish (\<lambda>_. demo_cursor) 0 \<lparr>owned = True, token = 1\<rparr> demo_publication (registry demo_reserved)
    = (Inr \<lparr>page_error = NoError, page_cursor = Some demo_cursor, page_offset = 0, page_rows = [1, 2], has_more = True\<rparr>, demo_stored)"
  by (simp add: publish_def publish_body_def demo_reserved_def demo_open_def demo_stored_def demo_publication_def demo_limits_def
      first_count_def stored_page_limit_def empty_page_def Let_def demo_cursor_valid eval_nat_numeral consume_reservation_locked_def
      destroy_reservation_def inactive_reservation_def publication_record_def)

lemma demo_published_reach: "reachable snapshot_init snapshot_step demo_published"
  using snapshot_next [OF demo_reserved_reach st_publish [OF _ demo_publish, of 0]]
  by (simp add: demo_reserved_def demo_open_def demo_published_def note_publication_def demo_publication_def)

lemma demo_page:
  "page 5 ''nat'' demo_cursor demo_binding 2 2 (registry demo_published)
    = (\<lparr>page_error = NoError, page_cursor = None, page_offset = 2, page_rows = [3], has_more = False\<rparr>,
       (registry demo_open)\<lparr>next_reservation_token := 2\<rparr>)"
  by (simp add: page_def Let_def demo_cursor_valid demo_published_def demo_stored_def demo_open_def demo_limits_def expire_locked_def
      publication_record_def demo_publication_def expiration_at_def first_count_def stored_page_limit_def empty_page_def erase_locked_def)

section \<open>Properties\<close>

text \<open>
  C18. The quota of the snapshot registry is exact. In every state the registry and its clients can
  reach, the retained bytes are the sum over the live records, the reserved bytes are the worst
  case per active reservation, both together stay within the byte limit and their number within
  the record limit, and no quota stays reserved once no client owns a reservation. Reserving
  never runs out of tokens, although the token counter wraps, and it admits a reservation exactly
  when admission is open and both limits leave room after the expired records are gone.
\<close>

theorem snapshot_quota_exact:
  fixes now :: int
  assumes "reachable snapshot_init snapshot_step w"
  defines "g \<equiv> registry w"
  defines "h \<equiv> expire_locked now g"
  shows "retained_bytes g = retained_sum (records g)
    \<and> reserved_bytes g = length (reservations g) * reservation_bytes (limits g)
    \<and> retained_bytes g + reserved_bytes g \<le> total_bytes (limits g)
    \<and> length (records g) + length (reservations g) \<le> max_records (limits g)
    \<and> ((\<forall>i rv. held w i = Some rv \<longrightarrow> \<not> owned rv) \<longrightarrow> reserved_bytes g = 0)
    \<and> (\<exists>e rv. fst (reserve now g) = Inr (e, rv)
         \<and> (e = NoError \<longleftrightarrow> accepting g \<and> length (records h) + length (reservations g) < max_records (limits g)
              \<and> retained_bytes h + reserved_bytes g + reservation_bytes (limits g) \<le> total_bytes (limits g))
         \<and> (e = NoError \<longleftrightarrow> active rv (snd (reserve now g))))"
proof -
  have inv: "snapshot_inv w" by (rule snapshot_sys.reachable_inv [OF assms(1)])
  then have ri: "registry_inv g" by (simp add: snapshot_inv_def g_def)
  obtain res g' where eq: "reserve now g = (res, g')" by (cases "reserve now g")
  have "reservations g = []" if "\<forall>i rv. held w i = Some rv \<longrightarrow> \<not> owned rv"
    using inv that by (cases "reservations g") (auto simp: snapshot_inv_def token_held_def g_def)
  moreover note reserve_spec [OF ri eq]
  ultimately show ?thesis using ri eq
    by (auto simp: registry_inv_def h_def active_def reservation_active_def inactive_reservation_def split: if_splits)
qed

theorem snapshot_quota_exact_witness:
  "retained_bytes (registry demo_published) = 30 \<and> retained_bytes (registry demo_published) \<le> total_bytes demo_limits"
  using snapshot_quota_exact [OF demo_published_reach, where now = 0]
  by (simp add: demo_published_def demo_stored_def demo_open_def publication_record_def demo_publication_def demo_limits_def)

text \<open>
  C25. Publication is all or nothing. A publication that throws or is refused leaves the registry as
  if its reservation had just been released: no record, no quota. One that succeeds had an active
  reservation, which it uses up, and returns a first page of the collection: either the whole
  collection, and nothing is retained, or a non-empty proper prefix with a fresh valid cursor,
  under which exactly that collection is retained with its measured bytes.
\<close>

theorem publish_all_or_nothing:
  assumes "reachable snapshot_init snapshot_step w" "publish gen now rv p (registry w) = (res, g)"
  shows "case res of Inl e \<Rightarrow> g = destroy_reservation rv (registry w)
    | Inr pg \<Rightarrow> if page_error pg \<noteq> NoError then g = destroy_reservation rv (registry w) \<and> page_rows pg = [] \<and> page_cursor pg = None
        else active rv (registry w) \<and> token rv \<notin> set (reservations g)
          \<and> (case page_cursor pg of
               None \<Rightarrow> page_rows pg = pub_entries p \<and> \<not> has_more pg \<and> records g = records (registry w)
             | Some c \<Rightarrow> has_more pg \<and> page_rows pg \<noteq> [] \<and> strict_prefix (page_rows pg) (pub_entries p) \<and> valid_opaque_id c
                 \<and> map_of (records (registry w)) c = None
                 \<and> (\<exists>r. records g = (c, r) # records (registry w) \<and> record_entries r = pub_entries p
                      \<and> next_offset r = length (page_rows pg) \<and> measured_bytes r = pub_measured_bytes p))"
proof -
  have "snapshot_inv w" by (rule snapshot_sys.reachable_inv [OF assms(1)])
  then have ri: "registry_inv (registry w)" and d: "distinct (reservations (registry w))"
    by (simp_all add: snapshot_inv_def registry_inv_def)
  from ri assms(2) show ?thesis
  proof (cases rule: snapshot_publish_cases)
    case refused
    then show ?thesis by (cases res) (auto simp: rejected_def empty_page_def)
  next
    case single
    then show ?thesis using d by (simp add: empty_page_def)
  next
    case (stored c)
    have "strict_prefix (take (first_count (limits (registry w)) p) (pub_entries p)) (pub_entries p)"
      using stored(7) by (auto simp: strict_prefix_def take_is_prefix)
    then show ?thesis using stored d by (auto simp: empty_page_def publication_record_def)
  qed
qed

theorem publish_all_or_nothing_witness:
  "map_of (records (registry demo_reserved)) demo_cursor = None \<and> valid_opaque_id demo_cursor"
  using publish_all_or_nothing [OF demo_reserved_reach demo_publish] by simp

text \<open>
  C4. Paging delivers the published collection exactly once and in order. Whatever other clients
  reserve, publish, read, release or let expire in between, a successful read under a cursor
  returns at least one row and at most the asked number, and the rows delivered so far under that
  cursor are then a prefix of the collection published under it. The final page is the one that
  completes the collection, and only it releases the record. A refused read delivers nothing and
  changes nothing but the removal of expired records.
\<close>

theorem paging_exactly_once:
  assumes "reachable snapshot_init snapshot_step w" "page now ty c b off lim (registry w) = (pg, g)"
  shows "if page_error pg = NoError
    then off = length (delivered w c) \<and> page_rows pg \<noteq> [] \<and> length (page_rows pg) \<le> lim
      \<and> prefix (delivered w c @ page_rows pg) (published w c)
      \<and> (has_more pg \<longleftrightarrow> delivered w c @ page_rows pg \<noteq> published w c)
      \<and> (has_more pg \<longleftrightarrow> c \<in> fst ` set (records g)) \<and> page_cursor pg = (if has_more pg then Some c else None)
    else page_rows pg = [] \<and> (g = registry w \<or> g = expire_locked now (registry w))"
proof -
  have inv: "snapshot_inv w" by (rule snapshot_sys.reachable_inv [OF assms(1)])
  then have ri: "registry_inv (registry w)" by (simp add: snapshot_inv_def)
  have rec: "record_entries r = published w c" "delivered w c = take (next_offset r) (published w c)"
      "next_offset r < length (published w c)" if "(c, r) \<in> set (records (registry w))" for r
  proof -
    have "record_ok (limits (registry w)) (c, r)" using ri that by (simp add: registry_inv_def list_all_iff)
    moreover show "record_entries r = published w c" "delivered w c = take (next_offset r) (published w c)"
      using inv that by (auto simp: snapshot_inv_def)
    ultimately show "next_offset r < length (published w c)" by (simp add: record_ok_def)
  qed
  from ri assms(2) show ?thesis
  proof (cases rule: page_cases)
    case (more r k)
    have "(c, r) \<in> set (records (expire_locked now (registry w)))" using ri more(1,2) by (auto simp: registry_inv_def records_expire)
    moreover have "take off (published w c) @ take k (drop off (published w c)) = take (off + k) (published w c)" by (simp add: take_add)
    ultimately show ?thesis using rec [OF more(1)] more(5-10)
      by (auto simp: empty_page_def take_is_prefix image_iff split: prod.splits)
  next
    case (final r)
    then show ?thesis using rec [OF final(1)] by (auto simp: empty_page_def)
  qed (auto simp: empty_page_def)
qed

theorem paging_exactly_once_witness:
  "prefix (delivered demo_published demo_cursor @ [3]) (published demo_published demo_cursor)
    \<and> delivered demo_published demo_cursor @ [3] = published demo_published demo_cursor"
  using paging_exactly_once [OF demo_published_reach demo_page] by simp

end
