(* ===== verification/PageMeasurement.thy ===== *)
theory PageMeasurement
  imports IpcFrame
begin

text \<open>
  How the daemon sizes the pages of a collection before it publishes it
  (\<^verbatim>\<open>measure_collection_rows\<close> of \<^verbatim>\<open>src/lib/ipc/request_router.cpp\<close>): the exact byte count of the
  encoded array, and by binary search the largest page size all of whose contiguous windows fit one
  response frame.

  The encoder and the JSON writer enter as the size of each encoded row and the size of the
  response without rows. A thrown \<^verbatim>\<open>std::length_error\<close> is its message, on the left of the sum.
\<close>

section \<open>Model\<close>

definition kSnapshotMaxEntries :: nat where
  "kSnapshotMaxEntries = 262144"

definition kSnapshotMaxBytes :: nat where
  "kSnapshotMaxBytes = 64 * 1024 * 1024"

abbreviation size_t_max :: nat where
  "size_t_max \<equiv> 18446744073709551615"

record CollectionMeasurement =
  measured_entries :: nat
  measured_array_bytes :: nat
  measured_page_limit :: nat

definition checked_size_sum :: "nat \<Rightarrow> nat \<Rightarrow> string + nat" where
  "checked_size_sum current addition =
     (if size_t_max - current < addition then Inl ''collection byte measurement overflowed'' else Inr (current + addition))"

text \<open>The row loop: \<^verbatim>\<open>first\<close>, \<^verbatim>\<open>bytes\<close> and \<^verbatim>\<open>row_bytes\<close> are its variables.\<close>

fun measure_rows :: "('v \<Rightarrow> nat) \<Rightarrow> nat \<Rightarrow> bool \<Rightarrow> nat \<Rightarrow> nat list \<Rightarrow> 'v list \<Rightarrow> string + (nat \<times> nat list)" where
  "measure_rows enc budget first bytes row_bytes [] = Inr (bytes, row_bytes)"
| "measure_rows enc budget first bytes row_bytes (row # rows) =
     (if budget < enc row then Inl ''one collection entry exceeds one frame''
      else case (if first then Inr bytes else checked_size_sum bytes 1) of Inl e \<Rightarrow> Inl e
        | Inr bytes1 \<Rightarrow> (case checked_size_sum bytes1 (enc row) of Inl e \<Rightarrow> Inl e
            | Inr bytes2 \<Rightarrow> if kSnapshotMaxBytes < bytes2 then Inl ''collection exceeds 64 MiB snapshot bytes''
                else measure_rows enc budget False bytes2 (row_bytes @ [enc row]) rows))"

fun sum_window :: "nat \<Rightarrow> nat list \<Rightarrow> string + nat" where
  "sum_window window [] = Inr window"
| "sum_window window (b # bs) = (case checked_size_sum window b of Inl e \<Rightarrow> Inl e | Inr w \<Rightarrow> sum_window w bs)"

function slide_window :: "nat list \<Rightarrow> nat \<Rightarrow> nat \<Rightarrow> nat \<Rightarrow> nat \<Rightarrow> bool" where
  "slide_window row_bytes budget count window start =
     (if start + count \<le> length row_bytes then
        let w = window - row_bytes ! (start - 1) + row_bytes ! (start + count - 1) in
        if budget < w then False else slide_window row_bytes budget count w (start + 1)
      else True)"
  by pat_completeness auto
termination
  by (relation "measure (\<lambda>(rb, _, count, _, start). Suc (length rb) - start)") auto

definition windows_fit :: "nat list \<Rightarrow> nat \<Rightarrow> nat \<Rightarrow> string + bool" where
  "windows_fit row_bytes budget count = (case sum_window (count - 1) (take count row_bytes) of Inl e \<Rightarrow> Inl e
     | Inr window \<Rightarrow> Inr (if budget < window then False else slide_window row_bytes budget count window 1))"

function search_limit :: "nat list \<Rightarrow> nat \<Rightarrow> nat \<Rightarrow> nat \<Rightarrow> string + nat" where
  "search_limit row_bytes budget lower upper =
     (if lower < upper then
        let middle = lower + (upper - lower + 1) div 2 in
        case windows_fit row_bytes budget middle of Inl e \<Rightarrow> Inl e
        | Inr fits \<Rightarrow> if fits then search_limit row_bytes budget middle upper
            else search_limit row_bytes budget lower (middle - 1)
      else Inr lower)"
  by pat_completeness auto
termination
  by (relation "measure (\<lambda>(_, _, lower, upper). upper - lower)") auto

declare slide_window.simps [simp del] search_limit.simps [simp del]

definition measure_collection_rows :: "('v \<Rightarrow> nat) \<Rightarrow> nat \<Rightarrow> 'v list \<Rightarrow> nat \<Rightarrow> nat \<Rightarrow> string + CollectionMeasurement" where
  "measure_collection_rows enc empty_payload_bytes rows requested_limit entries =
    (if kSnapshotMaxEntries < entries then Inl ''collection exceeds 262144 snapshot entries''
     else if kMaximumFramePayloadBytes < empty_payload_bytes then Inl ''collection page header exceeds one frame''
     else let array_budget = kMaximumFramePayloadBytes - empty_payload_bytes in
       case measure_rows enc array_budget True 2 [] rows of Inl e \<Rightarrow> Inl e
       | Inr (bytes, row_bytes) \<Rightarrow>
           if rows = [] then Inr \<lparr>measured_entries = entries, measured_array_bytes = bytes, measured_page_limit = requested_limit\<rparr>
           else case search_limit row_bytes array_budget 1 (min requested_limit (length rows)) of Inl e \<Rightarrow> Inl e
             | Inr lower \<Rightarrow> Inr \<lparr>measured_entries = entries, measured_array_bytes = bytes, measured_page_limit = lower\<rparr>)"

section \<open>Reference\<close>

text \<open>The size of an encoded array without its brackets, and the windows of a given size that fit.\<close>

definition joined_bytes :: "nat list \<Rightarrow> nat" where
  "joined_bytes bs = sum_list bs + (length bs - 1)"

definition windows_ok :: "nat list \<Rightarrow> nat \<Rightarrow> nat \<Rightarrow> bool" where
  "windows_ok bs budget k \<longleftrightarrow> (\<forall>i. i + k \<le> length bs \<longrightarrow> joined_bytes (take k (drop i bs)) \<le> budget)"

section \<open>Lemmas\<close>

lemma measure_rows_Cons:
  assumes "measure_rows enc budget first bytes rb (row # rows) = Inr res"
  defines "next \<equiv> bytes + (if first then 0 else 1) + enc row"
  shows "enc row \<le> budget" "next \<le> kSnapshotMaxBytes" "measure_rows enc budget False next (rb @ [enc row]) rows = Inr res"
  using assms by (auto simp: checked_size_sum_def split: if_splits sum.splits)

lemma measure_rows_spec:
  "measure_rows enc budget first bytes rb rows = Inr (n, rb') \<Longrightarrow> bytes \<le> kSnapshotMaxBytes \<Longrightarrow>
    rb' = rb @ map enc rows \<and> (\<forall>r \<in> set rows. enc r \<le> budget) \<and> n \<le> kSnapshotMaxBytes
    \<and> n = bytes + (if first then joined_bytes (map enc rows) else sum_list (map enc rows) + length rows)"
proof (induction rows arbitrary: first bytes rb)
  case Nil
  then show ?case by (simp add: joined_bytes_def)
next
  case (Cons row rows)
  note c = measure_rows_Cons [OF Cons.prems(1)]
  from Cons.IH [OF c(3,2)] c(1) show ?case by (simp add: joined_bytes_def)
qed

lemma sum_window_spec: "window + sum_list bs \<le> size_t_max \<Longrightarrow> sum_window window bs = Inr (window + sum_list bs)"
  by (induction bs arbitrary: window) (auto simp: checked_size_sum_def)

lemma window_shift:
  assumes "0 < k" "Suc i + k \<le> length bs"
  shows "sum_list (take k (drop (Suc i) bs)) + bs ! i = sum_list (take k (drop i bs)) + (bs ! (i + k) :: nat)"
proof -
  obtain j where k: "k = Suc j" using assms(1) by (cases k) auto
  have "take k (drop i bs) = bs ! i # take j (drop (Suc i) bs)"
    using assms(2) k by (simp add: Cons_nth_drop_Suc [symmetric])
  moreover have "take k (drop (Suc i) bs) = take j (drop (Suc i) bs) @ [bs ! (i + k)]"
    using assms(2) k by (simp add: take_Suc_conv_app_nth)
  ultimately show ?thesis by simp
qed

lemma slide_window_spec:
  assumes "0 < k" "0 < start" "window = sum_list (take k (drop (start - 1) bs)) + (k - 1)"
  shows "slide_window bs budget k window start \<longleftrightarrow>
    (\<forall>i \<ge> start. i + k \<le> length bs \<longrightarrow> sum_list (take k (drop i bs)) + (k - 1) \<le> budget)"
  using assms
proof (induction bs budget k window start rule: slide_window.induct)
  case (1 bs budget k window start)
  note step = slide_window.simps [of bs budget k window start]
  show ?case
  proof (cases "start + k \<le> length bs")
    case False
    then show ?thesis by (auto simp: step)
  next
    case True
    let ?w = "window - bs ! (start - 1) + bs ! (start + k - 1)"
    have shift: "sum_list (take k (drop start bs)) + bs ! (start - 1) = sum_list (take k (drop (start - 1) bs)) + bs ! (start + k - 1)"
      using window_shift [of k "start - 1" bs] 1(2,3) True by simp
    have "bs ! (start - 1) \<le> sum_list (take k (drop (start - 1) bs))"
      using 1(2,3) True by (intro member_le_sum_list) (force simp: in_set_conv_nth intro!: exI [of _ 0], simp)
    then have w: "?w = sum_list (take k (drop start bs)) + (k - 1)" using shift 1(4) by linarith
    have split: "(\<forall>i \<ge> start. P i) \<longleftrightarrow> P start \<and> (\<forall>i \<ge> start + 1. P i)" for P
      by (metis Suc_eq_plus1 Suc_leD le_neq_implies_less less_eq_Suc_le order_refl)
    show ?thesis
      using 1(1) [OF True refl] w 1(2,3) True unfolding step by (subst split) (auto simp: Let_def not_less)
  qed
qed

lemma sum_list_take_le: "sum_list (take k bs) \<le> (sum_list bs :: nat)"
  by (metis append_take_drop_id le_add1 sum_list_append)

lemma sum_list_drop_le: "sum_list (drop k bs) \<le> (sum_list bs :: nat)"
  by (metis append_take_drop_id le_add2 sum_list_append)

lemma windows_fit_spec:
  assumes "0 < k" "k \<le> length bs" "sum_list bs + length bs \<le> size_t_max"
  shows "windows_fit bs budget k = Inr (windows_ok bs budget k)"
proof -
  have "k - 1 + sum_list (take k bs) \<le> size_t_max" using sum_list_take_le [of k bs] assms by linarith
  note sw = sum_window_spec [OF this]
  have "windows_ok bs budget k \<longleftrightarrow> sum_list (take k bs) + (k - 1) \<le> budget
      \<and> (\<forall>i \<ge> 1. i + k \<le> length bs \<longrightarrow> sum_list (take k (drop i bs)) + (k - 1) \<le> budget)"
  proof -
    have all: "(\<forall>i. P i) \<longleftrightarrow> P 0 \<and> (\<forall>i \<ge> 1. P i)" for P :: "nat \<Rightarrow> bool"
      by (metis One_nat_def Suc_leI gr0I)
    have jb: "joined_bytes (take k (drop i bs)) = sum_list (take k (drop i bs)) + (k - 1)" if "i + k \<le> length bs" for i
      using that by (simp add: joined_bytes_def min_absorb2)
    show ?thesis unfolding windows_ok_def using assms(2) jb jb [of 0] by (subst all) auto
  qed
  then show ?thesis
    using slide_window_spec [of k 1 "sum_list (take k bs) + (k - 1)" bs budget] assms(1) sw
    by (auto simp: windows_fit_def add.commute)
qed

text \<open>A smaller window fits wherever a larger one does.\<close>

lemma joined_bytes_sublist: "joined_bytes (take j (drop d xs)) \<le> joined_bytes xs"
  using sum_list_take_le [of j "drop d xs"] sum_list_drop_le [of d xs] by (simp add: joined_bytes_def)

lemma windows_ok_mono:
  assumes "windows_ok bs budget k" "j \<le> k" "k \<le> length bs"
  shows "windows_ok bs budget j"
  unfolding windows_ok_def
proof (intro allI impI)
  fix i assume i: "i + j \<le> length bs"
  show "joined_bytes (take j (drop i bs)) \<le> budget"
  proof (cases "i + k \<le> length bs")
    case True
    have "take j (drop i bs) = take j (drop 0 (take k (drop i bs)))" using assms(2) by (simp add: min_absorb1)
    also have "joined_bytes \<dots> \<le> joined_bytes (take k (drop i bs))" by (rule joined_bytes_sublist)
    finally show ?thesis using assms(1) True unfolding windows_ok_def by (meson le_trans)
  next
    case False
    define m where "m = length bs - k"
    have "take j (drop i bs) = take j (drop (i - m) (take k (drop m bs)))"
      using False assms(3) by (simp add: m_def)
    also have "joined_bytes \<dots> \<le> joined_bytes (take k (drop m bs))" by (rule joined_bytes_sublist)
    also have "m + k \<le> length bs" using assms(3) by (simp add: m_def)
    then have "joined_bytes (take k (drop m bs)) \<le> budget" using assms(1) by (simp add: windows_ok_def)
    finally show ?thesis .
  qed
qed

lemma search_limit_spec:
  assumes "0 < lower" "lower \<le> upper" "upper \<le> length bs" "sum_list bs + length bs \<le> size_t_max" "windows_ok bs budget lower"
  shows "\<exists>k. search_limit bs budget lower upper = Inr k \<and> lower \<le> k \<and> k \<le> upper \<and> windows_ok bs budget k
    \<and> (\<forall>j. k < j \<and> j \<le> upper \<longrightarrow> \<not> windows_ok bs budget j)"
  using assms
proof (induction bs budget lower upper rule: search_limit.induct)
  case (1 bs budget lower upper)
  note step = search_limit.simps [of bs budget lower upper]
  show ?case
  proof (cases "lower < upper")
    case False
    then show ?thesis using 1(3-) by (auto simp: search_limit.simps [of bs budget upper upper])
  next
    case True
    define middle where "middle = lower + (upper - lower + 1) div 2"
    have m: "lower < middle" "middle \<le> upper" using True by (auto simp: middle_def)
    have fit: "windows_fit bs budget middle = Inr (windows_ok bs budget middle)"
      using m 1(3,5,6) by (intro windows_fit_spec) auto
    show ?thesis
    proof (cases "windows_ok bs budget middle")
      case ok: True
      then have eq: "search_limit bs budget lower upper = search_limit bs budget middle upper"
        using True fit by (simp add: step middle_def Let_def)
      obtain k where "search_limit bs budget middle upper = Inr k" "middle \<le> k" "k \<le> upper" "windows_ok bs budget k"
          "\<forall>j. k < j \<and> j \<le> upper \<longrightarrow> \<not> windows_ok bs budget j"
        using 1(1) [OF True middle_def fit ok _ m(2) 1(5,6) ok] m(1) by auto
      with m(1) show ?thesis unfolding eq by (intro exI [of _ k]) simp
    next
      case no: False
      then have eq: "search_limit bs budget lower upper = search_limit bs budget lower (middle - 1)"
        using True fit by (simp add: step middle_def Let_def)
      have over: "\<not> windows_ok bs budget j" if "middle \<le> j" "j \<le> upper" for j
        using windows_ok_mono [of bs budget j middle] no that 1(5) by auto
      have rng: "lower \<le> middle - 1" "middle - 1 \<le> length bs" using m 1(5) by simp_all
      obtain k where k: "search_limit bs budget lower (middle - 1) = Inr k" "lower \<le> k" "k \<le> middle - 1" "windows_ok bs budget k"
          "\<forall>j. k < j \<and> j \<le> middle - 1 \<longrightarrow> \<not> windows_ok bs budget j"
        using 1(2) [OF True middle_def fit no 1(3) rng 1(6,7)] by auto
      have "\<not> windows_ok bs budget j" if "k < j" "j \<le> upper" for j
        using k(5) over that by (cases "middle \<le> j") auto
      with k(1-4) m(2) show ?thesis unfolding eq by (intro exI [of _ k]) simp
    qed
  qed
qed

lemma windows_ok_one: "(\<forall>b \<in> set bs. b \<le> budget) \<Longrightarrow> windows_ok bs budget 1"
  by (auto simp: windows_ok_def joined_bytes_def take_Suc_conv_app_nth hd_drop_conv_nth)

lemma measure_collection_rows_cases:
  assumes "measure_collection_rows enc header rows limit entries = Inr m" "rows \<noteq> []"
  obtains k where "windows_ok (map enc rows) (kMaximumFramePayloadBytes - header) k" "1 \<le> k" "k \<le> max 1 (min limit (length rows))"
    "\<forall>j. k < j \<and> j \<le> min limit (length rows) \<longrightarrow> \<not> windows_ok (map enc rows) (kMaximumFramePayloadBytes - header) j"
    "m = \<lparr>measured_entries = entries, measured_array_bytes = 2 + joined_bytes (map enc rows), measured_page_limit = k\<rparr>"
    "header \<le> kMaximumFramePayloadBytes" "2 + joined_bytes (map enc rows) \<le> kSnapshotMaxBytes" "entries \<le> kSnapshotMaxEntries"
proof -
  let ?b = "kMaximumFramePayloadBytes - header" and ?bs = "map enc rows" and ?u = "min limit (length rows)"
  have lim: "entries \<le> kSnapshotMaxEntries" "header \<le> kMaximumFramePayloadBytes"
    using assms(1) by (auto simp: measure_collection_rows_def split: if_splits)
  obtain bytes rb where mr: "measure_rows enc ?b True 2 [] rows = Inr (bytes, rb)"
    using assms(1) lim by (auto simp: measure_collection_rows_def Let_def split: sum.splits)
  have sp: "rb = ?bs" "\<forall>r \<in> set rows. enc r \<le> ?b" "bytes \<le> kSnapshotMaxBytes" "bytes = 2 + joined_bytes ?bs"
    using measure_rows_spec [OF mr] by (auto simp: kSnapshotMaxBytes_def)
  then have one: "windows_ok ?bs ?b 1" by (intro windows_ok_one) auto
  have small: "sum_list ?bs + length ?bs \<le> size_t_max"
    using sp(3,4) assms(2) by (simp add: joined_bytes_def kSnapshotMaxBytes_def)
  obtain k where k: "search_limit ?bs ?b 1 ?u = Inr k" "windows_ok ?bs ?b k" "1 \<le> k" "k \<le> max 1 ?u"
      "\<forall>j. k < j \<and> j \<le> ?u \<longrightarrow> \<not> windows_ok ?bs ?b j"
  proof (cases "1 \<le> ?u")
    case True
    obtain k where "search_limit ?bs ?b 1 ?u = Inr k \<and> 1 \<le> k \<and> k \<le> ?u \<and> windows_ok ?bs ?b k
        \<and> (\<forall>j. k < j \<and> j \<le> ?u \<longrightarrow> \<not> windows_ok ?bs ?b j)"
      using search_limit_spec [of 1 ?u ?bs ?b] True small one by auto
    then show ?thesis by (intro that [of k]) auto
  next
    case False
    then show ?thesis using one by (intro that [of 1]) (auto simp: search_limit.simps)
  qed
  have "m = \<lparr>measured_entries = entries, measured_array_bytes = bytes, measured_page_limit = k\<rparr>"
    using assms lim mr sp(1) k(1) by (simp add: measure_collection_rows_def Let_def)
  then show ?thesis using that [OF k(2-5)] lim sp by simp
qed

text \<open>A collection whose rows and total are within the bounds is measured.\<close>

lemma measure_rows_complete:
  "\<forall>r \<in> set rows. enc r \<le> budget \<Longrightarrow>
    bytes + (if first then joined_bytes (map enc rows) else sum_list (map enc rows) + length rows) \<le> kSnapshotMaxBytes \<Longrightarrow>
    \<exists>n. measure_rows enc budget first bytes rb rows = Inr (n, rb @ map enc rows)"
proof (induction rows arbitrary: first bytes rb)
  case (Cons row rows)
  let ?next = "bytes + (if first then 0 else 1) + enc row"
  have le: "?next + (sum_list (map enc rows) + length rows) \<le> kSnapshotMaxBytes"
    using Cons.prems(2) by (cases first) (simp_all add: joined_bytes_def)
  then have "?next \<le> size_t_max" "?next \<le> kSnapshotMaxBytes" by (auto simp: kSnapshotMaxBytes_def)
  then have "measure_rows enc budget first bytes rb (row # rows) = measure_rows enc budget False ?next (rb @ [enc row]) rows"
    using Cons.prems(1) by (auto simp: checked_size_sum_def)
  with Cons.IH [of ?next False "rb @ [enc row]"] Cons.prems(1) le show ?case by simp
qed simp

lemma measure_collection_rows_succeeds:
  assumes "entries \<le> kSnapshotMaxEntries" "\<forall>r \<in> set rows. header + enc r \<le> kMaximumFramePayloadBytes" "header \<le> kMaximumFramePayloadBytes"
    "2 + joined_bytes (map enc rows) \<le> kSnapshotMaxBytes"
  shows "\<exists>m. measure_collection_rows enc header rows limit entries = Inr m \<and> measured_array_bytes m = 2 + joined_bytes (map enc rows)"
proof -
  let ?b = "kMaximumFramePayloadBytes - header" and ?bs = "map enc rows" and ?u = "min limit (length rows)"
  have rows: "\<forall>r \<in> set rows. enc r \<le> ?b" using assms(2) by fastforce
  obtain n where mr: "measure_rows enc ?b True 2 [] rows = Inr (n, ?bs)"
    using measure_rows_complete [OF rows, of 2 True "[]"] assms(4) by auto
  then have n: "n = 2 + joined_bytes ?bs" using measure_rows_spec [OF mr] by (simp add: kSnapshotMaxBytes_def)
  have "\<exists>k. search_limit ?bs ?b 1 ?u = Inr k" if "rows \<noteq> []"
  proof (cases "1 \<le> ?u")
    case True
    have "windows_ok ?bs ?b 1" using rows by (intro windows_ok_one) auto
    moreover have "sum_list ?bs + length ?bs \<le> size_t_max"
      using assms(4) that by (simp add: joined_bytes_def kSnapshotMaxBytes_def)
    ultimately show ?thesis using search_limit_spec [of 1 ?u ?bs ?b] True by auto
  qed (auto simp: search_limit.simps)
  then show ?thesis
    using assms(1,3) mr n by (cases "rows = []") (auto simp: measure_collection_rows_def Let_def joined_bytes_def)
qed

section \<open>Properties\<close>



end
