(* ===== verification/CollectionProtocol.thy ===== *)
theory CollectionProtocol
  imports PageMeasurement SnapshotRegistry
begin

text \<open>
  A collection on its way from the daemon to a client. The daemon's side is the first page and the
  continuation of the session list (\<^verbatim>\<open>src/lib/ipc/request_router.cpp\<close>), over the page measurement and
  the snapshot registry. The client's side is the loop that asks for pages and assembles them
  (\<^verbatim>\<open>aggregate_collection\<close> of \<^verbatim>\<open>src/lib/ipc/client.cpp\<close>) with its checks of the page metadata and its
  budget (\<^verbatim>\<open>src/lib/ipc/client_collection_budget.hpp\<close>).

  The client's loop is proved to end against any server, and to return exactly the collection
  against a server that keeps the contract of the locale \<open>page_server\<close>, which the daemon's model
  satisfies.
\<close>

section \<open>Model\<close>

subsection \<open>Wire values\<close>

text \<open>A JSON value as the decoders distinguish it; integers are unsigned or signed as parsed.\<close>

datatype WireJson = J_Null | J_Bool bool | J_Unsigned nat | J_Integer int | J_String string | J_Other

definition kGeneralPageMaxEntries :: nat where
  "kGeneralPageMaxEntries = 4096"

text \<open>A result object: its members and the rows of the method.\<close>

record 'b WireResult =
  is_object :: bool
  members :: "string \<Rightarrow> WireJson option"
  body :: 'b

fun decode_size :: "WireJson \<Rightarrow> nat option" where
  "decode_size (J_Unsigned n) = (if size_max < n then None else Some n)"
| "decode_size (J_Integer i) = (if i < 0 \<or> size_max < nat i then None else Some (nat i))"
| "decode_size _ = None"

fun decode_opaque_id :: "WireJson \<Rightarrow> string option" where
  "decode_opaque_id (J_String s) = (if valid_opaque_id s then Some s else None)"
| "decode_opaque_id _ = None"

subsection \<open>The daemon\<close>

datatype ErrorStatus = Invalid_Params | Capacity_Exceeded | Response_Too_Large | Cursor_Not_Found | Internal_Error | Host_Failure

fun collection_error_status :: "CollectionSnapshotError \<Rightarrow> ErrorStatus" where
  "collection_error_status InvalidParams = Invalid_Params"
| "collection_error_status CapacityExceeded = Capacity_Exceeded"
| "collection_error_status Stopped = Capacity_Exceeded"
| "collection_error_status ResponseTooLarge = Response_Too_Large"
| "collection_error_status CursorNotFound = Cursor_Not_Found"
| "collection_error_status NoError = Internal_Error"

definition add_collection_page_metadata :: "'v PageResult \<Rightarrow> 'v list WireResult" where
  "add_collection_page_metadata pg = \<lparr>is_object = True,
     members = [''offset'' \<mapsto> J_Unsigned (page_offset pg), ''has_more'' \<mapsto> J_Bool (has_more pg),
       ''cursor'' \<mapsto> (case page_cursor pg of Some c \<Rightarrow> J_String c | None \<Rightarrow> J_Null)],
     body = page_rows pg\<rparr>"

text \<open>What the daemon's surroundings answer: cursors, clock readings, the host's rows, sizes.\<close>

record 'v Surroundings =
  id_generator :: "nat \<Rightarrow> string"
  clock :: "nat \<Rightarrow> int"
  host_rows :: "unit + 'v list"
  row_size :: "'v \<Rightarrow> nat"
  empty_response_size :: nat
  row_type_name :: string

text \<open>The registry with the number of clock readings so far. A reply is a status or a result object;
  an exception that leaves the handler is an internal error of the request.\<close>

type_synonym 'v Daemon = "'v CollectionSnapshotRegistry \<times> nat"

definition first_page :: "'v Surroundings \<Rightarrow> CollectionSnapshotBinding \<Rightarrow> nat \<Rightarrow> 'v Daemon \<Rightarrow> (ErrorStatus + 'v list WireResult) \<times> 'v Daemon" where
  "first_page env binding limit d = (case d of (g, t) \<Rightarrow>
    (case reserve (clock env t) g of
       (Inl _, g1) \<Rightarrow> (Inl Internal_Error, (g1, t + 1))
     | (Inr (e, rv), g1) \<Rightarrow>
         if e \<noteq> NoError then (Inl (collection_error_status e), (g1, t + 1))
         else case host_rows env of
             Inl _ \<Rightarrow> (Inl Host_Failure, (destroy_reservation rv g1, t + 1))
           | Inr rows \<Rightarrow>
             (case measure_collection_rows (row_size env) (empty_response_size env) rows limit (length rows) of
                Inl _ \<Rightarrow> (Inl Response_Too_Large, (destroy_reservation rv g1, t + 1))
              | Inr m \<Rightarrow>
                  (case publish (id_generator env) (clock env (t + 1)) rv
                      \<lparr>pub_type = row_type_name env, pub_binding = binding, pub_entries = rows,
                       pub_measured_entries = measured_entries m, pub_measured_bytes = measured_array_bytes m,
                       pub_page_limit = limit, pub_retained_page_limit = measured_page_limit m\<rparr> g1 of
                     (Inl _, g2) \<Rightarrow> (Inl Internal_Error, (g2, t + 2))
                   | (Inr pg, g2) \<Rightarrow>
                       if page_error pg \<noteq> NoError then (Inl (collection_error_status (page_error pg)), (g2, t + 2))
                       else (Inr (add_collection_page_metadata pg), (g2, t + 2))))))"

definition continuation :: "'v Surroundings \<Rightarrow> CollectionSnapshotBinding \<Rightarrow> string \<Rightarrow> nat \<Rightarrow> nat \<Rightarrow> 'v Daemon
    \<Rightarrow> (ErrorStatus + 'v list WireResult) \<times> 'v Daemon" where
  "continuation env binding cursor offset limit d = (case d of (g, t) \<Rightarrow>
    (case page (clock env t) (row_type_name env) cursor binding offset limit g of
       (pg, g1) \<Rightarrow> if page_error pg \<noteq> NoError then (Inl (collection_error_status (page_error pg)), (g1, t + 1))
         else (Inr (add_collection_page_metadata pg), (g1, t + 1))))"

text \<open>One request of the method: a cursor selects the continuation.\<close>

definition route_collection :: "'v Surroundings \<Rightarrow> CollectionSnapshotBinding \<Rightarrow> 'v Daemon \<Rightarrow> string option \<Rightarrow> nat \<Rightarrow> nat
    \<Rightarrow> (ErrorStatus + 'v list WireResult) \<times> 'v Daemon" where
  "route_collection env binding d cursor offset limit = (case cursor of
     None \<Rightarrow> first_page env binding limit d
   | Some c \<Rightarrow> continuation env binding c offset limit d)"

subsection \<open>The client's budget\<close>

record CollectionPageMeasurement =
  pm_entries :: nat
  pm_rows :: nat
  pm_encoded_row_bytes :: nat
  pm_shared_bytes :: nat

record CollectionAggregateBudget =
  maximum_entries :: nat
  maximum_bytes :: nat
  budget_entries :: nat
  budget_rows :: nat
  budget_encoded_bytes :: nat

definition new_budget :: CollectionAggregateBudget where
  "new_budget = \<lparr>maximum_entries = kSnapshotMaxEntries, maximum_bytes = kSnapshotMaxBytes, budget_entries = 0, budget_rows = 0,
     budget_encoded_bytes = 2\<rparr>"

definition add_with_limit :: "nat \<Rightarrow> nat \<Rightarrow> nat \<Rightarrow> nat option" where
  "add_with_limit current addition limit = (if limit < current \<or> limit - current < addition then None else Some (current + addition))"

definition entries_message :: string where
  "entries_message = ''stable collection exceeds 262144 recursive snapshot entries''"

definition bytes_message :: string where
  "bytes_message = ''stable collection exceeds 64 MiB encoded bytes''"

definition admit :: "CollectionPageMeasurement \<Rightarrow> CollectionAggregateBudget \<Rightarrow> string + CollectionAggregateBudget" where
  "admit pg b =
    (if maximum_entries b < budget_entries b then Inl entries_message
     else if maximum_bytes b < budget_encoded_bytes b then Inl bytes_message
     else if pm_rows pg = 0 \<and> pm_encoded_row_bytes pg \<noteq> 0 then Inl ''stable collection page has bytes without rows''
     else case add_with_limit (budget_entries b) (pm_entries pg) (maximum_entries b) of None \<Rightarrow> Inl entries_message
     | Some next_entries \<Rightarrow>
       (case add_with_limit (budget_rows b) (pm_rows pg) size_max of None \<Rightarrow> Inl ''stable collection row count overflowed''
        | Some next_rows \<Rightarrow>
          (case Option.bind (add_with_limit (budget_encoded_bytes b) (pm_shared_bytes pg) (maximum_bytes b))
                 (\<lambda>n. add_with_limit n (pm_encoded_row_bytes pg) (maximum_bytes b)) of None \<Rightarrow> Inl bytes_message
           | Some n \<Rightarrow>
             (case (if pm_rows pg = 0 then Some n
                    else Option.bind (add_with_limit n (pm_rows pg - 1) (maximum_bytes b))
                      (\<lambda>n'. if budget_rows b = 0 then Some n' else add_with_limit n' 1 (maximum_bytes b))) of
                None \<Rightarrow> Inl bytes_message
              | Some next_bytes \<Rightarrow>
                  Inr (b\<lparr>budget_entries := next_entries, budget_rows := next_rows, budget_encoded_bytes := next_bytes\<rparr>)))))"

subsection \<open>The client's loop\<close>

record CollectionPageMetadata =
  meta_offset :: nat
  meta_next_offset :: nat
  meta_has_more :: bool
  meta_cursor :: "string option"

definition has_bool :: "string \<Rightarrow> 'b WireResult \<Rightarrow> bool option" where
  "has_bool k r = (case members r k of Some (J_Bool b) \<Rightarrow> Some b | _ \<Rightarrow> None)"

definition decode_collection_page_metadata :: "'b WireResult \<Rightarrow> nat \<Rightarrow> nat \<Rightarrow> nat \<Rightarrow> string option \<Rightarrow> string + CollectionPageMetadata" where
  "decode_collection_page_metadata result expected_offset request_limit rows stable_cursor =
    (case (members result ''offset'', has_bool ''has_more'' result, members result ''cursor'') of
       (Some off, Some again, Some cur) \<Rightarrow>
         if \<not> is_object result \<or> request_limit = 0 \<or> kGeneralPageMaxEntries < request_limit \<or> request_limit < rows
         then Inl ''collection result has invalid page metadata''
         else if decode_size off \<noteq> Some expected_offset \<or> kSnapshotMaxEntries < expected_offset
           \<or> kSnapshotMaxEntries - expected_offset < rows
         then Inl ''collection result offset or row count is invalid''
         else if kSnapshotMaxEntries < expected_offset + rows then Inl ''collection result exceeds the snapshot row limit''
         else let meta = \<lparr>meta_offset = expected_offset, meta_next_offset = expected_offset + rows, meta_has_more = again, meta_cursor = None\<rparr> in
           if again then
             (case decode_opaque_id cur of
                Some c \<Rightarrow> if rows = 0 \<or> (stable_cursor \<noteq> None \<and> stable_cursor \<noteq> Some c)
                  then Inl ''collection continuation cursor is absent or unstable'' else Inr (meta\<lparr>meta_cursor := Some c\<rparr>)
              | None \<Rightarrow> Inl ''collection continuation cursor is absent or unstable'')
           else if cur \<noteq> J_Null then Inl ''final collection page retained a cursor'' else Inr meta
     | _ \<Rightarrow> Inl ''collection result has invalid page metadata'')"

text \<open>The callables of the template: the call, the page decoder with its row count, the measure, and
  the append, the last three with their diagnostic on the left.\<close>

record ('a, 'b, 'p, 'e, 's) Callables =
  call_page :: "'s \<Rightarrow> string option \<Rightarrow> nat \<Rightarrow> nat \<Rightarrow> ('e + 'b WireResult) \<times> 's"
  decode_page :: "'b WireResult \<Rightarrow> string + ('p \<times> nat)"
  measure_page :: "'b WireResult \<Rightarrow> 'p \<Rightarrow> bool \<Rightarrow> string + CollectionPageMeasurement"
  append_page :: "'a \<Rightarrow> 'p \<Rightarrow> string + 'a"

datatype 'e ClientFailure = Call_Failed 'e | Invalid_Response string

text \<open>The checks of one round between the call and the decision to go on.\<close>

definition accept_page :: "('a, 'b, 'p, 'e, 's) Callables \<Rightarrow> 'b WireResult \<Rightarrow> 'a \<Rightarrow> string option \<Rightarrow> nat \<Rightarrow> nat \<Rightarrow> CollectionAggregateBudget
    \<Rightarrow> string + ('a \<times> CollectionPageMetadata \<times> nat \<times> CollectionAggregateBudget)" where
  "accept_page cs result aggregate stable_cursor expected_offset request_limit budget =
    (case decode_page cs result of Inl m \<Rightarrow> Inl m
     | Inr (p, rows) \<Rightarrow>
       (case decode_collection_page_metadata result expected_offset request_limit rows stable_cursor of Inl m \<Rightarrow> Inl m
        | Inr meta \<Rightarrow>
          (case measure_page cs result p (stable_cursor = None) of Inl m \<Rightarrow> Inl m
           | Inr pm \<Rightarrow>
             (case admit pm budget of Inl m \<Rightarrow> Inl m
              | Inr budget' \<Rightarrow>
                (case append_page cs aggregate p of Inl m \<Rightarrow> Inl m
                 | Inr aggregate' \<Rightarrow> Inr (aggregate', meta, rows, budget'))))))"

function aggregate_loop :: "('a, 'b, 'p, 'e, 's) Callables \<Rightarrow> 'a \<Rightarrow> string option \<Rightarrow> nat \<Rightarrow> nat \<Rightarrow> CollectionAggregateBudget \<Rightarrow> 's
    \<Rightarrow> ('e ClientFailure + 'a) \<times> 's" where
  "aggregate_loop cs aggregate stable_cursor expected_offset request_limit budget s =
    (case call_page cs s stable_cursor expected_offset request_limit of
       (Inl e, s') \<Rightarrow> (Inl (Call_Failed e), s')
     | (Inr result, s') \<Rightarrow>
         (case accept_page cs result aggregate stable_cursor expected_offset request_limit budget of
            Inl m \<Rightarrow> (Inl (Invalid_Response m), s')
          | Inr (aggregate', meta, rows, budget') \<Rightarrow>
              if \<not> meta_has_more meta then (Inr aggregate', s')
              else aggregate_loop cs aggregate' (meta_cursor meta) (meta_next_offset meta) (min request_limit rows) budget' s'))"
  by pat_completeness auto
termination
  by (relation "measure (\<lambda>(_, _, _, offset, _, _, _). Suc kSnapshotMaxEntries - offset)")
    (auto simp: accept_page_def decode_collection_page_metadata_def Let_def
      split: sum.splits option.splits if_splits prod.splits)

declare aggregate_loop.simps [simp del]

definition aggregate_collection :: "('a, 'b, 'p, 'e, 's) Callables \<Rightarrow> 'a \<Rightarrow> 's \<Rightarrow> ('e ClientFailure + 'a) \<times> 's" where
  "aggregate_collection cs empty_aggregate s = aggregate_loop cs empty_aggregate None 0 kGeneralPageMaxEntries new_budget s"

text \<open>The callables for flat rows (\<^verbatim>\<open>node_collection\<close> with \<^verbatim>\<open>measure_flat_collection_page\<close>): pages are appended,
  every row is one entry.\<close>

definition measure_flat_collection_page :: "('v \<Rightarrow> nat) \<Rightarrow> 'v list \<Rightarrow> string + CollectionPageMeasurement" where
  "measure_flat_collection_page size_of rows =
    (case sum_window 0 (map size_of rows) of Inl _ \<Rightarrow> Inl ''stable collection row byte measurement overflowed''
     | Inr n \<Rightarrow> Inr \<lparr>pm_entries = length rows, pm_rows = length rows, pm_encoded_row_bytes = n, pm_shared_bytes = 0\<rparr>)"

definition flat_callables :: "('s \<Rightarrow> string option \<Rightarrow> nat \<Rightarrow> nat \<Rightarrow> ('e + 'v list WireResult) \<times> 's) \<Rightarrow> ('v \<Rightarrow> nat)
    \<Rightarrow> ('v list, 'v list, 'v list, 'e, 's) Callables" where
  "flat_callables call size_of = \<lparr>call_page = call, decode_page = (\<lambda>r. Inr (body r, length (body r))),
     measure_page = (\<lambda>_ rows _. measure_flat_collection_page size_of rows), append_page = (\<lambda>xs ys. Inr (xs @ ys))\<rparr>"

subsection \<open>Counting the calls\<close>

definition counting :: "('a, 'b, 'p, 'e, 's) Callables \<Rightarrow> ('a, 'b, 'p, 'e, 's \<times> nat) Callables" where
  "counting cs = \<lparr>call_page = (\<lambda>(s, n) c off lim. case call_page cs s c off lim of (r, s') \<Rightarrow> (r, (s', n + 1))),
     decode_page = decode_page cs, measure_page = measure_page cs, append_page = append_page cs\<rparr>"

section \<open>Contracts\<close>

text \<open>A page of a collection as the daemon writes it.\<close>

definition wire_page :: "string \<Rightarrow> nat \<Rightarrow> 'v list \<Rightarrow> bool \<Rightarrow> 'v list WireResult" where
  "wire_page c off rows again = \<lparr>is_object = True,
     members = [''offset'' \<mapsto> J_Unsigned off, ''has_more'' \<mapsto> J_Bool again, ''cursor'' \<mapsto> (if again then J_String c else J_Null)],
     body = rows\<rparr>"

definition fits_budget :: "('v \<Rightarrow> nat) \<Rightarrow> 'v list \<Rightarrow> bool" where
  "fits_budget size_of xs \<longleftrightarrow> length xs \<le> kSnapshotMaxEntries \<and> 2 + joined_bytes (map size_of xs) \<le> kSnapshotMaxBytes"

definition budget_after :: "('v \<Rightarrow> nat) \<Rightarrow> 'v list \<Rightarrow> CollectionAggregateBudget" where
  "budget_after size_of xs = new_budget\<lparr>budget_entries := length xs, budget_rows := length xs,
     budget_encoded_bytes := 2 + joined_bytes (map size_of xs)\<rparr>"

definition admitted_bytes :: "CollectionPageMeasurement \<Rightarrow> CollectionAggregateBudget \<Rightarrow> nat" where
  "admitted_bytes pg b = budget_encoded_bytes b + pm_shared_bytes pg + pm_encoded_row_bytes pg
     + (if pm_rows pg = 0 then 0 else pm_rows pg - 1 + (if budget_rows b = 0 then 0 else 1))"

section \<open>Lemmas\<close>

subsection \<open>The client's budget\<close>

lemma joined_bytes_append:
  "joined_bytes (xs @ ys) = joined_bytes xs + joined_bytes ys + (if xs \<noteq> [] \<and> ys \<noteq> [] then 1 else 0)"
  by (cases xs; cases ys) (auto simp: joined_bytes_def)

lemma add_with_limit_eq: "add_with_limit a b l = (if a + b \<le> l then Some (a + b) else None)"
  by (auto simp: add_with_limit_def)

lemma add_with_limit_Some: "add_with_limit a b l = Some c \<longleftrightarrow> c = a + b \<and> a + b \<le> l"
  by (auto simp: add_with_limit_def)

lemma sum_window_Inr: "sum_window w bs = Inr n \<Longrightarrow> n = w + sum_list bs"
proof (induction bs arbitrary: w)
  case (Cons b bs)
  then have "sum_window (w + b) bs = Inr n" by (auto simp: checked_size_sum_def split: if_splits)
  from Cons.IH [OF this] show ?case by simp
qed simp

lemma admit_complete:
  assumes "budget_entries b + pm_entries pg \<le> maximum_entries b" "budget_rows b + pm_rows pg \<le> size_max"
    "admitted_bytes pg b \<le> maximum_bytes b" "pm_rows pg = 0 \<longrightarrow> pm_encoded_row_bytes pg = 0"
  shows "admit pg b = Inr (b\<lparr>budget_entries := budget_entries b + pm_entries pg, budget_rows := budget_rows b + pm_rows pg,
    budget_encoded_bytes := admitted_bytes pg b\<rparr>)"
proof -
  have "budget_encoded_bytes b + pm_shared_bytes pg + pm_encoded_row_bytes pg \<le> maximum_bytes b"
      "pm_rows pg \<noteq> 0 \<Longrightarrow> budget_encoded_bytes b + pm_shared_bytes pg + pm_encoded_row_bytes pg + (pm_rows pg - 1) \<le> maximum_bytes b"
    using assms(3) by (auto simp: admitted_bytes_def split: if_splits)
  then show ?thesis
    using assms by (cases "pm_rows pg = 0"; cases "budget_rows b = 0") (simp_all add: admit_def add_with_limit_eq admitted_bytes_def)
qed

lemma admit_sound:
  assumes "admit pg b = Inr b'"
  shows "budget_entries b + pm_entries pg \<le> maximum_entries b" "admitted_bytes pg b \<le> maximum_bytes b"
    "b' = b\<lparr>budget_entries := budget_entries b + pm_entries pg, budget_rows := budget_rows b + pm_rows pg,
      budget_encoded_bytes := admitted_bytes pg b\<rparr>"
proof -
  obtain ne nr n0 n1 nb where "add_with_limit (budget_entries b) (pm_entries pg) (maximum_entries b) = Some ne"
      "add_with_limit (budget_rows b) (pm_rows pg) size_max = Some nr"
      "add_with_limit (budget_encoded_bytes b) (pm_shared_bytes pg) (maximum_bytes b) = Some n0"
      "add_with_limit n0 (pm_encoded_row_bytes pg) (maximum_bytes b) = Some n1"
      "(if pm_rows pg = 0 then Some n1
        else Option.bind (add_with_limit n1 (pm_rows pg - 1) (maximum_bytes b))
          (\<lambda>n'. if budget_rows b = 0 then Some n' else add_with_limit n' 1 (maximum_bytes b))) = Some nb"
      "b' = b\<lparr>budget_entries := ne, budget_rows := nr, budget_encoded_bytes := nb\<rparr>"
    using assms unfolding admit_def by (clarsimp simp: bind_eq_Some_conv split: if_split_asm option.split_asm)
  then show "budget_entries b + pm_entries pg \<le> maximum_entries b" "admitted_bytes pg b \<le> maximum_bytes b"
    "b' = b\<lparr>budget_entries := budget_entries b + pm_entries pg, budget_rows := budget_rows b + pm_rows pg,
      budget_encoded_bytes := admitted_bytes pg b\<rparr>"
    by (auto simp: add_with_limit_Some admitted_bytes_def bind_eq_Some_conv split: if_splits)
qed

lemma flat_admit:
  assumes "measure_flat_collection_page size_of ys = Inr pm"
  shows "admit pm (budget_after size_of xs) = Inr b \<longleftrightarrow> fits_budget size_of (xs @ ys) \<and> b = budget_after size_of (xs @ ys)"
proof -
  have pm: "pm = \<lparr>pm_entries = length ys, pm_rows = length ys, pm_encoded_row_bytes = sum_list (map size_of ys), pm_shared_bytes = 0\<rparr>"
    using assms by (auto simp: measure_flat_collection_page_def dest!: sum_window_Inr split: sum.splits)
  have bytes: "admitted_bytes pm (budget_after size_of xs) = 2 + joined_bytes (map size_of (xs @ ys))"
    by (cases xs; cases ys) (simp_all add: admitted_bytes_def pm budget_after_def new_budget_def joined_bytes_def)
  show ?thesis
  proof
    assume "admit pm (budget_after size_of xs) = Inr b"
    from admit_sound [OF this] show "fits_budget size_of (xs @ ys) \<and> b = budget_after size_of (xs @ ys)"
      unfolding bytes by (simp add: fits_budget_def pm budget_after_def new_budget_def)
  next
    assume f: "fits_budget size_of (xs @ ys) \<and> b = budget_after size_of (xs @ ys)"
    then have "length xs + length ys \<le> kSnapshotMaxEntries" "2 + joined_bytes (map size_of (xs @ ys)) \<le> kSnapshotMaxBytes"
      by (simp_all add: fits_budget_def)
    then have "admit pm (budget_after size_of xs) = Inr ((budget_after size_of xs)\<lparr>
        budget_entries := length xs + length ys, budget_rows := length xs + length ys,
        budget_encoded_bytes := 2 + joined_bytes (map size_of (xs @ ys))\<rparr>)"
      using admit_complete [of "budget_after size_of xs" pm] unfolding bytes
      by (simp add: pm budget_after_def new_budget_def kSnapshotMaxEntries_def)
    then show "admit pm (budget_after size_of xs) = Inr b"
      using f by (simp add: budget_after_def new_budget_def)
  qed
qed

lemma flat_measure:
  assumes "fits_budget size_of (xs @ ys)"
  shows "\<exists>pm. measure_flat_collection_page size_of ys = Inr pm"
proof -
  have "0 + sum_list (map size_of ys) \<le> size_t_max"
    using assms by (simp add: fits_budget_def joined_bytes_def kSnapshotMaxBytes_def)
  from sum_window_spec [OF this] show ?thesis by (simp add: measure_flat_collection_page_def)
qed

subsection \<open>The client's loop\<close>

lemma accept_page_progress:
  assumes "accept_page cs result agg cur off lim b = Inr (agg', meta, rows, b')"
  shows "meta_next_offset meta = off + rows" "off + rows \<le> kSnapshotMaxEntries" "rows \<le> lim" "meta_has_more meta \<Longrightarrow> 0 < rows"
  using assms by (auto simp: accept_page_def decode_collection_page_metadata_def Let_def split: sum.splits option.splits if_splits prod.splits)

lemma aggregate_loop_counted:
  "snd (snd (aggregate_loop (counting cs) agg cur off lim b (s, n))) \<le> n + 1 + (kSnapshotMaxEntries - off)"
proof (induction "counting cs" agg cur off lim b "(s, n)" arbitrary: s n rule: aggregate_loop.induct)
  case (1 agg cur off lim b s n)
  obtain r s' where c: "call_page cs s cur off lim = (r, s')" by (cases "call_page cs s cur off lim")
  have call: "call_page (counting cs) (s, n) cur off lim = (r, (s', n + 1))" by (simp add: counting_def c)
  note step = aggregate_loop.simps [of "counting cs" agg cur off lim b "(s, n)", unfolded call prod.case]
  show ?case
  proof (cases r)
    case (Inl e)
    then show ?thesis by (simp add: step)
  next
    case (Inr result)
    show ?thesis
    proof (cases "accept_page (counting cs) result agg cur off lim b")
      case (Inl m)
      then show ?thesis using Inr by (simp add: step)
    next
      case acc: (Inr q)
      obtain agg' meta rows b' where q: "q = (agg', meta, rows, b')" by (cases q)
      note pr = accept_page_progress [OF acc [unfolded q]]
      show ?thesis
      proof (cases "meta_has_more meta")
        case True
        then have "aggregate_loop (counting cs) agg cur off lim b (s, n)
            = aggregate_loop (counting cs) agg' (meta_cursor meta) (meta_next_offset meta) (min lim rows) b' (s', n + 1)"
          using Inr acc q by (simp add: step)
        moreover have "snd (snd \<dots>) \<le> (n + 1) + 1 + (kSnapshotMaxEntries - meta_next_offset meta)"
          by (rule 1 [OF call [symmetric] Inr acc q [symmetric] refl refl]) (use True in simp)
        ultimately show ?thesis using pr True by simp
      next
        case False
        then show ?thesis using Inr acc q by (simp add: step)
      qed
    qed
  qed
qed

text \<open>The result of the flat aggregation stays within the client's limits, whatever the server sends.\<close>

lemma flat_accept:
  assumes "accept_page (flat_callables call size_of) result xs cur off lim (budget_after size_of xs) = Inr (xs', meta, rows, b')"
  shows "xs' = xs @ body result \<and> fits_budget size_of xs' \<and> b' = budget_after size_of xs'"
  using assms by (auto simp: accept_page_def flat_callables_def flat_admit split: sum.splits)

lemma aggregate_loop_flat_bounded:
  "fst (aggregate_loop (flat_callables call size_of) xs cur off lim (budget_after size_of xs) s) = Inr ys \<Longrightarrow> fits_budget size_of ys"
proof (induction "flat_callables call size_of" xs cur off lim "budget_after size_of xs" s rule: aggregate_loop.induct)
  case (1 xs cur off lim s)
  note step = aggregate_loop.simps [of "flat_callables call size_of" xs cur off lim "budget_after size_of xs" s]
  obtain r s' where c: "call_page (flat_callables call size_of) s cur off lim = (r, s')"
    by (cases "call_page (flat_callables call size_of) s cur off lim")
  obtain result where r: "r = Inr result" using 1(2) c by (cases r) (auto simp: step)
  obtain xs' meta rows b' where acc: "accept_page (flat_callables call size_of) result xs cur off lim (budget_after size_of xs) = Inr (xs', meta, rows, b')"
    using 1(2) c r by (cases "accept_page (flat_callables call size_of) result xs cur off lim (budget_after size_of xs)") (auto simp: step)
  note fl = flat_accept [OF acc]
  show ?case
  proof (cases "meta_has_more meta")
    case True
    then have "fst (aggregate_loop (flat_callables call size_of) xs' (meta_cursor meta) (meta_next_offset meta) (min lim rows) b' s') = Inr ys"
      using 1(2) c r acc by (simp add: step)
    with True fl show ?thesis using 1(1) [of r s' result "(xs', meta, rows, b')" xs' "(meta, rows, b')" meta "(rows, b')" rows] c r acc by simp
  next
    case False
    then show ?thesis using 1(2) c r acc fl by (auto simp: step)
  qed
qed

subsection \<open>A server that keeps its promise\<close>

locale page_server =
  fixes call :: "'s \<Rightarrow> string option \<Rightarrow> nat \<Rightarrow> nat \<Rightarrow> ('e + 'v list WireResult) \<times> 's"
    and serving :: "'s \<Rightarrow> string \<Rightarrow> 'v list \<Rightarrow> nat \<Rightarrow> bool"
  assumes serving_cursor: "serving s c xs k \<Longrightarrow> valid_opaque_id c \<and> k < length xs"
    and serving_page: "serving s c xs k \<Longrightarrow> 1 \<le> lim \<Longrightarrow> lim \<le> kGeneralPageMaxEntries \<Longrightarrow>
      \<exists>n s'. 1 \<le> n \<and> n \<le> lim \<and> k + n \<le> length xs
        \<and> call s (Some c) k lim = (Inr (wire_page c k (take n (drop k xs)) (k + n < length xs)), s')
        \<and> (k + n < length xs \<longrightarrow> serving s' c xs (k + n))"
begin

lemma accept_wire_page:
  assumes "valid_opaque_id c" "cur = None \<or> cur = Some c" "fits_budget size_of xs" "k + n \<le> length xs"
    "n \<le> lim" "1 \<le> lim" "lim \<le> kGeneralPageMaxEntries" "k + n < length xs \<longrightarrow> 1 \<le> n"
  shows "accept_page (flat_callables call size_of) (wire_page c k (take n (drop k xs)) (k + n < length xs)) (take k xs) cur k lim
      (budget_after size_of (take k xs))
    = Inr (take (k + n) xs, \<lparr>meta_offset = k, meta_next_offset = k + n, meta_has_more = k + n < length xs,
        meta_cursor = (if k + n < length xs then Some c else None)\<rparr>, n, budget_after size_of (take (k + n) xs))"
proof -
  have tk: "take k xs @ take n (drop k xs) = take (k + n) xs" by (simp add: take_add)
  have fit: "fits_budget size_of (take (k + n) xs)"
    using assms(3) joined_bytes_sublist [of "k + n" 0 "map size_of xs"] by (auto simp: fits_budget_def take_map)
  obtain pm where pm: "measure_flat_collection_page size_of (take n (drop k xs)) = Inr pm"
    using flat_measure [of size_of "take k xs" "take n (drop k xs)"] fit tk by auto
  have "admit pm (budget_after size_of (take k xs)) = Inr (budget_after size_of (take (k + n) xs))"
    using flat_admit [OF pm, of "take k xs"] fit tk by simp
  moreover have "length (take n (drop k xs)) = n" "k + n \<le> kSnapshotMaxEntries" using assms(3,4) by (auto simp: fits_budget_def)
  moreover have "k \<le> size_max" using calculation(3) by (simp add: kSnapshotMaxEntries_def)
  ultimately show ?thesis
    using assms pm tk
    by (auto simp: accept_page_def flat_callables_def wire_page_def decode_collection_page_metadata_def has_bool_def Let_def)
qed

lemma loop_collects:
  assumes "serving s c xs k" "fits_budget size_of xs" "1 \<le> lim" "lim \<le> kGeneralPageMaxEntries"
  shows "\<exists>s'. aggregate_loop (flat_callables call size_of) (take k xs) (Some c) k lim (budget_after size_of (take k xs)) s = (Inr xs, s')"
  using assms
proof (induction "length xs - k" arbitrary: k lim s rule: less_induct)
  case less
  obtain n s1 where n: "1 \<le> n" "n \<le> lim" "k + n \<le> length xs"
      "call s (Some c) k lim = (Inr (wire_page c k (take n (drop k xs)) (k + n < length xs)), s1)"
      "k + n < length xs \<longrightarrow> serving s1 c xs (k + n)"
    using serving_page [OF less(2,4,5)] by auto
  have c: "valid_opaque_id c" "k < length xs" using serving_cursor [OF less(2)] by simp_all
  note acc = accept_wire_page [OF c(1) disjI2 [OF refl] less(3) n(3,2) less(4,5), simplified n(1)]
  have call: "call_page (flat_callables call size_of) s (Some c) k lim
      = (Inr (wire_page c k (take n (drop k xs)) (k + n < length xs)), s1)"
    using n(4) by (simp add: flat_callables_def)
  note step = aggregate_loop.simps [of "flat_callables call size_of" "take k xs" "Some c" k lim "budget_after size_of (take k xs)" s,
    unfolded call prod.case sum.case]
  show ?case
  proof (cases "k + n < length xs")
    case True
    have "\<exists>s'. aggregate_loop (flat_callables call size_of) (take (k + n) xs) (Some c) (k + n) (min lim n)
        (budget_after size_of (take (k + n) xs)) s1 = (Inr xs, s')"
      using n c True less(3,5) by (intro less(1)) auto
    then show ?thesis using acc True n(1) by (simp add: step)
  next
    case False
    then show ?thesis using acc n(1,3) by (simp add: step)
  qed
qed

end

text \<open>A server that also opens the collection on the first call.\<close>

locale page_opening = page_server call serving
  for call :: "'s \<Rightarrow> string option \<Rightarrow> nat \<Rightarrow> nat \<Rightarrow> ('e + 'v list WireResult) \<times> 's"
    and serving :: "'s \<Rightarrow> string \<Rightarrow> 'v list \<Rightarrow> nat \<Rightarrow> bool" +
  fixes opens :: "'s \<Rightarrow> 'v list \<Rightarrow> bool"
  assumes opens_page: "opens s xs \<Longrightarrow> 1 \<le> lim \<Longrightarrow> lim \<le> kGeneralPageMaxEntries \<Longrightarrow>
      \<exists>n c s'. n \<le> lim \<and> n \<le> length xs \<and> (n < length xs \<longrightarrow> 1 \<le> n) \<and> valid_opaque_id c
        \<and> call s None 0 lim = (Inr (wire_page c 0 (take n xs) (n < length xs)), s')
        \<and> (n < length xs \<longrightarrow> serving s' c xs n)"
begin

theorem collects:
  assumes "opens s xs" "fits_budget size_of xs"
  shows "\<exists>s'. aggregate_collection (flat_callables call size_of) [] s = (Inr xs, s')"
proof -
  have lim: "1 \<le> kGeneralPageMaxEntries" by (simp add: kGeneralPageMaxEntries_def)
  obtain n c s1 where n: "n \<le> kGeneralPageMaxEntries" "n \<le> length xs" "n < length xs \<longrightarrow> 1 \<le> n" "valid_opaque_id c"
      "call s None 0 kGeneralPageMaxEntries = (Inr (wire_page c 0 (take n xs) (n < length xs)), s1)"
      "n < length xs \<longrightarrow> serving s1 c xs n"
    using opens_page [OF assms(1) lim] by auto
  have b: "new_budget = budget_after size_of (take 0 xs)" by (simp add: budget_after_def new_budget_def joined_bytes_def)
  note acc = accept_wire_page [of c None size_of xs 0 n kGeneralPageMaxEntries]
  have call: "call_page (flat_callables call size_of) s None 0 kGeneralPageMaxEntries
      = (Inr (wire_page c 0 (take n xs) (n < length xs)), s1)"
    using n(5) by (simp add: flat_callables_def)
  note step = aggregate_loop.simps [of "flat_callables call size_of" "[]" None 0 kGeneralPageMaxEntries "budget_after size_of []" s,
    unfolded call prod.case sum.case]
  show ?thesis
  proof (cases "n < length xs")
    case True
    have "\<exists>s'. aggregate_loop (flat_callables call size_of) (take n xs) (Some c) n (min kGeneralPageMaxEntries n)
        (budget_after size_of (take n xs)) s1 = (Inr xs, s')"
      using n True assms(2) by (intro loop_collects) auto
    then show ?thesis using acc n lim assms(2) True by (simp add: aggregate_collection_def b step)
  next
    case False
    then show ?thesis using acc n lim assms(2) by (simp add: aggregate_collection_def b step)
  qed
qed

end

subsection \<open>The daemon keeps the promise\<close>

definition daemon_ready :: "'v Surroundings \<Rightarrow> 'v CollectionSnapshotRegistry \<Rightarrow> bool" where
  "daemon_ready env g \<longleftrightarrow> registry_inv g \<and> kGeneralPageMaxEntries \<le> page_entries (limits g)"

definition daemon_serving :: "'v Surroundings \<Rightarrow> CollectionSnapshotBinding \<Rightarrow> 'v Daemon \<Rightarrow> string \<Rightarrow> 'v list \<Rightarrow> nat \<Rightarrow> bool" where
  "daemon_serving env b d c xs k \<longleftrightarrow> (case d of (g, t) \<Rightarrow> daemon_ready env g \<and> length xs \<le> kSnapshotMaxEntries
     \<and> (\<exists>r. (c, r) \<in> set (records g) \<and> record_entries r = xs \<and> next_offset r = k \<and> record_binding r = b
          \<and> record_type r = row_type_name env \<and> (\<forall>i \<ge> t. clock env i < expires_at r)))"

text \<open>The daemon can open the collection: it admits the reservation, the host answers, the rows are
  within every bound, the cursor source is good and the pages are read before the record expires.\<close>

definition daemon_opens :: "'v Surroundings \<Rightarrow> CollectionSnapshotBinding \<Rightarrow> 'v Daemon \<Rightarrow> 'v list \<Rightarrow> bool" where
  "daemon_opens env b d xs \<longleftrightarrow> (case d of (g, t) \<Rightarrow> daemon_ready env g \<and> accepting g
     \<and> length (records g) + length (reservations g) < max_records (limits g)
     \<and> retained_bytes g + reserved_bytes g + reservation_bytes (limits g) \<le> total_bytes (limits g)
     \<and> host_rows env = Inr xs \<and> length xs \<le> snapshot_entries (limits g)
     \<and> fits_budget (row_size env) xs \<and> 2 + joined_bytes (map (row_size env) xs) \<le> snapshot_bytes (limits g)
     \<and> empty_response_size env \<le> kMaximumFramePayloadBytes
     \<and> (\<forall>r \<in> set xs. empty_response_size env + row_size env r \<le> kMaximumFramePayloadBytes)
     \<and> valid_opaque_id (id_generator env 0) \<and> map_of (records g) (id_generator env 0) = None
     \<and> (\<forall>i > t. clock env i < expiration_at (clock env (t + 1)) (limits g)))"

lemma add_metadata_wire:
  "page_cursor pg = (if has_more pg then Some c else None) \<Longrightarrow>
    add_collection_page_metadata pg = wire_page c (page_offset pg) (page_rows pg) (has_more pg)"
  by (simp add: add_collection_page_metadata_def wire_page_def)

lemma route_continuation:
  assumes "daemon_serving env b d c xs k" "1 \<le> lim" "lim \<le> kGeneralPageMaxEntries"
  shows "\<exists>n d'. 1 \<le> n \<and> n \<le> lim \<and> k + n \<le> length xs
    \<and> route_collection env b d (Some c) k lim = (Inr (wire_page c k (take n (drop k xs)) (k + n < length xs)), d')
    \<and> (k + n < length xs \<longrightarrow> daemon_serving env b d' c xs (k + n))"
proof -
  obtain g t where d: "d = (g, t)" by (cases d)
  obtain r where r: "(c, r) \<in> set (records g)" "record_entries r = xs" "next_offset r = k" "record_binding r = b"
      "record_type r = row_type_name env" "\<forall>i \<ge> t. clock env i < expires_at r"
    and g: "registry_inv g" "kGeneralPageMaxEntries \<le> page_entries (limits g)" "length xs \<le> kSnapshotMaxEntries"
    using assms(1) by (auto simp: daemon_serving_def daemon_ready_def d)
  have rok: "valid_opaque_id c" "k < length xs" "0 < page_entry_limit r"
    using g(1) r by (auto simp: registry_inv_def list_all_iff record_ok_def)
  obtain pg g' where eq: "page (clock env t) (row_type_name env) c b k lim g = (pg, g')"
    by (cases "page (clock env t) (row_type_name env) c b k lim g")
  have g': "registry_inv g'" by (rule registry_inv_page [OF g(1) eq])
  have uniq: "r' = r" if "(c, r') \<in> set (records g)" for r'
    using g(1) r(1) that by (auto simp: registry_inv_def dest: eq_key_imp_eq_value)
  from g(1) eq show ?thesis
  proof (cases rule: page_cases)
    case invalid
    then show ?thesis using rok assms(2,3) g(2,3) by (auto simp: kSnapshotMaxEntries_def kGeneralPageMaxEntries_def)
  next
    case absent
    then show ?thesis using r by blast
  next
    case (more r' n)
    then have [simp]: "r' = r" using uniq by simp
    have "(c, r) \<in> set (records (expire_locked (clock env t) g))" using g(1) more(1,2) by (auto simp: registry_inv_def records_expire)
    then have "(c, r\<lparr>next_offset := k + n\<rparr>) \<in> set (records g')"
      using more(10) by (force simp: image_iff)
    moreover have "limits g' = limits g" using more(10) by simp
    ultimately have "daemon_serving env b (g', t + 1) c xs (k + n)"
      using g g' r more(3,4) by (auto simp: daemon_serving_def daemon_ready_def intro!: exI [of _ "r\<lparr>next_offset := k + n\<rparr>"])
    moreover have "route_collection env b d (Some c) k lim = (Inr (wire_page c k (take n (drop k xs)) True), (g', t + 1))"
      using eq more(9) r by (simp add: route_collection_def continuation_def d empty_page_def add_metadata_wire [of _ c])
    ultimately show ?thesis using more r by (intro exI [of _ n]) auto
  next
    case (final r')
    then have [simp]: "r' = r" using uniq by simp
    have "route_collection env b d (Some c) k lim = (Inr (wire_page c k (drop k xs) False), (g', t + 1))"
      using eq final(7) r by (simp add: route_collection_def continuation_def d empty_page_def add_metadata_wire [of _ c])
    then show ?thesis using final rok r assms(2) by (intro exI [of _ "length xs - k"]) auto
  qed
qed

text \<open>A publication with an active reservation, rows within the limits and a good first cursor is accepted.\<close>

lemma publish_accepts:
  assumes "registry_inv g" "active rv g" "1 \<le> pub_page_limit p" "pub_page_limit p \<le> page_entries (limits g)"
    and "1 \<le> pub_retained_page_limit p" "length (pub_entries p) \<le> pub_measured_entries p"
    and "pub_measured_entries p \<le> snapshot_entries (limits g)" "pub_measured_bytes p \<le> snapshot_bytes (limits g)"
    and "valid_opaque_id (gen 0)" "map_of (records g) (gen 0) = None" "publish gen now rv p g = (res, g')"
  shows "\<exists>pg. res = Inr pg \<and> page_error pg = NoError \<and> (\<forall>c. page_cursor pg = Some c \<longrightarrow> c = gen 0)"
proof -
  let ?l = "limits g" and ?n = "first_count (limits g) p"
  have lim: "reserved_bytes g = length (reservations g) * reservation_bytes ?l"
      "retained_bytes g + reserved_bytes g \<le> total_bytes ?l" "snapshot_bytes ?l \<le> reservation_bytes ?l"
    using assms(1) by (auto simp: registry_inv_def invalid_limits_def)
  let ?g1 = "g\<lparr>records := (gen 0, publication_record now p ?l) # records g\<rparr>"
  have act: "active rv ?g1" using assms(2) by (simp add: active_def reservation_active_def)
  have c0: "fst (consume_reservation_locked rv 0 g)" using consume_spec [OF lim(1,2), of 0 rv] assms(2) by simp
  have c1: "fst (consume_reservation_locked rv (pub_measured_bytes p) ?g1)"
    using consume_spec [of ?g1 "pub_measured_bytes p" rv] lim assms(8) act by simp
  have pick: "pick_cursor 128 gen g = Inr (gen 0)" using assms(9,10) by (simp add: eval_nat_numeral)
  show ?thesis
    using assms(2-8,11) c0 c1 pick
    by (cases "consume_reservation_locked rv 0 g"; cases "consume_reservation_locked rv (pub_measured_bytes p) ?g1")
      (auto simp: publish_def publish_body_def Let_def empty_page_def active_def reservation_active_def split: if_splits)
qed

lemma retained_sum_filter_le: "retained_sum (filter P rs) \<le> retained_sum rs"
  by (induction rs) auto

lemma expire_shrinks:
  assumes "registry_inv g"
  shows "length (records (expire_locked now g)) \<le> length (records g)" "retained_bytes (expire_locked now g) \<le> retained_bytes g"
    "map_of (records g) c = None \<Longrightarrow> map_of (records (expire_locked now g)) c = None"
proof -
  have f: "records (expire_locked now g) = filter (\<lambda>(_, r). now < expires_at r) (records g)"
    using assms by (simp add: registry_inv_def records_expire)
  then show "length (records (expire_locked now g)) \<le> length (records g)" by simp
  show "retained_bytes (expire_locked now g) \<le> retained_bytes g"
    using assms registry_inv_expire [OF assms] f by (simp add: registry_inv_def retained_sum_filter_le)
  show "map_of (records (expire_locked now g)) c = None" if "map_of (records g) c = None"
    using that f by (auto simp: map_of_eq_None_iff)
qed

lemma reserve_limits: "limits (snd (reserve now g)) = limits g"
  by (auto simp: reserve_def Let_def split: prod.splits)

lemma reserve_admits:
  assumes inv: "registry_inv g" and acc: "accepting g"
    and room: "length (records g) + length (reservations g) < max_records (limits g)"
      "retained_bytes g + reserved_bytes g + reservation_bytes (limits g) \<le> total_bytes (limits g)"
  obtains rv g1 where "reserve now g = (Inr (NoError, rv), g1)" "registry_inv g1" "limits g1 = limits g"
    "records g1 = records (expire_locked now g)" "active rv g1"
proof -
  obtain res g1 where eq: "reserve now g = (res, g1)" by (cases "reserve now g")
  note sp = reserve_spec [OF inv eq]
  have lim: "limits g1 = limits g" using reserve_limits [of now g] eq by simp
  obtain e rv where e: "res = Inr (e, rv)" using sp by auto
  have "e = NoError" using sp e acc room expire_shrinks(1,2) [OF inv, of now] by auto
  with sp e eq lim show ?thesis by (intro that [of rv g1]) (auto simp: active_def reservation_active_def)
qed

lemma measured_limit_pos:
  assumes "measure_collection_rows enc header rows lim entries = Inr m" "1 \<le> lim"
  shows "1 \<le> measured_page_limit m" "measured_entries m = entries"
proof -
  have "1 \<le> measured_page_limit m \<and> measured_entries m = entries"
  proof (cases "rows = []")
    case True
    then show ?thesis using assms by (auto simp: measure_collection_rows_def Let_def split: if_splits sum.splits)
  next
    case False
    from assms(1) False show ?thesis by (rule measure_collection_rows_cases) simp
  qed
  then show "1 \<le> measured_page_limit m" "measured_entries m = entries" by simp_all
qed

lemma route_first:
  assumes "daemon_opens env b d xs" "1 \<le> lim" "lim \<le> kGeneralPageMaxEntries"
  shows "\<exists>n c d'. n \<le> lim \<and> n \<le> length xs \<and> (n < length xs \<longrightarrow> 1 \<le> n) \<and> valid_opaque_id c
    \<and> route_collection env b d None 0 lim = (Inr (wire_page c 0 (take n xs) (n < length xs)), d')
    \<and> (n < length xs \<longrightarrow> daemon_serving env b d' c xs n)"
proof -
  obtain g t where d: "d = (g, t)" by (cases d)
  let ?c = "id_generator env 0"
  have o: "registry_inv g" "kGeneralPageMaxEntries \<le> page_entries (limits g)" "accepting g"
      "length (records g) + length (reservations g) < max_records (limits g)"
      "retained_bytes g + reserved_bytes g + reservation_bytes (limits g) \<le> total_bytes (limits g)"
      "host_rows env = Inr xs" "length xs \<le> snapshot_entries (limits g)" "valid_opaque_id ?c" "map_of (records g) ?c = None"
      "\<forall>i > t. clock env i < expiration_at (clock env (t + 1)) (limits g)"
    using assms(1) by (auto simp: daemon_opens_def daemon_ready_def d)
  obtain rv g1 where rs: "reserve (clock env t) g = (Inr (NoError, rv), g1)" "registry_inv g1" "limits g1 = limits g"
      "records g1 = records (expire_locked (clock env t) g)" "active rv g1"
    by (rule reserve_admits [OF o(1,3,4,5)])
  obtain m where m: "measure_collection_rows (row_size env) (empty_response_size env) xs lim (length xs) = Inr m"
      "measured_array_bytes m \<le> snapshot_bytes (limits g)"
    using assms(1) measure_collection_rows_succeeds [of "length xs" xs "empty_response_size env" "row_size env" lim]
    by (auto simp: daemon_opens_def fits_budget_def d)
  note mp = measured_limit_pos [OF m(1) assms(2)]
  define p where "p = \<lparr>pub_type = row_type_name env, pub_binding = b, pub_entries = xs, pub_measured_entries = measured_entries m,
    pub_measured_bytes = measured_array_bytes m, pub_page_limit = lim, pub_retained_page_limit = measured_page_limit m\<rparr>"
  obtain res g2 where pu: "publish (id_generator env) (clock env (t + 1)) rv p g1 = (res, g2)"
    by (cases "publish (id_generator env) (clock env (t + 1)) rv p g1")
  have fresh: "map_of (records g1) ?c = None" using expire_shrinks(3) [OF o(1,9)] rs(4) by simp
  obtain pg where pg: "res = Inr pg" "page_error pg = NoError" "\<forall>c. page_cursor pg = Some c \<longrightarrow> c = ?c"
    using publish_accepts [OF rs(2,5) _ _ _ _ _ _ o(8) fresh pu] assms(2,3) o(2,7) m(2) mp rs(3) by (auto simp: p_def)
  have route: "route_collection env b d None 0 lim = (Inr (add_collection_page_metadata pg), (g2, t + 2))"
    using rs(1) o(6) m(1) pu pg by (simp add: route_collection_def first_page_def d p_def)
  let ?n = "first_count (limits g1) p"
  from rs(2) pu show ?thesis
  proof (cases rule: snapshot_publish_cases)
    case refused
    then show ?thesis using pg by (auto simp: rejected_def)
  next
    case single
    have "?n \<le> lim" by (simp add: first_count_def p_def)
    then have n: "length xs \<le> lim" using single(3) by (simp add: p_def)
    have "pub_entries p = xs" by (simp add: p_def)
    then have "pg = empty_page\<lparr>page_rows := xs\<rparr>" using single(4) pg(1) by simp
    then have v: "page_cursor pg = (if has_more pg then Some ?c else None)" "page_offset pg = 0" "page_rows pg = xs" "\<not> has_more pg"
      by (simp_all add: empty_page_def)
    have w: "add_collection_page_metadata pg = wire_page ?c 0 xs False" using add_metadata_wire [OF v(1)] v(2-4) by simp
    show ?thesis using route w n o(8)
      by (intro exI [of _ "length xs"] exI [of _ ?c] exI [of _ "(g2, t + 2)"]) simp
  next
    case (stored c)
    then have c: "c = ?c" using pg by (simp add: empty_page_def)
    have g2: "registry_inv g2" by (rule registry_inv_publish [OF rs(2) pu])
    have lim: "?n \<le> lim" "length xs \<le> kSnapshotMaxEntries"
      using m(1) by (auto simp: first_count_def p_def measure_collection_rows_def split: if_splits)
    let ?r = "publication_record (clock env (t + 1)) p (limits g1)"
    have "limits g2 = limits g" "(c, ?r) \<in> set (records g2)" using stored(9) rs(3) by simp_all
    moreover have "record_entries ?r = xs" "next_offset ?r = ?n" "record_binding ?r = b" "record_type ?r = row_type_name env"
        "\<forall>i \<ge> t + 2. clock env i < expires_at ?r"
      using o(10) rs(3) by (simp_all add: publication_record_def p_def)
    ultimately have "daemon_serving env b (g2, t + 2) c xs ?n"
      using g2 o(2) lim(2) unfolding daemon_serving_def daemon_ready_def prod.case by metis
    moreover have "add_collection_page_metadata pg = wire_page c 0 (take ?n xs) True"
    proof -
      have "pub_entries p = xs" by (simp add: p_def)
      then have "pg = empty_page\<lparr>page_rows := take ?n xs, has_more := True, page_cursor := Some c\<rparr>" using stored(8) pg(1) by simp
      then have v: "page_cursor pg = (if has_more pg then Some c else None)" "page_offset pg = 0" "page_rows pg = take ?n xs" "has_more pg"
        by (simp_all add: empty_page_def)
      show ?thesis using add_metadata_wire [OF v(1)] v(2-4) by simp
    qed
    moreover have "1 \<le> ?n" "?n < length xs" using stored(6,7) by (simp_all add: p_def)
    ultimately show ?thesis using route lim(1) stored(3)
      by (intro exI [of _ ?n] exI [of _ c] exI [of _ "(g2, t + 2)"]) simp
  qed
qed

interpretation daemon: page_opening "route_collection env b" "daemon_serving env b" "daemon_opens env b"
  for env :: "'v Surroundings" and b
proof unfold_locales
  fix s c and xs :: "'v list" and k
  assume s: "daemon_serving env b s c xs k"
  then show "valid_opaque_id c \<and> k < length xs"
    by (auto simp: daemon_serving_def daemon_ready_def registry_inv_def list_all_iff record_ok_def)
qed (rule route_continuation route_first; assumption)+

subsection \<open>A sample conversation\<close>

text \<open>Three rows of eight million bytes: two fit one frame, so the client needs two pages.\<close>

definition demo_env :: "nat Surroundings" where
  "demo_env = \<lparr>id_generator = (\<lambda>_. demo_cursor), clock = (\<lambda>t. int t mod 5), host_rows = Inr [8000000, 8000000, 8000000],
     row_size = (\<lambda>n. n), empty_response_size = 100, row_type_name = ''nat''\<rparr>"

definition demo_daemon_limits :: CollectionSnapshotLimits where
  "demo_daemon_limits = \<lparr>max_records = 64, total_bytes = 268435456, reservation_bytes = 67108864, snapshot_entries = 262144,
     snapshot_bytes = 67108864, page_entries = 4096, ttl = 900\<rparr>"

definition demo_daemon :: "nat Daemon" where
  "demo_daemon = (\<lparr>limits = demo_daemon_limits, records = [], reservations = [], retained_bytes = 0, reserved_bytes = 0,
     next_reservation_token = 1, accepting = True\<rparr>, 0)"

lemma demo_daemon_opens: "daemon_opens demo_env demo_binding demo_daemon [8000000, 8000000, 8000000]"
proof -
  have clock: "int i mod 5 < 901" for i using pos_mod_bound [of 5 "int i"] by linarith
  show ?thesis
    by (simp add: daemon_opens_def demo_daemon_def demo_env_def daemon_ready_def registry_inv_def demo_daemon_limits_def invalid_limits_def
        kGeneralPageMaxEntries_def fits_budget_def joined_bytes_def kSnapshotMaxEntries_def kSnapshotMaxBytes_def
        kMaximumFramePayloadBytes_def demo_cursor_valid expiration_at_def clock)
qed

section \<open>Properties\<close>

text \<open>
  C15. The client's paging loop ends and stays within its limits against any server. Whatever pages
  the other side returns, correct or not, the client makes at most 262145 calls before it returns a
  value or a failure; and a list it returns has at most 262144 rows, whose compact encoding is at
  most 67108864 bytes.
\<close>

theorem client_loop_bounded:
  "snd (snd (aggregate_collection (counting cs) agg (s, 0))) \<le> 262145
   \<and> (case fst (aggregate_collection (flat_callables call size_of) [] s') of Inl _ \<Rightarrow> True
      | Inr xs \<Rightarrow> length xs \<le> 262144 \<and> 2 + joined_bytes (map size_of xs) \<le> 67108864)"
proof
  show "snd (snd (aggregate_collection (counting cs) agg (s, 0))) \<le> 262145"
    using aggregate_loop_counted [of cs agg None 0 kGeneralPageMaxEntries new_budget s 0]
    by (simp add: aggregate_collection_def kSnapshotMaxEntries_def)
  have b: "new_budget = budget_after size_of []" by (simp add: budget_after_def new_budget_def joined_bytes_def)
  show "case fst (aggregate_collection (flat_callables call size_of) [] s') of Inl _ \<Rightarrow> True
      | Inr xs \<Rightarrow> length xs \<le> 262144 \<and> 2 + joined_bytes (map size_of xs) \<le> 67108864"
    using aggregate_loop_flat_bounded [of call size_of "[]" None 0 kGeneralPageMaxEntries s']
    by (auto simp: aggregate_collection_def b fits_budget_def kSnapshotMaxEntries_def kSnapshotMaxBytes_def split: sum.split)
qed

text \<open>
  C6. A collection arrives complete. When the daemon can open the collection (it admits the
  reservation, the host answers, the rows are within the bounds of frame and snapshot, the cursor
  source is good) and the record does not expire while it is read, the client's loop over the
  daemon's handlers returns exactly the host's rows in order, through as many pages as the frames
  require.
\<close>

theorem collection_arrives_complete:
  assumes "daemon_opens env b d xs"
  shows "\<exists>d'. aggregate_collection (flat_callables (route_collection env b) (row_size env)) [] d = (Inr xs, d')"
proof -
  have "fits_budget (row_size env) xs" using assms by (cases d) (simp add: daemon_opens_def)
  then show ?thesis by (rule daemon.collects [OF assms])
qed

theorem collection_arrives_complete_witness:
  "\<exists>d'. aggregate_collection (flat_callables (route_collection demo_env demo_binding) (row_size demo_env)) [] demo_daemon
     = (Inr [8000000, 8000000, 8000000], d')"
  using collection_arrives_complete [OF demo_daemon_opens] .

end
