(* ===== verification/SessionRegistry.thy ===== *)
theory SessionRegistry
  imports SnapshotRegistry "HOL-Library.AList" "HOL-Library.List_Lexorder" "HOL-Library.Product_Lexorder"
begin

text \<open>
  The daemon's registry of graph sessions (\<^verbatim>\<open>src/lib/ipc/session_registry.cpp\<close> and its header): the five tables between opaque
  session ids, host sessions and display names, the admission counts of host calls and jobs, and the close protocol in which one
  owner closes the host session while every other closer joins its result.

  Every operation holds the registry's mutex, except that \<^verbatim>\<open>begin_close_impl\<close> waits inside it for the admissions to drain:
  it is the two operations before and after the wait. A shared close generation is a cell of a heap, its address the pointer.
  Admissions and close claims are owning handles, kept in the list of handle variables; a moved-from or reset handle is not live.
  The steps of the closing threads follow the handlers of \<^verbatim>\<open>src/lib/ipc/request_router.cpp\<close>.
\<close>

section \<open>Model\<close>

subsection \<open>Statuses\<close>

datatype OperationErrorDomain = NoDomain | GraphDomain | DaemonDomain | OtherDomain

record OperationStatus =
  status_ok :: bool
  status_domain :: OperationErrorDomain
  status_code :: int

definition ok_status :: OperationStatus where
  "ok_status = \<lparr>status_ok = True, status_domain = NoDomain, status_code = 0\<rparr>"

definition failure_status :: "OperationErrorDomain \<Rightarrow> int \<Rightarrow> OperationStatus" where
  "failure_status d c = \<lparr>status_ok = False, status_domain = d, status_code = c\<rparr>"

definition checked_graph_error_code :: "OperationStatus \<Rightarrow> GraphErrc option" where
  "checked_graph_error_code s =
    (if status_ok s \<or> status_domain s \<noteq> GraphDomain then None
     else find (\<lambda>c. int (graph_errc_value c) = status_code s)
       [Unknown, NotFound, Cycle, Io, InvalidYaml, MissingDependency, NoOperation, InvalidParameter, ComputeError])"

definition kInternalErrorCode :: int where
  "kInternalErrorCode = - 32603"

definition internal_error :: OperationStatus where
  "internal_error = failure_status DaemonDomain kInternalErrorCode"

definition session_not_found_status :: OperationStatus where
  "session_not_found_status = failure_status GraphDomain (int (graph_errc_value NotFound))"

definition host_close_not_started_status :: OperationStatus where
  "host_close_not_started_status = internal_error"

text \<open>\<^verbatim>\<open>IpcResult\<close>: a failed status, or the result of an ok one.\<close>

type_synonym 'a IpcResult = "OperationStatus + 'a"

subsection \<open>Data\<close>

datatype LifecycleState = Active | Closing

datatype AdmissionKind = HostCall | Job

datatype CloseState = Idle | Preparing | HostInvoked | Completed | HostCloseNotStarted

record CloseGeneration =
  generation :: u64
  close_state :: CloseState
  participants :: nat
  terminal_status :: OperationStatus

record ActiveEntry =
  host_session :: string
  session_name :: string
  lifecycle :: LifecycleState
  admitted_host_calls :: nat
  admitted_jobs :: nat
  close_generation :: "nat option"

record Admission =
  admission_owned :: bool
  admission_kind :: AdmissionKind
  admission_token :: string
  admission_host :: string

datatype Role = Owner | Joiner

record CloseClaim =
  claim_owned :: bool
  claim_token :: string
  claim_host :: string
  claim_generation :: "nat option"
  claim_role :: Role
  host_close_started :: bool
  host_close_completed :: bool

record SessionRegistry =
  accepting :: bool
  pending_by_token :: "(string \<times> string) list"
  pending_by_name :: "(string \<times> string) list"
  active_by_token :: "(string \<times> ActiveEntry) list"
  active_by_host :: "(string \<times> string) list"
  active_by_name :: "(string \<times> string) list"
  generations :: "CloseGeneration list"

definition new_session_registry :: SessionRegistry where
  "new_session_registry = \<lparr>accepting = True, pending_by_token = [], pending_by_name = [], active_by_token = [],
     active_by_host = [], active_by_name = [], generations = []\<rparr>"

definition new_close_generation :: CloseGeneration where
  "new_close_generation = \<lparr>generation = 0, close_state = Idle, participants = 0,
     terminal_status = host_close_not_started_status\<rparr>"

definition set_entry :: "string \<Rightarrow> ActiveEntry \<Rightarrow> SessionRegistry \<Rightarrow> SessionRegistry" where
  "set_entry t e r = r\<lparr>active_by_token := AList.update t e (active_by_token r)\<rparr>"

definition set_generation :: "nat \<Rightarrow> CloseGeneration \<Rightarrow> SessionRegistry \<Rightarrow> SessionRegistry" where
  "set_generation g c r = r\<lparr>generations := (generations r)[g := c]\<rparr>"

subsection \<open>Loading\<close>

fun pick_token :: "nat \<Rightarrow> (nat \<Rightarrow> string) \<Rightarrow> SessionRegistry \<Rightarrow> string IpcResult" where
  "pick_token 0 gen r = Inl internal_error"
| "pick_token (Suc n) gen r =
    (if \<not> valid_opaque_id (gen 0) then Inl internal_error
     else if map_of (pending_by_token r) (gen 0) \<noteq> None \<or> map_of (active_by_token r) (gen 0) \<noteq> None
     then pick_token n (\<lambda>i. gen (Suc i)) r
     else Inr (gen 0))"

definition reserve :: "(nat \<Rightarrow> string) \<Rightarrow> string \<Rightarrow> SessionRegistry \<Rightarrow> string IpcResult \<times> SessionRegistry" where
  "reserve gen name r =
    (if \<not> accepting r then (Inl session_not_found_status, r)
     else if map_of (pending_by_name r) name \<noteq> None \<or> map_of (active_by_name r) name \<noteq> None
     then (Inl (failure_status GraphDomain (int (graph_errc_value InvalidParameter))), r)
     else case pick_token 128 gen r of
       Inl e \<Rightarrow> (Inl e, r)
     | Inr t \<Rightarrow> (Inr t, r\<lparr>pending_by_token := AList.update t name (pending_by_token r),
                            pending_by_name := AList.update name t (pending_by_name r)\<rparr>))"

definition commit :: "string \<Rightarrow> string \<Rightarrow> SessionRegistry \<Rightarrow> unit IpcResult \<times> SessionRegistry" where
  "commit t host r =
    (case map_of (pending_by_token r) t of
       None \<Rightarrow> (Inl internal_error, r)
     | Some name \<Rightarrow>
        if host = [] \<or> map_of (active_by_host r) host \<noteq> None \<or> map_of (active_by_name r) name \<noteq> None
        then (Inl internal_error, r)
        else let g = length (generations r); r1 = r\<lparr>generations := generations r @ [new_close_generation]\<rparr> in
          if map_of (active_by_token r1) t \<noteq> None then (Inl internal_error, r1)
          else let r2 = set_entry t \<lparr>host_session = host, session_name = name, lifecycle = Active, admitted_host_calls = 0,
                       admitted_jobs = 0, close_generation = Some g\<rparr> r1;
                   r3 = r2\<lparr>active_by_host := AList.update host t (active_by_host r2),
                           active_by_name := AList.update name t (active_by_name r2)\<rparr>
               in (Inr (), r3\<lparr>pending_by_name := AList.delete name (pending_by_name r3),
                              pending_by_token := AList.delete t (pending_by_token r3)\<rparr>))"

definition rollback :: "string \<Rightarrow> SessionRegistry \<Rightarrow> SessionRegistry" where
  "rollback t r =
    (case map_of (pending_by_token r) t of
       None \<Rightarrow> r
     | Some name \<Rightarrow> r\<lparr>pending_by_name := AList.delete name (pending_by_name r),
                      pending_by_token := AList.delete t (pending_by_token r)\<rparr>)"

subsection \<open>Admissions\<close>

definition admitted :: "AdmissionKind \<Rightarrow> ActiveEntry \<Rightarrow> nat" where
  "admitted k e = (case k of HostCall \<Rightarrow> admitted_host_calls e | Job \<Rightarrow> admitted_jobs e)"

definition set_admitted :: "AdmissionKind \<Rightarrow> nat \<Rightarrow> ActiveEntry \<Rightarrow> ActiveEntry" where
  "set_admitted k n e = (case k of HostCall \<Rightarrow> e\<lparr>admitted_host_calls := n\<rparr> | Job \<Rightarrow> e\<lparr>admitted_jobs := n\<rparr>)"

text \<open>\<^verbatim>\<open>admit_host_call\<close> and \<^verbatim>\<open>admit_job\<close>, which differ only in the counter.\<close>

definition admit :: "AdmissionKind \<Rightarrow> string \<Rightarrow> SessionRegistry \<Rightarrow> Admission IpcResult \<times> SessionRegistry" where
  "admit k t r =
    (case map_of (active_by_token r) t of
       None \<Rightarrow> (Inl session_not_found_status, r)
     | Some e \<Rightarrow>
        if \<not> accepting r \<or> lifecycle e \<noteq> Active then (Inl session_not_found_status, r)
        else if admitted k e = size_max then (Inl internal_error, r)
        else (Inr \<lparr>admission_owned = True, admission_kind = k, admission_token = t, admission_host = host_session e\<rparr>,
              set_entry t (set_admitted k (admitted k e + 1) e) r))"

definition release_admission :: "string \<Rightarrow> AdmissionKind \<Rightarrow> SessionRegistry \<Rightarrow> SessionRegistry" where
  "release_admission t k r =
    (case map_of (active_by_token r) t of
       None \<Rightarrow> r
     | Some e \<Rightarrow> if admitted k e = 0 then r else set_entry t (set_admitted k (admitted k e - 1) e) r)"

definition empty_admission :: "AdmissionKind \<Rightarrow> Admission" where
  "empty_admission k = \<lparr>admission_owned = False, admission_kind = k, admission_token = [], admission_host = []\<rparr>"

text \<open>\<^verbatim>\<open>reset\<close>, which the destructors call, and move assignment from another handle.\<close>

definition admission_reset :: "Admission \<Rightarrow> SessionRegistry \<Rightarrow> Admission \<times> SessionRegistry" where
  "admission_reset a r =
    (empty_admission (admission_kind a),
     if admission_owned a then release_admission (admission_token a) (admission_kind a) r else r)"

definition admission_move :: "Admission \<Rightarrow> Admission \<Rightarrow> SessionRegistry \<Rightarrow> (Admission \<times> Admission) \<times> SessionRegistry" where
  "admission_move self other r =
    (let (self0, r1) = admission_reset self r in
     ((self0\<lparr>admission_owned := admission_owned other, admission_token := admission_token other,
            admission_host := admission_host other\<rparr>,
       other\<lparr>admission_owned := False, admission_token := [], admission_host := []\<rparr>), r1))"

subsection \<open>Closing\<close>

datatype close_entry = Joined CloseClaim | Owns_Progression nat

definition make_claim :: "string \<Rightarrow> string \<Rightarrow> nat \<Rightarrow> Role \<Rightarrow> CloseClaim" where
  "make_claim t host g ro = \<lparr>claim_owned = True, claim_token = t, claim_host = host, claim_generation = Some g, claim_role = ro,
     host_close_started = False, host_close_completed = False\<rparr>"

text \<open>\<^verbatim>\<open>begin_close_impl\<close> up to its wait; a joiner returns at once.\<close>

definition begin_close_enter :: "string \<Rightarrow> bool \<Rightarrow> SessionRegistry \<Rightarrow> close_entry IpcResult \<times> SessionRegistry" where
  "begin_close_enter t allow_stopped_admission r =
    (case map_of (active_by_token r) t of
       None \<Rightarrow> (Inl session_not_found_status, r)
     | Some e \<Rightarrow>
        if \<not> accepting r \<and> \<not> allow_stopped_admission then (Inl session_not_found_status, r)
        else case close_generation e of
          None \<Rightarrow> (Inl internal_error, r)
        | Some g \<Rightarrow>
           let c = generations r ! g;
               join = (if participants c = size_max then (Inl internal_error, r)
                       else (Inr (Joined (make_claim t (host_session e) g Joiner)),
                             set_generation g (c\<lparr>participants := participants c + 1\<rparr>) r)) in
           if lifecycle e = Active then
             (if close_state c = HostCloseNotStarted \<and> participants c \<noteq> 0 then join
              else if close_state c \<noteq> Idle \<and> close_state c \<noteq> HostCloseNotStarted \<or> participants c \<noteq> 0
              then (Inl internal_error, r)
              else if generation c = u64_max then (Inl internal_error, r)
              else (Inr (Owns_Progression g),
                    set_entry t (e\<lparr>lifecycle := Closing\<rparr>)
                      (set_generation g (c\<lparr>generation := generation c + 1, close_state := Preparing\<rparr>) r)))
           else if close_state c \<noteq> Preparing \<and> close_state c \<noteq> HostInvoked then (Inl internal_error, r)
           else join)"

definition drained :: "string \<Rightarrow> SessionRegistry \<Rightarrow> bool" where
  "drained t r = (case map_of (active_by_token r) t of
     None \<Rightarrow> True | Some e \<Rightarrow> admitted_host_calls e = 0 \<and> admitted_jobs e = 0)"

text \<open>The session is the one this generation closes, in the given state.\<close>

definition closing_as :: "string \<Rightarrow> nat option \<Rightarrow> CloseState \<Rightarrow> SessionRegistry \<Rightarrow> bool" where
  "closing_as t go st r = (case map_of (active_by_token r) t of
     None \<Rightarrow> False
   | Some e \<Rightarrow> lifecycle e = Closing \<and> close_generation e = go
       \<and> (case go of None \<Rightarrow> False | Some g \<Rightarrow> close_state (generations r ! g) = st))"

definition reopen :: "string \<Rightarrow> nat \<Rightarrow> SessionRegistry \<Rightarrow> SessionRegistry" where
  "reopen t g r = (case map_of (active_by_token r) t of
     None \<Rightarrow> r
   | Some e \<Rightarrow> set_entry t (e\<lparr>lifecycle := Active\<rparr>)
       (set_generation g ((generations r ! g)\<lparr>close_state := HostCloseNotStarted\<rparr>) r))"

text \<open>The rest of \<^verbatim>\<open>begin_close_impl\<close>: after the wait, and when the wait throws.\<close>

definition begin_close_wake :: "string \<Rightarrow> nat \<Rightarrow> SessionRegistry \<Rightarrow> CloseClaim IpcResult res \<times> SessionRegistry" where
  "begin_close_wake t g r =
    (if \<not> closing_as t (Some g) Preparing r then (Inl Terminate, r)
     else let c = generations r ! g in
       if participants c = size_max then
         (let r1 = reopen t g r in (Inr (Inl (terminal_status (generations r1 ! g))), r1))
       else case map_of (active_by_token r) t of
         None \<Rightarrow> (Inl Terminate, r)
       | Some e \<Rightarrow> (Inr (Inr (make_claim t (host_session e) g Owner)),
                    set_generation g (c\<lparr>participants := participants c + 1\<rparr>) r))"

definition begin_close_wait_failed :: "string \<Rightarrow> nat \<Rightarrow> SessionRegistry \<Rightarrow> CloseClaim IpcResult \<times> SessionRegistry" where
  "begin_close_wait_failed t g r =
    (let r1 = (if closing_as t (Some g) Preparing r then reopen t g r else r)
     in (Inl (terminal_status (generations r1 ! g)), r1))"

definition claim_active :: "CloseClaim \<Rightarrow> bool" where
  "claim_active c \<longleftrightarrow> claim_owned c \<and> claim_generation c \<noteq> None"

definition registry_mark_host_close_started :: "string \<Rightarrow> nat option \<Rightarrow> SessionRegistry \<Rightarrow> unit res \<times> SessionRegistry" where
  "registry_mark_host_close_started t go r =
    (if \<not> closing_as t go Preparing r then (Inl Terminate, r)
     else case go of None \<Rightarrow> (Inl Terminate, r)
       | Some g \<Rightarrow> (Inr (), set_generation g ((generations r ! g)\<lparr>close_state := HostInvoked\<rparr>) r))"

definition mark_host_close_started :: "CloseClaim \<Rightarrow> SessionRegistry \<Rightarrow> CloseClaim res \<times> SessionRegistry" where
  "mark_host_close_started c r =
    (if \<not> claim_active c \<or> claim_role c \<noteq> Owner \<or> host_close_started c then (Inl Terminate, r)
     else case registry_mark_host_close_started (claim_token c) (claim_generation c) r of
       (Inl x, r') \<Rightarrow> (Inl x, r')
     | (Inr u, r') \<Rightarrow> (Inr (c\<lparr>host_close_started := True\<rparr>), r'))"

definition registry_complete_host_close :: "string \<Rightarrow> nat option \<Rightarrow> OperationStatus \<Rightarrow> SessionRegistry \<Rightarrow> unit res \<times> SessionRegistry" where
  "registry_complete_host_close t go s r =
    (if \<not> (status_ok s \<or> checked_graph_error_code s = Some NotFound) then (Inl Terminate, r)
     else if \<not> closing_as t go HostInvoked r then (Inl Terminate, r)
     else case (go, map_of (active_by_token r) t) of
       (Some g, Some e) \<Rightarrow>
         let r1 = set_generation g ((generations r ! g)\<lparr>terminal_status := s, close_state := Completed\<rparr>) r in
         (Inr (), r1\<lparr>active_by_name := AList.delete (session_name e) (active_by_name r1),
                     active_by_host := AList.delete (host_session e) (active_by_host r1),
                     active_by_token := AList.delete t (active_by_token r1)\<rparr>)
     | _ \<Rightarrow> (Inl Terminate, r))"

definition complete_host_close :: "CloseClaim \<Rightarrow> OperationStatus \<Rightarrow> SessionRegistry \<Rightarrow> CloseClaim res \<times> SessionRegistry" where
  "complete_host_close c s r =
    (if \<not> claim_active c \<or> claim_role c \<noteq> Owner \<or> \<not> host_close_started c \<or> host_close_completed c then (Inl Terminate, r)
     else case registry_complete_host_close (claim_token c) (claim_generation c) s r of
       (Inl x, r') \<Rightarrow> (Inl x, r')
     | (Inr u, r') \<Rightarrow> (Inr (c\<lparr>host_close_completed := True\<rparr>), r'))"

definition close_result_ready :: "nat \<Rightarrow> SessionRegistry \<Rightarrow> bool" where
  "close_result_ready g r \<longleftrightarrow> close_state (generations r ! g) \<in> {Completed, HostCloseNotStarted}"

text \<open>\<^verbatim>\<open>wait_result\<close>; \<^verbatim>\<open>Inr None\<close> while the caller still waits.\<close>

definition wait_result :: "CloseClaim \<Rightarrow> SessionRegistry \<Rightarrow> OperationStatus option res" where
  "wait_result c r =
    (if \<not> claim_active c then Inl Logic_Error
     else case claim_generation c of
       None \<Rightarrow> Inl Invalid_Argument
     | Some g \<Rightarrow> Inr (if close_result_ready g r then Some (terminal_status (generations r ! g)) else None))"

definition release_close_claim :: "string \<Rightarrow> nat option \<Rightarrow> bool \<Rightarrow> bool \<Rightarrow> bool \<Rightarrow> SessionRegistry \<Rightarrow> unit res \<times> SessionRegistry" where
  "release_close_claim t go own started completed r =
    (case go of
       None \<Rightarrow> (Inl Terminate, r)
     | Some g \<Rightarrow>
        if participants (generations r ! g) = 0 then (Inl Terminate, r)
        else if own \<and> started \<and> \<not> completed then (Inl Terminate, r)
        else if own \<and> \<not> started \<and> \<not> completed \<and> \<not> closing_as t go Preparing r then (Inl Terminate, r)
        else let r1 = (if own \<and> \<not> started \<and> \<not> completed then reopen t g r else r); c = generations r1 ! g
          in (Inr (), set_generation g (c\<lparr>participants := participants c - 1\<rparr>) r1))"

definition empty_claim :: CloseClaim where
  "empty_claim = \<lparr>claim_owned = False, claim_token = [], claim_host = [], claim_generation = None, claim_role = Joiner,
     host_close_started = False, host_close_completed = False\<rparr>"

definition claim_reset :: "CloseClaim \<Rightarrow> SessionRegistry \<Rightarrow> CloseClaim res \<times> SessionRegistry" where
  "claim_reset c r =
    (if claim_owned c then
       (case release_close_claim (claim_token c) (claim_generation c) (claim_role c = Owner) (host_close_started c)
               (host_close_completed c) r of
          (Inl x, r') \<Rightarrow> (Inl x, r')
        | (Inr u, r') \<Rightarrow> (Inr empty_claim, r'))
     else (Inr empty_claim, r))"

subsection \<open>The whole registry\<close>

definition start_admission :: "SessionRegistry \<Rightarrow> SessionRegistry" where
  "start_admission r = r\<lparr>accepting := True\<rparr>"

definition stop_admission :: "SessionRegistry \<Rightarrow> SessionRegistry" where
  "stop_admission r = r\<lparr>accepting := False\<rparr>"

definition clear :: "SessionRegistry \<Rightarrow> SessionRegistry" where
  "clear r = r\<lparr>pending_by_token := [], pending_by_name := [], active_by_token := [], active_by_host := [], active_by_name := []\<rparr>"

definition active_sessions :: "SessionRegistry \<Rightarrow> (string \<times> string) list" where
  "active_sessions r = map (\<lambda>(t, e). (t, host_session e)) (sort_key fst (active_by_token r))"

definition reconcile :: "string list \<Rightarrow> SessionRegistry \<Rightarrow> (string \<times> string) list IpcResult" where
  "reconcile host_sessions r =
    (if \<not> distinct host_sessions then Inl internal_error
     else if length (active_by_token r) \<noteq> length (active_by_host r) \<or> length (active_by_token r) \<noteq> length (active_by_name r)
           \<or> length host_sessions \<noteq> length (active_by_host r) then Inl internal_error
     else if list_ex (\<lambda>h. map_of (active_by_host r) h = None) host_sessions then Inl internal_error
     else Inr (sort_key (\<lambda>(t, name). (name, t))
            (map (\<lambda>(t, e). (t, session_name e)) (filter (\<lambda>(t, e). lifecycle e = Active) (active_by_token r)))))"


definition claim_move :: "CloseClaim \<Rightarrow> CloseClaim \<Rightarrow> SessionRegistry \<Rightarrow> (CloseClaim \<times> CloseClaim) res \<times> SessionRegistry" where
  "claim_move self other r =
    (case claim_reset self r of
       (Inl x, r') \<Rightarrow> (Inl x, r')
     | (Inr _, r') \<Rightarrow> (Inr (other, other\<lparr>claim_owned := False, claim_token := [], claim_host := [], claim_generation := None,
                                    host_close_started := False, host_close_completed := False\<rparr>), r'))"

section \<open>The registry and its clients\<close>

text \<open>
  The registry, every handle variable, and the threads that wait inside \<^verbatim>\<open>begin_close_impl\<close>. Calls that fail change nothing.
  An owning closer follows the handlers: it starts the host close once, completes it once with a terminal status, and
  does not give its claim up in between (the handlers terminate the process themselves instead). The daemon clears the registry
  when no handle is left.
\<close>

record SessionWorld =
  sessions :: SessionRegistry
  admissions :: "Admission list"
  claims :: "CloseClaim list"
  closers :: "(string \<times> nat) list"

definition terminal_close_status :: "OperationStatus \<Rightarrow> bool" where
  "terminal_close_status s \<longleftrightarrow> status_ok s \<or> checked_graph_error_code s = Some NotFound"

definition may_start :: "CloseClaim \<Rightarrow> bool" where
  "may_start c \<longleftrightarrow> claim_owned c \<and> claim_role c = Owner \<and> \<not> host_close_started c \<and> \<not> host_close_completed c"

definition may_complete :: "CloseClaim \<Rightarrow> bool" where
  "may_complete c \<longleftrightarrow> claim_owned c \<and> claim_role c = Owner \<and> host_close_started c \<and> \<not> host_close_completed c"

inductive session_step :: "SessionWorld \<Rightarrow> SessionWorld \<Rightarrow> bool" where
  step_reserve: "reserve gen name (sessions w) = (x, r) \<Longrightarrow> session_step w (w\<lparr>sessions := r\<rparr>)"
| step_commit: "commit t host (sessions w) = (x, r) \<Longrightarrow> session_step w (w\<lparr>sessions := r\<rparr>)"
| step_rollback: "session_step w (w\<lparr>sessions := rollback t (sessions w)\<rparr>)"
| step_admit: "admit k t (sessions w) = (Inr a, r) \<Longrightarrow> session_step w (w\<lparr>sessions := r, admissions := admissions w @ [a]\<rparr>)"
| step_release: "i < length (admissions w) \<Longrightarrow> admission_reset (admissions w ! i) (sessions w) = (a, r)
    \<Longrightarrow> session_step w (w\<lparr>sessions := r, admissions := (admissions w)[i := a]\<rparr>)"
| step_move: "i < length (admissions w) \<Longrightarrow> j < length (admissions w) \<Longrightarrow> i \<noteq> j
    \<Longrightarrow> admission_kind (admissions w ! i) = admission_kind (admissions w ! j)
    \<Longrightarrow> admission_move (admissions w ! i) (admissions w ! j) (sessions w) = ((a, b), r)
    \<Longrightarrow> session_step w (w\<lparr>sessions := r, admissions := (admissions w)[i := a, j := b]\<rparr>)"
| step_join: "begin_close_enter t allow (sessions w) = (Inr (Joined c), r)
    \<Longrightarrow> session_step w (w\<lparr>sessions := r, claims := claims w @ [c]\<rparr>)"
| step_own: "begin_close_enter t allow (sessions w) = (Inr (Owns_Progression g), r)
    \<Longrightarrow> session_step w (w\<lparr>sessions := r, closers := closers w @ [(t, g)]\<rparr>)"
| step_wake: "(t, g) \<in> set (closers w) \<Longrightarrow> drained t (sessions w) \<Longrightarrow> begin_close_wake t g (sessions w) = (Inr (Inr c), r)
    \<Longrightarrow> session_step w (w\<lparr>sessions := r, claims := claims w @ [c], closers := remove1 (t, g) (closers w)\<rparr>)"
| step_wake_full: "(t, g) \<in> set (closers w) \<Longrightarrow> drained t (sessions w) \<Longrightarrow> begin_close_wake t g (sessions w) = (Inr (Inl e), r)
    \<Longrightarrow> session_step w (w\<lparr>sessions := r, closers := remove1 (t, g) (closers w)\<rparr>)"
| step_wait_failed: "(t, g) \<in> set (closers w) \<Longrightarrow> begin_close_wait_failed t g (sessions w) = (x, r)
    \<Longrightarrow> session_step w (w\<lparr>sessions := r, closers := remove1 (t, g) (closers w)\<rparr>)"
| step_start: "i < length (claims w) \<Longrightarrow> may_start (claims w ! i)
    \<Longrightarrow> mark_host_close_started (claims w ! i) (sessions w) = (Inr c, r)
    \<Longrightarrow> session_step w (w\<lparr>sessions := r, claims := (claims w)[i := c]\<rparr>)"
| step_complete: "i < length (claims w) \<Longrightarrow> may_complete (claims w ! i) \<Longrightarrow> terminal_close_status s
    \<Longrightarrow> complete_host_close (claims w ! i) s (sessions w) = (Inr c, r)
    \<Longrightarrow> session_step w (w\<lparr>sessions := r, claims := (claims w)[i := c]\<rparr>)"
| step_drop: "i < length (claims w) \<Longrightarrow> \<not> may_complete (claims w ! i)
    \<Longrightarrow> claim_reset (claims w ! i) (sessions w) = (Inr c, r)
    \<Longrightarrow> session_step w (w\<lparr>sessions := r, claims := (claims w)[i := c]\<rparr>)"
| step_move_claim: "i < length (claims w) \<Longrightarrow> j < length (claims w) \<Longrightarrow> i \<noteq> j \<Longrightarrow> \<not> may_complete (claims w ! i)
    \<Longrightarrow> claim_move (claims w ! i) (claims w ! j) (sessions w) = (Inr (c, d), r)
    \<Longrightarrow> session_step w (w\<lparr>sessions := r, claims := (claims w)[i := c, j := d]\<rparr>)"
| step_start_admission: "session_step w (w\<lparr>sessions := start_admission (sessions w)\<rparr>)"
| step_stop_admission: "session_step w (w\<lparr>sessions := stop_admission (sessions w)\<rparr>)"
| step_clear: "closers w = [] \<Longrightarrow> list_all (\<lambda>c. \<not> claim_owned c) (claims w) \<Longrightarrow> list_all (\<lambda>a. \<not> admission_owned a) (admissions w)
    \<Longrightarrow> session_step w (w\<lparr>sessions := clear (sessions w)\<rparr>)"

definition session_init :: "SessionWorld \<Rightarrow> bool" where
  "session_init w \<longleftrightarrow> w = \<lparr>sessions = new_session_registry, admissions = [], claims = [], closers = []\<rparr>"

section \<open>Invariants\<close>

text \<open>How often each tag occurs among the elements of a list.\<close>

definition tally :: "('a \<Rightarrow> 'b option) \<Rightarrow> 'a list \<Rightarrow> 'b \<Rightarrow> nat" where
  "tally f xs x = length (filter (\<lambda>a. f a = Some x) xs)"

definition bump :: "'b option \<Rightarrow> ('b \<Rightarrow> nat) \<Rightarrow> 'b \<Rightarrow> nat" where
  "bump x m = (case x of None \<Rightarrow> m | Some y \<Rightarrow> m(y := m y + 1))"

definition dip :: "'b option \<Rightarrow> ('b \<Rightarrow> nat) \<Rightarrow> 'b \<Rightarrow> nat" where
  "dip x m = (case x of None \<Rightarrow> m | Some y \<Rightarrow> m(y := m y - 1))"

lemma bump_dip_simps [simp]:
  "bump None m = m" "bump (Some x) m = m(x := m x + 1)" "dip None m = m" "dip (Some x) m = m(x := m x - 1)"
  by (simp_all add: bump_def dip_def)

lemma tally_Nil [simp]: "tally f [] = (\<lambda>_. 0)"
  by (simp add: tally_def fun_eq_iff)

lemma tally_append: "tally f (xs @ [a]) = bump (f a) (tally f xs)"
  by (cases "f a") (auto simp: tally_def fun_eq_iff)

lemma tally_member: "i < length xs \<Longrightarrow> f (xs ! i) = Some x \<Longrightarrow> 0 < tally f xs x"
  by (auto simp: tally_def filter_empty_conv)

lemma tally_zero_iff: "tally f xs x = 0 \<longleftrightarrow> (\<forall>a\<in>set xs. f a \<noteq> Some x)"
  by (auto simp: tally_def filter_empty_conv)

lemma tally_update: "i < length xs \<Longrightarrow> tally f (xs[i := a]) = bump (f a) (dip (f (xs ! i)) (tally f xs))"
proof (induction xs arbitrary: i)
  case (Cons y ys)
  then show ?case
  proof (cases i)
    case 0
    then show ?thesis by (cases "f a"; cases "f y") (auto simp: tally_def fun_eq_iff)
  next
    case (Suc k)
    then have k: "k < length ys" using Cons.prems by simp
    have "f (ys ! k) = Some x \<Longrightarrow> 0 < tally f ys x" for x using k by (rule tally_member)
    then show ?thesis using Cons.IH [OF k] Suc
      by (cases "f a"; cases "f (ys ! k)") (auto simp: tally_def fun_eq_iff)
  qed
qed simp

lemma tally_remove1: "a \<in> set xs \<Longrightarrow> tally f (remove1 a xs) = dip (f a) (tally f xs)"
proof (induction xs)
  case (Cons y ys)
  show ?case
  proof (cases "y = a")
    case True
    then show ?thesis by (cases "f a") (auto simp: tally_def fun_eq_iff)
  next
    case False
    then have "a \<in> set ys" using Cons.prems by simp
    then have "f a = Some x \<Longrightarrow> 0 < tally f ys x" for x by (metis in_set_conv_nth tally_member)
    then show ?thesis using Cons.IH [OF \<open>a \<in> set ys\<close>] False
      by (cases "f a") (auto simp: tally_def fun_eq_iff)
  qed
qed simp


subsection \<open>Tables\<close>

text \<open>Two tables that are each other's converse.\<close>

definition converse_maps :: "('a \<rightharpoonup> 'b) \<Rightarrow> ('b \<rightharpoonup> 'a) \<Rightarrow> bool" where
  "converse_maps f g \<longleftrightarrow> (\<forall>a b. f a = Some b \<longleftrightarrow> g b = Some a)"

lemma converse_maps_insert:
  assumes "converse_maps f g" "f a = None" "g b = None" shows "converse_maps (f(a \<mapsto> b)) (g(b \<mapsto> a))"
  unfolding converse_maps_def
proof (intro allI)
  fix x y
  have "f x = Some y \<longleftrightarrow> g y = Some x" "f a = Some y \<longleftrightarrow> g y = Some a" "f x = Some b \<longleftrightarrow> g b = Some x"
    using assms(1) unfolding converse_maps_def by blast+
  then show "(f(a \<mapsto> b)) x = Some y \<longleftrightarrow> (g(b \<mapsto> a)) y = Some x" using assms(2,3) by (cases "x = a"; cases "y = b") auto
qed

lemma converse_maps_delete:
  assumes "converse_maps f g" "f a = Some b" shows "converse_maps (f(a := None)) (g(b := None))"
  unfolding converse_maps_def
proof (intro allI)
  fix x y
  have "f x = Some y \<longleftrightarrow> g y = Some x" "f a = Some y \<longleftrightarrow> g y = Some a" "f x = Some b \<longleftrightarrow> g b = Some x" "g b = Some a"
    using assms unfolding converse_maps_def by blast+
  then show "(f(a := None)) x = Some y \<longleftrightarrow> (g(b := None)) y = Some x" using assms(2) by (cases "x = a"; cases "y = b") auto
qed

lemma converse_mapsD: "converse_maps f g \<Longrightarrow> f a = Some b \<Longrightarrow> g b = Some a" "converse_maps f g \<Longrightarrow> g b = Some a \<Longrightarrow> f a = Some b"
  unfolding converse_maps_def by blast+

abbreviation entry_table :: "(ActiveEntry \<Rightarrow> string) \<Rightarrow> SessionRegistry \<Rightarrow> string \<Rightarrow> string option" where
  "entry_table field r t \<equiv> map_option field (map_of (active_by_token r) t)"

definition index_inv :: "SessionRegistry \<Rightarrow> bool" where
  "index_inv r \<longleftrightarrow>
     distinct (map fst (active_by_token r)) \<and> distinct (map fst (active_by_host r)) \<and> distinct (map fst (active_by_name r))
   \<and> converse_maps (map_of (pending_by_token r)) (map_of (pending_by_name r))
   \<and> converse_maps (entry_table host_session r) (map_of (active_by_host r))
   \<and> converse_maps (entry_table session_name r) (map_of (active_by_name r))
   \<and> (\<forall>t n. map_of (pending_by_token r) t = Some n \<longrightarrow> map_of (active_by_token r) t = None \<and> map_of (active_by_name r) n = None)"

lemma map_of_AList [simp]:
  "map_of (AList.update k v al) = (map_of al)(k \<mapsto> v)" "map_of (AList.delete k al) = (map_of al)(k := None)"
  by (simp_all add: update_conv' delete_conv')

lemma distinct_AList [simp]:
  "distinct (map fst al) \<Longrightarrow> distinct (map fst (AList.update k v al))"
  "distinct (map fst al) \<Longrightarrow> distinct (map fst (AList.delete k al))"
  by (auto intro: distinct_update simp: distinct_delete)

lemma pick_token_fresh: "pick_token n gen r = Inr t \<Longrightarrow> map_of (pending_by_token r) t = None \<and> map_of (active_by_token r) t = None"
  by (induction n gen r rule: pick_token.induct) (auto split: if_splits)

lemma index_inv_reserve:
  assumes "index_inv r" "reserve gen name r = (x, r')" shows "index_inv r'"
proof (cases x)
  case (Inl e)
  then have "r' = r" using assms(2) by (auto simp: reserve_def split: if_splits sum.splits)
  then show ?thesis using assms(1) by simp
next
  case (Inr t)
  then have f: "map_of (pending_by_name r) name = None" "map_of (active_by_name r) name = None" "pick_token 128 gen r = Inr t"
      "r' = r\<lparr>pending_by_token := AList.update t name (pending_by_token r), pending_by_name := AList.update name t (pending_by_name r)\<rparr>"
    using assms(2) by (auto simp: reserve_def simp del: map_of_eq_None_iff map_of_eq_Some_iff split: if_splits sum.splits)
  then show ?thesis using assms(1) pick_token_fresh [OF f(3)] by (auto simp: index_inv_def intro: converse_maps_insert)
qed

lemma index_inv_rollback: "index_inv r \<Longrightarrow> index_inv (rollback t r)"
  by (auto simp: rollback_def index_inv_def split: option.splits intro: converse_maps_delete)

lemma index_inv_same:
  assumes "index_inv r" "active_by_token r' = active_by_token r"
    "pending_by_token r' = pending_by_token r" "pending_by_name r' = pending_by_name r" "active_by_host r' = active_by_host r"
    "active_by_name r' = active_by_name r"
  shows "index_inv r'"
  using assms by (simp add: index_inv_def)

lemma map_option_upd: "(\<lambda>x. map_option f ((m(a := y)) x)) = (\<lambda>x. map_option f (m x))(a := map_option f y)"
  by auto

text \<open>An entry that keeps its session keeps the tables.\<close>

lemma index_inv_entry:
  assumes "index_inv r" "map_of (active_by_token r) t = Some e" "host_session e' = host_session e" "session_name e' = session_name e"
    "active_by_token r' = AList.update t e' (active_by_token r)"
    "pending_by_token r' = pending_by_token r" "pending_by_name r' = pending_by_name r" "active_by_host r' = active_by_host r"
    "active_by_name r' = active_by_name r"
  shows "index_inv r'"
proof -
  have "entry_table host_session r' = entry_table host_session r" "entry_table session_name r' = entry_table session_name r"
    using assms(2-5) by auto
  moreover have "map_of (pending_by_token r) t = None"
    using assms(1,2) by (cases "map_of (pending_by_token r) t") (auto simp: index_inv_def)
  ultimately show ?thesis using assms(1,5-) unfolding index_inv_def by (auto simp del: map_of_eq_Some_iff)
qed

lemma index_inv_commit:
  assumes "index_inv r" "commit t host r = (x, r')" shows "index_inv r'"
proof (cases x)
  case (Inl e)
  then have "r' = r \<or> r' = r\<lparr>generations := generations r @ [new_close_generation]\<rparr>"
    using assms(2) by (auto simp: commit_def Let_def split: option.splits if_splits)
  then show ?thesis using assms(1) by (auto intro: index_inv_same)
next
  case (Inr u)
  obtain name where name: "map_of (pending_by_token r) t = Some name"
    using assms(2) Inr by (auto simp: commit_def split: option.splits)
  define e where "e = \<lparr>host_session = host, session_name = name, lifecycle = Active, admitted_host_calls = 0,
                       admitted_jobs = 0, close_generation = Some (length (generations r))\<rparr>"
  have c: "map_of (active_by_host r) host = None" "map_of (active_by_name r) name = None" "map_of (active_by_token r) t = None"
      "active_by_token r' = AList.update t e (active_by_token r)" "active_by_host r' = AList.update host t (active_by_host r)"
      "active_by_name r' = AList.update name t (active_by_name r)" "pending_by_name r' = AList.delete name (pending_by_name r)"
      "pending_by_token r' = AList.delete t (pending_by_token r)"
    using assms(2) Inr name by (auto simp: commit_def Let_def set_entry_def e_def split: option.splits if_splits)
  have "converse_maps (entry_table host_session r') (map_of (active_by_host r'))"
       "converse_maps (entry_table session_name r') (map_of (active_by_name r'))"
    using assms(1) c(1-3) unfolding c(4-6) map_of_AList map_option_upd
    by (auto simp: index_inv_def e_def intro!: converse_maps_insert)
  moreover have "converse_maps (map_of (pending_by_token r')) (map_of (pending_by_name r'))"
    using assms(1) name unfolding c(7,8) map_of_AList by (auto simp: index_inv_def intro!: converse_maps_delete)
  moreover have "map_of (pending_by_token r') t' = Some n \<Longrightarrow> map_of (active_by_token r') t' = None \<and> map_of (active_by_name r') n = None" for t' n
  proof -
    have cv: "converse_maps (map_of (pending_by_token r)) (map_of (pending_by_name r))" using assms(1) by (simp add: index_inv_def)
    assume "map_of (pending_by_token r') t' = Some n"
    then have t': "t' \<noteq> t" "map_of (pending_by_token r) t' = Some n" unfolding c(8) map_of_AList by (auto split: if_splits)
    then have "n \<noteq> name" using converse_mapsD(1) [OF cv t'(2)] converse_mapsD(1) [OF cv name] by auto
    then show ?thesis using assms(1) t' unfolding c(4,6) map_of_AList index_inv_def by auto
  qed
  ultimately show ?thesis using assms(1) c(4-6) by (auto simp: index_inv_def)
qed

subsection \<open>Admissions\<close>

definition admission_tag :: "Admission \<Rightarrow> (string \<times> AdmissionKind) option" where
  "admission_tag a = (if admission_owned a then Some (admission_token a, admission_kind a) else None)"

definition admission_inv :: "(string \<rightharpoonup> ActiveEntry) \<Rightarrow> (string \<times> AdmissionKind \<Rightarrow> nat) \<Rightarrow> bool" where
  "admission_inv A m \<longleftrightarrow> (\<forall>t k. m (t, k) = (case A t of None \<Rightarrow> 0 | Some e \<Rightarrow> admitted k e))"

lemma set_admitted_fields [simp]:
  "host_session (set_admitted k n e) = host_session e" "session_name (set_admitted k n e) = session_name e"
  "lifecycle (set_admitted k n e) = lifecycle e" "close_generation (set_admitted k n e) = close_generation e"
  "admitted k' (set_admitted k n e) = (if k' = k then n else admitted k' e)"
  by (cases k; cases k'; simp add: set_admitted_def admitted_def)+

subsection \<open>Close generations\<close>

definition entry_drained :: "ActiveEntry \<Rightarrow> bool" where
  "entry_drained e \<longleftrightarrow> admitted_host_calls e = 0 \<and> admitted_jobs e = 0"

text \<open>
  The claims of closing owners before and after they start the host close, and of all participants.
\<close>

definition prepared_tag :: "CloseClaim \<Rightarrow> (string \<times> nat) option" where
  "prepared_tag c = (if may_start c then map_option (Pair (claim_token c)) (claim_generation c) else None)"

definition invoked_tag :: "CloseClaim \<Rightarrow> (string \<times> nat) option" where
  "invoked_tag c = (if may_complete c then map_option (Pair (claim_token c)) (claim_generation c) else None)"

definition participant_tag :: "CloseClaim \<Rightarrow> nat option" where
  "participant_tag c = (if claim_owned c then claim_generation c else None)"

text \<open>
  A session that is not closing has no owner. A closing one has exactly one: waiting, prepared, or with the host close invoked; from the end
  of its wait on no admission is left.
\<close>

fun phase_ok :: "LifecycleState \<Rightarrow> CloseState \<Rightarrow> nat \<Rightarrow> nat \<Rightarrow> nat \<Rightarrow> bool \<Rightarrow> bool" where
  "phase_ok Active st waiting prepared invoked idle \<longleftrightarrow> (st = Idle \<or> st = HostCloseNotStarted) \<and> waiting = 0 \<and> prepared = 0 \<and> invoked = 0"
| "phase_ok Closing st waiting prepared invoked idle \<longleftrightarrow>
     st = Preparing \<and> waiting + prepared = 1 \<and> invoked = 0 \<and> (prepared = 1 \<longrightarrow> idle)
   \<or> st = HostInvoked \<and> waiting = 0 \<and> prepared = 0 \<and> invoked = 1 \<and> idle"

definition close_inv :: "(string \<rightharpoonup> ActiveEntry) \<Rightarrow> CloseGeneration list \<Rightarrow> (string \<times> nat \<Rightarrow> nat) \<Rightarrow> (string \<times> nat \<Rightarrow> nat)
    \<Rightarrow> (string \<times> nat \<Rightarrow> nat) \<Rightarrow> (nat \<Rightarrow> nat) \<Rightarrow> bool" where
  "close_inv A G W P I N \<longleftrightarrow>
     (\<forall>t e. A t = Some e \<longrightarrow> (\<exists>g. close_generation e = Some g \<and> g < length G
        \<and> phase_ok (lifecycle e) (close_state (G ! g)) (W (t, g)) (P (t, g)) (I (t, g)) (entry_drained e)))
   \<and> (\<forall>t t' e e'. A t = Some e \<longrightarrow> A t' = Some e' \<longrightarrow> close_generation e = close_generation e' \<longrightarrow> t = t')
   \<and> (\<forall>t g. 0 < W (t, g) + P (t, g) + I (t, g) \<longrightarrow> (\<exists>e. A t = Some e \<and> close_generation e = Some g))
   \<and> (\<forall>g < length G. participants (G ! g) = N g
        \<and> (close_state (G ! g) \<noteq> Completed \<longrightarrow> terminal_status (G ! g) = host_close_not_started_status)
        \<and> (0 < N g \<longrightarrow> (\<forall>t e. A t = Some e \<longrightarrow> close_generation e \<noteq> Some g) \<longrightarrow> close_state (G ! g) = Completed))
   \<and> (\<forall>g \<ge> length G. N g = 0)"

lemma phase_ok_drained: "phase_ok l st w p i d \<Longrightarrow> (d \<Longrightarrow> d') \<Longrightarrow> phase_ok l st w p i d'"
  by (cases l) auto

lemma close_inv_phase:
  assumes "close_inv A G W P I N" "A t = Some e" "close_generation e = Some g"
  shows "g < length G" "phase_ok (lifecycle e) (close_state (G ! g)) (W (t, g)) (P (t, g)) (I (t, g)) (entry_drained e)"
proof -
  have "\<exists>g'. close_generation e = Some g' \<and> g' < length G
      \<and> phase_ok (lifecycle e) (close_state (G ! g')) (W (t, g')) (P (t, g')) (I (t, g')) (entry_drained e)"
    using assms(1,2) unfolding close_inv_def by blast
  then show "g < length G" "phase_ok (lifecycle e) (close_state (G ! g)) (W (t, g)) (P (t, g)) (I (t, g)) (entry_drained e)"
    using assms(3) by auto
qed

lemma close_inv_generation:
  assumes "close_inv A G W P I N" "A t = Some e" obtains g where "close_generation e = Some g" "g < length G"
  using assms unfolding close_inv_def by blast

lemma close_inv_unique:
  "close_inv A G W P I N \<Longrightarrow> A t = Some e \<Longrightarrow> A t' = Some e' \<Longrightarrow> close_generation e = close_generation e' \<Longrightarrow> t = t'"
  unfolding close_inv_def by blast

lemma close_inv_owner:
  assumes "close_inv A G W P I N" "0 < W (t, g) + P (t, g) + I (t, g)"
  shows "\<exists>e. A t = Some e \<and> close_generation e = Some g"
proof -
  have "\<forall>t g. 0 < W (t, g) + P (t, g) + I (t, g) \<longrightarrow> (\<exists>e. A t = Some e \<and> close_generation e = Some g)"
    using assms(1) unfolding close_inv_def by (elim conjE)
  from this [rule_format, OF assms(2)] show ?thesis .
qed

lemma close_inv_cell:
  assumes "close_inv A G W P I N" "g < length G"
  shows "participants (G ! g) = N g" "close_state (G ! g) \<noteq> Completed \<Longrightarrow> terminal_status (G ! g) = host_close_not_started_status"
    "0 < N g \<Longrightarrow> (\<And>t e. A t = Some e \<Longrightarrow> close_generation e \<noteq> Some g) \<Longrightarrow> close_state (G ! g) = Completed"
  using assms unfolding close_inv_def by blast+

lemma close_inv_beyond: "close_inv A G W P I N \<Longrightarrow> length G \<le> g \<Longrightarrow> N g = 0"
  unfolding close_inv_def by blast

text \<open>A step that touches one session and its generation.\<close>

lemma close_inv_local:
  assumes inv: "close_inv A G W P I N" and e: "A t = Some e" "close_generation e = Some g"
    and phase: "\<And>e'. eo = Some e' \<Longrightarrow> close_generation e' = Some g \<and> phase_ok (lifecycle e') (close_state c) w p i (entry_drained e')"
    and gone: "eo = None \<Longrightarrow> close_state c = Completed \<and> w = 0 \<and> p = 0 \<and> i = 0"
    and c: "participants c = n" "close_state c \<noteq> Completed \<Longrightarrow> terminal_status c = host_close_not_started_status"
  shows "close_inv (A(t := eo)) (G[g := c]) (W((t, g) := w)) (P((t, g) := p)) (I((t, g) := i)) (N(g := n))"
proof -
  note g = close_inv_phase(1) [OF inv e]
  have uniq: "t' = t" if "A t' = Some e'" "close_generation e' = Some g" for t' e'
    using close_inv_unique [OF inv that(1) e(1)] that(2) e(2) by simp
  show ?thesis unfolding close_inv_def
  proof (intro conjI allI impI)
    fix t' e' assume a: "(A(t := eo)) t' = Some e'"
    show "\<exists>g'. close_generation e' = Some g' \<and> g' < length (G[g := c])
        \<and> phase_ok (lifecycle e') (close_state (G[g := c] ! g')) ((W((t, g) := w)) (t', g')) ((P((t, g) := p)) (t', g'))
            ((I((t, g) := i)) (t', g')) (entry_drained e')"
    proof (cases "t' = t")
      case True
      then show ?thesis using a phase g by auto
    next
      case False
      then have at: "A t' = Some e'" using a by simp
      obtain g' where g': "close_generation e' = Some g'" "g' < length G" by (rule close_inv_generation [OF inv at])
      moreover have "g' \<noteq> g" using uniq [OF at] g'(1) False by auto
      ultimately show ?thesis using False close_inv_phase(2) [OF inv at g'(1)] by auto
    qed
  next
    fix t1 t2 e1 e2
    assume a: "(A(t := eo)) t1 = Some e1" "(A(t := eo)) t2 = Some e2" "close_generation e1 = close_generation e2"
    have old: "t1 = t2 \<or> A t1 = Some e1 \<and> t2 = t \<or> t1 = t \<and> A t2 = Some e2 \<or> A t1 = Some e1 \<and> A t2 = Some e2"
      using a(1,2) by (auto split: if_splits)
    then consider "t1 = t2" | "A t1 = Some e1" "t2 = t" "eo = Some e2" | "A t2 = Some e2" "t1 = t" "eo = Some e1" | "A t1 = Some e1" "A t2 = Some e2"
      using a by fastforce
    then show "t1 = t2"
    proof cases
      case 2
      then show ?thesis using uniq [OF 2(1)] phase [OF 2(3)] a(3) by simp
    next
      case 3
      then show ?thesis using uniq [OF 3(1)] phase [OF 3(3)] a(3) by simp
    next
      case 4
      then show ?thesis using close_inv_unique [OF inv] a(3) by blast
    qed
  next
    fix t' g' assume pos: "0 < (W((t, g) := w)) (t', g') + (P((t, g) := p)) (t', g') + (I((t, g) := i)) (t', g')"
    show "\<exists>e'. (A(t := eo)) t' = Some e' \<and> close_generation e' = Some g'"
    proof (cases "(t', g') = (t, g)")
      case True
      then show ?thesis using pos gone phase by (cases eo) auto
    next
      case False
      then obtain e' where e': "A t' = Some e'" "close_generation e' = Some g'"
        using close_inv_owner [OF inv, of t' g'] pos by auto
      then have "t' \<noteq> t" using False e by auto
      then show ?thesis using e' by auto
    qed
  next
    fix g' assume g': "g' < length (G[g := c])"
    show "participants (G[g := c] ! g') = (N(g := n)) g'" using close_inv_cell(1) [OF inv, of g'] g' c by (cases "g' = g") auto
    show "terminal_status (G[g := c] ! g') = host_close_not_started_status" if "close_state (G[g := c] ! g') \<noteq> Completed"
      using close_inv_cell(2) [OF inv, of g'] g' c that by (cases "g' = g") auto
    assume n: "0 < (N(g := n)) g'" and un: "\<forall>t' e'. (A(t := eo)) t' = Some e' \<longrightarrow> close_generation e' \<noteq> Some g'"
    show "close_state (G[g := c] ! g') = Completed"
    proof (cases "g' = g")
      case True
      then have "eo = None" using un [rule_format, of t] phase by (cases eo) auto
      then show ?thesis using gone True g by simp
    next
      case False
      have "close_generation e' \<noteq> Some g'" if "A t' = Some e'" for t' e'
        using un [rule_format, of t' e'] e that False by (cases "t' = t") auto
      then show ?thesis using close_inv_cell(3) [OF inv, of g'] g' n False by auto
    qed
  next
    fix g' assume "length (G[g := c]) \<le> g'"
    then show "(N(g := n)) g' = 0" using close_inv_beyond [OF inv] g by auto
  qed
qed


lemma close_inv_entry:
  assumes inv: "close_inv A G W P I N" and e: "A t = Some e"
    and e': "close_generation e' = close_generation e" "lifecycle e' = lifecycle e"
      "lifecycle e = Active \<or> (entry_drained e \<longrightarrow> entry_drained e')"
  shows "close_inv (A(t \<mapsto> e')) G W P I N"
proof -
  obtain g where g: "close_generation e = Some g" "g < length G" by (rule close_inv_generation [OF inv e])
  have "close_inv (A(t := Some e')) (G[g := G ! g]) (W((t, g) := W (t, g))) (P((t, g) := P (t, g))) (I((t, g) := I (t, g))) (N(g := N g))"
  proof (rule close_inv_local [OF inv e g(1)])
    show "close_generation x = Some g \<and> phase_ok (lifecycle x) (close_state (G ! g)) (W (t, g)) (P (t, g)) (I (t, g)) (entry_drained x)"
      if "Some e' = Some x" for x
      using close_inv_phase(2) [OF inv e g(1)] e' g that by (cases "lifecycle e") (auto intro: phase_ok_drained)
  qed (use close_inv_cell [OF inv g(2)] in auto)
  then show ?thesis by simp
qed

text \<open>A participant that comes or goes without owning the progression.\<close>

lemma close_inv_participants:
  assumes inv: "close_inv A G W P I N" and g: "g < length G" "0 < N g \<or> (\<exists>t e. A t = Some e \<and> close_generation e = Some g)"
  shows "close_inv A (G[g := (G ! g)\<lparr>participants := n\<rparr>]) W P I (N(g := n))"
  unfolding close_inv_def
proof (intro conjI allI impI)
  have st: "close_state (G[g := (G ! g)\<lparr>participants := n\<rparr>] ! g') = close_state (G ! g')"
    "terminal_status (G[g := (G ! g)\<lparr>participants := n\<rparr>] ! g') = terminal_status (G ! g')" for g'
    using g(1) by (cases "g' = g"; simp)+
  fix t e assume e: "A t = Some e"
  obtain g' where g': "close_generation e = Some g'" "g' < length G" by (rule close_inv_generation [OF inv e])
  then show "\<exists>g'. close_generation e = Some g' \<and> g' < length (G[g := (G ! g)\<lparr>participants := n\<rparr>])
      \<and> phase_ok (lifecycle e) (close_state (G[g := (G ! g)\<lparr>participants := n\<rparr>] ! g')) (W (t, g')) (P (t, g')) (I (t, g')) (entry_drained e)"
    using close_inv_phase(2) [OF inv e g'(1)] by (simp add: st)
next
  fix g' assume g': "g' < length (G[g := (G ! g)\<lparr>participants := n\<rparr>])"
  note cell = close_inv_cell [OF inv, of g']
  show "participants (G[g := (G ! g)\<lparr>participants := n\<rparr>] ! g') = (N(g := n)) g'" using cell(1) g' by (cases "g' = g") auto
  show "terminal_status (G[g := (G ! g)\<lparr>participants := n\<rparr>] ! g') = host_close_not_started_status"
    if "close_state (G[g := (G ! g)\<lparr>participants := n\<rparr>] ! g') \<noteq> Completed"
    using cell(2) g' that by (cases "g' = g") auto
  assume n: "0 < (N(g := n)) g'" "\<forall>t e. A t = Some e \<longrightarrow> close_generation e \<noteq> Some g'"
  then show "close_state (G[g := (G ! g)\<lparr>participants := n\<rparr>] ! g') = Completed" using cell(3) g g' by (cases "g' = g") auto
next
  fix t t' e e' assume "A t = Some e" "A t' = Some e'" "close_generation e = close_generation e'"
  then show "t = t'" by (rule close_inv_unique [OF inv])
next
  fix t g' assume "0 < W (t, g') + P (t, g') + I (t, g')"
  then show "\<exists>e. A t = Some e \<and> close_generation e = Some g'" by (rule close_inv_owner [OF inv])
next
  fix g' assume "length (G[g := (G ! g)\<lparr>participants := n\<rparr>]) \<le> g'"
  then show "(N(g := n)) g' = 0" using close_inv_beyond [OF inv] g by auto
qed

text \<open>A new session with its own generation.\<close>

lemma close_inv_commit:
  assumes inv: "close_inv A G W P I N" and t: "A t = None" "lifecycle e = Active" "close_generation e = Some (length G)"
  shows "close_inv (A(t \<mapsto> e)) (G @ [new_close_generation]) W P I N"
  unfolding close_inv_def
proof (intro conjI allI impI)
  have none: "W (t, g) = 0 \<and> P (t, g) = 0 \<and> I (t, g) = 0" for g using close_inv_owner [OF inv, of t g] t(1) by fastforce
  fix t' e' assume e': "(A(t \<mapsto> e)) t' = Some e'"
  show "\<exists>g. close_generation e' = Some g \<and> g < length (G @ [new_close_generation])
    \<and> phase_ok (lifecycle e') (close_state ((G @ [new_close_generation]) ! g)) (W (t', g)) (P (t', g)) (I (t', g)) (entry_drained e')"
  proof (cases "t' = t")
    case True
    then show ?thesis using e' t none by (auto simp: new_close_generation_def)
  next
    case False
    then have at: "A t' = Some e'" using e' by simp
    obtain g where g: "close_generation e' = Some g" "g < length G" by (rule close_inv_generation [OF inv at])
    then show ?thesis using close_inv_phase(2) [OF inv at g(1)] by (auto simp: nth_append)
  qed
next
  fix t1 t2 e1 e2 assume a: "(A(t \<mapsto> e)) t1 = Some e1" "(A(t \<mapsto> e)) t2 = Some e2" "close_generation e1 = close_generation e2"
  have below: "close_generation e' \<noteq> Some (length G)" if "A t' = Some e'" for t' e' using close_inv_generation [OF inv that] by fastforce
  show "t1 = t2" using a below t(3) close_inv_unique [OF inv, of t1 e1 t2 e2] by (cases "t1 = t"; cases "t2 = t") auto
next
  fix t' g assume pos: "0 < W (t', g) + P (t', g) + I (t', g)"
  from close_inv_owner [OF inv pos] obtain e' where "A t' = Some e'" "close_generation e' = Some g" by blast
  then show "\<exists>e'. (A(t \<mapsto> e)) t' = Some e' \<and> close_generation e' = Some g" using t(1) by (cases "t' = t") auto
next
  fix g assume g: "g < length (G @ [new_close_generation])"
  note cell = close_inv_cell [OF inv, of g]
  show "participants ((G @ [new_close_generation]) ! g) = N g" using cell(1) g close_inv_beyond [OF inv, of g]
    by (cases "g < length G") (auto simp: nth_append new_close_generation_def not_less)
  show "terminal_status ((G @ [new_close_generation]) ! g) = host_close_not_started_status"
    if "close_state ((G @ [new_close_generation]) ! g) \<noteq> Completed"
    using cell(2) g that by (cases "g < length G") (auto simp: nth_append new_close_generation_def not_less)
  assume n: "0 < N g" and un: "\<forall>t' e'. (A(t \<mapsto> e)) t' = Some e' \<longrightarrow> close_generation e' \<noteq> Some g"
  then have "g < length G" using close_inv_beyond [OF inv, of g] by (cases "g < length G") auto
  moreover have "close_generation e' \<noteq> Some g" if "A t' = Some e'" for t' e' using un [rule_format, of t' e'] that t(1) by (cases "t' = t") auto
  ultimately show "close_state ((G @ [new_close_generation]) ! g) = Completed" using cell(3) n by (auto simp: nth_append)
next
  fix g assume "length (G @ [new_close_generation]) \<le> g"
  then show "N g = 0" using close_inv_beyond [OF inv] by auto
qed


subsection \<open>The invariant of the whole\<close>

abbreviation entries :: "SessionRegistry \<Rightarrow> string \<rightharpoonup> ActiveEntry" where
  "entries r \<equiv> map_of (active_by_token r)"

definition claims_inv :: "SessionRegistry \<Rightarrow> CloseClaim list \<Rightarrow> (string \<times> nat) list \<Rightarrow> bool" where
  "claims_inv r cl ws \<longleftrightarrow>
     close_inv (entries r) (generations r) (tally Some ws) (tally prepared_tag cl) (tally invoked_tag cl) (tally participant_tag cl)
   \<and> (\<forall>c\<in>set cl. claim_owned c \<longrightarrow> claim_generation c \<noteq> None)"

definition session_inv :: "SessionWorld \<Rightarrow> bool" where
  "session_inv w \<longleftrightarrow> index_inv (sessions w) \<and> admission_inv (entries (sessions w)) (tally admission_tag (admissions w))
     \<and> claims_inv (sessions w) (claims w) (closers w)"

lemma set_entry_fields [simp]:
  "active_by_token (set_entry t e r) = AList.update t e (active_by_token r)" "pending_by_token (set_entry t e r) = pending_by_token r"
  "pending_by_name (set_entry t e r) = pending_by_name r" "active_by_host (set_entry t e r) = active_by_host r"
  "active_by_name (set_entry t e r) = active_by_name r" "generations (set_entry t e r) = generations r" "accepting (set_entry t e r) = accepting r"
  by (simp_all add: set_entry_def)

lemma set_generation_fields [simp]:
  "active_by_token (set_generation g c r) = active_by_token r" "pending_by_token (set_generation g c r) = pending_by_token r"
  "pending_by_name (set_generation g c r) = pending_by_name r" "active_by_host (set_generation g c r) = active_by_host r"
  "active_by_name (set_generation g c r) = active_by_name r" "generations (set_generation g c r) = (generations r)[g := c]"
  "accepting (set_generation g c r) = accepting r"
  by (simp_all add: set_generation_def)

lemma closing_asD:
  "closing_as t (Some g) st r \<Longrightarrow> \<exists>e. entries r t = Some e \<and> lifecycle e = Closing \<and> close_generation e = Some g \<and> close_state (generations r ! g) = st"
  "\<not> closing_as t None st r"
  by (auto simp: closing_as_def simp del: map_of_eq_Some_iff split: option.splits)

lemma closing_asI:
  "entries r t = Some e \<Longrightarrow> lifecycle e = Closing \<Longrightarrow> close_generation e = Some g \<Longrightarrow> close_state (generations r ! g) = st \<Longrightarrow> closing_as t (Some g) st r"
  by (simp add: closing_as_def)

lemma claim_tags:
  "participant_tag (make_claim t h g ro) = Some g" "invoked_tag (make_claim t h g ro) = None"
  "prepared_tag (make_claim t h g ro) = (if ro = Owner then Some (t, g) else None)"
  "participant_tag empty_claim = None" "invoked_tag empty_claim = None" "prepared_tag empty_claim = None"
  "claim_owned (make_claim t h g ro)" "claim_generation (make_claim t h g ro) = Some g" "\<not> claim_owned empty_claim"
  by (simp_all add: make_claim_def empty_claim_def participant_tag_def invoked_tag_def prepared_tag_def may_start_def may_complete_def)

subsubsection \<open>Loading and admission\<close>

lemma claims_inv_same:
  "claims_inv r cl ws \<Longrightarrow> active_by_token r' = active_by_token r \<Longrightarrow> generations r' = generations r \<Longrightarrow> claims_inv r' cl ws"
  by (simp add: claims_inv_def)

lemma session_inv_same:
  "session_inv w \<Longrightarrow> active_by_token r = active_by_token (sessions w) \<Longrightarrow> generations r = generations (sessions w) \<Longrightarrow> index_inv r
    \<Longrightarrow> session_inv (w\<lparr>sessions := r\<rparr>)"
  by (simp add: session_inv_def claims_inv_def)

lemma session_inv_reserve:
  assumes "session_inv w" "reserve gen name (sessions w) = (x, r)" shows "session_inv (w\<lparr>sessions := r\<rparr>)"
proof (rule session_inv_same [OF assms(1)])
  show "index_inv r" using assms index_inv_reserve by (auto simp: session_inv_def)
qed (use assms(2) in \<open>auto simp: reserve_def split: if_splits sum.splits\<close>)

lemma session_inv_rollback: "session_inv w \<Longrightarrow> session_inv (w\<lparr>sessions := rollback t (sessions w)\<rparr>)"
proof (rule session_inv_same)
  show "index_inv (rollback t (sessions w))" if "session_inv w" using that index_inv_rollback by (auto simp: session_inv_def)
qed (auto simp: rollback_def split: option.splits)

lemma session_inv_commit:
  assumes "session_inv w" "commit t host (sessions w) = (x, r)" shows "session_inv (w\<lparr>sessions := r\<rparr>)"
proof -
  let ?r = "sessions w"
  have idx: "index_inv ?r" "index_inv r" using assms index_inv_commit by (auto simp: session_inv_def)
  have fresh: "entries ?r t = None" if "map_of (pending_by_token ?r) t = Some name" for name
    using idx(1) that by (auto simp: index_inv_def)
  show ?thesis
  proof (cases x)
    case (Inl e)
    then have "r = ?r" using assms(2) fresh by (auto simp: commit_def Let_def simp del: map_of_eq_Some_iff map_of_eq_None_iff split: option.splits if_splits)
    then show ?thesis using assms(1) by simp
  next
    case (Inr u)
    then obtain name where name: "map_of (pending_by_token ?r) t = Some name"
      using assms(2) by (auto simp: commit_def split: option.splits)
    define e where "e = \<lparr>host_session = host, session_name = name, lifecycle = Active, admitted_host_calls = 0,
                       admitted_jobs = 0, close_generation = Some (length (generations ?r))\<rparr>"
    have r: "entries r = (entries ?r)(t \<mapsto> e)" "generations r = generations ?r @ [new_close_generation]"
      using assms(2) Inr name by (auto simp: commit_def Let_def e_def split: option.splits if_splits)
    have "admitted k e = 0" for k by (cases k) (simp_all add: e_def admitted_def)
    then have "admission_inv (entries r) (tally admission_tag (admissions w))"
      using assms(1) fresh [OF name] by (auto simp: r session_inv_def admission_inv_def)
    moreover have "claims_inv r (claims w) (closers w)"
      using assms(1) close_inv_commit [of "entries ?r" "generations ?r" _ _ _ _ t e] fresh [OF name]
      by (auto simp: session_inv_def claims_inv_def r e_def)
    ultimately show ?thesis using idx(2) by (simp add: session_inv_def)
  qed
qed

lemma session_inv_admitted:
  assumes inv: "session_inv w" and e: "entries (sessions w) t = Some e" "lifecycle e = Active \<or> n \<le> admitted k e"
    and m: "tally admission_tag adm = (tally admission_tag (admissions w))((t, k) := n)"
  shows "session_inv (w\<lparr>sessions := set_entry t (set_admitted k n e) (sessions w), admissions := adm\<rparr>)"
proof -
  let ?r = "set_entry t (set_admitted k n e) (sessions w)"
  have "index_inv ?r" using inv index_inv_entry [of "sessions w" t e "set_admitted k n e" ?r] e(1) by (auto simp: session_inv_def)
  moreover have "admission_inv (entries ?r) (tally admission_tag adm)"
    using inv e(1) by (auto simp: m session_inv_def admission_inv_def)
  moreover have "entry_drained e \<longrightarrow> entry_drained (set_admitted k n e)" if "n \<le> admitted k e"
    using that by (cases k) (auto simp: entry_drained_def set_admitted_def admitted_def)
  then have "close_inv (entries ?r) (generations ?r) (tally Some (closers w)) (tally prepared_tag (claims w)) (tally invoked_tag (claims w))
      (tally participant_tag (claims w))"
    using inv e close_inv_entry [of "entries (sessions w)" _ _ _ _ _ t e "set_admitted k n e"] by (auto simp: session_inv_def claims_inv_def)
  ultimately show ?thesis using inv by (simp add: session_inv_def claims_inv_def)
qed

lemma session_inv_admit:
  assumes "session_inv w" "admit k t (sessions w) = (Inr a, r)" shows "session_inv (w\<lparr>sessions := r, admissions := admissions w @ [a]\<rparr>)"
proof -
  obtain e where e: "entries (sessions w) t = Some e" "lifecycle e = Active" "r = set_entry t (set_admitted k (admitted k e + 1) e) (sessions w)"
      "admission_tag a = Some (t, k)"
    using assms(2) by (auto simp: admit_def admission_tag_def split: option.splits if_splits)
  have "tally admission_tag (admissions w) (t, k) = admitted k e"
    using assms(1) e(1) by (simp add: session_inv_def admission_inv_def)
  then show ?thesis unfolding e(3) using e(1,2,4)
    by (intro session_inv_admitted [OF assms(1)]) (simp_all add: tally_append)
qed

text \<open>Giving up an owned admission takes one from its counter.\<close>

lemma release_counts:
  assumes "session_inv w" "i < length (admissions w)" "admission_tag (admissions w ! i) = Some (t, k)"
  shows "\<exists>e. entries (sessions w) t = Some e \<and> tally admission_tag (admissions w) (t, k) = admitted k e \<and> 0 < admitted k e
    \<and> release_admission t k (sessions w) = set_entry t (set_admitted k (admitted k e - 1) e) (sessions w)"
proof -
  have "0 < tally admission_tag (admissions w) (t, k)" using assms(2,3) by (rule tally_member)
  then show ?thesis using assms(1) by (auto simp: session_inv_def admission_inv_def release_admission_def split: option.splits)
qed

lemma session_inv_release:
  assumes "session_inv w" "i < length (admissions w)" "admission_reset (admissions w ! i) (sessions w) = (a, r)"
  shows "session_inv (w\<lparr>sessions := r, admissions := (admissions w)[i := a]\<rparr>)"
proof (cases "admission_tag (admissions w ! i)")
  case None
  then have "r = sessions w" "admission_tag a = None"
    using assms(3) by (auto simp: admission_reset_def admission_tag_def empty_admission_def split: if_splits)
  then show ?thesis using assms(1,2) None by (simp add: session_inv_def tally_update)
next
  case (Some tk)
  obtain t k where tk: "tk = (t, k)" by (cases tk)
  have r: "r = release_admission t k (sessions w)" "admission_tag a = None"
    using assms(3) Some tk by (auto simp: admission_reset_def admission_tag_def empty_admission_def split: if_splits)
  obtain e where e: "entries (sessions w) t = Some e" "tally admission_tag (admissions w) (t, k) = admitted k e" "0 < admitted k e"
      "release_admission t k (sessions w) = set_entry t (set_admitted k (admitted k e - 1) e) (sessions w)"
    using release_counts [OF assms(1,2)] Some tk by blast
  show ?thesis unfolding r(1) e(4) using Some tk r(2) e assms(2)
    by (intro session_inv_admitted [OF assms(1)]) (simp_all add: tally_update)
qed

text \<open>Move assignment is a release followed by a transfer between two handles.\<close>

lemma tally_swap:
  "i < length xs \<Longrightarrow> j < length xs \<Longrightarrow> i \<noteq> j \<Longrightarrow> f (xs ! i) = None \<Longrightarrow> f a = f (xs ! j) \<Longrightarrow> f b = None \<Longrightarrow> tally f (xs[i := a, j := b]) = tally f xs"
  using tally_member [of j xs f] by (cases "f (xs ! j)") (auto simp: tally_update fun_eq_iff)

lemma session_inv_move:
  assumes "session_inv w" "i < length (admissions w)" "j < length (admissions w)" "i \<noteq> j"
    "admission_kind (admissions w ! i) = admission_kind (admissions w ! j)"
    "admission_move (admissions w ! i) (admissions w ! j) (sessions w) = ((a, b), r)"
  shows "session_inv (w\<lparr>sessions := r, admissions := (admissions w)[i := a, j := b]\<rparr>)"
proof -
  obtain a0 where a0: "admission_reset (admissions w ! i) (sessions w) = (a0, r)" "admission_tag a0 = None"
      "admission_tag a = admission_tag (admissions w ! j)" "admission_tag b = None"
    using assms(5,6) by (auto simp: admission_move_def admission_reset_def admission_tag_def empty_admission_def Let_def split: if_splits)
  let ?w = "w\<lparr>sessions := r, admissions := (admissions w)[i := a0]\<rparr>"
  have "session_inv ?w" using session_inv_release [OF assms(1,2) a0(1)] .
  moreover have "(admissions w)[i := a, j := b] = ((admissions w)[i := a0])[i := a, j := b]" by simp
  then have "tally admission_tag ((admissions w)[i := a, j := b]) = tally admission_tag ((admissions w)[i := a0])"
    using tally_swap [of i "(admissions w)[i := a0]" j admission_tag a b] assms(2-4) a0 by simp
  ultimately show ?thesis by (simp add: session_inv_def)
qed


subsubsection \<open>Closing\<close>

lemma begin_close_enter_joined:
  assumes "begin_close_enter t allow r = (Inr (Joined c), r')"
  obtains e g where "entries r t = Some e" "close_generation e = Some g" "c = make_claim t (host_session e) g Joiner"
    "r' = set_generation g ((generations r ! g)\<lparr>participants := participants (generations r ! g) + 1\<rparr>) r"
  using assms by (auto simp: begin_close_enter_def Let_def simp del: map_of_eq_Some_iff split: option.splits if_splits)

lemma begin_close_enter_owns:
  assumes "begin_close_enter t allow r = (Inr (Owns_Progression g), r')"
  obtains e where "entries r t = Some e" "close_generation e = Some g" "lifecycle e = Active"
    "r' = set_entry t (e\<lparr>lifecycle := Closing\<rparr>)
       (set_generation g ((generations r ! g)\<lparr>generation := generation (generations r ! g) + 1, close_state := Preparing\<rparr>) r)"
  using assms by (auto simp: begin_close_enter_def Let_def simp del: map_of_eq_Some_iff split: option.splits if_splits)

lemma session_inv_parts:
  assumes "session_inv w"
  shows "index_inv (sessions w)" "admission_inv (entries (sessions w)) (tally admission_tag (admissions w))"
    "close_inv (entries (sessions w)) (generations (sessions w)) (tally Some (closers w)) (tally prepared_tag (claims w))
       (tally invoked_tag (claims w)) (tally participant_tag (claims w))"
    "c \<in> set (claims w) \<Longrightarrow> claim_owned c \<Longrightarrow> claim_generation c \<noteq> None"
  using assms by (auto simp: session_inv_def claims_inv_def)

text \<open>The shape of every close step: one session entry and its generation change.\<close>

lemma session_inv_close:
  assumes inv: "session_inv w" and e: "entries (sessions w) t = Some e" "close_generation e = Some g"
    and r: "index_inv r" "entries r = (entries (sessions w))(t := eo)" "generations r = (generations (sessions w))[g := c]"
    and adm: "\<And>e' k. eo = Some e' \<Longrightarrow> admitted k e' = admitted k e" "\<And>k. eo = None \<Longrightarrow> admitted k e = 0"
    and phase: "\<And>e'. eo = Some e' \<Longrightarrow> close_generation e' = Some g \<and> phase_ok (lifecycle e') (close_state c) wn pn iv (entry_drained e')"
    and gone: "eo = None \<Longrightarrow> close_state c = Completed \<and> wn = 0 \<and> pn = 0 \<and> iv = 0"
    and c: "participants c = n" "close_state c \<noteq> Completed \<Longrightarrow> terminal_status c = host_close_not_started_status"
    and tallies: "tally Some ws = (tally Some (closers w))((t, g) := wn)" "tally prepared_tag cl = (tally prepared_tag (claims w))((t, g) := pn)"
      "tally invoked_tag cl = (tally invoked_tag (claims w))((t, g) := iv)" "tally participant_tag cl = (tally participant_tag (claims w))(g := n)"
    and claimed: "\<And>c. c \<in> set cl \<Longrightarrow> claim_owned c \<Longrightarrow> claim_generation c \<noteq> None"
  shows "session_inv (w\<lparr>sessions := r, claims := cl, closers := ws\<rparr>)"
proof -
  have "admission_inv (entries r) (tally admission_tag (admissions w))"
    using inv e(1) adm unfolding r(2) by (cases eo) (auto simp: session_inv_def admission_inv_def)
  moreover have "claims_inv r cl ws"
    using claimed close_inv_local [OF session_inv_parts(3) [OF inv] e phase gone c]
    unfolding claims_inv_def r(2,3) tallies by blast
  ultimately show ?thesis using r(1) by (simp add: session_inv_def)
qed

lemma session_inv_participants:
  assumes inv: "session_inv w" and g: "g < length (generations (sessions w))"
      "0 < tally participant_tag (claims w) g \<or> (\<exists>t e. entries (sessions w) t = Some e \<and> close_generation e = Some g)"
    and cl: "tally prepared_tag cl = tally prepared_tag (claims w)" "tally invoked_tag cl = tally invoked_tag (claims w)"
      "tally participant_tag cl = (tally participant_tag (claims w))(g := n)"
      "\<And>c. c \<in> set cl \<Longrightarrow> claim_owned c \<Longrightarrow> claim_generation c \<noteq> None"
  shows "session_inv (w\<lparr>sessions := set_generation g ((generations (sessions w) ! g)\<lparr>participants := n\<rparr>) (sessions w), claims := cl\<rparr>)"
proof -
  have "index_inv (set_generation g ((generations (sessions w) ! g)\<lparr>participants := n\<rparr>) (sessions w))"
    using session_inv_parts(1) [OF inv] by (rule index_inv_same) simp_all
  then show ?thesis
    using session_inv_parts [OF inv] close_inv_participants [OF session_inv_parts(3) [OF inv] g] cl
    by (auto simp: session_inv_def claims_inv_def simp del: map_of_eq_Some_iff)
qed

lemma session_inv_join:
  assumes inv: "session_inv w" and b: "begin_close_enter t allow (sessions w) = (Inr (Joined c), r)"
  shows "session_inv (w\<lparr>sessions := r, claims := claims w @ [c]\<rparr>)"
  using b
proof (rule begin_close_enter_joined)
  fix e g assume e: "entries (sessions w) t = Some e" "close_generation e = Some g" "c = make_claim t (host_session e) g Joiner"
    "r = set_generation g ((generations (sessions w) ! g)\<lparr>participants := participants (generations (sessions w) ! g) + 1\<rparr>) (sessions w)"
  note g = close_inv_phase(1) [OF session_inv_parts(3) [OF inv] e(1,2)]
  show ?thesis unfolding e(4)
    by (rule session_inv_participants [OF inv g])
      (use e session_inv_parts(4) [OF inv] close_inv_cell(1) [OF session_inv_parts(3) [OF inv] g] in
        \<open>auto simp: tally_append claim_tags simp del: map_of_eq_Some_iff\<close>)
qed

lemma index_inv_lifecycle:
  assumes "index_inv r" "entries r t = Some e"
  shows "index_inv (set_entry t (e\<lparr>lifecycle := l\<rparr>) (set_generation g c r))"
  using assms(1) by (rule index_inv_entry [OF _ assms(2)]) simp_all

lemma drained_lifecycle [simp]: "entry_drained (e\<lparr>lifecycle := l\<rparr>) = entry_drained e" "admitted k (e\<lparr>lifecycle := l\<rparr>) = admitted k e"
  by (simp_all add: entry_drained_def admitted_def split: AdmissionKind.split)

lemma session_inv_own:
  assumes inv: "session_inv w" and b: "begin_close_enter t allow (sessions w) = (Inr (Owns_Progression g), r)"
  shows "session_inv (w\<lparr>sessions := r, closers := closers w @ [(t, g)]\<rparr>)"
  using b
proof (rule begin_close_enter_owns)
  let ?c = "generations (sessions w) ! g"
  fix e assume e: "entries (sessions w) t = Some e" "close_generation e = Some g" "lifecycle e = Active"
    "r = set_entry t (e\<lparr>lifecycle := Closing\<rparr>) (set_generation g (?c\<lparr>generation := generation ?c + 1, close_state := Preparing\<rparr>) (sessions w))"
  note parts = session_inv_parts [OF inv]
  note ph = close_inv_phase [OF parts(3) e(1,2), unfolded e(3)]
  have "session_inv (w\<lparr>sessions := r, claims := claims w, closers := closers w @ [(t, g)]\<rparr>)"
    by (rule session_inv_close [OF inv e(1,2), where eo = "Some (e\<lparr>lifecycle := Closing\<rparr>)" and wn = 1 and pn = 0 and iv = 0
          and n = "participants ?c" and c = "?c\<lparr>generation := generation ?c + 1, close_state := Preparing\<rparr>"])
      (use e ph index_inv_lifecycle [OF parts(1) e(1)] close_inv_cell [OF parts(3) ph(1)] parts(4) in
        \<open>auto simp: tally_append fun_upd_idem\<close>)
  then show ?thesis by simp
qed


text \<open>What the invariant says of the thread that owns a close, at each of its stages.\<close>

definition owner_stage :: "SessionWorld \<Rightarrow> string \<Rightarrow> nat \<Rightarrow> ActiveEntry \<Rightarrow> CloseState \<Rightarrow> nat \<Rightarrow> nat \<Rightarrow> nat \<Rightarrow> bool" where
  "owner_stage w t g e st wn pn iv \<longleftrightarrow> entries (sessions w) t = Some e \<and> close_generation e = Some g \<and> lifecycle e = Closing
     \<and> close_state (generations (sessions w) ! g) = st \<and> tally Some (closers w) (t, g) = wn \<and> tally prepared_tag (claims w) (t, g) = pn
     \<and> tally invoked_tag (claims w) (t, g) = iv"

lemma owner_stage_closing: "owner_stage w t g e st wn pn iv \<Longrightarrow> closing_as t (Some g) st (sessions w)"
  by (auto simp: owner_stage_def intro: closing_asI)

lemma owner_stages:
  assumes inv: "session_inv w"
  shows "(t, g) \<in> set (closers w) \<Longrightarrow> \<exists>e. owner_stage w t g e Preparing 1 0 0"
    "i < length (claims w) \<Longrightarrow> prepared_tag (claims w ! i) = Some (t, g) \<Longrightarrow> \<exists>e. owner_stage w t g e Preparing 0 1 0 \<and> entry_drained e"
    "i < length (claims w) \<Longrightarrow> invoked_tag (claims w ! i) = Some (t, g) \<Longrightarrow> \<exists>e. owner_stage w t g e HostInvoked 0 0 1 \<and> entry_drained e"
proof -
  note ci = session_inv_parts(3) [OF inv]
  have stage: "\<exists>e. entries (sessions w) t = Some e \<and> close_generation e = Some g \<and> lifecycle e = Closing
      \<and> phase_ok Closing (close_state (generations (sessions w) ! g)) (tally Some (closers w) (t, g)) (tally prepared_tag (claims w) (t, g))
          (tally invoked_tag (claims w) (t, g)) (entry_drained e)"
    if pos: "0 < tally Some (closers w) (t, g) + tally prepared_tag (claims w) (t, g) + tally invoked_tag (claims w) (t, g)"
  proof -
    from close_inv_owner [OF ci pos] obtain e where e: "entries (sessions w) t = Some e" "close_generation e = Some g" by blast
    then show ?thesis using close_inv_phase(2) [OF ci e] pos by (cases "lifecycle e") auto
  qed
  show "(t, g) \<in> set (closers w) \<Longrightarrow> \<exists>e. owner_stage w t g e Preparing 1 0 0"
  proof -
    assume "(t, g) \<in> set (closers w)"
    then have "0 < tally Some (closers w) (t, g)" by (metis in_set_conv_nth tally_member)
    with stage show ?thesis by (auto simp: owner_stage_def)
  qed
  show "\<exists>e. owner_stage w t g e Preparing 0 1 0 \<and> entry_drained e" if "i < length (claims w)" "prepared_tag (claims w ! i) = Some (t, g)"
  proof -
    have "0 < tally prepared_tag (claims w) (t, g)" using that by (rule tally_member)
    with stage show ?thesis by (auto simp: owner_stage_def)
  qed
  show "\<exists>e. owner_stage w t g e HostInvoked 0 0 1 \<and> entry_drained e" if "i < length (claims w)" "invoked_tag (claims w ! i) = Some (t, g)"
  proof -
    have "0 < tally invoked_tag (claims w) (t, g)" using that by (rule tally_member)
    with stage show ?thesis by (auto simp: owner_stage_def)
  qed
qed

text \<open>An owner moves to another stage, or gives the session back.\<close>

lemma session_inv_stage:
  assumes inv: "session_inv w" and st: "owner_stage w t g e st0 w0 p0 i0"
    and phase: "phase_ok l (close_state c) wn pn iv (entry_drained e)" and c: "close_state c \<noteq> Completed" "terminal_status c = terminal_status (generations (sessions w) ! g)"
    and r: "index_inv r" "entries r = (entries (sessions w))(t \<mapsto> e\<lparr>lifecycle := l\<rparr>)" "generations r = (generations (sessions w))[g := c]"
    and ws: "tally Some ws = (tally Some (closers w))((t, g) := wn)" and cl: "tally prepared_tag cl = (tally prepared_tag (claims w))((t, g) := pn)"
      "tally invoked_tag cl = (tally invoked_tag (claims w))((t, g) := iv)"
      "tally participant_tag cl = (tally participant_tag (claims w))(g := participants c)"
      "\<And>c. c \<in> set cl \<Longrightarrow> claim_owned c \<Longrightarrow> claim_generation c \<noteq> None"
    and live: "close_state (generations (sessions w) ! g) \<noteq> Completed"
  shows "session_inv (w\<lparr>sessions := r, claims := cl, closers := ws\<rparr>)"
proof -
  have e: "entries (sessions w) t = Some e" "close_generation e = Some g" using st by (simp_all add: owner_stage_def)
  note parts = session_inv_parts [OF inv]
  have ts: "terminal_status c = host_close_not_started_status"
    using c(2) live close_inv_cell(2) [OF parts(3) close_inv_phase(1) [OF parts(3) e]] by simp
  show ?thesis
    by (rule session_inv_close [OF inv e r]) (use phase ts e(2) ws cl in auto)
qed

lemma index_inv_generation: "index_inv r \<Longrightarrow> index_inv (set_generation g c r)"
  by (rule index_inv_same) simp_all

lemma same_entry: "owner_stage w t g e st wn pn iv \<Longrightarrow> entries (sessions w) = (entries (sessions w))(t \<mapsto> e\<lparr>lifecycle := Closing\<rparr>)"
  by (auto simp: owner_stage_def fun_eq_iff)

lemma reopen_stage:
  assumes "owner_stage w t g e st wn pn iv"
  shows "reopen t g (sessions w) = set_entry t (e\<lparr>lifecycle := Active\<rparr>)
    (set_generation g ((generations (sessions w) ! g)\<lparr>close_state := HostCloseNotStarted\<rparr>) (sessions w))"
  using assms by (simp add: reopen_def owner_stage_def)

lemma participants_cell:
  assumes "session_inv w" "owner_stage w t g e st wn pn iv"
  shows "g < length (generations (sessions w))" "participants (generations (sessions w) ! g) = tally participant_tag (claims w) g"
proof -
  note ci = session_inv_parts(3) [OF assms(1)]
  show g: "g < length (generations (sessions w))" using close_inv_phase(1) [OF ci] assms(2) by (auto simp: owner_stage_def)
  show "participants (generations (sessions w) ! g) = tally participant_tag (claims w) g" by (rule close_inv_cell(1) [OF ci g])
qed

lemma session_inv_wake:
  assumes inv: "session_inv w" and t: "(t, g) \<in> set (closers w)" "drained t (sessions w)"
    and b: "begin_close_wake t g (sessions w) = (Inr (Inr c), r)"
  shows "session_inv (w\<lparr>sessions := r, claims := claims w @ [c], closers := remove1 (t, g) (closers w)\<rparr>)"
proof -
  let ?c = "generations (sessions w) ! g"
  obtain e where st: "owner_stage w t g e Preparing 1 0 0" using owner_stages(1) [OF inv t(1)] by blast
  have c: "c = make_claim t (host_session e) g Owner" "r = set_generation g (?c\<lparr>participants := participants ?c + 1\<rparr>) (sessions w)"
    using b st by (auto simp: begin_close_wake_def owner_stage_def Let_def split: if_splits)
  have d: "entry_drained e" using t(2) st by (simp add: drained_def owner_stage_def entry_drained_def)
  show ?thesis
    by (rule session_inv_stage [OF inv st, where l = Closing and c = "?c\<lparr>participants := participants ?c + 1\<rparr>" and wn = 0 and pn = 1 and iv = 0])
      (use c d st same_entry [OF st] index_inv_generation [OF session_inv_parts(1) [OF inv]] participants_cell [OF inv st] t(1)
        session_inv_parts(4) [OF inv] in
        \<open>auto simp: owner_stage_def tally_append tally_remove1 claim_tags fun_upd_idem\<close>)
qed

lemma session_inv_reopen:
  assumes inv: "session_inv w" and t: "(t, g) \<in> set (closers w)"
  shows "session_inv (w\<lparr>sessions := reopen t g (sessions w), closers := remove1 (t, g) (closers w)\<rparr>)"
proof -
  let ?c = "generations (sessions w) ! g"
  obtain e where st: "owner_stage w t g e Preparing 1 0 0" using owner_stages(1) [OF inv t] by blast
  have e: "entries (sessions w) t = Some e" using st by (simp add: owner_stage_def)
  have "session_inv (w\<lparr>sessions := reopen t g (sessions w), claims := claims w, closers := remove1 (t, g) (closers w)\<rparr>)"
    unfolding reopen_stage [OF st]
    by (rule session_inv_stage [OF inv st, where l = Active and c = "?c\<lparr>close_state := HostCloseNotStarted\<rparr>" and wn = 0 and pn = 0 and iv = 0])
      (use st index_inv_lifecycle [OF session_inv_parts(1) [OF inv] e] participants_cell [OF inv st] t session_inv_parts(4) [OF inv] in
        \<open>auto simp: owner_stage_def tally_remove1 fun_upd_idem\<close>)
  then show ?thesis by simp
qed

lemma session_inv_wake_full:
  assumes inv: "session_inv w" and t: "(t, g) \<in> set (closers w)"
  shows "begin_close_wake t g (sessions w) = (Inr (Inl s), r) \<Longrightarrow> session_inv (w\<lparr>sessions := r, closers := remove1 (t, g) (closers w)\<rparr>)"
    "begin_close_wait_failed t g (sessions w) = (x, r) \<Longrightarrow> session_inv (w\<lparr>sessions := r, closers := remove1 (t, g) (closers w)\<rparr>)"
proof -
  have c: "closing_as t (Some g) Preparing (sessions w)" using owner_stages(1) [OF inv t] owner_stage_closing by blast
  show "begin_close_wake t g (sessions w) = (Inr (Inl s), r) \<Longrightarrow> session_inv (w\<lparr>sessions := r, closers := remove1 (t, g) (closers w)\<rparr>)"
    using session_inv_reopen [OF inv t] c by (auto simp: begin_close_wake_def Let_def split: if_splits option.splits)
  show "begin_close_wait_failed t g (sessions w) = (x, r) \<Longrightarrow> session_inv (w\<lparr>sessions := r, closers := remove1 (t, g) (closers w)\<rparr>)"
    using session_inv_reopen [OF inv t] c by (auto simp: begin_close_wait_failed_def Let_def)
qed


text \<open>A claim that may start or complete has a generation, so its tag is its session.\<close>

lemma claim_stage_tags:
  assumes "session_inv w" "i < length (claims w)"
  shows "may_start (claims w ! i) \<Longrightarrow> \<exists>g. claim_generation (claims w ! i) = Some g \<and> prepared_tag (claims w ! i) = Some (claim_token (claims w ! i), g)"
    "may_complete (claims w ! i) \<Longrightarrow> \<exists>g. claim_generation (claims w ! i) = Some g \<and> invoked_tag (claims w ! i) = Some (claim_token (claims w ! i), g)"
    "claim_owned (claims w ! i) \<Longrightarrow> \<exists>g. claim_generation (claims w ! i) = Some g \<and> participant_tag (claims w ! i) = Some g"
  using session_inv_parts(4) [OF assms(1) nth_mem [OF assms(2)]]
  by (auto simp: may_start_def may_complete_def prepared_tag_def invoked_tag_def participant_tag_def)

lemma claims_update:
  assumes "session_inv w" "claim_owned c \<Longrightarrow> claim_generation c \<noteq> None" "x \<in> set ((claims w)[i := c])" "claim_owned x"
  shows "claim_generation x \<noteq> None"
proof -
  have "x \<in> insert c (set (claims w))" using assms(3) set_update_subset_insert by fastforce
  then show ?thesis using assms session_inv_parts(4) [OF assms(1)] by blast
qed

lemma mark_host_close_started_result:
  assumes "mark_host_close_started c r = (Inr c', r')" "claim_generation c = Some g"
  shows "c' = c\<lparr>host_close_started := True\<rparr>" "r' = set_generation g ((generations r ! g)\<lparr>close_state := HostInvoked\<rparr>) r"
  using assms by (simp_all add: mark_host_close_started_def registry_mark_host_close_started_def split: if_splits)

lemma complete_host_close_result:
  assumes "complete_host_close c s r = (Inr c', r')" "claim_generation c = Some g" "entries r (claim_token c) = Some e"
  shows "c' = c\<lparr>host_close_completed := True\<rparr>"
    "r' = r\<lparr>generations := (generations r)[g := (generations r ! g)\<lparr>terminal_status := s, close_state := Completed\<rparr>],
        active_by_name := AList.delete (session_name e) (active_by_name r),
        active_by_host := AList.delete (host_session e) (active_by_host r),
        active_by_token := AList.delete (claim_token c) (active_by_token r)\<rparr>"
  using assms by (simp_all add: complete_host_close_def registry_complete_host_close_def set_generation_def Let_def split: if_splits)

lemma session_inv_start:
  assumes inv: "session_inv w" and i: "i < length (claims w)" "may_start (claims w ! i)"
    and b: "mark_host_close_started (claims w ! i) (sessions w) = (Inr c, r)"
  shows "session_inv (w\<lparr>sessions := r, claims := (claims w)[i := c]\<rparr>)"
proof -
  obtain t g where g: "claim_token (claims w ! i) = t" "claim_generation (claims w ! i) = Some g" "prepared_tag (claims w ! i) = Some (t, g)"
    using claim_stage_tags(1) [OF inv i] by blast
  let ?c = "generations (sessions w) ! g"
  obtain e where st: "owner_stage w t g e Preparing 0 1 0" "entry_drained e" using owner_stages(2) [OF inv i(1) g(3)] by blast
  have c: "c = (claims w ! i)\<lparr>host_close_started := True\<rparr>" "r = set_generation g (?c\<lparr>close_state := HostInvoked\<rparr>) (sessions w)"
    using mark_host_close_started_result [OF b g(2)] by simp_all
  have tags: "prepared_tag c = None" "invoked_tag c = Some (t, g)" "invoked_tag (claims w ! i) = None"
      "participant_tag c = Some g" "participant_tag (claims w ! i) = Some g"
    using i(2) g unfolding c by (simp_all add: prepared_tag_def invoked_tag_def participant_tag_def may_start_def may_complete_def)
  have pos: "0 < tally participant_tag (claims w) g" using i(1) tags(5) by (rule tally_member)
  have "session_inv (w\<lparr>sessions := r, claims := (claims w)[i := c], closers := closers w\<rparr>)"
  proof (rule session_inv_stage [OF inv st(1), where l = Closing and c = "?c\<lparr>close_state := HostInvoked\<rparr>" and wn = 0 and pn = 0 and iv = 1])
    show "claim_generation x \<noteq> None" if "x \<in> set ((claims w)[i := c])" "claim_owned x" for x
      by (rule claims_update [OF inv _ that]) (simp add: c(1) g(2))
    show "entries r = (entries (sessions w))(t \<mapsto> e\<lparr>lifecycle := Closing\<rparr>)" unfolding same_entry [OF st(1), symmetric] c(2) by simp
    show "index_inv r" unfolding c(2) by (rule index_inv_generation [OF session_inv_parts(1) [OF inv]])
  qed (use c(2) st participants_cell [OF inv st(1)] i(1) g(3) tags pos in \<open>simp_all add: owner_stage_def tally_update fun_upd_idem\<close>)
  then show ?thesis by simp
qed

lemma index_inv_erase:
  assumes inv: "index_inv r" and e: "entries r t = Some e"
    and r: "active_by_token r' = AList.delete t (active_by_token r)" "active_by_host r' = AList.delete (host_session e) (active_by_host r)"
      "active_by_name r' = AList.delete (session_name e) (active_by_name r)" "pending_by_token r' = pending_by_token r"
      "pending_by_name r' = pending_by_name r"
  shows "index_inv r'"
proof -
  have "converse_maps (entry_table host_session r') (map_of (active_by_host r'))"
       "converse_maps (entry_table session_name r') (map_of (active_by_name r'))"
    using inv e unfolding r map_of_AList map_option_upd by (auto simp: index_inv_def intro!: converse_maps_delete simp del: map_of_eq_Some_iff)
  then show ?thesis using inv r by (auto simp: index_inv_def)
qed

lemma session_inv_complete:
  assumes inv: "session_inv w" and i: "i < length (claims w)" "may_complete (claims w ! i)"
    and b: "complete_host_close (claims w ! i) s (sessions w) = (Inr c, r)"
  shows "session_inv (w\<lparr>sessions := r, claims := (claims w)[i := c]\<rparr>)"
proof -
  obtain t g where g: "claim_token (claims w ! i) = t" "claim_generation (claims w ! i) = Some g" "invoked_tag (claims w ! i) = Some (t, g)"
    using claim_stage_tags(2) [OF inv i] by blast
  let ?c = "(generations (sessions w) ! g)\<lparr>terminal_status := s, close_state := Completed\<rparr>"
  obtain e where st: "owner_stage w t g e HostInvoked 0 0 1" "entry_drained e" using owner_stages(3) [OF inv i(1) g(3)] by blast
  have e: "entries (sessions w) t = Some e" "close_generation e = Some g" using st(1) by (simp_all add: owner_stage_def)
  have c: "c = (claims w ! i)\<lparr>host_close_completed := True\<rparr>" "active_by_token r = AList.delete t (active_by_token (sessions w))"
      "active_by_host r = AList.delete (host_session e) (active_by_host (sessions w))"
      "active_by_name r = AList.delete (session_name e) (active_by_name (sessions w))" "pending_by_token r = pending_by_token (sessions w)"
      "pending_by_name r = pending_by_name (sessions w)" "generations r = (generations (sessions w))[g := ?c]"
    using complete_host_close_result [OF b g(2), of e] e(1) g(1) by simp_all
  have tags: "prepared_tag c = None" "invoked_tag c = None" "prepared_tag (claims w ! i) = None"
      "participant_tag c = Some g" "participant_tag (claims w ! i) = Some g"
    using i(2) g unfolding c(1) by (simp_all add: prepared_tag_def invoked_tag_def participant_tag_def may_start_def may_complete_def)
  have pos: "0 < tally participant_tag (claims w) g" using i(1) tags(5) by (rule tally_member)
  have r: "index_inv r" "entries r = (entries (sessions w))(t := None)"
    using index_inv_erase [OF session_inv_parts(1) [OF inv] e(1) c(2-6)] c(2) by simp_all
  have "admitted k e = 0" for k using st(2) by (cases k) (simp_all add: entry_drained_def admitted_def)
  then have "session_inv (w\<lparr>sessions := r, claims := (claims w)[i := c], closers := closers w\<rparr>)"
  proof (intro session_inv_close [OF inv e r c(7), where wn = 0 and pn = 0 and iv = 0 and n = "participants ?c"])
    show "claim_generation x \<noteq> None" if "x \<in> set ((claims w)[i := c])" "claim_owned x" for x
      by (rule claims_update [OF inv _ that]) (simp add: c(1) g(2))
  qed (use st participants_cell [OF inv st(1)] i(1) g(3) tags pos in \<open>simp_all add: owner_stage_def tally_update fun_upd_idem\<close>)
  then show ?thesis by simp
qed


lemma claim_reset_result:
  assumes "claim_reset c r = (Inr c', r')" "claim_owned c" "claim_generation c = Some g"
  shows "c' = empty_claim"
    "r' = (let r1 = (if may_start c then reopen (claim_token c) g r else r)
           in set_generation g ((generations r1 ! g)\<lparr>participants := participants (generations r1 ! g) - 1\<rparr>) r1)"
  using assms by (auto simp: claim_reset_def release_close_claim_def may_start_def Let_def split: if_splits)

lemma claim_dropped:
  assumes "\<not> may_complete c" "\<not> may_start c" shows "prepared_tag c = None" "invoked_tag c = None"
  using assms by (simp_all add: prepared_tag_def invoked_tag_def)

lemma session_inv_drop:
  assumes inv: "session_inv w" and i: "i < length (claims w)" "\<not> may_complete (claims w ! i)"
    and b: "claim_reset (claims w ! i) (sessions w) = (Inr c, r)"
  shows "session_inv (w\<lparr>sessions := r, claims := (claims w)[i := c]\<rparr>)"
proof (cases "claim_owned (claims w ! i)")
  case False
  then have c: "c = empty_claim" "r = sessions w" using b by (auto simp: claim_reset_def)
  have "participant_tag (claims w ! i) = None" "prepared_tag (claims w ! i) = None" "invoked_tag (claims w ! i) = None"
    using False by (simp_all add: participant_tag_def prepared_tag_def invoked_tag_def may_start_def may_complete_def)
  moreover have "claim_generation x \<noteq> None" if "x \<in> set ((claims w)[i := c])" "claim_owned x" for x
    by (rule claims_update [OF inv _ that]) (simp add: c(1) claim_tags)
  ultimately show ?thesis using inv i(1) c by (simp add: session_inv_def claims_inv_def tally_update claim_tags)
next
  case own: True
  then obtain g where g: "claim_generation (claims w ! i) = Some g" "participant_tag (claims w ! i) = Some g"
    using claim_stage_tags(3) [OF inv i(1)] by blast
  note res = claim_reset_result [OF b own g(1)]
  have pos: "0 < tally participant_tag (claims w) g" using i(1) g(2) by (rule tally_member)
  have len: "g < length (generations (sessions w))"
    using close_inv_beyond [OF session_inv_parts(3) [OF inv], of g] pos by (cases "g < length (generations (sessions w))") auto
  note cell = close_inv_cell(1) [OF session_inv_parts(3) [OF inv] len]
  have owned: "claim_generation x \<noteq> None" if "x \<in> set ((claims w)[i := c])" "claim_owned x" for x
    by (rule claims_update [OF inv _ that]) (simp add: res(1) claim_tags)
  show ?thesis
  proof (cases "may_start (claims w ! i)")
    case False
    note none = claim_dropped [OF i(2) False]
    have r: "r = set_generation g ((generations (sessions w) ! g)\<lparr>participants := tally participant_tag (claims w) g - 1\<rparr>) (sessions w)"
      using res(2) False cell by (simp add: Let_def)
    show ?thesis unfolding r
      by (rule session_inv_participants [OF inv len]) (use pos none i(1) g(2) owned res(1) in \<open>simp_all add: tally_update claim_tags\<close>)
  next
    case start: True
    let ?t = "claim_token (claims w ! i)"
    let ?c = "(generations (sessions w) ! g)\<lparr>close_state := HostCloseNotStarted, participants := tally participant_tag (claims w) g - 1\<rparr>"
    have tag: "prepared_tag (claims w ! i) = Some (?t, g)" "invoked_tag (claims w ! i) = None"
      using claim_stage_tags(1) [OF inv i(1) start] g(1) i(2) by (auto simp: invoked_tag_def)
    obtain e where st: "owner_stage w ?t g e Preparing 0 1 0" using owner_stages(2) [OF inv i(1) tag(1)] by blast
    have e: "entries (sessions w) ?t = Some e" using st by (simp add: owner_stage_def)
    have r: "entries r = (entries (sessions w))(?t \<mapsto> e\<lparr>lifecycle := Active\<rparr>)" "generations r = (generations (sessions w))[g := ?c]" "index_inv r"
      using res(2) start len cell index_inv_generation [OF index_inv_lifecycle [OF session_inv_parts(1) [OF inv] e]]
      by (simp_all add: reopen_stage [OF st] Let_def)
    have "session_inv (w\<lparr>sessions := r, claims := (claims w)[i := c], closers := closers w\<rparr>)"
    proof (rule session_inv_stage [OF inv st _ _ _ r(3,1,2), where wn = 0 and pn = 0 and iv = 0])
      show "claim_generation x \<noteq> None" if "x \<in> set ((claims w)[i := c])" "claim_owned x" for x using that by (rule owned)
    qed (use st i(1) g(2) tag res(1) in \<open>simp_all add: owner_stage_def tally_update claim_tags fun_upd_idem\<close>)
    then show ?thesis by simp
  qed
qed

lemma session_inv_move_claim:
  assumes inv: "session_inv w" and i: "i < length (claims w)" "j < length (claims w)" "i \<noteq> j" "\<not> may_complete (claims w ! i)"
    and b: "claim_move (claims w ! i) (claims w ! j) (sessions w) = (Inr (c, d), r)"
  shows "session_inv (w\<lparr>sessions := r, claims := (claims w)[i := c, j := d]\<rparr>)"
proof -
  obtain c0 where c0: "claim_reset (claims w ! i) (sessions w) = (Inr c0, r)" "c = claims w ! j" "\<not> claim_owned d"
    using b by (auto simp: claim_move_def split: prod.splits sum.splits)
  have e0: "c0 = empty_claim" using c0(1) by (auto simp: claim_reset_def split: prod.splits sum.splits if_splits)
  let ?w = "w\<lparr>sessions := r, claims := (claims w)[i := c0]\<rparr>"
  have inv': "session_inv ?w" using session_inv_drop [OF inv i(1,4) c0(1)] .
  have cl: "(claims w)[i := c, j := d] = (claims ?w)[i := c, j := d]" by simp
  have tags: "participant_tag d = None" "prepared_tag d = None" "invoked_tag d = None"
    using c0(3) by (simp_all add: participant_tag_def prepared_tag_def invoked_tag_def may_start_def may_complete_def)
  have same: "tally f ((claims w)[i := c, j := d]) = tally f (claims ?w)" if "f empty_claim = None" "f d = None" for f :: "CloseClaim \<Rightarrow> 'a option"
    unfolding cl by (rule tally_swap) (use i c0(2) e0 that in simp_all)
  have "claim_generation x \<noteq> None" if "x \<in> set ((claims w)[i := c, j := d])" "claim_owned x" for x
  proof -
    have "x \<in> insert d (insert c (set (claims w)))"
      using that(1) set_update_subset_insert [of "(claims w)[i := c]" j d] set_update_subset_insert [of "claims w" i c] by auto
    then show ?thesis using that(2) c0(2,3) session_inv_parts(4) [OF inv] nth_mem [OF i(2)] by auto
  qed
  then show ?thesis using inv' tags by (simp add: session_inv_def claims_inv_def same claim_tags)
qed

lemma session_inv_switch: "session_inv w \<Longrightarrow> session_inv (w\<lparr>sessions := start_admission (sessions w)\<rparr>)"
  "session_inv w \<Longrightarrow> session_inv (w\<lparr>sessions := stop_admission (sessions w)\<rparr>)"
  by (simp_all add: start_admission_def stop_admission_def session_inv_def index_inv_def claims_inv_def)

lemma tally_none: "(\<And>a. a \<in> set xs \<Longrightarrow> f a = None) \<Longrightarrow> tally f xs = (\<lambda>_. 0)"
  by (auto simp: fun_eq_iff tally_zero_iff)

lemma session_inv_clear:
  assumes "session_inv w" "closers w = []" "list_all (\<lambda>c. \<not> claim_owned c) (claims w)" "list_all (\<lambda>a. \<not> admission_owned a) (admissions w)"
  shows "session_inv (w\<lparr>sessions := clear (sessions w)\<rparr>)"
proof -
  have t: "tally prepared_tag (claims w) = (\<lambda>_. 0)" "tally invoked_tag (claims w) = (\<lambda>_. 0)" "tally participant_tag (claims w) = (\<lambda>_. 0)"
      "tally admission_tag (admissions w) = (\<lambda>_. 0)"
    using assms(3,4) by (auto intro!: tally_none simp: list_all_iff prepared_tag_def invoked_tag_def participant_tag_def admission_tag_def may_start_def may_complete_def)
  have "index_inv (clear (sessions w))" by (simp add: clear_def index_inv_def converse_maps_def)
  moreover have "close_inv Map.empty (generations (sessions w)) (\<lambda>_. 0) (\<lambda>_. 0) (\<lambda>_. 0) (\<lambda>_. 0)"
    using close_inv_cell(1,2) [OF session_inv_parts(3) [OF assms(1)]] t(3) by (simp add: close_inv_def)
  ultimately show ?thesis using assms by (simp add: session_inv_def claims_inv_def t clear_def admission_inv_def list_all_iff)
qed

lemma session_inv_init: "session_init w \<Longrightarrow> session_inv w"
  by (simp add: session_init_def session_inv_def claims_inv_def new_session_registry_def index_inv_def converse_maps_def close_inv_def admission_inv_def)

lemma session_inv_step: "session_step w w' \<Longrightarrow> session_inv w \<Longrightarrow> session_inv w'"
  by (induction rule: session_step.induct)
    (blast intro: session_inv_reserve session_inv_commit session_inv_rollback session_inv_admit session_inv_release session_inv_move
      session_inv_join session_inv_own session_inv_wake session_inv_wake_full session_inv_start session_inv_complete session_inv_drop
      session_inv_move_claim session_inv_switch session_inv_clear)+

interpretation session: inv_system session_init session_step session_inv
  by unfold_locales (auto intro: session_inv_init session_inv_step)


subsection \<open>Results of a close\<close>

text \<open>A cell whose result is out and that still has participants keeps it.\<close>

definition results_kept :: "CloseGeneration list \<Rightarrow> CloseGeneration list \<Rightarrow> bool" where
  "results_kept G G' \<longleftrightarrow> length G \<le> length G' \<and> (\<forall>g < length G. close_state (G ! g) \<in> {Completed, HostCloseNotStarted} \<longrightarrow> participants (G ! g) \<noteq> 0
     \<longrightarrow> close_state (G' ! g) = close_state (G ! g) \<and> terminal_status (G' ! g) = terminal_status (G ! g))"

lemma results_kept_simps [simp]: "results_kept G G" "results_kept G (G @ [c])"
  by (auto simp: results_kept_def nth_append)

lemma results_kept_cell:
  "close_state c = close_state (G ! g) \<and> terminal_status c = terminal_status (G ! g) \<or> close_state (G ! g) \<notin> {Completed, HostCloseNotStarted}
     \<or> participants (G ! g) = 0 \<Longrightarrow> results_kept G (G[g := c])"
  by (cases "g < length G") (auto simp: results_kept_def nth_list_update list_update_beyond not_less)

lemma results_kept_reopen:
  assumes "closing_as t (Some g) Preparing r" shows "results_kept (generations r) (generations (reopen t g r))"
  using closing_asD(1) [OF assms] by (auto simp: reopen_def intro!: results_kept_cell)

lemma results_kept_enter: "begin_close_enter t allow r = (x, r') \<Longrightarrow> results_kept (generations r) (generations r')"
  by (auto simp: begin_close_enter_def Let_def simp del: map_of_eq_Some_iff split: option.splits if_splits intro!: results_kept_cell)

lemma results_kept_wake: "begin_close_wake t g r = (x, r') \<Longrightarrow> results_kept (generations r) (generations r')"
  by (auto simp: begin_close_wake_def Let_def simp del: map_of_eq_Some_iff split: option.splits if_splits
      intro!: results_kept_cell dest: results_kept_reopen)

lemma results_kept_claim:
  "mark_host_close_started c r = (x, r') \<Longrightarrow> results_kept (generations r) (generations r')"
  "complete_host_close c s r = (x, r') \<Longrightarrow> results_kept (generations r) (generations r')"
  by (auto simp: mark_host_close_started_def registry_mark_host_close_started_def complete_host_close_def registry_complete_host_close_def Let_def
      simp del: map_of_eq_Some_iff split: option.splits if_splits intro!: results_kept_cell dest!: closing_asD(1))

lemma results_kept_reset:
  assumes "session_inv w" "i < length (claims w)" "claim_reset (claims w ! i) (sessions w) = (Inr c, r)"
  shows "results_kept (generations (sessions w)) (generations r)"
proof (cases "claim_owned (claims w ! i)")
  case True
  then obtain g where g: "claim_generation (claims w ! i) = Some g" using claim_stage_tags(3) [OF assms(1,2)] by blast
  note res = claim_reset_result(2) [OF assms(3) True g]
  show ?thesis
  proof (cases "may_start (claims w ! i)")
    case start: True
    then have "prepared_tag (claims w ! i) = Some (claim_token (claims w ! i), g)" using claim_stage_tags(1) [OF assms(1,2)] g by auto
    then obtain e where "owner_stage w (claim_token (claims w ! i)) g e Preparing 0 1 0" using owner_stages(2) [OF assms(1,2)] by blast
    then show ?thesis unfolding res using start by (simp add: Let_def reopen_stage) (simp add: owner_stage_def results_kept_cell)
  next
    case False
    then show ?thesis unfolding res by (auto simp: Let_def intro!: results_kept_cell)
  qed
qed (use assms(3) in \<open>auto simp: claim_reset_def\<close>)

lemma results_kept_quiet:
  "reserve gen name r = (x, r') \<Longrightarrow> generations r' = generations r" "generations (rollback t r) = generations r"
  "admit k t r = (y, r') \<Longrightarrow> generations r' = generations r" "generations (release_admission t k r) = generations r"
  "admission_reset a r = (b, r') \<Longrightarrow> generations r' = generations r" "admission_move a a' r = (z, r') \<Longrightarrow> generations r' = generations r"
  "commit t host r = (v, r') \<Longrightarrow> generations r' = generations r \<or> generations r' = generations r @ [new_close_generation]"
proof -
  show rel: "generations (release_admission t k r) = generations r" for t k r
    by (auto simp: release_admission_def split: option.split)
  show "admission_reset a r = (b, r') \<Longrightarrow> generations r' = generations r" "admission_move a a' r = (z, r') \<Longrightarrow> generations r' = generations r"
    by (auto simp: admission_reset_def admission_move_def rel split: if_splits)
qed (auto simp: reserve_def rollback_def admit_def commit_def Let_def split: if_splits sum.splits option.splits)

lemma session_step_results:
  assumes "session_step w w'" "session_inv w" shows "results_kept (generations (sessions w)) (generations (sessions w'))"
  using assms
proof (cases rule: session_step.cases)
  case (step_commit t host x r)
  then show ?thesis using results_kept_quiet(7) by fastforce
next
  case (step_wait_failed t g x r)
  then show ?thesis by (auto simp: begin_close_wait_failed_def Let_def dest: results_kept_reopen split: if_splits)
next
  case (step_drop i c r)
  then show ?thesis using results_kept_reset [OF assms(2)] by simp
next
  case (step_move_claim i j c d r)
  then obtain c0 where "claim_reset (claims w ! i) (sessions w) = (Inr c0, r)" by (auto simp: claim_move_def split: prod.splits sum.splits)
  then show ?thesis using results_kept_reset [OF assms(2)] step_move_claim by simp
qed (auto simp: start_admission_def stop_admission_def clear_def results_kept_quiet
      dest: results_kept_quiet(1,3,5,6) results_kept_enter results_kept_wake results_kept_claim)


subsection \<open>Owners of one session\<close>

lemma tally_as: "(\<And>x. x \<in> set xs \<Longrightarrow> P x = (f x = Some y)) \<Longrightarrow> length (filter P xs) = tally f xs y"
  by (simp add: tally_def cong: filter_cong)

lemma waiting_stage: "session_inv w \<Longrightarrow> x \<in> set (closers w) \<Longrightarrow> \<exists>e. owner_stage w (fst x) (snd x) e Preparing 1 0 0"
  by (rule owner_stages(1)) simp_all

text \<open>All owners of a session work on the one generation of its entry, so they can be counted by session.\<close>

lemma owners_by_session:
  assumes inv: "session_inv w" and e: "entries (sessions w) t = Some e" "close_generation e = Some g"
  shows "length (filter (\<lambda>x. fst x = t) (closers w)) = tally Some (closers w) (t, g)"
    "length (filter (\<lambda>c. claim_token c = t \<and> may_start c) (claims w)) = tally prepared_tag (claims w) (t, g)"
    "length (filter (\<lambda>c. claim_token c = t \<and> may_complete c) (claims w)) = tally invoked_tag (claims w) (t, g)"
proof -
  have "(fst x = t) = (Some x = Some (t, g))" if x: "x \<in> set (closers w)" for x
  proof -
    obtain e' where "owner_stage w (fst x) (snd x) e' Preparing 1 0 0" using waiting_stage [OF inv x] by blast
    then show ?thesis using e by (cases x) (auto simp: owner_stage_def)
  qed
  then show "length (filter (\<lambda>x. fst x = t) (closers w)) = tally Some (closers w) (t, g)"
    by (rule tally_as)
  have st: "(claim_token c = t \<and> may_start c) = (prepared_tag c = Some (t, g))" if c: "c \<in> set (claims w)" for c
  proof -
    obtain i where i: "i < length (claims w)" "claims w ! i = c" using c by (auto simp: in_set_conv_nth)
    show ?thesis
    proof
      assume a: "claim_token c = t \<and> may_start c"
      then obtain g' where g': "prepared_tag c = Some (t, g')" using claim_stage_tags(1) [OF inv i(1)] i(2) by auto
      then have "g' = g" using owner_stages(2) [OF inv i(1), of t g'] i(2) e by (auto simp: owner_stage_def)
      then show "prepared_tag c = Some (t, g)" using g' by simp
    qed (auto simp: prepared_tag_def split: if_splits)
  qed
  then show "length (filter (\<lambda>c. claim_token c = t \<and> may_start c) (claims w)) = tally prepared_tag (claims w) (t, g)"
    by (rule tally_as)
  have "(claim_token c = t \<and> may_complete c) = (invoked_tag c = Some (t, g))" if c: "c \<in> set (claims w)" for c
  proof -
    obtain i where i: "i < length (claims w)" "claims w ! i = c" using c by (auto simp: in_set_conv_nth)
    show ?thesis
    proof
      assume a: "claim_token c = t \<and> may_complete c"
      then obtain g' where g': "invoked_tag c = Some (t, g')" using claim_stage_tags(2) [OF inv i(1)] i(2) by auto
      then have "g' = g" using owner_stages(3) [OF inv i(1), of t g'] i(2) e by (auto simp: owner_stage_def)
      then show "invoked_tag c = Some (t, g)" using g' by simp
    qed (auto simp: invoked_tag_def split: if_splits)
  qed
  then show "length (filter (\<lambda>c. claim_token c = t \<and> may_complete c) (claims w)) = tally invoked_tag (claims w) (t, g)"
    by (rule tally_as)
qed

lemma one_owner:
  assumes inv: "session_inv w"
  shows "length (filter (\<lambda>x. fst x = t) (closers w)) + length (filter (\<lambda>c. claim_token c = t \<and> may_start c) (claims w))
    + length (filter (\<lambda>c. claim_token c = t \<and> may_complete c) (claims w)) \<le> 1"
proof (cases "entries (sessions w) t")
  case None
  have "fst x \<noteq> t" if x: "x \<in> set (closers w)" for x
  proof -
    obtain e' where "owner_stage w (fst x) (snd x) e' Preparing 1 0 0" using waiting_stage [OF inv x] by blast
    then show ?thesis using None by (auto simp: owner_stage_def)
  qed
  moreover have "\<not> (claim_token c = t \<and> may_start c) \<and> \<not> (claim_token c = t \<and> may_complete c)" if c: "c \<in> set (claims w)" for c
  proof -
    obtain i where i: "i < length (claims w)" "claims w ! i = c" using c by (auto simp: in_set_conv_nth)
    show ?thesis
      using claim_stage_tags(1,2) [OF inv i(1)] owner_stages(2,3) [OF inv i(1), of t] i(2) None by (auto simp: owner_stage_def)
  qed
  ultimately show ?thesis by (simp add: filter_False)
next
  case (Some e)
  obtain g where g: "close_generation e = Some g" "g < length (generations (sessions w))"
    by (rule close_inv_generation [OF session_inv_parts(3) [OF inv] Some])
  show ?thesis using close_inv_phase(2) [OF session_inv_parts(3) [OF inv] Some g(1)] owners_by_session [OF inv Some g(1)]
    by (cases "lifecycle e") auto
qed

lemma drained_no_admission:
  assumes "session_inv w" "entries (sessions w) t = Some e" "entry_drained e" "a \<in> set (admissions w)" "admission_owned a"
  shows "admission_token a \<noteq> t"
proof
  assume "admission_token a = t"
  then have "tally admission_tag (admissions w) (t, admission_kind a) \<noteq> 0"
    using assms(4,5) unfolding tally_zero_iff by (auto simp: admission_tag_def)
  moreover have "admitted k e = 0" for k using assms(3) by (cases k) (simp_all add: entry_drained_def admitted_def)
  ultimately show False using session_inv_parts(2) [OF assms(1)] assms(2) by (simp add: admission_inv_def)
qed

text \<open>No call of the close protocol meets a terminating branch.\<close>

lemma close_calls_return:
  assumes inv: "session_inv w"
  shows "i < length (claims w) \<Longrightarrow> may_start (claims w ! i) \<Longrightarrow> \<exists>c r. mark_host_close_started (claims w ! i) (sessions w) = (Inr c, r)"
    "i < length (claims w) \<Longrightarrow> may_complete (claims w ! i) \<Longrightarrow> terminal_close_status s
      \<Longrightarrow> \<exists>c r. complete_host_close (claims w ! i) s (sessions w) = (Inr c, r)"
    "i < length (claims w) \<Longrightarrow> \<not> may_complete (claims w ! i) \<Longrightarrow> \<exists>c r. claim_reset (claims w ! i) (sessions w) = (Inr c, r)"
    "x \<in> set (closers w) \<Longrightarrow> \<exists>y r. begin_close_wake (fst x) (snd x) (sessions w) = (Inr y, r)"
proof -
  note tags = claim_stage_tags [OF inv]
  have prep: "claim_active (claims w ! i) \<and> closing_as (claim_token (claims w ! i)) (claim_generation (claims w ! i)) Preparing (sessions w)"
    if i: "i < length (claims w)" "may_start (claims w ! i)"
  proof -
    obtain g where g: "claim_generation (claims w ! i) = Some g" "prepared_tag (claims w ! i) = Some (claim_token (claims w ! i), g)"
      using tags(1) [OF i] by blast
    then show ?thesis using owner_stages(2) [OF inv i(1) g(2)] owner_stage_closing i(2) by (auto simp: claim_active_def may_start_def)
  qed
  show "\<exists>c r. mark_host_close_started (claims w ! i) (sessions w) = (Inr c, r)" if "i < length (claims w)" "may_start (claims w ! i)"
    using prep [OF that] tags(1) [OF that] that(2)
    by (auto simp: mark_host_close_started_def registry_mark_host_close_started_def may_start_def)
  show "\<exists>c r. claim_reset (claims w ! i) (sessions w) = (Inr c, r)" if i: "i < length (claims w)" "\<not> may_complete (claims w ! i)"
  proof (cases "claim_owned (claims w ! i)")
    case own: True
    then obtain g where g: "claim_generation (claims w ! i) = Some g" "participant_tag (claims w ! i) = Some g" using tags(3) [OF i(1)] by blast
    have pos: "0 < tally participant_tag (claims w) g" using i(1) g(2) by (rule tally_member)
    then have "g < length (generations (sessions w))"
      using close_inv_beyond [OF session_inv_parts(3) [OF inv], of g] by (cases "g < length (generations (sessions w))") auto
    then have "participants (generations (sessions w) ! g) \<noteq> 0" using close_inv_cell(1) [OF session_inv_parts(3) [OF inv]] pos by simp
    then show ?thesis using own g(1) i(2) prep [OF i(1)]
      by (cases "claim_role (claims w ! i)") (auto simp: claim_reset_def release_close_claim_def may_complete_def may_start_def Let_def)
  qed (simp add: claim_reset_def)
  show "\<exists>c r. complete_host_close (claims w ! i) s (sessions w) = (Inr c, r)"
    if i: "i < length (claims w)" "may_complete (claims w ! i)" and s: "terminal_close_status s"
  proof -
    obtain g where g: "claim_generation (claims w ! i) = Some g" "invoked_tag (claims w ! i) = Some (claim_token (claims w ! i), g)"
      using tags(2) [OF i] by blast
    obtain e where st: "owner_stage w (claim_token (claims w ! i)) g e HostInvoked 0 0 1" using owner_stages(3) [OF inv i(1) g(2)] by blast
    then have "entries (sessions w) (claim_token (claims w ! i)) = Some e" by (simp add: owner_stage_def)
    then show ?thesis using owner_stage_closing [OF st] g(1) i(2) s
      by (auto simp: complete_host_close_def registry_complete_host_close_def may_complete_def claim_active_def terminal_close_status_def Let_def)
  qed
  show "\<exists>y r. begin_close_wake (fst x) (snd x) (sessions w) = (Inr y, r)" if x: "x \<in> set (closers w)"
  proof -
    obtain e where st: "owner_stage w (fst x) (snd x) e Preparing 1 0 0" using waiting_stage [OF inv x] by blast
    then have "entries (sessions w) (fst x) = Some e" by (simp add: owner_stage_def)
    then show ?thesis using owner_stage_closing [OF st] by (auto simp: begin_close_wake_def Let_def)
  qed
qed


subsection \<open>Reconciliation\<close>

lemma length_map_dom: "distinct (map fst al) \<Longrightarrow> length al = card (dom (map_of al))"
  by (metis distinct_card dom_map_of_conv_image_fst length_map list.set_map)

lemma converse_maps_card:
  assumes "converse_maps f g" shows "card (dom f) = card (dom g)"
proof -
  have fg: "the (g (the (f a))) = a \<and> the (f a) \<in> dom g" if "a \<in> dom f" for a
    using that converse_mapsD(1) [OF assms, of a "the (f a)"] by auto
  have gf: "the (f (the (g b))) = b \<and> the (g b) \<in> dom f" if "b \<in> dom g" for b
    using that converse_mapsD(2) [OF assms, of b "the (g b)"] by auto
  have "bij_betw (\<lambda>a. the (f a)) (dom f) (dom g)"
    by (rule bij_betw_byWitness [where f' = "\<lambda>b. the (g b)"]) (simp_all add: fg gf image_subset_iff)
  then show ?thesis by (rule bij_betw_same_card)
qed

lemma index_inv_lengths:
  assumes "index_inv r"
  shows "length (active_by_token r) = length (active_by_host r)" "length (active_by_token r) = length (active_by_name r)"
proof -
  have dom: "dom (entry_table field r) = dom (entries r)" for field by auto
  show "length (active_by_token r) = length (active_by_host r)"
    using assms converse_maps_card [of "entry_table host_session r" "map_of (active_by_host r)"]
    by (simp add: index_inv_def length_map_dom dom)
  show "length (active_by_token r) = length (active_by_name r)"
    using assms converse_maps_card [of "entry_table session_name r" "map_of (active_by_name r)"]
    by (simp add: index_inv_def length_map_dom dom)
qed

lemma reconcile_agrees:
  assumes inv: "index_inv r"
  shows "(\<exists>rows. reconcile hosts r = Inr rows) \<longleftrightarrow> distinct hosts \<and> set hosts = dom (map_of (active_by_host r))"
proof -
  have fin: "length (active_by_host r) = card (dom (map_of (active_by_host r)))" using inv by (simp add: index_inv_def length_map_dom)
  have "(distinct hosts \<and> length hosts = length (active_by_host r) \<and> set hosts \<subseteq> dom (map_of (active_by_host r)))
      \<longleftrightarrow> distinct hosts \<and> set hosts = dom (map_of (active_by_host r))"
  proof (cases "distinct hosts")
    case True
    have "finite (dom (map_of (active_by_host r)))" by (rule finite_dom_map_of)
    then show ?thesis using True fin distinct_card [OF True] card_subset_eq [of "dom (map_of (active_by_host r))" "set hosts"] by auto
  qed simp
  moreover have "list_ex (\<lambda>h. map_of (active_by_host r) h = None) hosts \<longleftrightarrow> \<not> set hosts \<subseteq> dom (map_of (active_by_host r))"
    by (auto simp: list_ex_iff simp del: map_of_eq_None_iff)
  ultimately show ?thesis using index_inv_lengths [OF inv] by (auto simp: reconcile_def)
qed

section \<open>A run\<close>

definition demo_registry :: "LifecycleState \<Rightarrow> CloseGeneration \<Rightarrow> SessionRegistry" where
  "demo_registry l c = \<lparr>accepting = True, pending_by_token = [], pending_by_name = [],
     active_by_token = [(demo_cursor, \<lparr>host_session = ''host'', session_name = ''graph'', lifecycle = l, admitted_host_calls = 0,
       admitted_jobs = 0, close_generation = Some 0\<rparr>)],
     active_by_host = [(''host'', demo_cursor)], active_by_name = [(''graph'', demo_cursor)], generations = [c]\<rparr>"

definition demo_generation :: "CloseState \<Rightarrow> nat \<Rightarrow> CloseGeneration" where
  "demo_generation st n = \<lparr>generation = 1, close_state = st, participants = n, terminal_status = host_close_not_started_status\<rparr>"

text \<open>One closer owns the close and has invoked the host, another one has joined.\<close>

definition demo_invoked :: SessionWorld where
  "demo_invoked = \<lparr>sessions = demo_registry Closing (demo_generation HostInvoked 2), admissions = [],
     claims = [make_claim demo_cursor ''host'' 0 Joiner, (make_claim demo_cursor ''host'' 0 Owner)\<lparr>host_close_started := True\<rparr>], closers = []\<rparr>"

lemma pick_token_first: "0 < n \<Longrightarrow> valid_opaque_id (gen 0) \<Longrightarrow> map_of (pending_by_token r) (gen 0) = None
    \<Longrightarrow> map_of (active_by_token r) (gen 0) = None \<Longrightarrow> pick_token n gen r = Inr (gen 0)"
  by (cases n) auto

lemmas demo_session_defs = demo_registry_def demo_generation_def new_close_generation_def set_entry_def set_generation_def make_claim_def

lemma demo_load:
  "reserve (\<lambda>_. demo_cursor) ''graph'' new_session_registry = (Inr demo_cursor,
     new_session_registry\<lparr>pending_by_token := [(demo_cursor, ''graph'')], pending_by_name := [(''graph'', demo_cursor)]\<rparr>)"
  "commit demo_cursor ''host'' (new_session_registry\<lparr>pending_by_token := [(demo_cursor, ''graph'')], pending_by_name := [(''graph'', demo_cursor)]\<rparr>)
     = (Inr (), demo_registry Active new_close_generation)"
  by (simp_all add: reserve_def commit_def pick_token_first demo_cursor_valid new_session_registry_def Let_def demo_session_defs)

lemma demo_close:
  "begin_close_enter demo_cursor False (demo_registry Active new_close_generation) = (Inr (Owns_Progression 0), demo_registry Closing (demo_generation Preparing 0))"
  "begin_close_enter demo_cursor False (demo_registry Closing (demo_generation Preparing 0))
     = (Inr (Joined (make_claim demo_cursor ''host'' 0 Joiner)), demo_registry Closing (demo_generation Preparing 1))"
  "drained demo_cursor (demo_registry Closing (demo_generation Preparing 1))"
  "begin_close_wake demo_cursor 0 (demo_registry Closing (demo_generation Preparing 1))
     = (Inr (Inr (make_claim demo_cursor ''host'' 0 Owner)), demo_registry Closing (demo_generation Preparing 2))"
  "mark_host_close_started (make_claim demo_cursor ''host'' 0 Owner) (demo_registry Closing (demo_generation Preparing 2))
     = (Inr ((make_claim demo_cursor ''host'' 0 Owner)\<lparr>host_close_started := True\<rparr>), demo_registry Closing (demo_generation HostInvoked 2))"
  by (simp_all add: begin_close_enter_def begin_close_wake_def drained_def closing_as_def mark_host_close_started_def
      registry_mark_host_close_started_def claim_active_def Let_def demo_session_defs u64_max_def)

lemma demo_invoked_reach: "reachable session_init session_step demo_invoked"
proof -
  let ?w = "\<lambda>r cl ws. \<lparr>sessions = r, admissions = [], claims = cl, closers = ws\<rparr>"
  have 0: "reachable session_init session_step (?w new_session_registry [] [])" by (rule reachable_init) (simp add: session_init_def)
  note 1 = reachable_step [OF 0 step_reserve, simplified, OF demo_load(1)]
  note 2 = reachable_step [OF 1 step_commit, simplified, OF demo_load(2)]
  note 3 = reachable_step [OF 2 step_own, simplified, OF demo_close(1)]
  note 4 = reachable_step [OF 3 step_join, simplified, OF demo_close(2)]
  have 5: "reachable session_init session_step (?w (demo_registry Closing (demo_generation Preparing 2))
      [make_claim demo_cursor ''host'' 0 Joiner, make_claim demo_cursor ''host'' 0 Owner] [])"
    using reachable_step [OF 4 step_wake [of demo_cursor 0]] demo_close(3,4) by simp
  show ?thesis
    using reachable_step [OF 5 step_start [of 1]] demo_close(5) by (simp add: demo_invoked_def may_start_def make_claim_def)
qed


text \<open>The owner has completed with success; the joiner still holds its claim.\<close>

definition demo_done :: SessionWorld where
  "demo_done = demo_invoked\<lparr>
     sessions := new_session_registry\<lparr>generations := [(demo_generation Completed 2)\<lparr>terminal_status := ok_status\<rparr>]\<rparr>,
     claims := [make_claim demo_cursor ''host'' 0 Joiner,
       (make_claim demo_cursor ''host'' 0 Owner)\<lparr>host_close_started := True, host_close_completed := True\<rparr>]\<rparr>"

lemma demo_done_reach: "reachable session_init session_step demo_done"
proof -
  have "complete_host_close (claims demo_invoked ! 1) ok_status (sessions demo_invoked)
      = (Inr (claims demo_done ! 1), sessions demo_done)"
    by (simp add: complete_host_close_def registry_complete_host_close_def closing_as_def claim_active_def Let_def demo_session_defs
        demo_invoked_def demo_done_def new_session_registry_def ok_status_def)
  then have "session_step demo_invoked (demo_invoked\<lparr>sessions := sessions demo_done, claims := (claims demo_invoked)[1 := claims demo_done ! 1]\<rparr>)"
    by (intro step_complete [where s = ok_status])
      (simp_all add: demo_invoked_def may_complete_def make_claim_def terminal_close_status_def ok_status_def)
  moreover have "demo_invoked\<lparr>sessions := sessions demo_done, claims := (claims demo_invoked)[1 := claims demo_done ! 1]\<rparr> = demo_done"
    by (simp add: demo_invoked_def demo_done_def)
  ultimately show ?thesis using reachable_step [OF demo_invoked_reach] by simp
qed

lemma admission_count:
  "tally admission_tag as (t, k) = length (filter (\<lambda>a. admission_owned a \<and> admission_kind a = k \<and> admission_token a = t) as)"
  unfolding tally_def by (intro arg_cong [where f = length] filter_cong) (auto simp: admission_tag_def)

section \<open>Properties\<close>

text \<open>
  C29. The session tables and counts are exact. In every state that loads, admissions and closes can reach: the host and name tables
  are the converses of the session table and the two loading tables of each other, a loading session is not yet active under its id or name,
  each admission count is the number of live handles for that session, every live handle names a registered session, and the daemon's
  reconciliation succeeds exactly for a duplicate-free list of the registered host sessions.
\<close>

theorem session_tables_exact:
  assumes "reachable session_init session_step w" defines "r \<equiv> sessions w"
  shows "(\<forall>t h. map_of (active_by_host r) h = Some t \<longleftrightarrow> (\<exists>e. map_of (active_by_token r) t = Some e \<and> host_session e = h))
    \<and> (\<forall>t n. map_of (active_by_name r) n = Some t \<longleftrightarrow> (\<exists>e. map_of (active_by_token r) t = Some e \<and> session_name e = n))
    \<and> (\<forall>t n. map_of (pending_by_token r) t = Some n \<longleftrightarrow> map_of (pending_by_name r) n = Some t)
    \<and> (\<forall>t n. map_of (pending_by_token r) t = Some n \<longrightarrow> map_of (active_by_token r) t = None \<and> map_of (active_by_name r) n = None)
    \<and> (\<forall>t e k. map_of (active_by_token r) t = Some e \<longrightarrow>
         admitted k e = length (filter (\<lambda>a. admission_owned a \<and> admission_kind a = k \<and> admission_token a = t) (admissions w)))
    \<and> (\<forall>a\<in>set (admissions w). admission_owned a \<longrightarrow> map_of (active_by_token r) (admission_token a) \<noteq> None)
    \<and> (\<forall>hosts. (\<exists>rows. reconcile hosts r = Inr rows) \<longleftrightarrow> distinct hosts \<and> set hosts = dom (map_of (active_by_host r)))"
proof -
  have inv: "session_inv w" using assms(1) by (rule session.reachable_inv)
  note parts = session_inv_parts(1,2) [OF inv]
  have conv: "converse_maps (entry_table host_session r) (map_of (active_by_host r))"
      "converse_maps (entry_table session_name r) (map_of (active_by_name r))"
      "converse_maps (map_of (pending_by_token r)) (map_of (pending_by_name r))"
      "\<forall>t n. map_of (pending_by_token r) t = Some n \<longrightarrow> map_of (active_by_token r) t = None \<and> map_of (active_by_name r) n = None"
    using parts(1) by (simp_all add: index_inv_def r_def)
  have tab: "(map_of g h = Some t) \<longleftrightarrow> (\<exists>e. entries r t = Some e \<and> field e = h)"
    if "converse_maps (entry_table field r) (map_of g)" for g h t and field :: "ActiveEntry \<Rightarrow> string"
    using converse_mapsD(1) [OF that, of t h] converse_mapsD(2) [OF that, of h t] by (auto simp del: map_of_eq_Some_iff)
  have cnt: "tally admission_tag (admissions w) (t, k) = (case entries r t of None \<Rightarrow> 0 | Some e \<Rightarrow> admitted k e)" for t k
    using parts(2) by (simp add: admission_inv_def r_def)
  have reg: "entries r (admission_token a) \<noteq> None" if "a \<in> set (admissions w)" "admission_owned a" for a
  proof
    assume "entries r (admission_token a) = None"
    then have "tally admission_tag (admissions w) (admission_token a, admission_kind a) = 0" using cnt by simp
    then show False using that unfolding tally_zero_iff by (auto simp: admission_tag_def)
  qed
  show ?thesis
  proof (intro conjI)
    show "\<forall>t e k. entries r t = Some e \<longrightarrow>
         admitted k e = length (filter (\<lambda>a. admission_owned a \<and> admission_kind a = k \<and> admission_token a = t) (admissions w))"
      using cnt by (auto simp: admission_count simp del: map_of_eq_Some_iff)
    show "\<forall>t n. map_of (pending_by_token r) t = Some n \<longleftrightarrow> map_of (pending_by_name r) n = Some t"
      using conv(3) unfolding converse_maps_def .
    show "\<forall>hosts. (\<exists>rows. reconcile hosts r = Inr rows) \<longleftrightarrow> distinct hosts \<and> set hosts = dom (map_of (active_by_host r))"
      using reconcile_agrees parts(1) unfolding r_def by blast
  qed (use tab [OF conv(1)] tab [OF conv(2)] conv(4) reg in blast)+
qed

theorem session_tables_exact_witness:
  "reachable session_init session_step demo_invoked
    \<and> ((\<exists>rows. reconcile [''host''] (sessions demo_invoked) = Inr rows)
       \<longleftrightarrow> distinct [''host''] \<and> set [''host''] = dom (map_of (active_by_host (sessions demo_invoked))))"
  using session_tables_exact [OF demo_invoked_reach] demo_invoked_reach by blast

text \<open>
  C13. Closing is exclusive and cannot crash the daemon. In every reachable state at most one thread drives the close of a session: one that waits
  for admissions to drain, or one owner claim before or during its host close. While a host close runs, no admission
  handle for the session is live and none is granted. Starting, completing with a terminal status, dropping a claim outside a host close,
  and waking up from the wait all return: none of their terminating branches is reachable.
\<close>

theorem session_close_exclusive:
  assumes "reachable session_init session_step w"
  shows "length (filter (\<lambda>x. fst x = t) (closers w)) + length (filter (\<lambda>c. claim_token c = t \<and> may_start c) (claims w))
      + length (filter (\<lambda>c. claim_token c = t \<and> may_complete c) (claims w)) \<le> 1
    \<and> (\<forall>c\<in>set (claims w). may_complete c \<longrightarrow>
         (\<forall>a\<in>set (admissions w). admission_owned a \<longrightarrow> admission_token a \<noteq> claim_token c)
         \<and> (\<forall>k. \<exists>s. admit k (claim_token c) (sessions w) = (Inl s, sessions w)))
    \<and> (\<forall>i < length (claims w).
         (may_start (claims w ! i) \<longrightarrow> (\<exists>c r. mark_host_close_started (claims w ! i) (sessions w) = (Inr c, r)))
       \<and> (may_complete (claims w ! i) \<longrightarrow> terminal_close_status s \<longrightarrow> (\<exists>c r. complete_host_close (claims w ! i) s (sessions w) = (Inr c, r)))
       \<and> (\<not> may_complete (claims w ! i) \<longrightarrow> (\<exists>c r. claim_reset (claims w ! i) (sessions w) = (Inr c, r))))
    \<and> (\<forall>x\<in>set (closers w). \<exists>y r. begin_close_wake (fst x) (snd x) (sessions w) = (Inr y, r))"
proof -
  have inv: "session_inv w" using assms by (rule session.reachable_inv)
  have "(\<forall>a\<in>set (admissions w). admission_owned a \<longrightarrow> admission_token a \<noteq> claim_token c)
         \<and> (\<forall>k. \<exists>s. admit k (claim_token c) (sessions w) = (Inl s, sessions w))"
    if c: "c \<in> set (claims w)" "may_complete c" for c
  proof -
    obtain i where i: "i < length (claims w)" "claims w ! i = c" using c(1) by (auto simp: in_set_conv_nth)
    obtain g where "invoked_tag (claims w ! i) = Some (claim_token c, g)" using claim_stage_tags(2) [OF inv i(1)] i(2) c(2) by auto
    then obtain e where e: "owner_stage w (claim_token c) g e HostInvoked 0 0 1" "entry_drained e" using owner_stages(3) [OF inv i(1)] by blast
    then have "entries (sessions w) (claim_token c) = Some e" "lifecycle e = Closing" by (simp_all add: owner_stage_def)
    then show ?thesis using drained_no_admission [OF inv _ e(2)] by (auto simp: admit_def)
  qed
  then show ?thesis using one_owner [OF inv] close_calls_return [OF inv] by blast
qed

theorem session_close_exclusive_witness:
  "length (filter (\<lambda>x. fst x = demo_cursor) (closers demo_invoked))
      + length (filter (\<lambda>c. claim_token c = demo_cursor \<and> may_start c) (claims demo_invoked))
      + length (filter (\<lambda>c. claim_token c = demo_cursor \<and> may_complete c) (claims demo_invoked)) \<le> 1
    \<and> (\<exists>c r. complete_host_close (claims demo_invoked ! 1) ok_status (sessions demo_invoked) = (Inr c, r))"
proof -
  note p = session_close_exclusive [OF demo_invoked_reach, where t = demo_cursor and s = ok_status]
  have "1 < length (claims demo_invoked)" "may_complete (claims demo_invoked ! 1)" "terminal_close_status ok_status"
    by (simp_all add: demo_invoked_def may_complete_def make_claim_def terminal_close_status_def ok_status_def)
  with p show ?thesis by blast
qed

text \<open>
  C23. All participants of a close see the same result. A result that \<^verbatim>\<open>wait_result\<close> has given to a participant of a close generation is the one it
  gives to every participant from then on, after every further step, as long as the asking claim is held: a new generation cannot
  start, and no later close can overwrite the result, while a participant has not read it.
\<close>

theorem close_participants_agree:
  assumes "reachable session_init session_step w" "session_step w w'" "c \<in> set (claims w)" "claim_owned c"
    "wait_result c (sessions w) = Inr (Some s)"
  shows "wait_result c (sessions w') = Inr (Some s)
    \<and> (\<forall>d. claim_owned d \<longrightarrow> claim_generation d = claim_generation c \<longrightarrow> wait_result d (sessions w') = Inr (Some s))"
proof -
  have inv: "session_inv w" using assms(1) by (rule session.reachable_inv)
  obtain i where i: "i < length (claims w)" "claims w ! i = c" using assms(3) by (auto simp: in_set_conv_nth)
  obtain g where g: "claim_generation c = Some g" "participant_tag c = Some g" using claim_stage_tags(3) [OF inv i(1)] i(2) assms(4) by auto
  have ready: "close_result_ready g (sessions w)" "terminal_status (generations (sessions w) ! g) = s"
    using assms(5) g(1) by (auto simp: wait_result_def split: if_splits)
  have pos: "0 < tally participant_tag (claims w) g" using i g(2) by (intro tally_member) auto
  then have len: "g < length (generations (sessions w))"
    using close_inv_beyond [OF session_inv_parts(3) [OF inv], of g] by (cases "g < length (generations (sessions w))") auto
  have "participants (generations (sessions w) ! g) \<noteq> 0" using close_inv_cell(1) [OF session_inv_parts(3) [OF inv] len] pos by simp
  then have "close_result_ready g (sessions w')" "terminal_status (generations (sessions w') ! g) = s"
    using session_step_results [OF assms(2) inv] ready len by (auto simp: results_kept_def close_result_ready_def)
  then show ?thesis using g(1) assms(4) by (simp add: wait_result_def claim_active_def)
qed


theorem close_participants_agree_witness:
  "wait_result (make_claim demo_cursor ''host'' 0 Joiner) (stop_admission (sessions demo_done)) = Inr (Some ok_status)"
proof -
  let ?c = "make_claim demo_cursor ''host'' 0 Joiner"
  have "?c \<in> set (claims demo_done)" "claim_owned ?c" "wait_result ?c (sessions demo_done) = Inr (Some ok_status)"
    by (simp_all add: demo_done_def demo_generation_def make_claim_def wait_result_def claim_active_def close_result_ready_def)
  from close_participants_agree [OF demo_done_reach step_stop_admission this] show ?thesis by simp
qed

end
