(* ===== verification/ComputeRequestRegistry.thy ===== *)
theory ComputeRequestRegistry
  imports SessionRegistry "HOL-Library.Multiset"
begin

text \<open>
  The daemon's registry of compute jobs (\<^verbatim>\<open>src/lib/ipc/compute_request_registry.cpp\<close> and its header): bounded admission, one worker thread that
  takes jobs in order and publishes their outcome, retained results with a bound and a time to live, and the shutdown protocol.

  The registry's mutex makes each locked section one operation; the worker loop is the sequence of its sections, with the callbacks
  it runs between them. Each accepted job holds a job admission of the session registry: the theory puts both registries into one
  state and shows that closing a session waits for its jobs. A handle is named by its position in the session world, which
  also identifies the job; an image output is a number, and the calls of its cleanup callback are logged. A diagnostic text is not
  modelled, and a failed allocation, which every operation rolls back, is no step.
\<close>

section \<open>Model\<close>

definition kJobNotFoundCode :: int where
  "kJobNotFoundCode = - 32010"

definition kJobNotReadyCode :: int where
  "kJobNotReadyCode = - 32011"

definition kCapacityExceededCode :: int where
  "kCapacityExceededCode = - 32012"

definition job_not_found_status :: OperationStatus where
  "job_not_found_status = failure_status DaemonDomain kJobNotFoundCode"

definition job_not_ready_status :: OperationStatus where
  "job_not_ready_status = failure_status DaemonDomain kJobNotReadyCode"

definition active_capacity_status :: OperationStatus where
  "active_capacity_status = failure_status DaemonDomain kCapacityExceededCode"

definition worker_fallback_status :: OperationStatus where
  "worker_fallback_status = failure_status DaemonDomain kInternalErrorCode"

datatype ComputeRequestState = Queued | Running | Succeeded | Failed

datatype ComputeResultMode = StatusMode | ImageMode

definition terminal_state :: "ComputeRequestState \<Rightarrow> bool" where
  "terminal_state s \<longleftrightarrow> s = Succeeded \<or> s = Failed"

record ComputeRequestRegistryLimits =
  limit_active :: nat
  limit_terminal :: nat
  terminal_ttl :: int

record 'q JobRecord =
  job_session :: string
  job_request :: 'q
  job_mode :: ComputeResultMode
  job_state :: ComputeRequestState
  job_status :: OperationStatus
  job_output :: "nat option"
  terminal_since :: int
  job_admission :: nat

record ComputeRequestSnapshot =
  snapshot_id :: string
  snapshot_session :: string
  snapshot_state :: ComputeRequestState
  snapshot_cancellable :: bool
  snapshot_status :: "OperationStatus option"
  snapshot_output :: "nat option"

record 'q ComputeRequestRegistry =
  job_limits :: ComputeRequestRegistryLimits
  job_records :: "(string \<times> 'q JobRecord) list"
  reserved_terminal_order :: "string list"
  terminal_order :: "string list"
  job_queue :: "string list"
  active_count :: nat
  jobs_accepting :: bool
  stop_requested :: bool
  joining :: bool
  worker_joinable :: bool

definition new_job_registry :: "ComputeRequestRegistryLimits \<Rightarrow> 'q ComputeRequestRegistry res" where
  "new_job_registry l =
    (if limit_active l = 0 \<or> limit_terminal l = 0 \<or> terminal_ttl l \<le> 0 then Inl Invalid_Argument
     else Inr \<lparr>job_limits = l, job_records = [], reserved_terminal_order = [], terminal_order = [], job_queue = [], active_count = 0,
            jobs_accepting = False, stop_requested = False, joining = False, worker_joinable = False\<rparr>)"

subsection \<open>Life cycle\<close>

text \<open>The result says whether a worker thread was created.\<close>

definition start_worker :: "'q ComputeRequestRegistry \<Rightarrow> bool IpcResult \<times> 'q ComputeRequestRegistry" where
  "start_worker r =
    (if joining r then (Inl internal_error, r)
     else if worker_joinable r then
       (if jobs_accepting r \<and> \<not> stop_requested r then (Inr False, r) else (Inl internal_error, r))
     else if active_count r \<noteq> 0 \<or> job_queue r \<noteq> [] then (Inl internal_error, r)
     else (Inr True, r\<lparr>stop_requested := False, worker_joinable := True, jobs_accepting := True\<rparr>))"

definition stop_jobs :: "'q ComputeRequestRegistry \<Rightarrow> 'q ComputeRequestRegistry" where
  "stop_jobs r = r\<lparr>jobs_accepting := False, stop_requested := True\<rparr>"

datatype drain_entry = Await_Joiner | Nothing_To_Join | Joins_Worker

text \<open>\<^verbatim>\<open>drain_and_join\<close>: its first locked section after the stop, and the one after the join.\<close>

definition drain_enter :: "'q ComputeRequestRegistry \<Rightarrow> drain_entry \<times> 'q ComputeRequestRegistry" where
  "drain_enter r =
    (if joining r then (Await_Joiner, r)
     else if \<not> worker_joinable r then (Nothing_To_Join, r)
     else (Joins_Worker, r\<lparr>joining := True, worker_joinable := False\<rparr>))"

definition drain_leave :: "'q ComputeRequestRegistry \<Rightarrow> 'q ComputeRequestRegistry" where
  "drain_leave r = r\<lparr>joining := False\<rparr>"

subsection \<open>Submission and queries\<close>

fun pick_job_id :: "nat \<Rightarrow> (nat \<Rightarrow> string) \<Rightarrow> 'q ComputeRequestRegistry \<Rightarrow> string IpcResult" where
  "pick_job_id 0 gen r = Inl internal_error"
| "pick_job_id (Suc n) gen r =
    (if \<not> valid_opaque_id (gen 0) then Inl internal_error
     else if map_of (job_records r) (gen 0) = None then Inr (gen 0)
     else pick_job_id n (\<lambda>i. gen (Suc i)) r)"

text \<open>The locked section of \<^verbatim>\<open>submit\<close>, after the session has admitted the job.\<close>

definition submit_locked :: "(nat \<Rightarrow> string) \<Rightarrow> string \<Rightarrow> nat \<Rightarrow> 'q \<Rightarrow> ComputeResultMode \<Rightarrow> 'q ComputeRequestRegistry
    \<Rightarrow> string IpcResult \<times> 'q ComputeRequestRegistry" where
  "submit_locked gen session slot request mode r =
    (if \<not> jobs_accepting r \<or> stop_requested r \<or> \<not> worker_joinable r then (Inl internal_error, r)
     else if limit_active (job_limits r) \<le> active_count r then (Inl active_capacity_status, r)
     else case pick_job_id 128 gen r of
       Inl e \<Rightarrow> (Inl e, r)
     | Inr candidate \<Rightarrow>
         (Inr candidate, r\<lparr>reserved_terminal_order := reserved_terminal_order r @ [candidate],
            job_queue := job_queue r @ [candidate],
            job_records := AList.update candidate \<lparr>job_session = session, job_request = request, job_mode = mode, job_state = Queued,
              job_status = worker_fallback_status, job_output = None, terminal_since = 0, job_admission = slot\<rparr> (job_records r),
            active_count := active_count r + 1\<rparr>))"

definition snapshot_locked :: "string \<Rightarrow> 'q JobRecord \<Rightarrow> ComputeRequestSnapshot" where
  "snapshot_locked c j = \<lparr>snapshot_id = c, snapshot_session = job_session j, snapshot_state = job_state j, snapshot_cancellable = False,
     snapshot_status = (if terminal_state (job_state j) then Some (job_status j) else None),
     snapshot_output = (if terminal_state (job_state j) then job_output j else None)\<rparr>"

definition job_status_query :: "string \<Rightarrow> 'q ComputeRequestRegistry \<Rightarrow> ComputeRequestSnapshot IpcResult" where
  "job_status_query c r = (case map_of (job_records r) c of
     None \<Rightarrow> Inl job_not_found_status | Some j \<Rightarrow> Inr (snapshot_locked c j))"

definition job_result_query :: "string \<Rightarrow> 'q ComputeRequestRegistry \<Rightarrow> ComputeRequestSnapshot IpcResult" where
  "job_result_query c r = (case map_of (job_records r) c of
     None \<Rightarrow> Inl job_not_found_status
   | Some j \<Rightarrow> if \<not> terminal_state (job_state j) then Inl job_not_ready_status else Inr (snapshot_locked c j))"

subsection \<open>Removal\<close>

definition detach_terminal_locked :: "string \<Rightarrow> 'q ComputeRequestRegistry \<Rightarrow> 'q ComputeRequestRegistry" where
  "detach_terminal_locked c r = r\<lparr>terminal_order := remove1 c (terminal_order r), job_records := AList.delete c (job_records r)\<rparr>"

text \<open>The locked section of \<^verbatim>\<open>release\<close>; the result is the output whose cleanup the caller runs next.\<close>

definition release_locked :: "string \<Rightarrow> 'q ComputeRequestRegistry \<Rightarrow> nat option IpcResult \<times> 'q ComputeRequestRegistry" where
  "release_locked c r = (case map_of (job_records r) c of
     None \<Rightarrow> (Inl job_not_found_status, r)
   | Some j \<Rightarrow> if \<not> terminal_state (job_state j) then (Inl job_not_ready_status, r)
       else (Inr (job_output j), detach_terminal_locked c r))"

text \<open>One turn of the loops of \<^verbatim>\<open>cleanup_expired\<close> and \<^verbatim>\<open>release_all_terminal\<close>; no result ends the loop.\<close>

definition remove_oldest :: "('q JobRecord \<Rightarrow> bool) \<Rightarrow> 'q ComputeRequestRegistry \<Rightarrow> (nat option \<times> 'q ComputeRequestRegistry) option" where
  "remove_oldest due r = (case terminal_order r of
     [] \<Rightarrow> None
   | c # rest \<Rightarrow> (case map_of (job_records r) c of
       None \<Rightarrow> Some (None, r\<lparr>terminal_order := rest\<rparr>)
     | Some j \<Rightarrow> if \<not> due j then None else Some (job_output j, detach_terminal_locked c r)))"

definition expired :: "int \<Rightarrow> 'q ComputeRequestRegistry \<Rightarrow> 'q JobRecord \<Rightarrow> bool" where
  "expired now r j \<longleftrightarrow> \<not> (now < terminal_since j \<or> now - terminal_since j < terminal_ttl (job_limits r))"

subsection \<open>The worker\<close>

datatype take_entry = Worker_Waits | Worker_Returns | Worker_Takes string

definition worker_take :: "'q ComputeRequestRegistry \<Rightarrow> take_entry \<times> 'q ComputeRequestRegistry" where
  "worker_take r = (case job_queue r of
     [] \<Rightarrow> if stop_requested r then (Worker_Returns, r) else (Worker_Waits, r)
   | c # rest \<Rightarrow> (case map_of (job_records r) c of
       None \<Rightarrow> (Worker_Waits, r)
     | Some j \<Rightarrow> (Worker_Takes c, r\<lparr>job_queue := rest, job_records := AList.update c (j\<lparr>job_state := Running\<rparr>) (job_records r)\<rparr>)))"

text \<open>
  The callbacks of one job: no value when they throw. A publication carries a status and whether it owns an output. The
  result is whether the outcome is normal, the outcome, the output kept, and whether an output was dropped.
\<close>

record 'q JobCallbacks =
  status_executor :: "'q \<Rightarrow> OperationStatus option"
  image_executor :: "'q \<Rightarrow> OperationStatus option"
  output_publisher :: "string \<Rightarrow> (OperationStatus \<times> bool) option"

definition execute_job :: "'q JobCallbacks \<Rightarrow> string \<Rightarrow> 'q JobRecord \<Rightarrow> bool \<times> OperationStatus \<times> bool \<times> bool" where
  "execute_job cb c j = (case job_mode j of
     StatusMode \<Rightarrow> (case status_executor cb (job_request j) of
       None \<Rightarrow> (False, ok_status, False, False) | Some s \<Rightarrow> (True, s, False, False))
   | ImageMode \<Rightarrow> (case image_executor cb (job_request j) of
       None \<Rightarrow> (False, ok_status, False, False)
     | Some s \<Rightarrow> if \<not> status_ok s then (True, s, False, False)
         else (case output_publisher cb c of
           None \<Rightarrow> (False, ok_status, False, False)
         | Some (p, has_output) \<Rightarrow> (True, p, status_ok p \<and> has_output, \<not> status_ok p \<and> has_output))))"

definition worker_evict :: "'q ComputeRequestRegistry \<Rightarrow> nat option \<times> 'q ComputeRequestRegistry" where
  "worker_evict r =
    (if limit_terminal (job_limits r) \<le> length (terminal_order r) then
       (case terminal_order r of
          [] \<Rightarrow> (None, r)
        | c # rest \<Rightarrow> (case map_of (job_records r) c of
            Some j \<Rightarrow> (job_output j, detach_terminal_locked c r)
          | None \<Rightarrow> (None, r\<lparr>terminal_order := rest\<rparr>)))
     else (None, r))"

definition worker_publish :: "string \<Rightarrow> bool \<Rightarrow> OperationStatus \<Rightarrow> nat option \<Rightarrow> int \<Rightarrow> 'q JobRecord \<Rightarrow> 'q ComputeRequestRegistry
    \<Rightarrow> 'q ComputeRequestRegistry" where
  "worker_publish c normal outcome output time j r =
    (let status = (if normal then outcome else job_status j);
         kept = (if normal \<and> status_ok status \<and> output \<noteq> None then output else job_output j)
     in r\<lparr>job_records := AList.update c (j\<lparr>job_status := status, job_output := kept,
              job_state := (if status_ok status then Succeeded else Failed), terminal_since := time\<rparr>) (job_records r),
          terminal_order := terminal_order r @ [c], reserved_terminal_order := remove1 c (reserved_terminal_order r),
          active_count := active_count r - 1\<rparr>)"

section \<open>The registry, its worker and its clients\<close>

text \<open>
  The worker thread between its locked sections. After the eviction the thread reads the clock; a clock that throws
  makes the outcome abnormal and drops the output.
\<close>

datatype stage = Absent | Idle_Worker | Executing string | Evicting string bool OperationStatus "nat option"
  | Stamping string bool OperationStatus "nat option" | Publishing string bool OperationStatus "nat option" int | Releasing nat | Returned

fun current :: "stage \<Rightarrow> string list" where
  "current (Executing c) = [c]"
| "current (Evicting c normal s out) = [c]"
| "current (Stamping c normal s out) = [c]"
| "current (Publishing c normal s out time) = [c]"
| "current _ = []"

fun local_output :: "stage \<Rightarrow> nat list" where
  "local_output (Evicting c normal s out) = (case out of None \<Rightarrow> [] | Some n \<Rightarrow> [n])"
| "local_output (Stamping c normal s out) = (case out of None \<Rightarrow> [] | Some n \<Rightarrow> [n])"
| "local_output (Publishing c normal s out time) = (case out of None \<Rightarrow> [] | Some n \<Rightarrow> [n])"
| "local_output _ = []"

text \<open>
  The logs: the admission of each accepted job, that of each published job with its final status. Outputs are numbered as they are created;
  \<open>detached\<close> holds those whose cleanup is about to run, \<open>cleaned\<close> those whose cleanup ran.
\<close>

record 'q JobWorld =
  session_world :: SessionWorld
  jobs :: "'q ComputeRequestRegistry"
  stage :: stage
  submitting :: "(nat \<times> string) list"
  abandoning :: "nat list"
  accepted :: "nat list"
  finished :: "(nat \<times> OperationStatus) list"
  created :: nat
  detached :: "nat list"
  cleaned :: "nat list"

abbreviation job_of :: "'q ComputeRequestRegistry \<Rightarrow> string \<Rightarrow> 'q JobRecord" where
  "job_of r c \<equiv> the (map_of (job_records r) c)"

definition active_jobs :: "'q JobWorld \<Rightarrow> string list" where
  "active_jobs w = current (stage w) @ job_queue (jobs w)"

definition releasing_slot :: "stage \<Rightarrow> nat list" where
  "releasing_slot st = (case st of Releasing n \<Rightarrow> [n] | _ \<Rightarrow> [])"

text \<open>The admission handles that belong to this registry and to the threads inside \<^verbatim>\<open>submit\<close>.\<close>

definition job_handles :: "'q JobWorld \<Rightarrow> nat list" where
  "job_handles w = map (\<lambda>c. job_admission (job_of (jobs w) c)) (active_jobs w) @ releasing_slot (stage w) @ map fst (submitting w) @ abandoning w"

definition outputs_of :: "nat option \<Rightarrow> nat list" where
  "outputs_of out = (case out of None \<Rightarrow> [] | Some n \<Rightarrow> [n])"

inductive job_step :: "'q JobWorld \<Rightarrow> 'q JobWorld \<Rightarrow> bool" where
  job_environment: "session_step (session_world w) sw
    \<Longrightarrow> (\<And>i. i \<in> set (job_handles w) \<Longrightarrow> i < length (admissions sw) \<and> admissions sw ! i = admissions (session_world w) ! i)
    \<Longrightarrow> job_step w (w\<lparr>session_world := sw\<rparr>)"
| job_start: "start_worker (jobs w) = (Inr True, r) \<Longrightarrow> job_step w (w\<lparr>jobs := r, stage := Idle_Worker\<rparr>)"
| job_stop: "job_step w (w\<lparr>jobs := stop_jobs (jobs w)\<rparr>)"
| job_drain: "drain_enter (jobs w) = (x, r) \<Longrightarrow> job_step w (w\<lparr>jobs := r\<rparr>)"
| job_joined: "joining (jobs w) \<Longrightarrow> stage w = Returned \<Longrightarrow> job_step w (w\<lparr>jobs := drain_leave (jobs w), stage := Absent\<rparr>)"
| job_admit: "admit Job t (sessions (session_world w)) = (Inr a, s)
    \<Longrightarrow> job_step w (w\<lparr>session_world := (session_world w)\<lparr>sessions := s, admissions := admissions (session_world w) @ [a]\<rparr>,
          submitting := submitting w @ [(length (admissions (session_world w)), t)]\<rparr>)"
| job_submit: "(slot, t) \<in> set (submitting w) \<Longrightarrow> submit_locked gen t slot request mode (jobs w) = (Inr c, r)
    \<Longrightarrow> job_step w (w\<lparr>jobs := r, submitting := remove1 (slot, t) (submitting w), accepted := accepted w @ [slot]\<rparr>)"
| job_refuse: "(slot, t) \<in> set (submitting w) \<Longrightarrow> submit_locked gen t slot request mode (jobs w) = (Inl e, r)
    \<Longrightarrow> job_step w (w\<lparr>submitting := remove1 (slot, t) (submitting w), abandoning := abandoning w @ [slot]\<rparr>)"
| job_abandon: "slot \<in> set (abandoning w) \<Longrightarrow> admission_reset (admissions (session_world w) ! slot) (sessions (session_world w)) = (a, s)
    \<Longrightarrow> job_step w (w\<lparr>session_world := (session_world w)\<lparr>sessions := s, admissions := (admissions (session_world w))[slot := a]\<rparr>,
          abandoning := remove1 slot (abandoning w)\<rparr>)"
| job_take: "stage w = Idle_Worker \<Longrightarrow> worker_take (jobs w) = (Worker_Takes c, r) \<Longrightarrow> job_step w (w\<lparr>jobs := r, stage := Executing c\<rparr>)"
| job_return: "stage w = Idle_Worker \<Longrightarrow> worker_take (jobs w) = (Worker_Returns, r) \<Longrightarrow> job_step w (w\<lparr>jobs := r, stage := Returned\<rparr>)"
| job_execute: "stage w = Executing c \<Longrightarrow> execute_job cb c (job_of (jobs w) c) = (normal, s, kept, dropped)
    \<Longrightarrow> job_step w (w\<lparr>stage := Evicting c normal s (if kept then Some (created w) else None),
          created := created w + (if kept \<or> dropped then 1 else 0), detached := detached w @ (if dropped then [created w] else [])\<rparr>)"
| job_evict: "stage w = Evicting c normal s out \<Longrightarrow> worker_evict (jobs w) = (x, r)
    \<Longrightarrow> job_step w (w\<lparr>jobs := r, stage := Stamping c normal s out, detached := detached w @ outputs_of x\<rparr>)"
| job_stamp: "stage w = Stamping c normal s out \<Longrightarrow> job_step w (w\<lparr>stage := Publishing c normal s out time\<rparr>)"
| job_stamp_throws: "stage w = Stamping c normal s out
    \<Longrightarrow> job_step w (w\<lparr>stage := Publishing c False s None 0, detached := detached w @ outputs_of out\<rparr>)"
| job_publish: "stage w = Publishing c normal s out time \<Longrightarrow> worker_publish c normal s out time (job_of (jobs w) c) (jobs w) = r
    \<Longrightarrow> job_step w (w\<lparr>jobs := r, stage := Releasing (job_admission (job_of (jobs w) c)),
          finished := finished w @ [(job_admission (job_of (jobs w) c), job_status (job_of r c))]\<rparr>)"
| job_release_admission: "stage w = Releasing slot
    \<Longrightarrow> admission_reset (admissions (session_world w) ! slot) (sessions (session_world w)) = (a, s)
    \<Longrightarrow> job_step w (w\<lparr>session_world := (session_world w)\<lparr>sessions := s, admissions := (admissions (session_world w))[slot := a]\<rparr>,
          stage := Idle_Worker\<rparr>)"
| job_release: "release_locked c (jobs w) = (Inr x, r) \<Longrightarrow> job_step w (w\<lparr>jobs := r, detached := detached w @ outputs_of x\<rparr>)"
| job_expire: "remove_oldest (expired now (jobs w)) (jobs w) = Some (x, r)
    \<Longrightarrow> job_step w (w\<lparr>jobs := r, detached := detached w @ outputs_of x\<rparr>)"
| job_release_all: "remove_oldest (\<lambda>_. True) (jobs w) = Some (x, r)
    \<Longrightarrow> job_step w (w\<lparr>jobs := r, detached := detached w @ outputs_of x\<rparr>)"
| job_cleanup: "n \<in> set (detached w) \<Longrightarrow> job_step w (w\<lparr>detached := remove1 n (detached w), cleaned := cleaned w @ [n]\<rparr>)"

definition job_init :: "'q JobWorld \<Rightarrow> bool" where
  "job_init w \<longleftrightarrow> (\<exists>l sw r. session_init sw \<and> new_job_registry l = Inr r
     \<and> w = \<lparr>session_world = sw, jobs = r, stage = Absent, submitting = [], abandoning = [], accepted = [], finished = [], created = 0,
             detached = [], cleaned = []\<rparr>)"


section \<open>Invariants\<close>

subsection \<open>Structure\<close>

text \<open>
  The jobs are the worker's current one, the queue and the terminal list, without overlap; the reserved order is the order in which the
  active ones will finish.
\<close>

definition job_struct :: "string list \<Rightarrow> 'q ComputeRequestRegistry \<Rightarrow> bool" where
  "job_struct cur r \<longleftrightarrow> distinct (cur @ job_queue r @ terminal_order r)
   \<and> reserved_terminal_order r = cur @ job_queue r \<and> active_count r = length (cur @ job_queue r)
   \<and> active_count r \<le> limit_active (job_limits r) \<and> length (terminal_order r) \<le> limit_terminal (job_limits r) \<and> 0 < limit_terminal (job_limits r)
   \<and> dom (map_of (job_records r)) = set (cur @ job_queue r @ terminal_order r)
   \<and> (\<forall>c\<in>set cur. job_state (job_of r c) = Running) \<and> (\<forall>c\<in>set (job_queue r). job_state (job_of r c) = Queued)
   \<and> (\<forall>c\<in>set (terminal_order r). terminal_state (job_state (job_of r c)))
   \<and> (\<forall>c\<in>set (cur @ job_queue r). job_output (job_of r c) = None \<and> job_status (job_of r c) = worker_fallback_status)"

fun stage_ok :: "'q ComputeRequestRegistry \<Rightarrow> stage \<Rightarrow> bool" where
  "stage_ok r Absent \<longleftrightarrow> \<not> worker_joinable r \<and> \<not> joining r \<and> job_queue r = []"
| "stage_ok r Returned \<longleftrightarrow> (worker_joinable r \<or> joining r) \<and> job_queue r = [] \<and> stop_requested r"
| "stage_ok r (Evicting c normal s out) \<longleftrightarrow> (worker_joinable r \<or> joining r) \<and> (out \<noteq> None \<longrightarrow> normal \<and> status_ok s)"
| "stage_ok r (Stamping c normal s out) \<longleftrightarrow> (worker_joinable r \<or> joining r) \<and> (out \<noteq> None \<longrightarrow> normal \<and> status_ok s)
     \<and> length (terminal_order r) < limit_terminal (job_limits r)"
| "stage_ok r (Publishing c normal s out time) \<longleftrightarrow> (worker_joinable r \<or> joining r) \<and> (out \<noteq> None \<longrightarrow> normal \<and> status_ok s)
     \<and> length (terminal_order r) < limit_terminal (job_limits r)"
| "stage_ok r st \<longleftrightarrow> worker_joinable r \<or> joining r"

definition jobs_inv :: "'q ComputeRequestRegistry \<Rightarrow> stage \<Rightarrow> bool" where
  "jobs_inv r st \<longleftrightarrow> job_struct (current st) r \<and> stage_ok r st \<and> \<not> (worker_joinable r \<and> joining r)"

lemma job_struct_flags [simp]:
  "job_struct cur (r\<lparr>stop_requested := a\<rparr>) = job_struct cur r" "job_struct cur (r\<lparr>worker_joinable := a\<rparr>) = job_struct cur r"
  "job_struct cur (r\<lparr>jobs_accepting := a\<rparr>) = job_struct cur r" "job_struct cur (r\<lparr>joining := a\<rparr>) = job_struct cur r"
  by (simp_all add: job_struct_def)

lemma job_recorded: "job_struct cur r \<Longrightarrow> c \<in> set (cur @ job_queue r @ terminal_order r) \<Longrightarrow> map_of (job_records r) c = Some (job_of r c)"
  unfolding job_struct_def by (metis domIff option.collapse)

lemma terminal_iff:
  assumes "job_struct cur r" "map_of (job_records r) c = Some j"
  shows "terminal_state (job_state j) \<longleftrightarrow> c \<in> set (terminal_order r)"
proof -
  have "c \<in> set (cur @ job_queue r @ terminal_order r)" using assms by (auto simp: job_struct_def)
  then show ?thesis using assms by (auto simp: job_struct_def terminal_state_def)
qed

lemma pick_job_id_fresh: "pick_job_id n gen r = Inr c \<Longrightarrow> map_of (job_records r) c = None"
  by (induction n gen r rule: pick_job_id.induct) (auto split: if_splits)

lemma submit_locked_cases:
  assumes "submit_locked gen t slot request mode r = (x, r')"
  shows "(\<exists>e. x = Inl e \<and> r' = r) \<or> (\<exists>c j. x = Inr c \<and> jobs_accepting r \<and> \<not> stop_requested r \<and> worker_joinable r \<and> active_count r < limit_active (job_limits r)
    \<and> map_of (job_records r) c = None \<and> job_session j = t \<and> job_state j = Queued \<and> job_status j = worker_fallback_status \<and> job_output j = None \<and> job_admission j = slot
    \<and> r' = r\<lparr>reserved_terminal_order := reserved_terminal_order r @ [c], job_queue := job_queue r @ [c],
              job_records := AList.update c j (job_records r), active_count := active_count r + 1\<rparr>)"
proof (cases x)
  case (Inl e)
  then show ?thesis using assms by (auto simp: submit_locked_def split: if_splits sum.splits)
next
  case (Inr c)
  then have "pick_job_id 128 gen r = Inr c" using assms by (auto simp: submit_locked_def split: if_splits sum.splits)
  then have "map_of (job_records r) c = None" by (rule pick_job_id_fresh)
  then show ?thesis using assms Inr
    by (intro disjI2 exI [of _ c] exI [of _ "\<lparr>job_session = t, job_request = request, job_mode = mode, job_state = Queued,
              job_status = worker_fallback_status, job_output = None, terminal_since = 0, job_admission = slot\<rparr>"])
      (auto simp: submit_locked_def not_le split: if_splits sum.splits)
qed

lemma jobs_inv_submit:
  assumes inv: "jobs_inv r st" and s: "submit_locked gen t slot request mode r = (Inr c, r')"
  shows "jobs_inv r' st"
proof -
  obtain j where j: "worker_joinable r" "\<not> stop_requested r" "active_count r < limit_active (job_limits r)" "map_of (job_records r) c = None"
      "job_state j = Queued" "job_status j = worker_fallback_status" "job_output j = None"
      "r' = r\<lparr>reserved_terminal_order := reserved_terminal_order r @ [c], job_queue := job_queue r @ [c],
              job_records := AList.update c j (job_records r), active_count := active_count r + 1\<rparr>"
    using submit_locked_cases [OF s] by auto
  have st: "job_struct (current st) r" using inv by (simp add: jobs_inv_def)
  then have new: "c \<notin> set (current st @ job_queue r @ terminal_order r)" using j(4) unfolding job_struct_def by blast
  have "job_struct (current st) r'" using st new j(3,5-) unfolding job_struct_def by (auto simp: j(8))
  moreover have "stage_ok r' st" using inv j(1,2) by (cases st) (auto simp: j(8) jobs_inv_def)
  ultimately show ?thesis using inv by (simp add: jobs_inv_def j(8))
qed

lemma jobs_inv_take:
  assumes inv: "jobs_inv r Idle_Worker"
  shows "worker_take r = (Worker_Takes c, r') \<Longrightarrow> jobs_inv r' (Executing c)" "worker_take r = (Worker_Returns, r') \<Longrightarrow> jobs_inv r' Returned"
proof -
  show "worker_take r = (Worker_Takes c, r') \<Longrightarrow> jobs_inv r' (Executing c)"
    using inv by (auto simp: worker_take_def jobs_inv_def job_struct_def split: list.splits option.splits if_splits)
  show "worker_take r = (Worker_Returns, r') \<Longrightarrow> jobs_inv r' Returned"
    using inv by (auto simp: worker_take_def jobs_inv_def split: list.splits option.splits if_splits)
qed

text \<open>Removal of a terminal job.\<close>

lemma detach_struct:
  assumes "job_struct cur r" "c \<in> set (terminal_order r)" shows "job_struct cur (detach_terminal_locked c r)"
  using assms unfolding job_struct_def detach_terminal_locked_def by (auto simp: length_remove1 dest: in_set_remove1 [THEN iffD1, rotated])

lemma stage_ok_shrink:
  assumes "stage_ok r st" "job_queue r' = job_queue r" "worker_joinable r' = worker_joinable r" "joining r' = joining r" "stop_requested r' = stop_requested r"
    "job_limits r' = job_limits r" "length (terminal_order r') \<le> length (terminal_order r)"
  shows "stage_ok r' st"
  using assms by (cases st) auto

lemma jobs_inv_detach:
  assumes "jobs_inv r st" "c \<in> set (terminal_order r)" shows "jobs_inv (detach_terminal_locked c r) st"
  using assms detach_struct [of "current st" r c] unfolding jobs_inv_def
  by (auto simp: detach_terminal_locked_def length_remove1 intro: stage_ok_shrink)


lemma removal_detaches:
  assumes "job_struct cur r"
  shows "release_locked c r = (Inr x, r') \<Longrightarrow> c \<in> set (terminal_order r) \<and> x = job_output (job_of r c) \<and> r' = detach_terminal_locked c r"
    "remove_oldest due r = Some (x, r') \<Longrightarrow> \<exists>c\<in>set (terminal_order r). x = job_output (job_of r c) \<and> r' = detach_terminal_locked c r"
    "worker_evict r = (x, r') \<Longrightarrow> x = None \<and> r' = r \<and> length (terminal_order r) < limit_terminal (job_limits r)
       \<or> (\<exists>c\<in>set (terminal_order r). x = job_output (job_of r c) \<and> r' = detach_terminal_locked c r \<and> length (terminal_order r') < limit_terminal (job_limits r))"
proof -
  show "release_locked c r = (Inr x, r') \<Longrightarrow> c \<in> set (terminal_order r) \<and> x = job_output (job_of r c) \<and> r' = detach_terminal_locked c r"
    using terminal_iff [OF assms, of c] by (auto simp: release_locked_def simp del: map_of_eq_Some_iff split: option.splits if_splits)
  have recorded: "map_of (job_records r) c = Some (job_of r c)" if "terminal_order r = c # rest" for c rest
    using job_recorded [OF assms, of c] that by simp
  show "remove_oldest due r = Some (x, r') \<Longrightarrow> \<exists>c\<in>set (terminal_order r). x = job_output (job_of r c) \<and> r' = detach_terminal_locked c r"
    using recorded by (auto simp: remove_oldest_def simp del: map_of_eq_Some_iff split: list.splits option.splits if_splits)
  have "length (terminal_order r) \<le> limit_terminal (job_limits r)" "0 < limit_terminal (job_limits r)" using assms by (auto simp: job_struct_def)
  then show "worker_evict r = (x, r') \<Longrightarrow> x = None \<and> r' = r \<and> length (terminal_order r) < limit_terminal (job_limits r)
       \<or> (\<exists>c\<in>set (terminal_order r). x = job_output (job_of r c) \<and> r' = detach_terminal_locked c r \<and> length (terminal_order r') < limit_terminal (job_limits r))"
    using recorded by (cases "terminal_order r")
      (auto simp: worker_evict_def detach_terminal_locked_def simp del: map_of_eq_Some_iff split: option.splits if_splits)
qed

lemma worker_publish_struct:
  assumes "job_struct [c] r" "length (terminal_order r) < limit_terminal (job_limits r)"
  shows "job_struct [] (worker_publish c normal s out time (job_of r c) r)"
  using assms unfolding job_struct_def worker_publish_def by (auto simp: Let_def terminal_state_def)

lemma drain_enter_fields:
  "drain_enter r = (x, r') \<Longrightarrow> (worker_joinable r' \<or> joining r') = (worker_joinable r \<or> joining r) \<and> job_queue r' = job_queue r
     \<and> terminal_order r' = terminal_order r \<and> stop_requested r' = stop_requested r \<and> job_limits r' = job_limits r
     \<and> reserved_terminal_order r' = reserved_terminal_order r \<and> active_count r' = active_count r \<and> job_records r' = job_records r
     \<and> (worker_joinable r' \<and> joining r' \<longrightarrow> worker_joinable r \<and> joining r)"
  by (auto simp: drain_enter_def split: if_splits)

lemma jobs_inv_step:
  assumes "job_step w w'" "jobs_inv (jobs w) (stage w)" shows "jobs_inv (jobs w') (stage w')"
proof -
  have st: "job_struct (current (stage w)) (jobs w)" using assms(2) by (simp add: jobs_inv_def)
  show ?thesis using assms
proof (cases rule: job_step.cases)
  case (job_start r)
  then have "stage w = Absent" using assms(2) by (cases "stage w") (auto simp: start_worker_def jobs_inv_def split: if_splits)
  then show ?thesis using job_start assms(2) by (auto simp: start_worker_def jobs_inv_def split: if_splits)
next
  case job_stop
  then show ?thesis using assms(2) by (cases "stage w") (auto simp: stop_jobs_def jobs_inv_def)
next
  case (job_drain x r)
  then have "job_struct (current (stage w)) r" using assms(2) drain_enter_fields [OF job_drain(2)] by (simp add: jobs_inv_def job_struct_def)
  moreover have "stage_ok r (stage w)"
    using assms(2) drain_enter_fields [OF job_drain(2)] by (cases "stage w") (auto simp: jobs_inv_def)
  ultimately show ?thesis using job_drain(1) assms(2) drain_enter_fields [OF job_drain(2)] by (auto simp: jobs_inv_def)
next
  case job_joined
  then show ?thesis using assms(2) by (auto simp: drain_leave_def jobs_inv_def)
next
  case (job_submit slot t gen request mode c r)
  then show ?thesis using jobs_inv_submit [OF assms(2)] by simp
next
  case (job_take c r)
  then show ?thesis using jobs_inv_take(1) assms(2) by auto
next
  case (job_return r)
  then show ?thesis using jobs_inv_take(2) assms(2) by auto
next
  case (job_execute c cb normal s kept dropped)
  then show ?thesis using assms(2)
    by (auto simp: jobs_inv_def execute_job_def split: ComputeResultMode.splits option.splits if_splits)
next
  case (job_evict c normal s out x r)
  have "job_struct [c] (jobs w)" "stage_ok (jobs w) (Evicting c normal s out)" "\<not> (worker_joinable (jobs w) \<and> joining (jobs w))" using assms(2) job_evict(2) by (simp_all add: jobs_inv_def)
  then show ?thesis using removal_detaches(3) [OF _ job_evict(3)] detach_struct job_evict(1)
    by (fastforce simp: jobs_inv_def detach_terminal_locked_def)
next
  case (job_publish c normal s out time r)
  have "job_struct [c] (jobs w)" "stage_ok (jobs w) (Publishing c normal s out time)" using assms(2) job_publish(2) by (simp_all add: jobs_inv_def)
  then have "job_struct [] r" "worker_joinable r \<or> joining r" "\<not> (worker_joinable r \<and> joining r)"
    using worker_publish_struct [of c "jobs w"] job_publish(3) assms(2) by (auto simp: worker_publish_def Let_def jobs_inv_def)
  then show ?thesis using job_publish(1) by (simp add: jobs_inv_def)
next
  case (job_release c x r)
  then show ?thesis using removal_detaches(1) [OF st job_release(2)] jobs_inv_detach [OF assms(2)] by auto
next
  case (job_expire now x r)
  then show ?thesis using removal_detaches(2) [OF st job_expire(2)] jobs_inv_detach [OF assms(2)] by auto
next
  case (job_release_all x r)
  then show ?thesis using removal_detaches(2) [OF st job_release_all(2)] jobs_inv_detach [OF assms(2)] by auto
qed (auto simp: jobs_inv_def)
qed

lemma jobs_inv_init: "job_init w \<Longrightarrow> jobs_inv (jobs w) (stage w)"
  by (auto simp: job_init_def new_job_registry_def jobs_inv_def job_struct_def split: if_splits)


subsection \<open>Job lists under the operations\<close>

abbreviation slot_of :: "'q ComputeRequestRegistry \<Rightarrow> string \<Rightarrow> nat" where
  "slot_of r c \<equiv> job_admission (job_of r c)"

lemma detach_other: "c' \<noteq> c \<Longrightarrow> job_of (detach_terminal_locked c r) c' = job_of r c'"
  by (simp add: detach_terminal_locked_def)

lemma detach_lists:
  assumes "job_struct cur r" "c \<in> set (terminal_order r)"
  shows "job_queue (detach_terminal_locked c r) = job_queue r" "set (terminal_order (detach_terminal_locked c r)) = set (terminal_order r) - {c}"
    "d \<in> set (cur @ job_queue r) \<Longrightarrow> job_of (detach_terminal_locked c r) d = job_of r d"
    "d \<in> set (terminal_order (detach_terminal_locked c r)) \<Longrightarrow> job_of (detach_terminal_locked c r) d = job_of r d"
  using assms by (auto simp: detach_terminal_locked_def job_struct_def)

lemma take_lists:
  assumes "job_struct [] r" "worker_take r = (Worker_Takes c, r')"
  shows "job_queue r = c # job_queue r'" "terminal_order r' = terminal_order r" "job_admission (job_of r' d) = job_admission (job_of r d)"
    "job_session (job_of r' d) = job_session (job_of r d)" "job_output (job_of r' d) = job_output (job_of r d)" "job_status (job_of r' d) = job_status (job_of r d)"
  using assms by (auto simp: worker_take_def split: list.splits option.splits if_splits)

lemma publish_lists:
  assumes "job_struct [c] r" "r' = worker_publish c normal s out time (job_of r c) r"
  shows "job_queue r' = job_queue r" "terminal_order r' = terminal_order r @ [c]" "c' \<noteq> c \<Longrightarrow> job_of r' c' = job_of r c'"
    "job_admission (job_of r' c) = job_admission (job_of r c)" "job_session (job_of r' c) = job_session (job_of r c)"
    "job_status (job_of r' c) = (if normal then s else worker_fallback_status)"
    "job_output (job_of r' c) = (if normal \<and> status_ok s then out else None)"
  using assms by (auto simp: worker_publish_def Let_def job_struct_def)

lemma submit_lists:
  assumes "job_struct cur r" "submit_locked gen t slot request mode r = (Inr c, r')"
  shows "job_queue r' = job_queue r @ [c]" "terminal_order r' = terminal_order r" "c \<notin> set (cur @ job_queue r @ terminal_order r)"
    "c' \<noteq> c \<Longrightarrow> job_of r' c' = job_of r c'" "job_admission (job_of r' c) = slot" "job_session (job_of r' c) = t" "job_output (job_of r' c) = None"
proof -
  obtain j where j: "map_of (job_records r) c = None" "job_session j = t" "job_output j = None" "job_admission j = slot"
      "r' = r\<lparr>reserved_terminal_order := reserved_terminal_order r @ [c], job_queue := job_queue r @ [c],
              job_records := AList.update c j (job_records r), active_count := active_count r + 1\<rparr>"
    using submit_locked_cases [OF assms(2)] by auto
  show "c \<notin> set (cur @ job_queue r @ terminal_order r)" using assms(1) j(1) unfolding job_struct_def by blast
  show "job_queue r' = job_queue r @ [c]" "terminal_order r' = terminal_order r" "c' \<noteq> c \<Longrightarrow> job_of r' c' = job_of r c'"
    "job_admission (job_of r' c) = slot" "job_session (job_of r' c) = t" "job_output (job_of r' c) = None"
    using j(2-4) by (simp_all add: j(5))
qed

subsection \<open>Logs\<close>

definition order_inv :: "'q ComputeRequestRegistry \<Rightarrow> stage \<Rightarrow> nat list \<Rightarrow> (nat \<times> OperationStatus) list \<Rightarrow> bool" where
  "order_inv r st acc fin \<longleftrightarrow> acc = map fst fin @ map (slot_of r) (current st @ job_queue r)
   \<and> (\<forall>i\<in>set (releasing_slot st). i \<in> fst ` set fin)
   \<and> (\<forall>c\<in>set (terminal_order r). (slot_of r c, job_status (job_of r c)) \<in> set fin)"

definition fresh_inv :: "nat list \<Rightarrow> (nat \<times> string) list \<Rightarrow> nat list \<Rightarrow> nat \<Rightarrow> bool" where
  "fresh_inv acc sub ab n \<longleftrightarrow> distinct (acc @ map fst sub @ ab) \<and> (\<forall>i\<in>set (acc @ map fst sub @ ab). i < n)"

definition log_inv :: "'q JobWorld \<Rightarrow> bool" where
  "log_inv w \<longleftrightarrow> order_inv (jobs w) (stage w) (accepted w) (finished w)
     \<and> fresh_inv (accepted w) (submitting w) (abandoning w) (length (admissions (session_world w)))"

lemma remove1_first: "x \<in> set xs \<Longrightarrow> \<exists>ys zs. xs = ys @ x # zs \<and> remove1 x xs = ys @ zs"
  by (metis remove1.simps(2) remove1_append split_list_first)

lemma moved_slot:
  assumes "(i, t) \<in> set xs" "distinct (as @ map fst xs @ bs)"
  shows "distinct (as @ [i] @ map fst (remove1 (i, t) xs) @ bs)" "distinct (as @ map fst (remove1 (i, t) xs) @ bs @ [i])"
    "set (as @ [i] @ map fst (remove1 (i, t) xs) @ bs) = set (as @ map fst xs @ bs)"
    "set (as @ map fst (remove1 (i, t) xs) @ bs @ [i]) = set (as @ map fst xs @ bs)"
proof -
  obtain ys zs where "xs = ys @ (i, t) # zs" "remove1 (i, t) xs = ys @ zs" using remove1_first [OF assms(1)] by blast
  then show "distinct (as @ [i] @ map fst (remove1 (i, t) xs) @ bs)" "distinct (as @ map fst (remove1 (i, t) xs) @ bs @ [i])"
    "set (as @ [i] @ map fst (remove1 (i, t) xs) @ bs) = set (as @ map fst xs @ bs)"
    "set (as @ map fst (remove1 (i, t) xs) @ bs @ [i]) = set (as @ map fst xs @ bs)"
    using assms(2) by auto
qed

lemma session_step_grows: "session_step w w' \<Longrightarrow> length (admissions w) \<le> length (admissions w')"
  by (induction rule: session_step.induct) auto

lemma order_inv_detach:
  assumes "order_inv r st acc fin" "job_struct (current st) r" "c \<in> set (terminal_order r)"
  shows "order_inv (detach_terminal_locked c r) st acc fin"
proof -
  note d = detach_lists [OF assms(2,3)]
  have "map (slot_of (detach_terminal_locked c r)) (current st @ job_queue r) = map (slot_of r) (current st @ job_queue r)"
    using d(3) by (intro map_cong) auto
  moreover have "(slot_of (detach_terminal_locked c r) x, job_status (job_of (detach_terminal_locked c r) x)) \<in> set fin"
    if x: "x \<in> set (terminal_order (detach_terminal_locked c r))" for x
  proof -
    have "x \<in> set (terminal_order r)" using x d(2) by auto
    then show ?thesis using assms(1) d(4) [OF x] by (simp add: order_inv_def)
  qed
  ultimately show ?thesis using assms(1) d(1) by (simp add: order_inv_def)
qed

lemma order_inv_stage:
  "order_inv r st acc fin \<Longrightarrow> current st' = current st \<Longrightarrow> releasing_slot st' = [] \<Longrightarrow> order_inv r st' acc fin"
  by (simp add: order_inv_def)

lemma order_inv_flags [simp]:
  "order_inv (r\<lparr>stop_requested := a\<rparr>) st acc fin = order_inv r st acc fin" "order_inv (r\<lparr>worker_joinable := a\<rparr>) st acc fin = order_inv r st acc fin"
  "order_inv (r\<lparr>jobs_accepting := a\<rparr>) st acc fin = order_inv r st acc fin" "order_inv (r\<lparr>joining := a\<rparr>) st acc fin = order_inv r st acc fin"
  by (simp_all add: order_inv_def)

lemma order_inv_step:
  assumes "job_step w w'" "order_inv (jobs w) (stage w) (accepted w) (finished w)" "jobs_inv (jobs w) (stage w)"
  shows "order_inv (jobs w') (stage w') (accepted w') (finished w')"
proof -
  have st: "job_struct (current (stage w)) (jobs w)" using assms(3) by (simp add: jobs_inv_def)
  note detach = order_inv_detach [OF assms(2) st]
  show ?thesis using assms(1)
  proof (cases rule: job_step.cases)
    case (job_start r)
    then have "stage w = Absent" using assms(3) by (cases "stage w") (auto simp: start_worker_def jobs_inv_def split: if_splits)
    then show ?thesis using job_start assms(2) by (auto simp: start_worker_def releasing_slot_def intro: order_inv_stage split: if_splits)
  next
    case (job_drain x r)
    then show ?thesis using assms(2) by (auto simp: drain_enter_def split: if_splits)
  next
    case (job_submit slot t gen request mode c r)
    note l = submit_lists [OF st job_submit(3)]
    have "job_of r d = job_of (jobs w) d" if "d \<in> set (current (stage w) @ job_queue (jobs w))" for d using l(3) l(4) [of d] that by auto
    then have m: "map (slot_of r) (current (stage w) @ job_queue (jobs w)) = map (slot_of (jobs w)) (current (stage w) @ job_queue (jobs w))"
      by (intro map_cong) auto
    have "job_of r d = job_of (jobs w) d" if "d \<in> set (terminal_order (jobs w))" for d using l(3) l(4) [of d] that by auto
    then show ?thesis using assms(2) m l job_submit(1) by (simp add: order_inv_def)
  next
    case (job_take c r)
    have "job_struct [] (jobs w)" using st job_take(2) by simp
    note l = take_lists [OF this job_take(3)]
    show ?thesis using assms(2) job_take(1,2) l by (simp add: order_inv_def releasing_slot_def)
  next
    case (job_return r)
    then show ?thesis using assms(2) by (auto simp: order_inv_def worker_take_def releasing_slot_def split: list.splits option.splits if_splits)
  next
    case (job_publish c normal s out time r)
    have "job_struct [c] (jobs w)" using st job_publish(2) by simp
    note l = publish_lists [OF this job_publish(3) [symmetric]]
    have q: "c \<notin> set (job_queue (jobs w))" "c \<notin> set (terminal_order (jobs w))" using st job_publish(2) by (auto simp: job_struct_def)
    have "job_of r d = job_of (jobs w) d" if "d \<in> set (job_queue (jobs w))" for d using q l(3) [of d] that by auto
    then have m: "map (slot_of r) (job_queue (jobs w)) = map (slot_of (jobs w)) (job_queue (jobs w))" by (intro map_cong) auto
    have "job_of r d = job_of (jobs w) d" if "d \<in> set (terminal_order (jobs w))" for d using q l(3) [of d] that by auto
    then show ?thesis using assms(2) job_publish(1,2) l(1,2,4) m by (simp add: order_inv_def releasing_slot_def)
  next
    case (job_release c x r)
    then show ?thesis using removal_detaches(1) [OF st job_release(2)] detach by simp
  next
    case (job_expire now x r)
    then show ?thesis using removal_detaches(2) [OF st job_expire(2)] detach by auto
  next
    case (job_release_all x r)
    then show ?thesis using removal_detaches(2) [OF st job_release_all(2)] detach by auto
  next
    case (job_evict c normal s out x r)
    then have "order_inv r (stage w) (accepted w) (finished w)"
      using removal_detaches(3) [OF st job_evict(3)] detach assms(2) by auto
    then show ?thesis using job_evict(1,2) by (auto simp: releasing_slot_def intro: order_inv_stage)
  qed (use assms(2) in \<open>auto simp: stop_jobs_def drain_leave_def releasing_slot_def intro: order_inv_stage\<close>)
qed

lemma fresh_inv_step:
  assumes "job_step w w'" "fresh_inv (accepted w) (submitting w) (abandoning w) (length (admissions (session_world w)))"
  shows "fresh_inv (accepted w') (submitting w') (abandoning w') (length (admissions (session_world w')))"
  using assms(1)
proof (cases rule: job_step.cases)
  case (job_environment sw)
  have "i < length (admissions sw)" if "i < length (admissions (session_world w))" for i
    using that session_step_grows [OF job_environment(2)] by simp
  then show ?thesis using assms(2) by (simp add: fresh_inv_def job_environment(1))
next
  case (job_admit t a s)
  have "length (admissions (session_world w)) \<notin> set (accepted w @ map fst (submitting w) @ abandoning w)"
    using assms(2) by (auto simp: fresh_inv_def)
  then show ?thesis using assms(2) unfolding fresh_inv_def job_admit(1) by (auto simp: less_SucI)
next
  case (job_submit slot t gen request mode c r)
  have "distinct (accepted w @ map fst (submitting w) @ abandoning w)" using assms(2) by (simp add: fresh_inv_def)
  note sub = moved_slot(1,3) [OF job_submit(2) this]
  then show ?thesis using assms(2) unfolding fresh_inv_def job_submit(1) by simp
next
  case (job_refuse slot t gen request mode e r)
  have "distinct (accepted w @ map fst (submitting w) @ abandoning w)" using assms(2) by (simp add: fresh_inv_def)
  note sub = moved_slot(2,4) [OF job_refuse(2) this]
  then show ?thesis using assms(2) unfolding fresh_inv_def job_refuse(1) by simp
next
  case (job_abandon slot a s)
  then show ?thesis using assms(2) by (auto simp: fresh_inv_def dest: notin_set_remove1)
qed (use assms(2) in simp_all)


subsection \<open>Admissions of the jobs\<close>

text \<open>Each handle with the session it is for, where the registry still needs to know.\<close>

definition wanted :: "'q JobWorld \<Rightarrow> (nat \<times> string option) list" where
  "wanted w = map (\<lambda>c. (slot_of (jobs w) c, Some (job_session (job_of (jobs w) c)))) (active_jobs w)
     @ map (\<lambda>i. (i, None)) (releasing_slot (stage w)) @ map (\<lambda>(i, t). (i, Some t)) (submitting w) @ map (\<lambda>i. (i, None)) (abandoning w)"

lemma wanted_handles: "map fst (wanted w) = job_handles w"
  by (simp add: wanted_def job_handles_def o_def case_prod_unfold)

definition handle_held :: "Admission list \<Rightarrow> nat \<times> string option \<Rightarrow> bool" where
  "handle_held as x \<longleftrightarrow> admission_owned (as ! fst x) \<and> admission_kind (as ! fst x) = Job \<and> (\<forall>t. snd x = Some t \<longrightarrow> admission_token (as ! fst x) = t)"

definition handle_inv :: "'q JobWorld \<Rightarrow> bool" where
  "handle_inv w \<longleftrightarrow> session_inv (session_world w) \<and> list_all (handle_held (admissions (session_world w))) (wanted w)"

lemma distinct_swap:
  "distinct (f @ a @ s @ b) \<Longrightarrow> distinct rl \<Longrightarrow> set rl \<subseteq> set f \<Longrightarrow> distinct (a @ rl @ s @ b)"
  by auto

lemma handles_known:
  assumes "log_inv w"
  shows "distinct (job_handles w)" "i \<in> set (job_handles w) \<Longrightarrow> i < length (admissions (session_world w))"
proof -
  have acc: "accepted w = map fst (finished w) @ map (slot_of (jobs w)) (active_jobs w)" "\<forall>i\<in>set (releasing_slot (stage w)). i \<in> fst ` set (finished w)"
    and fresh: "distinct (accepted w @ map fst (submitting w) @ abandoning w)"
      "\<forall>i\<in>set (accepted w @ map fst (submitting w) @ abandoning w). i < length (admissions (session_world w))"
    using assms unfolding log_inv_def order_inv_def fresh_inv_def active_jobs_def by blast+
  have "distinct (releasing_slot (stage w))" by (simp add: releasing_slot_def split: stage.split)
  moreover have "set (releasing_slot (stage w)) \<subseteq> fst ` set (finished w)" using acc(2) by blast
  ultimately show "distinct (job_handles w)" unfolding job_handles_def
    by (intro distinct_swap [OF fresh(1) [unfolded acc(1) append_assoc]]) simp_all
  show "i \<in> set (job_handles w) \<Longrightarrow> i < length (admissions (session_world w))"
    using fresh(2) acc(2) unfolding acc(1) job_handles_def by auto
qed

text \<open>A step inside the job registry that creates no handle.\<close>

lemma handle_inv_inner:
  assumes "handle_inv w" "session_world w' = session_world w"
    "\<And>x. x \<in> set (wanted w') \<Longrightarrow> x \<in> set (wanted w) \<or> (\<exists>t. snd x = None \<and> (fst x, Some t) \<in> set (wanted w))"
  shows "handle_inv w'"
  using assms by (fastforce simp: handle_inv_def list_all_iff handle_held_def)

lemma handle_inv_frame:
  assumes "handle_inv w" "session_inv (session_world w')" "set (wanted w') \<subseteq> set (wanted w)"
    "\<And>i. i \<in> set (job_handles w') \<Longrightarrow> admissions (session_world w') ! i = admissions (session_world w) ! i"
  shows "handle_inv w'"
proof -
  have "handle_held (admissions (session_world w')) x" if x: "x \<in> set (wanted w')" for x
  proof -
    have "fst x \<in> set (job_handles w')" using x unfolding wanted_handles [symmetric] by simp
    then show ?thesis using assms(1,3) assms(4) [of "fst x"] x by (auto simp: handle_inv_def list_all_iff handle_held_def)
  qed
  then show ?thesis using assms(2) by (simp add: handle_inv_def list_all_iff)
qed

lemma wanted_active:
  assumes "current (stage w') @ job_queue (jobs w') = current (stage w) @ job_queue (jobs w)"
    "\<And>c. c \<in> set (current (stage w) @ job_queue (jobs w)) \<Longrightarrow> slot_of (jobs w') c = slot_of (jobs w) c \<and> job_session (job_of (jobs w') c) = job_session (job_of (jobs w) c)"
    "releasing_slot (stage w') = releasing_slot (stage w)" "submitting w' = submitting w" "abandoning w' = abandoning w"
  shows "wanted w' = wanted w"
proof -
  have "map (\<lambda>c. (slot_of (jobs w') c, Some (job_session (job_of (jobs w') c)))) (active_jobs w')
      = map (\<lambda>c. (slot_of (jobs w) c, Some (job_session (job_of (jobs w) c)))) (active_jobs w)"
    using assms(2) unfolding active_jobs_def assms(1) by (intro map_cong) auto
  then show ?thesis by (simp add: wanted_def assms(3-5))
qed

lemma handle_inv_same: "handle_inv w \<Longrightarrow> session_world w' = session_world w \<Longrightarrow> wanted w' = wanted w \<Longrightarrow> handle_inv w'"
  by (simp add: handle_inv_def)

lemma handle_inv_detach:
  assumes "handle_inv w" "job_struct (current (stage w)) (jobs w)" "c \<in> set (terminal_order (jobs w))"
  shows "handle_inv (w\<lparr>jobs := detach_terminal_locked c (jobs w), detached := ds\<rparr>)"
  using assms(1) by (rule handle_inv_same) (use detach_lists [OF assms(2,3)] in \<open>auto intro!: wanted_active\<close>)

text \<open>The two places where the registry gives an admission back.\<close>

lemma handle_inv_return:
  assumes inv: "handle_inv w" "log_inv w" and slot: "slot \<in> set (job_handles w)" "slot \<notin> set (job_handles w')"
    and w': "session_world w' = (session_world w)\<lparr>sessions := s, admissions := (admissions (session_world w))[slot := a]\<rparr>" "set (wanted w') \<subseteq> set (wanted w)"
    and a: "admission_reset (admissions (session_world w) ! slot) (sessions (session_world w)) = (a, s)"
  shows "handle_inv w'"
proof (rule handle_inv_frame [OF inv(1) _ w'(2)])
  show "session_inv (session_world w')"
    using session_inv_release [OF _ handles_known(2) [OF inv(2) slot(1)] a] inv(1) by (simp add: w'(1) handle_inv_def)
  show "admissions (session_world w') ! i = admissions (session_world w) ! i" if "i \<in> set (job_handles w')" for i
    using that slot(2) by (cases "i = slot") (auto simp: w'(1))
qed

lemma handle_inv_admit:
  assumes inv: "handle_inv w" "log_inv w" and a: "admit Job t (sessions (session_world w)) = (Inr a, s)"
  shows "handle_inv (w\<lparr>session_world := (session_world w)\<lparr>sessions := s, admissions := admissions (session_world w) @ [a]\<rparr>,
          submitting := submitting w @ [(length (admissions (session_world w)), t)]\<rparr>)" (is "handle_inv ?w")
proof -
  have new: "handle_held (admissions (session_world w) @ [a]) (length (admissions (session_world w)), Some t)"
    using a by (auto simp: admit_def handle_held_def split: option.splits if_splits)
  have old: "handle_held (admissions (session_world w) @ [a]) x" if x: "x \<in> set (wanted w)" for x
  proof -
    have "fst x < length (admissions (session_world w))" using x handles_known(2) [OF inv(2)] wanted_handles [of w] by (metis image_eqI list.set_map)
    then show ?thesis using inv(1) x by (auto simp: handle_inv_def list_all_iff handle_held_def nth_append)
  qed
  have "set (wanted ?w) = insert (length (admissions (session_world w)), Some t) (set (wanted w))" by (auto simp: wanted_def active_jobs_def)
  then show ?thesis using new old session_inv_admit [OF _ a] inv(1) by (auto simp: handle_inv_def list_all_iff)
qed

lemma handle_inv_step:
  assumes "job_step w w'" "handle_inv w" "log_inv w" "jobs_inv (jobs w) (stage w)" shows "handle_inv w'"
proof -
  have st: "job_struct (current (stage w)) (jobs w)" using assms(4) by (simp add: jobs_inv_def)
  note detach = handle_inv_detach [OF assms(2) st] and same = handle_inv_same [OF assms(2)]
  show ?thesis using assms(1)
  proof (cases rule: job_step.cases)
    case (job_environment sw)
    have h: "job_handles w' = job_handles w" "wanted w' = wanted w" by (simp_all add: job_environment(1) job_handles_def wanted_def active_jobs_def)
    show ?thesis by (rule handle_inv_frame [OF assms(2)])
      (use session_inv_step [OF job_environment(2)] assms(2) job_environment(1,3) h in \<open>auto simp: handle_inv_def\<close>)
  next
    case (job_start r)
    then have "stage w = Absent" using assms(4) by (cases "stage w") (auto simp: start_worker_def jobs_inv_def split: if_splits)
    then show ?thesis using job_start by (intro same) (auto simp: start_worker_def wanted_def active_jobs_def releasing_slot_def split: if_splits)
  next
    case job_stop
    then show ?thesis by (intro same) (auto simp: stop_jobs_def wanted_def active_jobs_def)
  next
    case (job_drain x r)
    then show ?thesis by (intro same) (auto simp: drain_enter_def wanted_def active_jobs_def split: if_splits)
  next
    case job_joined
    then show ?thesis by (intro same) (auto simp: drain_leave_def wanted_def active_jobs_def releasing_slot_def)
  next
    case (job_admit t a s)
    then show ?thesis using handle_inv_admit [OF assms(2,3)] by simp
  next
    case (job_submit slot t gen request mode c r)
    note l = submit_lists [OF st job_submit(3)]
    have "job_of r d = job_of (jobs w) d" if "d \<in> set (current (stage w) @ job_queue (jobs w))" for d using l(3) l(4) [of d] that by auto
    then have a: "map (\<lambda>c. (slot_of r c, Some (job_session (job_of r c)))) (current (stage w) @ job_queue (jobs w))
        = map (\<lambda>c. (slot_of (jobs w) c, Some (job_session (job_of (jobs w) c)))) (current (stage w) @ job_queue (jobs w))"
      by (intro map_cong) auto
    have "(slot, Some t) \<in> (\<lambda>(i, t). (i, Some t)) ` set (submitting w)" using job_submit(2) by force
    then have "set (wanted w') \<subseteq> set (wanted w)"
      using a l(1,5,6) job_submit(1) image_mono [OF set_remove1_subset [of "(slot, t)" "submitting w"], of "\<lambda>(i, t). (i, Some t)"]
      by (auto simp: wanted_def active_jobs_def simp del: map_eq_conv)
    then show ?thesis by (intro handle_inv_inner [OF assms(2)]) (use job_submit(1) in auto)
  next
    case (job_refuse slot t gen request mode e r)
    have "x \<in> set (wanted w) \<or> (\<exists>t. snd x = None \<and> (fst x, Some t) \<in> set (wanted w))" if "x \<in> set (wanted w')" for x
    proof -
      have "(slot, Some t) \<in> (\<lambda>(i, t). (i, Some t)) ` set (submitting w)" using job_refuse(2) by force
      then have "(slot, Some t) \<in> set (wanted w)" by (simp add: wanted_def)
      moreover have "set (wanted w') \<subseteq> insert (slot, None) (set (wanted w))"
        using job_refuse(1) image_mono [OF set_remove1_subset [of "(slot, t)" "submitting w"], of "\<lambda>(i, t). (i, Some t)"]
        by (auto simp: wanted_def active_jobs_def)
      ultimately show ?thesis using that by (cases "x = (slot, None)") auto
    qed
    then show ?thesis by (intro handle_inv_inner [OF assms(2)]) (use job_refuse(1) in auto)
  next
    case (job_abandon slot a s)
    have "distinct (job_handles w)" by (rule handles_known(1) [OF assms(3)])
    then have "slot \<notin> set (job_handles w')" using job_abandon(1,2) by (auto simp: job_handles_def active_jobs_def)
    then show ?thesis by (intro handle_inv_return [OF assms(2,3), where slot = slot])
      (use job_abandon set_remove1_subset [of slot "abandoning w"] in \<open>auto simp: job_handles_def wanted_def active_jobs_def\<close>)
  next
    case (job_take c r)
    have "job_struct [] (jobs w)" using st job_take(2) by simp
    note l = take_lists [OF this job_take(3)]
    show ?thesis by (intro same) (use job_take(1,2) l in \<open>auto simp: releasing_slot_def intro!: wanted_active\<close>)
  next
    case (job_return r)
    then show ?thesis by (intro same) (auto simp: worker_take_def wanted_def active_jobs_def releasing_slot_def split: list.splits option.splits if_splits)
  next
    case (job_publish c normal s out time r)
    have "job_struct [c] (jobs w)" using st job_publish(2) by simp
    note l = publish_lists [OF this job_publish(3) [symmetric]]
    have "c \<notin> set (job_queue (jobs w))" using st job_publish(2) by (auto simp: job_struct_def)
    then have "job_of r d = job_of (jobs w) d" if "d \<in> set (job_queue (jobs w))" for d using l(3) [of d] that by auto
    then have "x \<in> set (wanted w) \<or> (\<exists>t. snd x = None \<and> (fst x, Some t) \<in> set (wanted w))" if "x \<in> set (wanted w')" for x
      using that job_publish(1,2) l(1) by (auto simp: wanted_def active_jobs_def releasing_slot_def)
    then show ?thesis by (intro handle_inv_inner [OF assms(2)]) (use job_publish(1) in auto)
  next
    case (job_release_admission slot a s)
    have "distinct (job_handles w)" by (rule handles_known(1) [OF assms(3)])
    then have "slot \<notin> set (job_handles w')" using job_release_admission(1,2) by (auto simp: job_handles_def active_jobs_def releasing_slot_def)
    then show ?thesis by (intro handle_inv_return [OF assms(2,3), where slot = slot])
      (use job_release_admission in \<open>auto simp: job_handles_def wanted_def active_jobs_def releasing_slot_def\<close>)
  next
    case (job_release c x r)
    then show ?thesis using removal_detaches(1) [OF st job_release(2)] detach by simp
  next
    case (job_expire now x r)
    then show ?thesis using removal_detaches(2) [OF st job_expire(2)] detach by auto
  next
    case (job_release_all x r)
    then show ?thesis using removal_detaches(2) [OF st job_release_all(2)] detach by auto
  next
    case (job_evict c normal s out x r)
    have "wanted w' = wanted w"
      using removal_detaches(3) [OF st job_evict(3)] detach_lists [OF st] job_evict(1,2)
      by (intro wanted_active) (auto simp: releasing_slot_def)
    then show ?thesis using job_evict(1) by (intro same) auto
  qed (use assms(2) in \<open>auto simp: releasing_slot_def wanted_def active_jobs_def intro!: same\<close>)
qed


subsection \<open>Outputs\<close>

definition held_outputs :: "'q ComputeRequestRegistry \<Rightarrow> nat multiset" where
  "held_outputs r = (\<Sum>c\<in>#mset (terminal_order r). mset (outputs_of (job_output (job_of r c))))"

definition output_inv :: "'q JobWorld \<Rightarrow> bool" where
  "output_inv w \<longleftrightarrow> held_outputs (jobs w) + mset (local_output (stage w)) + mset (detached w) + mset (cleaned w) = mset [0..<created w]"

lemma held_outputs_cong:
  "terminal_order r' = terminal_order r \<Longrightarrow> (\<And>c. c \<in> set (terminal_order r) \<Longrightarrow> job_output (job_of r' c) = job_output (job_of r c))
    \<Longrightarrow> held_outputs r' = held_outputs r"
  by (auto simp: held_outputs_def intro!: arg_cong [where f = sum_mset] image_mset_cong)

lemma held_outputs_detach:
  assumes "job_struct cur r" "c \<in> set (terminal_order r)"
  shows "held_outputs r = mset (outputs_of (job_output (job_of r c))) + held_outputs (detach_terminal_locked c r)"
proof -
  note d = detach_lists [OF assms]
  have "held_outputs (detach_terminal_locked c r) = (\<Sum>x\<in>#mset (remove1 c (terminal_order r)). mset (outputs_of (job_output (job_of r x))))"
  proof -
    have to: "terminal_order (detach_terminal_locked c r) = remove1 c (terminal_order r)" by (simp add: detach_terminal_locked_def)
    have "image_mset (\<lambda>x. mset (outputs_of (job_output (job_of (detach_terminal_locked c r) x)))) (mset (remove1 c (terminal_order r)))
        = image_mset (\<lambda>x. mset (outputs_of (job_output (job_of r x)))) (mset (remove1 c (terminal_order r)))"
    proof (rule image_mset_cong)
      fix x assume "x \<in># mset (remove1 c (terminal_order r))"
      then have "x \<in> set (terminal_order (detach_terminal_locked c r))" unfolding to by (simp only: set_mset_mset)
      then show "mset (outputs_of (job_output (job_of (detach_terminal_locked c r) x))) = mset (outputs_of (job_output (job_of r x)))"
        by (simp only: d(4))
    qed
    then show ?thesis unfolding held_outputs_def to by (simp only:)
  qed
  moreover have m: "mset (terminal_order r) = add_mset c (mset (remove1 c (terminal_order r)))"
    using assms(2) insert_DiffM [of c "mset (terminal_order r)"] by (simp only: mset_remove1 set_mset_mset)
  have "held_outputs r = mset (outputs_of (job_output (job_of r c)))
      + (\<Sum>x\<in>#mset (remove1 c (terminal_order r)). mset (outputs_of (job_output (job_of r x))))"
    unfolding held_outputs_def by (subst m) simp
  ultimately show ?thesis by (simp only:)
qed

lemma held_outputs_publish:
  assumes "job_struct [c] r" "r' = worker_publish c normal s out time (job_of r c) r" "out \<noteq> None \<longrightarrow> normal \<and> status_ok s"
  shows "held_outputs r' = held_outputs r + mset (outputs_of out)"
proof -
  note l = publish_lists [OF assms(1,2)]
  have "c \<notin> set (terminal_order r)" using assms(1) by (auto simp: job_struct_def)
  then have "job_of r' d = job_of r d" if "d \<in> set (terminal_order r)" for d using l(3) [of d] that by auto
  then have "(\<Sum>x\<in>#mset (terminal_order r). mset (outputs_of (job_output (job_of r' x)))) = held_outputs r"
    unfolding held_outputs_def by (auto intro!: arg_cong [where f = sum_mset] image_mset_cong)
  moreover have "job_output (job_of r' c) = out" using l(7) assms(3) by auto
  ultimately show ?thesis unfolding held_outputs_def l(2) by simp
qed

lemma local_output_simps: "local_output (Evicting c normal s out) = outputs_of out" "local_output (Stamping c normal s out) = outputs_of out"
  "local_output (Publishing c normal s out time) = outputs_of out"
  by (simp_all add: outputs_of_def)

lemma output_inv_step:
  assumes "job_step w w'" "output_inv w" "jobs_inv (jobs w) (stage w)" shows "output_inv w'"
proof -
  have st: "job_struct (current (stage w)) (jobs w)" using assms(3) by (simp add: jobs_inv_def)
  have detach: "held_outputs (jobs w) + mset (local_output (stage w)) + mset (detached w) + mset (cleaned w)
      = held_outputs (detach_terminal_locked c (jobs w)) + mset (local_output (stage w)) + mset (detached w @ outputs_of (job_output (job_of (jobs w) c))) + mset (cleaned w)"
    if "c \<in> set (terminal_order (jobs w))" for c
    using held_outputs_detach [OF st that] by (simp add: ac_simps)
  then have moved: "output_inv (w\<lparr>jobs := detach_terminal_locked c (jobs w), detached := detached w @ outputs_of (job_output (job_of (jobs w) c))\<rparr>)"
    if "c \<in> set (terminal_order (jobs w))" for c
    using that assms(2) by (simp add: output_inv_def ac_simps)
  show ?thesis using assms(1)
  proof (cases rule: job_step.cases)
    case (job_start r)
    then have "stage w = Absent" using assms(3) by (cases "stage w") (auto simp: start_worker_def jobs_inv_def split: if_splits)
    moreover have "held_outputs r = held_outputs (jobs w)" using job_start(2) by (auto simp: start_worker_def held_outputs_def split: if_splits)
    ultimately show ?thesis using job_start(1) assms(2) by (simp add: output_inv_def)
  next
    case (job_drain x r)
    then have "held_outputs r = held_outputs (jobs w)" by (auto simp: drain_enter_def held_outputs_def split: if_splits)
    then show ?thesis using job_drain(1) assms(2) by (simp add: output_inv_def)
  next
    case (job_submit slot t gen request mode c r)
    note l = submit_lists [OF st job_submit(3)]
    have "held_outputs r = held_outputs (jobs w)"
    proof (rule held_outputs_cong [OF l(2)])
      fix d assume "d \<in> set (terminal_order (jobs w))"
      then have "d \<noteq> c" using l(3) by auto
      then show "job_output (job_of r d) = job_output (job_of (jobs w) d)" by (simp add: l(4))
    qed
    then show ?thesis using job_submit(1) assms(2) by (simp add: output_inv_def)
  next
    case (job_take c r)
    have "job_struct [] (jobs w)" using st job_take(2) by simp
    note l = take_lists [OF this job_take(3)]
    have "held_outputs r = held_outputs (jobs w)" by (rule held_outputs_cong [OF l(2) l(5)])
    then show ?thesis using job_take(1,2) assms(2) by (simp add: output_inv_def)
  next
    case (job_return r)
    then have "r = jobs w" by (auto simp: worker_take_def split: list.splits option.splits if_splits)
    then show ?thesis using job_return(1,2) assms(2) by (simp add: output_inv_def)
  next
    case (job_execute c cb normal s kept dropped)
    have "\<not> (kept \<and> dropped)" using job_execute(3) by (auto simp: execute_job_def split: ComputeResultMode.splits option.splits if_splits)
    then show ?thesis using job_execute(1,2) assms(2) by (auto simp: output_inv_def atLeast0_lessThan_Suc)
  next
    case (job_publish c normal s out time r)
    have "job_struct [c] (jobs w)" "out \<noteq> None \<longrightarrow> normal \<and> status_ok s" using st job_publish(2) assms(3) by (auto simp: jobs_inv_def)
    then have "held_outputs r = held_outputs (jobs w) + mset (outputs_of out)" using held_outputs_publish job_publish(3) by metis
    then show ?thesis using job_publish(1,2) assms(2) by (simp add: output_inv_def local_output_simps ac_simps del: local_output.simps(1,2,3))
  next
    case (job_release c x r)
    note x = removal_detaches(1) [OF st job_release(2)]
    show ?thesis using moved [of c] x job_release(1) by simp
  next
    case (job_expire now x r)
    obtain c where "c \<in> set (terminal_order (jobs w))" "x = job_output (job_of (jobs w) c)" "r = detach_terminal_locked c (jobs w)"
      using removal_detaches(2) [OF st job_expire(2)] by blast
    then show ?thesis using moved [of c] job_expire(1) by simp
  next
    case (job_release_all x r)
    obtain c where "c \<in> set (terminal_order (jobs w))" "x = job_output (job_of (jobs w) c)" "r = detach_terminal_locked c (jobs w)"
      using removal_detaches(2) [OF st job_release_all(2)] by blast
    then show ?thesis using moved [of c] job_release_all(1) by simp
  next
    case (job_evict c normal s out x r)
    have "held_outputs (jobs w) + mset (local_output (stage w)) + mset (detached w) + mset (cleaned w)
        = held_outputs r + mset (local_output (stage w)) + mset (detached w @ outputs_of x) + mset (cleaned w)"
      using removal_detaches(3) [OF st job_evict(3)] detach by (auto simp: outputs_of_def)
    then show ?thesis using job_evict(1,2) assms(2) by (simp add: output_inv_def ac_simps)
  next
    case (job_cleanup n)
    have n: "mset (detached w) = add_mset n (mset (remove1 n (detached w)))"
      using job_cleanup(2) insert_DiffM [of n "mset (detached w)"] by (simp only: mset_remove1 set_mset_mset)
    show ?thesis using assms(2) unfolding output_inv_def n job_cleanup(1) by (simp add: ac_simps del: mset_remove1)
  qed (use assms(2) in \<open>auto simp: output_inv_def stop_jobs_def drain_leave_def held_outputs_def local_output_simps outputs_of_def split: option.splits\<close>)
qed


subsection \<open>All of it\<close>

definition job_inv :: "'q JobWorld \<Rightarrow> bool" where
  "job_inv w \<longleftrightarrow> jobs_inv (jobs w) (stage w) \<and> log_inv w \<and> handle_inv w \<and> output_inv w"

lemma job_inv_init: "job_init w \<Longrightarrow> job_inv w"
  using jobs_inv_init [of w]
  by (auto simp: job_inv_def job_init_def new_job_registry_def log_inv_def order_inv_def fresh_inv_def handle_inv_def wanted_def active_jobs_def
      releasing_slot_def output_inv_def held_outputs_def session_inv_init split: if_splits)

lemma job_inv_step: "job_inv w \<Longrightarrow> job_step w w' \<Longrightarrow> job_inv w'"
  unfolding job_inv_def log_inv_def [of w'] using jobs_inv_step order_inv_step fresh_inv_step handle_inv_step output_inv_step log_inv_def by blast

interpretation job_system: inv_system job_init job_step job_inv
  by unfold_locales (auto intro: job_inv_init job_inv_step)

subsection \<open>Sessions and their jobs\<close>

text \<open>
  What the job registry relies on: while an admission handle is held for a session, the session's host close is not running.
\<close>

locale admission_provider =
  fixes inv :: "'s \<Rightarrow> bool" and held :: "'s \<Rightarrow> nat \<Rightarrow> string option" and closing :: "'s \<Rightarrow> string \<Rightarrow> bool"
  assumes held_open: "inv s \<Longrightarrow> held s i = Some t \<Longrightarrow> \<not> closing s t"
begin

lemma closing_has_no_holder: "inv s \<Longrightarrow> closing s t \<Longrightarrow> (\<And>x. x \<in> X \<Longrightarrow> held s (f x) = Some (g x)) \<Longrightarrow> t \<notin> g ` X"
  using held_open by blast

end

definition job_held :: "SessionWorld \<Rightarrow> nat \<Rightarrow> string option" where
  "job_held sw i = (if i < length (admissions sw) \<and> admission_owned (admissions sw ! i) \<and> admission_kind (admissions sw ! i) = Job
     then Some (admission_token (admissions sw ! i)) else None)"

definition host_closing :: "SessionWorld \<Rightarrow> string \<Rightarrow> bool" where
  "host_closing sw t \<longleftrightarrow> list_ex (\<lambda>c. may_complete c \<and> claim_token c = t) (claims sw)"

interpretation session_admission: admission_provider session_inv job_held host_closing
proof
  fix sw i t assume inv: "session_inv sw" and h: "job_held sw i = Some t"
  have a: "admissions sw ! i \<in> set (admissions sw)" "admission_owned (admissions sw ! i)" "admission_token (admissions sw ! i) = t"
    using h by (auto simp: job_held_def split: if_splits)
  show "\<not> host_closing sw t"
  proof
    assume "host_closing sw t"
    then obtain k where k: "k < length (claims sw)" "may_complete (claims sw ! k)" "claim_token (claims sw ! k) = t"
      by (auto simp: host_closing_def list_ex_length)
    then obtain g where "invoked_tag (claims sw ! k) = Some (t, g)" using claim_stage_tags(2) [OF inv k(1)] by auto
    then obtain e where "owner_stage sw t g e HostInvoked 0 0 1" "entry_drained e" using owner_stages(3) [OF inv k(1)] by blast
    then show False using drained_no_admission [OF inv _ _ a(1,2)] a(3) by (auto simp: owner_stage_def)
  qed
qed

lemma active_job_held:
  assumes "job_inv w" "c \<in> set (active_jobs w)"
  shows "job_held (session_world w) (slot_of (jobs w) c) = Some (job_session (job_of (jobs w) c))"
proof -
  have "slot_of (jobs w) c \<in> set (job_handles w)" using assms(2) by (auto simp: job_handles_def)
  then have "slot_of (jobs w) c < length (admissions (session_world w))" using handles_known(2) assms(1) by (auto simp: job_inv_def)
  moreover have "handle_held (admissions (session_world w)) (slot_of (jobs w) c, Some (job_session (job_of (jobs w) c)))"
    using assms by (auto simp: job_inv_def handle_inv_def list_all_iff wanted_def)
  ultimately show ?thesis by (simp add: job_held_def handle_held_def)
qed

section \<open>A run\<close>

definition demo_jobs :: "bool \<Rightarrow> nat ComputeRequestRegistry" where
  "demo_jobs b = \<lparr>job_limits = \<lparr>limit_active = 1, limit_terminal = 1, terminal_ttl = 1\<rparr>, job_records = [], reserved_terminal_order = [], terminal_order = [],
     job_queue = [], active_count = 0, jobs_accepting = b, stop_requested = False, joining = False, worker_joinable = b\<rparr>"

definition demo_world :: "SessionWorld \<Rightarrow> nat JobWorld" where
  "demo_world sw = \<lparr>session_world = sw, jobs = demo_jobs False, stage = Absent, submitting = [], abandoning = [], accepted = [], finished = [],
     created = 0, detached = [], cleaned = []\<rparr>"

lemma demo_world_reach: "reachable session_init session_step sw \<Longrightarrow> reachable job_init job_step (demo_world sw)"
proof (induction rule: reachable.induct)
  case (reachable_init sw)
  have "new_job_registry \<lparr>limit_active = 1, limit_terminal = 1, terminal_ttl = 1\<rparr> = Inr (demo_jobs False)"
    by (simp add: new_job_registry_def demo_jobs_def)
  then show ?case using reachable_init by (intro reachable.reachable_init) (auto simp: job_init_def demo_world_def)
next
  case (reachable_step sw sw')
  have "job_step (demo_world sw) ((demo_world sw)\<lparr>session_world := sw'\<rparr>)"
    using reachable_step(2) by (intro job_environment) (auto simp: demo_world_def job_handles_def active_jobs_def releasing_slot_def demo_jobs_def)
  then show ?case using reachable_step(3) by (auto simp: demo_world_def intro: reachable.reachable_step)
qed


text \<open>A job of the loaded session is accepted and taken by the worker.\<close>

definition demo_admission :: Admission where
  "demo_admission = \<lparr>admission_owned = True, admission_kind = Job, admission_token = demo_cursor, admission_host = ''host''\<rparr>"

definition demo_job :: "nat JobRecord" where
  "demo_job = \<lparr>job_session = demo_cursor, job_request = 7, job_mode = StatusMode, job_state = Running, job_status = worker_fallback_status,
     job_output = None, terminal_since = 0, job_admission = 0\<rparr>"

definition demo_loaded :: SessionWorld where
  "demo_loaded = \<lparr>sessions = demo_registry Active new_close_generation, admissions = [], claims = [], closers = []\<rparr>"

lemma demo_loaded_reach: "reachable session_init session_step demo_loaded"
proof -
  have 0: "reachable session_init session_step \<lparr>sessions = new_session_registry, admissions = [], claims = [], closers = []\<rparr>"
    by (rule reachable_init) (simp add: session_init_def)
  note 1 = reachable_step [OF 0 step_reserve, simplified, OF demo_load(1)]
  show ?thesis using reachable_step [OF 1 step_commit, simplified, OF demo_load(2)] by (simp add: demo_loaded_def)
qed

lemma pick_job_id_first: "0 < n \<Longrightarrow> valid_opaque_id c \<Longrightarrow> map_of (job_records r) c = None \<Longrightarrow> pick_job_id n (\<lambda>_. c) r = Inr c"
  by (cases n) auto

definition demo_running :: "nat JobWorld" where
  "demo_running = (demo_world demo_loaded)\<lparr>
     session_world := demo_loaded\<lparr>sessions := snd (admit Job demo_cursor (sessions demo_loaded)), admissions := [demo_admission]\<rparr>,
     jobs := (demo_jobs True)\<lparr>job_records := [(demo_cursor, demo_job)], reserved_terminal_order := [demo_cursor], active_count := 1\<rparr>,
     stage := Executing demo_cursor, accepted := [0]\<rparr>"

lemma demo_running_reach: "reachable job_init job_step demo_running"
proof -
  note 0 = demo_world_reach [OF demo_loaded_reach]
  have "start_worker (demo_jobs False :: nat ComputeRequestRegistry) = (Inr True, demo_jobs True)" by (simp add: start_worker_def demo_jobs_def)
  then have 1: "reachable job_init job_step ((demo_world demo_loaded)\<lparr>jobs := demo_jobs True, stage := Idle_Worker\<rparr>)"
    using reachable_step [OF 0 job_start] by (simp add: demo_world_def)
  have a: "admit Job demo_cursor (sessions demo_loaded) = (Inr demo_admission, snd (admit Job demo_cursor (sessions demo_loaded)))"
    by (simp add: admit_def demo_loaded_def demo_registry_def admitted_def demo_admission_def)
  let ?sw = "demo_loaded\<lparr>sessions := snd (admit Job demo_cursor (sessions demo_loaded)), admissions := [demo_admission]\<rparr>"
  have 2: "reachable job_init job_step ((demo_world demo_loaded)\<lparr>jobs := demo_jobs True, stage := Idle_Worker, session_world := ?sw, submitting := [(0, demo_cursor)]\<rparr>)"
    using reachable_step [OF 1 job_admit [of demo_cursor]] a by (simp add: demo_world_def demo_loaded_def)
  let ?j = "demo_job\<lparr>job_state := Queued\<rparr>"
  let ?r = "(demo_jobs True)\<lparr>job_records := [(demo_cursor, ?j)], reserved_terminal_order := [demo_cursor], job_queue := [demo_cursor], active_count := 1\<rparr>"
  have "pick_job_id 128 (\<lambda>_. demo_cursor) (demo_jobs True :: nat ComputeRequestRegistry) = Inr demo_cursor"
    using demo_cursor_valid by (intro pick_job_id_first) (simp_all add: demo_jobs_def)
  then have "submit_locked (\<lambda>_. demo_cursor) demo_cursor 0 7 StatusMode (demo_jobs True) = (Inr demo_cursor, ?r)"
    by (simp add: submit_locked_def) (simp add: demo_jobs_def demo_job_def)
  then have 3: "reachable job_init job_step ((demo_world demo_loaded)\<lparr>jobs := ?r, stage := Idle_Worker, session_world := ?sw, accepted := [0]\<rparr>)"
    using reachable_step [OF 2 job_submit [of 0 demo_cursor _ "\<lambda>_. demo_cursor" 7 StatusMode demo_cursor ?r]] by (simp add: demo_world_def)
  have "worker_take ?r = (Worker_Takes demo_cursor, (demo_jobs True)\<lparr>job_records := [(demo_cursor, demo_job)], reserved_terminal_order := [demo_cursor], active_count := 1\<rparr>)"
    by (simp add: worker_take_def demo_job_def demo_jobs_def)
  then show ?thesis using reachable_step [OF 3 job_take] by (simp add: demo_running_def demo_world_def)
qed

section \<open>Properties\<close>

text \<open>
  C3. Every accepted job runs exactly once, in order, and none is lost at shutdown. Over all interleavings of submitters, the worker,
  queries, cleanups, stop, drain and restart: the accepted jobs are those already published, then the one the worker has, then the queue, in the order of
  acceptance and without repetition; when the worker thread has returned or was joined every accepted job is published; and a result the registry reports for
  a job is the status published for it.
\<close>

theorem job_exactly_once:
  assumes "reachable job_init job_step w"
  shows "accepted w = map fst (finished w) @ map (slot_of (jobs w)) (current (stage w) @ job_queue (jobs w))
    \<and> distinct (accepted w)
    \<and> (stage w = Absent \<or> stage w = Returned \<longrightarrow> accepted w = map fst (finished w))
    \<and> (\<forall>c snap. job_result_query c (jobs w) = Inr snap \<longrightarrow>
         (\<exists>s. snapshot_status snap = Some s \<and> (slot_of (jobs w) c, s) \<in> set (finished w)))"
proof -
  have inv: "job_inv w" using assms by (rule job_system.reachable_inv)
  then have o: "order_inv (jobs w) (stage w) (accepted w) (finished w)" and f: "distinct (accepted w)"
    and j: "jobs_inv (jobs w) (stage w)" by (auto simp: job_inv_def log_inv_def fresh_inv_def)
  have st: "job_struct (current (stage w)) (jobs w)" using j by (simp add: jobs_inv_def)
  have acc: "accepted w = map fst (finished w) @ map (slot_of (jobs w)) (current (stage w) @ job_queue (jobs w))"
    using o unfolding order_inv_def by blast
  have "job_queue (jobs w) = [] \<and> current (stage w) = []" if "stage w = Absent \<or> stage w = Returned"
    using j that by (auto simp: jobs_inv_def)
  moreover have "\<exists>s. snapshot_status snap = Some s \<and> (slot_of (jobs w) c, s) \<in> set (finished w)" if q: "job_result_query c (jobs w) = Inr snap" for c snap
  proof -
    obtain j where j: "map_of (job_records (jobs w)) c = Some j" "terminal_state (job_state j)" "snap = snapshot_locked c j"
      using q by (auto simp: job_result_query_def simp del: map_of_eq_Some_iff split: option.splits if_splits)
    then have "c \<in> set (terminal_order (jobs w))" using terminal_iff [OF st j(1)] by simp
    then show ?thesis using o j by (auto simp: order_inv_def snapshot_locked_def simp del: map_of_eq_Some_iff)
  qed
  moreover have "stage w = Absent \<or> stage w = Returned \<longrightarrow> accepted w = map fst (finished w)"
    using calculation(1) acc by simp
  ultimately show ?thesis using acc f by blast
qed

theorem job_exactly_once_witness:
  "accepted demo_running = map fst (finished demo_running)
     @ map (slot_of (jobs demo_running)) (current (stage demo_running) @ job_queue (jobs demo_running)) \<and> accepted demo_running = [0]"
  using job_exactly_once [OF demo_running_reach] by (simp add: demo_running_def)

text \<open>
  C10. Closing a session waits for its jobs. In every state of the two registries together, while the host close of a session
  runs, no queued or running job and no submission in progress belongs to that session.
\<close>

theorem close_waits_for_jobs:
  assumes "reachable job_init job_step w" "host_closing (session_world w) t"
  shows "t \<notin> (\<lambda>c. job_session (job_of (jobs w) c)) ` set (current (stage w) @ job_queue (jobs w)) \<and> t \<notin> snd ` set (submitting w)"
proof -
  have inv: "job_inv w" using assms(1) by (rule job_system.reachable_inv)
  have s: "session_inv (session_world w)" using inv by (simp add: job_inv_def handle_inv_def)
  have sub: "job_held (session_world w) (fst x) = Some (snd x)" if "x \<in> set (submitting w)" for x
  proof -
    have "(fst x, Some (snd x)) \<in> set (wanted w)" "fst x \<in> set (job_handles w)"
      using that by (force simp: wanted_def, simp add: job_handles_def)
    then show ?thesis using inv handles_known(2) [of w "fst x"]
      by (auto simp: job_inv_def handle_inv_def list_all_iff handle_held_def job_held_def)
  qed
  show ?thesis
    using session_admission.closing_has_no_holder [OF s assms(2), of "set (active_jobs w)" "slot_of (jobs w)" "\<lambda>c. job_session (job_of (jobs w) c)"]
      session_admission.closing_has_no_holder [OF s assms(2), of "set (submitting w)" fst snd] active_job_held [OF inv] sub
    unfolding active_jobs_def by blast
qed

theorem close_waits_for_jobs_witness:
  "host_closing (session_world (demo_world demo_invoked)) demo_cursor
    \<and> demo_cursor \<notin> (\<lambda>c. job_session (job_of (jobs (demo_world demo_invoked)) c))
        ` set (current (stage (demo_world demo_invoked)) @ job_queue (jobs (demo_world demo_invoked)))"
proof -
  have "host_closing (session_world (demo_world demo_invoked)) demo_cursor"
    by (simp add: host_closing_def demo_world_def demo_invoked_def may_complete_def make_claim_def)
  then show ?thesis using close_waits_for_jobs [OF demo_world_reach [OF demo_invoked_reach]] by blast
qed

text \<open>
  Job capacity and retention are exact. In every reachable state the active count is the number of queued and running jobs and at most the limit, the
  retained results are at most their limit, and a result query answers not-found exactly for unknown jobs, not-ready exactly for
  active ones and a snapshot exactly for retained ones.
\<close>

theorem job_registry_bounds:
  assumes "reachable job_init job_step w"
  shows "active_count (jobs w) = length (current (stage w) @ job_queue (jobs w))
    \<and> active_count (jobs w) \<le> limit_active (job_limits (jobs w)) \<and> length (terminal_order (jobs w)) \<le> limit_terminal (job_limits (jobs w))
    \<and> (job_result_query c (jobs w) = Inl job_not_ready_status \<longleftrightarrow> c \<in> set (current (stage w) @ job_queue (jobs w)))
    \<and> (job_result_query c (jobs w) = Inl job_not_found_status \<longleftrightarrow> c \<notin> set (current (stage w) @ job_queue (jobs w) @ terminal_order (jobs w)))
    \<and> ((\<exists>snap. job_result_query c (jobs w) = Inr snap) \<longleftrightarrow> c \<in> set (terminal_order (jobs w)))"
proof -
  have "job_inv w" using assms by (rule job_system.reachable_inv)
  then have st: "job_struct (current (stage w)) (jobs w)" by (simp add: job_inv_def jobs_inv_def)
  have "job_not_ready_status \<noteq> job_not_found_status"
    by (simp add: job_not_ready_status_def job_not_found_status_def failure_status_def kJobNotReadyCode_def kJobNotFoundCode_def)
  moreover have dom: "dom (map_of (job_records (jobs w))) = set (current (stage w) @ job_queue (jobs w) @ terminal_order (jobs w))"
    and dis: "distinct (current (stage w) @ job_queue (jobs w) @ terminal_order (jobs w))"
    using st by (simp_all add: job_struct_def)
  ultimately have q: "(job_result_query c (jobs w) = Inl job_not_ready_status \<longleftrightarrow> c \<in> set (current (stage w) @ job_queue (jobs w)))
    \<and> (job_result_query c (jobs w) = Inl job_not_found_status \<longleftrightarrow> c \<notin> set (current (stage w) @ job_queue (jobs w) @ terminal_order (jobs w)))
    \<and> ((\<exists>snap. job_result_query c (jobs w) = Inr snap) \<longleftrightarrow> c \<in> set (terminal_order (jobs w)))"
  proof (cases "map_of (job_records (jobs w)) c")
    case None
    then have "c \<notin> set (current (stage w) @ job_queue (jobs w) @ terminal_order (jobs w))" using dom by blast
    then show ?thesis using None \<open>job_not_ready_status \<noteq> job_not_found_status\<close> by (auto simp: job_result_query_def)
  next
    case (Some j)
    then have "c \<in> set (current (stage w) @ job_queue (jobs w) @ terminal_order (jobs w))" using dom by blast
    then show ?thesis using Some terminal_iff [OF st Some] dis \<open>job_not_ready_status \<noteq> job_not_found_status\<close>
      by (auto simp: job_result_query_def)
  qed
  then show ?thesis using st by (simp add: job_struct_def)
qed

theorem job_registry_bounds_witness:
  "active_count (jobs demo_running) \<le> limit_active (job_limits (jobs demo_running)) \<and> active_count (jobs demo_running) = 1
    \<and> job_result_query demo_cursor (jobs demo_running) = Inl job_not_ready_status"
  using job_registry_bounds [OF demo_running_reach, of demo_cursor] by (simp add: demo_running_def)



end
