(* ===== verification/Spec2Isabelle.thy ===== *)
theory Spec2Isabelle
  imports PS_Prelude Geometry ResourceLedger Search GraphModel GraphMutation GraphTraversal
    DependencyLut RoiPropagation DirtySnapshot TaskDependency Supersession TaskPopulation
    TaskPlanning PlanExecution StateExecutor
    RequestCoordinator ComputeRun RunGroup Utf8 EventService IpcFrame SnapshotRegistry
    PageMeasurement CollectionProtocol SessionRegistry ComputeRequestRegistry
begin

text \<open>
  \<^bold>\<open>A verification library for Photospider.\<close>

  Photospider evaluates graphs of image operations. A \<^emph>\<open>graph model\<close> holds the nodes and their
  connections; \<^emph>\<open>traversal\<close> services answer questions about its structure; \<^emph>\<open>region propagation\<close> says
  which pixels of one node depend on which of another; \<^emph>\<open>dirty region\<close> snapshots record which
  pixels have changed and cut them into tiles; a plan of \<^emph>\<open>tasks\<close> with dependencies is
  executed by workers that release each other's dependents; the \<^emph>\<open>request coordinator\<close> admits compute
  requests so that the latest one of a lineage wins and schedules them on the \<^emph>\<open>serial lane\<close> of the
  graph; a \<^emph>\<open>compute run\<close> has phases, cancellation and one terminal outcome; a \<^emph>\<open>resource ledger\<close> bounds what
  the executions may hold; and a computed copy of the graph is committed back under a revision check.
  A \<^emph>\<open>daemon\<close> offers all of this to other processes: frames on a socket, sessions that are opened, admitted to and closed,
  compute jobs, collections that are read page by page, and an event ring. The theories follow that structure.

  \<^bold>\<open>Theories and the code they model\<close> (paths relative to the repository).

  Shared:

    \<^item> \<open>PS_Prelude\<close>: the exceptions of the code as values (\<open>ps_exn\<close>, with the error codes of
      \<open>include/photospider/core/graph_error.hpp\<close>), results \<open>'a res\<close> with bind and a failing fold, lemmas
      on 64-bit words and on 32/64-bit integers written as \<open>int\<close> with their ranges, reachable
      states, and the locale \<open>inv_system\<close> from which every invariant over interleavings is obtained.
    \<^item> \<open>Search\<close>: the two searches the graph code repeats (reachability with a visited set, post-order
      with a visited set), proved once in the locale \<open>finite_graph\<close>. They run on fuel, as the code
      recurses on its stack; one more than the number of nodes is proved to be enough.

  Graph and regions:

    \<^item> \<open>Geometry\<close>: \<open>src/lib/compute/compute_geometry.cpp\<close>. Rectangles of 32-bit fields whose endpoints are
      computed in 64 bits; division truncates as in C++. Clipping is exact, alignment
      rounds outward for non-negative origins (and inward for negative ones, contrary to its
      comment), scaling down and up covers.
    \<^item> \<open>GraphModel\<close>: nodes, parameters, edges, the topology index and validation of
      \<open>src/lib/graph/graph_model.cpp\<close>.
    \<^item> \<open>GraphMutation\<close>: the \<open>GraphModel\<close> class: structural operations, runtime state, compute
      snapshots, counters, effective parameters, and the commit policy of
      \<open>src/lib/runtime/kernel_compute.cpp\<close>.  Operation descriptors, payloads, disk statistics and
      task graphs are type parameters. The world of a live graph and captured snapshots is a
      step relation over any interleaving of the operations.
    \<^item> \<open>GraphTraversal\<close>: \<open>src/lib/graph/graph_traversal_service.cpp\<close> and
      \<open>src/lib/graph/graph_extent_resolver.cpp\<close>.
    \<^item> \<open>DependencyLut\<close>: the dependency table of \<open>src/lib/core/ps_types.hpp\<close>; a lookup is the hull of the
      cells a request meets.
    \<^item> \<open>RoiPropagation\<close>: \<open>src/lib/graph/roi_propagation_service.cpp\<close>: upstream demand of a node, its cached
      dependency tables, and the two worklist loops that project a region through the graph. The locale
      \<open>bounded_frontier\<close> states why such a loop ends. The loops run on fuel; the sum of the widths and heights of all
      extents is proved to be enough. Propagators, table builders and the floating-point projection are parameters.
    \<^item> \<open>DirtySnapshot\<close>: \<open>src/lib/compute/dirty_region_snapshot.hpp\<close> and
      \<open>src/lib/compute/dirty_region_snapshot_builder.cpp\<close>. The operation registry is a parameter.

  Execution:

    \<^item> \<open>ResourceLedger\<close>: \<open>src/lib/runtime/resource_ledger.cpp\<close>. The root amounts, the reservation
      states shared by owner and grants, every move and destruction. A history of handle
      operations is a step relation; conservation, exact settlement and the absence of
      termination are its invariants. The locale \<open>capacity_vector\<close> states what the accounting
      needs of a resource vector and is interpreted on the five-dimensional one.
    \<^item> \<open>TaskDependency\<close>: \<open>src/lib/compute/compute_task_dependency_state.cpp\<close>. Each atomic decrement is a step,
      so concurrent releases interleave freely; the sequential routine is proved to be one of
      the interleavings.
    \<^item> \<open>TaskPopulation\<close>: \<open>src/lib/compute/task_population_strategy.cpp\<close>. The tasks of a node: the tiles of a grid that
      partition its extent, or a single task. The operation registry (selected implementation, metadata, propagators) is a parameter.
    \<^item> \<open>TaskPlanning\<close>: \<open>src/lib/compute/task_graph_planning.cpp\<close> and \<open>input_roi_for_tile\<close> of \<open>src/lib/compute/node_executor.cpp\<close>:
      expansion of the graph, pruning to a request, selection by a dirty snapshot, and the dependencies between tasks. The coordinate index
      and the memoised extents are proved to yield exactly the tiles a task reads.
    \<^item> \<open>PlanExecution\<close>: the composition of planning with \<open>TaskDependency\<close>: a plan runs to the end in an order that respects its
      dependencies; and the two ways to select dirty tasks agree.
    \<^item> \<open>Supersession\<close>: \<open>src/lib/compute/compute_supersession.cpp\<close>. Keys with their order, generations and
      their allocator on 64-bit words.
    \<^item> \<open>StateExecutor\<close>: \<open>src/lib/graph/graph_state_executor.cpp\<close>, the bounded serial lane: admission, continuation
      tickets, the worker and the close protocol.
    \<^item> \<open>RequestCoordinator\<close>: \<open>src/lib/compute/compute_request_coordinator.cpp\<close>. One operation per critical
      section; waiting, reserving and prepared threads are explicit; callbacks are log events.
    \<^item> \<open>ComputeRun\<close>: \<open>src/lib/compute/compute_run.cpp\<close>: phases, the terminal arbiter, the commit contender, cancellation
      registrations and their dispatch, leases and settlement counters of one run.
    \<^item> \<open>RunGroup\<close>: \<open>src/lib/compute/run_group.cpp\<close>, \<open>src/lib/compute/dirty_sibling_commit_gate.cpp\<close> and the request-wide
      cancellation source of \<open>compute_run.cpp\<close>.

  Daemon:

    \<^item> \<open>Utf8\<close> and \<open>EventService\<close>: \<open>src/lib/runtime/graph_event_service.cpp\<close>. The text check against the definition of
      UTF-8, and the event ring as an implementation of a bounded queue that counts its losses.
    \<^item> \<open>IpcFrame\<close>: \<open>src/lib/ipc/frame.cpp\<close>. Reading and writing frames over a socket whose calls transfer parts, are
      interrupted or time out; the results of the system calls are a script the theorems quantify over.
    \<^item> \<open>SnapshotRegistry\<close>: \<open>src/lib/ipc/collection_snapshot_registry.cpp\<close> and its header: quota reservations, publication and paging of collections.
    \<^item> \<open>PageMeasurement\<close>: the page size search of \<open>src/lib/ipc/request_router.cpp\<close>.
    \<^item> \<open>CollectionProtocol\<close>: the client loop of \<open>src/lib/ipc/client.cpp\<close> with its budget, the handlers of the router, and
      their composition with the registry. The locales \<open>page_server\<close> and \<open>page_opening\<close> are the contract between client and
      daemon; they are interpreted on the router's handlers.
    \<^item> \<open>SessionRegistry\<close>: \<open>src/lib/ipc/session_registry.cpp\<close>: loading, admission handles, and the close protocol in which
      callers join a close generation, one of them closes the host session and all get its result.
    \<^item> \<open>ComputeRequestRegistry\<close>: \<open>src/lib/ipc/compute_request_registry.cpp\<close>: submission, the worker thread, retained
      results and shutdown. The locale \<open>admission_provider\<close> is what it needs of the session registry, on which it is interpreted.

  \<^bold>\<open>How the code is modelled.\<close> A function is a function on values; an object is a record that is passed and returned. In the
  concurrent components each critical section is one operation and a step relation lets all threads take them in any order; an
  invariant holds in every reachable state. A condition variable is the choice of when a waiting thread takes its next step, guarded by
  its predicate. Exceptions and error statuses are values. What a callback, a plugin or the system returns is a parameter or
  arbitrary.

  \<^bold>\<open>What the lemmas show.\<close> Each component has an invariant that all its operations preserve, the
  exact behaviour of its operations on every branch, and where it promises something to a
  client, that promise as a property. Claims are numbered in the order of importance; each is
  stated in words before its theorem. Two claims are counterexamples to what the code intends: closing the coordinator can
  lose a lane ticket, and a region projection can miss a path.

  \<^bold>\<open>Not modelled.\<close> Locks below the granularity of critical sections, and memory exhaustion (where a failed allocation is rolled back
  it is no step). Image payloads and pixel operations, floating-point arithmetic, file, YAML and socket system calls, plugins and
  third-party bindings, the command line: they are input and output or code outside the repository. The JSON encodings of the router
  and the client are left out because their substance is a third-party library. The execution service, the run lifecycle
  registry and the policy registry share one large locked state with device routes and telemetry; dispatch and the compute services
  mostly call the components above with callbacks of the operation registry. Of task planning, the plan summary and the cache of expansions, which
  retries while the registry changes, are left out. They are listed with their files in the manifest.
\<close>

end
